(* ===== verification/Prelude.thy ===== *)
theory Prelude
  imports Main "HOL-Library.Word" "HOL-Library.Monad_Syntax" "HOL-Library.Multiset"
begin

text \<open>
  Shared ground of the development: the machine integers of the target (a 32-bit little-endian
  MIPS, flags \<^verbatim>\<open>-mips32 -EL\<close> of basepro.lxp), the error codes of
  RTT4/include/rtdef.h, the assertion macro \<^verbatim>\<open>RT_ASSERT\<close>, byte order and
  \<^verbatim>\<open>memcpy\<close>, and the generic list and word lemmas that the component theories use.

  Conventions. A C \<^verbatim>\<open>unsigned int\<close> is a \<open>u32\<close>, an \<^verbatim>\<open>int\<close> is the
  same word read with \<open>sint\<close>. A kernel function that can hit a failing
  \<^verbatim>\<open>RT_ASSERT\<close> returns \<open>None\<close> there: \<^verbatim>\<open>rt_assert_handler\<close> never returns.
\<close>

unbundle bit_operations_syntax

section \<open>Collections of facts\<close>

named_theorems wf_simps \<open>unfolding of the well-formedness invariants\<close>
named_theorems op_defs \<open>definitions of the modelled operations\<close>
named_theorems frame_simps \<open>what an operation leaves unchanged\<close>

section \<open>Machine types\<close>

type_synonym u8 = "8 word"
type_synonym u16 = "16 word"
type_synonym u32 = "32 word"
type_synonym bytes = "8 word list"

text \<open>Error codes of RTT4/include/rtdef.h; functions return them negated, as an \<^verbatim>\<open>rt_err_t\<close>.\<close>

type_synonym rt_err_t = int

abbreviation (input) RT_EOK :: rt_err_t where "RT_EOK \<equiv> 0"
abbreviation (input) RT_ERROR :: rt_err_t where "RT_ERROR \<equiv> 1"
abbreviation (input) RT_ETIMEOUT :: rt_err_t where "RT_ETIMEOUT \<equiv> 2"
abbreviation (input) RT_EFULL :: rt_err_t where "RT_EFULL \<equiv> 3"
abbreviation (input) RT_EINTR :: rt_err_t where "RT_EINTR \<equiv> 9"

text \<open>\<^verbatim>\<open>RT_ALIGN(size, align)\<close> and \<^verbatim>\<open>RT_ALIGN_DOWN(size, align)\<close>.\<close>

definition RT_ALIGN :: "u32 \<Rightarrow> u32 \<Rightarrow> u32" where
  "RT_ALIGN sz al = (sz + al - 1) AND NOT (al - 1)"

definition RT_ALIGN_DOWN :: "u32 \<Rightarrow> u32 \<Rightarrow> u32" where
  "RT_ALIGN_DOWN sz al = sz AND NOT (al - 1)"

abbreviation (input) RT_ALIGN_SIZE :: u32 where "RT_ALIGN_SIZE \<equiv> 8"

text \<open>\<^verbatim>\<open>RT_ASSERT(EX)\<close>: execution only continues past it when the expression holds.\<close>

definition RT_ASSERT :: "bool \<Rightarrow> unit option" where
  "RT_ASSERT b = (if b then Some () else None)"

lemma RT_ASSERT_simps [simp]:
  "RT_ASSERT True = Some ()" "RT_ASSERT False = None"
  by (simp_all add: RT_ASSERT_def)

lemma RT_ASSERT_bind_Some [simp]:
  "(RT_ASSERT b \<bind> f = Some x) \<longleftrightarrow> b \<and> f () = Some x"
  by (simp add: RT_ASSERT_def)

lemma bind_Some_iff:
  "(m \<bind> f = Some x) \<longleftrightarrow> (\<exists>y. m = Some y \<and> f y = Some x)"
  by (cases m) simp_all

section \<open>Words\<close>

lemma unat_of_nat_less [simp]:
  "n < 2 ^ LENGTH('a::len) \<Longrightarrow> unat (of_nat n :: 'a word) = n"
  by (simp add: unat_of_nat)

lemma u8_bound: "unat (w :: u8) < 256"
  using unsigned_less [of w, where ?'a = nat] by simp

lemma u16_bound: "unat (w :: u16) < 65536"
  using unsigned_less [of w, where ?'a = nat] by simp

lemma u32_bound: "unat (w :: u32) < 4294967296"
  using unsigned_less [of w, where ?'a = nat] by simp

lemma unat_plus_one: "unat (w + 1) = unat w + 1" if "unat w + 1 < 2 ^ LENGTH('a)" for w :: "'a::len word"
proof -
  have "unat (w + 1) = (unat w + unat (1 :: 'a word)) mod 2 ^ LENGTH('a)"
    by (rule unat_word_ariths(1))
  with that show ?thesis by simp
qed

lemma unat_minus_one_pos: "unat (w - 1) = unat w - 1" if "w \<noteq> 0" for w :: "'a::len word"
  using that by (rule unat_minus_one)

lemma bit_drop_bit_word: "bit (drop_bit k w) n \<longleftrightarrow> bit w (k + n)" for w :: "'a::len word"
  by (simp add: bit_drop_bit_eq ac_simps)

section \<open>Byte order\<close>

text \<open>The four bytes of a word in memory, lowest address first.\<close>

definition le32 :: "u32 \<Rightarrow> bytes" where
  "le32 w = [ucast w, ucast (drop_bit 8 w), ucast (drop_bit 16 w), ucast (drop_bit 24 w)]"

definition of_le32 :: "u8 \<Rightarrow> u8 \<Rightarrow> u8 \<Rightarrow> u8 \<Rightarrow> u32" where
  "of_le32 a b c d = ucast a OR push_bit 8 (ucast b) OR push_bit 16 (ucast c) OR push_bit 24 (ucast d)"

lemma length_le32 [simp]: "length (le32 w) = 4"
  by (simp add: le32_def)

lemma of_le32_le32 [simp]:
  "of_le32 (ucast w) (ucast (drop_bit 8 w)) (ucast (drop_bit 16 w)) (ucast (drop_bit 24 w)) = w"
  (is "?l = _")
proof (rule bit_word_eqI)
  fix n assume n: "n < LENGTH(32)"
  consider "n < 8" | "8 \<le> n \<and> n < 16" | "16 \<le> n \<and> n < 24" | "24 \<le> n" by linarith
  then show "bit ?l n \<longleftrightarrow> bit w n"
    using n by cases (auto simp: of_le32_def bit_simps)
qed

section \<open>Memory blocks\<close>

text \<open>\<^verbatim>\<open>memcpy(&dst[off], src, length src)\<close> on a block of memory; the block keeps its length
  when the copy stays inside it.\<close>

definition memcpy_at :: "nat \<Rightarrow> 'a list \<Rightarrow> 'a list \<Rightarrow> 'a list" where
  "memcpy_at off src dst = take off dst @ src @ drop (off + length src) dst"

lemma length_memcpy_at [simp]:
  "off + length src \<le> length dst \<Longrightarrow> length (memcpy_at off src dst) = length dst"
  by (simp add: memcpy_at_def)

lemma take_memcpy_at_0 [simp]: "take (length src) (memcpy_at 0 src dst) = src"
  by (simp add: memcpy_at_def)

lemma memcpy_at_0_append: "memcpy_at 0 src dst = src @ drop (length src) dst"
  by (simp add: memcpy_at_def)

lemma nth_memcpy_at:
  assumes "off + length src \<le> length dst" "i < length dst"
  shows "memcpy_at off src dst ! i =
    (if i < off then dst ! i else if i < off + length src then src ! (i - off) else dst ! i)"
  using assms by (auto simp: memcpy_at_def nth_append min_def)

lemma memcpy_at_Nil [simp]: "memcpy_at off [] dst = dst"
  by (simp add: memcpy_at_def)

section \<open>Lists\<close>

lemma removeAll_id: "x \<notin> set xs \<Longrightarrow> removeAll x xs = xs"
  by (induction xs) auto

lemma distinct_removeAll_length:
  "distinct xs \<Longrightarrow> x \<in> set xs \<Longrightarrow> length (removeAll x xs) = length xs - 1"
  by (simp add: distinct_remove1_removeAll [symmetric] length_remove1)

lemma map_upd_other [simp]:
  "i \<notin> set xs \<Longrightarrow> map (\<lambda>j. f (P[i := s] ! j)) xs = map (\<lambda>j. f (P ! j)) xs"
  by (induction xs) auto

lemma hd_in_set_nonempty: "xs \<noteq> [] \<Longrightarrow> hd xs \<in> set xs"
  by simp

end
