(* ===== verification/Bounded_Fifo.thy ===== *)
theory Bounded_Fifo
  imports Prelude
begin

text \<open>
  The contract shared by the message queue and the mailbox of RTT4/src/ipc.c, as the threads of
  the application use them: a bounded first-in first-out store whose \<open>put\<close> answers
  \<^verbatim>\<open>RT_EOK\<close>, or \<^verbatim>\<open>-RT_EFULL\<close> without any change when the store is full.
  \<open>carries m x\<close> says that the stored item \<open>x\<close> holds the message \<open>m\<close> that was put (a queue slot
  is longer than a short message, so the two differ for the message queue).
  The lemmas about sequences of operations are proved here once; theories Mq_Pool and Mailbox
  interpret the locale on the code's data structures.
\<close>

text \<open>A run of puts, ignoring the error codes as the application does.\<close>

primrec put_all :: "('m \<Rightarrow> 'q \<Rightarrow> rt_err_t \<times> 'q) \<Rightarrow> 'm list \<Rightarrow> 'q \<Rightarrow> 'q" where
  "put_all put [] q = q"
| "put_all put (m # ms) q = put_all put ms (snd (put m q))"

text \<open>At most \<open>n\<close> gets, collecting what comes out.\<close>

primrec get_n :: "('q \<Rightarrow> ('x \<times> 'q) option) \<Rightarrow> nat \<Rightarrow> 'q \<Rightarrow> 'x list \<times> 'q" where
  "get_n get 0 q = ([], q)"
| "get_n get (Suc n) q = (case get q of None \<Rightarrow> ([], q)
     | Some (x, q') \<Rightarrow> (case get_n get n q' of (xs, q'') \<Rightarrow> (x # xs, q'')))"

locale bounded_fifo =
  fixes inv :: "'q \<Rightarrow> bool"
    and contents :: "'q \<Rightarrow> 'x list"
    and cap :: "'q \<Rightarrow> nat"
    and accepts :: "'q \<Rightarrow> 'm \<Rightarrow> bool"
    and carries :: "'m \<Rightarrow> 'x \<Rightarrow> bool"
    and put :: "'m \<Rightarrow> 'q \<Rightarrow> rt_err_t \<times> 'q"
    and get :: "'q \<Rightarrow> ('x \<times> 'q) option"
  assumes len_le_cap: "inv q \<Longrightarrow> length (contents q) \<le> cap q"
    and put_room: "inv q \<Longrightarrow> accepts q m \<Longrightarrow> length (contents q) < cap q \<Longrightarrow>
      \<exists>x q'. put m q = (RT_EOK, q') \<and> carries m x \<and> contents q' = contents q @ [x] \<and> inv q'
        \<and> cap q' = cap q \<and> accepts q' = accepts q"
    and put_full: "inv q \<Longrightarrow> accepts q m \<Longrightarrow> length (contents q) = cap q \<Longrightarrow>
      put m q = (- RT_EFULL, q)"
    and get_some: "inv q \<Longrightarrow> contents q = x # xs \<Longrightarrow>
      \<exists>q'. get q = Some (x, q') \<and> contents q' = xs \<and> inv q' \<and> cap q' = cap q \<and> accepts q' = accepts q"
    and get_none: "inv q \<Longrightarrow> contents q = [] \<Longrightarrow> get q = None"
begin

lemma put_code: "inv q \<Longrightarrow> accepts q m \<Longrightarrow>
    fst (put m q) = (if length (contents q) < cap q then RT_EOK else - RT_EFULL)"
  using put_room [of q m] put_full [of q m] len_le_cap [of q]
  by (cases "length (contents q) < cap q") auto

lemma put_inv:
  assumes "inv q" "accepts q m"
  shows "inv (snd (put m q)) \<and> cap (snd (put m q)) = cap q \<and> accepts (snd (put m q)) = accepts q"
proof (cases "length (contents q) < cap q")
  case True
  from put_room [OF assms True] show ?thesis by auto
next
  case False
  with len_le_cap [OF assms(1)] put_full [OF assms] assms show ?thesis by simp
qed

text \<open>Nothing that is already stored is lost or reordered by a put.\<close>

lemma put_keeps:
  assumes "inv q" "accepts q m"
  shows "take (length (contents q)) (contents (snd (put m q))) = contents q"
proof (cases "length (contents q) < cap q")
  case True
  from put_room [OF assms True] show ?thesis by auto
next
  case False
  with len_le_cap [OF assms(1)] put_full [OF assms] show ?thesis by simp
qed

lemma put_all_contents:
  assumes "inv q" "\<forall>m \<in> set ms. accepts q m" "length (contents q) + length ms \<le> cap q"
  shows "\<exists>xs. list_all2 carries ms xs \<and> contents (put_all put ms q) = contents q @ xs
    \<and> inv (put_all put ms q)"
  using assms
proof (induction ms arbitrary: q)
  case Nil
  then show ?case by auto
next
  case (Cons m ms)
  then have "length (contents q) < cap q" by simp
  from put_room [OF Cons.prems(1) _ this, of m] Cons.prems(2)
  obtain x q' where p: "put m q = (RT_EOK, q')" "carries m x" "contents q' = contents q @ [x]"
    "inv q'" "cap q' = cap q" "accepts q' = accepts q" by auto
  with Cons.prems have "\<exists>xs. list_all2 carries ms xs \<and> contents (put_all put ms q') = contents q' @ xs
    \<and> inv (put_all put ms q')"
    by (intro Cons.IH) auto
  with p show ?case by auto
qed

lemma get_n_contents:
  "inv q \<Longrightarrow> n \<le> length (contents q) \<Longrightarrow>
    fst (get_n get n q) = take n (contents q) \<and> contents (snd (get_n get n q)) = drop n (contents q)
    \<and> inv (snd (get_n get n q))"
proof (induction n arbitrary: q)
  case 0
  then show ?case by simp
next
  case (Suc n)
  then obtain x xs where c: "contents q = x # xs" by (cases "contents q") auto
  from get_some [OF Suc.prems(1) c] obtain q' where
    g: "get q = Some (x, q')" "contents q' = xs" "inv q'" by auto
  from Suc.IH [OF g(3)] Suc.prems(2) c g(2) have
    "fst (get_n get n q') = take n xs \<and> contents (snd (get_n get n q')) = drop n xs \<and> inv (snd (get_n get n q'))"
    by simp
  with g(1) c show ?case by (auto split: prod.splits)
qed

text \<open>First in, first out: what was put into an empty store comes out in the order it went in.\<close>

lemma fifo:
  assumes "inv q" "contents q = []" "\<forall>m \<in> set ms. accepts q m" "length ms \<le> cap q"
  shows "list_all2 carries ms (fst (get_n get (length ms) (put_all put ms q)))"
proof -
  from put_all_contents [OF assms(1,3)] assms(2,4) obtain xs where
    xs: "list_all2 carries ms xs" "contents (put_all put ms q) = xs" "inv (put_all put ms q)"
    by auto
  from xs(1) have "length ms = length xs" by (rule list_all2_lengthD)
  with get_n_contents [OF xs(3), of "length ms"] xs show ?thesis by simp
qed

end

end
