(* ===== verification/Mq_Pool.thy ===== *)
theory Mq_Pool
  imports Bounded_Fifo
begin

text \<open>
  The message store of a message queue (\<^verbatim>\<open>struct rt_messagequeue\<close> of RTT4/include/rtdef.h
  and the \<^verbatim>\<open>rt_mq_*\<close> functions of RTT4/src/ipc.c), without the suspended threads, which
  theory Ipc_Mq adds. The pool is an array of slots; a slot holds the link word of
  \<^verbatim>\<open>struct rt_mq_message\<close> and the message bytes that follow it, and a pointer to a slot is
  its index. \<^verbatim>\<open>rt_mq_send_wait\<close> and \<^verbatim>\<open>rt_mq_recv\<close> unlock the interrupts while they
  copy a message, so each is a sequence of atomic sections, one definition per section; the
  invariant counts the slots that are between two sections as in flight.
\<close>

record mq_msg =
  nxt :: "nat option"
  body :: bytes

record rt_mq =
  mq_pool :: "mq_msg list"
  mq_msg_size :: u16
  mq_max_msgs :: u16
  mq_entry :: u16
  mq_head :: "nat option"
  mq_tail :: "nat option"
  mq_free :: "nat option"

section \<open>Operations\<close>

text \<open>The loop of \<^verbatim>\<open>rt_mq_init\<close> and \<^verbatim>\<open>rt_mq_create\<close> that puts every slot on the
  free list, after its first \<open>n\<close> rounds.\<close>

primrec mq_free_loop :: "nat \<Rightarrow> rt_mq \<Rightarrow> rt_mq" where
  "mq_free_loop 0 q = q"
| "mq_free_loop (Suc temp) q =
     (let q = mq_free_loop temp q
      in q\<lparr>mq_pool := (mq_pool q)[temp := (mq_pool q ! temp)\<lparr>nxt := mq_free q\<rparr>],
           mq_free := Some temp\<rparr>)"

text \<open>The initial message store over a pool of raw slots: both creation functions end this way.\<close>

definition mq_setup :: "mq_msg list \<Rightarrow> u16 \<Rightarrow> u16 \<Rightarrow> rt_mq" where
  "mq_setup pool msgsz maxm =
     (let q = \<lparr>mq_pool = pool, mq_msg_size = msgsz, mq_max_msgs = maxm, mq_entry = 0,
               mq_head = None, mq_tail = None, mq_free = None\<rparr>
      in mq_free_loop (unat maxm) q)"

text \<open>\<^verbatim>\<open>msg = mq->msg_queue_free; mq->msg_queue_free = msg->next\<close>.\<close>

definition mq_take_free :: "rt_mq \<Rightarrow> (nat \<times> rt_mq) option" where
  "mq_take_free q = (case mq_free q of None \<Rightarrow> None
     | Some m \<Rightarrow> Some (m, q\<lparr>mq_free := nxt (mq_pool q ! m)\<rparr>))"

text \<open>\<^verbatim>\<open>msg->next = RT_NULL; rt_memcpy(msg + 1, buffer, size)\<close>.\<close>

definition mq_fill :: "nat \<Rightarrow> bytes \<Rightarrow> rt_mq \<Rightarrow> rt_mq" where
  "mq_fill m buf q =
     q\<lparr>mq_pool := (mq_pool q)[m := \<lparr>nxt = None, body = memcpy_at 0 buf (body (mq_pool q ! m))\<rparr>]\<rparr>"

text \<open>Link a filled slot behind the tail and count it.\<close>

definition mq_link :: "nat \<Rightarrow> rt_mq \<Rightarrow> rt_mq" where
  "mq_link m q =
     (let q = (case mq_tail q of None \<Rightarrow> q
        | Some t \<Rightarrow> q\<lparr>mq_pool := (mq_pool q)[t := (mq_pool q ! t)\<lparr>nxt := Some m\<rparr>]\<rparr>);
          q = q\<lparr>mq_tail := Some m\<rparr>;
          q = (if mq_head q = None then q\<lparr>mq_head := Some m\<rparr> else q)
      in q\<lparr>mq_entry := mq_entry q + 1\<rparr>)"

text \<open>\<^verbatim>\<open>rt_mq_urgent\<close>: copy without touching the link word, then link in front of the head.\<close>

definition mq_fill_urgent :: "nat \<Rightarrow> bytes \<Rightarrow> rt_mq \<Rightarrow> rt_mq" where
  "mq_fill_urgent m buf q =
     q\<lparr>mq_pool := (mq_pool q)[m := (mq_pool q ! m)\<lparr>body := memcpy_at 0 buf (body (mq_pool q ! m))\<rparr>]\<rparr>"

definition mq_link_urgent :: "nat \<Rightarrow> rt_mq \<Rightarrow> rt_mq" where
  "mq_link_urgent m q =
     (let q = q\<lparr>mq_pool := (mq_pool q)[m := (mq_pool q ! m)\<lparr>nxt := mq_head q\<rparr>], mq_head := Some m\<rparr>;
          q = (if mq_tail q = None then q\<lparr>mq_tail := Some m\<rparr> else q)
      in q\<lparr>mq_entry := mq_entry q + 1\<rparr>)"

text \<open>Unlink the head slot and count down; the head is never \<^verbatim>\<open>RT_NULL\<close> here, since
  \<^verbatim>\<open>rt_mq_recv\<close> reaches this point only with a positive \<^verbatim>\<open>entry\<close>.\<close>

definition mq_take_head :: "rt_mq \<Rightarrow> (nat \<times> rt_mq) option" where
  "mq_take_head q = (case mq_head q of None \<Rightarrow> None
     | Some m \<Rightarrow>
       (let q = q\<lparr>mq_head := nxt (mq_pool q ! m)\<rparr>;
            q = (if mq_tail q = Some m then q\<lparr>mq_tail := None\<rparr> else q)
        in Some (m, q\<lparr>mq_entry := mq_entry q - 1\<rparr>)))"

text \<open>\<^verbatim>\<open>rt_memcpy(buffer, msg + 1, size > mq->msg_size ? mq->msg_size : size)\<close>: the bytes
  that reach the receive buffer.\<close>

definition mq_copy_out :: "nat \<Rightarrow> nat \<Rightarrow> rt_mq \<Rightarrow> bytes" where
  "mq_copy_out m sz q =
     take (if sz > unat (mq_msg_size q) then unat (mq_msg_size q) else sz) (body (mq_pool q ! m))"

text \<open>\<^verbatim>\<open>msg->next = mq->msg_queue_free; mq->msg_queue_free = msg\<close>.\<close>

definition mq_put_free :: "nat \<Rightarrow> rt_mq \<Rightarrow> rt_mq" where
  "mq_put_free m q =
     q\<lparr>mq_pool := (mq_pool q)[m := (mq_pool q ! m)\<lparr>nxt := mq_free q\<rparr>], mq_free := Some m\<rparr>"

text \<open>The non-blocking send (timeout 0) and the receive from a queue that holds a message, each
  as the sequence of its sections. Receiving from an empty queue suspends the thread (Ipc_Mq):
  here it is \<open>None\<close>.\<close>

definition mq_send :: "bytes \<Rightarrow> rt_mq \<Rightarrow> rt_err_t \<times> rt_mq" where
  "mq_send buf q =
     (if length buf > unat (mq_msg_size q) then (- RT_ERROR, q)
      else case mq_take_free q of None \<Rightarrow> (- RT_EFULL, q)
        | Some (m, q1) \<Rightarrow> (RT_EOK, mq_link m (mq_fill m buf q1)))"

definition mq_urgent :: "bytes \<Rightarrow> rt_mq \<Rightarrow> rt_err_t \<times> rt_mq" where
  "mq_urgent buf q =
     (if length buf > unat (mq_msg_size q) then (- RT_ERROR, q)
      else case mq_take_free q of None \<Rightarrow> (- RT_EFULL, q)
        | Some (m, q1) \<Rightarrow> (RT_EOK, mq_link_urgent m (mq_fill_urgent m buf q1)))"

definition mq_recv :: "nat \<Rightarrow> rt_mq \<Rightarrow> (bytes \<times> rt_mq) option" where
  "mq_recv sz q =
     (if mq_entry q = 0 then None
      else case mq_take_head q of None \<Rightarrow> None
        | Some (m, q1) \<Rightarrow> Some (mq_copy_out m sz q1, mq_put_free m q1))"

text \<open>The loop of \<^verbatim>\<open>rt_mq_control(RT_IPC_CMD_RESET)\<close> that gives every queued message
  back, with the number of slots as fuel.\<close>

primrec mq_release_loop :: "nat \<Rightarrow> rt_mq \<Rightarrow> rt_mq option" where
  "mq_release_loop 0 q = (if mq_head q = None then Some q else None)"
| "mq_release_loop (Suc n) q = (case mq_head q of None \<Rightarrow> Some q
     | Some m \<Rightarrow>
       (let q = q\<lparr>mq_head := nxt (mq_pool q ! m)\<rparr>;
            q = (if mq_tail q = Some m then q\<lparr>mq_tail := None\<rparr> else q)
        in mq_release_loop n (mq_put_free m q)))"

definition mq_reset :: "rt_mq \<Rightarrow> rt_mq option" where
  "mq_reset q = map_option (\<lambda>q. q\<lparr>mq_entry := 0\<rparr>) (mq_release_loop (length (mq_pool q)) q)"

section \<open>Invariant\<close>

text \<open>\<open>chain P p xs\<close>: following the link words from pointer \<open>p\<close> visits exactly the slots \<open>xs\<close>
  and ends at \<^verbatim>\<open>RT_NULL\<close>.\<close>

fun chain :: "mq_msg list \<Rightarrow> nat option \<Rightarrow> nat list \<Rightarrow> bool" where
  "chain P p [] \<longleftrightarrow> p = None"
| "chain P p (x # xs) \<longleftrightarrow> p = Some x \<and> x < length P \<and> chain P (nxt (P ! x)) xs"

text \<open>The pool is split into the queued slots \<open>us\<close>, the free slots \<open>fs\<close> and the slots
  \<open>fl\<close> in flight between two atomic sections.\<close>

definition mq_wf :: "nat list \<Rightarrow> nat list \<Rightarrow> nat list \<Rightarrow> rt_mq \<Rightarrow> bool" where
  "mq_wf us fs fl q \<longleftrightarrow>
     chain (mq_pool q) (mq_head q) us \<and> chain (mq_pool q) (mq_free q) fs \<and>
     mq_tail q = (if us = [] then None else Some (last us)) \<and>
     distinct (us @ fs @ fl) \<and> set (us @ fs @ fl) = {..<length (mq_pool q)} \<and>
     length (mq_pool q) = unat (mq_max_msgs q) \<and> unat (mq_entry q) = length us \<and>
     (\<forall>s \<in> set (mq_pool q). length (body s) = unat (mq_msg_size q))"

definition mq_inv :: "nat list \<Rightarrow> rt_mq \<Rightarrow> bool" where
  "mq_inv fl q \<longleftrightarrow> (\<exists>us fs. mq_wf us fs fl q)"

text \<open>The stored messages in queue order: walk \<^verbatim>\<open>entry\<close> slots from the head.\<close>

primrec mq_walk :: "mq_msg list \<Rightarrow> nat \<Rightarrow> nat option \<Rightarrow> nat list" where
  "mq_walk P 0 p = []"
| "mq_walk P (Suc n) p = (case p of None \<Rightarrow> [] | Some x \<Rightarrow> x # mq_walk P n (nxt (P ! x)))"

definition mq_contents :: "rt_mq \<Rightarrow> bytes list" where
  "mq_contents q = map (\<lambda>i. body (mq_pool q ! i)) (mq_walk (mq_pool q) (unat (mq_entry q)) (mq_head q))"

section \<open>Chains\<close>

lemma chain_bound: "chain P p xs \<Longrightarrow> \<forall>x \<in> set xs. x < length P"
  by (induction P p xs rule: chain.induct) auto

lemma chain_cong:
  "chain P p xs \<Longrightarrow> length P' = length P \<Longrightarrow> \<forall>x \<in> set xs. nxt (P' ! x) = nxt (P ! x) \<Longrightarrow> chain P' p xs"
  by (induction P p xs rule: chain.induct) auto

lemma chain_upd_other [simp]: "i \<notin> set xs \<Longrightarrow> chain (P[i := s]) p xs = chain P p xs"
  by (induction P p xs rule: chain.induct) auto

lemma chain_upd_nxt [simp]:
  "nxt s = nxt (P ! i) \<Longrightarrow> i < length P \<Longrightarrow> chain (P[i := s]) p xs = chain P p xs"
  by (induction P p xs rule: chain.induct) (auto simp: nth_list_update)

lemma chain_snoc:
  "chain P p (xs @ [t]) \<Longrightarrow> distinct (xs @ [t]) \<Longrightarrow> m \<noteq> t \<Longrightarrow> m \<notin> set xs \<Longrightarrow> m < length P \<Longrightarrow>
   nxt (P ! m) = None \<Longrightarrow> chain (P[t := (P ! t)\<lparr>nxt := Some m\<rparr>]) p (xs @ [t, m])"
  by (induction xs arbitrary: p) (auto simp: nth_list_update)

lemma chain_walk: "chain P p xs \<Longrightarrow> mq_walk P (length xs) p = xs"
  by (induction P p xs rule: chain.induct) auto

lemma chain_None: "chain P None xs \<longleftrightarrow> xs = []"
  by (cases xs) auto

lemma chain_Some: "chain P (Some x) xs \<longleftrightarrow> (\<exists>ys. xs = x # ys \<and> x < length P \<and> chain P (nxt (P ! x)) ys)"
  by (cases xs) auto

lemma mq_contents_wf: "mq_wf us fs fl q \<Longrightarrow> mq_contents q = map (\<lambda>i. body (mq_pool q ! i)) us"
  by (simp add: mq_wf_def mq_contents_def chain_walk)

lemma mq_wf_free_None: "mq_wf us fs fl q \<Longrightarrow> mq_free q = None \<longleftrightarrow> fs = []"
  by (cases fs) (auto simp: mq_wf_def chain_None)

lemma mq_wf_count: "mq_wf us fs fl q \<Longrightarrow> length us + length fs + length fl = unat (mq_max_msgs q)"
proof -
  assume w: "mq_wf us fs fl q"
  then have "card (set (us @ fs @ fl)) = length (us @ fs @ fl)"
    by (intro distinct_card) (simp add: mq_wf_def)
  with w show ?thesis by (simp add: mq_wf_def)
qed

section \<open>Every atomic section keeps the invariant\<close>

lemma mq_wfD:
  assumes "mq_wf us fs fl q"
  shows "chain (mq_pool q) (mq_head q) us" "chain (mq_pool q) (mq_free q) fs"
    "mq_tail q = (if us = [] then None else Some (last us))"
    "distinct us" "distinct fs" "distinct fl"
    "set us \<inter> set fs = {}" "set us \<inter> set fl = {}" "set fs \<inter> set fl = {}"
    "set us \<union> set fs \<union> set fl = {..<length (mq_pool q)}"
    "length (mq_pool q) = unat (mq_max_msgs q)" "unat (mq_entry q) = length us"
    "\<forall>s \<in> set (mq_pool q). length (body s) = unat (mq_msg_size q)"
  using assms by (auto simp: mq_wf_def)

lemma mq_wf_body: "mq_wf us fs fl q \<Longrightarrow> i < length (mq_pool q) \<Longrightarrow>
    length (body (mq_pool q ! i)) = unat (mq_msg_size q)"
  by (simp add: mq_wf_def)

lemma mq_wf_flight_bound: "mq_wf us fs fl q \<Longrightarrow> m \<in> set fl \<Longrightarrow> m < length (mq_pool q)"
  using mq_wfD(10) [of us fs fl q] by blast

lemma mq_wf_entry_bound: "mq_wf us fs fl q \<Longrightarrow> length us + length fl \<le> unat (mq_max_msgs q)"
  using mq_wf_count [of us fs fl q] by simp

lemma mq_wf_entry_succ: "mq_wf us fs (m # fl) q \<Longrightarrow> unat (mq_entry q + 1) = length us + 1"
  using mq_wf_entry_bound [of us fs "m # fl" q] mq_wfD(12) [of us fs "m # fl" q]
    u16_bound [of "mq_max_msgs q"]
  by (subst unat_plus_one) auto

lemma mq_take_free_wf:
  assumes "mq_wf us (m # fs) fl q"
  shows "mq_take_free q = Some (m, q\<lparr>mq_free := nxt (mq_pool q ! m)\<rparr>)"
    and "mq_wf us fs (m # fl) (q\<lparr>mq_free := nxt (mq_pool q ! m)\<rparr>)"
  using assms by (auto simp: mq_wf_def mq_take_free_def)

lemma mq_fill_wf:
  assumes w: "mq_wf us fs fl q" and m: "m \<in> set fl" and b: "length buf \<le> unat (mq_msg_size q)"
  shows "mq_wf us fs fl (mq_fill m buf q)"
proof -
  have mb: "m < length (mq_pool q)" using w m by (rule mq_wf_flight_bound)
  have "m \<notin> set us" "m \<notin> set fs" using m mq_wfD(8,9) [OF w] by auto
  with w mb b m show ?thesis
    using mq_wf_body [OF w mb]
    by (auto simp: mq_wf_def mq_fill_def dest: set_update_subset_insert [THEN subsetD])
qed

lemma mq_link_wf:
  assumes w: "mq_wf us fs (m # fl) q" and n: "nxt (mq_pool q ! m) = None"
  shows "mq_wf (us @ [m]) fs fl (mq_link m q)"
proof -
  note d = mq_wfD [OF w]
  have mb: "m < length (mq_pool q)" using mq_wf_flight_bound [OF w, of m] by simp
  have e: "unat (mq_entry q + 1) = length us + 1" by (rule mq_wf_entry_succ [OF w])
  show ?thesis
  proof (cases "us = []")
    case True
    with w n mb e show ?thesis by (auto simp: mq_wf_def mq_link_def chain_None)
  next
    case False
    then obtain ys t where us: "us = ys @ [t]" by (cases us rule: rev_cases) auto
    have tb: "t < length (mq_pool q)" using d(1) us chain_bound by fastforce
    have c: "chain ((mq_pool q)[t := (mq_pool q ! t)\<lparr>nxt := Some m\<rparr>]) (mq_head q) (ys @ [t, m])"
      using d(1,4,8) us n mb by (intro chain_snoc) auto
    have h: "mq_head q \<noteq> None" using d(1) us by (cases ys) auto
    have t: "t \<notin> set fs" using d(7) us by auto
    have "\<forall>s \<in> set ((mq_pool q)[t := (mq_pool q ! t)\<lparr>nxt := Some m\<rparr>]). length (body s) = unat (mq_msg_size q)"
      using d(13) mq_wf_body [OF w tb] by (auto dest: set_update_subset_insert [THEN subsetD])
    moreover have "mq_link m q = q\<lparr>mq_pool := (mq_pool q)[t := (mq_pool q ! t)\<lparr>nxt := Some m\<rparr>],
        mq_tail := Some m, mq_entry := mq_entry q + 1\<rparr>"
      using d(3) us h by (auto simp: mq_link_def Let_def)
    ultimately show ?thesis
      using w c t e us by (auto simp: mq_wf_def)
  qed
qed

lemma body_upd_nxt [simp]: "body (P[j := (P ! j)\<lparr>nxt := x\<rparr>] ! i) = body (P ! i)"
  by (cases "j < length P") (auto simp: nth_list_update list_update_beyond)

lemma mq_link_bodies [simp]: "body (mq_pool (mq_link m q) ! i) = body (mq_pool q ! i)"
  by (cases "mq_tail q") (simp_all add: mq_link_def Let_def)

lemma mq_fill_urgent_wf:
  assumes w: "mq_wf us fs fl q" and m: "m \<in> set fl" and b: "length buf \<le> unat (mq_msg_size q)"
  shows "mq_wf us fs fl (mq_fill_urgent m buf q)"
proof -
  have mb: "m < length (mq_pool q)" using w m by (rule mq_wf_flight_bound)
  with w b m show ?thesis
    using mq_wf_body [OF w mb]
    by (auto simp: mq_wf_def mq_fill_urgent_def dest: set_update_subset_insert [THEN subsetD])
qed

lemma mq_link_urgent_wf:
  assumes w: "mq_wf us fs (m # fl) q"
  shows "mq_wf (m # us) fs fl (mq_link_urgent m q)"
proof -
  note d = mq_wfD [OF w]
  have mb: "m < length (mq_pool q)" using mq_wf_flight_bound [OF w, of m] by simp
  have e: "unat (mq_entry q + 1) = length us + 1" by (rule mq_wf_entry_succ [OF w])
  have "m \<notin> set us" "m \<notin> set fs" using d(8,9) by auto
  moreover have "\<forall>s \<in> set ((mq_pool q)[m := (mq_pool q ! m)\<lparr>nxt := mq_head q\<rparr>]). length (body s) = unat (mq_msg_size q)"
    using d(13) mq_wf_body [OF w mb] by (auto dest: set_update_subset_insert [THEN subsetD])
  ultimately show ?thesis
    using w mb e by (auto simp: mq_wf_def mq_link_urgent_def Let_def)
qed

lemma mq_take_head_wf:
  assumes w: "mq_wf (m # us) fs fl q"
  shows "\<exists>q'. mq_take_head q = Some (m, q') \<and> mq_wf us fs (m # fl) q' \<and> mq_pool q' = mq_pool q
    \<and> mq_msg_size q' = mq_msg_size q \<and> mq_max_msgs q' = mq_max_msgs q"
proof -
  note d = mq_wfD [OF w]
  have "mq_entry q \<noteq> 0" using d(12) by auto
  then have "unat (mq_entry q - 1) = length us" using d(12) by (simp add: unat_minus_one)
  moreover have "last us = m \<Longrightarrow> us = []" using d(4) by (cases us rule: rev_cases) auto
  ultimately show ?thesis
    using w by (auto simp: mq_wf_def mq_take_head_def Let_def)
qed

lemma mq_put_free_wf:
  assumes w: "mq_wf us fs (m # fl) q"
  shows "mq_wf us (m # fs) fl (mq_put_free m q)"
proof -
  note d = mq_wfD [OF w]
  have mb: "m < length (mq_pool q)" using mq_wf_flight_bound [OF w, of m] by simp
  have "m \<notin> set us" "m \<notin> set fs" using d(8,9) by auto
  moreover have "\<forall>s \<in> set ((mq_pool q)[m := (mq_pool q ! m)\<lparr>nxt := mq_free q\<rparr>]). length (body s) = unat (mq_msg_size q)"
    using d(13) mq_wf_body [OF w mb] by (auto dest: set_update_subset_insert [THEN subsetD])
  ultimately show ?thesis
    using w mb by (auto simp: mq_wf_def mq_put_free_def)
qed

lemma mq_put_free_bodies [simp]: "body (mq_pool (mq_put_free m q) ! i) = body (mq_pool q ! i)"
  by (simp add: mq_put_free_def)

section \<open>Functional behaviour of the whole operations\<close>

lemma mq_fill_frame [simp]:
  "mq_msg_size (mq_fill m buf q) = mq_msg_size q" "mq_max_msgs (mq_fill m buf q) = mq_max_msgs q"
  "length (mq_pool (mq_fill m buf q)) = length (mq_pool q)"
  by (simp_all add: mq_fill_def)

lemma mq_link_frame [simp]:
  "mq_msg_size (mq_link m q) = mq_msg_size q" "mq_max_msgs (mq_link m q) = mq_max_msgs q"
  "length (mq_pool (mq_link m q)) = length (mq_pool q)"
  by (cases "mq_tail q"; simp add: mq_link_def Let_def)+

lemma mq_send_room:
  assumes w: "mq_wf us (m # fs) fl q" and b: "length buf \<le> unat (mq_msg_size q)"
  shows "\<exists>q'. mq_send buf q = (RT_EOK, q') \<and> mq_wf (us @ [m]) fs fl q'
    \<and> mq_contents q' = mq_contents q @ [memcpy_at 0 buf (body (mq_pool q ! m))]
    \<and> mq_msg_size q' = mq_msg_size q \<and> mq_max_msgs q' = mq_max_msgs q"
proof -
  let ?q1 = "q\<lparr>mq_free := nxt (mq_pool q ! m)\<rparr>"
  let ?q2 = "mq_fill m buf ?q1"
  note t = mq_take_free_wf [OF w]
  have mb: "m < length (mq_pool q)" using t(2) mq_wf_flight_bound by fastforce
  have w2: "mq_wf us fs (m # fl) ?q2" using t(2) b by (intro mq_fill_wf) auto
  have n: "nxt (mq_pool ?q2 ! m) = None" using mb by (simp add: mq_fill_def)
  have w3: "mq_wf (us @ [m]) fs fl (mq_link m ?q2)" using w2 n by (rule mq_link_wf)
  have "m \<notin> set us" using mq_wfD(7) [OF w] by auto
  then have "map (\<lambda>i. body (mq_pool ?q2 ! i)) us = map (\<lambda>i. body (mq_pool q ! i)) us"
    by (simp add: mq_fill_def del: map_eq_conv)
  then have "mq_contents (mq_link m ?q2) = mq_contents q @ [memcpy_at 0 buf (body (mq_pool q ! m))]"
    using mb by (simp add: mq_contents_wf [OF w3] mq_contents_wf [OF w]) (simp add: mq_fill_def)
  moreover have "mq_send buf q = (RT_EOK, mq_link m ?q2)"
    using b t(1) by (simp add: mq_send_def)
  ultimately show ?thesis using w3 by simp
qed

lemma mq_send_full:
  "mq_wf us [] fl q \<Longrightarrow> length buf \<le> unat (mq_msg_size q) \<Longrightarrow> mq_send buf q = (- RT_EFULL, q)"
  by (simp add: mq_send_def mq_take_free_def mq_wf_def)

lemma mq_send_too_long: "length buf > unat (mq_msg_size q) \<Longrightarrow> mq_send buf q = (- RT_ERROR, q)"
  by (simp add: mq_send_def)

lemma mq_urgent_room:
  assumes w: "mq_wf us (m # fs) fl q" and b: "length buf \<le> unat (mq_msg_size q)"
  shows "\<exists>q'. mq_urgent buf q = (RT_EOK, q') \<and> mq_wf (m # us) fs fl q'
    \<and> mq_contents q' = memcpy_at 0 buf (body (mq_pool q ! m)) # mq_contents q"
proof -
  let ?q1 = "q\<lparr>mq_free := nxt (mq_pool q ! m)\<rparr>"
  let ?q2 = "mq_fill_urgent m buf ?q1"
  note t = mq_take_free_wf [OF w]
  have mb: "m < length (mq_pool q)" using t(2) mq_wf_flight_bound by fastforce
  have w2: "mq_wf us fs (m # fl) ?q2" using t(2) b by (intro mq_fill_urgent_wf) auto
  have w3: "mq_wf (m # us) fs fl (mq_link_urgent m ?q2)" using w2 by (rule mq_link_urgent_wf)
  have bo: "body (mq_pool (mq_link_urgent m ?q2) ! i) = body (mq_pool ?q2 ! i)" for i
    by (simp add: mq_link_urgent_def Let_def)
  have "m \<notin> set us" using mq_wfD(7) [OF w] by auto
  then have "map (\<lambda>i. body (mq_pool ?q2 ! i)) us = map (\<lambda>i. body (mq_pool q ! i)) us"
    by (simp add: mq_fill_urgent_def del: map_eq_conv)
  then have "mq_contents (mq_link_urgent m ?q2) = memcpy_at 0 buf (body (mq_pool q ! m)) # mq_contents q"
    using mb by (simp add: mq_contents_wf [OF w3] mq_contents_wf [OF w] bo) (simp add: mq_fill_urgent_def)
  moreover have "mq_urgent buf q = (RT_EOK, mq_link_urgent m ?q2)"
    using b t(1) by (simp add: mq_urgent_def)
  ultimately show ?thesis using w3 by simp
qed

lemma mq_recv_some:
  assumes w: "mq_wf (m # us) fs fl q"
  shows "\<exists>q'. mq_recv sz q = Some (take sz (body (mq_pool q ! m)), q') \<and> mq_wf us (m # fs) fl q'
    \<and> mq_contents q' = map (\<lambda>i. body (mq_pool q ! i)) us
    \<and> mq_msg_size q' = mq_msg_size q \<and> mq_max_msgs q' = mq_max_msgs q"
proof -
  from mq_take_head_wf [OF w] obtain q1 where q1: "mq_take_head q = Some (m, q1)"
    "mq_wf us fs (m # fl) q1" "mq_pool q1 = mq_pool q"
    "mq_msg_size q1 = mq_msg_size q" "mq_max_msgs q1 = mq_max_msgs q" by blast
  have w2: "mq_wf us (m # fs) fl (mq_put_free m q1)" using q1(2) by (rule mq_put_free_wf)
  have mb: "m < length (mq_pool q)" using chain_bound [OF mq_wfD(1) [OF w]] by simp
  have "mq_entry q \<noteq> 0" using mq_wfD(12) [OF w] by auto
  then have "mq_recv sz q = Some (take sz (body (mq_pool q ! m)), mq_put_free m q1)"
    using q1 mq_wf_body [OF w mb] by (simp add: mq_recv_def mq_copy_out_def)
  moreover have "mq_contents (mq_put_free m q1) = map (\<lambda>i. body (mq_pool q ! i)) us"
    using q1(3) by (simp add: mq_contents_wf [OF w2])
  ultimately show ?thesis using w2 q1(4,5) by (auto simp: mq_put_free_def)
qed

lemma mq_recv_none: "mq_wf [] fs fl q \<Longrightarrow> mq_recv sz q = None"
  by (auto simp: mq_recv_def mq_wf_def unat_eq_0)

section \<open>Initialisation\<close>

lemma mq_free_loop_frame [simp]:
  "mq_msg_size (mq_free_loop n q) = mq_msg_size q" "mq_max_msgs (mq_free_loop n q) = mq_max_msgs q"
  "mq_entry (mq_free_loop n q) = mq_entry q" "mq_head (mq_free_loop n q) = mq_head q"
  "mq_tail (mq_free_loop n q) = mq_tail q" "length (mq_pool (mq_free_loop n q)) = length (mq_pool q)"
  "body (mq_pool (mq_free_loop n q) ! i) = body (mq_pool q ! i)"
  by (induction n) (simp_all add: Let_def)

lemma mq_free_loop_chain:
  "mq_free q = None \<Longrightarrow> n \<le> length (mq_pool q) \<Longrightarrow>
    chain (mq_pool (mq_free_loop n q)) (mq_free (mq_free_loop n q)) (rev [0..<n])"
proof (induction n)
  case 0
  then show ?case by simp
next
  case (Suc n)
  then show ?case by (simp add: Let_def)
qed

lemma mq_setup_wf:
  assumes "length pool = unat maxm" "\<forall>s \<in> set pool. length (body s) = unat msgsz"
  shows "mq_wf [] (rev [0..<unat maxm]) [] (mq_setup pool msgsz maxm)"
proof -
  let ?q = "\<lparr>mq_pool = pool, mq_msg_size = msgsz, mq_max_msgs = maxm, mq_entry = 0,
               mq_head = None, mq_tail = None, mq_free = None\<rparr>"
  have "chain (mq_pool (mq_free_loop (unat maxm) ?q)) (mq_free (mq_free_loop (unat maxm) ?q)) (rev [0..<unat maxm])"
    using assms(1) by (intro mq_free_loop_chain) auto
  moreover have "\<forall>i < length pool. length (body (pool ! i)) = unat msgsz"
    using assms(2) by simp
  ultimately show ?thesis
    using assms(1) by (auto simp: mq_wf_def mq_setup_def Let_def in_set_conv_nth)
qed

lemma mq_setup_inv:
  "length pool = unat maxm \<Longrightarrow> \<forall>s \<in> set pool. length (body s) = unat msgsz \<Longrightarrow>
    mq_inv [] (mq_setup pool msgsz maxm) \<and> mq_contents (mq_setup pool msgsz maxm) = []
    \<and> mq_max_msgs (mq_setup pool msgsz maxm) = maxm \<and> mq_msg_size (mq_setup pool msgsz maxm) = msgsz"
  using mq_setup_wf [of pool maxm msgsz] mq_contents_wf [OF mq_setup_wf [of pool maxm msgsz]]
  by (auto simp: mq_inv_def) (auto simp: mq_setup_def Let_def)

section \<open>The queue is a bounded first-in first-out store\<close>

definition mq_get :: "rt_mq \<Rightarrow> (bytes \<times> rt_mq) option" where
  "mq_get q = mq_recv (unat (mq_msg_size q)) q"

abbreviation mq_cap :: "rt_mq \<Rightarrow> nat" where
  "mq_cap q \<equiv> unat (mq_max_msgs q)"

definition mq_accepts :: "rt_mq \<Rightarrow> bytes \<Rightarrow> bool" where
  "mq_accepts q buf \<longleftrightarrow> length buf \<le> unat (mq_msg_size q)"

definition mq_carries :: "bytes \<Rightarrow> bytes \<Rightarrow> bool" where
  "mq_carries buf x \<longleftrightarrow> take (length buf) x = buf"

lemma mq_invI: "mq_wf us fs fl q \<Longrightarrow> mq_inv fl q"
  by (auto simp: mq_inv_def)

lemma mq_inv_length: "mq_inv [] q \<Longrightarrow> length (mq_contents q) \<le> mq_cap q"
  using mq_wf_count by (fastforce simp: mq_inv_def mq_contents_wf)

lemma mq_inv_room:
  assumes "mq_inv [] q" "length (mq_contents q) < mq_cap q"
  obtains us m fs where "mq_wf us (m # fs) [] q"
proof -
  from assms(1) obtain us fs where w: "mq_wf us fs [] q" by (auto simp: mq_inv_def)
  with assms(2) mq_wf_count [OF w] have "fs \<noteq> []" by (auto simp: mq_contents_wf [OF w])
  with w that show ?thesis by (cases fs) auto
qed

lemma mq_inv_noroom:
  assumes "mq_inv [] q" "length (mq_contents q) = mq_cap q"
  obtains us where "mq_wf us [] [] q"
proof -
  from assms(1) obtain us fs where w: "mq_wf us fs [] q" by (auto simp: mq_inv_def)
  with assms(2) mq_wf_count [OF w] have "fs = []" by (auto simp: mq_contents_wf [OF w])
  with w that show ?thesis by auto
qed

lemma mq_inv_head:
  assumes "mq_inv [] q" "mq_contents q = x # xs"
  obtains m us fs where "mq_wf (m # us) fs [] q" "x = body (mq_pool q ! m)"
    "xs = map (\<lambda>i. body (mq_pool q ! i)) us"
proof -
  from assms(1) obtain us fs where w: "mq_wf us fs [] q" by (auto simp: mq_inv_def)
  with assms(2) that show ?thesis by (cases us) (auto simp: mq_contents_wf [OF w])
qed

interpretation mqf: bounded_fifo "mq_inv []" mq_contents mq_cap mq_accepts mq_carries mq_send mq_get
proof (unfold_locales, goal_cases)
  case (1 q)
  then show ?case by (rule mq_inv_length)
next
  case (2 q m)
  then obtain us i fs where w: "mq_wf us (i # fs) [] q" by (auto elim: mq_inv_room)
  from mq_send_room [OF w] 2(2) obtain q' where q': "mq_send m q = (RT_EOK, q')"
    "mq_wf (us @ [i]) fs [] q'" "mq_contents q' = mq_contents q @ [memcpy_at 0 m (body (mq_pool q ! i))]"
    "mq_msg_size q' = mq_msg_size q" "mq_max_msgs q' = mq_max_msgs q"
    by (auto simp: mq_accepts_def)
  moreover have "mq_carries m (memcpy_at 0 m (body (mq_pool q ! i)))" by (simp add: mq_carries_def)
  moreover have "mq_inv [] q'" using q'(2) by (auto simp: mq_inv_def)
  moreover have "mq_accepts q' = mq_accepts q" using q'(4) by (simp add: mq_accepts_def fun_eq_iff)
  ultimately show ?case by auto
next
  case (3 q m)
  then obtain us where "mq_wf us [] [] q" by (auto elim: mq_inv_noroom)
  with 3(2) show ?case by (intro mq_send_full) (auto simp: mq_accepts_def)
next
  case (4 q x xs)
  then obtain m us fs where w: "mq_wf (m # us) fs [] q" "x = body (mq_pool q ! m)"
    "xs = map (\<lambda>i. body (mq_pool q ! i)) us" by (auto elim: mq_inv_head)
  have "m < length (mq_pool q)" using chain_bound [OF mq_wfD(1) [OF w(1)]] by simp
  then have "length x = unat (mq_msg_size q)" using mq_wf_body [OF w(1)] w(2) by simp
  with mq_recv_some [OF w(1), of "unat (mq_msg_size q)"] w(2,3) show ?case
    by (auto simp: mq_get_def mq_accepts_def fun_eq_iff intro: mq_invI)
next
  case (5 q)
  then obtain us fs where w: "mq_wf us fs [] q" by (auto simp: mq_inv_def)
  with 5(2) have "mq_wf [] fs [] q" by (simp add: mq_contents_wf [OF w])
  then show ?case by (simp add: mq_get_def mq_recv_none)
qed

lemma mq_inv_slot_length:
  assumes "mq_inv [] q" "x \<in> set (mq_contents q)"
  shows "length x = unat (mq_msg_size q)"
proof -
  from assms(1) obtain us fs where w: "mq_wf us fs [] q" by (auto simp: mq_inv_def)
  with assms(2) obtain i where "i \<in> set us" "x = body (mq_pool q ! i)" by (auto simp: mq_contents_wf [OF w])
  with mq_wf_body [OF w] chain_bound [OF mq_wfD(1) [OF w]] show ?thesis by auto
qed

text \<open>What a client sees of one send and of one receive.\<close>

lemma mq_send_cases:
  assumes "mq_inv [] q"
  obtains (dropped) "snd (mq_send buf q) = q"
  | (stored) x where "take (length buf) x = buf" "mq_contents (snd (mq_send buf q)) = mq_contents q @ [x]"
    "mq_inv [] (snd (mq_send buf q))" "mq_msg_size (snd (mq_send buf q)) = mq_msg_size q"
    "mq_max_msgs (snd (mq_send buf q)) = mq_max_msgs q"
proof (cases "length buf \<le> unat (mq_msg_size q) \<and> length (mq_contents q) < mq_cap q")
  case True
  with assms obtain us m fs where w: "mq_wf us (m # fs) [] q" by (auto elim: mq_inv_room)
  from mq_send_room [OF w, of buf] True stored [of "memcpy_at 0 buf (body (mq_pool q ! m))"] show ?thesis
    by (auto dest: mq_invI)
next
  case False
  with mq_inv_length [OF assms] have "length buf > unat (mq_msg_size q)
      \<or> mq_accepts q buf \<and> length (mq_contents q) = mq_cap q" by (auto simp: mq_accepts_def)
  with mq_send_too_long mqf.put_full [OF assms, of buf] dropped show ?thesis by auto
qed

lemma mq_recv_cases:
  assumes "mq_inv [] q" "mq_recv n q = Some (b, q')"
  obtains x xs where "mq_contents q = x # xs" "b = take n x" "mq_contents q' = xs" "mq_inv [] q'"
    "mq_msg_size q' = mq_msg_size q" "mq_max_msgs q' = mq_max_msgs q" "length x = unat (mq_msg_size q)"
proof -
  from assms(1) obtain us fs where w: "mq_wf us fs [] q" by (auto simp: mq_inv_def)
  with assms(2) mq_recv_none obtain m us' where us: "us = m # us'" by (cases us) auto
  let ?x = "body (mq_pool q ! m)"
  have c: "mq_contents q = ?x # map (\<lambda>i. body (mq_pool q ! i)) us'"
    using us by (simp add: mq_contents_wf [OF w])
  have l: "length ?x = unat (mq_msg_size q)" using mq_inv_slot_length [OF assms(1)] c by simp
  from mq_recv_some [OF w [unfolded us], of n] assms(2) obtain
    "b = take n ?x" "mq_wf us' (m # fs) [] q'" "mq_contents q' = map (\<lambda>i. body (mq_pool q ! i)) us'"
    "mq_msg_size q' = mq_msg_size q" "mq_max_msgs q' = mq_max_msgs q" by auto
  with c l that [of ?x] show ?thesis by (auto intro: mq_invI)
qed

section \<open>Interleaving of the atomic sections\<close>

text \<open>
  Interrupt handlers and other threads run between the sections of a send or receive. A state
  is the queue and the slots its users hold: \<open>taken\<close> by a sender with the message it is
  about to copy, \<open>filled\<close> but not linked yet, the two stages of an urgent send, and
  \<open>leaving\<close> with a receiver that copies the message out.
\<close>

record mq_conc =
  cq :: rt_mq
  taken :: "(nat \<times> bytes) list"
  filled :: "nat list"
  utaken :: "(nat \<times> bytes) list"
  ufilled :: "nat list"
  leaving :: "nat list"

definition mq_flight :: "mq_conc \<Rightarrow> nat list" where
  "mq_flight c = map fst (taken c) @ filled c @ map fst (utaken c) @ ufilled c @ leaving c"

inductive mq_step :: "mq_conc \<Rightarrow> mq_conc \<Rightarrow> bool" where
  send_take: "mq_take_free (cq c) = Some (m, q') \<Longrightarrow> length buf \<le> unat (mq_msg_size (cq c)) \<Longrightarrow>
    mq_step c (c\<lparr>cq := q', taken := (m, buf) # taken c\<rparr>)"
| send_fill: "taken c = xs @ (m, buf) # ys \<Longrightarrow>
    mq_step c (c\<lparr>cq := mq_fill m buf (cq c), taken := xs @ ys, filled := m # filled c\<rparr>)"
| send_link: "filled c = xs @ m # ys \<Longrightarrow>
    mq_step c (c\<lparr>cq := mq_link m (cq c), filled := xs @ ys\<rparr>)"
| urgent_take: "mq_take_free (cq c) = Some (m, q') \<Longrightarrow> length buf \<le> unat (mq_msg_size (cq c)) \<Longrightarrow>
    mq_step c (c\<lparr>cq := q', utaken := (m, buf) # utaken c\<rparr>)"
| urgent_fill: "utaken c = xs @ (m, buf) # ys \<Longrightarrow>
    mq_step c (c\<lparr>cq := mq_fill_urgent m buf (cq c), utaken := xs @ ys, ufilled := m # ufilled c\<rparr>)"
| urgent_link: "ufilled c = xs @ m # ys \<Longrightarrow>
    mq_step c (c\<lparr>cq := mq_link_urgent m (cq c), ufilled := xs @ ys\<rparr>)"
| recv_take: "mq_entry (cq c) \<noteq> 0 \<Longrightarrow> mq_take_head (cq c) = Some (m, q') \<Longrightarrow>
    mq_step c (c\<lparr>cq := q', leaving := m # leaving c\<rparr>)"
| recv_put: "leaving c = xs @ m # ys \<Longrightarrow>
    mq_step c (c\<lparr>cq := mq_put_free m (cq c), leaving := xs @ ys\<rparr>)"

inductive mq_reach :: "rt_mq \<Rightarrow> mq_conc \<Rightarrow> bool" for q0 where
  start: "mq_reach q0 \<lparr>cq = q0, taken = [], filled = [], utaken = [], ufilled = [], leaving = []\<rparr>"
| step: "mq_reach q0 c \<Longrightarrow> mq_step c d \<Longrightarrow> mq_reach q0 d"

definition mq_conc_inv :: "mq_conc \<Rightarrow> bool" where
  "mq_conc_inv c \<longleftrightarrow> mq_inv (mq_flight c) (cq c) \<and> (\<forall>m \<in> set (filled c). nxt (mq_pool (cq c) ! m) = None)
     \<and> (\<forall>(m, buf) \<in> set (taken c @ utaken c). length buf \<le> unat (mq_msg_size (cq c)))"

lemma mq_wf_flight_perm: "mq_wf us fs fl q \<Longrightarrow> mset fl = mset fl' \<Longrightarrow> mq_wf us fs fl' q"
  unfolding mq_wf_def distinct_append set_append
  by (metis mset_eq_imp_distinct_iff mset_eq_setD)

lemma mq_link_nxt_other: "mq_wf us fs (m # fl) q \<Longrightarrow> i \<in> set fl \<Longrightarrow>
    nxt (mq_pool (mq_link m q) ! i) = nxt (mq_pool q ! i)"
proof -
  assume w: "mq_wf us fs (m # fl) q" and i: "i \<in> set fl"
  have "\<And>t. mq_tail q = Some t \<Longrightarrow> t \<in> set us"
    using mq_wfD(3) [OF w] by (auto split: if_splits)
  then have "\<And>t. mq_tail q = Some t \<Longrightarrow> t \<noteq> i"
    using mq_wfD(8) [OF w] i by auto
  then show ?thesis
    by (cases "mq_tail q") (auto simp: mq_link_def Let_def)
qed

lemma mq_inv_perm: "mq_inv fl q \<Longrightarrow> mset fl = mset fl' \<Longrightarrow> mq_inv fl' q"
  unfolding mq_inv_def using mq_wf_flight_perm by blast

lemma mq_inv_take_free:
  assumes "mq_inv fl q" "mq_take_free q = Some (m, q')"
  shows "mq_inv (m # fl) q' \<and> mq_pool q' = mq_pool q \<and> mq_msg_size q' = mq_msg_size q"
proof -
  from assms(1) obtain us fs where w: "mq_wf us fs fl q" by (auto simp: mq_inv_def)
  from assms(2) have "mq_free q = Some m" by (auto simp: mq_take_free_def split: option.splits)
  then obtain fs' where fs: "fs = m # fs'" using mq_wfD(2) [OF w] by (auto simp: chain_Some)
  from mq_take_free_wf [OF w [unfolded fs]] assms(2) show ?thesis by (auto intro: mq_invI)
qed

lemma mq_inv_take_head:
  assumes "mq_inv fl q" "mq_take_head q = Some (m, q')"
  shows "mq_inv (m # fl) q' \<and> mq_pool q' = mq_pool q \<and> mq_msg_size q' = mq_msg_size q"
proof -
  from assms(1) obtain us fs where w: "mq_wf us fs fl q" by (auto simp: mq_inv_def)
  from assms(2) have "mq_head q = Some m" by (auto simp: mq_take_head_def Let_def split: option.splits)
  then obtain us' where us: "us = m # us'" using mq_wfD(1) [OF w] by (auto simp: chain_Some)
  from mq_take_head_wf [OF w [unfolded us]] assms(2) show ?thesis by (auto intro: mq_invI)
qed

lemma mq_inv_fill: "mq_inv fl q \<Longrightarrow> m \<in> set fl \<Longrightarrow> length buf \<le> unat (mq_msg_size q) \<Longrightarrow>
    mq_inv fl (mq_fill m buf q) \<and> mq_inv fl (mq_fill_urgent m buf q)"
  unfolding mq_inv_def using mq_fill_wf mq_fill_urgent_wf by blast

lemma mq_inv_link: "mq_inv (m # fl) q \<Longrightarrow> nxt (mq_pool q ! m) = None \<Longrightarrow> mq_inv fl (mq_link m q)"
  unfolding mq_inv_def using mq_link_wf by blast

lemma mq_inv_link_urgent: "mq_inv (m # fl) q \<Longrightarrow> mq_inv fl (mq_link_urgent m q)"
  unfolding mq_inv_def using mq_link_urgent_wf by blast

lemma mq_inv_put_free: "mq_inv (m # fl) q \<Longrightarrow> mq_inv fl (mq_put_free m q)"
  unfolding mq_inv_def using mq_put_free_wf by blast

lemma mq_inv_distinct_flight: "mq_inv fl q \<Longrightarrow> distinct fl"
  by (auto simp: mq_inv_def mq_wf_def)

lemma mq_inv_link_nxt: "mq_inv (m # fl) q \<Longrightarrow> i \<in> set fl \<Longrightarrow>
    nxt (mq_pool (mq_link m q) ! i) = nxt (mq_pool q ! i)"
  unfolding mq_inv_def using mq_link_nxt_other by blast

lemma mq_urgent_frame [simp]:
  "mq_msg_size (mq_fill_urgent m buf q) = mq_msg_size q" "mq_msg_size (mq_link_urgent m q) = mq_msg_size q"
  "mq_msg_size (mq_put_free m q) = mq_msg_size q"
  by (simp_all add: mq_fill_urgent_def mq_link_urgent_def mq_put_free_def Let_def)

lemma mq_other_nxt [simp]:
  "i \<noteq> m \<Longrightarrow> nxt (mq_pool (mq_fill m buf q) ! i) = nxt (mq_pool q ! i)"
  "i \<noteq> m \<Longrightarrow> nxt (mq_pool (mq_put_free m q) ! i) = nxt (mq_pool q ! i)"
  "i \<noteq> m \<Longrightarrow> nxt (mq_pool (mq_link_urgent m q) ! i) = nxt (mq_pool q ! i)"
  "nxt (mq_pool (mq_fill_urgent m buf q) ! i) = nxt (mq_pool q ! i)"
  by (auto simp: mq_fill_def mq_put_free_def mq_link_urgent_def mq_fill_urgent_def Let_def)
     (cases "m < length (mq_pool q)"; cases "m = i"; simp add: list_update_beyond)

lemma nxt_None_keep:
  assumes "m \<notin> set ns" "\<forall>i \<in> set ns. nxt (P ! i) = None" "\<And>i. i \<noteq> m \<Longrightarrow> nxt (P' ! i) = nxt (P ! i)"
  shows "\<forall>i \<in> set ns. nxt (P' ! i) = None"
  using assms by metis

lemma mq_fill_nxt: "mq_inv fl q \<Longrightarrow> m \<in> set fl \<Longrightarrow> nxt (mq_pool (mq_fill m buf q) ! m) = None"
  using mq_wf_flight_bound by (fastforce simp: mq_inv_def mq_fill_def)

lemma mq_step_inv: "mq_step c d \<Longrightarrow> mq_conc_inv c \<Longrightarrow> mq_conc_inv d"
proof (induction rule: mq_step.induct)
  case (send_take c m q' buf)
  with mq_inv_take_free [of "mq_flight c" "cq c" m q'] show ?case
    by (auto simp: mq_conc_inv_def mq_flight_def)
next
  case (send_fill c xs m buf ys)
  then have i: "mq_inv (mq_flight c) (cq c)" and m: "m \<in> set (mq_flight c)"
    and b: "length buf \<le> unat (mq_msg_size (cq c))"
    by (auto simp: mq_conc_inv_def mq_flight_def)
  from mq_inv_distinct_flight [OF i] send_fill(1) have "m \<notin> set (filled c)"
    by (auto simp: mq_flight_def)
  moreover have "mq_inv (map fst (xs @ ys) @ (m # filled c) @ map fst (utaken c) @ ufilled c @ leaving c)
      (mq_fill m buf (cq c))"
    using mq_inv_fill [OF i m b] send_fill(1) by (auto simp: mq_flight_def elim!: mq_inv_perm)
  moreover have "\<forall>i \<in> set (filled c). nxt (mq_pool (mq_fill m buf (cq c)) ! i) = None"
    using send_fill(2) calculation(1) by - (rule nxt_None_keep [of m "filled c" "mq_pool (cq c)"], simp_all add: mq_conc_inv_def)
  moreover note mq_fill_nxt [OF i m, of buf]
  ultimately show ?case
    using send_fill by (auto simp: mq_conc_inv_def mq_flight_def)
next
  case (send_link c xs m ys)
  let ?fl = "map fst (taken c) @ (xs @ ys) @ map fst (utaken c) @ ufilled c @ leaving c"
  from send_link have i: "mq_inv (m # ?fl) (cq c)" and n: "nxt (mq_pool (cq c) ! m) = None"
    by (auto simp: mq_conc_inv_def mq_flight_def elim!: mq_inv_perm)
  from mq_inv_link [OF i n] mq_inv_link_nxt [OF i] send_link show ?case
    by (auto simp: mq_conc_inv_def mq_flight_def)
next
  case (urgent_take c m q' buf)
  then have "mq_inv (m # mq_flight c) q' \<and> mq_pool q' = mq_pool (cq c) \<and> mq_msg_size q' = mq_msg_size (cq c)"
    using mq_inv_take_free [of "mq_flight c" "cq c" m q'] by (simp add: mq_conc_inv_def)
  with urgent_take show ?case
    by (auto simp: mq_conc_inv_def mq_flight_def elim!: mq_inv_perm)
next
  case (urgent_fill c xs m buf ys)
  then have i: "mq_inv (mq_flight c) (cq c)" and m: "m \<in> set (mq_flight c)"
    and b: "length buf \<le> unat (mq_msg_size (cq c))"
    by (auto simp: mq_conc_inv_def mq_flight_def)
  have "mq_inv (map fst (taken c) @ filled c @ map fst (xs @ ys) @ (m # ufilled c) @ leaving c)
      (mq_fill_urgent m buf (cq c))"
    using mq_inv_fill [OF i m b] urgent_fill(1) by (auto simp: mq_flight_def elim!: mq_inv_perm)
  then show ?case
    using urgent_fill by (auto simp: mq_conc_inv_def mq_flight_def)
next
  case (urgent_link c xs m ys)
  let ?fl = "map fst (taken c) @ filled c @ map fst (utaken c) @ (xs @ ys) @ leaving c"
  from urgent_link have i: "mq_inv (m # ?fl) (cq c)"
    by (auto simp: mq_conc_inv_def mq_flight_def elim!: mq_inv_perm)
  from mq_inv_distinct_flight [OF i] have "m \<notin> set (filled c)" by simp
  then have "\<forall>i \<in> set (filled c). nxt (mq_pool (mq_link_urgent m (cq c)) ! i) = None"
    using urgent_link(2) by - (rule nxt_None_keep [of m "filled c" "mq_pool (cq c)"], simp_all add: mq_conc_inv_def)
  with mq_inv_link_urgent [OF i] urgent_link show ?case
    by (auto simp: mq_conc_inv_def mq_flight_def)
next
  case (recv_take c m q')
  then have "mq_inv (m # mq_flight c) q' \<and> mq_pool q' = mq_pool (cq c) \<and> mq_msg_size q' = mq_msg_size (cq c)"
    using mq_inv_take_head [of "mq_flight c" "cq c" m q'] by (simp add: mq_conc_inv_def)
  with recv_take show ?case
    by (auto simp: mq_conc_inv_def mq_flight_def elim!: mq_inv_perm)
next
  case (recv_put c xs m ys)
  let ?fl = "map fst (taken c) @ filled c @ map fst (utaken c) @ ufilled c @ (xs @ ys)"
  from recv_put have i: "mq_inv (m # ?fl) (cq c)"
    by (auto simp: mq_conc_inv_def mq_flight_def elim!: mq_inv_perm)
  from mq_inv_distinct_flight [OF i] have "m \<notin> set (filled c)" by simp
  then have "\<forall>i \<in> set (filled c). nxt (mq_pool (mq_put_free m (cq c)) ! i) = None"
    using recv_put(2) by - (rule nxt_None_keep [of m "filled c" "mq_pool (cq c)"], simp_all add: mq_conc_inv_def)
  with mq_inv_put_free [OF i] recv_put show ?case
    by (auto simp: mq_conc_inv_def mq_flight_def)
qed

lemma mq_step_max: "mq_step c d \<Longrightarrow> mq_max_msgs (cq d) = mq_max_msgs (cq c)"
  by (induction rule: mq_step.induct)
    (auto simp: mq_take_free_def mq_take_head_def mq_fill_urgent_def mq_link_urgent_def mq_put_free_def
      Let_def split: option.splits if_splits)

lemma mq_reach_inv:
  assumes "mq_reach q0 c" "mq_inv [] q0"
  shows "mq_conc_inv c \<and> mq_max_msgs (cq c) = mq_max_msgs q0"
  using assms(1)
proof (induction rule: mq_reach.induct)
  case start
  with assms(2) show ?case by (simp add: mq_conc_inv_def mq_flight_def)
next
  case (step c d)
  then show ?case using mq_step_inv [of c d] mq_step_max [of c d] by simp
qed

section \<open>Reset\<close>

text \<open>The reset loop leaves \<^verbatim>\<open>entry\<close> alone until it is done, so its invariant is the
  one of the queue with the count put right.\<close>

lemma mq_put_free_entry: "mq_put_free m (q\<lparr>mq_entry := e\<rparr>) = (mq_put_free m q)\<lparr>mq_entry := e\<rparr>"
  by (cases q) (simp add: mq_put_free_def)

lemma mq_release_loop_ok:
  "mq_wf us fs fl (q\<lparr>mq_entry := e\<rparr>) \<Longrightarrow> length us \<le> n \<Longrightarrow>
    \<exists>q'. mq_release_loop n q = Some q' \<and> mq_wf [] (rev us @ fs) fl (q'\<lparr>mq_entry := 0\<rparr>)"
proof (induction n arbitrary: us fs q e)
  case 0
  then show ?case by (auto simp: mq_wf_def unat_eq_0)
next
  case (Suc n)
  show ?case
  proof (cases us)
    case Nil
    with Suc.prems show ?thesis by (auto simp: mq_wf_def unat_eq_0)
  next
    case (Cons m us')
    from mq_take_head_wf [OF Suc.prems(1) [unfolded Cons]] obtain q1 where
      q1: "mq_take_head (q\<lparr>mq_entry := e\<rparr>) = Some (m, q1)" "mq_wf us' fs (m # fl) q1" by blast
    let ?q2 = "q\<lparr>mq_head := nxt (mq_pool q ! m)\<rparr>"
    let ?q3 = "if mq_tail ?q2 = Some m then ?q2\<lparr>mq_tail := None\<rparr> else ?q2"
    from Suc.prems(1) Cons have h: "mq_head q = Some m" by (simp add: mq_wf_def)
    with q1(1) have "q1 = ?q3\<lparr>mq_entry := e - 1\<rparr>"
      by (cases q) (auto simp: mq_take_head_def Let_def)
    with mq_put_free_wf [OF q1(2)] have "mq_wf us' (m # fs) fl ((mq_put_free m ?q3)\<lparr>mq_entry := e - 1\<rparr>)"
      by (simp only: mq_put_free_entry)
    from Suc.IH [OF this] Suc.prems(2) Cons h show ?thesis by (simp add: Let_def)
  qed
qed

lemma mq_reset_ok:
  assumes w: "mq_wf us fs fl q"
  shows "\<exists>q'. mq_reset q = Some q' \<and> mq_wf [] (rev us @ fs) fl q' \<and> mq_contents q' = []"
proof -
  have "length us \<le> length (mq_pool q)" using mq_wf_count [OF w] mq_wfD(11) [OF w] by simp
  moreover have "mq_wf us fs fl (q\<lparr>mq_entry := mq_entry q\<rparr>)" using w by simp
  ultimately obtain q' where q': "mq_release_loop (length (mq_pool q)) q = Some q'"
    "mq_wf [] (rev us @ fs) fl (q'\<lparr>mq_entry := 0\<rparr>)" using mq_release_loop_ok by blast
  with mq_contents_wf [OF q'(2)] show ?thesis by (simp add: mq_reset_def)
qed

section \<open>Properties\<close>

text \<open>First in, first out. Messages sent to a freshly initialised queue, at most as many as
  it has slots, are received in the order in which they were sent, each with its bytes intact.\<close>

lemma mq_fifo:
  assumes "length pool = unat maxm" "\<forall>s \<in> set pool. length (body s) = unat msgsz"
    and "\<forall>m \<in> set ms. length m \<le> unat msgsz" "length ms \<le> unat maxm"
  shows "list_all2 mq_carries ms
    (fst (get_n mq_get (length ms) (put_all mq_send ms (mq_setup pool msgsz maxm))))"
  using mq_setup_inv [OF assms(1,2)] assms(3,4)
  by (intro mqf.fifo) (auto simp: mq_accepts_def)

text \<open>C24: Safety under preemption. Whatever interrupt handlers and other threads do between the
  critical sections of sends, urgent sends and receives on one queue, no slot of its pool is lost
  and none is in two places: queued, free and in-flight slots always split the pool.\<close>

theorem mq_interleaving_safe:
  assumes "length pool = unat maxm" "\<forall>s \<in> set pool. length (body s) = unat msgsz"
    and "mq_reach (mq_setup pool msgsz maxm) c"
  shows "\<exists>us fs. mq_wf us fs (mq_flight c) (cq c)
    \<and> length us + length fs + length (mq_flight c) = unat maxm"
proof -
  from mq_reach_inv [OF assms(3)] mq_setup_inv [OF assms(1,2)]
  have i: "mq_inv (mq_flight c) (cq c)" and m: "mq_max_msgs (cq c) = maxm"
    by (auto simp: mq_conc_inv_def)
  from i obtain us fs where w: "mq_wf us fs (mq_flight c) (cq c)" by (auto simp: mq_inv_def)
  with mq_wf_count [OF w] m show ?thesis by auto
qed

theorem mq_interleaving_safe_witness:
  "\<exists>us fs. mq_wf us fs [0] (snd (the (mq_take_free (mq_setup [\<lparr>nxt = None, body = [0, 0]\<rparr>] 2 1))))
    \<and> length us + length fs + length [0::nat] = unat (1 :: u16)"
proof -
  let ?p = "[\<lparr>nxt = None, body = [0, 0]\<rparr>]"
  let ?q = "mq_setup ?p 2 1"
  let ?c0 = "\<lparr>cq = ?q, taken = [], filled = [], utaken = [], ufilled = [], leaving = []\<rparr>"
  have q: "?q = \<lparr>mq_pool = ?p, mq_msg_size = 2, mq_max_msgs = 1, mq_entry = 0, mq_head = None,
      mq_tail = None, mq_free = Some 0\<rparr>"
    by (simp add: mq_setup_def numeral_eq_Suc)
  then have t: "mq_take_free (cq ?c0) = Some (0, snd (the (mq_take_free ?q)))"
    by (simp add: mq_take_free_def)
  have "mq_reach ?q (?c0\<lparr>cq := snd (the (mq_take_free ?q)), taken := (0, [5]) # taken ?c0\<rparr>)"
    by (rule mq_reach.step [OF mq_reach.start mq_step.send_take [OF t]]) (simp add: q)
  from mq_interleaving_safe [OF _ _ this] show ?thesis by (simp add: mq_flight_def)
qed

text \<open>Sending never damages a queue. On a well-formed queue \<^verbatim>\<open>rt_mq_send\<close> answers
  \<^verbatim>\<open>-RT_ERROR\<close> for a message longer than a slot, \<^verbatim>\<open>-RT_EFULL\<close> when no slot is
  free, both without changing the queue, and otherwise \<^verbatim>\<open>RT_EOK\<close> with the message
  appended behind everything that was queued.\<close>

lemma mq_send_spec:
  assumes "mq_inv [] q"
  shows "case mq_send buf q of (r, q') \<Rightarrow> mq_inv [] q' \<and>
    (if length buf > unat (mq_msg_size q) then r = - RT_ERROR \<and> q' = q
     else if length (mq_contents q) = mq_cap q then r = - RT_EFULL \<and> q' = q
     else r = RT_EOK \<and> (\<exists>x. mq_contents q' = mq_contents q @ [x] \<and> take (length buf) x = buf))"
proof -
  consider "length buf > unat (mq_msg_size q)"
    | "mq_accepts q buf" "length (mq_contents q) = mq_cap q"
    | "mq_accepts q buf" "length (mq_contents q) < mq_cap q"
    using mq_inv_length [OF assms] by (fastforce simp: mq_accepts_def)
  then show ?thesis
  proof cases
    case 1
    with assms show ?thesis by (simp add: mq_send_too_long)
  next
    case 2
    with mqf.put_full [OF assms 2] assms show ?thesis by (simp add: mq_accepts_def)
  next
    case 3
    from mqf.put_room [OF assms 3] 3 show ?thesis by (auto simp: mq_accepts_def mq_carries_def)
  qed
qed

lemma mq_send_spec_witness:
  "mq_inv [] (mq_setup [\<lparr>nxt = None, body = [0]\<rparr>] 1 1) \<and>
   mq_contents (snd (mq_send [9] (mq_setup [\<lparr>nxt = None, body = [0]\<rparr>] 1 1))) = [[9]]"
proof -
  let ?q = "mq_setup [\<lparr>nxt = None, body = [0]\<rparr>] 1 1"
  have i: "mq_inv [] ?q \<and> mq_contents ?q = [] \<and> mq_max_msgs ?q = 1 \<and> mq_msg_size ?q = 1"
    by (intro mq_setup_inv) auto
  moreover have "mq_contents (snd (mq_send [9] ?q)) = [[9]]"
    by (simp add: mq_setup_def mq_send_def mq_take_free_def mq_fill_def mq_link_def mq_contents_def memcpy_at_def
        numeral_eq_Suc)
  ultimately show ?thesis using mq_send_spec [of ?q "[9]"] by simp
qed

end
