(* ===== verification/Gpio.thy ===== *)
theory Gpio
  imports Prelude
begin

text \<open>
  The pins and the interrupt lines of the LS1B: RTT4/port/include/ls1b_gpio.h,
  ls1x-drv/gpio/ls1x_gpio.c and the vector table and dispatcher of RTT4/port/irq.c, as compiled
  for LS1B. A register is a word in the record \<open>soc\<close>; writing the write-only
  \<^verbatim>\<open>INTC_CLR\<close> register just stores the last value written. An interrupt handler is the
  address of a function; what the functions do is an argument of the dispatcher.
  The locale \<open>irq_mask\<close> states what the application relies on: enabling and disabling one pin's
  interrupt touches no other pin's.
\<close>

section \<open>Registers\<close>

record intc_regs =
  INTC_ISR :: u32
  INTC_IEN :: u32
  INTC_CLR :: u32
  INTC_POL :: u32
  INTC_EDGE :: u32

text \<open>An entry of \<^verbatim>\<open>isr_table\<close>; handler 0 is \<^verbatim>\<open>NULL\<close>.\<close>

record irq_desc =
  handler :: nat
  param :: nat

record soc =
  GPIO_CFG :: "nat \<Rightarrow> u32"
  GPIO_EN :: "nat \<Rightarrow> u32"
  GPIO_IN :: "nat \<Rightarrow> u32"
  GPIO_OUT :: "nat \<Rightarrow> u32"
  INTC :: "u32 \<Rightarrow> intc_regs"
  isr_table :: "irq_desc list"

abbreviation (input) LS1B_INTC0_BASE :: u32 where "LS1B_INTC0_BASE \<equiv> 0xBFD01040"
abbreviation (input) LS1B_INTC1_BASE :: u32 where "LS1B_INTC1_BASE \<equiv> 0xBFD01058"
abbreviation (input) LS1B_INTC2_BASE :: u32 where "LS1B_INTC2_BASE \<equiv> 0xBFD01070"
abbreviation (input) LS1B_INTC3_BASE :: u32 where "LS1B_INTC3_BASE \<equiv> 0xBFD01088"

abbreviation (input) LS1x_IRQ_SW0 :: nat where "LS1x_IRQ_SW0 \<equiv> 32"
abbreviation (input) LS1x_IRQ_SW1 :: nat where "LS1x_IRQ_SW1 \<equiv> 33"
abbreviation (input) LS1x_IRQ_PERF :: nat where "LS1x_IRQ_PERF \<equiv> 38"
abbreviation (input) LS1x_IRQ_CNT :: nat where "LS1x_IRQ_CNT \<equiv> 39"
abbreviation (input) LS1B_IRQ0_BASE :: nat where "LS1B_IRQ0_BASE \<equiv> 40"
abbreviation (input) LS1B_IRQ1_BASE :: nat where "LS1B_IRQ1_BASE \<equiv> 72"
abbreviation (input) LS1B_IRQ2_BASE :: nat where "LS1B_IRQ2_BASE \<equiv> 104"
abbreviation (input) LS1B_IRQ3_BASE :: nat where "LS1B_IRQ3_BASE \<equiv> 136"
abbreviation (input) BSP_INTERRUPT_VECTOR_MAX :: nat where "BSP_INTERRUPT_VECTOR_MAX \<equiv> 166"

text \<open>A chip with every register zero and no vector table yet.\<close>

definition soc_zero :: soc where
  "soc_zero = \<lparr>GPIO_CFG = \<lambda>_. 0, GPIO_EN = \<lambda>_. 0, GPIO_IN = \<lambda>_. 0, GPIO_OUT = \<lambda>_. 0,
     INTC = \<lambda>_. \<lparr>INTC_ISR = 0, INTC_IEN = 0, INTC_CLR = 0, INTC_POL = 0, INTC_EDGE = 0\<rparr>,
     isr_table = []\<rparr>"

section \<open>Pins\<close>

definition gpio_enable :: "int \<Rightarrow> bool \<Rightarrow> soc \<Rightarrow> soc" where
  "gpio_enable ioNum dir_in s =
     (if 0 \<le> ioNum \<and> ioNum < 62 then
        let r = nat (ioNum div 32); bitVal = push_bit (nat (ioNum mod 32)) 1;
            s = s\<lparr>GPIO_CFG := (GPIO_CFG s)(r := GPIO_CFG s r OR bitVal)\<rparr>
        in if dir_in then s\<lparr>GPIO_EN := (GPIO_EN s)(r := GPIO_EN s r OR bitVal)\<rparr>
           else s\<lparr>GPIO_EN := (GPIO_EN s)(r := GPIO_EN s r AND NOT bitVal)\<rparr>
      else s)"

definition gpio_read :: "int \<Rightarrow> soc \<Rightarrow> int" where
  "gpio_read ioNum s =
     (if 0 \<le> ioNum \<and> ioNum < 62
      then uint (drop_bit (nat (ioNum mod 32)) (GPIO_IN s (nat (ioNum div 32))) AND 1)
      else - 1)"

definition gpio_write :: "int \<Rightarrow> int \<Rightarrow> soc \<Rightarrow> soc" where
  "gpio_write ioNum val s =
     (if 0 \<le> ioNum \<and> ioNum < 62 then
        let r = nat (ioNum div 32); bitVal = push_bit (nat (ioNum mod 32)) 1
        in if val \<noteq> 0 then s\<lparr>GPIO_OUT := (GPIO_OUT s)(r := GPIO_OUT s r OR bitVal)\<rparr>
           else s\<lparr>GPIO_OUT := (GPIO_OUT s)(r := GPIO_OUT s r AND NOT bitVal)\<rparr>
      else s)"

definition gpio_disable :: "int \<Rightarrow> soc \<Rightarrow> soc" where
  "gpio_disable ioNum s =
     (if 0 \<le> ioNum \<and> ioNum < 62 then
        let r = nat (ioNum div 32)
        in s\<lparr>GPIO_CFG := (GPIO_CFG s)(r := GPIO_CFG s r AND NOT (push_bit (nat (ioNum mod 32)) 1))\<rparr>
      else s)"

section \<open>Vector table\<close>

text \<open>\<^verbatim>\<open>mips_default_isr\<close> reports and then loops for ever; its address is an argument
  where it is stored.\<close>

definition mips_init_isr_table :: "nat \<Rightarrow> soc \<Rightarrow> soc" where
  "mips_init_isr_table default_isr s =
     s\<lparr>isr_table := replicate BSP_INTERRUPT_VECTOR_MAX \<lparr>handler = default_isr, param = 0\<rparr>\<rparr>"

definition rt_hw_interrupt_install :: "int \<Rightarrow> nat \<Rightarrow> nat \<Rightarrow> soc \<Rightarrow> nat \<times> soc" where
  "rt_hw_interrupt_install vector h par s =
     (if 0 \<le> vector \<and> vector < int BSP_INTERRUPT_VECTOR_MAX
      then (handler (isr_table s ! nat vector),
            s\<lparr>isr_table := (isr_table s)[nat vector := \<lparr>handler = h, param = par\<rparr>]\<rparr>)
      else (0, s))"

definition ls1x_install_irq_handler :: "int \<Rightarrow> nat \<Rightarrow> nat \<Rightarrow> soc \<Rightarrow> soc" where
  "ls1x_install_irq_handler vector isr arg s = snd (rt_hw_interrupt_install vector isr arg s)"

definition ls1x_remove_irq_handler :: "nat \<Rightarrow> int \<Rightarrow> soc \<Rightarrow> soc" where
  "ls1x_remove_irq_handler default_isr vector s = snd (rt_hw_interrupt_install vector default_isr 0 s)"

text \<open>Run the handler of a vector. \<open>run h v p\<close> is the code at address \<open>h\<close>; \<open>None\<close> is
  \<^verbatim>\<open>mips_default_isr\<close>, which never returns.\<close>

definition bsp_irq_handler_dispatch :: "(nat \<Rightarrow> nat \<Rightarrow> nat \<Rightarrow> soc \<Rightarrow> soc option) \<Rightarrow> nat \<Rightarrow> soc \<Rightarrow> soc option" where
  "bsp_irq_handler_dispatch run vector s =
     (if vector < BSP_INTERRUPT_VECTOR_MAX then
        if handler (isr_table s ! vector) \<noteq> 0
        then run (handler (isr_table s ! vector)) vector (param (isr_table s ! vector)) s
        else None
      else None)"

text \<open>One round of the scan of \<^verbatim>\<open>call_vectored_isr\<close>: the request bit that is at the
  bottom of \<open>src\<close> after \<open>index\<close> shifts is cleared and its vector dispatched.\<close>

definition vectored_base :: "u32 \<Rightarrow> nat option" where
  "vectored_base ctrlr =
     (if ctrlr = LS1B_INTC0_BASE then Some LS1B_IRQ0_BASE
      else if ctrlr = LS1B_INTC1_BASE then Some LS1B_IRQ1_BASE
      else if ctrlr = LS1B_INTC2_BASE then Some LS1B_IRQ2_BASE
      else if ctrlr = LS1B_INTC3_BASE then Some LS1B_IRQ3_BASE
      else None)"

definition vectored_one :: "(nat \<Rightarrow> nat \<Rightarrow> nat \<Rightarrow> soc \<Rightarrow> soc option) \<Rightarrow> u32 \<Rightarrow> nat \<Rightarrow> soc \<Rightarrow> soc option" where
  "vectored_one run ctrlr index s =
     (let s = s\<lparr>INTC := (INTC s)(ctrlr := (INTC s ctrlr)\<lparr>INTC_CLR := push_bit index 1\<rparr>)\<rparr>
      in case vectored_base ctrlr of None \<Rightarrow> Some s
         | Some b \<Rightarrow> bsp_irq_handler_dispatch run (b + index) s)"

function vectored_loop :: "(nat \<Rightarrow> nat \<Rightarrow> nat \<Rightarrow> soc \<Rightarrow> soc option) \<Rightarrow> u32 \<Rightarrow> u32 \<Rightarrow> nat \<Rightarrow> soc \<Rightarrow> soc option" where
  "vectored_loop run ctrlr src index s =
     (if src = 0 then Some s
      else (if src AND 1 \<noteq> 0 then vectored_one run ctrlr index s else Some s) \<bind>
           (\<lambda>s. vectored_loop run ctrlr (drop_bit 1 src AND 0x7FFFFFFF) (index + 1) s))"
  by pat_completeness auto

lemma unat_shift_mask_less: "(src :: u32) \<noteq> 0 \<Longrightarrow> unat (drop_bit 1 src AND 0x7FFFFFFF) < unat src"
proof -
  assume "src \<noteq> 0"
  then have pos: "unat src \<noteq> 0" by (simp add: unat_eq_0)
  have "drop_bit 1 src AND 0x7FFFFFFF \<le> drop_bit 1 src"
    by (simp add: word_and_le2 word_and_le1)
  then have "unat (drop_bit 1 src AND 0x7FFFFFFF) \<le> unat (drop_bit 1 src)"
    by (simp add: word_le_nat_alt)
  also have "unat (drop_bit 1 src) = unat src div 2"
    by (simp add: drop_bit_eq_div unat_div_distrib)
  finally show ?thesis using pos by simp
qed

termination vectored_loop
  by (relation "measure (\<lambda>(run, ctrlr, src, index, s). unat src)") (use unat_shift_mask_less in simp_all)

declare vectored_loop.simps [simp del]

definition call_vectored_isr :: "(nat \<Rightarrow> nat \<Rightarrow> nat \<Rightarrow> soc \<Rightarrow> soc option) \<Rightarrow> u32 \<Rightarrow> soc \<Rightarrow> soc option" where
  "call_vectored_isr run ctrlr s = vectored_loop run ctrlr (INTC_ISR (INTC s ctrlr)) 0 s"

text \<open>\<^verbatim>\<open>c_interrupt_handler\<close>: the coprocessor's cause and status words decide which
  sources are served, in the fixed order of the code.\<close>

definition cause_if :: "u32 \<Rightarrow> u32 \<Rightarrow> (soc \<Rightarrow> soc option) \<Rightarrow> soc \<Rightarrow> soc option" where
  "cause_if cause m f s = (if cause AND m \<noteq> 0 then f s else Some s)"

definition c_interrupt_handler :: "(nat \<Rightarrow> nat \<Rightarrow> nat \<Rightarrow> soc \<Rightarrow> soc option) \<Rightarrow> u32 \<Rightarrow> u32 \<Rightarrow> soc \<Rightarrow> soc option" where
  "c_interrupt_handler run sr cause0 s =
     (let cause = drop_bit 8 (cause0 AND (sr AND 0xFF00))
      in do {
        s \<leftarrow> cause_if cause 0x80 (bsp_irq_handler_dispatch run LS1x_IRQ_CNT) s;
        s \<leftarrow> cause_if cause 0x04 (call_vectored_isr run LS1B_INTC0_BASE) s;
        s \<leftarrow> cause_if cause 0x08 (call_vectored_isr run LS1B_INTC1_BASE) s;
        s \<leftarrow> cause_if cause 0x10 (call_vectored_isr run LS1B_INTC2_BASE) s;
        s \<leftarrow> cause_if cause 0x20 (call_vectored_isr run LS1B_INTC3_BASE) s;
        s \<leftarrow> cause_if cause 0x40 (bsp_irq_handler_dispatch run LS1x_IRQ_PERF) s;
        s \<leftarrow> cause_if cause 0x02 (bsp_irq_handler_dispatch run LS1x_IRQ_SW1) s;
        cause_if cause 0x01 (bsp_irq_handler_dispatch run LS1x_IRQ_SW0) s
      })"

section \<open>Pin interrupts\<close>

definition ls1x_gpio_intcbase :: "int \<Rightarrow> u32" where
  "ls1x_gpio_intcbase gpio =
     (if 0 \<le> gpio \<and> gpio \<le> 30 then LS1B_INTC2_BASE
      else if 32 \<le> gpio \<and> gpio \<le> 61 then LS1B_INTC3_BASE
      else 0)"

definition ls1x_gpio_intcbit :: "int \<Rightarrow> u32" where
  "ls1x_gpio_intcbit gpio =
     (if 0 \<le> gpio \<and> gpio \<le> 30 then push_bit (nat gpio) 1
      else if 32 \<le> gpio \<and> gpio \<le> 61 then push_bit (nat (gpio - 32)) 1
      else 0)"

definition ls1x_gpio_irqnum :: "int \<Rightarrow> nat" where
  "ls1x_gpio_irqnum gpio =
     (if 0 \<le> gpio \<and> gpio \<le> 30 then LS1B_IRQ2_BASE + nat gpio
      else if 32 \<le> gpio \<and> gpio \<le> 61 then LS1B_IRQ3_BASE + nat gpio - 32
      else 0)"

text \<open>\<^verbatim>\<open>LS1x_INTC_IEN(base) |= bit\<close>, \<^verbatim>\<open>&= ~bit\<close> and
  \<^verbatim>\<open>LS1x_INTC_CLR(base) = bit\<close>.\<close>

definition intc_upd :: "u32 \<Rightarrow> (intc_regs \<Rightarrow> intc_regs) \<Rightarrow> soc \<Rightarrow> soc" where
  "intc_upd base f s = s\<lparr>INTC := (INTC s)(base := f (INTC s base))\<rparr>"

definition ls1x_enable_gpio_interrupt :: "int \<Rightarrow> soc \<Rightarrow> int \<times> soc" where
  "ls1x_enable_gpio_interrupt gpio s =
     (let intc_base = ls1x_gpio_intcbase gpio; intc_bit = ls1x_gpio_intcbit gpio
      in if intc_base > 0 \<and> intc_bit > 0 then
           (let s = intc_upd intc_base (\<lambda>r. r\<lparr>INTC_CLR := intc_bit\<rparr>) s;
                s = intc_upd intc_base (\<lambda>r. r\<lparr>INTC_IEN := INTC_IEN r OR intc_bit\<rparr>) s
            in (0, s))
         else (- 1, s))"

definition ls1x_disable_gpio_interrupt :: "int \<Rightarrow> soc \<Rightarrow> int \<times> soc" where
  "ls1x_disable_gpio_interrupt gpio s =
     (let intc_base = ls1x_gpio_intcbase gpio; intc_bit = ls1x_gpio_intcbit gpio
      in if intc_base > 0 \<and> intc_bit > 0 then
           (let s = intc_upd intc_base (\<lambda>r. r\<lparr>INTC_IEN := INTC_IEN r AND NOT intc_bit\<rparr>) s;
                s = intc_upd intc_base (\<lambda>r. r\<lparr>INTC_CLR := intc_bit\<rparr>) s
            in (0, s))
         else (- 1, s))"

text \<open>The \<^verbatim>\<open>switch (trigger_mode)\<close>: 8 is level low, 4 level high, 2 falling edge, anything
  else rising edge.\<close>

definition set_trigger :: "int \<Rightarrow> u32 \<Rightarrow> u32 \<Rightarrow> soc \<Rightarrow> soc" where
  "set_trigger mode base b s =
     (if mode = 8 then
        intc_upd base (\<lambda>r. r\<lparr>INTC_EDGE := INTC_EDGE r AND NOT b, INTC_POL := INTC_POL r AND NOT b\<rparr>) s
      else if mode = 4 then
        intc_upd base (\<lambda>r. r\<lparr>INTC_EDGE := INTC_EDGE r AND NOT b, INTC_POL := INTC_POL r OR b\<rparr>) s
      else if mode = 2 then
        intc_upd base (\<lambda>r. r\<lparr>INTC_EDGE := INTC_EDGE r OR b, INTC_POL := INTC_POL r AND NOT b\<rparr>) s
      else
        intc_upd base (\<lambda>r. r\<lparr>INTC_EDGE := INTC_EDGE r OR b, INTC_POL := INTC_POL r OR b\<rparr>) s)"

definition ls1x_install_gpio_isr :: "int \<Rightarrow> int \<Rightarrow> nat \<Rightarrow> nat \<Rightarrow> soc \<Rightarrow> int \<times> soc" where
  "ls1x_install_gpio_isr gpio trigger_mode isr arg s =
     (let intc_base = ls1x_gpio_intcbase gpio; intc_bit = ls1x_gpio_intcbit gpio;
          irq_num = ls1x_gpio_irqnum gpio
      in if intc_base > 0 \<and> intc_bit > 0 \<and> irq_num > 0 then
           (let s = gpio_enable gpio True s;
                s = intc_upd intc_base (\<lambda>r. r\<lparr>INTC_IEN := INTC_IEN r AND NOT intc_bit\<rparr>) s;
                s = intc_upd intc_base (\<lambda>r. r\<lparr>INTC_CLR := intc_bit\<rparr>) s;
                s = set_trigger trigger_mode intc_base intc_bit s;
                s = ls1x_install_irq_handler (int irq_num) isr arg s;
                s = intc_upd intc_base (\<lambda>r. r\<lparr>INTC_CLR := intc_bit\<rparr>) s;
                s = intc_upd intc_base (\<lambda>r. r\<lparr>INTC_IEN := INTC_IEN r OR intc_bit\<rparr>) s
            in (0, s))
         else (- 1, s))"

definition ls1x_remove_gpio_isr :: "nat \<Rightarrow> int \<Rightarrow> soc \<Rightarrow> int \<times> soc" where
  "ls1x_remove_gpio_isr default_isr gpio s =
     (let intc_base = ls1x_gpio_intcbase gpio; intc_bit = ls1x_gpio_intcbit gpio;
          irq_num = ls1x_gpio_irqnum gpio
      in if intc_base > 0 \<and> intc_bit > 0 \<and> irq_num > 0 then
           (let s = intc_upd intc_base (\<lambda>r. r\<lparr>INTC_IEN := INTC_IEN r AND NOT intc_bit\<rparr>) s;
                s = intc_upd intc_base (\<lambda>r. r\<lparr>INTC_CLR := intc_bit\<rparr>) s;
                s = ls1x_remove_irq_handler default_isr (int irq_num) s
            in (0, s))
         else (- 1, s))"

section \<open>Bits\<close>

text \<open>The pins that have an interrupt line, and the position of a pin's bit.\<close>

definition gpio_irq_valid :: "int \<Rightarrow> bool" where
  "gpio_irq_valid g \<longleftrightarrow> (0 \<le> g \<and> g \<le> 30) \<or> (32 \<le> g \<and> g \<le> 61)"

definition gpio_bit_pos :: "int \<Rightarrow> nat" where
  "gpio_bit_pos g = nat (g mod 32)"

lemma gpio_bit_pos_less: "gpio_bit_pos g < 32"
  by (simp add: gpio_bit_pos_def nat_less_iff)

lemma gpio_bit_pos_valid:
  "gpio_irq_valid g \<Longrightarrow> gpio_bit_pos g = nat (if g \<le> 30 then g else g - 32)"
proof -
  assume v: "gpio_irq_valid g"
  have "g mod 32 = (if g \<le> 30 then g else g - 32)"
    using v unfolding gpio_irq_valid_def by presburger
  then show ?thesis by (simp add: gpio_bit_pos_def)
qed

lemma intcbit_valid: "gpio_irq_valid g \<Longrightarrow> ls1x_gpio_intcbit g = push_bit (gpio_bit_pos g) 1"
  using gpio_bit_pos_valid [of g] by (auto simp: gpio_irq_valid_def ls1x_gpio_intcbit_def)

lemma intcbit_invalid [simp]: "\<not> gpio_irq_valid g \<Longrightarrow> ls1x_gpio_intcbit g = 0"
  by (auto simp: gpio_irq_valid_def ls1x_gpio_intcbit_def)

lemma bit_1_neq_0: "n < 32 \<Longrightarrow> (2 ^ n :: u32) \<noteq> 0"
  by simp

lemma intcbit_pos: "gpio_irq_valid g \<Longrightarrow> ls1x_gpio_intcbit g > 0"
  using bit_1_neq_0 [OF gpio_bit_pos_less, of g] by (simp add: intcbit_valid word_gt_0)

lemma intcbase_pos: "gpio_irq_valid g \<Longrightarrow> ls1x_gpio_intcbase g > 0"
  by (auto simp: gpio_irq_valid_def ls1x_gpio_intcbase_def)

lemma irqnum_pos: "gpio_irq_valid g \<Longrightarrow> ls1x_gpio_irqnum g > 0"
  by (auto simp: gpio_irq_valid_def ls1x_gpio_irqnum_def)

text \<open>No two pins share an interrupt line.\<close>

lemma intc_line_inj:
  assumes "gpio_irq_valid g" "gpio_irq_valid h"
    "ls1x_gpio_intcbase g = ls1x_gpio_intcbase h" "gpio_bit_pos g = gpio_bit_pos h"
  shows "g = h"
  using assms gpio_bit_pos_valid [of g] gpio_bit_pos_valid [of h]
  by (auto simp: gpio_irq_valid_def ls1x_gpio_intcbase_def split: if_splits)

section \<open>Masking one line leaves the others alone\<close>

text \<open>A run of enables (\<open>True\<close>) and disables.\<close>

primrec mask_ops :: "('g \<Rightarrow> 's \<Rightarrow> int \<times> 's) \<Rightarrow> ('g \<Rightarrow> 's \<Rightarrow> int \<times> 's) \<Rightarrow> ('g \<times> bool) list \<Rightarrow> 's \<Rightarrow> 's" where
  "mask_ops en dis [] s = s"
| "mask_ops en dis (x # xs) s = mask_ops en dis xs (snd ((if snd x then en else dis) (fst x) s))"

locale irq_mask =
  fixes valid :: "'g \<Rightarrow> bool"
    and enabled :: "'s \<Rightarrow> 'g \<Rightarrow> bool"
    and en :: "'g \<Rightarrow> 's \<Rightarrow> int \<times> 's"
    and dis :: "'g \<Rightarrow> 's \<Rightarrow> int \<times> 's"
  assumes en_valid: "valid g \<Longrightarrow> fst (en g s) = 0"
    and en_enabled: "valid g \<Longrightarrow> valid h \<Longrightarrow> enabled (snd (en g s)) h \<longleftrightarrow> h = g \<or> enabled s h"
    and dis_valid: "valid g \<Longrightarrow> fst (dis g s) = 0"
    and dis_enabled: "valid g \<Longrightarrow> valid h \<Longrightarrow> enabled (snd (dis g s)) h \<longleftrightarrow> h \<noteq> g \<and> enabled s h"
    and invalid: "\<not> valid g \<Longrightarrow> en g s = (- 1, s) \<and> dis g s = (- 1, s)"
begin

lemma en_then: "valid g \<Longrightarrow> enabled (snd (en g s)) g"
  by (simp add: en_enabled)

lemma dis_then: "valid g \<Longrightarrow> \<not> enabled (snd (dis g s)) g"
  by (simp add: dis_enabled)

lemma other:
  "valid g \<Longrightarrow> valid h \<Longrightarrow> h \<noteq> g \<Longrightarrow>
   enabled (snd (en g s)) h = enabled s h \<and> enabled (snd (dis g s)) h = enabled s h"
  by (simp add: en_enabled dis_enabled)

text \<open>The last operation on a pin decides.\<close>

lemma mask_ops_last:
  "valid g \<Longrightarrow> enabled (mask_ops en dis ops s) g \<longleftrightarrow>
    (case filter (\<lambda>x. fst x = g) ops of [] \<Rightarrow> enabled s g | y # ys \<Rightarrow> snd (last (y # ys)))"
proof (induction ops arbitrary: s)
  case Nil
  then show ?case by simp
next
  case (Cons x ops)
  obtain h b where x: "x = (h, b)" by (cases x)
  show ?case
  proof (cases "valid h")
    case True
    with Cons x show ?thesis
      by (cases b; cases "filter (\<lambda>x. fst x = g) ops") (auto simp: en_enabled dis_enabled)
  next
    case False
    with Cons.prems have "h \<noteq> g" by auto
    with Cons False x show ?thesis by (cases b) (auto simp: invalid)
  qed
qed

end

definition gpio_irq_enabled :: "soc \<Rightarrow> int \<Rightarrow> bool" where
  "gpio_irq_enabled s g \<longleftrightarrow> INTC_IEN (INTC s (ls1x_gpio_intcbase g)) AND ls1x_gpio_intcbit g \<noteq> 0"

lemma gpio_irq_enabled_bit:
  "gpio_irq_valid g \<Longrightarrow> gpio_irq_enabled s g = bit (INTC_IEN (INTC s (ls1x_gpio_intcbase g))) (gpio_bit_pos g)"
  by (simp add: gpio_irq_enabled_def intcbit_valid and_exp_eq_0_iff_not_bit)

lemma bit_line: "bit (2 ^ gpio_bit_pos g :: u32) n \<longleftrightarrow> n = gpio_bit_pos g"
  using gpio_bit_pos_less [of g] by (auto simp: bit_exp_iff)

lemma enable_ien:
  "gpio_irq_valid g \<Longrightarrow> INTC_IEN (INTC (snd (ls1x_enable_gpio_interrupt g s)) b) =
    (if b = ls1x_gpio_intcbase g then INTC_IEN (INTC s b) OR 2 ^ gpio_bit_pos g else INTC_IEN (INTC s b))"
  using intcbit_pos [of g] intcbase_pos [of g]
  by (simp add: ls1x_enable_gpio_interrupt_def intc_upd_def intcbit_valid Let_def)

lemma disable_ien:
  "gpio_irq_valid g \<Longrightarrow> INTC_IEN (INTC (snd (ls1x_disable_gpio_interrupt g s)) b) =
    (if b = ls1x_gpio_intcbase g then INTC_IEN (INTC s b) AND NOT (2 ^ gpio_bit_pos g) else INTC_IEN (INTC s b))"
  using intcbit_pos [of g] intcbase_pos [of g]
  by (simp add: ls1x_disable_gpio_interrupt_def intc_upd_def intcbit_valid Let_def)

lemma other_line:
  assumes "gpio_irq_valid g" "gpio_irq_valid h" "h \<noteq> g"
  shows "ls1x_gpio_intcbase h \<noteq> ls1x_gpio_intcbase g \<or> gpio_bit_pos h \<noteq> gpio_bit_pos g"
  using intc_line_inj [OF assms(2,1)] assms(3) by blast

lemma gpio_enable_irq_enabled:
  assumes "gpio_irq_valid g" "gpio_irq_valid h"
  shows "gpio_irq_enabled (snd (ls1x_enable_gpio_interrupt g s)) h \<longleftrightarrow> h = g \<or> gpio_irq_enabled s h"
proof (cases "h = g")
  case True
  with assms show ?thesis by (simp add: gpio_irq_enabled_bit enable_ien bit_or_iff bit_line)
next
  case False
  with other_line [OF assms False] assms show ?thesis
    by (elim disjE) (simp_all add: gpio_irq_enabled_bit enable_ien bit_or_iff bit_line)
qed

lemma gpio_disable_irq_enabled:
  assumes "gpio_irq_valid g" "gpio_irq_valid h"
  shows "gpio_irq_enabled (snd (ls1x_disable_gpio_interrupt g s)) h \<longleftrightarrow> h \<noteq> g \<and> gpio_irq_enabled s h"
proof (cases "h = g")
  case True
  with assms show ?thesis by (simp add: gpio_irq_enabled_bit disable_ien bit_and_iff bit_not_iff bit_line)
next
  case False
  with other_line [OF assms False] assms gpio_bit_pos_less [of h] show ?thesis
    by (elim disjE) (simp_all add: gpio_irq_enabled_bit disable_ien bit_and_iff bit_not_iff bit_line)
qed

interpretation gpm: irq_mask gpio_irq_valid gpio_irq_enabled ls1x_enable_gpio_interrupt ls1x_disable_gpio_interrupt
proof (standard, goal_cases)
  case (1 g s)
  then show ?case by (simp add: ls1x_enable_gpio_interrupt_def intcbit_pos intcbase_pos Let_def)
next
  case (2 g h s)
  then show ?case by (rule gpio_enable_irq_enabled)
next
  case (3 g s)
  then show ?case by (simp add: ls1x_disable_gpio_interrupt_def intcbit_pos intcbase_pos Let_def)
next
  case (4 g h s)
  then show ?case by (rule gpio_disable_irq_enabled)
next
  case (5 g s)
  then show ?case by (simp add: ls1x_enable_gpio_interrupt_def ls1x_disable_gpio_interrupt_def Let_def)
qed

section \<open>Dispatch\<close>

text \<open>Run a fallible action for every element of a list, in order.\<close>

primrec seq_run :: "('a \<Rightarrow> 's \<Rightarrow> 's option) \<Rightarrow> 'a list \<Rightarrow> 's \<Rightarrow> 's option" where
  "seq_run f [] s = Some s"
| "seq_run f (x # xs) s = f x s \<bind> seq_run f xs"

lemma seq_run_Nil_fun [simp]: "seq_run f [] = Some"
  by auto

lemma seq_run_append: "seq_run f (xs @ ys) s = seq_run f xs s \<bind> seq_run f ys"
proof (induction xs arbitrary: s)
  case Nil
  then show ?case by simp
next
  case (Cons x xs)
  then show ?case by (cases "f x s") auto
qed

lemma set_bits_shift:
  fixes src :: u32
  shows "filter (bit src) [0..<32] =
    (if bit src 0 then [0] else []) @ map Suc (filter (bit (drop_bit 1 src AND 0x7FFFFFFF)) [0..<32])"
proof -
  have b: "bit (drop_bit 1 src AND 0x7FFFFFFF) j \<longleftrightarrow> bit src (Suc j)" for j
  proof -
    have "(0x7FFFFFFF :: u32) = mask 31" by (simp add: mask_eq_exp_minus_1)
    then show ?thesis
      using bit_imp_le_length [of src "Suc j"] by (simp only: bit_and_iff bit_mask_iff) (auto simp: bit_simps)
  qed
  have u: "[0..<32] = 0 # map Suc [0..<31]" by (simp add: upt_rec)
  have v: "[0..<32] = [0..<31] @ [31::nat]" by (simp add: upt_rec)
  have "filter (bit (drop_bit 1 src AND 0x7FFFFFFF)) [0..<32] = filter (\<lambda>j. bit src (Suc j)) [0..<31]"
    unfolding b [THEN ext] v using bit_imp_le_length [of src 32] by auto
  then show ?thesis by (simp add: u filter_map o_def del: upt.simps)
qed

lemma map_plus_0 [simp]: "map ((+) (0 :: nat)) xs = xs"
  by (simp add: map_idI)

lemma plus_Suc_fun: "(+) (Suc i) = (\<lambda>a. Suc (i + a))"
  by auto

text \<open>The shifting scan serves exactly the requests that are set, lowest first, each once.\<close>

lemma vectored_loop_seq:
  "vectored_loop run c src i s = seq_run (vectored_one run c) (map ((+) i) (filter (bit src) [0..<32])) s"
proof (induction run c src i s rule: vectored_loop.induct)
  case (1 run c src i s)
  show ?case
  proof (cases "src = 0")
    case True
    then show ?thesis by (simp add: vectored_loop.simps)
  next
    case False
    let ?n = "drop_bit 1 src AND 0x7FFFFFFF"
    let ?rest = "map (\<lambda>j. i + 1 + j) (filter (bit ?n) [0..<32])"
    have odd: "(src AND 1 \<noteq> 0) = bit src 0" by (simp add: and_one_eq odd_iff_mod_2_eq_one bit_0)
    have "map ((+) i) (filter (bit src) [0..<32]) = (if bit src 0 then [i] else []) @ ?rest"
      by (subst set_bits_shift) (simp del: upt.simps)
    moreover have "vectored_loop run c src i s =
        (if bit src 0 then vectored_one run c i s else Some s) \<bind>
          seq_run (vectored_one run c) ?rest"
      using 1 False odd
      by (subst vectored_loop.simps)
        (cases "if bit src 0 then vectored_one run c i s else Some s"; simp del: upt.simps add: plus_Suc_fun)
    ultimately show ?thesis by (auto simp del: upt.simps simp: seq_run_append)
  qed
qed

lemma filter_eq_upt: "filter (\<lambda>j. j = n) [0..<m] = (if n < m then [n] else [])"
  by (induction m) auto

lemma filter_single_bit: "n < 32 \<Longrightarrow> filter (bit (2 ^ n :: u32)) [0..<32] = [n]"
proof -
  assume n: "n < 32"
  have "filter (bit (2 ^ n :: u32)) [0..<32] = filter (\<lambda>j. j = n) [0..<32]"
    using n by (intro filter_cong refl) (auto simp: bit_exp_iff)
  also have "\<dots> = [n]" using n by (simp add: filter_eq_upt)
  finally show ?thesis .
qed

text \<open>What an installation leaves behind.\<close>

lemma intc_upd_isr_table [simp]: "isr_table (intc_upd b f s) = isr_table s"
  by (simp add: intc_upd_def)

lemma set_trigger_isr_table [simp]: "isr_table (set_trigger m b w s) = isr_table s"
  by (simp add: set_trigger_def)

lemma gpio_enable_frame [simp]: "isr_table (gpio_enable g d s) = isr_table s" "INTC (gpio_enable g d s) = INTC s"
  by (simp_all add: gpio_enable_def Let_def)

lemma irqnum_bound: "ls1x_gpio_irqnum g < BSP_INTERRUPT_VECTOR_MAX"
  by (auto simp: ls1x_gpio_irqnum_def)

lemma install_handler_table:
  "v < BSP_INTERRUPT_VECTOR_MAX \<Longrightarrow>
    isr_table (ls1x_install_irq_handler (int v) h p s) = (isr_table s)[v := \<lparr>handler = h, param = p\<rparr>]"
  by (simp add: ls1x_install_irq_handler_def rt_hw_interrupt_install_def)

lemma install_handler_intc [simp]: "INTC (ls1x_install_irq_handler v h p s) = INTC s"
  by (simp add: ls1x_install_irq_handler_def rt_hw_interrupt_install_def)

lemma install_gpio_table:
  "gpio_irq_valid g \<Longrightarrow> isr_table (snd (ls1x_install_gpio_isr g m isr arg s)) =
    (isr_table s)[ls1x_gpio_irqnum g := \<lparr>handler = isr, param = arg\<rparr>]"
  using intcbit_pos [of g] intcbase_pos [of g] irqnum_pos [of g] irqnum_bound [of g]
  by (simp add: ls1x_install_gpio_isr_def Let_def install_handler_table)

lemma install_gpio_requests:
  "INTC_ISR (INTC (snd (ls1x_install_gpio_isr g m isr arg s)) b) = INTC_ISR (INTC s b)"
  by (simp add: ls1x_install_gpio_isr_def Let_def intc_upd_def set_trigger_def)

lemma install_gpio_enabled:
  "gpio_irq_valid g \<Longrightarrow> gpio_irq_enabled (snd (ls1x_install_gpio_isr g m isr arg s)) g"
  using intcbit_pos [of g] intcbase_pos [of g] irqnum_pos [of g]
  by (simp add: gpio_irq_enabled_bit ls1x_install_gpio_isr_def Let_def intc_upd_def intcbit_valid bit_or_iff bit_line)

text \<open>The driver's numbering of the pins agrees with the dispatcher's.\<close>

lemma vector_agrees:
  "gpio_irq_valid g \<Longrightarrow> map_option (\<lambda>b. b + gpio_bit_pos g) (vectored_base (ls1x_gpio_intcbase g)) = Some (ls1x_gpio_irqnum g)"
  using gpio_bit_pos_valid [of g]
  by (auto simp: gpio_irq_valid_def vectored_base_def ls1x_gpio_intcbase_def ls1x_gpio_irqnum_def)

section \<open>Properties\<close>

text \<open>Isolation of the pin interrupts. After any sequence of enabling and disabling calls the
  interrupt of a pin is enabled exactly when the last call for that very pin enabled it (or it was
  enabled before and no call named it): no call for another pin, valid or not, matters.\<close>

lemma gpio_mask_isolated:
  assumes "gpio_irq_valid g"
  shows "gpio_irq_enabled (mask_ops ls1x_enable_gpio_interrupt ls1x_disable_gpio_interrupt ops s) g \<longleftrightarrow>
    (case filter (\<lambda>x. fst x = g) ops of [] \<Rightarrow> gpio_irq_enabled s g | y # ys \<Rightarrow> snd (last (y # ys)))"
  using assms by (rule gpm.mask_ops_last)

text \<open>C28: The dispatcher serves every pending request of an interrupt controller exactly once, in
  ascending order of the request bits, and no other.\<close>

theorem call_vectored_isr_serves_all:
  "call_vectored_isr run ctrlr s =
    seq_run (vectored_one run ctrlr) (filter (bit (INTC_ISR (INTC s ctrlr))) [0..<32]) s"
  by (simp add: call_vectored_isr_def vectored_loop_seq del: upt.simps)

text \<open>Installation and dispatch agree. After \<^verbatim>\<open>ls1x_install_gpio_isr\<close> for a pin, its
  interrupt is enabled, and when the pin is the one that requests service on its controller the
  dispatcher runs the installed handler, with the pin's vector and the given argument.\<close>

lemma gpio_isr_runs:
  assumes v: "gpio_irq_valid g" and len: "length (isr_table s) = BSP_INTERRUPT_VECTOR_MAX"
    and isr: "isr \<noteq> 0" and req: "INTC_ISR (INTC s (ls1x_gpio_intcbase g)) = ls1x_gpio_intcbit g"
  shows "let s1 = snd (ls1x_install_gpio_isr g m isr arg s) in gpio_irq_enabled s1 g \<and>
    call_vectored_isr run (ls1x_gpio_intcbase g) s1 =
      run isr (ls1x_gpio_irqnum g) arg
        (intc_upd (ls1x_gpio_intcbase g) (\<lambda>r. r\<lparr>INTC_CLR := ls1x_gpio_intcbit g\<rparr>) s1)"
proof -
  let ?s1 = "snd (ls1x_install_gpio_isr g m isr arg s)"
  from vector_agrees [OF v] obtain b where
    b: "vectored_base (ls1x_gpio_intcbase g) = Some b" "b + gpio_bit_pos g = ls1x_gpio_irqnum g" by auto
  have "filter (bit (INTC_ISR (INTC ?s1 (ls1x_gpio_intcbase g)))) [0..<32] = [gpio_bit_pos g]"
    using req by (simp add: install_gpio_requests intcbit_valid [OF v] filter_single_bit gpio_bit_pos_less del: upt.simps)
  with b isr len irqnum_bound [of g] show ?thesis
    by (simp add: call_vectored_isr_def vectored_loop_seq vectored_one_def Let_def bsp_irq_handler_dispatch_def
        intc_upd_def intcbit_valid [OF v] install_gpio_enabled [OF v] install_gpio_table [OF v] del: upt.simps)
qed

end
