(* ===== verification/Main_Ctrl.thy ===== *)
theory Main_Ctrl
  imports Mq_Pool Gpio
begin

text \<open>
  The controller of the weighing station: main.c with the types of src/datastructure_def.h.
  The locals of \<^verbatim>\<open>main\<close>, the four message queues and the chip's registers form the state
  \<open>app\<close>. \<^verbatim>\<open>main\<close> is split where it blocks: waiting for a message (\<open>Recv\<close>) and in the
  \<^verbatim>\<open>rt_thread_delay(800)\<close> of a weighing (\<open>Delayed\<close>); the interrupt handlers and the other
  threads run in between. A reading of the converter is an argument (\<open>None\<close>: the driver left the
  two bytes alone), and so is the word that lies behind the receive buffer, which
  \<^verbatim>\<open>set_product_info\<close> reads. \<^verbatim>\<open>rt_kprintf\<close> output is left out; of the clock only the
  date given to its driver is kept.
  The misspelt \<^verbatim>\<open>subf\<close> of two functions is read as \<^verbatim>\<open>sbuf\<close>.
\<close>

section \<open>Data\<close>

record res_paras =
  v_measure :: u32
  v_threshold :: u32
  r_qualified :: u32

record product_info =
  total :: u32
  qualified_amount :: u32
  year :: u32
  mon :: u32
  day :: u32
  p_hour :: u32
  p_min :: u32

record tr_stat =
  csq :: u32
  msg_id :: u32
  stat_code :: u32

text \<open>\<^verbatim>\<open>rtc_obj\<close>, the \<^verbatim>\<open>struct tm\<close> of the C library.\<close>

record rtc_obj =
  tm_year :: u32
  tm_mon :: u32
  tm_mday :: u32
  tm_hour :: u32
  tm_min :: u32
  tm_sec :: u32

datatype qid = main_mq | output_datas_mq | file_write_mq | nbiot_mq

datatype pc = Recv | Delayed

record app =
  res_t :: res_paras
  info_t :: product_info
  stat_t :: tr_stat
  ctrl_flow :: u8
  adc_sum :: u16
  adc_measure_count :: u8
  temp_adc :: u16
  mqs :: "qid \<Rightarrow> rt_mq option"
  hw :: soc
  rtc :: rtc_obj
  app_pc :: pc

abbreviation (input) PULSE_OUT :: int where "PULSE_OUT \<equiv> 36"
abbreviation (input) INPUT_SIGNAL :: int where "INPUT_SIGNAL \<equiv> 37"
abbreviation (input) INPUT_SIGNAL2 :: int where "INPUT_SIGNAL2 \<equiv> 34"

text \<open>The union \<^verbatim>\<open>rt_mq_buf\<close>: words \<open>val_arr\<close> and characters \<open>asc_str\<close> of the same
  bytes. A signed \<^verbatim>\<open>char\<close> used as an \<^verbatim>\<open>int\<close> is sign-extended.\<close>

definition val_arr :: "bytes \<Rightarrow> nat \<Rightarrow> u32" where
  "val_arr b i = of_le32 (b ! (4 * i)) (b ! (4 * i + 1)) (b ! (4 * i + 2)) (b ! (4 * i + 3))"

definition val_bytes :: "u32 list \<Rightarrow> bytes" where
  "val_bytes ws = concat (map le32 ws)"

definition asc_int :: "bytes \<Rightarrow> nat \<Rightarrow> u32" where
  "asc_int b i = scast (b ! i)"

definition digit_chr :: "u32 \<Rightarrow> u8" where
  "digit_chr w = ucast (w + 48)"

section \<open>Messages out\<close>

text \<open>\<^verbatim>\<open>rt_mq_send(q, buf, size)\<close> with the result dropped, as everywhere in main.c. The
  assertions of \<^verbatim>\<open>rt_mq_send_wait\<close> stop the system for a queue that does not exist yet.\<close>

definition mqsend :: "qid \<Rightarrow> bytes \<Rightarrow> app \<Rightarrow> app option" where
  "mqsend q buf w = do {
     m \<leftarrow> mqs w q;
     RT_ASSERT (length buf \<noteq> 0);
     Some (w\<lparr>mqs := (mqs w)(q := Some (snd (mq_send buf m)))\<rparr>) }"

definition send_v_threshold_msg :: "res_paras \<Rightarrow> app \<Rightarrow> app option" where
  "send_v_threshold_msg r = mqsend output_datas_mq (val_bytes [2, v_threshold r])"

definition send_rtc_msg :: "product_info \<Rightarrow> app \<Rightarrow> app option" where
  "send_rtc_msg p = mqsend output_datas_mq (val_bytes [3, year p, mon p, day p])"

definition send_data_msg :: "res_paras \<Rightarrow> product_info \<Rightarrow> app \<Rightarrow> app option" where
  "send_data_msg r p =
     mqsend output_datas_mq (val_bytes [1, v_measure r, r_qualified r, total p, qualified_amount p])"

definition send_product_info_msg :: "product_info \<Rightarrow> app \<Rightarrow> app option" where
  "send_product_info_msg p = mqsend output_datas_mq (val_bytes [4, total p, qualified_amount p])"

definition send_csq :: "tr_stat \<Rightarrow> app \<Rightarrow> app option" where
  "send_csq t = mqsend output_datas_mq (val_bytes [5, csq t])"

definition send_msg_id_msg :: "tr_stat \<Rightarrow> app \<Rightarrow> app option" where
  "send_msg_id_msg t = mqsend output_datas_mq (val_bytes [6, msg_id t])"

definition send_stat_code_msg :: "tr_stat \<Rightarrow> app \<Rightarrow> app option" where
  "send_stat_code_msg t = mqsend output_datas_mq (val_bytes [7, 200])"

text \<open>The sixteen bytes of \<^verbatim>\<open>send_nb_msg\<close>; the hundreds of the threshold are computed as
  \<^verbatim>\<open>(v_threshold % 100) / 100\<close>, as written.\<close>

definition nb_msg_bytes :: "res_paras \<Rightarrow> tr_stat \<Rightarrow> bytes" where
  "nb_msg_bytes r t = le32 1 @
     [digit_chr (v_measure r div 1000),
      digit_chr ((v_measure r mod 1000) div 100),
      digit_chr ((v_measure r mod 100) div 10),
      digit_chr (v_measure r mod 10),
      digit_chr (r_qualified r),
      digit_chr (msg_id t div 100),
      digit_chr ((msg_id t mod 100) div 10),
      digit_chr (msg_id t mod 10),
      digit_chr (v_threshold r div 1000),
      digit_chr ((v_threshold r mod 100) div 100),
      digit_chr ((v_threshold r mod 100) div 10),
      digit_chr (v_threshold r mod 10)]"

definition send_nb_msg :: "res_paras \<Rightarrow> tr_stat \<Rightarrow> app \<Rightarrow> app option" where
  "send_nb_msg r t = mqsend nbiot_mq (nb_msg_bytes r t)"

definition send_info_to_file_msg :: "product_info \<Rightarrow> app \<Rightarrow> app option" where
  "send_info_to_file_msg p = mqsend file_write_mq (val_bytes [1, total p, qualified_amount p])"

definition send_date_to_file_msg :: "product_info \<Rightarrow> app \<Rightarrow> app option" where
  "send_date_to_file_msg p = mqsend file_write_mq (val_bytes [2, year p, mon p, day p])"

section \<open>Setters\<close>

definition set_v_measure :: "u16 \<Rightarrow> res_paras \<Rightarrow> res_paras" where
  "set_v_measure t r = r\<lparr>v_measure := ucast t * 2\<rparr>"

definition set_qualified :: "res_paras \<Rightarrow> res_paras" where
  "set_qualified r = r\<lparr>r_qualified := if v_measure r > v_threshold r then 1 else 0\<rparr>"

definition add_porduct :: "product_info \<Rightarrow> res_paras \<Rightarrow> product_info" where
  "add_porduct p r = p\<lparr>total := total p + 1, qualified_amount := qualified_amount p + r_qualified r\<rparr>"

definition set_output :: "res_paras \<Rightarrow> soc \<Rightarrow> soc" where
  "set_output r s = gpio_write PULSE_OUT (sint (r_qualified r)) s"

text \<open>\<open>oob\<close> is the word behind the 20-byte buffer: \<^verbatim>\<open>val_arr[5]\<close>.\<close>

definition set_product_info :: "u32 \<Rightarrow> bytes \<Rightarrow> product_info \<Rightarrow> product_info" where
  "set_product_info oob b p = p\<lparr>total := val_arr b 1, qualified_amount := val_arr b 2,
     year := val_arr b 3, mon := val_arr b 4, day := oob\<rparr>"

definition set_csq :: "bytes \<Rightarrow> tr_stat \<Rightarrow> tr_stat" where
  "set_csq b t = t\<lparr>csq := (asc_int b 4 - 48) * 10 + asc_int b 5 - 48\<rparr>"

definition set_date_time :: "bytes \<Rightarrow> product_info \<Rightarrow> product_info" where
  "set_date_time b p = p\<lparr>
     year := (asc_int b 4 - 48) * 1000 + (asc_int b 5 - 48) * 100 + (asc_int b 6 - 48) * 10 + (asc_int b 7 - 48),
     mon := (asc_int b 8 - 48) * 10 + (asc_int b 9 - 48),
     day := (asc_int b 10 - 48) * 10 + (asc_int b 11 - 48)\<rparr>"

definition set_msg_id :: "tr_stat \<Rightarrow> tr_stat" where
  "set_msg_id t = (let t = t\<lparr>msg_id := msg_id t + 1\<rparr> in if msg_id t > 999 then t\<lparr>msg_id := 0\<rparr> else t)"

definition init_datastructure :: "res_paras \<Rightarrow> product_info \<Rightarrow> tr_stat \<Rightarrow> res_paras \<times> product_info \<times> tr_stat" where
  "init_datastructure r p t =
     (r\<lparr>v_measure := 0, v_threshold := 350, r_qualified := 0\<rparr>,
      p\<lparr>total := 0, qualified_amount := 0, year := 2022, mon := 7, day := 13\<rparr>,
      t\<lparr>csq := 0, msg_id := 0, stat_code := 0\<rparr>)"

text \<open>The date handed to the clock driver \<^verbatim>\<open>ls1x_rtc_set_datetime\<close>.\<close>

definition init_rtc_time :: "product_info \<Rightarrow> rtc_obj" where
  "init_rtc_time p = \<lparr>tm_year = year p, tm_mon = mon p, tm_mday = day p, tm_hour = 8, tm_min = 0, tm_sec = 0\<rparr>"

section \<open>Start-up\<close>

text \<open>\<^verbatim>\<open>rt_mq_create\<close> as \<^verbatim>\<open>main\<close> uses it: \<open>alloc\<close> is the heap's answer, the raw slots
  for a queue of that shape, or \<open>None\<close> when it has no memory (of the object or the pool).\<close>

definition mq_create :: "(u32 \<Rightarrow> u32 \<Rightarrow> mq_msg list option) \<Rightarrow> u32 \<Rightarrow> u32 \<Rightarrow> rt_mq option" where
  "mq_create alloc msg_size max_msgs =
     (case alloc (RT_ALIGN msg_size RT_ALIGN_SIZE) max_msgs of None \<Rightarrow> None
      | Some pool \<Rightarrow> Some (mq_setup pool (ucast (RT_ALIGN msg_size RT_ALIGN_SIZE)) (ucast max_msgs)))"

text \<open>The pins (lines 81 to 92); \<open>isr1\<close>, \<open>isr2\<close> are the addresses of the two handlers.\<close>

definition main_pins :: "nat \<Rightarrow> nat \<Rightarrow> soc \<Rightarrow> soc" where
  "main_pins isr1 isr2 s =
     (let s = gpio_enable PULSE_OUT False s;
          s = gpio_write PULSE_OUT 0 s;
          s = snd (ls1x_disable_gpio_interrupt INPUT_SIGNAL s);
          s = snd (ls1x_install_gpio_isr INPUT_SIGNAL 2 isr1 0 s);
          s = snd (ls1x_enable_gpio_interrupt INPUT_SIGNAL s);
          s = snd (ls1x_disable_gpio_interrupt INPUT_SIGNAL2 s);
          s = snd (ls1x_install_gpio_isr INPUT_SIGNAL2 2 isr2 0 s)
      in snd (ls1x_enable_gpio_interrupt INPUT_SIGNAL2 s))"

text \<open>\<^verbatim>\<open>main\<close> up to the point where both interrupt handlers are installed and enabled
  (lines 59 to 92), for a board whose converter is found. \<open>None\<close> is a failed assertion.\<close>

definition main_start :: "(u32 \<Rightarrow> u32 \<Rightarrow> mq_msg list option) \<Rightarrow> nat \<Rightarrow> nat \<Rightarrow> app \<Rightarrow> app option" where
  "main_start alloc isr1 isr2 w = do {
     let (r, p, t) = init_datastructure (res_t w) (info_t w) (stat_t w);
     let w = w\<lparr>res_t := r, info_t := p, stat_t := t, ctrl_flow := 0, adc_sum := 0, adc_measure_count := 0,
               mqs := (mqs w)(output_datas_mq := mq_create alloc 20 4),
               rtc := init_rtc_time p\<rparr>;
     w \<leftarrow> send_v_threshold_msg (res_t w) w;
     w \<leftarrow> send_rtc_msg (info_t w) w;
     Some (w\<lparr>hw := main_pins isr1 isr2 (hw w)\<rparr>) }"

text \<open>The remaining queues (lines 94 to 104).\<close>

definition main_queues :: "(u32 \<Rightarrow> u32 \<Rightarrow> mq_msg list option) \<Rightarrow> app \<Rightarrow> app" where
  "main_queues alloc w = w\<lparr>mqs := (mqs w)(main_mq := mq_create alloc 20 6,
     file_write_mq := mq_create alloc 24 2, nbiot_mq := mq_create alloc 20 2), app_pc := Recv\<rparr>"

section \<open>The main loop\<close>

text \<open>\<^verbatim>\<open>rt_device_read(devADC, ADS1015_CHANNEL_S3, &x, 2)\<close>.\<close>

definition adc_read :: "u16 option \<Rightarrow> u16 \<Rightarrow> u16" where
  "adc_read reading old = (case reading of None \<Rightarrow> old | Some v \<Rightarrow> v)"

text \<open>Case 1 up to the delay: one weighing.\<close>

definition weigh_begin :: "u16 option \<Rightarrow> app \<Rightarrow> app option" where
  "weigh_begin reading w = do {
     let w = w\<lparr>temp_adc := adc_read reading (temp_adc w)\<rparr>;
     let w = w\<lparr>res_t := (if adc_sum w \<ge> temp_adc w then set_v_measure (adc_sum w - temp_adc w) (res_t w)
                         else set_v_measure 0 (res_t w))\<rparr>;
     let w = w\<lparr>adc_sum := temp_adc w\<rparr>;
     let w = w\<lparr>res_t := set_qualified (res_t w)\<rparr>;
     let w = w\<lparr>info_t := add_porduct (info_t w) (res_t w)\<rparr>;
     let w = w\<lparr>hw := set_output (res_t w) (hw w)\<rparr>;
     w \<leftarrow> send_data_msg (res_t w) (info_t w) w;
     let w = w\<lparr>stat_t := set_msg_id (stat_t w)\<rparr>;
     w \<leftarrow> send_nb_msg (res_t w) (stat_t w) w;
     Some (w\<lparr>app_pc := Delayed\<rparr>) }"

text \<open>Case 1 after the delay.\<close>

definition weigh_end :: "app \<Rightarrow> app" where
  "weigh_end w =
     (let w = w\<lparr>hw := gpio_write PULSE_OUT 0 (hw w)\<rparr>;
          w = w\<lparr>adc_measure_count := adc_measure_count w - 1\<rparr>;
          w = (if adc_measure_count w = 0
               then w\<lparr>ctrl_flow := 0, hw := snd (ls1x_enable_gpio_interrupt INPUT_SIGNAL2 (hw w))\<rparr>
               else w);
          w = w\<lparr>hw := snd (ls1x_enable_gpio_interrupt INPUT_SIGNAL (hw w))\<rparr>
      in w\<lparr>app_pc := Recv\<rparr>)"

text \<open>Case 9: six parts have been grabbed.\<close>

definition batch_begin :: "u16 option \<Rightarrow> app \<Rightarrow> app" where
  "batch_begin reading w =
     (if ctrl_flow w = 0
      then w\<lparr>adc_sum := adc_read reading (adc_sum w), adc_measure_count := 6, ctrl_flow := 1\<rparr>
      else w)"

definition main_switch :: "u16 option \<Rightarrow> u32 \<Rightarrow> bytes \<Rightarrow> app \<Rightarrow> app option" where
  "main_switch reading oob b w =
     (let op = val_arr b 0
      in if op = 1 then (if ctrl_flow w \<noteq> 0 then weigh_begin reading w else Some w)
         else if op = 2 then do {
           w \<leftarrow> send_info_to_file_msg (info_t w) w;
           send_date_to_file_msg (info_t w) w }
         else if op = 3 then do {
           let w = w\<lparr>info_t := set_product_info oob b (info_t w)\<rparr>;
           w \<leftarrow> send_rtc_msg (info_t w) w;
           send_product_info_msg (info_t w) w }
         else if op = 4 then
           (let w = w\<lparr>stat_t := set_csq b (stat_t w)\<rparr> in send_csq (stat_t w) w)
         else if op = 5 then
           (let w = w\<lparr>info_t := set_date_time b (info_t w)\<rparr> in send_rtc_msg (info_t w) w)
         else if op = 6 then
           (let w = w\<lparr>res_t := (res_t w)\<lparr>v_threshold := v_threshold (res_t w) + 10\<rparr>\<rparr>
            in send_v_threshold_msg (res_t w) w)
         else if op = 7 then
           (let w = w\<lparr>res_t := (res_t w)\<lparr>v_threshold := v_threshold (res_t w) - 10\<rparr>\<rparr>
            in send_v_threshold_msg (res_t w) w)
         else if op = 8 then send_msg_id_msg (stat_t w) w
         else if op = 9 then Some (batch_begin reading w)
         else Some w)"

text \<open>One turn of the loop from \<^verbatim>\<open>rt_mq_recv(main_mq, &r_buf.val_arr, 20, RT_WAITING_FOREVER)\<close>:
  \<open>None\<close> is a failed assertion, \<open>Some None\<close> that the thread stays suspended on an empty queue.\<close>

definition main_turn :: "u16 option \<Rightarrow> u32 \<Rightarrow> app \<Rightarrow> app option option" where
  "main_turn reading oob w = (case mqs w main_mq of None \<Rightarrow> None
     | Some m \<Rightarrow> (case mq_recv 20 m of None \<Rightarrow> Some None
       | Some (b, m') \<Rightarrow>
         (case main_switch reading oob b (w\<lparr>mqs := (mqs w)(main_mq := Some m')\<rparr>) of None \<Rightarrow> None
          | Some w' \<Rightarrow> Some (Some w'))))"

section \<open>Interrupt handlers\<close>

definition input_interrupt_isr :: "app \<Rightarrow> app option" where
  "input_interrupt_isr w =
     (let w = w\<lparr>hw := snd (ls1x_disable_gpio_interrupt INPUT_SIGNAL (hw w))\<rparr>
      in mqsend main_mq (le32 1) w)"

definition input_interrupt_isr2 :: "app \<Rightarrow> app option" where
  "input_interrupt_isr2 w =
     (let w = w\<lparr>hw := snd (ls1x_disable_gpio_interrupt INPUT_SIGNAL2 (hw w))\<rparr>
      in mqsend main_mq (le32 9) w)"

section \<open>The system\<close>

text \<open>What another thread may put into \<^verbatim>\<open>main_mq\<close>: the buttons send 6 and 7, the modem
  thread 4, 5 and 8, the file thread 2 and 3.\<close>

definition peer_msg :: "bytes \<Rightarrow> bool" where
  "peer_msg b \<longleftrightarrow> 4 \<le> length b \<and> val_arr b 0 \<in> {2, 3, 4, 5, 6, 7, 8}"

inductive app_step :: "app \<Rightarrow> app \<Rightarrow> bool" where
  turn: "app_pc w = Recv \<Longrightarrow> main_turn reading oob w = Some (Some w') \<Longrightarrow> app_step w w'"
| delay_over: "app_pc w = Delayed \<Longrightarrow> app_step w (weigh_end w)"
| signal: "gpio_irq_enabled (hw w) INPUT_SIGNAL \<Longrightarrow> input_interrupt_isr w = Some w' \<Longrightarrow> app_step w w'"
| signal2: "gpio_irq_enabled (hw w) INPUT_SIGNAL2 \<Longrightarrow> input_interrupt_isr2 w = Some w' \<Longrightarrow> app_step w w'"
| peer_send: "peer_msg b \<Longrightarrow> mqsend main_mq b w = Some w' \<Longrightarrow> app_step w w'"
| peer_recv: "q \<noteq> main_mq \<Longrightarrow> mqs w q = Some m \<Longrightarrow> mq_recv n m = Some (b, m') \<Longrightarrow>
    app_step w (w\<lparr>mqs := (mqs w)(q := Some m')\<rparr>)"

inductive app_reach :: "app \<Rightarrow> app \<Rightarrow> bool" for w0 where
  start: "app_reach w0 w0"
| step: "app_reach w0 w \<Longrightarrow> app_step w w' \<Longrightarrow> app_reach w0 w'"

section \<open>Buffers\<close>

lemma val_arr_le32 [simp]: "val_arr (le32 v @ bs) 0 = v"
  by (simp add: val_arr_def le32_def)

lemma val_arr_le32_single [simp]: "val_arr (le32 v) 0 = v"
  using val_arr_le32 [of v "[]"] by simp

lemma length_val_bytes [simp]: "length (val_bytes ws) = 4 * length ws"
  by (induction ws) (simp_all add: val_bytes_def)

lemma val_bytes_Nil_iff [simp]: "val_bytes ws = [] \<longleftrightarrow> ws = []"
  using length_val_bytes [of ws] by (cases "val_bytes ws"; cases ws) auto

lemma val_arr_prefix: "take (length b) x = b \<Longrightarrow> 4 \<le> length b \<Longrightarrow> val_arr x 0 = val_arr b 0"
proof -
  assume t: "take (length b) x = b" and l: "4 \<le> length b"
  have "x ! i = b ! i" if "i < 4" for i
    using t l that by (metis nth_take order_less_le_trans)
  then show ?thesis by (simp add: val_arr_def)
qed

lemma val_arr_take: "4 * i + 3 < n \<Longrightarrow> val_arr (take n x) i = val_arr x i"
  by (simp add: val_arr_def)

text \<open>Every word written into a buffer is read back.\<close>

lemma val_arr_val_bytes: "i < length ws \<Longrightarrow> val_arr (val_bytes ws @ bs) i = ws ! i"
proof (induction ws arbitrary: i)
  case Nil
  then show ?case by simp
next
  case (Cons w ws)
  show ?case
  proof (cases i)
    case 0
    then show ?thesis by (simp add: val_bytes_def val_arr_def le32_def)
  next
    case (Suc j)
    have "val_arr (le32 w @ xs) (Suc j) = val_arr xs j" for xs
      by (simp add: val_arr_def le32_def ac_simps)
    moreover have "val_bytes (w # ws) @ bs = le32 w @ (val_bytes ws @ bs)" by (simp add: val_bytes_def)
    ultimately show ?thesis using Cons Suc by simp
  qed
qed

section \<open>Queues of the application\<close>

definition main_ops :: "app \<Rightarrow> u32 list" where
  "main_ops w = (case mqs w main_mq of None \<Rightarrow> [] | Some m \<Rightarrow> map (\<lambda>b. val_arr b 0) (mq_contents m))"

definition qs_ok :: "app \<Rightarrow> bool" where
  "qs_ok w \<longleftrightarrow> (\<forall>q. \<exists>m. mqs w q = Some m \<and> mq_inv [] m \<and> 20 \<le> unat (mq_msg_size m))"

lemma qs_okD: "qs_ok w \<Longrightarrow> \<exists>m. mqs w q = Some m \<and> mq_inv [] m \<and> 20 \<le> unat (mq_msg_size m)"
  by (simp add: qs_ok_def)

text \<open>\<open>sent w w'\<close>: nothing but the queues other than \<open>main_mq\<close> changed.\<close>

definition sent :: "app \<Rightarrow> app \<Rightarrow> bool" where
  "sent w w' \<longleftrightarrow> w' = w\<lparr>mqs := mqs w'\<rparr> \<and> qs_ok w' \<and> main_ops w' = main_ops w"

lemma sent_trans: "sent w w' \<Longrightarrow> sent w' w'' \<Longrightarrow> sent w w''"
  by (cases w, cases w', cases w'') (simp add: sent_def)

lemma sent_frame:
  assumes "sent w w'"
  shows "res_t w' = res_t w" "info_t w' = info_t w" "stat_t w' = stat_t w" "ctrl_flow w' = ctrl_flow w"
    "adc_sum w' = adc_sum w" "adc_measure_count w' = adc_measure_count w" "temp_adc w' = temp_adc w"
    "hw w' = hw w" "app_pc w' = app_pc w" "qs_ok w'" "main_ops w' = main_ops w"
  using assms by (cases w; cases w'; simp add: sent_def)+

lemma mqsend_queue:
  assumes "qs_ok w" "buf \<noteq> []"
  obtains w' m m' where "mqsend q buf w = Some w'" "w' = w\<lparr>mqs := (mqs w)(q := Some m')\<rparr>" "qs_ok w'"
    "mqs w q = Some m" "m' = snd (mq_send buf m)" "mq_inv [] m"
proof -
  from qs_okD [OF assms(1), of q] obtain m where m: "mqs w q = Some m" "mq_inv [] m" "20 \<le> unat (mq_msg_size m)"
    by auto
  let ?m = "snd (mq_send buf m)"
  have "mq_inv [] ?m \<and> 20 \<le> unat (mq_msg_size ?m)"
    using m(2,3) by (cases rule: mq_send_cases [OF m(2), of buf]) auto
  with assms(1) have "qs_ok (w\<lparr>mqs := (mqs w)(q := Some ?m)\<rparr>)" by (simp add: qs_ok_def)
  with m assms(2) that show ?thesis by (simp add: mqsend_def)
qed

lemma mqsend_other:
  assumes "qs_ok w" "buf \<noteq> []" "q \<noteq> main_mq"
  obtains w' where "mqsend q buf w = Some w'" "sent w w'"
  using assms(3) by (cases rule: mqsend_queue [OF assms(1,2), of q])
    (auto simp: sent_def main_ops_def intro: that)

lemma mqsend_main:
  assumes "qs_ok w" "4 \<le> length b"
  obtains w' where "mqsend main_mq b w = Some w'" "w' = w\<lparr>mqs := mqs w'\<rparr>" "qs_ok w'"
    "main_ops w' = main_ops w \<or> main_ops w' = main_ops w @ [val_arr b 0]"
proof -
  from assms(2) have "b \<noteq> []" by auto
  from mqsend_queue [OF assms(1) this, of main_mq] obtain w' m m' where
    w': "mqsend main_mq b w = Some w'" "w' = w\<lparr>mqs := (mqs w)(main_mq := Some m')\<rparr>" "qs_ok w'"
    "mqs w main_mq = Some m" "m' = snd (mq_send b m)" "mq_inv [] m" by blast
  have "main_ops w' = main_ops w \<or> main_ops w' = main_ops w @ [val_arr b 0]"
    using w'(2,4,5) assms(2)
    by (cases rule: mq_send_cases [OF w'(6), of b]) (auto simp: main_ops_def val_arr_prefix)
  with w' that show ?thesis by auto
qed

lemma recv_main:
  assumes "qs_ok w" "mqs w main_mq = Some m" "mq_recv 20 m = Some (b, m')"
  shows "main_ops w = val_arr b 0 # main_ops (w\<lparr>mqs := (mqs w)(main_mq := Some m')\<rparr>)"
    and "qs_ok (w\<lparr>mqs := (mqs w)(main_mq := Some m')\<rparr>)" and "length b = 20"
proof -
  from qs_okD [OF assms(1), of main_mq] assms(2) have m: "mq_inv [] m" "20 \<le> unat (mq_msg_size m)" by auto
  from mq_recv_cases [OF m(1) assms(3)] obtain x xs where
    x: "mq_contents m = x # xs" "b = take 20 x" "mq_contents m' = xs" "mq_inv [] m'"
    "mq_msg_size m' = mq_msg_size m" "length x = unat (mq_msg_size m)" by blast
  show "main_ops w = val_arr b 0 # main_ops (w\<lparr>mqs := (mqs w)(main_mq := Some m')\<rparr>)"
    using x assms(2) by (simp add: main_ops_def val_arr_take)
  show "qs_ok (w\<lparr>mqs := (mqs w)(main_mq := Some m')\<rparr>)"
    using assms(1) x(4,5) m(2) by (simp add: qs_ok_def)
  show "length b = 20" using x(2,6) m(2) by simp
qed

section \<open>The control invariant\<close>

text \<open>A weighing signal is in at most one of three places: enabled at the pin, waiting as a
  message 1, or being weighed. The same holds for the batch signal and message 9. Outside a batch
  nothing is left to weigh, inside one between one and six parts are.\<close>

definition ctrl_ok :: "app \<Rightarrow> bool" where
  "ctrl_ok w \<longleftrightarrow>
     (if ctrl_flow w = 0 then adc_measure_count w = 0 \<and> app_pc w = Recv
      else ctrl_flow w = 1 \<and> 1 \<le> unat (adc_measure_count w) \<and> unat (adc_measure_count w) \<le> 6)"

definition sig_ok :: "app \<Rightarrow> bool" where
  "sig_ok w \<longleftrightarrow>
     count_list (main_ops w) 1 + of_bool (app_pc w = Delayed)
       + of_bool (gpio_irq_enabled (hw w) INPUT_SIGNAL) \<le> (1 :: nat)"

definition sig2_ok :: "app \<Rightarrow> bool" where
  "sig2_ok w \<longleftrightarrow>
     count_list (main_ops w) 9 + of_bool (ctrl_flow w \<noteq> 0)
       + of_bool (gpio_irq_enabled (hw w) INPUT_SIGNAL2) \<le> (1 :: nat)"

definition app_inv :: "app \<Rightarrow> bool" where
  "app_inv w \<longleftrightarrow> qs_ok w \<and> ctrl_ok w \<and> sig_ok w \<and> sig2_ok w \<and> msg_id (stat_t w) \<le> 999"

lemmas app_inv_defs = app_inv_def ctrl_ok_def sig_ok_def sig2_ok_def

lemma gpio_write_intc [simp]: "INTC (gpio_write g v s) = INTC s"
  by (simp add: gpio_write_def Let_def)

lemma gpio_write_enabled [simp]: "gpio_irq_enabled (gpio_write g v s) h = gpio_irq_enabled s h"
  by (simp add: gpio_irq_enabled_def)

lemma signals_valid [simp]: "gpio_irq_valid INPUT_SIGNAL" "gpio_irq_valid INPUT_SIGNAL2"
  by (simp_all add: gpio_irq_valid_def)

lemma signal_enable [simp]:
  "gpio_irq_enabled (snd (ls1x_enable_gpio_interrupt INPUT_SIGNAL s)) INPUT_SIGNAL"
  "gpio_irq_enabled (snd (ls1x_enable_gpio_interrupt INPUT_SIGNAL2 s)) INPUT_SIGNAL2"
  "gpio_irq_enabled (snd (ls1x_enable_gpio_interrupt INPUT_SIGNAL s)) INPUT_SIGNAL2 = gpio_irq_enabled s INPUT_SIGNAL2"
  "gpio_irq_enabled (snd (ls1x_enable_gpio_interrupt INPUT_SIGNAL2 s)) INPUT_SIGNAL = gpio_irq_enabled s INPUT_SIGNAL"
  "\<not> gpio_irq_enabled (snd (ls1x_disable_gpio_interrupt INPUT_SIGNAL s)) INPUT_SIGNAL"
  "\<not> gpio_irq_enabled (snd (ls1x_disable_gpio_interrupt INPUT_SIGNAL2 s)) INPUT_SIGNAL2"
  "gpio_irq_enabled (snd (ls1x_disable_gpio_interrupt INPUT_SIGNAL s)) INPUT_SIGNAL2 = gpio_irq_enabled s INPUT_SIGNAL2"
  "gpio_irq_enabled (snd (ls1x_disable_gpio_interrupt INPUT_SIGNAL2 s)) INPUT_SIGNAL = gpio_irq_enabled s INPUT_SIGNAL"
  by (simp_all add: gpm.en_enabled gpm.dis_enabled)

lemma set_output_enabled [simp]: "gpio_irq_enabled (set_output r s) h = gpio_irq_enabled s h"
  by (simp add: set_output_def)

lemma set_msg_id_bound [simp]: "msg_id t \<le> 999 \<Longrightarrow> msg_id (set_msg_id t) \<le> 999"
  by (auto simp: set_msg_id_def Let_def)

lemma qs_ok_upd [simp]:
  "qs_ok (w\<lparr>res_t := a\<rparr>) = qs_ok w" "qs_ok (w\<lparr>info_t := b\<rparr>) = qs_ok w" "qs_ok (w\<lparr>stat_t := c\<rparr>) = qs_ok w"
  "qs_ok (w\<lparr>ctrl_flow := d\<rparr>) = qs_ok w" "qs_ok (w\<lparr>adc_sum := e\<rparr>) = qs_ok w"
  "qs_ok (w\<lparr>adc_measure_count := f\<rparr>) = qs_ok w" "qs_ok (w\<lparr>temp_adc := e\<rparr>) = qs_ok w"
  "qs_ok (w\<lparr>hw := h\<rparr>) = qs_ok w" "qs_ok (w\<lparr>app_pc := i\<rparr>) = qs_ok w"
  by (simp_all add: qs_ok_def)

lemma main_ops_upd [simp]:
  "main_ops (w\<lparr>res_t := a\<rparr>) = main_ops w" "main_ops (w\<lparr>info_t := b\<rparr>) = main_ops w"
  "main_ops (w\<lparr>stat_t := c\<rparr>) = main_ops w" "main_ops (w\<lparr>ctrl_flow := d\<rparr>) = main_ops w"
  "main_ops (w\<lparr>adc_sum := e\<rparr>) = main_ops w" "main_ops (w\<lparr>adc_measure_count := f\<rparr>) = main_ops w"
  "main_ops (w\<lparr>temp_adc := e\<rparr>) = main_ops w" "main_ops (w\<lparr>hw := h\<rparr>) = main_ops w"
  "main_ops (w\<lparr>app_pc := i\<rparr>) = main_ops w"
  by (simp_all add: main_ops_def)

text \<open>Every message function succeeds once the queues exist, and touches nothing else.\<close>

lemma le32_not_Nil [simp]: "le32 v \<noteq> []"
  by (simp add: le32_def)

lemma send_sent:
  assumes "qs_ok w"
  shows "\<exists>w'. send_v_threshold_msg r w = Some w' \<and> sent w w'" "\<exists>w'. send_rtc_msg p w = Some w' \<and> sent w w'"
    "\<exists>w'. send_data_msg r p w = Some w' \<and> sent w w'" "\<exists>w'. send_product_info_msg p w = Some w' \<and> sent w w'"
    "\<exists>w'. send_csq t w = Some w' \<and> sent w w'" "\<exists>w'. send_msg_id_msg t w = Some w' \<and> sent w w'"
    "\<exists>w'. send_nb_msg r t w = Some w' \<and> sent w w'" "\<exists>w'. send_info_to_file_msg p w = Some w' \<and> sent w w'"
    "\<exists>w'. send_date_to_file_msg p w = Some w' \<and> sent w w'" "\<exists>w'. send_stat_code_msg t w = Some w' \<and> sent w w'"
proof -
  have m: "\<exists>w'. mqsend q buf w = Some w' \<and> sent w w'" if "buf \<noteq> []" "q \<noteq> main_mq" for q buf
    using mqsend_other [OF assms that] by metis
  show "\<exists>w'. send_v_threshold_msg r w = Some w' \<and> sent w w'" "\<exists>w'. send_rtc_msg p w = Some w' \<and> sent w w'"
    "\<exists>w'. send_data_msg r p w = Some w' \<and> sent w w'" "\<exists>w'. send_product_info_msg p w = Some w' \<and> sent w w'"
    "\<exists>w'. send_csq t w = Some w' \<and> sent w w'" "\<exists>w'. send_msg_id_msg t w = Some w' \<and> sent w w'"
    "\<exists>w'. send_nb_msg r t w = Some w' \<and> sent w w'" "\<exists>w'. send_info_to_file_msg p w = Some w' \<and> sent w w'"
    "\<exists>w'. send_date_to_file_msg p w = Some w' \<and> sent w w'" "\<exists>w'. send_stat_code_msg t w = Some w' \<and> sent w w'"
    by (simp_all add: send_v_threshold_msg_def send_rtc_msg_def send_data_msg_def send_product_info_msg_def
        send_csq_def send_msg_id_msg_def send_nb_msg_def nb_msg_bytes_def send_info_to_file_msg_def
        send_date_to_file_msg_def send_stat_code_msg_def m)
qed

text \<open>The state in which a weighing reaches the delay, apart from the queues.\<close>

definition weighed :: "u16 option \<Rightarrow> app \<Rightarrow> app" where
  "weighed reading w =
     (let t = adc_read reading (temp_adc w);
          r = set_qualified (set_v_measure (if adc_sum w \<ge> t then adc_sum w - t else 0) (res_t w))
      in w\<lparr>temp_adc := t, res_t := r, adc_sum := t, info_t := add_porduct (info_t w) r,
           hw := set_output r (hw w), stat_t := set_msg_id (stat_t w), app_pc := Delayed\<rparr>)"

lemma weigh_begin_weighed:
  assumes "qs_ok w"
  shows "\<exists>w'. weigh_begin reading w = Some w' \<and> sent (weighed reading w) w'"
proof -
  let ?t = "adc_read reading (temp_adc w)"
  let ?r = "set_qualified (set_v_measure (if adc_sum w \<ge> ?t then adc_sum w - ?t else 0) (res_t w))"
  let ?p = "add_porduct (info_t w) ?r"
  let ?w1 = "w\<lparr>temp_adc := ?t, res_t := ?r, adc_sum := ?t, info_t := ?p, hw := set_output ?r (hw w)\<rparr>"
  have "qs_ok ?w1" using assms by (simp add: qs_ok_def)
  then obtain w2 where w2: "send_data_msg ?r ?p ?w1 = Some w2" "sent ?w1 w2" using send_sent(3) by blast
  let ?w3 = "w2\<lparr>stat_t := set_msg_id (stat_t w2)\<rparr>"
  have "qs_ok ?w3" using sent_frame(10) [OF w2(2)] by simp
  then obtain w4 where w4: "send_nb_msg (res_t ?w3) (stat_t ?w3) ?w3 = Some w4" "sent ?w3 w4"
    using send_sent(7) by blast
  have "weigh_begin reading w = Some (w4\<lparr>app_pc := Delayed\<rparr>)"
    using w2(1) w4(1) by (cases w) (auto simp: weigh_begin_def Let_def)
  moreover have "sent (weighed reading w) (w4\<lparr>app_pc := Delayed\<rparr>)"
    using w2(2) w4(2) by (cases w; cases w2; cases w4) (auto simp: weighed_def Let_def sent_def main_ops_def qs_ok_def)
  ultimately show ?thesis by blast
qed

section \<open>Every step keeps the invariant\<close>

text \<open>Steps that leave the control state alone.\<close>

definition ctl_same :: "app \<Rightarrow> app \<Rightarrow> bool" where
  "ctl_same w w' \<longleftrightarrow> ctrl_flow w' = ctrl_flow w \<and> adc_measure_count w' = adc_measure_count w
     \<and> app_pc w' = app_pc w \<and> hw w' = hw w \<and> main_ops w' = main_ops w \<and> qs_ok w'
     \<and> msg_id (stat_t w') = msg_id (stat_t w)"

lemma ctl_same_inv: "ctl_same w w' \<Longrightarrow> app_inv w \<Longrightarrow> app_inv w'"
  by (auto simp: ctl_same_def app_inv_defs split: if_splits)

lemma sent_ctl_same: "sent w1 w' \<Longrightarrow> ctl_same w w1 \<Longrightarrow> ctl_same w w'"
  using sent_frame [of w1 w'] by (simp add: ctl_same_def)

lemma ctl_same_refl: "qs_ok w \<Longrightarrow> ctl_same w w"
  by (simp add: ctl_same_def)

lemma send_after:
  assumes "ctl_same w w1" "\<And>w. qs_ok w \<Longrightarrow> \<exists>w'. f w = Some w' \<and> sent w w'"
  shows "\<exists>w'. f w1 = Some w' \<and> ctl_same w w'"
proof -
  from assms(1) have "qs_ok w1" by (simp add: ctl_same_def)
  from assms(2) [OF this] assms(1) sent_ctl_same show ?thesis by blast
qed

lemma send_after2:
  assumes "ctl_same w w1" "\<And>w. qs_ok w \<Longrightarrow> \<exists>w'. f w = Some w' \<and> sent w w'"
    "\<And>w. qs_ok w \<Longrightarrow> \<exists>w'. g w = Some w' \<and> sent w w'"
  shows "\<exists>w'. (f w1 \<bind> g) = Some w' \<and> ctl_same w w'"
  using send_after [OF assms(1,2)] send_after [OF _ assms(3)] by auto

lemma switch_other:
  assumes q: "qs_ok w" and op: "val_arr b 0 \<noteq> 1" "val_arr b 0 \<noteq> 9"
  shows "\<exists>w'. main_switch reading oob b w = Some w' \<and> ctl_same w w'"
proof -
  note refl = ctl_same_refl [OF q]
  let ?i = "set_product_info oob b (info_t w)" and ?c = "set_csq b (stat_t w)"
  let ?d = "set_date_time b (info_t w)"
  have u: "ctl_same w (w\<lparr>info_t := ?i\<rparr>)" "ctl_same w (w\<lparr>stat_t := ?c\<rparr>)" "ctl_same w (w\<lparr>info_t := ?d\<rparr>)"
    "ctl_same w (w\<lparr>res_t := v\<rparr>)" for v
    using q by (simp_all add: ctl_same_def set_csq_def)
  have 2: "\<exists>w'. (send_info_to_file_msg (info_t w) w \<bind> (\<lambda>w. send_date_to_file_msg (info_t w) w)) = Some w' \<and> ctl_same w w'"
    by (rule send_after2 [OF refl]) (rule send_sent; assumption)+
  have 3: "\<exists>w'. (send_rtc_msg ?i (w\<lparr>info_t := ?i\<rparr>) \<bind> (\<lambda>w. send_product_info_msg (info_t w) w)) = Some w' \<and> ctl_same w w'"
    by (rule send_after2 [OF u(1)]) (rule send_sent; assumption)+
  have 4: "\<exists>w'. send_csq ?c (w\<lparr>stat_t := ?c\<rparr>) = Some w' \<and> ctl_same w w'"
    by (rule send_after [OF u(2)]) (rule send_sent; assumption)
  have 5: "\<exists>w'. send_rtc_msg ?d (w\<lparr>info_t := ?d\<rparr>) = Some w' \<and> ctl_same w w'"
    by (rule send_after [OF u(3)]) (rule send_sent; assumption)
  have 6: "\<exists>w'. send_v_threshold_msg v (w\<lparr>res_t := v\<rparr>) = Some w' \<and> ctl_same w w'" for v
    by (rule send_after [OF u(4)]) (rule send_sent; assumption)
  have 8: "\<exists>w'. send_msg_id_msg (stat_t w) w = Some w' \<and> ctl_same w w'"
    by (rule send_after [OF refl]) (rule send_sent; assumption)
  from op 2 3 4 5 6 8 refl show ?thesis by (auto simp: main_switch_def Let_def)
qed

lemma count_list_Cons_le: "count_list (x # xs) y = count_list xs y + of_bool (x = y)"
  by simp

lemma weighed_frame [simp]:
  "ctrl_flow (weighed rd w) = ctrl_flow w" "adc_measure_count (weighed rd w) = adc_measure_count w"
  "app_pc (weighed rd w) = Delayed" "main_ops (weighed rd w) = main_ops w" "qs_ok (weighed rd w) = qs_ok w"
  "stat_t (weighed rd w) = set_msg_id (stat_t w)" "gpio_irq_enabled (hw (weighed rd w)) g = gpio_irq_enabled (hw w) g"
  by (simp_all add: weighed_def Let_def main_ops_def qs_ok_def)

lemma turn_inv:
  assumes inv: "app_inv w0" and pc: "app_pc w0 = Recv" and t: "main_turn reading oob w0 = Some r"
  shows "r = None \<or> (\<exists>w'. r = Some w' \<and> app_inv w')"
proof (cases r)
  case (Some w')
  from inv have q0: "qs_ok w0" by (simp add: app_inv_def)
  from qs_okD [OF q0, of main_mq] obtain m where m: "mqs w0 main_mq = Some m" by auto
  with t Some obtain b m' where r: "mq_recv 20 m = Some (b, m')"
    and sw: "main_switch reading oob b (w0\<lparr>mqs := (mqs w0)(main_mq := Some m')\<rparr>) = Some w'"
    by (auto simp: main_turn_def split: option.splits)
  let ?w = "w0\<lparr>mqs := (mqs w0)(main_mq := Some m')\<rparr>"
  note rm = recv_main [OF q0 m r]
  have wi: "app_inv ?w" using inv rm(1,2) by (auto simp: app_inv_defs split: if_splits)
  consider (one) "val_arr b 0 = 1" | (nine) "val_arr b 0 = 9" | (other) "val_arr b 0 \<noteq> 1" "val_arr b 0 \<noteq> 9"
    by blast
  then have "app_inv w'"
  proof cases
    case one
    show ?thesis
    proof (cases "ctrl_flow ?w = 0")
      case True
      with one sw wi show ?thesis by (simp add: main_switch_def)
    next
      case False
      with weigh_begin_weighed [OF rm(2), of reading] one sw have "sent (weighed reading ?w) w'"
        by (auto simp: main_switch_def)
      from sent_frame [OF this] False inv pc rm(1) one show ?thesis
        by (auto simp: app_inv_defs split: if_splits)
    qed
  next
    case nine
    with inv rm(1) have "ctrl_flow w0 = 0" by (auto simp: app_inv_defs split: if_splits)
    with nine sw inv pc rm show ?thesis
      by (auto simp: main_switch_def batch_begin_def app_inv_defs split: if_splits)
  next
    case other
    from switch_other [OF rm(2) other, of reading oob] sw have "ctl_same ?w w'" by auto
    from ctl_same_inv [OF this wi] show ?thesis .
  qed
  with Some show ?thesis by blast
qed simp

lemma weigh_end_inv:
  assumes "app_inv w" "app_pc w = Delayed"
  shows "app_inv (weigh_end w)"
proof -
  let ?c = "adc_measure_count w"
  from assms have c: "ctrl_flow w = 1" "1 \<le> unat ?c" "unat ?c \<le> 6"
    by (auto simp: app_inv_defs split: if_splits)
  have "unat (?c - 1) = unat ?c - 1" using c(2) by (intro unat_minus_one_pos) auto
  moreover have "?c - 1 = 0 \<longleftrightarrow> unat (?c - 1) = 0" by (simp add: unat_eq_0)
  ultimately show ?thesis using assms c by (auto simp: app_inv_defs weigh_end_def Let_def split: if_splits)
qed

lemma isr_inv:
  assumes "app_inv w"
  shows "gpio_irq_enabled (hw w) INPUT_SIGNAL \<Longrightarrow> input_interrupt_isr w = Some w' \<Longrightarrow> app_inv w'"
    and "gpio_irq_enabled (hw w) INPUT_SIGNAL2 \<Longrightarrow> input_interrupt_isr2 w = Some w' \<Longrightarrow> app_inv w'"
proof -
  assume e: "gpio_irq_enabled (hw w) INPUT_SIGNAL" and i: "input_interrupt_isr w = Some w'"
  let ?w = "w\<lparr>hw := snd (ls1x_disable_gpio_interrupt INPUT_SIGNAL (hw w))\<rparr>"
  have "qs_ok ?w" using assms by (simp add: app_inv_def)
  from mqsend_main [OF this, of "le32 1"] i have f: "w' = ?w\<lparr>mqs := mqs w'\<rparr>" "qs_ok w'"
    "main_ops w' = main_ops w \<or> main_ops w' = main_ops w @ [1]"
    by (auto simp: input_interrupt_isr_def)
  have "ctrl_flow w' = ctrl_flow w \<and> adc_measure_count w' = adc_measure_count w \<and> app_pc w' = app_pc w
      \<and> stat_t w' = stat_t w \<and> hw w' = hw ?w" by (subst f(1), subst f(1), subst f(1), subst f(1), subst f(1)) simp
  with f(2,3) assms e show "app_inv w'" by (auto simp: app_inv_defs split: if_splits)
next
  assume e: "gpio_irq_enabled (hw w) INPUT_SIGNAL2" and i: "input_interrupt_isr2 w = Some w'"
  let ?w = "w\<lparr>hw := snd (ls1x_disable_gpio_interrupt INPUT_SIGNAL2 (hw w))\<rparr>"
  have "qs_ok ?w" using assms by (simp add: app_inv_def)
  from mqsend_main [OF this, of "le32 9"] i have f: "w' = ?w\<lparr>mqs := mqs w'\<rparr>" "qs_ok w'"
    "main_ops w' = main_ops w \<or> main_ops w' = main_ops w @ [9]"
    by (auto simp: input_interrupt_isr2_def)
  have "ctrl_flow w' = ctrl_flow w \<and> adc_measure_count w' = adc_measure_count w \<and> app_pc w' = app_pc w
      \<and> stat_t w' = stat_t w \<and> hw w' = hw ?w" by (subst f(1), subst f(1), subst f(1), subst f(1), subst f(1)) simp
  with f(2,3) assms e show "app_inv w'" by (auto simp: app_inv_defs split: if_splits)
qed

lemma app_step_inv: "app_step w w' \<Longrightarrow> app_inv w \<Longrightarrow> app_inv w'"
proof (induction rule: app_step.induct)
  case (turn w reading oob w')
  from turn_inv [OF turn(3,1,2)] show ?case by simp
next
  case (delay_over w)
  then show ?case by (simp add: weigh_end_inv)
next
  case (signal w w')
  then show ?case using isr_inv(1) by blast
next
  case (signal2 w w')
  then show ?case using isr_inv(2) by blast
next
  case (peer_send b w w')
  from peer_send(3) have "qs_ok w" by (simp add: app_inv_def)
  from mqsend_main [OF this, of b] peer_send(1,2) have f: "w' = w\<lparr>mqs := mqs w'\<rparr>" "qs_ok w'"
    "main_ops w' = main_ops w \<or> main_ops w' = main_ops w @ [val_arr b 0]"
    by (auto simp: peer_msg_def)
  have "ctrl_flow w' = ctrl_flow w \<and> adc_measure_count w' = adc_measure_count w \<and> app_pc w' = app_pc w
      \<and> stat_t w' = stat_t w \<and> hw w' = hw w" by (subst f(1), subst f(1), subst f(1), subst f(1), subst f(1)) simp
  moreover have "val_arr b 0 \<noteq> 1" "val_arr b 0 \<noteq> 9" using peer_send(1) by (auto simp: peer_msg_def)
  ultimately show ?case using f(2,3) peer_send(3) by (auto simp: app_inv_defs split: if_splits)
next
  case (peer_recv q w m n b m')
  from peer_recv(4) qs_okD [of w q] peer_recv(2) have m: "mq_inv [] m" "20 \<le> unat (mq_msg_size m)"
    by (auto simp: app_inv_def)
  from mq_recv_cases [OF m(1) peer_recv(3)] have "mq_inv [] m'" "mq_msg_size m' = mq_msg_size m" by auto
  with m peer_recv have "qs_ok (w\<lparr>mqs := (mqs w)(q := Some m')\<rparr>)" by (simp add: app_inv_def qs_ok_def)
  moreover have "main_ops (w\<lparr>mqs := (mqs w)(q := Some m')\<rparr>) = main_ops w"
    using peer_recv(1) by (simp add: main_ops_def)
  ultimately show ?case using peer_recv(4) by (auto simp: app_inv_defs split: if_splits)
qed

lemma app_reach_inv: "app_reach w0 w \<Longrightarrow> app_inv w0 \<Longrightarrow> app_inv w"
  by (induction rule: app_reach.induct) (auto intro: app_step_inv)

section \<open>Start-up establishes the invariant\<close>

text \<open>The heap has room for the four queues: it hands out as many slots as were asked for, each of
  the aligned message size.\<close>

definition heap_ok :: "(u32 \<Rightarrow> u32 \<Rightarrow> mq_msg list option) \<Rightarrow> bool" where
  "heap_ok alloc \<longleftrightarrow> (\<forall>n \<in> {2, 4, 6}. \<exists>pool. alloc 24 n = Some pool \<and> length pool = unat n
     \<and> (\<forall>s \<in> set pool. length (body s) = 24))"

lemma mq_create_ok:
  assumes "heap_ok alloc" "n \<in> {2, 4, 6}" "sz \<in> {20, 24}"
  shows "\<exists>m. mq_create alloc sz n = Some m \<and> mq_inv [] m \<and> mq_contents m = [] \<and> mq_msg_size m = 24
    \<and> mq_cap m = unat n"
proof -
  from assms(3) have al: "RT_ALIGN sz RT_ALIGN_SIZE = 24" by (auto simp: RT_ALIGN_def)
  from assms(1,2) obtain pool where p: "alloc 24 n = Some pool" "length pool = unat n"
    "\<forall>s \<in> set pool. length (body s) = 24" by (auto simp: heap_ok_def)
  have "unat (ucast n :: u16) = unat n" using assms(2) by auto
  with p mq_setup_inv [of pool "ucast n" 24] show ?thesis by (simp add: mq_create_def al)
qed

lemma main_pins_enabled:
  "gpio_irq_enabled (main_pins i1 i2 s) INPUT_SIGNAL" "gpio_irq_enabled (main_pins i1 i2 s) INPUT_SIGNAL2"
proof -
  have "gpio_irq_enabled (snd (ls1x_install_gpio_isr INPUT_SIGNAL2 m i a s)) INPUT_SIGNAL
      = gpio_irq_enabled s INPUT_SIGNAL" for m i a s
    by (simp add: gpio_irq_enabled_bit ls1x_install_gpio_isr_def Let_def intc_upd_def set_trigger_def
        ls1x_gpio_intcbit_def ls1x_gpio_intcbase_def ls1x_gpio_irqnum_def gpio_bit_pos_def bit_simps)
  then show "gpio_irq_enabled (main_pins i1 i2 s) INPUT_SIGNAL" "gpio_irq_enabled (main_pins i1 i2 s) INPUT_SIGNAL2"
    by (simp_all add: main_pins_def Let_def)
qed

lemma mqsend_one:
  assumes "mqs w q = Some m" "mq_inv [] m" "buf \<noteq> []"
  shows "\<exists>m'. mqsend q buf w = Some (w\<lparr>mqs := (mqs w)(q := Some m')\<rparr>) \<and> mq_inv [] m'
    \<and> mq_msg_size m' = mq_msg_size m"
proof -
  have "mq_inv [] (snd (mq_send buf m)) \<and> mq_msg_size (snd (mq_send buf m)) = mq_msg_size m"
    using assms(2) by (cases rule: mq_send_cases [OF assms(2), of buf]) auto
  moreover have "mqsend q buf w = Some (w\<lparr>mqs := (mqs w)(q := Some (snd (mq_send buf m)))\<rparr>)"
    using assms(1,3) by (simp add: mqsend_def)
  ultimately show ?thesis by blast
qed

lemma main_start_ok:
  assumes "heap_ok alloc"
  obtains w m where "main_start alloc i1 i2 w0 = Some w" "mqs w = (mqs w0)(output_datas_mq := Some m)"
    "mq_inv [] m" "mq_msg_size m = 24" "ctrl_flow w = 0" "adc_measure_count w = 0" "msg_id (stat_t w) = 0"
    "hw w = main_pins i1 i2 (hw w0)"
proof -
  from mq_create_ok [OF assms, of 4 20] obtain m where
    m: "mq_create alloc 20 4 = Some m" "mq_inv [] m" "mq_msg_size m = 24" by auto
  let ?w = "w0\<lparr>res_t := (res_t w0)\<lparr>v_measure := 0, v_threshold := 350, r_qualified := 0\<rparr>,
      info_t := (info_t w0)\<lparr>total := 0, qualified_amount := 0, year := 2022, mon := 7, day := 13\<rparr>,
      stat_t := (stat_t w0)\<lparr>csq := 0, msg_id := 0, stat_code := 0\<rparr>, ctrl_flow := 0, adc_sum := 0,
      adc_measure_count := 0, mqs := (mqs w0)(output_datas_mq := Some m),
      rtc := \<lparr>tm_year = 2022, tm_mon = 7, tm_mday = 13, tm_hour = 8, tm_min = 0, tm_sec = 0\<rparr>\<rparr>"
  from mqsend_one [of ?w output_datas_mq m "val_bytes [2, 350]"] m obtain m1 where
    m1: "mqsend output_datas_mq (val_bytes [2, 350]) ?w = Some (?w\<lparr>mqs := (mqs w0)(output_datas_mq := Some m1)\<rparr>)"
    "mq_inv [] m1" "mq_msg_size m1 = 24" by auto
  let ?w1 = "?w\<lparr>mqs := (mqs w0)(output_datas_mq := Some m1)\<rparr>"
  from mqsend_one [of ?w1 output_datas_mq m1 "val_bytes [3, 2022, 7, 13]"] m1(2,3) obtain m2 where
    m2: "mqsend output_datas_mq (val_bytes [3, 2022, 7, 13]) ?w1 = Some (?w1\<lparr>mqs := (mqs w0)(output_datas_mq := Some m2)\<rparr>)"
    "mq_inv [] m2" "mq_msg_size m2 = 24" by auto
  have "main_start alloc i1 i2 w0 = Some (?w1\<lparr>mqs := (mqs w0)(output_datas_mq := Some m2), hw := main_pins i1 i2 (hw w0)\<rparr>)"
    using m(1) m1(1) m2(1)
    by (simp add: main_start_def init_datastructure_def init_rtc_time_def send_v_threshold_msg_def send_rtc_msg_def)
  from that [OF this _ m2(2,3)] show ?thesis by simp
qed

lemma main_ready_inv:
  assumes "heap_ok alloc" "main_start alloc i1 i2 w0 = Some w"
  shows "app_inv (main_queues alloc w)"
proof -
  from main_start_ok [OF assms(1), of i1 i2 w0] assms(2) obtain m where
    w: "mqs w = (mqs w0)(output_datas_mq := Some m)" "mq_inv [] m" "mq_msg_size m = 24" "ctrl_flow w = 0"
    "adc_measure_count w = 0" "msg_id (stat_t w) = 0" "hw w = main_pins i1 i2 (hw w0)" by auto
  from mq_create_ok [OF assms(1), of 6 20] mq_create_ok [OF assms(1), of 2 24] mq_create_ok [OF assms(1), of 2 20]
  obtain a b c where q: "mq_create alloc 20 6 = Some a" "mq_inv [] a" "mq_contents a = []" "mq_msg_size a = 24"
    "mq_create alloc 24 2 = Some b" "mq_inv [] b" "mq_msg_size b = 24"
    "mq_create alloc 20 2 = Some c" "mq_inv [] c" "mq_msg_size c = 24" by auto
  have "qs_ok (main_queues alloc w)"
    unfolding qs_ok_def
  proof
    fix x
    show "\<exists>m. mqs (main_queues alloc w) x = Some m \<and> mq_inv [] m \<and> 20 \<le> unat (mq_msg_size m)"
      using q w(1-3) by (cases x) (simp_all add: main_queues_def)
  qed
  moreover have "main_ops (main_queues alloc w) = []" using q by (simp add: main_ops_def main_queues_def)
  ultimately show ?thesis using w(4-7)
    by (simp add: app_inv_defs main_pins_enabled) (simp add: main_queues_def main_pins_enabled)
qed

section \<open>Batches\<close>

text \<open>A batch as the operator sees it: the reference reading \<open>a\<close> of all six parts, then one reading
  after each part is taken off. A part's voltage is twice the drop, or 0 when the reading rose.\<close>

primrec voltages :: "u16 \<Rightarrow> u16 list \<Rightarrow> u32 list" where
  "voltages a [] = []"
| "voltages a (r # rs) = (if a \<ge> r then 2 * ucast (a - r) else 0) # voltages r rs"

text \<open>The weighings of a batch, each from its message 1 to the end of its delay.\<close>

primrec weigh_all :: "u16 list \<Rightarrow> app \<Rightarrow> app option" where
  "weigh_all [] w = Some w"
| "weigh_all (r # rs) w = weigh_begin (Some r) w \<bind> (\<lambda>w. weigh_all rs (weigh_end w))"

lemma weigh_one:
  assumes "qs_ok w"
  obtains w' where "weigh_begin (Some r) w = Some w'" "qs_ok (weigh_end w')"
    "adc_sum (weigh_end w') = r" "adc_measure_count (weigh_end w') = adc_measure_count w - 1"
    "ctrl_flow (weigh_end w') = (if adc_measure_count w = 1 then 0 else ctrl_flow w)"
    "total (info_t (weigh_end w')) = total (info_t w) + 1"
    "qualified_amount (info_t (weigh_end w')) = qualified_amount (info_t w)
       + of_bool ((if adc_sum w \<ge> r then 2 * ucast (adc_sum w - r) else 0) > v_threshold (res_t w))"
    "v_threshold (res_t (weigh_end w')) = v_threshold (res_t w)"
proof -
  from weigh_begin_weighed [OF assms, of "Some r"] obtain w' where
    w': "weigh_begin (Some r) w = Some w'" "sent (weighed (Some r) w) w'" by blast
  note f = sent_frame [OF w'(2)]
  have e: "info_t (weigh_end w') = info_t w'" "res_t (weigh_end w') = res_t w'" "adc_sum (weigh_end w') = adc_sum w'"
    "qs_ok (weigh_end w') = qs_ok w'" "adc_measure_count (weigh_end w') = adc_measure_count w' - 1"
    "ctrl_flow (weigh_end w') = (if adc_measure_count w' - 1 = 0 then 0 else ctrl_flow w')"
    by (simp_all add: weigh_end_def Let_def qs_ok_def)
  let ?d = "if adc_sum w \<ge> r then adc_sum w - r else 0"
  let ?r = "set_qualified (set_v_measure ?d (res_t w))"
  have g: "info_t w' = add_porduct (info_t w) ?r" "res_t w' = ?r" "adc_sum w' = r"
    "adc_measure_count w' = adc_measure_count w" "ctrl_flow w' = ctrl_flow w" "qs_ok w'"
    by (simp_all only: f(1,2,4,5,6,10)) (simp_all add: weighed_def Let_def adc_read_def)
  have q: "r_qualified ?r = of_bool ((if adc_sum w \<ge> r then 2 * ucast (adc_sum w - r) else 0) > v_threshold (res_t w))"
    by (simp add: set_qualified_def set_v_measure_def mult.commute)
  show ?thesis
  proof (rule that [OF w'(1)])
    show "qualified_amount (info_t (weigh_end w')) = qualified_amount (info_t w)
       + of_bool ((if adc_sum w \<ge> r then 2 * ucast (adc_sum w - r) else 0) > v_threshold (res_t w))"
      by (simp only: e g add_porduct_def q) simp
    show "v_threshold (res_t (weigh_end w')) = v_threshold (res_t w)"
      by (simp only: e g) (simp add: set_qualified_def set_v_measure_def)
  qed (simp_all add: e g add_porduct_def)
qed

lemma weigh_all_spec:
  "qs_ok w \<Longrightarrow> unat (adc_measure_count w) = length rs \<Longrightarrow> rs \<noteq> [] \<Longrightarrow>
    \<exists>w'. weigh_all rs w = Some w' \<and> qs_ok w' \<and> ctrl_flow w' = 0 \<and> adc_measure_count w' = 0
      \<and> total (info_t w') = total (info_t w) + of_nat (length rs)
      \<and> qualified_amount (info_t w') = qualified_amount (info_t w)
          + of_nat (length (filter (\<lambda>v. v > v_threshold (res_t w)) (voltages (adc_sum w) rs)))"
proof (induction rs arbitrary: w)
  case Nil
  then show ?case by simp
next
  case (Cons r rs)
  from weigh_one [OF Cons.prems(1), of r] obtain w1 where
    w1: "weigh_begin (Some r) w = Some w1" "qs_ok (weigh_end w1)" "adc_sum (weigh_end w1) = r"
    "adc_measure_count (weigh_end w1) = adc_measure_count w - 1"
    "ctrl_flow (weigh_end w1) = (if adc_measure_count w = 1 then 0 else ctrl_flow w)"
    "total (info_t (weigh_end w1)) = total (info_t w) + 1"
    "qualified_amount (info_t (weigh_end w1)) = qualified_amount (info_t w)
       + of_bool ((if adc_sum w \<ge> r then 2 * ucast (adc_sum w - r) else 0) > v_threshold (res_t w))"
    "v_threshold (res_t (weigh_end w1)) = v_threshold (res_t w)" by blast
  have "adc_measure_count w \<noteq> 0" using Cons.prems(2) by auto
  then have n: "unat (adc_measure_count w - 1) = length rs"
    using Cons.prems(2) by (simp add: unat_minus_one_pos)
  show ?case
  proof (cases "rs = []")
    case True
    with n have "adc_measure_count w - 1 = 0" by (simp add: unat_eq_0)
    then have "adc_measure_count w = 1" by simp
    with True w1 show ?thesis by simp
  next
    case False
    have "unat (adc_measure_count (weigh_end w1)) = length rs" using n by (simp only: w1(4))
    from Cons.IH [OF w1(2) this False] obtain w' where w': "weigh_all rs (weigh_end w1) = Some w'" "qs_ok w'"
      "ctrl_flow w' = 0" "adc_measure_count w' = 0"
      "total (info_t w') = total (info_t (weigh_end w1)) + of_nat (length rs)"
      "qualified_amount (info_t w') = qualified_amount (info_t (weigh_end w1))
        + of_nat (length (filter (\<lambda>v. v > v_threshold (res_t (weigh_end w1))) (voltages (adc_sum (weigh_end w1)) rs)))"
      by blast
    let ?v = "if adc_sum w \<ge> r then 2 * ucast (adc_sum w - r) else 0 :: u32"
    have "of_nat (length (filter (\<lambda>v. v > v_threshold (res_t w)) (voltages (adc_sum w) (r # rs)))) =
        of_bool (?v > v_threshold (res_t w)) + (of_nat (length (filter (\<lambda>v. v > v_threshold (res_t w)) (voltages r rs))) :: u32)"
      by simp
    with w'(6) have "qualified_amount (info_t w') = qualified_amount (info_t w)
        + of_nat (length (filter (\<lambda>v. v > v_threshold (res_t w)) (voltages (adc_sum w) (r # rs))))"
      by (simp only: w1(3,7,8) add.assoc)
    moreover have "total (info_t w') = total (info_t w) + of_nat (length (r # rs))"
      by (simp add: w'(5) w1(6))
    ultimately show ?thesis using w'(1-4) w1(1) by (simp del: voltages.simps)
  qed
qed

section \<open>Decimal digits\<close>

lemma digit_chr_back: "w < 10 \<Longrightarrow> scast (digit_chr w) - 48 = w"
proof -
  assume "w < 10"
  then have "unat w < 10" by (simp add: word_less_nat_alt)
  moreover have n: "w = of_nat (unat w)" by simp
  ultimately obtain n where w: "w = of_nat n" and "n < 10" by blast
  then have "n \<in> {0, 1, 2, 3, 4, 5, 6, 7, 8, 9}" by auto
  with w show ?thesis by (auto simp: digit_chr_def)
qed

lemma nat_digits: "n div 1000 * 1000 + n mod 1000 div 100 * 100 + n mod 100 div 10 * 10 + n mod 10 = (n :: nat)"
proof -
  have "n mod 1000 mod 100 = n mod 100" "n mod 100 mod 10 = n mod 10" by (simp_all add: mod_mod_cancel)
  then show ?thesis
    using div_mult_mod_eq [of n 1000] div_mult_mod_eq [of "n mod 1000" 100] div_mult_mod_eq [of "n mod 100" 10]
    by linarith
qed

lemma four_digits:
  fixes v :: u32
  shows "(v div 1000) * 1000 + ((v mod 1000) div 100) * 100 + ((v mod 100) div 10) * 10 + v mod 10 = v"
proof -
  have m: "unat (x mod y) = unat x mod unat y" "unat (x div y) = unat x div unat y" for x y :: u32
    by (simp_all add: unat_div_distrib unat_mod_distrib)
  have "(v div 1000) * 1000 + ((v mod 1000) div 100) * 100 + ((v mod 100) div 10) * 10 + v mod 10 =
      of_nat (unat (v div 1000) * 1000 + unat ((v mod 1000) div 100) * 100 + unat ((v mod 100) div 10) * 10 + unat (v mod 10))"
    by simp
  also have "unat (v div 1000) * 1000 + unat ((v mod 1000) div 100) * 100 + unat ((v mod 100) div 10) * 10 + unat (v mod 10) = unat v"
    unfolding m using nat_digits [of "unat v"] by simp
  finally show ?thesis by simp
qed

lemma digit_bounds:
  fixes v :: u32
  shows "v < 10000 \<Longrightarrow> v div 1000 < 10" "(v mod 1000) div 100 < 10" "(v mod 100) div 10 < 10" "v mod 10 < 10"
    "v < 1000 \<Longrightarrow> v div 100 < 10"
  by (simp_all add: word_less_nat_alt unat_div_distrib unat_mod_distrib less_mult_imp_div_less)

lemma asc_digit: "w < 10 \<Longrightarrow> b ! i = digit_chr w \<Longrightarrow> asc_int b i - 48 = w"
  using digit_chr_back [of w] by (simp add: asc_int_def)

section \<open>A masked signal stays masked\<close>

definition sig_dead :: "app \<Rightarrow> bool" where
  "sig_dead w \<longleftrightarrow> app_inv w \<and> app_pc w = Recv \<and> \<not> gpio_irq_enabled (hw w) INPUT_SIGNAL \<and> 1 \<notin> set (main_ops w)"

lemma turn_dead:
  assumes d: "sig_dead w0" and t: "main_turn reading oob w0 = Some (Some w')"
  shows "sig_dead w'"
proof -
  from d have inv: "app_inv w0" and pc: "app_pc w0 = Recv" by (simp_all add: sig_dead_def)
  from turn_inv [OF inv pc t] have inv': "app_inv w'" by simp
  from inv have q0: "qs_ok w0" by (simp add: app_inv_def)
  from qs_okD [OF q0, of main_mq] obtain m where m: "mqs w0 main_mq = Some m" by auto
  with t obtain b m' where r: "mq_recv 20 m = Some (b, m')"
    and sw: "main_switch reading oob b (w0\<lparr>mqs := (mqs w0)(main_mq := Some m')\<rparr>) = Some w'"
    by (auto simp: main_turn_def split: option.splits)
  let ?w = "w0\<lparr>mqs := (mqs w0)(main_mq := Some m')\<rparr>"
  note rm = recv_main [OF q0 m r]
  have op: "val_arr b 0 \<noteq> 1" using d rm(1) by (auto simp: sig_dead_def)
  show ?thesis
  proof (cases "val_arr b 0 = 9")
    case True
    with op sw d rm(1) inv' show ?thesis
      by (auto simp: sig_dead_def main_switch_def batch_begin_def split: if_splits)
  next
    case False
    from switch_other [OF rm(2) op False, of reading oob] sw have "ctl_same ?w w'" by auto
    with d rm(1) inv' show ?thesis by (auto simp: sig_dead_def ctl_same_def)
  qed
qed

lemma send_dead:
  assumes d: "sig_dead w" and s: "mqsend main_mq b (w\<lparr>hw := h\<rparr>) = Some w'" and l: "4 \<le> length b"
    and op: "val_arr b 0 \<noteq> 1" and h: "\<not> gpio_irq_enabled h INPUT_SIGNAL" and i: "app_inv w'"
  shows "sig_dead w'"
proof -
  from d have "qs_ok (w\<lparr>hw := h\<rparr>)" by (simp add: sig_dead_def app_inv_def)
  from mqsend_main [OF this l] s have f: "w' = (w\<lparr>hw := h\<rparr>)\<lparr>mqs := mqs w'\<rparr>"
    "main_ops w' = main_ops w \<or> main_ops w' = main_ops w @ [val_arr b 0]" by auto
  have "app_pc w' = app_pc w" "hw w' = h" by (subst f(1), simp)+
  with f(2) d op h i show ?thesis by (auto simp: sig_dead_def)
qed

lemma step_dead: "app_step w w' \<Longrightarrow> sig_dead w \<Longrightarrow> sig_dead w'"
proof (induction rule: app_step.induct)
  case (turn w reading oob w')
  then show ?case by (blast intro: turn_dead)
next
  case (delay_over w)
  then show ?case by (simp add: sig_dead_def)
next
  case (signal w w')
  then show ?case by (simp add: sig_dead_def)
next
  case (signal2 w w')
  then have "app_inv w'" using isr_inv(2) by (auto simp: sig_dead_def)
  with signal2 show ?case
    by (intro send_dead [of w "le32 9" _ w']) (auto simp: sig_dead_def input_interrupt_isr2_def)
next
  case (peer_send b w w')
  then have "app_inv w'" using app_step_inv [OF app_step.peer_send] by (auto simp: sig_dead_def)
  with peer_send show ?case
    by (intro send_dead [of w b "hw w" w']) (auto simp: sig_dead_def peer_msg_def)
next
  case (peer_recv q w m n b m')
  then have "app_inv (w\<lparr>mqs := (mqs w)(q := Some m')\<rparr>)"
    using app_step_inv [OF app_step.peer_recv] by (simp add: sig_dead_def)
  moreover have "main_ops (w\<lparr>mqs := (mqs w)(q := Some m')\<rparr>) = main_ops w"
    using peer_recv(1) by (simp add: main_ops_def)
  ultimately show ?case using peer_recv(4) by (simp add: sig_dead_def)
qed

lemma reach_dead: "app_reach w0 w \<Longrightarrow> sig_dead w0 \<Longrightarrow> sig_dead w"
  by (induction rule: app_reach.induct) (auto intro: step_dead)

section \<open>Properties\<close>

lemma switch_total:
  assumes "qs_ok w"
  shows "\<exists>w'. main_switch reading oob b w = Some w'"
proof (cases "val_arr b 0 = 1 \<or> val_arr b 0 = 9")
  case True
  with weigh_begin_weighed [OF assms, of reading] show ?thesis by (auto simp: main_switch_def)
next
  case False
  with switch_other [OF assms, of b reading oob] show ?thesis by auto
qed

lemma mqsend_main_total: "qs_ok w \<Longrightarrow> mqsend main_mq (le32 v) (w\<lparr>hw := h\<rparr>) \<noteq> None"
  by (rule mqsend_main [of "w\<lparr>hw := h\<rparr>" "le32 v"]) auto

lemma isr_total: "qs_ok w \<Longrightarrow> input_interrupt_isr w \<noteq> None \<and> input_interrupt_isr2 w \<noteq> None"
  by (simp add: input_interrupt_isr_def input_interrupt_isr2_def Let_def mqsend_main_total
      del: not_None_eq)

lemma turn_total: "qs_ok w \<Longrightarrow> main_turn reading oob w \<noteq> None"
proof -
  assume q: "qs_ok w"
  from qs_okD [OF q, of main_mq] obtain m where m: "mqs w main_mq = Some m" by auto
  show ?thesis
  proof (cases "mq_recv 20 m")
    case None
    with m show ?thesis by (simp add: main_turn_def)
  next
    case (Some r)
    obtain b m' where r: "r = (b, m')" by (cases r)
    from switch_total [OF recv_main(2) [OF q m Some [unfolded r]], of reading oob b]
    show ?thesis using m Some r by (auto simp: main_turn_def)
  qed
qed

text \<open>A heap that always has room and a board that has just been switched on, for the witnesses.\<close>

definition roomy_heap :: "u32 \<Rightarrow> u32 \<Rightarrow> mq_msg list option" where
  "roomy_heap sz n = Some (replicate (unat n) \<lparr>nxt = None, body = replicate (unat sz) 0\<rparr>)"

definition app_zero :: app where
  "app_zero = \<lparr>res_t = \<lparr>v_measure = 0, v_threshold = 0, r_qualified = 0\<rparr>,
     info_t = \<lparr>total = 0, qualified_amount = 0, year = 0, mon = 0, day = 0, p_hour = 0, p_min = 0\<rparr>,
     stat_t = \<lparr>csq = 0, msg_id = 0, stat_code = 0\<rparr>, ctrl_flow = 0, adc_sum = 0, adc_measure_count = 0,
     temp_adc = 0, mqs = \<lambda>_. None, hw = soc_zero,
     rtc = \<lparr>tm_year = 0, tm_mon = 0, tm_mday = 0, tm_hour = 0, tm_min = 0, tm_sec = 0\<rparr>, app_pc = Recv\<rparr>"

lemma roomy_heap_ok: "heap_ok roomy_heap"
  by (auto simp: heap_ok_def roomy_heap_def)

lemma roomy_start: "\<exists>w. main_start roomy_heap 1 2 app_zero = Some w"
  using main_start_ok [OF roomy_heap_ok, of 1 2 app_zero] by metis





text \<open>C6: A batch is counted right. When the batch pulse is handled with reading \<open>a\<close> and the six
  weighing pulses with readings \<open>rs\<close>, the batch ends with no part left and the batch flag down, the
  total has grown by six, and the number of qualified parts by the number of voltages (twice the drop
  from one reading to the next) above the threshold.\<close>

theorem batch_counts:
  assumes "qs_ok w" "ctrl_flow w = 0" "length rs = 6"
  shows "\<exists>w'. weigh_all rs (batch_begin (Some a) w) = Some w' \<and> ctrl_flow w' = 0 \<and> adc_measure_count w' = 0
    \<and> total (info_t w') = total (info_t w) + 6
    \<and> qualified_amount (info_t w') = qualified_amount (info_t w)
        + of_nat (length (filter (\<lambda>v. v > v_threshold (res_t w)) (voltages a rs)))"
proof -
  let ?w = "batch_begin (Some a) w"
  from assms(2) have b: "info_t ?w = info_t w" "res_t ?w = res_t w" "adc_sum ?w = a" "adc_measure_count ?w = 6"
    "qs_ok ?w = qs_ok w"
    by (simp_all add: batch_begin_def adc_read_def qs_ok_def)
  from assms(3) have "rs \<noteq> []" by auto
  from weigh_all_spec [of ?w rs, unfolded b, OF assms(1) _ this] assms(3) show ?thesis by auto
qed

theorem batch_counts_witness:
  "\<exists>w w'. weigh_all [900, 700, 650, 400, 200, 0] (batch_begin (Some 1100) w) = Some w'
    \<and> total (info_t w') = total (info_t w) + 6 \<and> qualified_amount (info_t w') = qualified_amount (info_t w) + 5"
proof -
  from roomy_start obtain w1 where w1: "main_start roomy_heap 1 2 app_zero = Some w1" by blast
  let ?w = "(main_queues roomy_heap w1)\<lparr>res_t := \<lparr>v_measure = 0, v_threshold = 350, r_qualified = 0\<rparr>, ctrl_flow := 0\<rparr>"
  have "qs_ok ?w" using main_ready_inv [OF roomy_heap_ok w1] by (simp add: app_inv_def)
  from batch_counts [OF this, of "[900, 700, 650, 400, 200, 0]" 1100] show ?thesis by fastforce
qed



text \<open>The report to the modem carries the measurement. The decimal digits that
  \<^verbatim>\<open>send_nb_msg\<close> writes decode, with the digit arithmetic the program itself uses, to the
  measured voltage and the message number, and the verdict digit to the verdict.\<close>

lemma nb_msg_digits:
  assumes "v_measure r < 10000" "msg_id t < 1000" "r_qualified r < 10"
  shows "let b = nb_msg_bytes r t; d = (\<lambda>i. asc_int b i - 48) in
    val_arr b 0 = 1 \<and> d 4 * 1000 + d 5 * 100 + d 6 * 10 + d 7 = v_measure r \<and> d 8 = r_qualified r
    \<and> d 9 * 100 + d 10 * 10 + d 11 = msg_id t"
proof -
  let ?b = "nb_msg_bytes r t" and ?v = "v_measure r" and ?m = "msg_id t"
  have v: "asc_int ?b 4 - 48 = ?v div 1000" "asc_int ?b 5 - 48 = (?v mod 1000) div 100"
    "asc_int ?b 6 - 48 = (?v mod 100) div 10" "asc_int ?b 7 - 48 = ?v mod 10" "asc_int ?b 8 - 48 = r_qualified r"
    "asc_int ?b 9 - 48 = ?m div 100" "asc_int ?b 10 - 48 = (?m mod 100) div 10" "asc_int ?b 11 - 48 = ?m mod 10"
    by (rule asc_digit; simp add: assms digit_bounds nb_msg_bytes_def le32_def)+
  have "?m div 1000 = 0" "?m mod 1000 = ?m" using assms(2) by (simp_all add: div_word_less mod_word_less)
  with four_digits [of ?m] have m: "(?m div 100) * 100 + ((?m mod 100) div 10) * 10 + ?m mod 10 = ?m" by simp
  have "val_arr ?b 0 = 1" by (simp add: nb_msg_bytes_def)
  then show ?thesis by (simp only: Let_def v m four_digits simp_thms)
qed

text \<open>The report loses the hundreds of the threshold: for every threshold the digit sent for its
  hundreds is 0, so the default threshold 350 is reported as 0050.\<close>

lemma nb_threshold_hundreds_lost:
  "nb_msg_bytes r t ! 13 = 48 \<and>
   drop 12 (nb_msg_bytes \<lparr>v_measure = v, v_threshold = 350, r_qualified = q\<rparr> t) = [48, 48, 53, 48]"
proof -
  have "(v_threshold r mod 100) div 100 = 0" by (simp add: word_less_nat_alt unat_mod_distrib div_word_less)
  then show ?thesis by (simp add: nb_msg_bytes_def digit_chr_def le32_def)
qed

text \<open>The date the modem delivers is decoded right: eight decimal digits after the opcode give
  year, month and day.\<close>

lemma date_decoded:
  assumes "y < 10000" "mo < 100" "d < 100"
  shows "set_date_time (le32 5 @ map digit_chr [y div 1000, (y mod 1000) div 100, (y mod 100) div 10, y mod 10,
      mo div 10, mo mod 10, d div 10, d mod 10] @ rest) p = p\<lparr>year := y, mon := mo, day := d\<rparr>"
proof -
  let ?ws = "[y div 1000, (y mod 1000) div 100, (y mod 100) div 10, y mod 10, mo div 10, mo mod 10, d div 10, d mod 10]"
  let ?b = "le32 5 @ map digit_chr ?ws @ rest"
  have lt: "mo div 10 < 10" "mo mod 10 < 10" "d div 10 < 10" "d mod 10 < 10"
    using assms(2,3) by (simp_all add: word_less_nat_alt unat_div_distrib unat_mod_distrib less_mult_imp_div_less)
  have e: "asc_int ?b 4 - 48 = y div 1000" "asc_int ?b 5 - 48 = (y mod 1000) div 100"
    "asc_int ?b 6 - 48 = (y mod 100) div 10" "asc_int ?b 7 - 48 = y mod 10"
    "asc_int ?b 8 - 48 = mo div 10" "asc_int ?b 9 - 48 = mo mod 10"
    "asc_int ?b 10 - 48 = d div 10" "asc_int ?b 11 - 48 = d mod 10"
    by (rule asc_digit; simp add: assms lt digit_bounds le32_def)+
  have "(w div 10) * 10 + w mod 10 = w" for w :: u32 by (rule div_mult_mod_eq)
  then show ?thesis by (simp only: set_date_time_def e four_digits)
qed

text \<open>The handlers are live before their queue exists. When \<^verbatim>\<open>main\<close> has enabled the two
  pin interrupts but not yet created \<^verbatim>\<open>main_mq\<close>, both are enabled, and a pulse then makes its
  handler fail the assertion that the queue is not null.\<close>

lemma early_pulse_asserts:
  assumes "heap_ok alloc" "mqs w0 main_mq = None" "main_start alloc i1 i2 w0 = Some w1"
  shows "gpio_irq_enabled (hw w1) INPUT_SIGNAL \<and> gpio_irq_enabled (hw w1) INPUT_SIGNAL2
    \<and> input_interrupt_isr w1 = None \<and> input_interrupt_isr2 w1 = None"
proof -
  from main_start_ok [OF assms(1), of i1 i2 w0] assms(3) obtain m where
    "mqs w1 = (mqs w0)(output_datas_mq := Some m)" "hw w1 = main_pins i1 i2 (hw w0)" by auto
  with assms(2) show ?thesis
    by (simp add: main_pins_enabled input_interrupt_isr_def input_interrupt_isr2_def mqsend_def)
qed

end
