(* ===== verification/Nb_Conn.thy ===== *)
theory Nb_Conn
  imports Main_Ctrl
begin

text \<open>
  The modem thread: nb_conn.c. The serial line is a list of the byte strings written to it and a list
  of the replies that the reads will find, one per \<^verbatim>\<open>rt_device_read\<close>, cut to the size asked for
  (no more replies: nothing was received). Delays are left out. A local buffer that a reply fills only
  partly keeps what the stack held, the argument \<open>stk\<close>. The command templates are arguments, since the
  committed texts are place holders; \<open>at_cmqpub_text\<close> is the committed one.
\<close>

section \<open>State\<close>

record nb =
  nb_flag :: u8
  at_cmqpub :: bytes
  mqbuf :: bytes
  wire :: "bytes list"
  replies :: "bytes list"
  outbox :: "bytes list"

text \<open>The constant commands, as texts with the lengths the code passes.\<close>

record nb_cmds =
  at_csoc :: bytes
  at_csocon :: bytes
  at_csocl :: bytes
  at_cmqnew :: bytes
  at_cmqalicfg :: bytes
  at_cmqalicon :: bytes
  at_cmqdiscon :: bytes

definition asc :: "string \<Rightarrow> bytes" where
  "asc s = map of_char s"

definition AT_r_n :: bytes where "AT_r_n = [65, 84, 13, 10]"
definition ATE0_r_n :: bytes where "ATE0_r_n = [65, 84, 69, 48, 13, 10]"
definition AT_CSQ_r_n :: bytes where "AT_CSQ_r_n = [65, 84, 43, 67, 83, 81, 13, 10]"

definition dev_write :: "bytes \<Rightarrow> nat \<Rightarrow> nb \<Rightarrow> nb" where
  "dev_write b n s = s\<lparr>wire := wire s @ [take n b]\<rparr>"

definition dev_read :: "nat \<Rightarrow> nb \<Rightarrow> bytes \<times> nb" where
  "dev_read n s = (case replies s of [] \<Rightarrow> ([], s) | r # rs \<Rightarrow> (take n r, s\<lparr>replies := rs\<rparr>))"

text \<open>The local buffer after a read of \<open>r\<close>.\<close>

definition over_stack :: "(nat \<Rightarrow> u8) \<Rightarrow> bytes \<Rightarrow> nat \<Rightarrow> u8" where
  "over_stack stk r i = (if i < length r then r ! i else stk i)"

definition to_main :: "nat \<Rightarrow> nb \<Rightarrow> nb" where
  "to_main n s = s\<lparr>outbox := outbox s @ [take n (mqbuf s)]\<rparr>"

definition set_val0 :: "u32 \<Rightarrow> nb \<Rightarrow> nb" where
  "set_val0 v s = s\<lparr>mqbuf := memcpy_at 0 (le32 v) (mqbuf s)\<rparr>"

definition set_asc :: "nat \<Rightarrow> u8 \<Rightarrow> nb \<Rightarrow> nb" where
  "set_asc i c s = s\<lparr>mqbuf := (mqbuf s)[i := c]\<rparr>"

section \<open>Operations\<close>

definition parse_ok :: "bytes \<Rightarrow> bool" where
  "parse_ok s = (let l = length s in
     l \<ge> 4 \<and> s ! (l - 1) = 10 \<and> s ! (l - 2) = 13 \<and> s ! (l - 3) = 75 \<and> s ! (l - 4) = 79)"

definition nb_init :: "nb \<Rightarrow> int \<times> nb" where
  "nb_init s =
     (let s = dev_write AT_r_n 4 s; (buf, s) = dev_read 16 s
      in if \<not> parse_ok buf then (- 1, s)
         else let s = dev_write ATE0_r_n 6 s; (buf, s) = dev_read 16 s
              in if \<not> parse_ok buf then (- 1, s) else (0, s))"

definition nb_get_csq :: "(nat \<Rightarrow> u8) \<Rightarrow> nb \<Rightarrow> int \<times> nb" where
  "nb_get_csq stk s =
     (let s = set_val0 4 s; s = dev_write AT_CSQ_r_n 8 s; (r, s) = dev_read 20 s; buf = over_stack stk r
      in if \<not> parse_ok r then (- 1, s)
         else let s = set_asc 4 (buf 8) s; s = set_asc 5 (buf 9) s in (0, to_main 6 s))"

definition nb_get_time :: "nb_cmds \<Rightarrow> (nat \<Rightarrow> u8) \<Rightarrow> nb \<Rightarrow> int \<times> nb" where
  "nb_get_time c stk s =
     (let s = set_val0 5 s; s = dev_write (at_csoc c) 15 s; (r, s) = dev_read 20 s
      in if \<not> parse_ok r then (- 1, s)
         else let s = dev_write (at_csocon c) 33 s; (r, s) = dev_read 50 s; buf = over_stack stk r
              in if length r \<noteq> 48 then (- 1, s)
                 else let s = set_asc 4 (buf 23) s; s = set_asc 5 (buf 25) s; s = set_asc 6 (buf 27) s;
                          s = set_asc 7 (buf 29) s; s = set_asc 8 (buf 31) s; s = set_asc 9 (buf 33) s;
                          s = set_asc 10 (buf 35) s; s = set_asc 11 (buf 37) s;
                          s = dev_write (at_csocl c) 12 s
                      in (0, to_main 12 s))"

text \<open>The connection part of \<^verbatim>\<open>nb_send_v_q\<close>, taken when \<^verbatim>\<open>flag\<close> is 0.\<close>

definition nb_connect :: "nb_cmds \<Rightarrow> nb \<Rightarrow> int \<times> nb" where
  "nb_connect c s =
     (let s = dev_write (at_cmqdiscon c) 16 s; s = dev_write (at_cmqnew c) 80 s; (r, s) = dev_read 40 s
      in if \<not> parse_ok r then (- 1, s)
         else let s = dev_write (at_cmqalicfg c) 73 s; (r, s) = dev_read 40 s
              in if \<not> parse_ok r then (- 1, s)
                 else let s = dev_write (at_cmqalicon c) 22 s; (r, s) = dev_read 40 s
                      in if \<not> parse_ok r then (- 1, s) else (0, s\<lparr>nb_flag := 1\<rparr>))"

definition nb_send_v_q :: "nb_cmds \<Rightarrow> nb \<Rightarrow> int \<times> nb" where
  "nb_send_v_q c s =
     (let (rc, s) = (if nb_flag s = 0 then nb_connect c s else (0, s))
      in if rc \<noteq> 0 then (- 1, s)
         else let s = dev_write AT_r_n 4 s; (r, s) = dev_read 16 s;
                  s = dev_write (at_cmqpub s) 199 s; (r, s) = dev_read 60 s
              in if \<not> parse_ok r then (- 1, s\<lparr>nb_flag := 0\<rparr>) else (0, s\<lparr>nb_flag := 1\<rparr>))"

text \<open>\<^verbatim>\<open>set_at_cmd\<close> writes up to index 153 of the command; \<open>None\<close> when the text is shorter, and the
  writes leave it.\<close>

definition set_at_cmd :: "bytes \<Rightarrow> bytes \<Rightarrow> bytes option" where
  "set_at_cmd a r =
     (if length a \<le> 153 then None
      else Some (a[84 := r ! 9, 85 := r ! 10, 86 := r ! 11, 128 := r ! 4, 130 := r ! 5, 131 := r ! 6,
                   132 := r ! 7, 140 := r ! 8, 149 := r ! 12, 151 := r ! 13, 152 := r ! 14, 153 := r ! 15]))"

definition send_nb_conn_msg :: "nb \<Rightarrow> nb" where
  "send_nb_conn_msg s = to_main 4 (set_val0 8 s)"

text \<open>What follows the receive in the loop of \<^verbatim>\<open>nb_comm\<close>. \<open>b\<close> is what \<^verbatim>\<open>rt_mq_recv(.., 24, ..)\<close>
  copied; only the first 20 bytes fit into \<^verbatim>\<open>mqbuf\<close>, the others (second result) overwrite
  the stack behind it. \<open>None\<close>: the command text is too short.\<close>

definition nb_turn :: "nb_cmds \<Rightarrow> bytes \<Rightarrow> nb \<Rightarrow> (bytes \<times> nb) option" where
  "nb_turn c b s =
     (let s = s\<lparr>mqbuf := memcpy_at 0 (take 20 b) (mqbuf s)\<rparr>
      in if val_arr (mqbuf s) 0 = 1 then
           (case set_at_cmd (at_cmqpub s) (mqbuf s) of None \<Rightarrow> None
            | Some a \<Rightarrow>
              (let (rc, s) = nb_send_v_q c (s\<lparr>at_cmqpub := a\<rparr>)
               in Some (drop 20 b, if rc = 0 then send_nb_conn_msg s else s)))
         else Some (drop 20 b, s))"

text \<open>The committed text of the publish command.\<close>

definition at_cmqpub_text :: string where
  "at_cmqpub_text = ''AT+CMQPUB=0,\"/sys/{ProductKey}/{DeviceName}/thing/event/property/post\",1,0,0,103,\"{JSON String}\"'' @ [CHR 0x0D, CHR 0x0A]"

section \<open>Replies\<close>

lemma parse_ok_append: "parse_ok (t @ [a, b, c, d]) \<longleftrightarrow> a = 79 \<and> b = 75 \<and> c = 13 \<and> d = 10"
  by (auto simp: parse_ok_def nth_append Let_def)

lemma length_4: "length l = 4 \<Longrightarrow> \<exists>a b c d. l = [a, b, c, d]"
  by (auto simp: numeral_eq_Suc length_Suc_conv)

lemma parse_ok_suffix: "parse_ok s \<longleftrightarrow> (\<exists>t. s = t @ [79, 75, 13, 10])"
proof
  assume p: "parse_ok s"
  let ?t = "take (length s - 4) s"
  have "length (drop (length s - 4) s) = 4" using p by (simp add: parse_ok_def Let_def)
  then obtain a b c d where "drop (length s - 4) s = [a, b, c, d]" using length_4 by blast
  then have s: "s = ?t @ [a, b, c, d]" by (metis append_take_drop_id)
  with p parse_ok_append [of ?t a b c d] show "\<exists>t. s = t @ [79, 75, 13, 10]" by metis
next
  assume "\<exists>t. s = t @ [79, 75, 13, 10]"
  then show "parse_ok s" by (auto simp: parse_ok_append)
qed

lemma dev_frame [simp]:
  "nb_flag (dev_write b n s) = nb_flag s" "at_cmqpub (dev_write b n s) = at_cmqpub s"
  "mqbuf (dev_write b n s) = mqbuf s" "outbox (dev_write b n s) = outbox s" "replies (dev_write b n s) = replies s"
  "nb_flag (snd (dev_read n s)) = nb_flag s" "at_cmqpub (snd (dev_read n s)) = at_cmqpub s"
  "mqbuf (snd (dev_read n s)) = mqbuf s" "outbox (snd (dev_read n s)) = outbox s" "wire (snd (dev_read n s)) = wire s"
  by (simp_all add: dev_write_def dev_read_def split: list.splits)

lemma connect_frame:
  assumes "nb_connect c s = (rc, s')"
  shows "outbox s' = outbox s \<and> mqbuf s' = mqbuf s \<and> at_cmqpub s' = at_cmqpub s
    \<and> (rc = 0 \<and> nb_flag s' = 1 \<or> rc = - 1 \<and> nb_flag s' = nb_flag s)"
  using assms dev_frame
  by (auto simp: nb_connect_def Let_def dev_read_def dev_write_def split: if_splits list.splits)

lemma send_v_q_frame:
  assumes "nb_send_v_q c s = (rc, s')"
  shows "outbox s' = outbox s \<and> mqbuf s' = mqbuf s \<and> (rc = 0 \<or> rc = - 1)"
proof (cases "nb_flag s = 0")
  case True
  obtain rc1 s1 where c: "nb_connect c s = (rc1, s1)" by (cases "nb_connect c s")
  from connect_frame [OF c] assms True c show ?thesis
    by (auto simp: nb_send_v_q_def Let_def dev_read_def dev_write_def split: if_splits list.splits)
next
  case False
  with assms show ?thesis
    by (auto simp: nb_send_v_q_def Let_def dev_read_def dev_write_def split: if_splits list.splits)
qed

section \<open>What reaches the main thread\<close>

lemma peer_msg_to_main:
  assumes "length (mqbuf s) = 20" "val_arr (mqbuf s) 0 \<in> {2, 3, 4, 5, 6, 7, 8}" "4 \<le> n"
  shows "peer_msg (take n (mqbuf s))"
  using assms val_arr_take [of 0 n "mqbuf s"] by (auto simp: peer_msg_def)

lemma val0_set [simp]: "length (mqbuf s) = 20 \<Longrightarrow> length (mqbuf (set_val0 v s)) = 20"
  "val_arr (mqbuf (set_val0 v s)) 0 = v"
  by (simp_all add: set_val0_def memcpy_at_0_append)

lemma val0_set_asc [simp]: "4 \<le> i \<Longrightarrow> val_arr (mqbuf (set_asc i c s)) 0 = val_arr (mqbuf s) 0"
  "length (mqbuf (set_asc i c s)) = length (mqbuf s)"
  by (simp_all add: set_asc_def val_arr_def)

lemma outbox_upd [simp]: "outbox (set_val0 v s) = outbox s" "outbox (set_asc i c s) = outbox s"
  "outbox (to_main n s) = outbox s @ [take n (mqbuf s)]"
  by (simp_all add: set_val0_def set_asc_def to_main_def)

lemma csq_outbox:
  assumes "length (mqbuf s) = 20"
  shows "outbox (snd (nb_get_csq stk s)) = outbox s \<or>
    (\<exists>m. outbox (snd (nb_get_csq stk s)) = outbox s @ [m] \<and> peer_msg m)"
  using assms by (auto simp: nb_get_csq_def Let_def split_beta intro!: peer_msg_to_main)

lemma time_outbox:
  assumes "length (mqbuf s) = 20"
  shows "outbox (snd (nb_get_time c stk s)) = outbox s \<or>
    (\<exists>m. outbox (snd (nb_get_time c stk s)) = outbox s @ [m] \<and> peer_msg m)"
  using assms by (auto simp: nb_get_time_def Let_def split_beta intro!: peer_msg_to_main)

lemma turn_outbox:
  assumes "length (mqbuf s) = 20" "nb_turn c b s = Some (ov, s')"
  shows "outbox s' = outbox s \<or> (\<exists>m. outbox s' = outbox s @ [m] \<and> peer_msg m)"
proof -
  let ?s = "s\<lparr>mqbuf := memcpy_at 0 (take 20 b) (mqbuf s)\<rparr>"
  have l: "length (mqbuf ?s) = 20" using assms(1) by (simp add: memcpy_at_def)
  show ?thesis
  proof (cases "val_arr (mqbuf ?s) 0 = 1")
    case False
    with assms(2) show ?thesis by (auto simp: nb_turn_def Let_def)
  next
    case True
    with assms(2) obtain a where "set_at_cmd (at_cmqpub ?s) (mqbuf ?s) = Some a"
      by (auto simp: nb_turn_def Let_def split: option.splits)
    moreover obtain rc s1 where q: "nb_send_v_q c (?s\<lparr>at_cmqpub := a\<rparr>) = (rc, s1)" by fastforce
    ultimately have "s' = (if rc = 0 then send_nb_conn_msg s1 else s1)"
      using assms(2) True by (simp add: nb_turn_def Let_def)
    with send_v_q_frame [OF q] l show ?thesis
      by (auto simp: send_nb_conn_msg_def intro!: peer_msg_to_main)
  qed
qed

section \<open>Properties\<close>

text \<open>The modem thread only sends messages that the controller expects from it: whatever the modem
  answers, each of its three operations adds at most one message to \<^verbatim>\<open>main_mq\<close>, and that one
  carries an opcode reserved for the peers, never 1 or 9, which belong to the interrupt handlers.\<close>

lemma nb_sends_peer_messages:
  assumes "length (mqbuf s) = 20"
    and "s' = snd (nb_get_csq stk s) \<or> s' = snd (nb_get_time c stk s) \<or> (\<exists>b ov. nb_turn c b s = Some (ov, s'))"
  shows "outbox s' = outbox s \<or> (\<exists>m. outbox s' = outbox s @ [m] \<and> peer_msg m)"
  using assms csq_outbox time_outbox turn_outbox by blast

definition nb_zero :: nb where
  "nb_zero = \<lparr>nb_flag = 0, at_cmqpub = replicate 199 65, mqbuf = replicate 20 0, wire = [], replies = [],
     outbox = []\<rparr>"

text \<open>The connection flag tells the truth. A publish returns 0 or -1, and afterwards the static
  \<^verbatim>\<open>flag\<close> is 1 exactly when it returned 0; so the next publish connects first exactly when the
  last one failed.\<close>

lemma nb_flag_tracks_result:
  assumes "nb_flag s = 0 \<or> nb_flag s = 1" "nb_send_v_q c s = (rc, s')"
  shows "(rc = 0 \<and> nb_flag s' = 1) \<or> (rc = - 1 \<and> nb_flag s' = 0)"
proof (cases "nb_flag s = 0")
  case True
  obtain rc1 s1 where c: "nb_connect c s = (rc1, s1)" by (cases "nb_connect c s")
  from connect_frame [OF c] assms(2) True c show ?thesis
    by (auto simp: nb_send_v_q_def Let_def dev_read_def dev_write_def split: if_splits list.splits)
next
  case False
  with assms show ?thesis
    by (auto simp: nb_send_v_q_def Let_def dev_read_def dev_write_def split: if_splits list.splits)
qed

definition no_cmds :: nb_cmds where
  "no_cmds = \<lparr>at_csoc = [], at_csocon = [], at_csocl = [], at_cmqnew = [1], at_cmqalicfg = [2], at_cmqalicon = [3],
     at_cmqdiscon = [4]\<rparr>"

text \<open>The order of the connection. With no connection, and a modem that confirms every step, a
  publish writes disconnect, new session, configuration, connect, the refresh command and the publish
  command, in this order and each once, and succeeds; once connected it writes only the last two.\<close>

lemma nb_publish_protocol:
  assumes "parse_ok (take 40 r1)" "parse_ok (take 40 r2)" "parse_ok (take 40 r3)" "parse_ok (take 60 r5)"
  shows "(nb_flag s = 0 \<and> replies s = [r1, r2, r3, r4, r5] \<longrightarrow>
      fst (nb_send_v_q c s) = 0 \<and> wire (snd (nb_send_v_q c s)) = wire s @
        [take 16 (at_cmqdiscon c), take 80 (at_cmqnew c), take 73 (at_cmqalicfg c), take 22 (at_cmqalicon c),
         AT_r_n, take 199 (at_cmqpub s)])
    \<and> (nb_flag s \<noteq> 0 \<and> replies s = [r4, r5] \<longrightarrow>
      fst (nb_send_v_q c s) = 0 \<and> wire (snd (nb_send_v_q c s)) = wire s @ [AT_r_n, take 199 (at_cmqpub s)])"
  using assms by (auto simp: nb_send_v_q_def nb_connect_def dev_write_def dev_read_def AT_r_n_def Let_def)



text \<open>The modem thread's receive overruns its buffer. Every message taken from the queue that
  \<^verbatim>\<open>main\<close> creates for it, received with size 24 as \<^verbatim>\<open>nb_comm\<close> does, is 24 bytes long,
  four more than the union it is copied into.\<close>

lemma nb_recv_overruns:
  assumes "heap_ok alloc" "mq_create alloc 20 2 = Some m0" "snd (mq_send b m0) = m" "mq_recv 24 m = Some (x, m')"
  shows "length x = 24 \<and> (\<forall>c s ov s'. nb_turn c x s = Some (ov, s') \<longrightarrow> length ov = 4)"
proof -
  from mq_create_ok [OF assms(1), of 2 20] assms(2) have m0: "mq_inv [] m0" "mq_msg_size m0 = 24" by auto
  have "mq_inv [] m \<and> mq_msg_size m = 24"
    using m0 assms(3) by (cases rule: mq_send_cases [OF m0(1), of b]) auto
  with mq_recv_cases [of m 24 x m'] assms(4) have "length x = 24" by fastforce
  then show ?thesis by (auto simp: nb_turn_def Let_def split: if_splits option.splits prod.splits)
qed

text \<open>The committed publish command cannot hold a report: it ends before the positions that
  \<^verbatim>\<open>set_at_cmd\<close> writes.\<close>

lemma committed_command_too_short: "set_at_cmd (asc at_cmqpub_text) r = None"
  by (simp add: set_at_cmd_def asc_def at_cmqpub_text_def)

end
