(* ===== verification/File_Wr.thy ===== *)
theory File_Wr
  imports Main_Ctrl
begin

text \<open>
  The log file thread: file_wr.c. The YAFFS calls are a parameter, the record \<open>yaffs\<close> of functions on a
  file-system state \<open>'fs\<close>; what the thread relies on is the predicate \<open>yaffs_laws\<close>: opening the log
  succeeds with the position at 0, a write at the position and a positioned write replace the bytes they
  cover, a read returns the bytes from the position on, flush and close change nothing. The local
  \<^verbatim>\<open>rt_mq_lbuf\<close> holds 24 bytes.
\<close>

section \<open>The file system as a parameter\<close>

record 'fs yaffs =
  y_is_running :: "'fs \<Rightarrow> bool"
  y_opendir :: "'fs \<Rightarrow> bool"
  y_mkdir :: "'fs \<Rightarrow> 'fs"
  y_open :: "'fs \<Rightarrow> int \<times> 'fs"
  y_write :: "int \<Rightarrow> bytes \<Rightarrow> 'fs \<Rightarrow> 'fs"
  y_pwrite :: "int \<Rightarrow> bytes \<Rightarrow> nat \<Rightarrow> 'fs \<Rightarrow> 'fs"
  y_read :: "int \<Rightarrow> nat \<Rightarrow> 'fs \<Rightarrow> bytes"
  y_pread :: "int \<Rightarrow> nat \<Rightarrow> nat \<Rightarrow> 'fs \<Rightarrow> bytes"
  y_flush :: "int \<Rightarrow> 'fs \<Rightarrow> 'fs"
  y_close :: "int \<Rightarrow> 'fs \<Rightarrow> 'fs"

section \<open>Operations\<close>

definition file_write :: "'fs yaffs \<Rightarrow> bytes \<Rightarrow> nat \<Rightarrow> nat \<Rightarrow> 'fs \<Rightarrow> int \<times> 'fs" where
  "file_write y wbuf nbyte offset fs =
     (let (fd, fs) = y_open y fs
      in if fd \<ge> 0 then
           (let fs = (if offset \<noteq> 0 then y_pwrite y fd (take nbyte wbuf) offset fs
                      else y_write y fd (take nbyte wbuf) fs);
                fs = y_flush y fd fs
            in (0, y_close y fd fs))
         else (- 1, fs))"

text \<open>The buffer keeps its bytes behind what was read.\<close>

definition file_read :: "'fs yaffs \<Rightarrow> bytes \<Rightarrow> nat \<Rightarrow> nat \<Rightarrow> 'fs \<Rightarrow> (int \<times> bytes) \<times> 'fs" where
  "file_read y rbuf nbyte offset fs =
     (let (fd, fs) = y_open y fs
      in if fd \<ge> 0 then
           (let r = (if offset \<noteq> 0 then y_pread y fd nbyte offset fs else y_read y fd nbyte fs);
                rbuf = memcpy_at 0 r rbuf;
                fs = y_flush y fd fs
            in ((0, rbuf), y_close y fd fs))
         else ((- 1, rbuf), fs))"

text \<open>The message \<^verbatim>\<open>send_file_msg\<close> puts into \<^verbatim>\<open>main_mq\<close>.\<close>

definition send_file_msg :: "bytes \<Rightarrow> bytes" where
  "send_file_msg buf =
     (if val_arr buf 0 = 0 then take 4 (memcpy_at 0 (le32 2) buf)
      else take 24 (memcpy_at 0 (le32 3) buf))"

text \<open>The start of \<^verbatim>\<open>file_wr_task\<close>, up to its loop: the messages sent and the file system after it.
  \<open>stk\<close> is the uninitialised \<^verbatim>\<open>rbuf\<close>.\<close>

definition file_wr_start :: "'fs yaffs \<Rightarrow> bytes \<Rightarrow> 'fs \<Rightarrow> bytes list \<times> 'fs" where
  "file_wr_start y stk fs =
     (if y_is_running y fs then
        (let fs = (if \<not> y_opendir y fs then snd (file_write y (replicate 24 0) 24 0 (y_mkdir y fs)) else fs);
             ((ret, rbuf), fs) = file_read y stk 24 0 fs
         in (if ret < 0 then [] else [send_file_msg rbuf], fs))
      else ([], fs))"

text \<open>One turn of the loop with a received message \<open>b\<close>.\<close>

definition file_wr_turn :: "'fs yaffs \<Rightarrow> bytes \<Rightarrow> 'fs \<Rightarrow> 'fs" where
  "file_wr_turn y b fs =
     (if val_arr b 0 = 1 then snd (file_write y (memcpy_at 0 (le32 3) b) 12 0 fs)
      else if val_arr b 0 = 2 then snd (file_write y (drop 4 b) 12 12 fs)
      else fs)"

section \<open>What the thread relies on\<close>

text \<open>\<open>cont\<close> is the content of the log file. A write past the end extends the file, as in the code's
  use: the second message writes right behind the first.\<close>

definition yaffs_laws :: "'fs yaffs \<Rightarrow> ('fs \<Rightarrow> bytes) \<Rightarrow> bool" where
  "yaffs_laws y cont \<longleftrightarrow>
     (\<forall>fs fd fs'. y_open y fs = (fd, fs') \<longrightarrow> fd \<ge> 0 \<and> cont fs' = cont fs
        \<and> (\<forall>b. cont (y_write y fd b fs') = memcpy_at 0 b (cont fs))
        \<and> (\<forall>b off. off \<le> length (cont fs) \<longrightarrow> cont (y_pwrite y fd b off fs') = memcpy_at off b (cont fs))
        \<and> (\<forall>n. y_read y fd n fs' = take n (cont fs)))
     \<and> (\<forall>fd fs. cont (y_flush y fd fs) = cont fs \<and> cont (y_close y fd fs) = cont fs)"

lemma file_write_0:
  assumes "yaffs_laws y cont"
  shows "fst (file_write y b n 0 fs) = 0 \<and> cont (snd (file_write y b n 0 fs)) = memcpy_at 0 (take n b) (cont fs)"
proof -
  obtain fd fs' where o: "y_open y fs = (fd, fs')" by fastforce
  with assms have "fd \<ge> 0" "cont (y_write y fd (take n b) fs') = memcpy_at 0 (take n b) (cont fs)"
    "\<And>fd fs. cont (y_flush y fd fs) = cont fs \<and> cont (y_close y fd fs) = cont fs"
    unfolding yaffs_laws_def by blast+
  with o show ?thesis by (simp add: file_write_def)
qed

lemma file_write_at:
  assumes "yaffs_laws y cont" "off \<noteq> 0" "off \<le> length (cont fs)"
  shows "cont (snd (file_write y b n off fs)) = memcpy_at off (take n b) (cont fs)"
proof -
  obtain fd fs' where o: "y_open y fs = (fd, fs')" by fastforce
  with assms have "fd \<ge> 0" "cont (y_pwrite y fd (take n b) off fs') = memcpy_at off (take n b) (cont fs)"
    "\<And>fd fs. cont (y_flush y fd fs) = cont fs \<and> cont (y_close y fd fs) = cont fs"
    unfolding yaffs_laws_def by blast+
  with o assms(2) show ?thesis by (simp add: file_write_def)
qed

lemma file_read_0:
  assumes "yaffs_laws y cont"
  shows "fst (file_read y stk n 0 fs) = (0, memcpy_at 0 (take n (cont fs)) stk)"
    and "cont (snd (file_read y stk n 0 fs)) = cont fs"
proof -
  obtain fd fs' where o: "y_open y fs = (fd, fs')" by fastforce
  with assms have "fd \<ge> 0" "y_read y fd n fs' = take n (cont fs)" "cont fs' = cont fs"
    "\<And>fd fs. cont (y_flush y fd fs) = cont fs \<and> cont (y_close y fd fs) = cont fs"
    unfolding yaffs_laws_def by blast+
  with o show "fst (file_read y stk n 0 fs) = (0, memcpy_at 0 (take n (cont fs)) stk)"
    "cont (snd (file_read y stk n 0 fs)) = cont fs"
    by (simp_all add: file_read_def)
qed

section \<open>The log\<close>

lemma val_bytes_append: "val_bytes (xs @ ys) = val_bytes xs @ val_bytes ys"
  by (simp add: val_bytes_def)

lemma val_bytes_Cons: "val_bytes (x # xs) = le32 x @ val_bytes xs"
  by (simp add: val_bytes_def)

lemma drop_4_prefix: "take (4 + n) b = le32 v @ ws \<Longrightarrow> take n (drop 4 b) = ws"
  by (simp add: take_drop add.commute)

lemma log_counts_written:
  assumes "yaffs_laws y cont" "take 12 b = val_bytes [1, t, q]"
  shows "\<exists>rest. cont (file_wr_turn y b fs) = val_bytes [3, t, q] @ rest"
proof -
  have "val_arr b 0 = val_arr (take 12 b) 0" by (simp add: val_arr_take)
  then have "val_arr b 0 = 1" using assms(2) by (simp add: val_bytes_Cons)
  moreover have "take (4 + 8) b = le32 1 @ val_bytes [t, q]" using assms(2) by (simp add: val_bytes_Cons)
  then have "take 8 (drop 4 b) = val_bytes [t, q]" by (rule drop_4_prefix)
  then have "take 12 (memcpy_at 0 (le32 3) b) = val_bytes [3, t, q]"
    by (simp add: memcpy_at_0_append val_bytes_Cons)
  ultimately show ?thesis
    using file_write_0 [OF assms(1), of "memcpy_at 0 (le32 3) b" 12 fs]
    by (simp add: file_wr_turn_def memcpy_at_0_append)
qed

lemma log_date_written:
  assumes "yaffs_laws y cont" "take 16 b = val_bytes [2, yr, mo, d]" "cont fs = val_bytes [3, t, q] @ rest"
  shows "\<exists>rest. cont (file_wr_turn y b fs) = val_bytes [3, t, q, yr, mo, d] @ rest"
proof -
  have "val_arr b 0 = val_arr (take 16 b) 0" by (simp add: val_arr_take)
  then have "val_arr b 0 = 2" using assms(2) by (simp add: val_bytes_Cons)
  moreover have "take (4 + 12) b = le32 2 @ val_bytes [yr, mo, d]" using assms(2) by (simp add: val_bytes_Cons)
  then have "take 12 (drop 4 b) = val_bytes [yr, mo, d]" by (rule drop_4_prefix)
  moreover have "val_bytes [3, t, q, yr, mo, d] = val_bytes [3, t, q] @ val_bytes [yr, mo, d]"
    by (simp add: val_bytes_append [symmetric])
  ultimately show ?thesis
    using file_write_at [OF assms(1), of 12 fs "drop 4 b" 12] assms(3)
    by (simp add: file_wr_turn_def memcpy_at_def)
qed

section \<open>Properties\<close>


text \<open>A file system that is just the content of the log.\<close>

definition plain_fs :: "bytes yaffs" where
  "plain_fs = \<lparr>y_is_running = \<lambda>_. True, y_opendir = \<lambda>fs. fs \<noteq> [], y_mkdir = \<lambda>fs. fs, y_open = \<lambda>fs. (3, fs),
     y_write = \<lambda>_ b fs. memcpy_at 0 b fs, y_pwrite = \<lambda>_ b off fs. memcpy_at off b fs,
     y_read = \<lambda>_ n fs. take n fs, y_pread = \<lambda>_ n off fs. take n (drop off fs), y_flush = \<lambda>_ fs. fs,
     y_close = \<lambda>_ fs. fs\<rparr>"

lemma plain_fs_laws: "yaffs_laws plain_fs (\<lambda>fs. fs)"
  by (simp add: yaffs_laws_def plain_fs_def)


text \<open>A missing log is answered with a blank one: without the log directory the thread creates a file
  of 24 zero bytes and asks the controller, with message 2, to write the first figures.\<close>

lemma blank_log_created:
  assumes "yaffs_laws y cont" "y_is_running y fs" "\<not> y_opendir y fs" "cont (y_mkdir y fs) = []" "length stk = 24"
  shows "fst (file_wr_start y stk fs) = [le32 2] \<and> cont (snd (file_wr_start y stk fs)) = replicate 24 0"
proof -
  let ?fs = "snd (file_write y (replicate 24 0) 24 0 (y_mkdir y fs))"
  have c: "cont ?fs = replicate 24 0"
    using file_write_0 [OF assms(1), of "replicate 24 0" 24 "y_mkdir y fs"] assms(4) by (simp add: memcpy_at_def)
  have "fst (file_read y stk 24 0 ?fs) = (0, replicate 24 0)"
    using file_read_0(1) [OF assms(1), of stk 24 ?fs] c assms(5) by (simp add: memcpy_at_0_append)
  then obtain fs' where r: "file_read y stk 24 0 ?fs = ((0, replicate 24 0), fs')" by (metis prod.collapse)
  with file_read_0(2) [OF assms(1), of stk 24 ?fs] c have "cont fs' = replicate 24 0" by simp
  moreover have "send_file_msg (replicate 24 0) = le32 2"
    by (simp add: send_file_msg_def val_arr_def of_le32_def memcpy_at_0_append)
  ultimately show ?thesis using r assms(2,3) by (simp add: file_wr_start_def)
qed

end
