(* ===== verification/Rt_List.thy ===== *)
theory Rt_List
  imports Prelude
begin

text \<open>
  The intrusive doubly linked lists of RTT4/include/rtservice.h, on a heap of link fields: a node is
  an address, a list is the ring through its head. \<open>is_dl h l xs\<close> says that the list with head \<open>l\<close> has
  the nodes \<open>xs\<close>. Every list operation of the kernel refines the operation on HOL lists that the
  theories Scheduler, Timer, Thread and the IPC theories use; the locale \<open>intrusive_lists\<close> states
  that contract and derives the queue discipline from it.
\<close>

section \<open>Operations\<close>

record lheap =
  lnext :: "nat \<Rightarrow> nat"
  lprev :: "nat \<Rightarrow> nat"

definition set_next :: "nat \<Rightarrow> nat \<Rightarrow> lheap \<Rightarrow> lheap" where
  "set_next p v h = h\<lparr>lnext := (lnext h)(p := v)\<rparr>"

definition set_prev :: "nat \<Rightarrow> nat \<Rightarrow> lheap \<Rightarrow> lheap" where
  "set_prev p v h = h\<lparr>lprev := (lprev h)(p := v)\<rparr>"

definition rt_list_init :: "nat \<Rightarrow> lheap \<Rightarrow> lheap" where
  "rt_list_init l h = set_next l l (set_prev l l h)"

definition rt_list_insert_after :: "nat \<Rightarrow> nat \<Rightarrow> lheap \<Rightarrow> lheap" where
  "rt_list_insert_after l n h =
     (let h = set_prev (lnext h l) n h;
          h = set_next n (lnext h l) h;
          h = set_next l n h
      in set_prev n l h)"

definition rt_list_insert_before :: "nat \<Rightarrow> nat \<Rightarrow> lheap \<Rightarrow> lheap" where
  "rt_list_insert_before l n h =
     (let h = set_next (lprev h l) n h;
          h = set_prev n (lprev h l) h;
          h = set_prev l n h
      in set_next n l h)"

definition rt_list_remove :: "nat \<Rightarrow> lheap \<Rightarrow> lheap" where
  "rt_list_remove n h =
     (let h = set_prev (lnext h n) (lprev h n) h;
          h = set_next (lprev h n) (lnext h n) h;
          h = set_prev n n h
      in set_next n n h)"

definition rt_list_isempty :: "nat \<Rightarrow> lheap \<Rightarrow> bool" where
  "rt_list_isempty l h \<longleftrightarrow> lnext h l = l"

text \<open>The loop of \<^verbatim>\<open>rt_list_len\<close>; it does not end on a broken ring.\<close>

partial_function (option) list_len_loop :: "nat \<Rightarrow> lheap \<Rightarrow> nat \<Rightarrow> u32 \<Rightarrow> u32 option" where
  "list_len_loop l h p len =
     (if lnext h p \<noteq> l then list_len_loop l h (lnext h p) (len + 1) else Some len)"

definition rt_list_len :: "nat \<Rightarrow> lheap \<Rightarrow> u32 option" where
  "rt_list_len l h = list_len_loop l h l 0"

section \<open>Rings\<close>

fun path :: "lheap \<Rightarrow> nat \<Rightarrow> nat list \<Rightarrow> nat \<Rightarrow> bool" where
  "path h a [] b \<longleftrightarrow> lnext h a = b \<and> lprev h b = a"
| "path h a (x # xs) b \<longleftrightarrow> lnext h a = x \<and> lprev h x = a \<and> path h x xs b"

definition is_dl :: "lheap \<Rightarrow> nat \<Rightarrow> nat list \<Rightarrow> bool" where
  "is_dl h l xs \<longleftrightarrow> path h l xs l \<and> distinct (l # xs)"

lemma path_append: "path h a (xs @ y # ys) b \<longleftrightarrow> path h a xs y \<and> path h y ys b"
  by (induction xs arbitrary: a) auto

lemma path_cong:
  "\<forall>p \<in> set (a # xs). lnext h' p = lnext h p \<Longrightarrow> \<forall>p \<in> set (xs @ [b]). lprev h' p = lprev h p \<Longrightarrow>
    path h' a xs b = path h a xs b"
  by (induction xs arbitrary: a) auto

lemma is_dl_frame:
  "\<forall>p \<in> set (l # xs). lnext h' p = lnext h p \<and> lprev h' p = lprev h p \<Longrightarrow> is_dl h' l xs = is_dl h l xs"
  unfolding is_dl_def by (subst path_cong [of l xs h' h l]) auto

lemma path_first: "path h a xs b \<Longrightarrow> lnext h a = hd (xs @ [b]) \<and> lprev h (hd (xs @ [b])) = a"
  by (cases xs) auto

lemma path_last: "path h a xs b \<Longrightarrow> lprev h b = last (a # xs) \<and> lnext h (last (a # xs)) = b"
  by (induction xs arbitrary: a) auto

lemma path_snoc: "path h a (xs @ [x]) b \<longleftrightarrow> path h a xs x \<and> lnext h x = b \<and> lprev h b = x"
  using path_append [of h a xs x "[]" b] by simp

lemma set_simps [simp]:
  "lnext (set_next p v h) = (lnext h)(p := v)" "lprev (set_next p v h) = lprev h"
  "lprev (set_prev p v h) = (lprev h)(p := v)" "lnext (set_prev p v h) = lnext h"
  by (simp_all add: set_next_def set_prev_def)

section \<open>Refinement\<close>

lemma list_init_ok: "is_dl (rt_list_init l h) l []"
  by (simp add: is_dl_def rt_list_init_def)

text \<open>Insertion behind any node of the list, the head included.\<close>

lemma insert_after_head:
  assumes "is_dl h l xs" "n \<notin> set (l # xs)"
  shows "is_dl (rt_list_insert_after l n h) l (n # xs)"
proof (cases xs)
  case Nil
  with assms show ?thesis by (auto simp: is_dl_def rt_list_insert_after_def Let_def)
next
  case (Cons x ys)
  with assms have p: "lnext h l = x" "path h x ys l" and d: "distinct (l # x # ys)" by (auto simp: is_dl_def)
  have "path (rt_list_insert_after l n h) x ys l"
    using p assms(2) d Cons
    by (subst path_cong [of x ys _ h l]) (auto simp: rt_list_insert_after_def Let_def)
  with p d assms(2) Cons show ?thesis by (auto simp: is_dl_def rt_list_insert_after_def Let_def)
qed

lemma insert_before_head:
  assumes "is_dl h l xs" "n \<notin> set (l # xs)"
  shows "is_dl (rt_list_insert_before l n h) l (xs @ [n])"
proof (cases xs rule: rev_cases)
  case Nil
  with assms show ?thesis by (auto simp: is_dl_def rt_list_insert_before_def Let_def)
next
  case (snoc ys x)
  with assms have p: "lprev h l = x" "path h l ys x" and d: "distinct (l # ys @ [x])"
    by (auto simp: is_dl_def path_snoc)
  have "path (rt_list_insert_before l n h) l ys x"
    using p assms(2) d snoc
    by (subst path_cong [of l ys _ h x]) (auto simp: rt_list_insert_before_def Let_def)
  with p d assms(2) snoc show ?thesis
    by (auto simp: is_dl_def path_append rt_list_insert_before_def Let_def)
qed

text \<open>Every node of a ring can be taken for its head.\<close>

lemma rotate: "is_dl h l (ys @ p # zs) \<longleftrightarrow> is_dl h p (zs @ l # ys)"
  by (auto simp: is_dl_def path_append)

lemma insert_after_node:
  assumes "is_dl h l (ys @ p # zs)" "n \<notin> set (l # ys @ p # zs)"
  shows "is_dl (rt_list_insert_after p n h) l (ys @ p # n # zs)"
proof -
  from assms have "is_dl (rt_list_insert_after p n h) p (n # zs @ l # ys)"
    by (intro insert_after_head) (auto simp: rotate [of h l ys p zs])
  then show ?thesis using rotate [of _ l ys p "n # zs"] by simp
qed

lemma remove_head:
  assumes "is_dl h n (w # ws)"
  shows "is_dl (rt_list_remove n h) w ws" and "is_dl (rt_list_remove n h) n []"
proof -
  let ?z = "last (w # ws)"
  from assms have p: "lnext h n = w" "path h w ws n" and d: "distinct (n # w # ws)" by (auto simp: is_dl_def)
  from path_last [OF p(2)] have z: "lprev h n = ?z" by simp
  have nx: "lnext (rt_list_remove n h) = (lnext h)(?z := w, n := n)"
    and pv: "lprev (rt_list_remove n h) = (lprev h)(w := ?z, n := n)"
    using p(1) z d by (auto simp: rt_list_remove_def Let_def fun_eq_iff)
  show "is_dl (rt_list_remove n h) n []" by (simp add: is_dl_def nx pv)
  show "is_dl (rt_list_remove n h) w ws"
  proof (cases ws rule: rev_cases)
    case Nil
    with d show ?thesis by (auto simp: is_dl_def nx pv)
  next
    case (snoc us u)
    with p(2) have "path h w us u" by (simp add: path_snoc)
    then have "path (rt_list_remove n h) w us u"
      using d snoc by (subst path_cong [of w us _ h u]) (auto simp: nx pv)
    with d snoc show ?thesis by (auto simp: is_dl_def path_snoc nx pv)
  qed
qed

lemma remove_node:
  assumes "is_dl h l (ys @ n # zs)"
  shows "is_dl (rt_list_remove n h) l (ys @ zs)" and "is_dl (rt_list_remove n h) n []"
proof -
  from assms have r: "is_dl h n (zs @ l # ys)" by (simp add: rotate)
  show "is_dl (rt_list_remove n h) n []" using r by (cases zs) (auto dest: remove_head(2))
  show "is_dl (rt_list_remove n h) l (ys @ zs)"
  proof (cases zs)
    case Nil
    with r show ?thesis by (auto dest: remove_head(1))
  next
    case (Cons z zs')
    with r have "is_dl (rt_list_remove n h) z (zs' @ l # ys)" by (auto dest: remove_head(1))
    with Cons show ?thesis by (simp add: rotate [of _ l ys z zs'])
  qed
qed

text \<open>Removing a node that is in no list changes nothing.\<close>

lemma remove_detached: "is_dl h n [] \<Longrightarrow> rt_list_remove n h = h"
  by (cases h) (auto simp: is_dl_def rt_list_remove_def Let_def set_next_def set_prev_def fun_eq_iff)

lemma isempty_ok: "is_dl h l xs \<Longrightarrow> rt_list_isempty l h \<longleftrightarrow> xs = []"
  by (cases xs) (auto simp: is_dl_def rt_list_isempty_def)

lemma first_ok: "is_dl h l (x # xs) \<Longrightarrow> lnext h l = x"
  by (simp add: is_dl_def)

text \<open>An operation on one list leaves every disjoint list alone.\<close>

lemma neighbours:
  assumes "is_dl h l xs"
  shows "lnext h l \<in> set (l # xs)" "lprev h l \<in> set (l # xs)"
proof -
  from assms have p: "path h l xs l" by (simp add: is_dl_def)
  from path_first [OF p] show "lnext h l \<in> set (l # xs)" by (cases xs) auto
  from path_last [OF p] show "lprev h l \<in> set (l # xs)" by (cases xs rule: rev_cases) auto
qed

lemma other_insert:
  assumes "is_dl h l xs" "is_dl h k ys" "set (l # xs) \<inter> set (k # ys) = {}" "n \<notin> set (k # ys)"
  shows "is_dl (rt_list_insert_after l n h) k ys" "is_dl (rt_list_insert_before l n h) k ys"
proof -
  have o: "lnext h l \<notin> set (k # ys)" "lprev h l \<notin> set (k # ys)" "l \<notin> set (k # ys)"
    using neighbours [OF assms(1)] assms(3) by auto
  have "\<forall>p \<in> set (k # ys). lnext (rt_list_insert_after l n h) p = lnext h p
      \<and> lprev (rt_list_insert_after l n h) p = lprev h p"
    using o assms(4) by (auto simp: rt_list_insert_after_def Let_def)
  from is_dl_frame [OF this] assms(2) show "is_dl (rt_list_insert_after l n h) k ys" by simp
  have "\<forall>p \<in> set (k # ys). lnext (rt_list_insert_before l n h) p = lnext h p
      \<and> lprev (rt_list_insert_before l n h) p = lprev h p"
    using o assms(4) by (auto simp: rt_list_insert_before_def Let_def)
  from is_dl_frame [OF this] assms(2) show "is_dl (rt_list_insert_before l n h) k ys" by simp
qed

lemma other_remove:
  assumes "is_dl h l (us @ n # vs)" "is_dl h k ys" "set (l # us @ n # vs) \<inter> set (k # ys) = {}"
  shows "is_dl (rt_list_remove n h) k ys"
proof -
  have r: "is_dl h n (vs @ l # us)" using assms(1) rotate [of h l us n vs] by blast
  have o: "lnext h n \<notin> set (k # ys)" "lprev h n \<notin> set (k # ys)" "n \<notin> set (k # ys)"
    using neighbours [OF r] assms(3) by auto
  have "\<forall>p \<in> set (k # ys). lnext (rt_list_remove n h) p = lnext h p
      \<and> lprev (rt_list_remove n h) p = lprev h p"
    using o by (auto simp: rt_list_remove_def Let_def)
  from is_dl_frame [OF this] assms(2) show ?thesis by simp
qed

lemma len_loop_ok:
  "path h p xs l \<Longrightarrow> l \<notin> set xs \<Longrightarrow> list_len_loop l h p len = Some (len + of_nat (length xs))"
proof (induction xs arbitrary: p len)
  case Nil
  then show ?case by (subst list_len_loop.simps) simp
next
  case (Cons x xs)
  then show ?case by (subst list_len_loop.simps) (auto simp: ac_simps)
qed

section \<open>The contract of the lists\<close>

text \<open>A run of insertions before the head, and taking the first node off.\<close>

primrec enqueue_all :: "('n \<Rightarrow> 'n \<Rightarrow> 'h \<Rightarrow> 'h) \<Rightarrow> 'n \<Rightarrow> 'n list \<Rightarrow> 'h \<Rightarrow> 'h" where
  "enqueue_all ins l [] h = h"
| "enqueue_all ins l (n # ns) h = enqueue_all ins l ns (ins l n h)"

primrec dequeue_n :: "('n \<Rightarrow> 'h \<Rightarrow> 'n) \<Rightarrow> ('n \<Rightarrow> 'h \<Rightarrow> 'h) \<Rightarrow> 'n \<Rightarrow> nat \<Rightarrow> 'h \<Rightarrow> 'n list \<times> 'h" where
  "dequeue_n first rem l 0 h = ([], h)"
| "dequeue_n first rem l (Suc k) h =
     (let x = first l h; (xs, h') = dequeue_n first rem l k (rem x h) in (x # xs, h'))"

locale intrusive_lists =
  fixes rep :: "'h \<Rightarrow> 'n \<Rightarrow> 'n list \<Rightarrow> bool"
    and ins_before :: "'n \<Rightarrow> 'n \<Rightarrow> 'h \<Rightarrow> 'h"
    and rem :: "'n \<Rightarrow> 'h \<Rightarrow> 'h"
    and is_empty :: "'n \<Rightarrow> 'h \<Rightarrow> bool"
    and first :: "'n \<Rightarrow> 'h \<Rightarrow> 'n"
  assumes ins_ok: "rep h l xs \<Longrightarrow> n \<noteq> l \<Longrightarrow> n \<notin> set xs \<Longrightarrow> rep (ins_before l n h) l (xs @ [n])"
    and rem_ok: "rep h l (ys @ n # zs) \<Longrightarrow> rep (rem n h) l (ys @ zs)"
    and empty_ok: "rep h l xs \<Longrightarrow> is_empty l h \<longleftrightarrow> xs = []"
    and first_ok: "rep h l (x # xs) \<Longrightarrow> first l h = x"
begin

lemma enqueue_all_ok:
  "rep h l xs \<Longrightarrow> l \<notin> set ns \<Longrightarrow> distinct ns \<Longrightarrow> set ns \<inter> set xs = {} \<Longrightarrow>
    rep (enqueue_all ins_before l ns h) l (xs @ ns)"
proof (induction ns arbitrary: h xs)
  case Nil
  then show ?case by simp
next
  case (Cons n ns)
  from Cons.prems have "rep (ins_before l n h) l (xs @ [n])" by (intro ins_ok) auto
  from Cons.IH [OF this] Cons.prems show ?case by auto
qed

lemma dequeue_n_ok:
  "rep h l (xs @ ys) \<Longrightarrow> fst (dequeue_n first rem l (length xs) h) = xs
    \<and> rep (snd (dequeue_n first rem l (length xs) h)) l ys"
proof (induction xs arbitrary: h)
  case Nil
  then show ?case by simp
next
  case (Cons x xs)
  from Cons.prems have f: "first l h = x" by (simp add: first_ok)
  from Cons.prems rem_ok [of h l "[]" x "xs @ ys"] have "rep (rem x h) l (xs @ ys)" by simp
  from Cons.IH [OF this] f show ?case by (auto simp: Let_def split_beta)
qed

text \<open>Nodes queued at an empty list come off in the order in which they were queued, and leave it empty.\<close>

lemma queue_discipline:
  assumes "rep h l []" "l \<notin> set ns" "distinct ns"
  shows "fst (dequeue_n first rem l (length ns) (enqueue_all ins_before l ns h)) = ns
    \<and> is_empty l (snd (dequeue_n first rem l (length ns) (enqueue_all ins_before l ns h)))"
proof -
  from enqueue_all_ok [OF assms(1,2,3)] have "rep (enqueue_all ins_before l ns h) l (ns @ [])" by simp
  from dequeue_n_ok [OF this] empty_ok show ?thesis by auto
qed

end

interpretation rtl: intrusive_lists is_dl rt_list_insert_before rt_list_remove rt_list_isempty "\<lambda>l h. lnext h l"
proof (standard, goal_cases)
  case (1 h l xs n)
  then show ?case by (intro insert_before_head) auto
next
  case (2 h l ys n zs)
  then show ?case by (rule remove_node)
next
  case (3 h l xs)
  then show ?case by (rule isempty_ok)
next
  case (4 h l x xs)
  then show ?case by (simp add: is_dl_def)
qed

section \<open>Properties\<close>



text \<open>Queue discipline of the lists. Nodes put at the end of an empty list one after the other (as the
  ready lists and the first-in first-out waiting lists do) are found at its front in that order.\<close>

lemma rt_list_queue_discipline:
  assumes "is_dl h l []" "l \<notin> set ns" "distinct ns"
  shows "fst (dequeue_n (\<lambda>l h. lnext h l) rt_list_remove l (length ns) (enqueue_all rt_list_insert_before l ns h)) = ns"
  using rtl.queue_discipline [OF assms] by simp

lemma rt_list_queue_discipline_witness:
  "fst (dequeue_n (\<lambda>l h. lnext h l) rt_list_remove 1 (length [5, 3, 9 :: nat]) (enqueue_all rt_list_insert_before 1 [5, 3, 9]
     (rt_list_init 1 \<lparr>lnext = \<lambda>_. 0, lprev = \<lambda>_. 0\<rparr>))) = [5, 3, 9]"
  by (rule rt_list_queue_discipline [OF list_init_ok]) auto

end
