(* ===== verification/Kernel_State.thy ===== *)
theory Kernel_State
  imports Prelude
begin

text \<open>
  The state of the RT-Thread kernel that scheduler.c, thread.c, timer.c, clock.c and ipc.c share, for the
  configuration of include/rtconfig.h (one processor, 32 priorities, no signals, no soft timers, a skip
  list of one level). A thread is a number; \<^verbatim>\<open>thread->tlist\<close> is in at most one list, so the lists are
  functions from list heads to lists of threads (theory Rt_List shows that the linked lists implement
  them). A thread's own timer is \<open>TThread\<close> of it, every other timer \<open>TUser\<close> of a number. Hooks are not
  set anywhere in the program and are left out, as are stack contents and object names.
\<close>

section \<open>Find first set\<close>

definition lowest_bit_bitmap :: "nat list" where
  "lowest_bit_bitmap = [
    0, 0, 1, 0, 2, 0, 1, 0, 3, 0, 1, 0, 2, 0, 1, 0,
    4, 0, 1, 0, 2, 0, 1, 0, 3, 0, 1, 0, 2, 0, 1, 0,
    5, 0, 1, 0, 2, 0, 1, 0, 3, 0, 1, 0, 2, 0, 1, 0,
    4, 0, 1, 0, 2, 0, 1, 0, 3, 0, 1, 0, 2, 0, 1, 0,
    6, 0, 1, 0, 2, 0, 1, 0, 3, 0, 1, 0, 2, 0, 1, 0,
    4, 0, 1, 0, 2, 0, 1, 0, 3, 0, 1, 0, 2, 0, 1, 0,
    5, 0, 1, 0, 2, 0, 1, 0, 3, 0, 1, 0, 2, 0, 1, 0,
    4, 0, 1, 0, 2, 0, 1, 0, 3, 0, 1, 0, 2, 0, 1, 0,
    7, 0, 1, 0, 2, 0, 1, 0, 3, 0, 1, 0, 2, 0, 1, 0,
    4, 0, 1, 0, 2, 0, 1, 0, 3, 0, 1, 0, 2, 0, 1, 0,
    5, 0, 1, 0, 2, 0, 1, 0, 3, 0, 1, 0, 2, 0, 1, 0,
    4, 0, 1, 0, 2, 0, 1, 0, 3, 0, 1, 0, 2, 0, 1, 0,
    6, 0, 1, 0, 2, 0, 1, 0, 3, 0, 1, 0, 2, 0, 1, 0,
    4, 0, 1, 0, 2, 0, 1, 0, 3, 0, 1, 0, 2, 0, 1, 0,
    5, 0, 1, 0, 2, 0, 1, 0, 3, 0, 1, 0, 2, 0, 1, 0,
    4, 0, 1, 0, 2, 0, 1, 0, 3, 0, 1, 0, 2, 0, 1, 0]"

text \<open>\<^verbatim>\<open>__rt_ffs\<close> of RTT4/src/kservice.c.\<close>

definition rt_ffs :: "u32 \<Rightarrow> nat" where
  "rt_ffs value =
     (if value = 0 then 0
      else if value AND 0xff \<noteq> 0 then lowest_bit_bitmap ! unat (value AND 0xff) + 1
      else if value AND 0xff00 \<noteq> 0 then lowest_bit_bitmap ! unat (drop_bit 8 (value AND 0xff00)) + 9
      else if value AND 0xff0000 \<noteq> 0 then lowest_bit_bitmap ! unat (drop_bit 16 (value AND 0xff0000)) + 17
      else lowest_bit_bitmap ! unat (drop_bit 24 (value AND 0xff000000)) + 25)"

text \<open>The table repeats itself: its first \<open>2 ^ (k + 1)\<close> entries are the first \<open>2 ^ k\<close> twice, with \<open>k\<close> for the
  first entry of the second half.\<close>

primrec bitmap_rec :: "nat \<Rightarrow> nat list" where
  "bitmap_rec 0 = [0]"
| "bitmap_rec (Suc k) = bitmap_rec k @ k # tl (bitmap_rec k)"

lemma bitmap_is_rec: "lowest_bit_bitmap = bitmap_rec 8"
  by (simp add: lowest_bit_bitmap_def numeral_eq_Suc)

lemma length_bitmap_rec [simp]: "length (bitmap_rec k) = 2 ^ k"
  by (induction k) simp_all

lemma bitmap_rec_lowest:
  "0 < b \<Longrightarrow> b < 2 ^ k \<Longrightarrow>
    bitmap_rec k ! b < k \<and> 2 ^ (bitmap_rec k ! b) dvd b \<and> odd (b div 2 ^ (bitmap_rec k ! b))"
proof (induction k arbitrary: b)
  case 0
  then show ?case by simp
next
  case (Suc k)
  consider "b < 2 ^ k" | "b = 2 ^ k" | c where "b = 2 ^ k + c" "0 < c" "c < 2 ^ k"
    using Suc.prems(2) by (metis add_diff_inverse_nat diff_less_mono2 linorder_neqE_nat mult_2 not_less
        power_Suc zero_less_diff nat_add_left_cancel_less)
  then show ?case
  proof cases
    case 1
    with Suc show ?thesis by (auto simp: nth_append less_Suc_eq)
  next
    case 2
    then show ?thesis by (simp add: nth_append)
  next
    case (3 c)
    let ?t = "bitmap_rec k ! c"
    have t: "bitmap_rec (Suc k) ! b = ?t"
      using 3 by (simp add: nth_append nth_Cons' nth_tl)
    from Suc.IH [of c] 3 have c: "?t < k" "2 ^ ?t dvd c" "odd (c div 2 ^ ?t)" by auto
    have k: "(2::nat) ^ k = 2 ^ ?t * 2 ^ (k - ?t)" using c(1) by (simp flip: power_add)
    have "(2 ^ k + c) div 2 ^ ?t = 2 ^ (k - ?t) + c div 2 ^ ?t" unfolding k by simp
    moreover have "even ((2::nat) ^ (k - ?t))" using c(1) by simp
    moreover have "2 ^ ?t dvd (2::nat) ^ k" using k by (metis dvd_triv_left)
    ultimately have "odd (b div 2 ^ ?t)" "2 ^ ?t dvd b" using c 3(1) by simp_all
    with c(1) show ?thesis unfolding t by simp
  qed
qed

text \<open>The entry of a non-zero byte is the position of its lowest set bit.\<close>

lemma bitmap_byte:
  fixes w :: u32
  assumes "w \<noteq> 0" "unat w < 256"
  defines "t \<equiv> lowest_bit_bitmap ! unat w"
  shows "t < 8" "bit w t" "\<forall>j < t. \<not> bit w j"
proof -
  have "0 < unat w" using assms(1) by (simp add: unat_gt_0)
  with bitmap_rec_lowest [of "unat w" 8] assms(2) have
    d: "t < 8" "2 ^ t dvd unat w" "odd (unat w div 2 ^ t)" by (auto simp: t_def bitmap_is_rec)
  show "t < 8" by (rule d)
  have b: "bit w j \<longleftrightarrow> odd (unat w div 2 ^ j)" for j
    by (simp add: bit_iff_odd [symmetric] bit_unsigned_iff)
  show "bit w t" using d(3) b by simp
  show "\<forall>j < t. \<not> bit w j"
  proof (intro allI impI)
    fix j assume j: "j < t"
    have "(2::nat) ^ Suc j dvd 2 ^ t" using j by (intro le_imp_power_dvd) simp
    with d(2) have "2 ^ Suc j dvd unat w" by (metis dvd_trans)
    then have "even (unat w div 2 ^ j)" by (auto simp: ac_simps)
    then show "\<not> bit w j" using b by simp
  qed
qed

text \<open>One byte of a word, cut out the way the code does.\<close>

lemma byte_bits:
  fixes v :: u32
  assumes "s \<in> {0, 8, 16, 24}"
  shows "bit (drop_bit s (v AND push_bit s 0xff)) j \<longleftrightarrow> j < 8 \<and> bit v (s + j)"
proof -
  have m: "(0xff :: u32) = mask 8" by (simp add: mask_eq_exp_minus_1)
  show ?thesis
    unfolding m using assms bit_imp_le_length [of v "s + j"]
    by (auto simp: bit_drop_bit_eq bit_and_iff bit_push_bit_iff bit_mask_iff)
qed

lemma byte_found:
  fixes v :: u32
  assumes s: "s \<in> {0, 8, 16, 24}" and nz: "v AND push_bit s 0xff \<noteq> 0" and low: "\<forall>j < s. \<not> bit v j"
  defines "t \<equiv> lowest_bit_bitmap ! unat (drop_bit s (v AND push_bit s 0xff))"
  shows "s + t < 32 \<and> bit v (s + t) \<and> (\<forall>j < s + t. \<not> bit v j)"
proof -
  let ?w = "drop_bit s (v AND push_bit s 0xff)"
  note b = byte_bits [OF s, of v]
  have w0: "?w \<noteq> 0"
  proof
    assume z: "?w = 0"
    have "\<not> bit (v AND push_bit s 0xff) n" for n
    proof (cases "n < s")
      case True
      then show ?thesis by (simp add: bit_and_iff bit_push_bit_iff)
    next
      case False
      then obtain i where "n = s + i" by (metis le_Suc_ex not_less)
      moreover have "\<not> bit ?w i" using z by simp
      ultimately show ?thesis unfolding bit_drop_bit_eq o_def by simp
    qed
    then have "v AND push_bit s 0xff = 0" by (intro bit_word_eqI) simp
    with nz show False by simp
  qed
  have "?w = take_bit 8 ?w"
    by (rule bit_word_eqI) (simp only: bit_take_bit_iff b, blast)
  then have "unat ?w = unat (take_bit 8 ?w)" by simp
  also have "\<dots> = take_bit 8 (unat ?w)" by (rule unsigned_take_bit_eq)
  also have "\<dots> < 2 ^ 8" by (rule take_bit_nat_less_exp)
  finally have "unat ?w < 256" by simp
  from bitmap_byte [OF w0 this] have t: "t < 8" "bit ?w t" "\<forall>j < t. \<not> bit ?w j" by (simp_all add: t_def)
  from t(2) b have "bit v (s + t)" by simp
  moreover have "\<not> bit v j" if j: "j < s + t" for j
  proof (cases "j < s")
    case False
    then obtain i where "j = s + i" by (metis le_Suc_ex not_less)
    with j t(1,3) b [of i] show ?thesis by auto
  qed (use low in simp)
  ultimately show ?thesis using t(1) s by auto
qed

lemma no_low_bits:
  fixes v :: u32
  assumes "s \<in> {0, 8, 16, 24}" "v AND push_bit s 0xff = 0" "\<forall>j < s. \<not> bit v j"
  shows "\<forall>j < s + 8. \<not> bit v j"
proof (intro allI impI)
  fix j assume j: "j < s + 8"
  show "\<not> bit v j"
  proof (cases "j < s")
    case False
    then obtain i where i: "j = s + i" by (metis le_Suc_ex not_less)
    with j byte_bits [OF assms(1), of v i] assms(2) show ?thesis by simp
  qed (use assms(3) in simp)
qed

lemma rt_ffs_lowest:
  assumes "v \<noteq> 0"
  shows "0 < rt_ffs v \<and> rt_ffs v - 1 < 32 \<and> bit v (rt_ffs v - 1) \<and> (\<forall>j < rt_ffs v - 1. \<not> bit v j)"
proof -
  have m: "push_bit 0 0xff = (0xff :: u32)" "push_bit 8 0xff = (0xff00 :: u32)"
    "push_bit 16 0xff = (0xff0000 :: u32)" "push_bit 24 0xff = (0xff000000 :: u32)"
    by (simp_all add: push_bit_eq_mult)
  consider (a) "v AND 0xff \<noteq> 0" | (b) "v AND 0xff = 0" "v AND 0xff00 \<noteq> 0"
    | (c) "v AND 0xff = 0" "v AND 0xff00 = 0" "v AND 0xff0000 \<noteq> 0"
    | (d) "v AND 0xff = 0" "v AND 0xff00 = 0" "v AND 0xff0000 = 0" by blast
  then show ?thesis
  proof cases
    case a
    with byte_found [of 0 v, unfolded m] assms show ?thesis by (simp add: rt_ffs_def)
  next
    case b
    from no_low_bits [of 0 v, unfolded m] b have l: "\<forall>j < 8. \<not> bit v j" by simp
    with byte_found [of 8 v, unfolded m] b assms show ?thesis by (simp add: rt_ffs_def add.commute)
  next
    case c
    from no_low_bits [of 0 v, unfolded m] c have "\<forall>j < 8. \<not> bit v j" by simp
    with no_low_bits [of 8 v, unfolded m] c have l: "\<forall>j < 16. \<not> bit v j" by simp
    with byte_found [of 16 v, unfolded m] c assms show ?thesis by (simp add: rt_ffs_def add.commute)
  next
    case d
    from no_low_bits [of 0 v, unfolded m] d have "\<forall>j < 8. \<not> bit v j" by simp
    with no_low_bits [of 8 v, unfolded m] d have "\<forall>j < 16. \<not> bit v j" by simp
    with no_low_bits [of 16 v, unfolded m] d have l: "\<forall>j < 24. \<not> bit v j" by simp
    have "v AND 0xff000000 \<noteq> 0"
    proof
      assume "v AND 0xff000000 = 0"
      with no_low_bits [of 24 v, unfolded m] l have "\<forall>j < 32. \<not> bit v j" by simp
      then have "v = 0" by (intro bit_word_eqI) simp
      with assms show False by simp
    qed
    with byte_found [of 24 v, unfolded m] l d assms show ?thesis by (simp add: rt_ffs_def add.commute)
  qed
qed

section \<open>Threads, timers and lists\<close>

abbreviation (input) RT_THREAD_INIT :: u8 where "RT_THREAD_INIT \<equiv> 0"
abbreviation (input) RT_THREAD_READY :: u8 where "RT_THREAD_READY \<equiv> 1"
abbreviation (input) RT_THREAD_SUSPEND :: u8 where "RT_THREAD_SUSPEND \<equiv> 2"
abbreviation (input) RT_THREAD_RUNNING :: u8 where "RT_THREAD_RUNNING \<equiv> 3"
abbreviation (input) RT_THREAD_CLOSE :: u8 where "RT_THREAD_CLOSE \<equiv> 4"
abbreviation (input) RT_THREAD_STAT_YIELD :: u8 where "RT_THREAD_STAT_YIELD \<equiv> 8"

abbreviation (input) RT_TICK_MAX :: u32 where "RT_TICK_MAX \<equiv> 0xffffffff"

record thread =
  stat :: u8
  current_priority :: u8
  init_priority :: u8
  number_mask :: u32
  init_tick :: u32
  remaining_tick :: u32
  t_error :: rt_err_t
  is_static :: bool
  has_cleanup :: bool
  event_set :: u32
  event_info :: u8

datatype timer_id = TThread nat | TUser nat

record timer =
  tm_active :: bool
  tm_periodic :: bool
  timeout_tick :: u32
  tm_init_tick :: u32

text \<open>The lists a thread can be in: the ready list of a priority, the defunct list, and the waiting lists of
  an IPC object (\<^verbatim>\<open>suspend_thread\<close> and, for message queues and mailboxes, the senders).\<close>

datatype lhead = LReady nat | LDefunct | LIpc nat | LSender nat

record kernel =
  threads :: "nat \<Rightarrow> thread"
  lists :: "lhead \<Rightarrow> nat list"
  ready_group :: u32
  current :: "nat option"
  rt_current_priority :: u8
  lock_nest :: "16 word"
  irq_nest :: u8
  timers :: "timer_id \<Rightarrow> timer"
  timer_list :: "timer_id list"
  rt_tick :: u32

text \<open>\<^verbatim>\<open>thread->stat & RT_THREAD_STAT_MASK\<close>, and replacing that part.\<close>

definition stat_of :: "thread \<Rightarrow> u8" where
  "stat_of th = stat th AND 7"

definition set_stat :: "u8 \<Rightarrow> thread \<Rightarrow> thread" where
  "set_stat v th = th\<lparr>stat := v OR (stat th AND NOT 7)\<rparr>"

definition upd_thread :: "nat \<Rightarrow> (thread \<Rightarrow> thread) \<Rightarrow> kernel \<Rightarrow> kernel" where
  "upd_thread t f k = k\<lparr>threads := (threads k)(t := f (threads k t))\<rparr>"

definition upd_timer :: "timer_id \<Rightarrow> (timer \<Rightarrow> timer) \<Rightarrow> kernel \<Rightarrow> kernel" where
  "upd_timer i f k = k\<lparr>timers := (timers k)(i := f (timers k i))\<rparr>"

text \<open>The list primitives on \<^verbatim>\<open>thread->tlist\<close>.\<close>

definition tlist_remove :: "nat \<Rightarrow> kernel \<Rightarrow> kernel" where
  "tlist_remove t k = k\<lparr>lists := (\<lambda>l. removeAll t (lists k l))\<rparr>"

definition tlist_insert_before :: "lhead \<Rightarrow> nat \<Rightarrow> kernel \<Rightarrow> kernel" where
  "tlist_insert_before l t k = k\<lparr>lists := (lists k)(l := lists k l @ [t])\<rparr>"

definition tlist_insert_after :: "lhead \<Rightarrow> nat \<Rightarrow> kernel \<Rightarrow> kernel" where
  "tlist_insert_after l t k = k\<lparr>lists := (lists k)(l := t # lists k l)\<rparr>"

lemma stat_and_or [simp]: "v AND 7 = v \<Longrightarrow> stat_of (set_stat v th) = v"
proof -
  assume v: "v AND 7 = v"
  have "(v OR stat th AND NOT 7) AND 7 = v AND 7"
    by (rule bit_word_eqI) (auto simp: bit_simps)
  with v show ?thesis by (simp add: stat_of_def set_stat_def)
qed

lemma stat_set_consts [simp]:
  "stat_of (set_stat 1 th) = 1" "stat_of (set_stat 2 th) = 2" "stat_of (set_stat 3 th) = 3"
  by (rule stat_and_or, simp)+

lemma set_stat_frame [simp]:
  "current_priority (set_stat v th) = current_priority th" "init_priority (set_stat v th) = init_priority th"
  "number_mask (set_stat v th) = number_mask th" "t_error (set_stat v th) = t_error th"
  "init_tick (set_stat v th) = init_tick th" "remaining_tick (set_stat v th) = remaining_tick th"
  "is_static (set_stat v th) = is_static th" "event_set (set_stat v th) = event_set th"
  "event_info (set_stat v th) = event_info th"
  by (simp_all add: set_stat_def)

lemma upd_thread_simps [simp]:
  "threads (upd_thread t f k) = (threads k)(t := f (threads k t))" "lists (upd_thread t f k) = lists k"
  "ready_group (upd_thread t f k) = ready_group k" "current (upd_thread t f k) = current k"
  "lock_nest (upd_thread t f k) = lock_nest k" "irq_nest (upd_thread t f k) = irq_nest k"
  "timers (upd_thread t f k) = timers k" "timer_list (upd_thread t f k) = timer_list k"
  "rt_tick (upd_thread t f k) = rt_tick k" "rt_current_priority (upd_thread t f k) = rt_current_priority k"
  by (simp_all add: upd_thread_def)

lemma upd_timer_simps [simp]:
  "threads (upd_timer i g k) = threads k" "lists (upd_timer i g k) = lists k"
  "ready_group (upd_timer i g k) = ready_group k" "current (upd_timer i g k) = current k"
  "lock_nest (upd_timer i g k) = lock_nest k" "irq_nest (upd_timer i g k) = irq_nest k"
  "timers (upd_timer i g k) = (timers k)(i := g (timers k i))" "timer_list (upd_timer i g k) = timer_list k"
  "rt_tick (upd_timer i g k) = rt_tick k"
  by (simp_all add: upd_timer_def)

lemma tlist_simps [simp]:
  "threads (tlist_remove t k) = threads k" "lists (tlist_remove t k) = (\<lambda>l. removeAll t (lists k l))"
  "ready_group (tlist_remove t k) = ready_group k" "current (tlist_remove t k) = current k"
  "lock_nest (tlist_remove t k) = lock_nest k" "irq_nest (tlist_remove t k) = irq_nest k"
  "timers (tlist_remove t k) = timers k" "timer_list (tlist_remove t k) = timer_list k"
  "rt_tick (tlist_remove t k) = rt_tick k" "rt_current_priority (tlist_remove t k) = rt_current_priority k"
  "threads (tlist_insert_before l t k) = threads k"
  "lists (tlist_insert_before l t k) = (lists k)(l := lists k l @ [t])"
  "ready_group (tlist_insert_before l t k) = ready_group k" "current (tlist_insert_before l t k) = current k"
  "lock_nest (tlist_insert_before l t k) = lock_nest k" "irq_nest (tlist_insert_before l t k) = irq_nest k"
  "timers (tlist_insert_before l t k) = timers k" "timer_list (tlist_insert_before l t k) = timer_list k"
  "rt_tick (tlist_insert_before l t k) = rt_tick k"
  "threads (tlist_insert_after l t k) = threads k"
  "lists (tlist_insert_after l t k) = (lists k)(l := t # lists k l)"
  "ready_group (tlist_insert_after l t k) = ready_group k" "current (tlist_insert_after l t k) = current k"
  "lock_nest (tlist_insert_after l t k) = lock_nest k" "irq_nest (tlist_insert_after l t k) = irq_nest k"
  "timers (tlist_insert_after l t k) = timers k" "timer_list (tlist_insert_after l t k) = timer_list k"
  "rt_tick (tlist_insert_after l t k) = rt_tick k"
  by (simp_all add: tlist_remove_def tlist_insert_before_def tlist_insert_after_def)

section \<open>Properties\<close>

text \<open>The table-driven search for the first set bit is right: for every non-zero word the result is one
  more than the position of the lowest set bit, and it is 0 for 0.\<close>

lemma rt_ffs_is_lowest_bit:
  "rt_ffs 0 = 0 \<and> (v \<noteq> 0 \<longrightarrow> rt_ffs v = (LEAST j. bit v j) + 1 \<and> bit v (rt_ffs v - 1) \<and> rt_ffs v \<le> 32)"
proof -
  have "rt_ffs v = (LEAST j. bit v j) + 1" if "v \<noteq> 0"
  proof -
    note f = rt_ffs_lowest [OF that]
    have "(LEAST j. bit v j) = rt_ffs v - 1"
      using f by (intro Least_equality) (auto simp: not_less [symmetric])
    with f show ?thesis by simp
  qed
  with rt_ffs_lowest [of v] show ?thesis by (auto simp: rt_ffs_def)
qed

end
