(* ===== verification/Scheduler.thy ===== *)
theory Scheduler
  imports Kernel_State
begin

text \<open>
  RTT4/src/scheduler.c for one processor and 32 priorities. Taking \<^verbatim>\<open>rt_thread_priority_table[p].next\<close>
  of an empty list would make a thread out of the list head, and scheduling before the scheduler has
  started would follow a null pointer: both are \<open>None\<close>. A context switch is the change of
  \<^verbatim>\<open>rt_current_thread\<close>; the stack check of the target is left out.
\<close>

section \<open>Operations\<close>

definition rt_system_scheduler_init :: "kernel \<Rightarrow> kernel" where
  "rt_system_scheduler_init k = k\<lparr>lock_nest := 0,
     lists := (\<lambda>l. case l of LReady p \<Rightarrow> (if p < 32 then [] else lists k l) | LDefunct \<Rightarrow> [] | _ \<Rightarrow> lists k l),
     ready_group := 0\<rparr>"

definition get_highest_priority_thread :: "kernel \<Rightarrow> (nat \<times> nat) option" where
  "get_highest_priority_thread k =
     (let highest_ready_priority = rt_ffs (ready_group k) - 1
      in case lists k (LReady highest_ready_priority) of [] \<Rightarrow> None
         | t # ts \<Rightarrow> Some (t, highest_ready_priority))"

definition rt_schedule_insert_thread :: "nat \<Rightarrow> kernel \<Rightarrow> kernel" where
  "rt_schedule_insert_thread t k =
     (if current k = Some t then upd_thread t (set_stat RT_THREAD_RUNNING) k
      else let k = upd_thread t (set_stat RT_THREAD_READY) k;
               k = tlist_insert_before (LReady (unat (current_priority (threads k t)))) t k
           in k\<lparr>ready_group := ready_group k OR number_mask (threads k t)\<rparr>)"

definition rt_schedule_remove_thread :: "nat \<Rightarrow> kernel \<Rightarrow> kernel" where
  "rt_schedule_remove_thread t k =
     (let k = tlist_remove t k
      in if lists k (LReady (unat (current_priority (threads k t)))) = []
         then k\<lparr>ready_group := ready_group k AND NOT (number_mask (threads k t))\<rparr>
         else k)"

definition rt_system_scheduler_start :: "kernel \<Rightarrow> kernel option" where
  "rt_system_scheduler_start k = do {
     (to_thread, p) \<leftarrow> get_highest_priority_thread k;
     let k = k\<lparr>current := Some to_thread\<rparr>;
     let k = rt_schedule_remove_thread to_thread k;
     Some (upd_thread to_thread (\<lambda>th. th\<lparr>stat := RT_THREAD_RUNNING\<rparr>) k) }"

text \<open>The choice of \<^verbatim>\<open>rt_schedule\<close>: the thread to run, whether the running thread has to be put back,
  and the state with its yield flag cleared in that case.\<close>

definition schedule_choice :: "nat \<Rightarrow> nat \<Rightarrow> nat \<Rightarrow> kernel \<Rightarrow> nat \<times> bool \<times> kernel" where
  "schedule_choice cur to_thread hp k =
     (if stat_of (threads k cur) = RT_THREAD_RUNNING then
        if unat (current_priority (threads k cur)) < hp then (cur, False, k)
        else if unat (current_priority (threads k cur)) = hp \<and> stat (threads k cur) AND RT_THREAD_STAT_YIELD = 0
        then (cur, False, k)
        else (to_thread, True, upd_thread cur (\<lambda>th. th\<lparr>stat := stat th AND NOT RT_THREAD_STAT_YIELD\<rparr>) k)
      else (to_thread, False, k))"

definition rt_schedule :: "kernel \<Rightarrow> kernel option" where
  "rt_schedule k =
     (if lock_nest k = 0 then
        if ready_group k \<noteq> 0 then do {
          (to0, hp) \<leftarrow> get_highest_priority_thread k;
          cur \<leftarrow> current k;
          let (to_thread, need_insert, k) = schedule_choice cur to0 hp k;
          if to_thread \<noteq> cur then do {
            let k = k\<lparr>rt_current_priority := of_nat hp, current := Some to_thread\<rparr>;
            let k = (if need_insert then rt_schedule_insert_thread cur k else k);
            let k = rt_schedule_remove_thread to_thread k;
            Some (upd_thread to_thread (set_stat RT_THREAD_RUNNING) k) }
          else Some (upd_thread cur (set_stat RT_THREAD_RUNNING) (rt_schedule_remove_thread cur k)) }
        else Some k
      else Some k)"

definition rt_enter_critical :: "kernel \<Rightarrow> kernel" where
  "rt_enter_critical k = k\<lparr>lock_nest := lock_nest k + 1\<rparr>"

definition rt_exit_critical :: "kernel \<Rightarrow> kernel option" where
  "rt_exit_critical k =
     (let k = k\<lparr>lock_nest := lock_nest k - 1\<rparr>
      in if sint (lock_nest k) \<le> 0
         then let k = k\<lparr>lock_nest := 0\<rparr>
              in if current k \<noteq> None then rt_schedule k else Some k
         else Some k)"

definition rt_critical_level :: "kernel \<Rightarrow> 16 word" where
  "rt_critical_level k = lock_nest k"

section \<open>Invariant\<close>

definition nolist :: "nat \<Rightarrow> kernel \<Rightarrow> bool" where
  "nolist t k \<longleftrightarrow> (\<forall>l. t \<notin> set (lists k l))"

definition prio :: "nat \<Rightarrow> kernel \<Rightarrow> nat" where
  "prio t k = unat (current_priority (threads k t))"

text \<open>A thread is in at most one list, once.\<close>

definition lists_ok :: "kernel \<Rightarrow> bool" where
  "lists_ok k \<longleftrightarrow> (\<forall>l. distinct (lists k l)) \<and> (\<forall>l l' t. t \<in> set (lists k l) \<longrightarrow> t \<in> set (lists k l') \<longrightarrow> l = l')"

text \<open>A bit of the group is set exactly when the ready list of that priority has a thread.\<close>

definition group_ok :: "kernel \<Rightarrow> bool" where
  "group_ok k \<longleftrightarrow> (\<forall>p < 32. bit (ready_group k) p \<longleftrightarrow> lists k (LReady p) \<noteq> [])"

definition ready_ok :: "kernel \<Rightarrow> bool" where
  "ready_ok k \<longleftrightarrow> (\<forall>p t. t \<in> set (lists k (LReady p)) \<longrightarrow> p < 32 \<and> prio t k = p \<and> stat_of (threads k t) = RT_THREAD_READY)"

definition wait_ok :: "kernel \<Rightarrow> bool" where
  "wait_ok k \<longleftrightarrow> (\<forall>i t. t \<in> set (lists k (LIpc i)) \<or> t \<in> set (lists k (LSender i)) \<longrightarrow>
       stat_of (threads k t) = RT_THREAD_SUSPEND)
     \<and> (\<forall>t \<in> set (lists k LDefunct). stat_of (threads k t) = RT_THREAD_CLOSE)"

text \<open>Every started thread has its priority's mask.\<close>

definition started :: "thread \<Rightarrow> bool" where
  "started th \<longleftrightarrow> stat_of th \<in> {RT_THREAD_READY, RT_THREAD_SUSPEND, RT_THREAD_RUNNING}"

definition mask_ok :: "kernel \<Rightarrow> bool" where
  "mask_ok k \<longleftrightarrow> (\<forall>t. started (threads k t) \<longrightarrow> prio t k < 32 \<and> number_mask (threads k t) = 2 ^ prio t k)"

definition base_ok :: "kernel \<Rightarrow> bool" where
  "base_ok k \<longleftrightarrow> lists_ok k \<and> group_ok k \<and> ready_ok k \<and> wait_ok k \<and> mask_ok k"

text \<open>A ready thread is in its ready list, only the current thread is running, and it is not ready.\<close>

definition stat_ok :: "kernel \<Rightarrow> bool" where
  "stat_ok k \<longleftrightarrow> (\<forall>t. (stat_of (threads k t) = RT_THREAD_READY \<longrightarrow> t \<in> set (lists k (LReady (prio t k))))
     \<and> (stat_of (threads k t) = RT_THREAD_RUNNING \<longrightarrow> current k = Some t)
     \<and> (current k = Some t \<longrightarrow> stat_of (threads k t) \<noteq> RT_THREAD_READY))"

definition sched_ok :: "kernel \<Rightarrow> bool" where
  "sched_ok k \<longleftrightarrow> base_ok k \<and> stat_ok k"

lemmas base_defs = base_ok_def lists_ok_def group_ok_def ready_ok_def wait_ok_def mask_ok_def prio_def

lemma base_okD:
  assumes "base_ok k"
  shows "lists_ok k" "group_ok k" "ready_ok k" "wait_ok k" "mask_ok k"
  using assms by (simp_all add: base_ok_def)

section \<open>The primitives keep the base invariant\<close>

lemma bit_2exp_u32: "p < 32 \<Longrightarrow> q < 32 \<Longrightarrow> bit (2 ^ p :: u32) q \<longleftrightarrow> q = p"
  by (auto simp: bit_exp_iff)

lemma set_list_other: "nolist t k \<Longrightarrow> t \<notin> set (lists k l)"
  by (simp add: nolist_def)

text \<open>Changing a thread that is in no list.\<close>

lemma upd_thread_base:
  assumes "base_ok k" "nolist t k"
    and "started (f (threads k t)) \<Longrightarrow> unat (current_priority (f (threads k t))) < 32
      \<and> number_mask (f (threads k t)) = 2 ^ unat (current_priority (f (threads k t)))"
  shows "base_ok (upd_thread t f k)"
  using assms by (auto simp: base_defs nolist_def)

lemma remove_base:
  assumes b: "base_ok k" and s: "started (threads k t)"
  shows "base_ok (rt_schedule_remove_thread t k)" and "nolist t (rt_schedule_remove_thread t k)"
proof -
  let ?k = "rt_schedule_remove_thread t k"
  have l: "lists ?k = (\<lambda>l. removeAll t (lists k l))" and th: "threads ?k = threads k"
    by (simp_all add: rt_schedule_remove_thread_def Let_def)
  show "nolist t ?k" by (simp add: nolist_def l)
  have m: "prio t k < 32" "number_mask (threads k t) = 2 ^ prio t k"
    using base_okD(5) [OF b] s by (simp_all add: mask_ok_def)
  have "group_ok ?k"
    unfolding group_ok_def
  proof (intro allI impI)
    fix p :: nat assume p: "p < 32"
    have g: "bit (ready_group k) p \<longleftrightarrow> lists k (LReady p) \<noteq> []"
      using base_okD(2) [OF b] p by (simp add: group_ok_def)
    show "bit (ready_group ?k) p \<longleftrightarrow> lists ?k (LReady p) \<noteq> []"
    proof (cases "p = prio t k")
      case True
      then show ?thesis
        using g m p by (auto simp: rt_schedule_remove_thread_def Let_def prio_def bit_and_iff bit_not_iff bit_2exp_u32)
    next
      case False
      then have "t \<notin> set (lists k (LReady p))" using base_okD(3) [OF b] by (auto simp: ready_ok_def)
      then have "removeAll t (lists k (LReady p)) = lists k (LReady p)" by (rule removeAll_id)
      with False show ?thesis
        using g m p by (auto simp: rt_schedule_remove_thread_def Let_def prio_def bit_and_iff bit_not_iff bit_2exp_u32)
    qed
  qed
  moreover have "lists_ok ?k" using base_okD(1) [OF b] by (auto simp: lists_ok_def l distinct_removeAll)
  moreover have "ready_ok ?k" "wait_ok ?k" "mask_ok ?k"
    using base_okD(3-5) [OF b] by (auto simp: ready_ok_def wait_ok_def mask_ok_def prio_def l th)
  ultimately show "base_ok ?k" by (simp add: base_ok_def)
qed

lemma insert_base:
  assumes b: "base_ok k" and n: "nolist t k" and c: "current k \<noteq> Some t"
    and m: "prio t k < 32" "number_mask (threads k t) = 2 ^ prio t k"
  shows "base_ok (rt_schedule_insert_thread t k)"
proof -
  let ?k = "rt_schedule_insert_thread t k"
  have l: "lists ?k = (lists k)(LReady (prio t k) := lists k (LReady (prio t k)) @ [t])"
    and th: "threads ?k = (threads k)(t := set_stat 1 (threads k t))"
    and g: "ready_group ?k = ready_group k OR 2 ^ prio t k"
    using c m by (simp_all add: rt_schedule_insert_thread_def Let_def prio_def)
  have "group_ok ?k" using base_okD(2) [OF b] m by (auto simp: group_ok_def l g bit_or_iff bit_2exp_u32)
  moreover have "lists_ok ?k"
    using base_okD(1) [OF b] n by (auto simp: lists_ok_def l nolist_def split: if_splits)
  moreover have "ready_ok ?k"
    using base_okD(3) [OF b] n m by (auto simp: ready_ok_def l th prio_def nolist_def split: if_splits)
  moreover have "wait_ok ?k"
    using base_okD(4) [OF b] n by (auto simp: wait_ok_def l th nolist_def)
  moreover have "mask_ok ?k"
    using base_okD(5) [OF b] m by (auto simp: mask_ok_def th prio_def)
  ultimately show ?thesis by (simp add: base_ok_def)
qed

lemma base_ok_cong:
  "threads k' = threads k \<Longrightarrow> lists k' = lists k \<Longrightarrow> ready_group k' = ready_group k \<Longrightarrow> base_ok k' = base_ok k"
  by (simp add: base_defs)

section \<open>The highest ready thread\<close>

lemma highest_ok:
  assumes "base_ok k" "ready_group k \<noteq> 0"
  obtains t ts hp where "get_highest_priority_thread k = Some (t, hp)" "lists k (LReady hp) = t # ts" "hp < 32"
    "\<forall>p < hp. lists k (LReady p) = []"
proof -
  let ?hp = "rt_ffs (ready_group k) - 1"
  note f = rt_ffs_lowest [OF assms(2)]
  have g: "\<forall>p < 32. bit (ready_group k) p \<longleftrightarrow> lists k (LReady p) \<noteq> []"
    using assms(1) by (simp add: base_ok_def group_ok_def)
  from f g have "lists k (LReady ?hp) \<noteq> []" by auto
  then obtain t ts where l: "lists k (LReady ?hp) = t # ts" by (cases "lists k (LReady ?hp)") auto
  have "\<forall>p < ?hp. lists k (LReady p) = []"
  proof (intro allI impI)
    fix p assume p: "p < ?hp"
    with f have "p < 32" "\<not> bit (ready_group k) p" by auto
    with g show "lists k (LReady p) = []" by blast
  qed
  with that [of t ?hp ts] l f show ?thesis by (simp add: get_highest_priority_thread_def)
qed

lemma not_listed:
  assumes "base_ok k" "stat_of (threads k t) \<notin> {RT_THREAD_READY, RT_THREAD_SUSPEND, RT_THREAD_CLOSE}"
  shows "nolist t k"
  unfolding nolist_def
proof
  fix l
  show "t \<notin> set (lists k l)"
    using assms(2) base_okD(3,4) [OF assms(1)] by (cases l) (auto simp: ready_ok_def wait_ok_def)
qed

lemma remove_frame [simp]:
  "threads (rt_schedule_remove_thread t k) = threads k" "current (rt_schedule_remove_thread t k) = current k"
  "lists (rt_schedule_remove_thread t k) = (\<lambda>l. removeAll t (lists k l))"
  "lock_nest (rt_schedule_remove_thread t k) = lock_nest k" "timers (rt_schedule_remove_thread t k) = timers k"
  "timer_list (rt_schedule_remove_thread t k) = timer_list k" "rt_tick (rt_schedule_remove_thread t k) = rt_tick k"
  "irq_nest (rt_schedule_remove_thread t k) = irq_nest k"
  by (simp_all add: rt_schedule_remove_thread_def Let_def)

lemma insert_frame [simp]:
  "current (rt_schedule_insert_thread t k) = current k" "lock_nest (rt_schedule_insert_thread t k) = lock_nest k"
  "timers (rt_schedule_insert_thread t k) = timers k" "timer_list (rt_schedule_insert_thread t k) = timer_list k"
  "rt_tick (rt_schedule_insert_thread t k) = rt_tick k" "irq_nest (rt_schedule_insert_thread t k) = irq_nest k"
  by (simp_all add: rt_schedule_insert_thread_def Let_def)

lemma insert_other:
  assumes "current k \<noteq> Some t"
  shows "threads (rt_schedule_insert_thread t k) = (threads k)(t := set_stat 1 (threads k t))"
    and "lists (rt_schedule_insert_thread t k) = (lists k)(LReady (prio t k) := lists k (LReady (prio t k)) @ [t])"
  using assms by (simp_all add: rt_schedule_insert_thread_def Let_def prio_def)

lemma insert_current:
  "current k = Some t \<Longrightarrow> rt_schedule_insert_thread t k = upd_thread t (set_stat RT_THREAD_RUNNING) k"
  by (simp add: rt_schedule_insert_thread_def)

lemma clear_yield_stat [simp]: "stat_of (th\<lparr>stat := stat th AND NOT 8\<rparr>) = stat_of th"
proof -
  have "(stat th AND NOT 8) AND 7 = stat th AND 7"
    by (simp add: ac_simps)
  then show ?thesis by (simp add: stat_of_def)
qed

section \<open>Scheduling keeps the invariant and picks the most urgent thread\<close>

text \<open>What a finished scheduling decision promises.\<close>

definition scheduled :: "kernel \<Rightarrow> bool" where
  "scheduled k \<longleftrightarrow> (\<exists>c. current k = Some c \<and> stat_of (threads k c) = RT_THREAD_RUNNING
     \<and> (\<forall>p t. t \<in> set (lists k (LReady p)) \<longrightarrow> prio c k \<le> p))"

lemma schedule_stay:
  assumes s: "sched_ok k" and c: "current k = Some c" "stat_of (threads k c) = RT_THREAD_RUNNING"
    and hp: "prio c k \<le> hp" "\<forall>p < hp. lists k (LReady p) = []"
  shows "sched_ok (upd_thread c (set_stat RT_THREAD_RUNNING) (rt_schedule_remove_thread c k))"
    and "scheduled (upd_thread c (set_stat RT_THREAD_RUNNING) (rt_schedule_remove_thread c k))"
proof -
  let ?k = "upd_thread c (set_stat RT_THREAD_RUNNING) (rt_schedule_remove_thread c k)"
  from s have b: "base_ok k" and so: "stat_ok k" by (simp_all add: sched_ok_def)
  have st: "started (threads k c)" using c by (simp add: started_def)
  have m: "prio c k < 32" "number_mask (threads k c) = 2 ^ prio c k"
    using base_okD(5) [OF b] st by (simp_all add: mask_ok_def)
  have n: "nolist c k" using b c by (intro not_listed) auto
  then have l: "lists ?k = lists k" by (auto simp: nolist_def removeAll_id)
  have "base_ok ?k" using m by (intro upd_thread_base remove_base [OF b st]) (auto simp: prio_def)
  moreover have "stat_ok ?k"
    unfolding stat_ok_def
  proof
    fix u
    have su: "(stat_of (threads k u) = 1 \<longrightarrow> u \<in> set (lists k (LReady (prio u k)))) \<and>
        (stat_of (threads k u) = 3 \<longrightarrow> current k = Some u) \<and> (current k = Some u \<longrightarrow> stat_of (threads k u) \<noteq> 1)"
      using so [unfolded stat_ok_def] by (rule spec)
    have p: "prio u ?k = prio u k" by (simp add: prio_def)
    show "(stat_of (threads ?k u) = 1 \<longrightarrow> u \<in> set (lists ?k (LReady (prio u ?k)))) \<and>
        (stat_of (threads ?k u) = 3 \<longrightarrow> current ?k = Some u) \<and> (current ?k = Some u \<longrightarrow> stat_of (threads ?k u) \<noteq> 1)"
    proof (cases "u = c")
      case True
      with c show ?thesis by simp
    next
      case False
      with su c(1) show ?thesis unfolding l p by simp
    qed
  qed
  ultimately show "sched_ok ?k" by (simp add: sched_ok_def)
  have "prio c k \<le> p" if "t \<in> set (lists k (LReady p))" for p t
    using hp that by (metis empty_iff empty_set le_trans not_less)
  then show "scheduled ?k" using c by (auto simp: scheduled_def l prio_def)
qed

lemma schedule_switch:
  assumes s: "sched_ok k" and c: "current k = Some c" and t: "lists k (LReady hp) = t # ts"
    and hp: "hp < 32" "\<forall>p < hp. lists k (LReady p) = []"
    and r: "need \<longleftrightarrow> stat_of (threads k c) = RT_THREAD_RUNNING" "need \<Longrightarrow> hp \<le> prio c k"
    and k1: "k1 = (if need then upd_thread c (\<lambda>th. th\<lparr>stat := stat th AND NOT 8\<rparr>) k else k)"
    and k2: "k2 = k1\<lparr>rt_current_priority := q, current := Some t\<rparr>"
    and k3: "k3 = (if need then rt_schedule_insert_thread c k2 else k2)"
    and k5: "k5 = upd_thread t (set_stat RT_THREAD_RUNNING) (rt_schedule_remove_thread t k3)"
  shows "sched_ok k5 \<and> scheduled k5"
proof -
  from s have b: "base_ok k" and so: "stat_ok k" by (simp_all add: sched_ok_def)
  have tin: "t \<in> set (lists k (LReady hp))" using t by simp
  then have tr: "prio t k = hp" "stat_of (threads k t) = RT_THREAD_READY"
    using base_okD(3) [OF b] by (auto simp: ready_ok_def)
  have tc: "t \<noteq> c" using so c tr by (auto simp: stat_ok_def)
  have cm: "need \<Longrightarrow> prio c k < 32 \<and> number_mask (threads k c) = 2 ^ prio c k \<and> nolist c k"
    using base_okD(5) [OF b] r(1) not_listed [OF b, of c] by (auto simp: mask_ok_def started_def)
  have b1: "base_ok k1" unfolding k1 using b cm by (auto intro!: upd_thread_base simp: prio_def started_def)
  then have b2: "base_ok k2" unfolding k2 by (subst base_ok_cong [of _ k1]) simp_all
  have th2: "threads k2 = (if need then (threads k)(c := (threads k c)\<lparr>stat := stat (threads k c) AND NOT 8\<rparr>) else threads k)"
    and l2: "lists k2 = lists k" and c2: "current k2 = Some t" by (simp_all add: k1 k2)
  have p2: "prio c k2 = prio c k" by (simp add: prio_def th2)
  have b3: "base_ok k3"
    unfolding k3 using b2 cm tc c2 by (auto intro!: insert_base simp: nolist_def l2 p2) (simp_all add: th2 p2)
  have th3: "threads k3 = (if need then (threads k)(c := set_stat 1 ((threads k c)\<lparr>stat := stat (threads k c) AND NOT 8\<rparr>)) else threads k)"
    and l3: "lists k3 = (if need then (lists k)(LReady (prio c k) := lists k (LReady (prio c k)) @ [c]) else lists k)"
    and c3: "current k3 = Some t"
    using c2 tc insert_other [of k2 c] by (simp_all add: k3 th2 l2 p2)
  have st: "started (threads k3 t)" using tr tc by (simp add: th3 started_def)
  have t5: "threads k5 = (threads k3)(t := set_stat 3 (threads k3 t))" and c5: "current k5 = Some t"
    and l5: "lists k5 = (\<lambda>l. removeAll t (lists k3 l))" by (simp_all add: k5 c3)
  have "base_ok k5"
    unfolding k5 using base_okD(5) [OF b3] st
    by (intro upd_thread_base remove_base [OF b3 st]) (auto simp: mask_ok_def prio_def)
  moreover have "stat_ok k5"
    unfolding stat_ok_def
  proof (intro allI conjI impI)
    fix u
    have so_u: "stat_of (threads k u) = RT_THREAD_READY \<Longrightarrow> u \<in> set (lists k (LReady (prio u k)))"
      "stat_of (threads k u) = RT_THREAD_RUNNING \<Longrightarrow> u = c"
      using so c by (auto simp: stat_ok_def)
    have pu: "prio u k5 = prio u k" using tc by (auto simp: prio_def t5 th3)
    show "u \<in> set (lists k5 (LReady (prio u k5)))" if "stat_of (threads k5 u) = RT_THREAD_READY"
      using that so_u(1) tc r(1) by (auto simp: t5 th3 l5 l3 pu split: if_splits)
    show "current k5 = Some u" if "stat_of (threads k5 u) = RT_THREAD_RUNNING"
      using that so_u(2) tc r(1) by (auto simp: t5 th3 c5 split: if_splits)
    show "stat_of (threads k5 u) \<noteq> RT_THREAD_READY" if "current k5 = Some u" using that by (auto simp: t5 c5)
  qed
  moreover have "scheduled k5"
    unfolding scheduled_def
  proof (intro exI [of _ t] conjI allI impI)
    show "current k5 = Some t" by (rule c5)
    show "stat_of (threads k5 t) = RT_THREAD_RUNNING" by (simp add: t5)
    fix p u assume "u \<in> set (lists k5 (LReady p))"
    then have "lists k (LReady p) \<noteq> [] \<or> need \<and> p = prio c k" by (auto simp: l5 l3 split: if_splits)
    then have "hp \<le> p" using hp(2) r(2) by (metis not_less)
    moreover have "prio t k5 = hp" using tr tc by (simp add: prio_def t5 th3)
    ultimately show "prio t k5 \<le> p" by simp
  qed
  ultimately show ?thesis by (simp add: sched_ok_def)
qed

lemma rt_schedule_ok:
  assumes s: "sched_ok k" and c: "current k \<noteq> None"
  shows "\<exists>k'. rt_schedule k = Some k' \<and> sched_ok k' \<and> (lock_nest k = 0 \<and> ready_group k \<noteq> 0 \<longrightarrow> scheduled k')
    \<and> (lock_nest k \<noteq> 0 \<or> ready_group k = 0 \<longrightarrow> k' = k) \<and> lock_nest k' = lock_nest k"
proof (cases "lock_nest k = 0 \<and> ready_group k \<noteq> 0")
  case False
  with s show ?thesis by (auto simp: rt_schedule_def)
next
  case True
  from s have b: "base_ok k" by (simp add: sched_ok_def)
  from c obtain c where cur: "current k = Some c" by auto
  from highest_ok [OF b] True obtain t ts hp where
    h: "get_highest_priority_thread k = Some (t, hp)" "lists k (LReady hp) = t # ts" "hp < 32"
    "\<forall>p < hp. lists k (LReady p) = []" by metis
  let ?run = "stat_of (threads k c) = RT_THREAD_RUNNING"
  let ?stay = "?run \<and> (prio c k < hp \<or> prio c k = hp \<and> stat (threads k c) AND RT_THREAD_STAT_YIELD = 0)"
  have "t \<in> set (lists k (LReady hp))" using h(2) by simp
  then have "stat_of (threads k t) = RT_THREAD_READY" using base_okD(3) [OF b] by (auto simp: ready_ok_def)
  with s cur have tc: "t \<noteq> c" by (auto simp: sched_ok_def stat_ok_def)
  show ?thesis
  proof (cases ?stay)
    case True
    then have "schedule_choice c t hp k = (c, False, k)" by (auto simp: schedule_choice_def prio_def)
    with \<open>lock_nest k = 0 \<and> ready_group k \<noteq> 0\<close> h(1) cur
    have "rt_schedule k = Some (upd_thread c (set_stat RT_THREAD_RUNNING) (rt_schedule_remove_thread c k))"
      by (simp add: rt_schedule_def)
    with schedule_stay [OF s cur _ _ h(4)] True \<open>lock_nest k = 0 \<and> ready_group k \<noteq> 0\<close> show ?thesis by auto
  next
    case False
    let ?k1 = "if ?run then upd_thread c (\<lambda>th. th\<lparr>stat := stat th AND NOT 8\<rparr>) k else k"
    have ch: "schedule_choice c t hp k = (t, ?run, ?k1)"
      using False by (auto simp: schedule_choice_def prio_def)
    let ?k2 = "?k1\<lparr>rt_current_priority := of_nat hp, current := Some t\<rparr>"
    let ?k3 = "if ?run then rt_schedule_insert_thread c ?k2 else ?k2"
    let ?k5 = "upd_thread t (set_stat RT_THREAD_RUNNING) (rt_schedule_remove_thread t ?k3)"
    have "rt_schedule k = Some ?k5"
      using \<open>lock_nest k = 0 \<and> ready_group k \<noteq> 0\<close> h(1) cur ch tc by (simp add: rt_schedule_def)
    moreover have "sched_ok ?k5 \<and> scheduled ?k5"
      using False by (intro schedule_switch [OF s cur h(2,3,4) refl _ refl refl refl refl]) auto
    moreover have "lock_nest ?k5 = lock_nest k" by simp
    ultimately show ?thesis using \<open>lock_nest k = 0 \<and> ready_group k \<noteq> 0\<close> by blast
  qed
qed

section \<open>Working on one thread\<close>

text \<open>While an operation works on one thread, the others keep their part of the invariant.\<close>

definition own_ok :: "nat \<Rightarrow> kernel \<Rightarrow> bool" where
  "own_ok t k \<longleftrightarrow> (stat_of (threads k t) = RT_THREAD_READY \<longrightarrow> t \<in> set (lists k (LReady (prio t k))))
     \<and> (stat_of (threads k t) = RT_THREAD_RUNNING \<longrightarrow> current k = Some t)
     \<and> (current k = Some t \<longrightarrow> stat_of (threads k t) \<noteq> RT_THREAD_READY)"

definition others_ok :: "nat \<Rightarrow> kernel \<Rightarrow> bool" where
  "others_ok t k \<longleftrightarrow> (\<forall>u. u \<noteq> t \<longrightarrow> own_ok u k)"

lemma sched_ok_split: "sched_ok k \<longleftrightarrow> base_ok k \<and> others_ok t k \<and> own_ok t k"
  by (auto simp: sched_ok_def stat_ok_def others_ok_def own_ok_def)

lemma sched_okD:
  assumes "sched_ok k"
  shows "base_ok k" "others_ok t k" "own_ok t k"
  using assms by (simp_all add: sched_ok_split [of k t])

lemma sched_ok_cong:
  "threads k' = threads k \<Longrightarrow> lists k' = lists k \<Longrightarrow> ready_group k' = ready_group k \<Longrightarrow> current k' = current k \<Longrightarrow>
    sched_ok k' = sched_ok k"
  by (simp add: sched_ok_def stat_ok_def base_defs)

lemma others_upd [intro]: "others_ok t k \<Longrightarrow> others_ok t (upd_thread t f k)"
  by (auto simp: others_ok_def own_ok_def prio_def)

lemma others_remove [intro]:
  "others_ok t k \<Longrightarrow> others_ok t (rt_schedule_remove_thread t k)"
  "others_ok t k \<Longrightarrow> others_ok t (tlist_remove t k)"
  by (auto simp: others_ok_def own_ok_def prio_def)

lemma others_list_insert [intro]:
  "others_ok t k \<Longrightarrow> others_ok t (tlist_insert_before l t k)"
  "others_ok t k \<Longrightarrow> others_ok t (tlist_insert_after l t k)"
  by (auto simp: others_ok_def own_ok_def prio_def)

lemma others_insert [intro]: "others_ok t k \<Longrightarrow> others_ok t (rt_schedule_insert_thread t k)"
  by (auto simp: others_ok_def own_ok_def prio_def rt_schedule_insert_thread_def Let_def)

lemma nolist_upd [simp]: "nolist u (upd_thread t f k) = nolist u k"
  by (simp add: nolist_def)

lemma nolist_removed [simp]: "nolist t (tlist_remove t k)" "nolist t (rt_schedule_remove_thread t k)"
  by (simp_all add: nolist_def)

text \<open>Taking a suspended thread out of whatever waiting list it is in.\<close>

lemma tlist_remove_base:
  assumes b: "base_ok k" and s: "stat_of (threads k t) \<noteq> RT_THREAD_READY"
  shows "base_ok (tlist_remove t k)"
proof -
  have "t \<notin> set (lists k (LReady p))" for p using base_okD(3) [OF b] s by (auto simp: ready_ok_def)
  then have l: "removeAll t (lists k (LReady p)) = lists k (LReady p)" for p by (simp add: removeAll_id)
  show ?thesis using b by (auto simp: base_defs l distinct_removeAll)
qed

text \<open>Making a thread ready that is in no list.\<close>

lemma insert_sched:
  assumes b: "base_ok k" and o: "others_ok t k" and n: "nolist t k"
    and m: "prio t k < 32" "number_mask (threads k t) = 2 ^ prio t k"
  shows "sched_ok (rt_schedule_insert_thread t k)"
proof (cases "current k = Some t")
  case True
  have "base_ok (upd_thread t (set_stat RT_THREAD_RUNNING) k)"
    using b n m by (intro upd_thread_base) (auto simp: prio_def)
  moreover have "own_ok t (upd_thread t (set_stat RT_THREAD_RUNNING) k)" using True by (simp add: own_ok_def)
  ultimately show ?thesis
    unfolding insert_current [OF True] sched_ok_split [of _ t] using o by blast
next
  case False
  have "own_ok t (rt_schedule_insert_thread t k)"
    using False insert_other [OF False] by (simp add: own_ok_def prio_def)
  with insert_base [OF b n False m] o show ?thesis unfolding sched_ok_split [of _ t] by blast
qed

text \<open>Taking a started thread away from the processor: it gets a status that is neither ready nor running.\<close>

lemma remove_sched:
  assumes s: "sched_ok k" and st: "started (threads k t)"
    and f: "stat_of (f (threads k t)) \<notin> {RT_THREAD_READY, RT_THREAD_RUNNING}"
      "current_priority (f (threads k t)) = current_priority (threads k t)"
      "number_mask (f (threads k t)) = number_mask (threads k t)"
  shows "sched_ok (upd_thread t f (rt_schedule_remove_thread t k))"
proof -
  note b = sched_okD(1) [OF s]
  have "prio t k < 32" "number_mask (threads k t) = 2 ^ prio t k"
    using base_okD(5) [OF b] st by (simp_all add: mask_ok_def)
  then have "base_ok (upd_thread t f (rt_schedule_remove_thread t k))"
    using f by (intro upd_thread_base remove_base [OF b st]) (auto simp: prio_def)
  moreover have "own_ok t (upd_thread t f (rt_schedule_remove_thread t k))" using f by (simp add: own_ok_def)
  ultimately show ?thesis unfolding sched_ok_split [of _ t] using sched_okD(2) [OF s, of t] by blast
qed

text \<open>Putting a suspended or closed thread that is in no list into a waiting or the defunct list.\<close>

definition list_stat :: "lhead \<Rightarrow> u8 \<Rightarrow> bool" where
  "list_stat l v \<longleftrightarrow> (case l of LReady _ \<Rightarrow> False | LDefunct \<Rightarrow> v = RT_THREAD_CLOSE | _ \<Rightarrow> v = RT_THREAD_SUSPEND)"

lemma list_insert_sched:
  assumes s: "sched_ok k" and n: "nolist t k" and l: "list_stat l (stat_of (threads k t))"
    and d: "set xs = insert t (set (lists k l))" "distinct xs"
  shows "sched_ok (k\<lparr>lists := (lists k)(l := xs)\<rparr>)"
proof -
  note b = sched_okD(1) [OF s]
  have r: "l \<noteq> LReady p" "LReady p \<noteq> l" for p using l by (auto simp: list_stat_def)
  let ?k = "k\<lparr>lists := (lists k)(l := xs)\<rparr>"
  have "lists_ok ?k" using base_okD(1) [OF b] n d by (auto simp: lists_ok_def nolist_def)
  moreover have "group_ok ?k" "ready_ok ?k" "mask_ok ?k"
    using base_okD(2,3,5) [OF b] r by (simp_all add: group_ok_def ready_ok_def mask_ok_def prio_def)
  moreover have "wait_ok ?k"
    using base_okD(4) [OF b] l d by (cases l) (auto simp: wait_ok_def list_stat_def)
  moreover have "stat_ok ?k" using s r by (simp add: sched_ok_def stat_ok_def prio_def)
  ultimately show ?thesis by (simp add: sched_ok_def base_ok_def)
qed

section \<open>What scheduling leaves alone\<close>

lemma insert_lists: "l \<noteq> LReady (prio t k) \<Longrightarrow> lists (rt_schedule_insert_thread t k) l = lists k l"
  by (simp add: rt_schedule_insert_thread_def Let_def prio_def)

lemma insert_threads: "u \<noteq> t \<Longrightarrow> threads (rt_schedule_insert_thread t k) u = threads k u"
  "\<exists>v. threads (rt_schedule_insert_thread t k) t = (threads k t)\<lparr>stat := v\<rparr>"
  by (auto simp: rt_schedule_insert_thread_def Let_def set_stat_def)

text \<open>Scheduling only touches ready and running threads, of those only the status, and only ready lists.\<close>

lemma schedule_frame:
  assumes s: "sched_ok k" and r: "rt_schedule k = Some k'"
  shows "timers k' = timers k" "timer_list k' = timer_list k" "rt_tick k' = rt_tick k" "irq_nest k' = irq_nest k"
    "lock_nest k' = lock_nest k" "\<exists>v. threads k' t = (threads k t)\<lparr>stat := v\<rparr>"
    "stat_of (threads k t) \<notin> {RT_THREAD_READY, RT_THREAD_RUNNING} \<Longrightarrow> threads k' t = threads k t"
    "\<forall>p. l \<noteq> LReady p \<Longrightarrow> lists k' l = lists k l"
proof -
  have self: "\<exists>v. th = th\<lparr>stat := v\<rparr>" for th :: thread by (rule exI [of _ "stat th"]) simp
  have "timers k' = timers k \<and> timer_list k' = timer_list k \<and> rt_tick k' = rt_tick k \<and> irq_nest k' = irq_nest k
    \<and> lock_nest k' = lock_nest k \<and> (\<exists>v. threads k' t = (threads k t)\<lparr>stat := v\<rparr>)
    \<and> (stat_of (threads k t) \<notin> {RT_THREAD_READY, RT_THREAD_RUNNING} \<longrightarrow> threads k' t = threads k t)
    \<and> ((\<forall>p. l \<noteq> LReady p) \<longrightarrow> lists k' l = lists k l)"
  proof (cases "lock_nest k = 0 \<and> ready_group k \<noteq> 0")
    case False
    with r have "k' = k" by (auto simp: rt_schedule_def split: if_splits)
    with self show ?thesis by simp
  next
    case True
    note b = sched_okD(1) [OF s]
    from highest_ok [OF b] True obtain t0 ts hp where
      h: "get_highest_priority_thread k = Some (t0, hp)" "lists k (LReady hp) = t0 # ts" by metis
    have "t0 \<in> set (lists k (LReady hp))" using h(2) by simp
    then have t0: "stat_of (threads k t0) = RT_THREAD_READY" and t0l: "\<forall>l. (\<forall>p. l \<noteq> LReady p) \<longrightarrow> t0 \<notin> set (lists k l)"
      using base_okD(1,3) [OF b] unfolding ready_ok_def lists_ok_def by blast+
    from r True h obtain c where c: "current k = Some c" by (auto simp: rt_schedule_def bind_Some_iff)
    have nc: "t0 \<noteq> c" using sched_okD(3) [OF s, of c] c t0 by (auto simp: own_ok_def)
    show ?thesis
    proof (cases "stat_of (threads k c) = RT_THREAD_RUNNING")
      case run: True
      then have "nolist c k" using b by (intro not_listed) auto
      then have cl: "removeAll c (lists k l) = lists k l" for l by (simp add: nolist_def removeAll_id)
      show ?thesis
        using r True h c nc t0 t0l run cl self
        by (auto simp: rt_schedule_def schedule_choice_def Let_def rt_schedule_insert_thread_def set_stat_def removeAll_id
            split: if_splits)
    next
      case False
      then show ?thesis
        using r True h c nc t0 t0l self
        by (auto simp: rt_schedule_def schedule_choice_def Let_def set_stat_def removeAll_id)
    qed
  qed
  then show "timers k' = timers k" "timer_list k' = timer_list k" "rt_tick k' = rt_tick k" "irq_nest k' = irq_nest k"
    "lock_nest k' = lock_nest k" "\<exists>v. threads k' t = (threads k t)\<lparr>stat := v\<rparr>"
    "stat_of (threads k t) \<notin> {RT_THREAD_READY, RT_THREAD_RUNNING} \<Longrightarrow> threads k' t = threads k t"
    "\<forall>p. l \<noteq> LReady p \<Longrightarrow> lists k' l = lists k l"
    by blast+
qed

text \<open>A ready or running thread stays one.\<close>

lemma schedule_alive:
  assumes s: "sched_ok k" and r: "rt_schedule k = Some k'"
    and a: "stat_of (threads k t) = RT_THREAD_READY \<or> stat_of (threads k t) = RT_THREAD_RUNNING"
  shows "stat_of (threads k' t) = RT_THREAD_READY \<or> stat_of (threads k' t) = RT_THREAD_RUNNING"
proof (cases "lock_nest k = 0 \<and> ready_group k \<noteq> 0")
  case False
  with r a show ?thesis by (auto simp: rt_schedule_def split: if_splits)
next
  case True
  with r obtain c to0 hp where "current k = Some c" "get_highest_priority_thread k = Some (to0, hp)"
    by (auto simp: rt_schedule_def bind_Some_iff)
  with True r a sched_okD(3) [OF s, of t] show ?thesis
    by (auto simp: rt_schedule_def schedule_choice_def Let_def rt_schedule_insert_thread_def own_ok_def split: if_splits)
qed

section \<open>Starting the scheduler\<close>

lemma scheduler_start_ok:
  assumes s: "sched_ok k" and c: "current k = None" and g: "ready_group k \<noteq> 0"
  shows "\<exists>k'. rt_system_scheduler_start k = Some k' \<and> sched_ok k' \<and> scheduled k'"
proof -
  note b = sched_okD(1) [OF s]
  from highest_ok [OF b g] obtain t ts hp where h: "get_highest_priority_thread k = Some (t, hp)"
    "lists k (LReady hp) = t # ts" "hp < 32" "\<forall>p < hp. lists k (LReady p) = []" by metis
  have "t \<in> set (lists k (LReady hp))" using h(2) by simp
  then have r: "prio t k = hp" "stat_of (threads k t) = RT_THREAD_READY"
    using base_okD(3) [OF b] by (auto simp: ready_ok_def)
  let ?k1 = "k\<lparr>current := Some t\<rparr>"
  let ?f = "\<lambda>th. th\<lparr>stat := RT_THREAD_RUNNING\<rparr>"
  let ?k' = "upd_thread t ?f (rt_schedule_remove_thread t ?k1)"
  have st: "started (threads ?k1 t)" using r by (simp add: started_def)
  have b1: "base_ok ?k1" using b by (subst base_ok_cong [of _ k]) simp_all
  have "prio t k < 32" "number_mask (threads k t) = 2 ^ prio t k"
    using base_okD(5) [OF b] st by (simp_all add: mask_ok_def)
  then have "base_ok ?k'" by (intro upd_thread_base remove_base [OF b1 st]) (auto simp: prio_def)
  moreover have "own_ok u ?k'" for u
  proof (cases "u = t")
    case False
    then show ?thesis using sched_okD(3) [OF s, of u] c by (auto simp: own_ok_def prio_def)
  qed (simp add: own_ok_def stat_of_def)
  ultimately have "sched_ok ?k'" by (simp add: sched_ok_split [of _ t] others_ok_def)
  moreover have "scheduled ?k'"
    unfolding scheduled_def
  proof (intro exI [of _ t] conjI allI impI)
    fix p u assume "u \<in> set (lists ?k' (LReady p))"
    then have "lists k (LReady p) \<noteq> []" by auto
    with h(4) show "prio t ?k' \<le> p" using r by (simp add: prio_def) (metis not_less)
  qed (simp_all add: stat_of_def)
  ultimately show ?thesis using h(1) by (simp add: rt_system_scheduler_start_def)
qed

section \<open>Threads of equal priority\<close>

lemma round_robin:
  assumes "sched_ok k" "lock_nest k = 0" "current k = Some c" "stat_of (threads k c) = RT_THREAD_RUNNING"
    "lists k (LReady (prio c k)) = t # ts" "\<forall>p < prio c k. lists k (LReady p) = []"
  shows "\<exists>k'. rt_schedule k = Some k'
    \<and> (stat (threads k c) AND RT_THREAD_STAT_YIELD = 0 \<longrightarrow> current k' = Some c \<and> lists k' (LReady (prio c k)) = t # ts)
    \<and> (stat (threads k c) AND RT_THREAD_STAT_YIELD \<noteq> 0 \<longrightarrow> current k' = Some t \<and> lists k' (LReady (prio c k)) = ts @ [c]
        \<and> stat (threads k' c) AND RT_THREAD_STAT_YIELD = 0)"
proof -
  note b = sched_okD(1) [OF assms(1)]
  let ?hp = "prio c k"
  have tin: "t \<in> set (lists k (LReady ?hp))" using assms(5) by simp
  then have r: "?hp < 32" "prio t k = ?hp" "stat_of (threads k t) = RT_THREAD_READY"
    using base_okD(3) [OF b] by (auto simp: ready_ok_def)
  have g: "ready_group k \<noteq> 0"
    using base_okD(2) [OF b] r(1) assms(5) by (auto simp: group_ok_def)
  from highest_ok [OF b g] obtain t' ts' hp where h: "get_highest_priority_thread k = Some (t', hp)"
    "lists k (LReady hp) = t' # ts'" "\<forall>p < hp. lists k (LReady p) = []" by metis
  have "hp = ?hp" using h(2,3) assms(5,6) by (metis linorder_neqE_nat list.distinct(1))
  with h assms(5) have h: "get_highest_priority_thread k = Some (t, ?hp)" by simp
  have tc: "t \<noteq> c" using r(3) assms(4) by auto
  have d: "distinct (t # ts)" using base_okD(1) [OF b] assms(5) by (metis lists_ok_def)
  have n: "nolist c k" using b assms(4) by (intro not_listed) auto
  then have cn: "removeAll c (lists k l) = lists k l" for l by (simp add: nolist_def removeAll_id)
  have y: "stat (set_stat 1 (th\<lparr>stat := stat th AND - 9\<rparr>)) AND 8 = 0" for th :: thread
    by (simp add: set_stat_def bit.conj_disj_distrib2 and.assoc)
  show ?thesis
  proof (cases "stat (threads k c) AND 8 = 0")
    case True
    then have "schedule_choice c t ?hp k = (c, False, k)" using assms(4) by (simp add: schedule_choice_def prio_def)
    with True h assms g show ?thesis by (simp add: rt_schedule_def cn)
  next
    case False
    let ?k1 = "upd_thread c (\<lambda>th. th\<lparr>stat := stat th AND NOT 8\<rparr>) k"
    have ch: "schedule_choice c t ?hp k = (t, True, ?k1)"
      using False assms(4) by (simp add: schedule_choice_def prio_def)
    have "removeAll t (ts @ [c]) = ts @ [c]" using d tc by (intro removeAll_id) auto
    with False h assms g ch tc r(2) show ?thesis
      by (simp add: rt_schedule_def rt_schedule_insert_thread_def Let_def prio_def y)
  qed
qed

section \<open>Critical sections\<close>

lemma enter_n:
  "(rt_enter_critical ^^ n) k = k\<lparr>lock_nest := lock_nest k + of_nat n\<rparr>"
proof (induction n)
  case (Suc n)
  have "(rt_enter_critical ^^ Suc n) k = rt_enter_critical ((rt_enter_critical ^^ n) k)" by simp
  also have "\<dots> = k\<lparr>lock_nest := lock_nest k + of_nat (Suc n)\<rparr>"
    unfolding Suc by (simp add: rt_enter_critical_def ac_simps)
  finally show ?case .
qed simp

primrec exit_n :: "nat \<Rightarrow> kernel \<Rightarrow> kernel option" where
  "exit_n 0 k = Some k"
| "exit_n (Suc n) k = rt_exit_critical k \<bind> exit_n n"

lemma sint_small: "n < 32768 \<Longrightarrow> sint (of_nat n :: 16 word) = int n"
  by (simp add: signed_of_nat signed_take_bit_int_eq_self)

lemma of_nat_nz: "0 < n \<Longrightarrow> n < 32768 \<Longrightarrow> (of_nat n :: 16 word) \<noteq> 0"
  using sint_small [of n] by (metis of_nat_0_eq_iff not_less_zero sint_0)

lemma exit_inner:
  assumes "lock_nest k = of_nat (Suc (Suc n))" "Suc (Suc n) < 32768"
  shows "rt_exit_critical k = Some (k\<lparr>lock_nest := of_nat (Suc n)\<rparr>)"
proof -
  have l: "lock_nest k - 1 = of_nat (Suc n)" using assms(1) by simp
  have "sint (of_nat (Suc n) :: 16 word) = int (Suc n)" using assms(2) by (intro sint_small) simp
  then show ?thesis unfolding rt_exit_critical_def Let_def l by simp
qed

lemma exit_outer:
  assumes "lock_nest k = 1" "current k \<noteq> None"
  shows "rt_exit_critical k = rt_schedule (k\<lparr>lock_nest := 0\<rparr>)"
  using assms by (simp add: rt_exit_critical_def)

lemma exit_n_schedules:
  "lock_nest k = of_nat (Suc n) \<Longrightarrow> Suc n < 32768 \<Longrightarrow> current k \<noteq> None \<Longrightarrow>
    exit_n (Suc n) k = rt_schedule (k\<lparr>lock_nest := 0\<rparr>)"
proof (induction n arbitrary: k)
  case 0
  have "rt_schedule (k\<lparr>lock_nest := 0\<rparr>) \<bind> exit_n 0 = rt_schedule (k\<lparr>lock_nest := 0\<rparr>)"
    by (cases "rt_schedule (k\<lparr>lock_nest := 0\<rparr>)") simp_all
  with 0 show ?case by (simp add: exit_outer)
next
  case (Suc n)
  then have "exit_n (Suc (Suc n)) k = exit_n (Suc n) (k\<lparr>lock_nest := of_nat (Suc n)\<rparr>)"
    by (simp only: exit_n.simps(2) [of "Suc n"] exit_inner [OF Suc.prems(1,2)] Option.bind.simps)
  also have "\<dots> = rt_schedule (k\<lparr>lock_nest := of_nat (Suc n), lock_nest := 0\<rparr>)"
    using Suc.prems by (intro Suc.IH) simp_all
  finally show ?case by simp
qed

section \<open>Properties\<close>

text \<open>C4: Scheduling is right. In every consistent state with a current thread, \<^verbatim>\<open>rt_schedule\<close> returns and
  keeps the kernel's invariant; with the scheduler unlocked and some thread ready, afterwards the current
  thread is running and no ready thread has a higher priority; when the scheduler is locked, or no thread is
  ready, nothing changes.\<close>

theorem schedule_most_urgent:
  assumes "sched_ok k" "current k \<noteq> None"
  shows "\<exists>k'. rt_schedule k = Some k' \<and> sched_ok k'
    \<and> (lock_nest k = 0 \<and> ready_group k \<noteq> 0 \<longrightarrow>
        (\<exists>c. current k' = Some c \<and> stat_of (threads k' c) = RT_THREAD_RUNNING
          \<and> (\<forall>p t. t \<in> set (lists k' (LReady p)) \<longrightarrow> prio c k' \<le> p)))
    \<and> (lock_nest k \<noteq> 0 \<or> ready_group k = 0 \<longrightarrow> k' = k)"
  using rt_schedule_ok [OF assms] unfolding scheduled_def by blast

text \<open>A running thread of priority 10 and a ready thread of priority 5.\<close>

definition two_threads :: "u8 \<Rightarrow> u8 \<Rightarrow> u8 \<Rightarrow> kernel" where
  "two_threads p q st =
    (let th = \<lparr>stat = 0, current_priority = 0, init_priority = 0, number_mask = 0, init_tick = 5, remaining_tick = 5,
               t_error = 0, is_static = False, has_cleanup = False, event_set = 0, event_info = 0\<rparr>
     in \<lparr>threads = (\<lambda>_. th)(0 := th\<lparr>stat := st, current_priority := p, init_priority := p, number_mask := 2 ^ unat p\<rparr>,
                          1 := th\<lparr>stat := 1, current_priority := q, init_priority := q, number_mask := 2 ^ unat q\<rparr>),
         lists = (\<lambda>_. [])(LReady (unat q) := [1]), ready_group = 2 ^ unat q, current = Some 0,
         rt_current_priority = p, lock_nest = 0, irq_nest = 0,
         timers = \<lambda>_. \<lparr>tm_active = False, tm_periodic = False, timeout_tick = 0, tm_init_tick = 0\<rparr>,
         timer_list = [], rt_tick = 0\<rparr>)"

lemma two_threads_ok:
  "unat p < 32 \<Longrightarrow> unat q < 32 \<Longrightarrow> stat_of (threads (two_threads p q st) 0) = 3 \<Longrightarrow> sched_ok (two_threads p q st)"
  by (auto simp: two_threads_def Let_def sched_ok_def stat_ok_def base_defs started_def stat_of_def bit_2exp_u32
      split: if_splits)

theorem schedule_most_urgent_witness:
  "\<exists>k' c. rt_schedule (two_threads 10 5 3) = Some k' \<and> current k' = Some c \<and> (\<forall>p t. t \<in> set (lists k' (LReady p)) \<longrightarrow> prio c k' \<le> p)"
proof -
  have s: "sched_ok (two_threads 10 5 3)" by (rule two_threads_ok) (simp_all add: two_threads_def Let_def stat_of_def)
  have c: "current (two_threads 10 5 3) \<noteq> None" "lock_nest (two_threads 10 5 3) = 0" "ready_group (two_threads 10 5 3) \<noteq> 0"
    by (simp_all add: two_threads_def Let_def)
  from schedule_most_urgent [OF s c(1)] c show ?thesis by blast
qed

text \<open>The time slice. A running thread without the yield flag keeps the processor against a ready
  thread of its own priority; with the flag it loses it to the first ready thread of that priority, is put
  behind all others of the priority and loses the flag.\<close>

lemma schedule_round_robin:
  assumes "sched_ok k" "lock_nest k = 0" "current k = Some c" "stat_of (threads k c) = RT_THREAD_RUNNING"
    "lists k (LReady (prio c k)) = t # ts" "\<forall>p < prio c k. lists k (LReady p) = []"
  shows "\<exists>k'. rt_schedule k = Some k'
    \<and> (stat (threads k c) AND RT_THREAD_STAT_YIELD = 0 \<longrightarrow> current k' = Some c \<and> lists k' (LReady (prio c k)) = t # ts)
    \<and> (stat (threads k c) AND RT_THREAD_STAT_YIELD \<noteq> 0 \<longrightarrow> current k' = Some t \<and> lists k' (LReady (prio c k)) = ts @ [c]
        \<and> stat (threads k' c) AND RT_THREAD_STAT_YIELD = 0)"
  using assms by (rule round_robin)

text \<open>Critical sections nest. Up to 32767 calls of \<^verbatim>\<open>rt_enter_critical\<close> lock the scheduler: no
  scheduling happens inside, and only the last of as many calls of \<^verbatim>\<open>rt_exit_critical\<close> schedules, exactly
  as \<^verbatim>\<open>rt_schedule\<close> in the state before the first call.\<close>

lemma critical_sections_nest:
  assumes "lock_nest k = 0" "current k \<noteq> None" "0 < n" "n < 32768"
  shows "rt_schedule ((rt_enter_critical ^^ n) k) = Some ((rt_enter_critical ^^ n) k)
    \<and> rt_critical_level ((rt_enter_critical ^^ n) k) = of_nat n
    \<and> exit_n n ((rt_enter_critical ^^ n) k) = rt_schedule k"
proof -
  from assms(3) obtain m where m: "n = Suc m" by (cases n) auto
  have "exit_n (Suc m) (k\<lparr>lock_nest := of_nat (Suc m)\<rparr>) = rt_schedule (k\<lparr>lock_nest := of_nat (Suc m), lock_nest := 0\<rparr>)"
    using assms m by (intro exit_n_schedules) simp_all
  also have "k\<lparr>lock_nest := of_nat (Suc m), lock_nest := 0\<rparr> = k" using assms(1) by (cases k) simp
  finally have "exit_n n (k\<lparr>lock_nest := of_nat n\<rparr>) = rt_schedule k" unfolding m .
  then show ?thesis
    unfolding enter_n using of_nat_nz [OF assms(3,4)] assms(1) by (simp add: rt_schedule_def rt_critical_level_def)
qed

end
