(* ===== verification/Timer.thy ===== *)
theory Timer
  imports Scheduler
begin

text \<open>
  RTT4/src/timer.c: the list of running timers, kept in the order in which they expire. With
  \<^verbatim>\<open>RT_TIMER_SKIP_LIST_LEVEL\<close> 1 the skip list is one sorted list, \<open>timer_list\<close>, and the random height is not
  used. Ticks are 32-bit words that wrap around: a timer is due when \<^verbatim>\<open>current_tick - timeout_tick\<close> is
  below \<^verbatim>\<open>RT_TICK_MAX / 2\<close>. \<^verbatim>\<open>rt_timer_check\<close>, which calls the timeout functions, is in theory Clock.
\<close>

section \<open>Operations\<close>

abbreviation (input) HALF_TICK :: u32 where "HALF_TICK \<equiv> 0x7fffffff"

definition rt_timer_init_obj :: "timer_id \<Rightarrow> u32 \<Rightarrow> bool \<Rightarrow> kernel \<Rightarrow> kernel" where
  "rt_timer_init_obj i time periodic k =
     upd_timer i (\<lambda>_. \<lparr>tm_active = False, tm_periodic = periodic, timeout_tick = 0, tm_init_tick = time\<rparr>) k"

definition rt_timer_remove :: "timer_id \<Rightarrow> kernel \<Rightarrow> kernel" where
  "rt_timer_remove i k = k\<lparr>timer_list := removeAll i (timer_list k)\<rparr>"

definition rt_timer_list_next_timeout :: "kernel \<Rightarrow> u32" where
  "rt_timer_list_next_timeout k =
     (case timer_list k of [] \<Rightarrow> RT_TICK_MAX | i # is \<Rightarrow> timeout_tick (timers k i))"

definition rt_timer_next_timeout_tick :: "kernel \<Rightarrow> u32" where
  "rt_timer_next_timeout_tick k = rt_timer_list_next_timeout k"

definition rt_timer_detach :: "timer_id \<Rightarrow> kernel \<Rightarrow> kernel" where
  "rt_timer_detach i k = rt_timer_remove i k"

text \<open>The search of \<^verbatim>\<open>rt_timer_start\<close> for the place of a timer with timeout tick \<open>tt\<close>, and the insertion there.\<close>

fun timer_insert :: "(timer_id \<Rightarrow> u32) \<Rightarrow> timer_id \<Rightarrow> u32 \<Rightarrow> timer_id list \<Rightarrow> timer_id list" where
  "timer_insert f i tt [] = [i]"
| "timer_insert f i tt (t # ts) =
     (if f t - tt = 0 then t # timer_insert f i tt ts
      else if f t - tt < HALF_TICK then i # t # ts
      else t # timer_insert f i tt ts)"

definition rt_timer_start :: "timer_id \<Rightarrow> kernel \<Rightarrow> kernel option" where
  "rt_timer_start i k = do {
     let k = rt_timer_remove i k;
     let k = upd_timer i (\<lambda>tm. tm\<lparr>tm_active := False\<rparr>) k;
     RT_ASSERT (tm_init_tick (timers k i) < HALF_TICK);
     let k = upd_timer i (\<lambda>tm. tm\<lparr>timeout_tick := rt_tick k + tm_init_tick tm\<rparr>) k;
     let k = k\<lparr>timer_list := timer_insert (\<lambda>t. timeout_tick (timers k t)) i (timeout_tick (timers k i)) (timer_list k)\<rparr>;
     Some (upd_timer i (\<lambda>tm. tm\<lparr>tm_active := True\<rparr>) k) }"

definition rt_timer_stop :: "timer_id \<Rightarrow> kernel \<Rightarrow> rt_err_t \<times> kernel" where
  "rt_timer_stop i k =
     (if \<not> tm_active (timers k i) then (- RT_ERROR, k)
      else (RT_EOK, upd_timer i (\<lambda>tm. tm\<lparr>tm_active := False\<rparr>) (rt_timer_remove i k)))"

datatype timer_ctrl = TIMER_GET_TIME | TIMER_SET_TIME u32 | TIMER_SET_ONESHOT | TIMER_SET_PERIODIC

text \<open>The value that \<^verbatim>\<open>RT_TIMER_CTRL_GET_TIME\<close> stores through the argument is the first result.\<close>

definition rt_timer_control :: "timer_id \<Rightarrow> timer_ctrl \<Rightarrow> kernel \<Rightarrow> u32 option \<times> kernel" where
  "rt_timer_control i cmd k =
     (case cmd of
        TIMER_GET_TIME \<Rightarrow> (Some (tm_init_tick (timers k i)), k)
      | TIMER_SET_TIME v \<Rightarrow> (None, upd_timer i (\<lambda>tm. tm\<lparr>tm_init_tick := v\<rparr>) k)
      | TIMER_SET_ONESHOT \<Rightarrow> (None, upd_timer i (\<lambda>tm. tm\<lparr>tm_periodic := False\<rparr>) k)
      | TIMER_SET_PERIODIC \<Rightarrow> (None, upd_timer i (\<lambda>tm. tm\<lparr>tm_periodic := True\<rparr>) k))"

section \<open>Order of expiry\<close>

text \<open>The distance of a timer's timeout from a base tick, on the circle of 32-bit ticks.\<close>

definition key :: "u32 \<Rightarrow> kernel \<Rightarrow> timer_id \<Rightarrow> nat" where
  "key b k i = unat (timeout_tick (timers k i) - b)"

text \<open>The timers wait in the order of their distance from the tick \<open>b\<close>, none farther than the bound.\<close>

definition sorted_from :: "u32 \<Rightarrow> nat \<Rightarrow> kernel \<Rightarrow> bool" where
  "sorted_from b m k \<longleftrightarrow> sorted (map (key b k) (timer_list k)) \<and> (\<forall>i \<in> set (timer_list k). key b k i < m)
     \<and> distinct (timer_list k) \<and> (\<forall>i \<in> set (timer_list k). tm_active (timers k i))"

lemma sorted_fromD:
  assumes "sorted_from b m k"
  shows "sorted (map (key b k) (timer_list k))" "i \<in> set (timer_list k) \<Longrightarrow> key b k i < m"
    "distinct (timer_list k)" "i \<in> set (timer_list k) \<Longrightarrow> tm_active (timers k i)"
  using assms by (simp_all add: sorted_from_def)

text \<open>Differences of ticks follow the distances.\<close>

lemma unat_neg:
  fixes w :: u32
  assumes "w \<noteq> 0"
  shows "unat (- w) = 4294967296 - unat w"
proof -
  have "unat (w + - w) = (unat w + unat (- w)) mod 4294967296" by (simp only: unat_word_ariths(1)) simp
  then have "(unat w + unat (- w)) mod 4294967296 = 0" by simp
  moreover have "0 < unat w" "unat w < 4294967296" "unat (- w) < 4294967296"
    using assms u32_bound by (simp_all add: unat_gt_0)
  ultimately show ?thesis by (cases "unat w + unat (- w) < 4294967296") (simp_all add: le_mod_geq)
qed

lemma tick_diff:
  fixes x y b :: u32
  shows "unat (y - b) \<le> unat (x - b) \<Longrightarrow> unat (x - y) = unat (x - b) - unat (y - b)"
    and "unat (x - b) < unat (y - b) \<Longrightarrow> unat (x - y) = 4294967296 - (unat (y - b) - unat (x - b))"
proof -
  have e: "x - y = (x - b) - (y - b)" by simp
  show "unat (x - y) = unat (x - b) - unat (y - b)" if "unat (y - b) \<le> unat (x - b)"
    unfolding e using that by (intro unat_sub) (simp add: word_le_nat_alt)
  show "unat (x - y) = 4294967296 - (unat (y - b) - unat (x - b))" if l: "unat (x - b) < unat (y - b)"
  proof -
    have "unat (y - x) = unat (y - b) - unat (x - b)"
    proof -
      have "y - x = (y - b) - (x - b)" by simp
      then show ?thesis using l by (simp only:) (intro unat_sub, simp add: word_le_nat_alt)
    qed
    moreover have "unat (x - y) = 4294967296 - unat (y - x)" using l unat_neg [of "y - x"] by auto
    ultimately show ?thesis by simp
  qed
qed

text \<open>When all distances lie within half the circle of the new one, the search stops at the first timer that
  expires later.\<close>

lemma timer_insert_sorted:
  assumes "\<forall>t \<in> set ts. unat (f t - b) \<le> unat (tt - b) + 0x7ffffffe \<and> unat (tt - b) \<le> unat (f t - b) + 0x7fffffff"
  shows "timer_insert f i tt ts = takeWhile (\<lambda>t. unat (f t - b) \<le> unat (tt - b)) ts
      @ i # dropWhile (\<lambda>t. unat (f t - b) \<le> unat (tt - b)) ts"
  using assms
proof (induction ts)
  case (Cons t ts)
  let ?d = "f t - tt"
  have h: "?d < HALF_TICK \<longleftrightarrow> unat ?d < 0x7fffffff" by (simp add: word_less_nat_alt)
  have z: "?d = 0 \<longleftrightarrow> unat ?d = 0" by (rule unat_eq_0 [symmetric])
  show ?case
  proof (cases "unat (f t - b) \<le> unat (tt - b)")
    case True
    show ?thesis
    proof (cases "unat (f t - b) = unat (tt - b)")
      case True
      then have "unat ?d = 0" using tick_diff(1) [of tt b "f t"] by simp
      then have "?d = 0" using z by blast
      with Cons True show ?thesis by simp
    next
      case False
      with True have "unat ?d = 4294967296 - (unat (tt - b) - unat (f t - b))" by (intro tick_diff(2)) simp
      with Cons.prems have "\<not> unat ?d < 0x7fffffff" by auto
      then have "\<not> ?d < HALF_TICK" using h by blast
      with Cons True show ?thesis by simp
    qed
  next
    case False
    then have "unat ?d = unat (f t - b) - unat (tt - b)" by (intro tick_diff(1)) simp
    with Cons.prems False have "unat ?d \<noteq> 0" "unat ?d < 0x7fffffff" by auto
    then have "?d \<noteq> 0" "?d < HALF_TICK" using h z by (simp_all only: not_False_eq_True)
    with False show ?thesis by simp
  qed
qed simp

text \<open>A stable insertion keeps a sorted list sorted.\<close>

lemma sorted_insert:
  fixes g :: "'a \<Rightarrow> nat"
  assumes "sorted (map g xs)"
  shows "sorted (map g (takeWhile (\<lambda>x. g x \<le> g y) xs @ y # dropWhile (\<lambda>x. g x \<le> g y) xs))"
proof -
  have t: "\<forall>x \<in> set (takeWhile (\<lambda>x. g x \<le> g y) xs). g x \<le> g y" by (auto dest: set_takeWhileD)
  have d: "\<forall>x \<in> set (dropWhile (\<lambda>x. g x \<le> g y) xs). g y \<le> g x"
    using assms
  proof (induction xs)
    case (Cons x xs)
    then show ?case by (cases "g x \<le> g y") (auto dest: bspec)
  qed simp
  have s: "sorted (map g (takeWhile (\<lambda>x. g x \<le> g y) xs))" "sorted (map g (dropWhile (\<lambda>x. g x \<le> g y) xs))"
    using assms by (metis map_append sorted_append takeWhile_dropWhile_id)+
  show ?thesis using t d s by (fastforce simp: sorted_append)
qed

lemma sorted_drop_mid: "sorted (map g (xs @ y # ys)) \<Longrightarrow> sorted (map g (xs @ ys))"
  by (auto simp: sorted_append)

lemma dropWhile_sorted_gt:
  fixes g :: "'a \<Rightarrow> nat"
  shows "sorted (map g xs) \<Longrightarrow> x \<in> set (dropWhile (\<lambda>x. g x \<le> n) xs) \<Longrightarrow> n < g x"
  by (induction xs) (auto split: if_splits dest: bspec)

lemma set_timer_insert [simp]: "set (timer_insert f i tt ts) = insert i (set ts)"
  by (induction ts) auto

lemma distinct_timer_insert [simp]: "distinct (timer_insert f i tt ts) \<longleftrightarrow> i \<notin> set ts \<and> distinct ts"
  by (induction ts) auto

section \<open>Frames\<close>

lemma timer_remove_simps [simp]:
  "threads (rt_timer_remove i k) = threads k" "lists (rt_timer_remove i k) = lists k"
  "ready_group (rt_timer_remove i k) = ready_group k" "current (rt_timer_remove i k) = current k"
  "lock_nest (rt_timer_remove i k) = lock_nest k" "irq_nest (rt_timer_remove i k) = irq_nest k"
  "timers (rt_timer_remove i k) = timers k" "timer_list (rt_timer_remove i k) = removeAll i (timer_list k)"
  "rt_tick (rt_timer_remove i k) = rt_tick k"
  by (simp_all add: rt_timer_remove_def)

lemma timer_stop_simps [simp]:
  "threads (snd (rt_timer_stop i k)) = threads k" "lists (snd (rt_timer_stop i k)) = lists k"
  "ready_group (snd (rt_timer_stop i k)) = ready_group k" "current (snd (rt_timer_stop i k)) = current k"
  "lock_nest (snd (rt_timer_stop i k)) = lock_nest k" "irq_nest (snd (rt_timer_stop i k)) = irq_nest k"
  "rt_tick (snd (rt_timer_stop i k)) = rt_tick k"
  by (simp_all add: rt_timer_stop_def)

lemma timer_control_simps [simp]:
  "threads (snd (rt_timer_control i c k)) = threads k" "lists (snd (rt_timer_control i c k)) = lists k"
  "ready_group (snd (rt_timer_control i c k)) = ready_group k" "current (snd (rt_timer_control i c k)) = current k"
  "lock_nest (snd (rt_timer_control i c k)) = lock_nest k" "irq_nest (snd (rt_timer_control i c k)) = irq_nest k"
  "rt_tick (snd (rt_timer_control i c k)) = rt_tick k" "timer_list (snd (rt_timer_control i c k)) = timer_list k"
  by (simp_all add: rt_timer_control_def split: timer_ctrl.split)

lemma timer_start_frame:
  assumes "rt_timer_start i k = Some k'"
  shows "threads k' = threads k" "lists k' = lists k" "ready_group k' = ready_group k" "current k' = current k"
    "lock_nest k' = lock_nest k" "irq_nest k' = irq_nest k" "rt_tick k' = rt_tick k"
    "set (timer_list k') = insert i (set (timer_list k))"
    "tm_periodic (timers k' j) = tm_periodic (timers k j)" "tm_init_tick (timers k' j) = tm_init_tick (timers k j)"
    "tm_init_tick (timers k i) < HALF_TICK"
  using assms by (auto simp: rt_timer_start_def Let_def split: if_splits)

section \<open>The operations keep the order\<close>

lemma distinct_split: "distinct xs \<Longrightarrow> i \<notin> set xs \<Longrightarrow> distinct (takeWhile P xs @ i # dropWhile P xs)"
  by (metis distinct.simps(2) distinct_append not_distinct_conv_prefix set_append Un_iff takeWhile_dropWhile_id
      distinct_insort_key disjoint_insert(1) list.simps(15))

lemma sorted_map_removeAll: "sorted (map f xs) \<Longrightarrow> sorted (map f (removeAll x xs))"
  by (induction xs) auto

text \<open>Dropping a timer, or changing timers that do not wait or changing what the order does not depend on.\<close>

lemma sorted_from_cong:
  assumes "sorted_from b m k" "timer_list k' = timer_list k"
    "\<And>i. i \<in> set (timer_list k) \<Longrightarrow> timeout_tick (timers k' i) = timeout_tick (timers k i)
      \<and> tm_active (timers k' i) = tm_active (timers k i)"
  shows "sorted_from b m k'"
proof -
  have k: "key b k' i = key b k i" if "i \<in> set (timer_list k)" for i using assms(3) [OF that] by (simp add: key_def)
  then have "map (key b k') (timer_list k) = map (key b k) (timer_list k)" by simp
  then have "sorted (map (key b k') (timer_list k))" using sorted_fromD(1) [OF assms(1)] by (simp only:)
  with sorted_fromD(2-4) [OF assms(1)] assms(2,3) k show ?thesis by (simp add: sorted_from_def)
qed

lemma sorted_from_remove:
  assumes "sorted_from b m k"
  shows "sorted_from b m (rt_timer_remove i k)"
  using assms sorted_map_removeAll [of "key b k" "timer_list k" i]
  by (auto simp: sorted_from_def key_def [abs_def] distinct_removeAll)

lemma sorted_from_stop:
  assumes "sorted_from b m k"
  shows "sorted_from b m (snd (rt_timer_stop i k))" and "i \<notin> set (timer_list (snd (rt_timer_stop i k)))"
proof -
  have "sorted_from b m (upd_timer i (\<lambda>tm. tm\<lparr>tm_active := False\<rparr>) (rt_timer_remove i k))"
    by (rule sorted_from_cong [OF sorted_from_remove [OF assms, of i]]) auto
  with assms show "sorted_from b m (snd (rt_timer_stop i k))" by (simp add: rt_timer_stop_def)
  show "i \<notin> set (timer_list (snd (rt_timer_stop i k)))"
    using sorted_fromD(4) [OF assms, of i] by (auto simp: rt_timer_stop_def)
qed

lemma timer_stop_list: "set (timer_list (snd (rt_timer_stop i k))) \<subseteq> set (timer_list k)"
  by (auto simp: rt_timer_stop_def)

lemma sorted_from_control:
  assumes "sorted_from b m k"
  shows "sorted_from b m (snd (rt_timer_control i c k))"
  by (rule sorted_from_cong [OF assms]) (auto simp: rt_timer_control_def split: timer_ctrl.split)

lemma timer_start_returns:
  "tm_init_tick (timers k i) < HALF_TICK \<Longrightarrow> rt_timer_start i k \<noteq> None"
  by (simp add: rt_timer_start_def Let_def)

text \<open>Starting a timer: it waits behind all timers that expire no later. The base is the current tick
  (between two ticks) or the tick before (while the tick handler runs).\<close>

lemma timer_start_place:
  assumes s: "sorted_from b m k" and b: "b = rt_tick k \<or> b = rt_tick k - 1"
    and m: "m = 0x7fffffff + unat (rt_tick k - b)"
    and r: "rt_timer_start i k = Some k'"
  defines "ts \<equiv> removeAll i (timer_list k)"
  shows "timer_list k' = takeWhile (\<lambda>t. key b k' t \<le> key b k' i) ts @ i # dropWhile (\<lambda>t. key b k' t \<le> key b k' i) ts"
    and "key b k' i = unat (rt_tick k - b) + unat (tm_init_tick (timers k i))"
    and "timers k' i = (timers k i)\<lparr>timeout_tick := rt_tick k + tm_init_tick (timers k i), tm_active := True\<rparr>"
    and "\<And>j. j \<noteq> i \<Longrightarrow> timers k' j = timers k j"
proof -
  let ?tt = "rt_tick k + tm_init_tick (timers k i)"
  let ?f = "(\<lambda>t. timeout_tick (timers k t))(i := ?tt)"
  have a: "tm_init_tick (timers k i) < HALF_TICK" and l: "timer_list k' = timer_insert ?f i ?tt ts"
    and tm: "timers k' i = (timers k i)\<lparr>timeout_tick := ?tt, tm_active := True\<rparr>" "\<And>j. j \<noteq> i \<Longrightarrow> timers k' j = timers k j"
    using r by (auto simp: rt_timer_start_def Let_def ts_def fun_upd_def if_distrib cong: if_cong)
  show "timers k' i = (timers k i)\<lparr>timeout_tick := ?tt, tm_active := True\<rparr>" "\<And>j. j \<noteq> i \<Longrightarrow> timers k' j = timers k j"
    by (rule tm(1), rule tm(2))
  have d: "unat (rt_tick k - b) \<le> 1" using b by auto
  have a': "unat (tm_init_tick (timers k i)) < 0x7fffffff" using a by (simp add: word_less_nat_alt)
  have "?tt - b = (rt_tick k - b) + tm_init_tick (timers k i)" by simp
  moreover have "unat ((rt_tick k - b) + tm_init_tick (timers k i)) = unat (rt_tick k - b) + unat (tm_init_tick (timers k i))"
    using d a' by (intro unat_add_lem [THEN iffD1]) simp
  ultimately have n: "unat (?tt - b) = unat (rt_tick k - b) + unat (tm_init_tick (timers k i))" by (simp only:)
  then show "key b k' i = unat (rt_tick k - b) + unat (tm_init_tick (timers k i))" by (simp add: key_def tm)
  have nts: "i \<notin> set ts" by (simp add: ts_def)
  have "unat (?f t - b) \<le> unat (?tt - b) + 0x7ffffffe \<and> unat (?tt - b) \<le> unat (?f t - b) + 0x7fffffff" if "t \<in> set ts" for t
  proof -
    have "t \<in> set (timer_list k)" "t \<noteq> i" using that by (auto simp: ts_def)
    then have "unat (timeout_tick (timers k t) - b) < m" using sorted_fromD(2) [OF s] by (simp add: key_def)
    with d a' \<open>t \<noteq> i\<close> show ?thesis unfolding n m by simp
  qed
  then have ins: "timer_insert ?f i ?tt ts = takeWhile (\<lambda>t. unat (?f t - b) \<le> unat (?tt - b)) ts
      @ i # dropWhile (\<lambda>t. unat (?f t - b) \<le> unat (?tt - b)) ts" by (intro timer_insert_sorted) blast
  have e: "unat (?f t - b) = key b k' t" if "t \<in> set ts" for t using that nts by (auto simp: key_def tm)
  have i: "unat (?tt - b) = key b k' i" by (simp add: key_def tm)
  have "takeWhile (\<lambda>t. unat (?f t - b) \<le> key b k' i) ts = takeWhile (\<lambda>t. key b k' t \<le> key b k' i) ts"
    "dropWhile (\<lambda>t. unat (?f t - b) \<le> key b k' i) ts = dropWhile (\<lambda>t. key b k' t \<le> key b k' i) ts"
    by (rule takeWhile_cong dropWhile_cong, rule refl, simp only: e)+
  then show "timer_list k' = takeWhile (\<lambda>t. key b k' t \<le> key b k' i) ts @ i # dropWhile (\<lambda>t. key b k' t \<le> key b k' i) ts"
    unfolding l ins i by simp
qed

lemma timer_start_sorted:
  assumes s: "sorted_from b m k" and b: "b = rt_tick k \<or> b = rt_tick k - 1"
    and m: "m = 0x7fffffff + unat (rt_tick k - b)"
    and r: "rt_timer_start i k = Some k'"
  shows "sorted_from b m k'"
proof -
  note p = timer_start_place [OF s b m r]
  let ?ts = "removeAll i (timer_list k)"
  have k: "key b k' t = key b k t" if "t \<noteq> i" for t using that p(4) by (simp add: key_def)
  have "sorted (map (key b k) ?ts)" using sorted_fromD(1) [OF s] by (rule sorted_map_removeAll)
  moreover have "map (key b k) ?ts = map (key b k') ?ts" using k by simp
  ultimately have "sorted (map (key b k') (timer_list k'))" unfolding p(1) by (intro sorted_insert) simp
  moreover have st: "set (timer_list k') = insert i (set ?ts)"
    unfolding p(1) by (metis (no_types, lifting) Un_insert_right list.simps(15) set_append takeWhile_dropWhile_id)
  moreover have "tm_init_tick (timers k i) < HALF_TICK" using r by (simp add: rt_timer_start_def Let_def)
  then have "key b k' i < m" unfolding p(2) m by (simp add: word_less_nat_alt)
  moreover have "distinct (timer_list k')"
    unfolding p(1) by (rule distinct_split) (use sorted_fromD(3) [OF s] in \<open>simp_all add: distinct_removeAll\<close>)
  moreover have "key b k' t < m \<and> tm_active (timers k' t)" if "t \<in> set (timer_list k')" for t
  proof (cases "t = i")
    case True
    with \<open>key b k' i < m\<close> p(3) show ?thesis by simp
  next
    case False
    with that sorted_fromD(2,4) [OF s, of t] p(4) k show ?thesis unfolding st by simp
  qed
  ultimately show ?thesis by (simp add: sorted_from_def)
qed

section \<open>Between two ticks\<close>

text \<open>Between two ticks all timers lie less than half the circle ahead.\<close>

definition timers_ok :: "kernel \<Rightarrow> bool" where
  "timers_ok k \<longleftrightarrow> sorted_from (rt_tick k) 0x7fffffff k"

lemma timers_ok_start:
  assumes "timers_ok k" "rt_timer_start i k = Some k'"
  shows "timers_ok k'"
  using timer_start_sorted [of "rt_tick k" "0x7fffffff" k i k'] assms timer_start_frame(7) [OF assms(2)]
  by (simp add: timers_ok_def)

lemma timers_ok_stop: "timers_ok k \<Longrightarrow> timers_ok (snd (rt_timer_stop i k))"
  by (simp add: timers_ok_def sorted_from_stop)

lemma timers_ok_remove: "timers_ok k \<Longrightarrow> timers_ok (rt_timer_remove i k)"
  by (simp add: timers_ok_def sorted_from_remove)

lemma timers_ok_control: "timers_ok k \<Longrightarrow> timers_ok (snd (rt_timer_control i c k))"
  by (simp add: timers_ok_def sorted_from_control)

lemma timers_ok_cong:
  "timers k' = timers k \<Longrightarrow> timer_list k' = timer_list k \<Longrightarrow> rt_tick k' = rt_tick k \<Longrightarrow> timers_ok k' = timers_ok k"
  by (simp add: timers_ok_def sorted_from_def key_def [abs_def])

section \<open>Properties\<close>

text \<open>Timers wait in the order in which they expire, across the wrap-around of the tick counter. With the
  list in order, \<^verbatim>\<open>rt_timer_start\<close> with a duration below \<^verbatim>\<open>RT_TICK_MAX / 2\<close> returns and leaves it in order, the
  timer active and due exactly its duration after the current tick; the timers before it in the list are
  those that expire no later, so timers with equal timeouts expire in the order of their starts; no other
  timer changes. With a longer duration the assertion fails.\<close>

lemma timer_start_in_order:
  assumes "timers_ok k"
  shows "(tm_init_tick (timers k i) < HALF_TICK \<longrightarrow>
      (\<exists>k' us vs. rt_timer_start i k = Some k' \<and> timers_ok k' \<and> timer_list k' = us @ i # vs
        \<and> us @ vs = removeAll i (timer_list k)
        \<and> (\<forall>u \<in> set us. key (rt_tick k) k' u \<le> key (rt_tick k) k' i)
        \<and> (\<forall>v \<in> set vs. key (rt_tick k) k' i < key (rt_tick k) k' v)
        \<and> key (rt_tick k) k' i = unat (tm_init_tick (timers k i)) \<and> tm_active (timers k' i)
        \<and> (\<forall>j. j \<noteq> i \<longrightarrow> timers k' j = timers k j)))
    \<and> (\<not> tm_init_tick (timers k i) < HALF_TICK \<longrightarrow> rt_timer_start i k = None)"
proof (cases "tm_init_tick (timers k i) < HALF_TICK")
  case True
  then obtain k' where r: "rt_timer_start i k = Some k'" using timer_start_returns by blast
  have s: "sorted_from (rt_tick k) 0x7fffffff k" using assms by (simp add: timers_ok_def)
  note p = timer_start_place [OF s disjI1 [OF refl] _ r, simplified]
  let ?P = "\<lambda>t. key (rt_tick k) k' t \<le> key (rt_tick k) k' i"
  let ?ts = "removeAll i (timer_list k)"
  have ok: "timers_ok k'" by (rule timers_ok_start [OF assms r])
  have "sorted (map (key (rt_tick k) k') (takeWhile ?P ?ts @ i # dropWhile ?P ?ts))"
    using ok timer_start_frame(7) [OF r] sorted_fromD(1) p(1) by (metis timers_ok_def)
  then have "sorted (map (key (rt_tick k) k') (takeWhile ?P ?ts @ dropWhile ?P ?ts))"
    by (rule sorted_drop_mid)
  then have d: "\<forall>v \<in> set (dropWhile ?P ?ts). key (rt_tick k) k' i < key (rt_tick k) k' v"
    by (intro ballI dropWhile_sorted_gt) simp_all
  have u: "\<forall>u \<in> set (takeWhile ?P ?ts). ?P u" by (blast dest: set_takeWhileD)
  have c: "takeWhile ?P ?ts @ dropWhile ?P ?ts = ?ts" by (rule takeWhile_dropWhile_id)
  have a: "tm_active (timers k' i)" "\<forall>j. j \<noteq> i \<longrightarrow> timers k' j = timers k j" using p(3,4) by simp_all
  show ?thesis using True r ok p(1,2) c u d a by blast
qed (simp add: rt_timer_start_def Let_def)

text \<open>Two ticks before the wrap-around, one timer due at tick 1, another started for tick 0xffffffff.\<close>

definition wrap_kernel :: kernel where
  "wrap_kernel = (two_threads 10 5 3)\<lparr>rt_tick := 0xfffffffe, timer_list := [TUser 1],
     timers := (timers (two_threads 10 5 3))(TUser 1 := \<lparr>tm_active = True, tm_periodic = False, timeout_tick = 1, tm_init_tick = 3\<rparr>,
       TUser 2 := \<lparr>tm_active = False, tm_periodic = False, timeout_tick = 0, tm_init_tick = 1\<rparr>)\<rparr>"

end
