(* ===== verification/Thread.thy ===== *)
theory Thread
  imports Timer
begin

text \<open>
  RTT4/src/thread.c. Functions that end in \<^verbatim>\<open>rt_schedule\<close> and go on when the thread runs again are cut
  there: \<^verbatim>\<open>..._begin\<close> up to and including the call, \<^verbatim>\<open>..._end\<close> from there. Entry, stack and object container are
  not part of the state; the thread object and its stack come from the heap as arguments of
  \<^verbatim>\<open>rt_thread_create\<close>. A shift by 32 or more is undefined in C: \<open>None\<close>.
\<close>

section \<open>Operations\<close>

definition shl1 :: "u8 \<Rightarrow> u32 option" where
  "shl1 p = (if unat p < 32 then Some (2 ^ unat p) else None)"

definition rt_thread_self :: "kernel \<Rightarrow> nat option" where
  "rt_thread_self k = current k"

definition rt_thread_exit :: "kernel \<Rightarrow> kernel option" where
  "rt_thread_exit k = do {
     t \<leftarrow> rt_thread_self k;
     let k = rt_schedule_remove_thread t k;
     let k = upd_thread t (\<lambda>th. th\<lparr>stat := RT_THREAD_CLOSE\<rparr>) k;
     let k = rt_timer_detach (TThread t) k;
     let k = (if is_static (threads k t) \<and> \<not> has_cleanup (threads k t) then k else tlist_insert_after LDefunct t k);
     rt_schedule k }"

definition rt_thread_init :: "nat \<Rightarrow> bool \<Rightarrow> u8 \<Rightarrow> u32 \<Rightarrow> kernel \<Rightarrow> kernel option" where
  "rt_thread_init t static priority tick k = do {
     RT_ASSERT (unat priority < 32);
     let k = upd_thread t (\<lambda>th. th\<lparr>init_priority := priority, current_priority := priority, number_mask := 0,
       init_tick := tick, remaining_tick := tick, t_error := RT_EOK, stat := RT_THREAD_INIT,
       is_static := static, has_cleanup := False\<rparr>) k;
     Some (rt_timer_init_obj (TThread t) 0 False k) }"

definition rt_thread_create :: "nat option \<Rightarrow> bool \<Rightarrow> u8 \<Rightarrow> u32 \<Rightarrow> kernel \<Rightarrow> (nat option \<times> kernel) option" where
  "rt_thread_create obj stack priority tick k =
     (case obj of None \<Rightarrow> Some (None, k)
      | Some t \<Rightarrow> if \<not> stack then Some (None, k)
                 else map_option (\<lambda>k. (Some t, k)) (rt_thread_init t False priority tick k))"

definition rt_thread_suspend :: "nat \<Rightarrow> kernel \<Rightarrow> (rt_err_t \<times> kernel) option" where
  "rt_thread_suspend t k = do {
     let st = stat_of (threads k t);
     if st \<noteq> RT_THREAD_READY \<and> st \<noteq> RT_THREAD_RUNNING then Some (- RT_ERROR, k)
     else do {
       RT_ASSERT (st = RT_THREAD_RUNNING \<longrightarrow> rt_thread_self k = Some t);
       let k = rt_schedule_remove_thread t k;
       let k = upd_thread t (set_stat RT_THREAD_SUSPEND) k;
       let k = snd (rt_timer_stop (TThread t) k);
       Some (RT_EOK, k) } }"

definition rt_thread_resume :: "nat \<Rightarrow> kernel \<Rightarrow> rt_err_t \<times> kernel" where
  "rt_thread_resume t k =
     (if stat_of (threads k t) \<noteq> RT_THREAD_SUSPEND then (- RT_ERROR, k)
      else let k = tlist_remove t k;
               k = snd (rt_timer_stop (TThread t) k)
           in (RT_EOK, rt_schedule_insert_thread t k))"

definition rt_thread_startup :: "nat \<Rightarrow> kernel \<Rightarrow> kernel option" where
  "rt_thread_startup t k = do {
     RT_ASSERT (stat_of (threads k t) = RT_THREAD_INIT);
     let k = upd_thread t (\<lambda>th. th\<lparr>current_priority := init_priority th\<rparr>) k;
     mask \<leftarrow> shl1 (current_priority (threads k t));
     let k = upd_thread t (\<lambda>th. th\<lparr>number_mask := mask\<rparr>) k;
     let k = upd_thread t (\<lambda>th. th\<lparr>stat := RT_THREAD_SUSPEND\<rparr>) k;
     let k = snd (rt_thread_resume t k);
     if rt_thread_self k \<noteq> None then rt_schedule k else Some k }"

definition rt_thread_detach :: "nat \<Rightarrow> kernel \<Rightarrow> kernel option" where
  "rt_thread_detach t k = do {
     RT_ASSERT (is_static (threads k t));
     let k = (if stat_of (threads k t) \<noteq> RT_THREAD_INIT then rt_schedule_remove_thread t k else k);
     let k = rt_timer_detach (TThread t) k;
     let k = upd_thread t (\<lambda>th. th\<lparr>stat := RT_THREAD_CLOSE\<rparr>) k;
     Some (if is_static (threads k t) \<and> \<not> has_cleanup (threads k t) then k else tlist_insert_after LDefunct t k) }"

definition rt_thread_delete :: "nat \<Rightarrow> kernel \<Rightarrow> kernel option" where
  "rt_thread_delete t k = do {
     RT_ASSERT (\<not> is_static (threads k t));
     let k = (if stat_of (threads k t) \<noteq> RT_THREAD_INIT then rt_schedule_remove_thread t k else k);
     let k = rt_timer_detach (TThread t) k;
     let k = upd_thread t (\<lambda>th. th\<lparr>stat := RT_THREAD_CLOSE\<rparr>) k;
     Some (tlist_insert_after LDefunct t k) }"

definition rt_thread_yield :: "kernel \<Rightarrow> kernel option" where
  "rt_thread_yield k = rt_schedule k"

definition rt_thread_sleep_begin :: "u32 \<Rightarrow> kernel \<Rightarrow> kernel option" where
  "rt_thread_sleep_begin tick k = do {
     t \<leftarrow> rt_thread_self k;
     (_, k) \<leftarrow> rt_thread_suspend t k;
     let k = snd (rt_timer_control (TThread t) (TIMER_SET_TIME tick) k);
     k \<leftarrow> rt_timer_start (TThread t) k;
     rt_schedule k }"

definition rt_thread_sleep_end :: "nat \<Rightarrow> kernel \<Rightarrow> kernel" where
  "rt_thread_sleep_end t k =
     (if t_error (threads k t) = - RT_ETIMEOUT then upd_thread t (\<lambda>th. th\<lparr>t_error := RT_EOK\<rparr>) k else k)"

text \<open>\<^verbatim>\<open>rt_thread_delay_until\<close>; the result tells the new value of \<^verbatim>\<open>*tick\<close> and whether the thread was put to sleep. The
  second half also stores the wake-up tick in \<^verbatim>\<open>*tick\<close>.\<close>

definition rt_thread_delay_until_begin :: "u32 \<Rightarrow> u32 \<Rightarrow> kernel \<Rightarrow> (u32 \<times> bool \<times> kernel) option" where
  "rt_thread_delay_until_begin tick inc_tick k = do {
     t \<leftarrow> rt_thread_self k;
     if rt_tick k - tick < inc_tick then do {
       let tick = rt_tick k - tick + inc_tick;
       (_, k) \<leftarrow> rt_thread_suspend t k;
       let k = snd (rt_timer_control (TThread t) (TIMER_SET_TIME tick) k);
       k \<leftarrow> rt_timer_start (TThread t) k;
       k \<leftarrow> rt_schedule k;
       Some (tick, True, k) }
     else Some (rt_tick k, False, k) }"

definition rt_thread_delay_until_end :: "nat \<Rightarrow> kernel \<Rightarrow> u32 \<times> kernel" where
  "rt_thread_delay_until_end t k = (let k = rt_thread_sleep_end t k in (rt_tick k, k))"

datatype thread_ctrl = CTRL_CHANGE_PRIORITY u8 | CTRL_STARTUP | CTRL_CLOSE | CTRL_OTHER

definition rt_thread_control :: "nat \<Rightarrow> thread_ctrl \<Rightarrow> kernel \<Rightarrow> kernel option" where
  "rt_thread_control t cmd k =
     (case cmd of
        CTRL_CHANGE_PRIORITY p \<Rightarrow>
          if stat_of (threads k t) = RT_THREAD_READY then do {
            let k = rt_schedule_remove_thread t k;
            let k = upd_thread t (\<lambda>th. th\<lparr>current_priority := p\<rparr>) k;
            mask \<leftarrow> shl1 p;
            let k = upd_thread t (\<lambda>th. th\<lparr>number_mask := mask\<rparr>) k;
            Some (rt_schedule_insert_thread t k) }
          else do {
            let k = upd_thread t (\<lambda>th. th\<lparr>current_priority := p\<rparr>) k;
            mask \<leftarrow> shl1 p;
            Some (upd_thread t (\<lambda>th. th\<lparr>number_mask := mask\<rparr>) k) }
      | CTRL_STARTUP \<Rightarrow> rt_thread_startup t k
      | CTRL_CLOSE \<Rightarrow> rt_thread_delete t k
      | CTRL_OTHER \<Rightarrow> Some k)"

definition rt_thread_timeout :: "nat \<Rightarrow> kernel \<Rightarrow> kernel option" where
  "rt_thread_timeout t k = do {
     RT_ASSERT (stat_of (threads k t) = RT_THREAD_SUSPEND);
     let k = upd_thread t (\<lambda>th. th\<lparr>t_error := - RT_ETIMEOUT\<rparr>) k;
     let k = tlist_remove t k;
     let k = rt_schedule_insert_thread t k;
     rt_schedule k }"

section \<open>The invariant of the kernel\<close>

text \<open>Only suspended threads have a running timer; so \<^verbatim>\<open>rt_thread_timeout\<close> finds its thread suspended.\<close>

definition tt_ok :: "kernel \<Rightarrow> bool" where
  "tt_ok k \<longleftrightarrow> (\<forall>t. TThread t \<in> set (timer_list k) \<longrightarrow> stat_of (threads k t) = RT_THREAD_SUSPEND)"

text \<open>Timers of threads are one-shot, running periodic timers have a usable period.\<close>

definition period_ok :: "kernel \<Rightarrow> bool" where
  "period_ok k \<longleftrightarrow> (\<forall>t. \<not> tm_periodic (timers k (TThread t)))
     \<and> (\<forall>u. TUser u \<in> set (timer_list k) \<longrightarrow> tm_periodic (timers k (TUser u)) \<longrightarrow>
          0 < tm_init_tick (timers k (TUser u)) \<and> tm_init_tick (timers k (TUser u)) < HALF_TICK)"

definition kernel_ok :: "kernel \<Rightarrow> bool" where
  "kernel_ok k \<longleftrightarrow> sched_ok k \<and> timers_ok k \<and> tt_ok k \<and> period_ok k"

lemma kernel_okD:
  assumes "kernel_ok k"
  shows "sched_ok k" "timers_ok k" "tt_ok k" "base_ok k" "period_ok k"
  using assms by (simp_all add: kernel_ok_def sched_ok_def)

lemma period_ok_cong: "timers k' = timers k \<Longrightarrow> set (timer_list k') \<subseteq> set (timer_list k) \<Longrightarrow> period_ok k \<Longrightarrow> period_ok k'"
  by (auto simp: period_ok_def)

lemma period_ok_stop: "period_ok k \<Longrightarrow> period_ok (snd (rt_timer_stop i k))"
  by (auto simp: period_ok_def rt_timer_stop_def)

lemma period_ok_remove: "period_ok k \<Longrightarrow> period_ok (rt_timer_remove i k)"
  by (auto simp: period_ok_def)

lemma schedule_tt:
  assumes "sched_ok k" "tt_ok k" "rt_schedule k = Some k'"
  shows "tt_ok k'"
  unfolding tt_ok_def
proof (intro allI impI)
  fix t assume "TThread t \<in> set (timer_list k')"
  then have s: "stat_of (threads k t) = RT_THREAD_SUSPEND"
    using assms(2) schedule_frame(2) [OF assms(1,3)] by (simp add: tt_ok_def)
  with schedule_frame(7) [OF assms(1,3), of t] show "stat_of (threads k' t) = RT_THREAD_SUSPEND" by simp
qed

lemma schedule_kernel:
  assumes "kernel_ok k" "current k \<noteq> None"
  obtains k' where "rt_schedule k = Some k'" "kernel_ok k'" "lock_nest k = 0 \<and> ready_group k \<noteq> 0 \<longrightarrow> scheduled k'"
    "current k' \<noteq> None"
proof -
  note s = kernel_okD(1) [OF assms(1)]
  from rt_schedule_ok [OF s assms(2)] obtain k' where r: "rt_schedule k = Some k'" "sched_ok k'"
    "lock_nest k = 0 \<and> ready_group k \<noteq> 0 \<longrightarrow> scheduled k'" "lock_nest k \<noteq> 0 \<or> ready_group k = 0 \<longrightarrow> k' = k" by blast
  have "timers_ok k' = timers_ok k" by (intro timers_ok_cong schedule_frame [OF s r(1)])
  moreover have "period_ok k'" using kernel_okD(5) [OF assms(1)] schedule_frame(1,2) [OF s r(1)]
    by (auto intro: period_ok_cong)
  ultimately have "kernel_ok k'" using r(2) kernel_okD(2) [OF assms(1)] schedule_tt [OF s kernel_okD(3) [OF assms(1)] r(1)]
    by (simp add: kernel_ok_def)
  moreover have "current k' \<noteq> None" using r assms(2) by (cases "lock_nest k = 0 \<and> ready_group k \<noteq> 0") (auto simp: scheduled_def)
  ultimately show ?thesis using that r by blast
qed

section \<open>Suspending and resuming\<close>

lemma mask_of:
  assumes "base_ok k" "started (threads k t)"
  shows "prio t k < 32" "number_mask (threads k t) = 2 ^ prio t k"
  using base_okD(5) [OF assms(1)] assms(2) by (simp_all add: mask_ok_def)

lemma suspend_kernel:
  assumes ok: "kernel_ok k" and s: "stat_of (threads k t) = RT_THREAD_READY \<or> stat_of (threads k t) = RT_THREAD_RUNNING"
  obtains k' where "rt_thread_suspend t k = Some (RT_EOK, k')" "kernel_ok k'" "nolist t k'"
    "stat_of (threads k' t) = RT_THREAD_SUSPEND" "current k' = current k" "rt_tick k' = rt_tick k"
    "TThread t \<notin> set (timer_list k')" "lock_nest k' = lock_nest k" "irq_nest k' = irq_nest k"
    "\<And>l. lists k' l = removeAll t (lists k l)" "\<And>u. u \<noteq> t \<Longrightarrow> threads k' u = threads k u"
    "threads k' t = set_stat RT_THREAD_SUSPEND (threads k t)" "set (timer_list k') \<subseteq> set (timer_list k)"
proof -
  note so = kernel_okD(1) [OF ok] and tmo = kernel_okD(2) [OF ok] and tt = kernel_okD(3) [OF ok]
  let ?k1 = "upd_thread t (set_stat RT_THREAD_SUSPEND) (rt_schedule_remove_thread t k)"
  let ?k2 = "snd (rt_timer_stop (TThread t) ?k1)"
  have st: "started (threads k t)" using s by (auto simp: started_def)
  have a: "stat_of (threads k t) = RT_THREAD_RUNNING \<longrightarrow> current k = Some t"
    using sched_okD(3) [OF so, of t] by (simp add: own_ok_def)
  have s1: "sched_ok ?k1" by (rule remove_sched [OF so st]) simp_all
  have t1: "timers_ok ?k1" using tmo by (subst timers_ok_cong [of _ k]) simp_all
  have "sched_ok ?k2" using s1 by (subst sched_ok_cong [of _ ?k1]) simp_all
  moreover have "timers_ok ?k2" using t1 by (rule timers_ok_stop)
  moreover have n: "TThread t \<notin> set (timer_list ?k2)" using t1 sorted_from_stop(2) by (simp add: timers_ok_def)
  moreover have "tt_ok ?k2"
    using tt timer_stop_list [of "TThread t" ?k1] n by (auto simp: tt_ok_def)
  moreover have "period_ok ?k1" using kernel_okD(5) [OF ok] by (rule period_ok_cong [rotated 2]) simp_all
  then have "period_ok ?k2" by (rule period_ok_stop)
  moreover have "nolist t ?k2" by (simp add: nolist_def)
  moreover have "rt_thread_suspend t k = Some (RT_EOK, ?k2)"
    using s a by (auto simp: rt_thread_suspend_def Let_def rt_thread_self_def)
  moreover have "set (timer_list ?k2) \<subseteq> set (timer_list k)" using timer_stop_list [of "TThread t" ?k1] by simp
  ultimately show ?thesis using that [of ?k2] by (simp add: kernel_ok_def)
qed

text \<open>Making a suspended thread runnable: the common part of \<^verbatim>\<open>rt_thread_resume\<close> and \<^verbatim>\<open>rt_thread_timeout\<close>.\<close>

lemma wake_sched:
  assumes so: "sched_ok k" and s: "stat_of (threads k t) = RT_THREAD_SUSPEND"
    and k1: "threads k1 = (threads k)(t := f (threads k t))" "lists k1 = (\<lambda>l. removeAll t (lists k l))"
      "ready_group k1 = ready_group k" "current k1 = current k"
    and f: "current_priority (f (threads k t)) = current_priority (threads k t)"
      "number_mask (f (threads k t)) = number_mask (threads k t)" "stat (f (threads k t)) = stat (threads k t)"
  shows "sched_ok (rt_schedule_insert_thread t k1)"
proof -
  note b = sched_okD(1) [OF so]
  have m: "prio t k < 32" "number_mask (threads k t) = 2 ^ prio t k"
    using s by (auto intro!: mask_of [OF b] simp: started_def)
  let ?k1 = "upd_thread t f (tlist_remove t k)"
  have b1: "base_ok ?k1"
    using m f by (intro upd_thread_base tlist_remove_base [OF b]) (auto simp: s prio_def)
  have o1: "others_ok t ?k1" using sched_okD(2) [OF so, of t] by blast
  have e: "threads k1 = threads ?k1" "lists k1 = lists ?k1" "ready_group k1 = ready_group ?k1" "current k1 = current ?k1"
    using k1 by simp_all
  have p: "prio t k1 = prio t k" using f k1 by (simp add: prio_def)
  show ?thesis
  proof (rule insert_sched)
    show "base_ok k1" using b1 base_ok_cong [OF e(1,2,3)] by simp
    show "others_ok t k1" using o1 e by (simp add: others_ok_def own_ok_def prio_def)
    show "nolist t k1" by (simp add: nolist_def k1)
    show "prio t k1 < 32" "number_mask (threads k1 t) = 2 ^ prio t k1" using m p f k1 by simp_all
  qed
qed

lemma insert_stat_other: "u \<noteq> t \<Longrightarrow> stat_of (threads (rt_schedule_insert_thread t k) u) = stat_of (threads k u)"
  by (simp add: insert_threads)

lemma resume_kernel:
  assumes ok: "kernel_ok k" and s: "stat_of (threads k t) = RT_THREAD_SUSPEND"
  shows "fst (rt_thread_resume t k) = RT_EOK" "kernel_ok (snd (rt_thread_resume t k))"
    "current (snd (rt_thread_resume t k)) = current k" "rt_tick (snd (rt_thread_resume t k)) = rt_tick k"
    "lock_nest (snd (rt_thread_resume t k)) = lock_nest k" "irq_nest (snd (rt_thread_resume t k)) = irq_nest k"
    "TThread t \<notin> set (timer_list (snd (rt_thread_resume t k)))"
    "u \<noteq> t \<Longrightarrow> threads (snd (rt_thread_resume t k)) u = threads k u"
    "\<forall>p. l \<noteq> LReady p \<Longrightarrow> lists (snd (rt_thread_resume t k)) l = removeAll t (lists k l)"
    "stat_of (threads (snd (rt_thread_resume t k)) t) = (if current k = Some t then RT_THREAD_RUNNING else RT_THREAD_READY)"
    "t_error (threads (snd (rt_thread_resume t k)) t) = t_error (threads k t)"
proof -
  note so = kernel_okD(1) [OF ok] and tmo = kernel_okD(2) [OF ok] and tt = kernel_okD(3) [OF ok]
  let ?k1 = "snd (rt_timer_stop (TThread t) (tlist_remove t k))"
  have e: "rt_thread_resume t k = (RT_EOK, rt_schedule_insert_thread t ?k1)"
    using s by (simp add: rt_thread_resume_def Let_def)
  have t1: "timers_ok ?k1" using tmo by (intro timers_ok_stop) (subst timers_ok_cong [of _ k], simp_all)
  have "sched_ok (rt_schedule_insert_thread t ?k1)"
    by (rule wake_sched [OF so s, of _ "\<lambda>th. th"]) simp_all
  moreover have "timers_ok (rt_schedule_insert_thread t ?k1)" using t1 by (subst timers_ok_cong [of _ ?k1]) simp_all
  moreover have n: "TThread t \<notin> set (timer_list ?k1)"
  proof (rule sorted_from_stop(2))
    show "sorted_from (rt_tick k) 0x7fffffff (tlist_remove t k)"
      using tmo by (simp add: timers_ok_def sorted_from_def key_def [abs_def])
  qed
  moreover have "tt_ok (rt_schedule_insert_thread t ?k1)"
    using tt timer_stop_list [of "TThread t" "tlist_remove t k"] n insert_stat_other [of _ t ?k1]
    unfolding tt_ok_def by (metis insert_frame(4) subsetD timer_stop_simps(1) tlist_simps(1,8))
  moreover have "period_ok (tlist_remove t k)" using kernel_okD(5) [OF ok] by (rule period_ok_cong [rotated 2]) simp_all
  then have "period_ok ?k1" by (rule period_ok_stop)
  then have "period_ok (rt_schedule_insert_thread t ?k1)" by (rule period_ok_cong [rotated 2]) simp_all
  ultimately show "kernel_ok (snd (rt_thread_resume t k))" "TThread t \<notin> set (timer_list (snd (rt_thread_resume t k)))"
    by (simp_all add: e kernel_ok_def)
  show "fst (rt_thread_resume t k) = RT_EOK" "current (snd (rt_thread_resume t k)) = current k"
    "rt_tick (snd (rt_thread_resume t k)) = rt_tick k" "lock_nest (snd (rt_thread_resume t k)) = lock_nest k"
    "irq_nest (snd (rt_thread_resume t k)) = irq_nest k"
    "u \<noteq> t \<Longrightarrow> threads (snd (rt_thread_resume t k)) u = threads k u"
    by (simp_all add: e insert_threads)
  show "stat_of (threads (snd (rt_thread_resume t k)) t) = (if current k = Some t then RT_THREAD_RUNNING else RT_THREAD_READY)"
    "t_error (threads (snd (rt_thread_resume t k)) t) = t_error (threads k t)"
    by (simp_all add: e rt_schedule_insert_thread_def Let_def)
  show "lists (snd (rt_thread_resume t k)) l = removeAll t (lists k l)" if "\<forall>p. l \<noteq> LReady p"
    using that by (simp add: e insert_lists)
qed

section \<open>Changing a thread's data\<close>

text \<open>A change that keeps status, priority and mask keeps everything.\<close>

lemma upd_data:
  assumes f: "stat_of (f (threads k t)) = stat_of (threads k t)"
    "current_priority (f (threads k t)) = current_priority (threads k t)" "number_mask (f (threads k t)) = number_mask (threads k t)"
  shows "sched_ok (upd_thread t f k) = sched_ok k" "tt_ok (upd_thread t f k) = tt_ok k"
proof -
  have s: "stat_of (threads (upd_thread t f k) u) = stat_of (threads k u)"
    "current_priority (threads (upd_thread t f k) u) = current_priority (threads k u)"
    "number_mask (threads (upd_thread t f k) u) = number_mask (threads k u)" for u
    using f by simp_all
  have p: "prio u (upd_thread t f k) = prio u k" for u by (simp only: prio_def s)
  have st: "started (threads (upd_thread t f k) u) = started (threads k u)" for u by (simp only: started_def s)
  have l: "lists (upd_thread t f k) = lists k" "ready_group (upd_thread t f k) = ready_group k"
    "current (upd_thread t f k) = current k" "timer_list (upd_thread t f k) = timer_list k" by simp_all
  show "sched_ok (upd_thread t f k) = sched_ok k"
    by (simp only: sched_ok_def stat_ok_def base_ok_def lists_ok_def group_ok_def ready_ok_def wait_ok_def mask_ok_def s p st l)
  show "tt_ok (upd_thread t f k) = tt_ok k" by (simp only: tt_ok_def s l)
qed

lemma upd_data_kernel:
  assumes "kernel_ok k" "stat_of (f (threads k t)) = stat_of (threads k t)"
    "current_priority (f (threads k t)) = current_priority (threads k t)" "number_mask (f (threads k t)) = number_mask (threads k t)"
  shows "kernel_ok (upd_thread t f k)"
proof -
  have "timers_ok (upd_thread t f k) = timers_ok k" by (intro timers_ok_cong) simp_all
  with assms upd_data [of f k t, OF assms(2-4)] show ?thesis by (simp add: kernel_ok_def period_ok_def)
qed

text \<open>A thread that is in no list and has no running timer may get any status that is not ready or running.\<close>

lemma upd_idle_kernel:
  assumes ok: "kernel_ok k" and n: "nolist t k" "TThread t \<notin> set (timer_list k)"
    and f: "stat_of (f (threads k t)) \<notin> {RT_THREAD_READY, RT_THREAD_RUNNING}"
      "started (f (threads k t)) \<Longrightarrow> unat (current_priority (f (threads k t))) < 32
        \<and> number_mask (f (threads k t)) = 2 ^ unat (current_priority (f (threads k t)))"
  shows "kernel_ok (upd_thread t f k)"
proof -
  have "base_ok (upd_thread t f k)" using kernel_okD(4) [OF ok] n(1) f(2) by (rule upd_thread_base)
  moreover have "own_ok t (upd_thread t f k)" using f(1) by (simp add: own_ok_def)
  moreover have "others_ok t (upd_thread t f k)" using sched_okD(2) [OF kernel_okD(1) [OF ok]] by blast
  moreover have "timers_ok (upd_thread t f k)" using kernel_okD(2) [OF ok] by (subst timers_ok_cong [of _ k]) simp_all
  moreover have "tt_ok (upd_thread t f k)" using kernel_okD(3) [OF ok] n(2) by (auto simp: tt_ok_def)
  ultimately show ?thesis using kernel_okD(5) [OF ok] by (simp add: kernel_ok_def sched_ok_split [of _ t] period_ok_def)
qed

lemma ready_group_nz:
  assumes s: "sched_ok k" and r: "stat_of (threads k t) = RT_THREAD_READY"
  shows "ready_group k \<noteq> 0"
proof
  assume z: "ready_group k = 0"
  have t: "t \<in> set (lists k (LReady (prio t k)))" using sched_okD(3) [OF s, of t] r by (simp add: own_ok_def)
  then have "prio t k < 32" using base_okD(3) [OF sched_okD(1) [OF s]] unfolding ready_ok_def by blast
  then have "lists k (LReady (prio t k)) = []" using base_okD(2) [OF sched_okD(1) [OF s]] z by (simp add: group_ok_def)
  with t show False by simp
qed

text \<open>If some thread other than \<open>t\<close> is ready, one is still ready after \<open>t\<close> left.\<close>

lemma ready_group_mono:
  assumes ok: "kernel_ok k" "kernel_ok k'" and s: "stat_of (threads k t) = RT_THREAD_RUNNING"
    and l: "\<And>l. lists k' l = removeAll t (lists k l)" and g: "ready_group k \<noteq> 0"
  shows "ready_group k' \<noteq> 0"
proof -
  obtain u us hp where u: "lists k (LReady hp) = u # us" "hp < 32"
    using highest_ok [OF kernel_okD(4) [OF ok(1)] g] by metis
  have "t \<notin> set (lists k (LReady hp))"
    using not_listed [OF kernel_okD(4) [OF ok(1)], of t] s by (simp add: nolist_def)
  then have "u \<in> set (lists k' (LReady hp))" using u l by auto
  then show ?thesis using base_okD(2) [OF kernel_okD(4) [OF ok(2)]] u(2) by (auto simp: group_ok_def)
qed

lemma no_ready_elsewhere:
  assumes "base_ok k" "stat_of (threads k t) = RT_THREAD_READY" "\<forall>p. l \<noteq> LReady p"
  shows "t \<notin> set (lists k l)"
  using base_okD(4) [OF assms(1)] assms(2,3) by (cases l) (auto simp: wait_ok_def)

lemma no_timer: "kernel_ok k \<Longrightarrow> stat_of (threads k t) \<noteq> RT_THREAD_SUSPEND \<Longrightarrow> TThread t \<notin> set (timer_list k)"
  by (drule kernel_okD(3)) (auto simp: tt_ok_def)

lemma timer_upd_kernel:
  assumes ok: "kernel_ok k" and f: "i \<in> set (timer_list k) \<Longrightarrow> timeout_tick (f (timers k i)) = timeout_tick (timers k i)
      \<and> tm_active (f (timers k i)) = tm_active (timers k i)"
    and p: "\<And>t. i = TThread t \<Longrightarrow> \<not> tm_periodic (f (timers k i))"
      "\<And>u. i = TUser u \<Longrightarrow> i \<in> set (timer_list k) \<Longrightarrow> tm_periodic (f (timers k i)) \<Longrightarrow>
        0 < tm_init_tick (f (timers k i)) \<and> tm_init_tick (f (timers k i)) < HALF_TICK"
  shows "kernel_ok (upd_timer i f k)"
proof -
  have "sched_ok (upd_timer i f k)" using kernel_okD(1) [OF ok] by (subst sched_ok_cong [of _ k]) simp_all
  moreover have "sorted_from (rt_tick k) 0x7fffffff k" using kernel_okD(2) [OF ok] by (simp add: timers_ok_def)
  then have "sorted_from (rt_tick k) 0x7fffffff (upd_timer i f k)" by (rule sorted_from_cong) (auto simp: f)
  then have "timers_ok (upd_timer i f k)" by (simp add: timers_ok_def)
  moreover have "tt_ok (upd_timer i f k)" using kernel_okD(3) [OF ok] by (simp add: tt_ok_def)
  moreover have "period_ok (upd_timer i f k)" using kernel_okD(5) [OF ok] p by (auto simp: period_ok_def)
  ultimately show ?thesis by (simp add: kernel_ok_def)
qed

lemma timer_remove_kernel: "kernel_ok k \<Longrightarrow> kernel_ok (rt_timer_remove i k)"
  using timers_ok_remove sched_ok_cong [of "rt_timer_remove i k" k] period_ok_remove [of k i]
  by (auto simp: kernel_ok_def tt_ok_def)

lemma set_time_kernel: "kernel_ok k \<Longrightarrow> kernel_ok (snd (rt_timer_control (TThread t) (TIMER_SET_TIME v) k))"
  by (auto simp: rt_timer_control_def kernel_okD(5) [unfolded period_ok_def] intro!: timer_upd_kernel)

text \<open>A user's timer may be started at any time, a thread's timer while the thread is suspended.\<close>

lemma timer_start_kernel:
  assumes ok: "kernel_ok k" and s: "\<forall>t. i = TThread t \<longrightarrow> stat_of (threads k t) = RT_THREAD_SUSPEND"
    and p: "\<forall>u. i = TUser u \<longrightarrow> tm_periodic (timers k i) \<longrightarrow> 0 < tm_init_tick (timers k i)"
    and r: "rt_timer_start i k = Some k'"
  shows "kernel_ok k'"
proof -
  note fr = timer_start_frame [OF r]
  have "sched_ok k'" using kernel_okD(1) [OF ok] sched_ok_cong [OF fr(1-4)] by simp
  moreover have "timers_ok k'" by (rule timers_ok_start [OF kernel_okD(2) [OF ok] r])
  moreover have "tt_ok k'" using kernel_okD(3) [OF ok] s fr(1,8) by (auto simp: tt_ok_def)
  moreover have "period_ok k'" using kernel_okD(5) [OF ok] p fr(8-11) by (auto simp: period_ok_def)
  ultimately show ?thesis by (simp add: kernel_ok_def)
qed

lemma timer_stop_kernel: "kernel_ok k \<Longrightarrow> kernel_ok (snd (rt_timer_stop i k))"
  using timers_ok_stop [of k i] sched_ok_cong [of "snd (rt_timer_stop i k)" k] timer_stop_list [of i k] period_ok_stop [of k i]
  by (auto simp: kernel_ok_def tt_ok_def)

section \<open>Every operation keeps the invariant\<close>

lemma thread_init_kernel:
  assumes ok: "kernel_ok k" and n: "nolist t k" "TThread t \<notin> set (timer_list k)" and p: "unat p < 32"
  obtains k' where "rt_thread_init t st p tick k = Some k'" "kernel_ok k'" "stat_of (threads k' t) = RT_THREAD_INIT"
    "init_priority (threads k' t) = p" "current k' = current k" "nolist t k'"
proof -
  let ?f = "\<lambda>th. th\<lparr>init_priority := p, current_priority := p, number_mask := 0, init_tick := tick, remaining_tick := tick,
     t_error := 0, stat := 0, is_static := st, has_cleanup := False\<rparr>"
  have "kernel_ok (upd_thread t ?f k)" by (rule upd_idle_kernel [OF ok n]) (simp_all add: stat_of_def started_def)
  then have "kernel_ok (rt_timer_init_obj (TThread t) 0 False (upd_thread t ?f k))"
    using n(2) unfolding rt_timer_init_obj_def by (intro timer_upd_kernel) simp_all
  with p n that show ?thesis by (simp add: rt_thread_init_def Let_def rt_timer_init_obj_def stat_of_def nolist_def)
qed

lemma startup_kernel:
  assumes ok: "kernel_ok k" and s: "stat_of (threads k t) = RT_THREAD_INIT" and p: "unat (init_priority (threads k t)) < 32"
  obtains k' where "rt_thread_startup t k = Some k'" "kernel_ok k'"
    "current k \<noteq> None \<and> lock_nest k = 0 \<longrightarrow> current k' \<noteq> None \<and> (current k \<noteq> Some t \<longrightarrow> scheduled k')"
    "current k = None \<longrightarrow> stat_of (threads k' t) = RT_THREAD_READY"
proof -
  let ?f = "\<lambda>th. th\<lparr>current_priority := init_priority th, number_mask := 2 ^ unat (init_priority th), stat := 2\<rparr>"
  let ?k1 = "upd_thread t ?f k"
  have n: "nolist t k" using s by (intro not_listed [OF kernel_okD(4) [OF ok]]) auto
  have ok1: "kernel_ok ?k1"
    by (rule upd_idle_kernel [OF ok n no_timer [OF ok]]) (use s p in \<open>simp_all add: stat_of_def\<close>)
  have s1: "stat_of (threads ?k1 t) = RT_THREAD_SUSPEND" by (simp add: stat_of_def)
  let ?k2 = "snd (rt_thread_resume t ?k1)"
  note res = resume_kernel [OF ok1 s1]
  have fold: "upd_thread t (\<lambda>th. th\<lparr>stat := 2\<rparr>) (upd_thread t (\<lambda>th. th\<lparr>number_mask := 2 ^ unat (init_priority (threads k t))\<rparr>)
      (upd_thread t (\<lambda>th. th\<lparr>current_priority := init_priority th\<rparr>) k)) = ?k1" by (simp add: upd_thread_def)
  have e: "rt_thread_startup t k = (if current k \<noteq> None then rt_schedule ?k2 else Some ?k2)"
  proof -
    have "shl1 (current_priority (threads (upd_thread t (\<lambda>th. th\<lparr>current_priority := init_priority th\<rparr>) k) t))
        = Some (2 ^ unat (init_priority (threads k t)))" using p by (simp add: shl1_def)
    then show ?thesis
      by (simp only: rt_thread_startup_def Let_def s RT_ASSERT_simps Option.bind.simps fold rt_thread_self_def res(3)
          upd_thread_simps simp_thms)
  qed
  show ?thesis
  proof (cases "current k = None")
    case True
    with that [of ?k2] e res show ?thesis by simp
  next
    case False
    then have c2: "current ?k2 \<noteq> None" using res(3) by simp
    obtain k' where r: "rt_schedule ?k2 = Some k'" "kernel_ok k'"
      "lock_nest ?k2 = 0 \<and> ready_group ?k2 \<noteq> 0 \<longrightarrow> scheduled k'" "current k' \<noteq> None"
      by (rule schedule_kernel [OF res(2) c2])
    have "ready_group ?k2 \<noteq> 0" if "current k \<noteq> Some t"
      using res(10) that by (intro ready_group_nz [OF kernel_okD(1) [OF res(2)], of t]) simp
    then show ?thesis using that [of k'] r e False res(5) by simp
  qed
qed

text \<open>Closing a thread: it leaves the scheduler and its timer stops; unless it is static and has no cleanup
  function, it goes to the defunct list.\<close>

lemma close_kernel:
  assumes ok: "kernel_ok k" and s: "stat_of (threads k t) = RT_THREAD_INIT \<or> started (threads k t)"
    and k1: "k1 = (if stat_of (threads k t) \<noteq> RT_THREAD_INIT then rt_schedule_remove_thread t k else k)"
    and k2: "k2 = upd_thread t (\<lambda>th. th\<lparr>stat := RT_THREAD_CLOSE\<rparr>) (rt_timer_detach (TThread t) k1)"
  shows "kernel_ok k2" "nolist t k2" "kernel_ok (tlist_insert_after LDefunct t k2)"
proof -
  let ?f = "\<lambda>th. th\<lparr>stat := RT_THREAD_CLOSE\<rparr>"
  have n1: "nolist t k1"
    using not_listed [OF kernel_okD(4) [OF ok], of t] s k1 by (auto simp: started_def)
  then show n2: "nolist t k2" by (simp add: k2 rt_timer_detach_def nolist_def)
  have e: "k2 = rt_timer_remove (TThread t) (upd_thread t ?f k1)"
    by (simp add: k2 rt_timer_detach_def rt_timer_remove_def upd_thread_def)
  have cl: "stat_of (?f th) = RT_THREAD_CLOSE" for th :: thread by (simp add: stat_of_def)
  have "sched_ok (upd_thread t ?f k1)"
  proof (cases "stat_of (threads k t) = RT_THREAD_INIT")
    case True
    then have "kernel_ok (upd_thread t ?f k)"
      using n1 k1 by (intro upd_idle_kernel [OF ok _ no_timer [OF ok]]) (simp_all add: cl started_def)
    with True k1 show ?thesis by (simp add: kernel_ok_def)
  next
    case False
    with s k1 show ?thesis by (simp, intro remove_sched [OF kernel_okD(1) [OF ok]]) (simp_all add: cl)
  qed
  then have sk: "sched_ok k2" unfolding e by (subst sched_ok_cong [of _ "upd_thread t ?f k1"]) simp_all
  have "timers_ok (upd_thread t ?f k1)"
    using kernel_okD(2) [OF ok] k1 by (subst timers_ok_cong [of _ k]) simp_all
  then have tk: "timers_ok k2" unfolding e by (rule timers_ok_remove)
  have tt: "tt_ok k2" using kernel_okD(3) [OF ok] by (auto simp: tt_ok_def e k1)
  have pk: "period_ok k2" using kernel_okD(5) [OF ok] by (rule period_ok_cong [rotated 2]) (auto simp: e k1)
  show "kernel_ok k2" using sk tk tt pk by (simp add: kernel_ok_def)
  have "sched_ok (tlist_insert_after LDefunct t k2)"
    unfolding tlist_insert_after_def
  proof (rule list_insert_sched [OF sk n2])
    show "list_stat LDefunct (stat_of (threads k2 t))" by (simp add: list_stat_def k2 cl rt_timer_detach_def)
    show "distinct (t # lists k2 LDefunct)"
      using n2 base_okD(1) [OF sched_okD(1) [OF sk]] by (simp add: nolist_def lists_ok_def)
  qed simp
  moreover have "timers_ok (tlist_insert_after LDefunct t k2)" using tk by (subst timers_ok_cong [of _ k2]) simp_all
  ultimately show "kernel_ok (tlist_insert_after LDefunct t k2)" using tt pk by (simp add: kernel_ok_def tt_ok_def period_ok_def)
qed

lemma detach_kernel:
  assumes "kernel_ok k" "stat_of (threads k t) = RT_THREAD_INIT \<or> started (threads k t)" "is_static (threads k t)"
  obtains k' where "rt_thread_detach t k = Some k'" "kernel_ok k'"
  using close_kernel [OF assms(1,2) refl refl] assms(3) that by (auto simp: rt_thread_detach_def Let_def)

lemma delete_kernel:
  assumes "kernel_ok k" "stat_of (threads k t) = RT_THREAD_INIT \<or> started (threads k t)" "\<not> is_static (threads k t)"
  obtains k' where "rt_thread_delete t k = Some k'" "kernel_ok k'"
  using close_kernel [OF assms(1,2) refl refl] assms(3) that by (auto simp: rt_thread_delete_def Let_def)

lemma exit_kernel:
  assumes ok: "kernel_ok k" and c: "current k = Some t" "stat_of (threads k t) = RT_THREAD_RUNNING"
  obtains k' where "rt_thread_exit k = Some k'" "kernel_ok k'" "lock_nest k = 0 \<and> ready_group k \<noteq> 0 \<longrightarrow> scheduled k'"
proof -
  let ?f = "\<lambda>th. th\<lparr>stat := RT_THREAD_CLOSE\<rparr>"
  let ?k2 = "upd_thread t ?f (rt_timer_detach (TThread t) (rt_schedule_remove_thread t k))"
  let ?k3 = "if is_static (threads k t) \<and> \<not> has_cleanup (threads k t) then ?k2 else tlist_insert_after LDefunct t ?k2"
  have st: "stat_of (threads k t) = RT_THREAD_INIT \<or> started (threads k t)" using c by (simp add: started_def)
  have ok3: "kernel_ok ?k3"
    using close_kernel [OF ok st refl refl] c(2) by simp
  have e: "rt_timer_detach (TThread t) (upd_thread t ?f (rt_schedule_remove_thread t k)) = ?k2"
    by (simp add: rt_timer_detach_def rt_timer_remove_def upd_thread_def)
  have ex: "rt_thread_exit k = rt_schedule ?k3"
    using c by (simp add: rt_thread_exit_def rt_thread_self_def Let_def e) (auto simp: rt_timer_detach_def)
  have nl: "t \<notin> set (lists k (LReady p))" for p
    using not_listed [OF kernel_okD(4) [OF ok], of t] c by (simp add: nolist_def)
  have fr: "current ?k3 = Some t" "lock_nest ?k3 = lock_nest k" by (simp_all add: c rt_timer_detach_def)
  have rg: "ready_group k \<noteq> 0 \<Longrightarrow> ready_group ?k3 \<noteq> 0"
  proof -
    assume "ready_group k \<noteq> 0"
    then obtain u us hp where u: "lists k (LReady hp) = u # us" "hp < 32"
      using highest_ok [OF kernel_okD(4) [OF ok]] by metis
    have "u \<in> set (lists ?k3 (LReady hp))" using u nl [of hp] by (auto simp: rt_timer_detach_def)
    then show "ready_group ?k3 \<noteq> 0" using base_okD(2) [OF kernel_okD(4) [OF ok3]] u(2) by (auto simp: group_ok_def)
  qed
  obtain k' where "rt_schedule ?k3 = Some k'" "kernel_ok k'" "lock_nest ?k3 = 0 \<and> ready_group ?k3 \<noteq> 0 \<longrightarrow> scheduled k'"
    by (rule schedule_kernel [OF ok3]) (use fr in auto)
  with ex fr rg that show ?thesis by metis
qed

text \<open>The timeout of a thread; stated without the order of the timers, which is not settled while the tick
  handler runs.\<close>

lemma timeout_sched:
  assumes so: "sched_ok k" and tt: "tt_ok k" and s: "stat_of (threads k t) = RT_THREAD_SUSPEND"
    and c: "current k \<noteq> None" and n: "TThread t \<notin> set (timer_list k)"
  obtains k' where "rt_thread_timeout t k = Some k'" "sched_ok k'" "tt_ok k'" "timers k' = timers k"
    "timer_list k' = timer_list k" "rt_tick k' = rt_tick k" "current k' \<noteq> None" "irq_nest k' = irq_nest k"
    "lock_nest k' = lock_nest k" "t_error (threads k' t) = - RT_ETIMEOUT"
    "stat_of (threads k' t) = RT_THREAD_READY \<or> stat_of (threads k' t) = RT_THREAD_RUNNING"
    "\<And>u. u \<noteq> t \<Longrightarrow> stat_of (threads k u) \<notin> {RT_THREAD_READY, RT_THREAD_RUNNING} \<Longrightarrow> threads k' u = threads k u"
    "\<And>l. \<forall>p. l \<noteq> LReady p \<Longrightarrow> lists k' l = removeAll t (lists k l)"
proof -
  let ?f = "\<lambda>th. th\<lparr>t_error := - RT_ETIMEOUT\<rparr>"
  let ?k1 = "tlist_remove t (upd_thread t ?f k)"
  let ?k2 = "rt_schedule_insert_thread t ?k1"
  have s2: "sched_ok ?k2" by (rule wake_sched [OF so s, of _ ?f]) simp_all
  have oth: "threads ?k2 u = threads k u" if "u \<noteq> t" for u using that by (simp add: insert_threads)
  have tt2: "tt_ok ?k2"
    unfolding tt_ok_def
  proof (intro allI impI)
    fix u assume "TThread u \<in> set (timer_list ?k2)"
    then have u: "TThread u \<in> set (timer_list k)" by simp
    with n have "u \<noteq> t" by auto
    with u tt oth show "stat_of (threads ?k2 u) = 2" by (simp add: tt_ok_def)
  qed
  have c2: "current ?k2 \<noteq> None" using c by simp
  from rt_schedule_ok [OF s2 c2] obtain k' where r: "rt_schedule ?k2 = Some k'" "sched_ok k'"
    "lock_nest ?k2 = 0 \<and> ready_group ?k2 \<noteq> 0 \<longrightarrow> scheduled k'" "lock_nest ?k2 \<noteq> 0 \<or> ready_group ?k2 = 0 \<longrightarrow> k' = ?k2" by blast
  note fr = schedule_frame [OF s2 r(1)]
  have e: "rt_thread_timeout t k = Some k'" using s r(1) by (simp add: rt_thread_timeout_def Let_def)
  have cc: "current k' \<noteq> None"
    using r(3,4) c2 by (cases "lock_nest ?k2 = 0 \<and> ready_group ?k2 \<noteq> 0") (auto simp: scheduled_def)
  have er: "t_error (threads ?k2 t) = - RT_ETIMEOUT" by (simp add: rt_schedule_insert_thread_def Let_def)
  then have er': "t_error (threads k' t) = - RT_ETIMEOUT" using fr(6) [of t] by auto
  have ts: "stat_of (threads ?k2 t) = RT_THREAD_READY \<or> stat_of (threads ?k2 t) = RT_THREAD_RUNNING"
    by (simp add: rt_schedule_insert_thread_def Let_def)
  show ?thesis
  proof (rule that [OF e r(2) schedule_tt [OF s2 tt2 r(1)] _ _ _ cc _ _ er'])
    show "timers k' = timers k" "timer_list k' = timer_list k" "rt_tick k' = rt_tick k" "irq_nest k' = irq_nest k"
      "lock_nest k' = lock_nest k" using fr(1-5) by simp_all
    show "stat_of (threads k' t) = 1 \<or> stat_of (threads k' t) = 3" by (rule schedule_alive [OF s2 r(1) ts])
    show "threads k' u = threads k u" if "u \<noteq> t" "stat_of (threads k u) \<notin> {1, 3}" for u
      using fr(7) [of u] oth [OF that(1)] that(2) by simp
    show "lists k' l = removeAll t (lists k l)" if "\<forall>p. l \<noteq> LReady p" for l
      using fr(8) [OF that] that by (simp add: insert_lists)
  qed
qed

lemma sleep_kernel:
  assumes ok: "kernel_ok k" and c: "current k = Some t" "stat_of (threads k t) = RT_THREAD_RUNNING" and d: "tick < HALF_TICK"
  obtains k' where "rt_thread_sleep_begin tick k = Some k'" "kernel_ok k'"
    "TThread t \<in> set (timer_list k')" "key (rt_tick k) k' (TThread t) = unat tick" "rt_tick k' = rt_tick k"
    "stat_of (threads k' t) = RT_THREAD_SUSPEND" "nolist t k'"
    "lock_nest k = 0 \<and> ready_group k \<noteq> 0 \<longrightarrow> scheduled k'"
    "set (timer_list k') \<subseteq> insert (TThread t) (set (timer_list k))"
proof -
  let ?i = "TThread t"
  obtain k1 where k1: "rt_thread_suspend t k = Some (RT_EOK, k1)" "kernel_ok k1" "nolist t k1"
    "stat_of (threads k1 t) = RT_THREAD_SUSPEND" "current k1 = current k" "rt_tick k1 = rt_tick k"
    "lock_nest k1 = lock_nest k" "\<And>l. lists k1 l = removeAll t (lists k l)"
    "set (timer_list k1) \<subseteq> set (timer_list k)"
    by (rule suspend_kernel [OF ok]) (use c in auto)
  let ?k2 = "snd (rt_timer_control ?i (TIMER_SET_TIME tick) k1)"
  have ok2: "kernel_ok ?k2" by (rule set_time_kernel [OF k1(2)])
  have i2: "tm_init_tick (timers ?k2 ?i) = tick" by (simp add: rt_timer_control_def)
  with d obtain k3 where k3: "rt_timer_start ?i ?k2 = Some k3" using timer_start_returns by fastforce
  note fr = timer_start_frame [OF k3]
  have ok3: "kernel_ok k3" by (rule timer_start_kernel [OF ok2 _ _ k3]) (simp_all add: k1(4))
  have so2: "sorted_from (rt_tick ?k2) 0x7fffffff ?k2" using kernel_okD(2) [OF ok2] by (simp add: timers_ok_def)
  have key3: "key (rt_tick k) k3 ?i = unat tick"
    using timer_start_place(2) [OF so2 disjI1 [OF refl] _ k3] i2 k1(6) by simp
  have c3: "current k3 \<noteq> None" using fr(4) k1(5) c by simp
  obtain k4 where k4: "rt_schedule k3 = Some k4" "kernel_ok k4" "lock_nest k3 = 0 \<and> ready_group k3 \<noteq> 0 \<longrightarrow> scheduled k4"
    by (rule schedule_kernel [OF ok3 c3])
  note fr4 = schedule_frame [OF kernel_okD(1) [OF ok3] k4(1)]
  have s3: "stat_of (threads k3 t) = RT_THREAD_SUSPEND" using fr(1) k1(4) by simp
  have rg: "ready_group k \<noteq> 0 \<Longrightarrow> ready_group k3 \<noteq> 0"
    using ready_group_mono [OF ok ok3, of t] c(2) fr(2) k1(8) by simp
  show ?thesis
  proof (rule that)
    show "rt_thread_sleep_begin tick k = Some k4"
      using c k1(1) k3 k4(1) by (simp add: rt_thread_sleep_begin_def rt_thread_self_def Let_def)
    show "kernel_ok k4" by (rule k4(2))
    show "?i \<in> set (timer_list k4)" using fr4(2) fr(8) by simp
    show "set (timer_list k4) \<subseteq> insert ?i (set (timer_list k))" using fr4(2) fr(8) k1(9) by auto
    show "key (rt_tick k) k4 ?i = unat tick" using key3 fr4(1) by (simp add: key_def)
    show "rt_tick k4 = rt_tick k" using fr4(3) fr(7) k1(6) by simp
    show s4: "stat_of (threads k4 t) = RT_THREAD_SUSPEND" using fr4(7) [of t] s3 by simp
    show "lock_nest k = 0 \<and> ready_group k \<noteq> 0 \<longrightarrow> scheduled k4" using k4(3) fr(5) k1(7) rg by simp
    show "nolist t k4"
      unfolding nolist_def
    proof
      fix l
      show "t \<notin> set (lists k4 l)"
        using base_okD(3) [OF kernel_okD(4) [OF k4(2)]] s4 fr4(8) [of l] fr(2) k1(3)
        by (cases l) (auto simp: ready_ok_def nolist_def)
    qed
  qed
qed

text \<open>A new priority: the thread moves to the other ready list if it is ready.\<close>

lemma priority_kernel:
  assumes ok: "kernel_ok k" and p: "unat p < 32"
  obtains k' where "rt_thread_control t (CTRL_CHANGE_PRIORITY p) k = Some k'" "kernel_ok k'"
    "current_priority (threads k' t) = p" "current k' = current k" "rt_tick k' = rt_tick k" "lock_nest k' = lock_nest k"
    "\<And>u. u \<noteq> t \<Longrightarrow> threads k' u = threads k u" "stat_of (threads k' t) = stat_of (threads k t)"
    "\<And>l. \<forall>p. l \<noteq> LReady p \<Longrightarrow> lists k' l = lists k l" "t_error (threads k' t) = t_error (threads k t)"
    "irq_nest k' = irq_nest k"
proof -
  let ?f = "\<lambda>th. th\<lparr>current_priority := p, number_mask := 2 ^ unat p\<rparr>"
  note so = kernel_okD(1) [OF ok] and b = kernel_okD(4) [OF ok]
  have fold: "upd_thread t (\<lambda>th. th\<lparr>number_mask := 2 ^ unat p\<rparr>) (upd_thread t (\<lambda>th. th\<lparr>current_priority := p\<rparr>) k) = upd_thread t ?f k" for k
    by (simp add: upd_thread_def)
  have sf: "stat_of (?f th) = stat_of th" for th :: thread by (simp add: stat_of_def)
  show ?thesis
  proof (cases "stat_of (threads k t) = RT_THREAD_READY")
    case True
    let ?k1 = "upd_thread t ?f (rt_schedule_remove_thread t k)"
    let ?k2 = "rt_schedule_insert_thread t ?k1"
    have st: "started (threads k t)" using True by (simp add: started_def)
    have b1: "base_ok ?k1" by (intro upd_thread_base remove_base [OF b st]) (simp_all add: p)
    have o1: "others_ok t ?k1" using sched_okD(2) [OF so, of t] by blast
    have "sched_ok ?k2" by (rule insert_sched [OF b1 o1]) (simp_all add: prio_def p)
    moreover have "timers_ok ?k2" using kernel_okD(2) [OF ok] by (subst timers_ok_cong [of _ k]) simp_all
    moreover have "tt_ok ?k2"
      using kernel_okD(3) [OF ok] no_timer [OF ok, of t] True insert_threads(1) [of _ t ?k1]
      by (auto simp: tt_ok_def) (metis fun_upd_apply insert_threads(1) remove_frame(1) upd_thread_simps(1))
    moreover have "period_ok ?k2" using kernel_okD(5) [OF ok] by (rule period_ok_cong [rotated 2]) simp_all
    moreover have nc: "current k \<noteq> Some t" using sched_okD(3) [OF so, of t] True by (auto simp: own_ok_def)
    ultimately show ?thesis
      using that [of ?k2] True p insert_other [of ?k1 t] no_ready_elsewhere [OF b, of t]
      by (simp add: rt_thread_control_def shl1_def fold kernel_ok_def Let_def insert_lists removeAll_id)
  next
    case False
    let ?k1 = "upd_thread t ?f k"
    have nr: "t \<notin> set (lists k (LReady q))" for q using base_okD(3) [OF b] False by (auto simp: ready_ok_def)
    have "base_ok ?k1"
      using b nr p False by (auto simp: base_defs sf started_def)
    moreover have "own_ok t ?k1" using sched_okD(3) [OF so, of t] False by (simp add: own_ok_def sf)
    moreover have "others_ok t ?k1" using sched_okD(2) [OF so, of t] by blast
    moreover have "timers_ok ?k1" using kernel_okD(2) [OF ok] by (subst timers_ok_cong [of _ k]) simp_all
    moreover have "tt_ok ?k1" using kernel_okD(3) [OF ok] by (simp add: tt_ok_def sf)
    moreover have "period_ok ?k1" using kernel_okD(5) [OF ok] by (simp add: period_ok_def)
    ultimately show ?thesis
      using that [of ?k1] False p by (simp add: rt_thread_control_def shl1_def fold kernel_ok_def Let_def sf sched_ok_split [of _ t])
  qed
qed

section \<open>Properties\<close>

text \<open>\<^verbatim>\<open>rt_thread_yield\<close> does not yield to threads of equal priority. A running thread whose time slice has not
  ended (its yield flag is clear, as it is after every switch) calls it with another thread of its priority
  ready: the call returns with the caller still running and the other thread still waiting, although the
  comment says that the scheduler chooses another thread and leaves the caller ready.\<close>

lemma yield_keeps_processor:
  assumes "sched_ok k" "lock_nest k = 0" "current k = Some c" "stat_of (threads k c) = RT_THREAD_RUNNING"
    "lists k (LReady (prio c k)) = t # ts" "\<forall>p < prio c k. lists k (LReady p) = []"
    "stat (threads k c) AND RT_THREAD_STAT_YIELD = 0"
  shows "\<exists>k'. rt_thread_yield k = Some k' \<and> current k' = Some c \<and> lists k' (LReady (prio c k)) = t # ts"
  using round_robin [OF assms(1-6)] assms(7) by (auto simp: rt_thread_yield_def)

lemma delay_until_is_sleep:
  "rt_tick k - tick < inc \<Longrightarrow> rt_thread_delay_until_begin tick inc k =
     map_option (\<lambda>k'. (rt_tick k - tick + inc, True, k')) (rt_thread_sleep_begin (rt_tick k - tick + inc) k)"
  by (auto simp: rt_thread_delay_until_begin_def rt_thread_sleep_begin_def Let_def rt_thread_self_def
      split: Option.bind_split)

text \<open>\<^verbatim>\<open>rt_thread_delay_until\<close> overshoots. Called \<open>e\<close> ticks after \<^verbatim>\<open>*tick\<close>, it puts the thread to sleep until
  \<^verbatim>\<open>*tick + inc_tick + 2 * e\<close>, while the comment promises \<^verbatim>\<open>*tick + inc_tick\<close>; the two agree only for \<open>e = 0\<close>.\<close>

lemma delay_until_overshoots:
  assumes "kernel_ok k" "current k = Some t" "stat_of (threads k t) = RT_THREAD_RUNNING"
    "e = rt_tick k - tick" "e < inc" "e + inc < HALF_TICK"
  shows "\<exists>k'. rt_thread_delay_until_begin tick inc k = Some (e + inc, True, k')
    \<and> TThread t \<in> set (timer_list k') \<and> timeout_tick (timers k' (TThread t)) = tick + inc + 2 * e"
proof -
  obtain k' where k': "rt_thread_sleep_begin (e + inc) k = Some k'" "TThread t \<in> set (timer_list k')"
    "key (rt_tick k) k' (TThread t) = unat (e + inc)"
    by (rule sleep_kernel [OF assms(1-3,6)])
  have "timeout_tick (timers k' (TThread t)) - rt_tick k = e + inc"
    using k'(3) by (simp add: key_def word_unat_eq_iff)
  then have "timeout_tick (timers k' (TThread t)) = rt_tick k + (e + inc)" by (metis add.commute diff_add_cancel)
  also have "\<dots> = tick + inc + 2 * e" using assms(4) by (simp add: algebra_simps)
  finally show ?thesis using k' delay_until_is_sleep [of k tick inc] assms(4,5) by simp
qed

end
