(* ===== verification/Clock.thy ===== *)
theory Clock
  imports Thread
begin

text \<open>
  RTT4/src/clock.c, RTT4/src/irq.c and \<^verbatim>\<open>rt_timer_check\<close> of RTT4/src/timer.c: the tick interrupt. The timeout
  functions of user timers are an argument; those of thread timers are \<^verbatim>\<open>rt_thread_timeout\<close>.
  \<^verbatim>\<open>rt_timer_check\<close> is a loop that need not end, so it is a partial function, with \<open>None\<close> for not returning.
\<close>

section \<open>Operations\<close>

definition rt_interrupt_enter :: "kernel \<Rightarrow> kernel" where
  "rt_interrupt_enter k = k\<lparr>irq_nest := irq_nest k + 1\<rparr>"

definition rt_interrupt_leave :: "kernel \<Rightarrow> kernel" where
  "rt_interrupt_leave k = k\<lparr>irq_nest := irq_nest k - 1\<rparr>"

definition rt_interrupt_get_nest :: "kernel \<Rightarrow> u8" where
  "rt_interrupt_get_nest k = irq_nest k"

definition rt_tick_get :: "kernel \<Rightarrow> u32" where
  "rt_tick_get k = rt_tick k"

definition rt_tick_set :: "u32 \<Rightarrow> kernel \<Rightarrow> kernel" where
  "rt_tick_set tick k = k\<lparr>rt_tick := tick\<rparr>"

definition timeout_func :: "(nat \<Rightarrow> kernel \<Rightarrow> kernel option) \<Rightarrow> timer_id \<Rightarrow> kernel \<Rightarrow> kernel option" where
  "timeout_func cb i k = (case i of TThread t \<Rightarrow> rt_thread_timeout t k | TUser u \<Rightarrow> cb u k)"

partial_function (option) timer_check_loop ::
  "(nat \<Rightarrow> kernel \<Rightarrow> kernel option) \<Rightarrow> u32 \<Rightarrow> kernel \<Rightarrow> kernel option" where
  "timer_check_loop cb current_tick k =
     (case timer_list k of
        [] \<Rightarrow> Some k
      | i # is \<Rightarrow>
          if current_tick - timeout_tick (timers k i) < HALF_TICK then do {
            let k = rt_timer_remove i k;
            k \<leftarrow> timeout_func cb i k;
            let current_tick = rt_tick_get k;
            let deact = upd_timer i (\<lambda>tm. tm\<lparr>tm_active := False\<rparr>) k;
            if tm_periodic (timers k i) \<and> tm_active (timers k i)
            then do { k \<leftarrow> rt_timer_start i deact; timer_check_loop cb current_tick k }
            else timer_check_loop cb current_tick deact }
          else Some k)"

definition rt_timer_check :: "(nat \<Rightarrow> kernel \<Rightarrow> kernel option) \<Rightarrow> kernel \<Rightarrow> kernel option" where
  "rt_timer_check cb k = timer_check_loop cb (rt_tick_get k) k"

text \<open>The time slice of the current thread.\<close>

definition tick_slice :: "kernel \<Rightarrow> kernel option" where
  "tick_slice k = do {
     thread \<leftarrow> rt_thread_self k;
     let k = upd_thread thread (\<lambda>th. th\<lparr>remaining_tick := remaining_tick th - 1\<rparr>) k;
     if remaining_tick (threads k thread) = 0 then do {
       let k = upd_thread thread (\<lambda>th. th\<lparr>remaining_tick := init_tick th\<rparr>) k;
       let k = upd_thread thread (\<lambda>th. th\<lparr>stat := stat th OR RT_THREAD_STAT_YIELD\<rparr>) k;
       rt_thread_yield k }
     else Some k }"

definition rt_tick_increase :: "(nat \<Rightarrow> kernel \<Rightarrow> kernel option) \<Rightarrow> kernel \<Rightarrow> kernel option" where
  "rt_tick_increase cb k = do {
     let k = k\<lparr>rt_tick := rt_tick k + 1\<rparr>;
     k \<leftarrow> tick_slice k;
     rt_timer_check cb k }"

text \<open>\<^verbatim>\<open>rt_tick_from_millisecond\<close>, with C's signed division and \<^verbatim>\<open>RT_TICK_PER_SECOND\<close> 1000; the signed products stay in
  range for every argument.\<close>

definition rt_tick_from_millisecond :: "u32 \<Rightarrow> u32" where
  "rt_tick_from_millisecond ms =
     (if sint ms < 0 then 0xffffffff
      else word_of_int (1000 * (sint ms div 1000)) + word_of_int ((1000 * (sint ms mod 1000) + 999) div 1000))"

definition rt_thread_mdelay_begin :: "u32 \<Rightarrow> kernel \<Rightarrow> kernel option" where
  "rt_thread_mdelay_begin ms k = rt_thread_sleep_begin (rt_tick_from_millisecond ms) k"

section \<open>The state inside the tick handler\<close>

definition alive :: "nat \<Rightarrow> kernel \<Rightarrow> bool" where
  "alive t k \<longleftrightarrow> stat_of (threads k t) = RT_THREAD_READY \<or> stat_of (threads k t) = RT_THREAD_RUNNING"

definition due :: "kernel \<Rightarrow> timer_id \<Rightarrow> bool" where
  "due k i \<longleftrightarrow> rt_tick k - timeout_tick (timers k i) < HALF_TICK"

text \<open>Once the tick is counted, timers may be up to one tick late.\<close>

definition tick_inv :: "kernel \<Rightarrow> bool" where
  "tick_inv k \<longleftrightarrow> sched_ok k \<and> tt_ok k \<and> current k \<noteq> None \<and> sorted_from (rt_tick k - 1) 0x80000000 k
     \<and> period_ok k"

text \<open>What the timeout function of a user timer may do: everything but starting or changing timers; a thread
  whose timer it stops has been woken, and it leaves runnable threads runnable.\<close>

definition callbacks_ok :: "(nat \<Rightarrow> kernel \<Rightarrow> kernel option) \<Rightarrow> bool" where
  "callbacks_ok cb \<longleftrightarrow> (\<forall>u k. tick_inv k \<longrightarrow> (\<exists>k'. cb u k = Some k' \<and> tick_inv k' \<and> rt_tick k' = rt_tick k
     \<and> timers k' (TUser u) = timers k (TUser u)
     \<and> set (timer_list k') \<subseteq> set (timer_list k) \<and> (\<forall>i \<in> set (timer_list k'). timers k' i = timers k i)
     \<and> (\<forall>t. alive t k \<longrightarrow> alive t k')
     \<and> (\<forall>t. TThread t \<in> set (timer_list k) - set (timer_list k') \<longrightarrow> alive t k')))"

lemma schedule_alive': "sched_ok k \<Longrightarrow> rt_schedule k = Some k' \<Longrightarrow> alive t k \<Longrightarrow> alive t k'"
  using schedule_alive by (simp add: alive_def)

lemma timeout_alive:
  assumes so: "sched_ok k" and s: "stat_of (threads k v) = RT_THREAD_SUSPEND" and r: "rt_thread_timeout v k = Some k'"
    and a: "alive u k"
  shows "alive u k'"
proof -
  let ?f = "\<lambda>th. th\<lparr>t_error := - RT_ETIMEOUT\<rparr>"
  let ?k2 = "rt_schedule_insert_thread v (tlist_remove v (upd_thread v ?f k))"
  have s2: "sched_ok ?k2" by (rule wake_sched [OF so s, of _ ?f]) simp_all
  have "rt_schedule ?k2 = Some k'" using s r by (simp add: rt_thread_timeout_def Let_def)
  moreover have "u \<noteq> v" using s a by (auto simp: alive_def)
  then have "alive u ?k2" using a by (simp add: alive_def insert_threads)
  ultimately show ?thesis using schedule_alive' [OF s2] by blast
qed

lemma due_key:
  assumes "key (rt_tick k - 1) k i < 0x80000000"
  shows "due k i \<longleftrightarrow> key (rt_tick k - 1) k i \<le> 1"
proof -
  let ?tt = "timeout_tick (timers k i)"
  have one: "unat (rt_tick k - (rt_tick k - 1)) = 1" by simp
  have d: "due k i \<longleftrightarrow> unat (rt_tick k - ?tt) < 0x7fffffff" by (simp add: due_def word_less_nat_alt)
  show ?thesis
  proof (cases "key (rt_tick k - 1) k i \<le> 1")
    case True
    then have "unat (rt_tick k - ?tt) = 1 - key (rt_tick k - 1) k i"
      using tick_diff(1) [of ?tt "rt_tick k - 1" "rt_tick k"] one by (simp add: key_def)
    with True d show ?thesis by simp
  next
    case False
    then have "unat (rt_tick k - ?tt) = 4294967296 - (key (rt_tick k - 1) k i - 1)"
      using tick_diff(2) [of "rt_tick k" "rt_tick k - 1" ?tt] one by (simp add: key_def)
    with False assms d show ?thesis by auto
  qed
qed

lemma tick_inv_due:
  assumes "tick_inv k" "i \<in> set (timer_list k)"
  shows "due k i \<longleftrightarrow> key (rt_tick k - 1) k i \<le> 1"
  using assms by (intro due_key) (auto simp: tick_inv_def sorted_from_def)

text \<open>When the first timer is not due, none is.\<close>

lemma head_not_due:
  assumes t: "tick_inv k" and l: "timer_list k = i # is" and d: "\<not> due k i"
  shows "\<forall>j \<in> set (timer_list k). \<not> due k j"
proof
  fix j assume j: "j \<in> set (timer_list k)"
  have "sorted (map (key (rt_tick k - 1) k) (i # is))" using t l by (simp add: tick_inv_def sorted_from_def)
  then have "key (rt_tick k - 1) k i \<le> key (rt_tick k - 1) k j" using j l by auto
  with tick_inv_due [OF t, of i] tick_inv_due [OF t j] d l show "\<not> due k j" by simp
qed

lemma tick_inv_remove:
  assumes "tick_inv k"
  shows "tick_inv (rt_timer_remove i k)"
proof -
  have "sched_ok (rt_timer_remove i k) = sched_ok k" by (rule sched_ok_cong) simp_all
  with assms sorted_from_remove [of "rt_tick k - 1" "0x80000000" k i] show ?thesis by (auto simp: tick_inv_def tt_ok_def period_ok_def)
qed

lemma tick_inv_deact:
  assumes "tick_inv k" "i \<notin> set (timer_list k)"
  shows "tick_inv (upd_timer i (\<lambda>tm. tm\<lparr>tm_active := v\<rparr>) k)"
proof -
  let ?k = "upd_timer i (\<lambda>tm. tm\<lparr>tm_active := v\<rparr>) k"
  have "sched_ok ?k = sched_ok k" by (rule sched_ok_cong) simp_all
  moreover have "sorted_from (rt_tick k - 1) 0x80000000 k" using assms(1) by (simp add: tick_inv_def)
  then have "sorted_from (rt_tick k - 1) 0x80000000 ?k"
    using assms(2) by (rule_tac sorted_from_cong) auto
  ultimately show ?thesis using assms by (auto simp: tick_inv_def tt_ok_def period_ok_def)
qed

lemma tick_inv_start:
  assumes t: "tick_inv k" and u: "i = TUser u" and p: "0 < tm_init_tick (timers k i)" and r: "rt_timer_start i k = Some k'"
  shows "tick_inv k'" "\<not> due k' i" "\<And>j. j \<noteq> i \<Longrightarrow> timers k' j = timers k j"
proof -
  note fr = timer_start_frame [OF r]
  have s: "sorted_from (rt_tick k - 1) 0x80000000 k" using t by (simp add: tick_inv_def)
  note pl = timer_start_place [OF s disjI2 [OF refl] _ r]
  have s': "sorted_from (rt_tick k - 1) 0x80000000 k'" by (rule timer_start_sorted [OF s _ _ r]) simp_all
  have sc: "sched_ok k'" using t sched_ok_cong [OF fr(1-4)] by (simp add: tick_inv_def)
  have h: "tm_init_tick (timers k i) < HALF_TICK" using r by (simp add: rt_timer_start_def Let_def)
  have pi: "timers k' i = (timers k i)\<lparr>timeout_tick := rt_tick k + tm_init_tick (timers k i), tm_active := True\<rparr>" using pl(3) by simp
  show o: "\<And>j. j \<noteq> i \<Longrightarrow> timers k' j = timers k j" using pl(4) by simp
  have "period_ok k'"
    unfolding period_ok_def
  proof (intro conjI allI impI)
    fix v assume v: "TUser v \<in> set (timer_list k')" "tm_periodic (timers k' (TUser v))"
    show "0 < tm_init_tick (timers k' (TUser v))" "tm_init_tick (timers k' (TUser v)) < HALF_TICK"
      using v t fr(8) o pi p h u by (cases "v = u"; auto simp: tick_inv_def period_ok_def)+
  next
    fix t'
    show "\<not> tm_periodic (timers k' (TThread t'))" using t o u by (simp add: tick_inv_def period_ok_def)
  qed
  moreover
  have "tt_ok k'" using t fr(1,8) u by (auto simp: tick_inv_def tt_ok_def)
  ultimately show ti: "tick_inv k'" using sc t s' fr by (simp add: tick_inv_def)
  have "key (rt_tick k' - 1) k' i = 1 + unat (tm_init_tick (timers k i))" using pl(2) fr(7) by simp
  moreover have "0 < unat (tm_init_tick (timers k i))" using p by (simp add: word_less_nat_alt)
  ultimately show "\<not> due k' i" using tick_inv_due [OF ti, of i] fr(8) by simp
qed

section \<open>The timer check\<close>

lemma rt_thread_timeout_tick:
  assumes t: "tick_inv k" and i: "TThread v \<notin> set (timer_list k)" and s: "stat_of (threads k v) = RT_THREAD_SUSPEND"
  obtains k' where "rt_thread_timeout v k = Some k'" "tick_inv k'" "rt_tick k' = rt_tick k" "timers k' = timers k"
    "timer_list k' = timer_list k" "alive v k'" "\<And>u. alive u k \<Longrightarrow> alive u k'"
proof -
  from t have h: "sched_ok k" "tt_ok k" "current k \<noteq> None" by (simp_all add: tick_inv_def)
  obtain k' where r: "rt_thread_timeout v k = Some k'" "sched_ok k'" "tt_ok k'" "timers k' = timers k"
    "timer_list k' = timer_list k" "rt_tick k' = rt_tick k" "current k' \<noteq> None" "alive v k'"
    by (rule timeout_sched [OF h(1,2) s h(3) i]) (auto simp: alive_def)
  have "tick_inv k'" using t r by (simp add: tick_inv_def period_ok_def sorted_from_def key_def [abs_def])
  moreover have "alive u k'" if a: "alive u k" for u
    using timeout_alive [OF h(1) s r(1) a] .
  ultimately show ?thesis using that r by blast
qed

text \<open>What carries over from one turn of the loop to the next: runnable threads stay runnable, and a thread
  with a running timer either is runnable now or keeps its timer; it keeps it in any case if the timer is not
  due and no user timer is running.\<close>

definition carry :: "kernel \<Rightarrow> kernel \<Rightarrow> bool" where
  "carry k k' \<longleftrightarrow> rt_tick k' = rt_tick k \<and> (\<forall>t. alive t k \<longrightarrow> alive t k')
     \<and> (\<forall>t. TThread t \<in> set (timer_list k) \<longrightarrow> alive t k' \<or>
          TThread t \<in> set (timer_list k') \<and> timers k' (TThread t) = timers k (TThread t))
     \<and> ((\<forall>u. TUser u \<notin> set (timer_list k)) \<longrightarrow> (\<forall>u. TUser u \<notin> set (timer_list k'))
        \<and> (\<forall>t. TThread t \<in> set (timer_list k) \<longrightarrow> \<not> due k (TThread t) \<longrightarrow>
             TThread t \<in> set (timer_list k') \<and> timers k' (TThread t) = timers k (TThread t)))"

lemma carry_trans: "carry k k1 \<Longrightarrow> carry k1 k2 \<Longrightarrow> carry k k2"
  unfolding carry_def due_def by (metis (no_types, lifting))

lemma carry_refl: "carry k k"
  by (simp add: carry_def)

definition due_set :: "kernel \<Rightarrow> timer_id set" where
  "due_set k = {i \<in> set (timer_list k). due k i}"

lemma check_turn_thread:
  assumes t: "tick_inv k" and l: "timer_list k = TThread v # is" and d: "due k (TThread v)"
  shows "\<exists>k1. timer_check_loop cb (rt_tick k) k = timer_check_loop cb (rt_tick k1) k1 \<and> tick_inv k1
    \<and> rt_tick k1 = rt_tick k \<and> due_set k1 \<subset> due_set k \<and> carry k k1"
proof -
  let ?i = "TThread v"
  let ?k0 = "rt_timer_remove ?i k"
  have t0: "tick_inv ?k0" by (rule tick_inv_remove [OF t])
  have s: "stat_of (threads ?k0 v) = RT_THREAD_SUSPEND" using t l by (simp add: tick_inv_def tt_ok_def)
  obtain k1 where r: "rt_thread_timeout v ?k0 = Some k1" "tick_inv k1" "rt_tick k1 = rt_tick ?k0" "timers k1 = timers ?k0"
    "timer_list k1 = timer_list ?k0" "alive v k1" "\<And>u. alive u ?k0 \<Longrightarrow> alive u k1"
    by (rule rt_thread_timeout_tick [OF t0 _ s]) auto
  let ?k2 = "upd_timer ?i (\<lambda>tm. tm\<lparr>tm_active := False\<rparr>) k1"
  have np: "\<not> tm_periodic (timers k1 ?i)" using r(4) t by (simp add: tick_inv_def period_ok_def)
  have e: "timer_check_loop cb (rt_tick k) k = timer_check_loop cb (rt_tick ?k2) ?k2"
    using l d r(1) np by (subst timer_check_loop.simps) (simp add: due_def timeout_func_def rt_tick_get_def Let_def)
  have t2: "tick_inv ?k2" using r(5) by (intro tick_inv_deact [OF r(2)]) simp
  have "due_set ?k2 = due_set k - {?i}" using r(3-5) by (auto simp: due_set_def due_def)
  moreover have "?i \<in> due_set k" using l d by (simp add: due_set_def)
  ultimately have "due_set ?k2 \<subset> due_set k" by blast
  moreover have "carry k ?k2"
    using r(3-7) d by (auto simp: carry_def alive_def)
  ultimately show ?thesis using e t2 r(3) by (intro exI [of _ ?k2]) simp
qed

lemma check_turn_user:
  assumes cb: "callbacks_ok cb" and t: "tick_inv k" and l: "timer_list k = TUser v # is" and d: "due k (TUser v)"
  shows "\<exists>k1. timer_check_loop cb (rt_tick k) k = timer_check_loop cb (rt_tick k1) k1 \<and> tick_inv k1
    \<and> rt_tick k1 = rt_tick k \<and> due_set k1 \<subset> due_set k \<and> carry k k1"
proof -
  let ?i = "TUser v"
  let ?k0 = "rt_timer_remove ?i k"
  have t0: "tick_inv ?k0" by (rule tick_inv_remove [OF t])
  from cb t0 obtain k1 where r: "cb v ?k0 = Some k1" "tick_inv k1" "rt_tick k1 = rt_tick ?k0" "timers k1 ?i = timers ?k0 ?i"
    "set (timer_list k1) \<subseteq> set (timer_list ?k0)" "\<forall>i \<in> set (timer_list k1). timers k1 i = timers ?k0 i"
    "\<forall>t. alive t ?k0 \<longrightarrow> alive t k1" "\<forall>t. TThread t \<in> set (timer_list ?k0) - set (timer_list k1) \<longrightarrow> alive t k1"
    unfolding callbacks_ok_def by blast
  let ?k2 = "upd_timer ?i (\<lambda>tm. tm\<lparr>tm_active := False\<rparr>) k1"
  have n1: "?i \<notin> set (timer_list k1)" using r(5) by auto
  have t2: "tick_inv ?k2" by (rule tick_inv_deact [OF r(2) n1])
  have D: "due_set ?k2 \<subseteq> due_set k - {?i}" using r(3,5,6) by (auto simp: due_set_def due_def)
  have i: "?i \<in> due_set k" using l d by (simp add: due_set_def)
  have C: "carry k ?k2" using r(3,5-8) l by (auto simp: carry_def alive_def)
  have turn: "timer_check_loop cb (rt_tick k) k = (if tm_periodic (timers k1 ?i) \<and> tm_active (timers k1 ?i)
      then rt_timer_start ?i ?k2 \<bind> timer_check_loop cb (rt_tick k1) else timer_check_loop cb (rt_tick k1) ?k2)"
    using l d r(1) by (subst timer_check_loop.simps) (simp add: due_def timeout_func_def rt_tick_get_def Let_def)
  show ?thesis
  proof (cases "tm_periodic (timers k1 ?i) \<and> tm_active (timers k1 ?i)")
    case False
    then have "timer_check_loop cb (rt_tick k) k = timer_check_loop cb (rt_tick ?k2) ?k2" unfolding turn by auto
    moreover have "due_set ?k2 \<subset> due_set k" using D i by blast
    ultimately show ?thesis using t2 r(3) C by (intro exI [of _ ?k2]) simp
  next
    case True
    then have p: "0 < tm_init_tick (timers ?k2 ?i)" "tm_init_tick (timers ?k2 ?i) < HALF_TICK"
      using r(4) t l by (auto simp: tick_inv_def period_ok_def)
    from p(2) obtain k3 where k3: "rt_timer_start ?i ?k2 = Some k3" using timer_start_returns by blast
    note st = tick_inv_start [OF t2 refl p(1) k3] and fr = timer_start_frame [OF k3]
    have e: "timer_check_loop cb (rt_tick k) k = timer_check_loop cb (rt_tick k3) k3"
      unfolding turn using True k3 fr(7) by simp
    have "due_set k3 \<subseteq> due_set ?k2" using st fr(7,8) by (auto simp: due_set_def due_def)
    then have "due_set k3 \<subset> due_set k" using D i by blast
    moreover have "carry k k3" using C st(3) fr(1,7,8) l by (auto simp: carry_def alive_def)
    ultimately show ?thesis using e st(1) fr(7) r(3) by (intro exI [of _ k3]) simp
  qed
qed

lemma check_loop_ok:
  assumes cb: "callbacks_ok cb"
  shows "tick_inv k \<Longrightarrow> \<exists>k'. timer_check_loop cb (rt_tick k) k = Some k' \<and> tick_inv k' \<and> rt_tick k' = rt_tick k
    \<and> due_set k' = {} \<and> carry k k'"
proof (induction "card (due_set k)" arbitrary: k rule: less_induct)
  case less
  have fin: "finite (due_set k)" by (simp add: due_set_def)
  show ?case
  proof (cases "timer_list k")
    case Nil
    then have "timer_check_loop cb (rt_tick k) k = Some k" by (subst timer_check_loop.simps) simp
    with Nil less.prems show ?thesis by (simp add: carry_refl due_set_def)
  next
    case (Cons i js)
    show ?thesis
    proof (cases "due k i")
      case False
      then have "timer_check_loop cb (rt_tick k) k = Some k"
        using Cons by (subst timer_check_loop.simps) (simp add: due_def)
      moreover have "due_set k = {}" using head_not_due [OF less.prems Cons False] by (auto simp: due_set_def)
      ultimately show ?thesis using less.prems by (simp add: carry_refl)
    next
      case True
      have "\<exists>k1. timer_check_loop cb (rt_tick k) k = timer_check_loop cb (rt_tick k1) k1 \<and> tick_inv k1
        \<and> rt_tick k1 = rt_tick k \<and> due_set k1 \<subset> due_set k \<and> carry k k1"
        using check_turn_thread [OF less.prems] check_turn_user [OF cb less.prems] Cons True by (cases i) blast+
      then obtain k1 where k1: "timer_check_loop cb (rt_tick k) k = timer_check_loop cb (rt_tick k1) k1" "tick_inv k1"
        "rt_tick k1 = rt_tick k" "due_set k1 \<subset> due_set k" "carry k k1" by blast
      from less.hyps [OF psubset_card_mono [OF fin k1(4)] k1(2)] k1 show ?thesis by (metis carry_trans)
    qed
  qed
qed

section \<open>The tick\<close>

lemma sorted_map_pred: "sorted (map g xs) \<Longrightarrow> sorted (map (\<lambda>x. g x - 1) xs)" for g :: "'a \<Rightarrow> nat"
  by (induction xs) (auto intro: diff_le_mono)

lemma after_check:
  assumes t: "tick_inv k" and d: "due_set k = {}"
  shows "kernel_ok k"
proof -
  have s: "sorted_from (rt_tick k - 1) 0x80000000 k" using t by (simp add: tick_inv_def)
  have k: "key (rt_tick k) k i = key (rt_tick k - 1) k i - 1 \<and> 2 \<le> key (rt_tick k - 1) k i" if i: "i \<in> set (timer_list k)" for i
  proof -
    have "\<not> key (rt_tick k - 1) k i \<le> 1" using d tick_inv_due [OF t i] i by (auto simp: due_set_def)
    then show ?thesis
      using tick_diff(1) [of "rt_tick k" "rt_tick k - 1" "timeout_tick (timers k i)"] by (simp add: key_def)
  qed
  have "sorted (map (\<lambda>i. key (rt_tick k - 1) k i - 1) (timer_list k))"
    using sorted_fromD(1) [OF s] by (rule sorted_map_pred)
  moreover have "map (key (rt_tick k) k) (timer_list k) = map (\<lambda>i. key (rt_tick k - 1) k i - 1) (timer_list k)"
    using k by simp
  ultimately have "sorted (map (key (rt_tick k) k) (timer_list k))" by (simp only:)
  moreover have "key (rt_tick k) k i < 0x7fffffff" if "i \<in> set (timer_list k)" for i
    using k [OF that] sorted_fromD(2) [OF s that] by simp
  ultimately have "timers_ok k" using sorted_fromD(3,4) [OF s] by (simp add: timers_ok_def sorted_from_def)
  with t show ?thesis by (simp add: kernel_ok_def tick_inv_def)
qed

lemma tick_inv_upd:
  assumes "tick_inv k" "stat_of (f (threads k t)) = stat_of (threads k t)"
    "current_priority (f (threads k t)) = current_priority (threads k t)" "number_mask (f (threads k t)) = number_mask (threads k t)"
  shows "tick_inv (upd_thread t f k)"
  using assms upd_data [of f k t, OF assms(2-4)]
  by (simp add: tick_inv_def period_ok_def sorted_from_def key_def [abs_def])

lemma set_yield_stat: "(s OR 8) AND 7 = s AND (7 :: u8)"
  by (simp add: bit.conj_disj_distrib2)

lemma schedule_tick:
  assumes t: "tick_inv k"
  shows "\<exists>k'. rt_schedule k = Some k' \<and> tick_inv k' \<and> rt_tick k' = rt_tick k \<and> timers k' = timers k
    \<and> timer_list k' = timer_list k \<and> (\<forall>u. alive u k \<longrightarrow> alive u k')"
proof -
  from t have h: "sched_ok k" "tt_ok k" "current k \<noteq> None" by (simp_all add: tick_inv_def)
  from rt_schedule_ok [OF h(1,3)] obtain k' where r: "rt_schedule k = Some k'" "sched_ok k'"
    "lock_nest k = 0 \<and> ready_group k \<noteq> 0 \<longrightarrow> scheduled k'" "lock_nest k \<noteq> 0 \<or> ready_group k = 0 \<longrightarrow> k' = k" by blast
  note fr = schedule_frame [OF h(1) r(1)]
  have c: "current k' \<noteq> None"
    using r(3,4) h(3) by (cases "lock_nest k = 0 \<and> ready_group k \<noteq> 0") (auto simp: scheduled_def)
  have "tick_inv k'"
    using t r(2) c schedule_tt [OF h(1,2) r(1)] fr(1-3)
    by (simp add: tick_inv_def period_ok_def sorted_from_def key_def [abs_def])
  with r(1) fr(1-3) schedule_alive' [OF h(1) r(1)] show ?thesis by blast
qed

lemma tick_slice_ok:
  assumes t: "tick_inv k"
  shows "\<exists>k'. tick_slice k = Some k' \<and> tick_inv k' \<and> rt_tick k' = rt_tick k \<and> timers k' = timers k
    \<and> timer_list k' = timer_list k \<and> (\<forall>u. alive u k \<longrightarrow> alive u k')"
proof -
  from t obtain c where c: "current k = Some c" by (auto simp: tick_inv_def)
  let ?k1 = "upd_thread c (\<lambda>th. th\<lparr>remaining_tick := remaining_tick th - 1\<rparr>) k"
  let ?k2 = "upd_thread c (\<lambda>th. th\<lparr>remaining_tick := init_tick th\<rparr>) ?k1"
  let ?k3 = "upd_thread c (\<lambda>th. th\<lparr>stat := stat th OR 8\<rparr>) ?k2"
  have t1: "tick_inv ?k1" by (rule tick_inv_upd [OF t]) (simp_all add: stat_of_def)
  have t2: "tick_inv ?k2" by (rule tick_inv_upd [OF t1]) (simp_all add: stat_of_def)
  have t3: "tick_inv ?k3" by (rule tick_inv_upd [OF t2]) (simp_all add: stat_of_def set_yield_stat)
  show ?thesis
  proof (cases "remaining_tick (threads ?k1 c) = 0")
    case False
    then have "tick_slice k = Some ?k1" using c by (simp add: tick_slice_def rt_thread_self_def)
    moreover have "alive u ?k1 = alive u k" for u by (simp add: alive_def stat_of_def)
    ultimately show ?thesis using t1 by (intro exI [of _ ?k1]) simp
  next
    case True
    from schedule_tick [OF t3] obtain k' where r: "rt_schedule ?k3 = Some k'" "tick_inv k'" "rt_tick k' = rt_tick ?k3"
      "timers k' = timers ?k3" "timer_list k' = timer_list ?k3" "\<forall>u. alive u ?k3 \<longrightarrow> alive u k'" by blast
    have a: "alive u ?k3 = alive u k" for u by (simp add: alive_def stat_of_def set_yield_stat)
    have "tick_slice k = Some k'"
      using True c r(1) by (simp add: tick_slice_def rt_thread_self_def rt_thread_yield_def Let_def)
    with r a show ?thesis by (intro exI [of _ k']) simp
  qed
qed

lemma tick_inv_begin:
  assumes ok: "kernel_ok k" and c: "current k \<noteq> None"
  shows "tick_inv (k\<lparr>rt_tick := rt_tick k + 1\<rparr>)"
proof -
  let ?k = "k\<lparr>rt_tick := rt_tick k + 1\<rparr>"
  have "sched_ok ?k = sched_ok k" by (rule sched_ok_cong) simp_all
  moreover have "sorted_from (rt_tick k) 0x7fffffff k" using kernel_okD(2) [OF ok] by (simp add: timers_ok_def)
  then have "sorted_from (rt_tick k) 0x80000000 ?k" by (fastforce simp: sorted_from_def key_def [abs_def])
  ultimately show ?thesis using ok c by (simp add: tick_inv_def kernel_ok_def tt_ok_def period_ok_def)
qed

text \<open>One tick: the invariant is kept, the timers that are due have fired, the others have come one tick nearer.\<close>

lemma tick_increase_ok:
  assumes ok: "kernel_ok k" and c: "current k \<noteq> None" and cb: "callbacks_ok cb"
  obtains k' where "rt_tick_increase cb k = Some k'" "kernel_ok k'" "current k' \<noteq> None"
    "rt_tick k' = rt_tick k + 1" "\<And>t. alive t k \<Longrightarrow> alive t k'"
    "\<And>t. TThread t \<in> set (timer_list k) \<Longrightarrow> key (rt_tick k) k (TThread t) \<le> 1 \<Longrightarrow> alive t k'"
    "\<And>t. TThread t \<in> set (timer_list k) \<Longrightarrow> 1 < key (rt_tick k) k (TThread t) \<Longrightarrow> \<forall>u. TUser u \<notin> set (timer_list k) \<Longrightarrow>
      TThread t \<in> set (timer_list k') \<and> key (rt_tick k') k' (TThread t) = key (rt_tick k) k (TThread t) - 1"
    "\<forall>u. TUser u \<notin> set (timer_list k) \<Longrightarrow> \<forall>u. TUser u \<notin> set (timer_list k')"
    "\<forall>i \<in> set (timer_list k'). 0 < key (rt_tick k') k' i"
proof -
  let ?k0 = "k\<lparr>rt_tick := rt_tick k + 1\<rparr>"
  have t0: "tick_inv ?k0" by (rule tick_inv_begin [OF ok c])
  from tick_slice_ok [OF t0] obtain k1 where k1: "tick_slice ?k0 = Some k1" "tick_inv k1" "rt_tick k1 = rt_tick ?k0"
    "timers k1 = timers ?k0" "timer_list k1 = timer_list ?k0" "\<forall>u. alive u ?k0 \<longrightarrow> alive u k1" by blast
  from check_loop_ok [OF cb k1(2)] obtain k' where k': "timer_check_loop cb (rt_tick k1) k1 = Some k'" "tick_inv k'"
    "rt_tick k' = rt_tick k1" "due_set k' = {}" "carry k1 k'" by blast
  have e: "rt_tick_increase cb k = Some k'"
    using k1(1) k'(1) by (simp add: rt_tick_increase_def rt_timer_check_def rt_tick_get_def)
  have ok': "kernel_ok k'" by (rule after_check [OF k'(2,4)])
  have al: "alive t k \<Longrightarrow> alive t k'" for t
  proof -
    assume "alive t k"
    then have "alive t ?k0" by (simp add: alive_def)
    then have "alive t k1" using k1(6) by blast
    then show "alive t k'" using k'(5) by (simp add: carry_def)
  qed
  have du: "due k1 i \<longleftrightarrow> key (rt_tick k) k i \<le> 1" if "i \<in> set (timer_list k)" for i
    using tick_inv_due [OF k1(2), of i] that k1(3-5) by (simp add: key_def)
  have nd: "\<not> due k' i" if "i \<in> set (timer_list k')" for i using k'(4) that by (auto simp: due_set_def)
  have pos: "2 \<le> key (rt_tick k' - 1) k' i" if "i \<in> set (timer_list k')" for i
    using nd [OF that] tick_inv_due [OF k'(2) that] by simp
  have sh: "key (rt_tick k') k' i = key (rt_tick k' - 1) k' i - 1" if "i \<in> set (timer_list k')" for i
    using tick_diff(1) [of "rt_tick k'" "rt_tick k' - 1" "timeout_tick (timers k' i)"] pos [OF that] by (simp add: key_def)
  show ?thesis
  proof (rule that [OF e ok' _ _ al])
    show "current k' \<noteq> None" using k'(2) by (simp add: tick_inv_def)
    show "rt_tick k' = rt_tick k + 1" using k'(3) k1(3) by simp
    show "alive t k'" if t: "TThread t \<in> set (timer_list k)" "key (rt_tick k) k (TThread t) \<le> 1" for t
    proof (rule ccontr)
      assume "\<not> alive t k'"
      with k'(5) t(1) k1(5) have n: "TThread t \<in> set (timer_list k')" "timers k' (TThread t) = timers k1 (TThread t)"
        by (auto simp: carry_def)
      with nd [OF n(1)] k'(3) have "\<not> due k1 (TThread t)" by (simp add: due_def)
      with du [OF t(1)] t(2) show False by simp
    qed
    show "TThread t \<in> set (timer_list k') \<and> key (rt_tick k') k' (TThread t) = key (rt_tick k) k (TThread t) - 1"
      if t: "TThread t \<in> set (timer_list k)" "1 < key (rt_tick k) k (TThread t)" "\<forall>u. TUser u \<notin> set (timer_list k)" for t
    proof -
      have n: "TThread t \<in> set (timer_list k')" "timers k' (TThread t) = timers k1 (TThread t)"
        using k'(5) t k1(5) du [OF t(1)] by (auto simp: carry_def)
      with sh [OF n(1)] k'(3) k1(3,4) show ?thesis by (simp add: key_def)
    qed
    show "\<forall>u. TUser u \<notin> set (timer_list k')" if "\<forall>u. TUser u \<notin> set (timer_list k)"
      using k'(5) that k1(5) by (simp add: carry_def)
    show "\<forall>i \<in> set (timer_list k'). 0 < key (rt_tick k') k' i" using sh pos by fastforce
  qed
qed

section \<open>Several ticks\<close>

primrec ticks :: "(nat \<Rightarrow> kernel \<Rightarrow> kernel option) \<Rightarrow> nat \<Rightarrow> kernel \<Rightarrow> kernel option" where
  "ticks cb 0 k = Some k"
| "ticks cb (Suc n) k = ticks cb n k \<bind> rt_tick_increase cb"

text \<open>A thread whose timer is \<open>d\<close> ticks ahead sleeps through fewer ticks and is runnable after \<open>d\<close>.\<close>

lemma sleeping_ticks:
  assumes cb: "callbacks_ok cb"
    and k: "kernel_ok k" "current k \<noteq> None" "\<forall>u. TUser u \<notin> set (timer_list k)"
    and t: "TThread t \<in> set (timer_list k)" "key (rt_tick k) k (TThread t) = d"
  shows "m < max 1 d \<Longrightarrow> \<exists>k'. ticks cb m k = Some k' \<and> kernel_ok k' \<and> current k' \<noteq> None
    \<and> (\<forall>u. TUser u \<notin> set (timer_list k')) \<and> TThread t \<in> set (timer_list k') \<and> key (rt_tick k') k' (TThread t) = d - m"
proof (induction m)
  case 0
  with k t show ?case by simp
next
  case (Suc m)
  have "m < max 1 d" using Suc.prems by simp
  from Suc.IH [OF this] obtain k1 where k1: "ticks cb m k = Some k1" "kernel_ok k1" "current k1 \<noteq> None"
    "\<forall>u. TUser u \<notin> set (timer_list k1)" "TThread t \<in> set (timer_list k1)" "key (rt_tick k1) k1 (TThread t) = d - m" by blast
  have d: "1 < key (rt_tick k1) k1 (TThread t)" using k1(6) Suc.prems by simp
  show ?case
  proof (rule tick_increase_ok [OF k1(2,3) cb])
    fix k'
    assume a: "rt_tick_increase cb k1 = Some k'" "kernel_ok k'" "current k' \<noteq> None"
      "\<And>t. TThread t \<in> set (timer_list k1) \<Longrightarrow> 1 < key (rt_tick k1) k1 (TThread t) \<Longrightarrow> \<forall>u. TUser u \<notin> set (timer_list k1) \<Longrightarrow>
        TThread t \<in> set (timer_list k') \<and> key (rt_tick k') k' (TThread t) = key (rt_tick k1) k1 (TThread t) - 1"
      "\<forall>u. TUser u \<notin> set (timer_list k1) \<Longrightarrow> \<forall>u. TUser u \<notin> set (timer_list k')"
    show ?case using a(1-3) a(4) [OF k1(5) d k1(4)] a(5) [OF k1(4)] k1(1,6) by simp
  qed
qed

lemma sleeper_wakes:
  assumes cb: "callbacks_ok cb"
    and k: "kernel_ok k" "current k \<noteq> None" "\<forall>u. TUser u \<notin> set (timer_list k)"
    and t: "TThread t \<in> set (timer_list k)" "key (rt_tick k) k (TThread t) = d"
  shows "\<exists>k'. ticks cb (max 1 d) k = Some k' \<and> kernel_ok k' \<and> alive t k'"
proof -
  have s: "max 1 d = Suc (max 1 d - 1)" by simp
  obtain k1 where k1: "ticks cb (max 1 d - 1) k = Some k1" "kernel_ok k1" "current k1 \<noteq> None" "TThread t \<in> set (timer_list k1)"
    "key (rt_tick k1) k1 (TThread t) = d - (max 1 d - 1)"
    using sleeping_ticks [OF cb k t, of "max 1 d - 1"] by auto
  have d: "key (rt_tick k1) k1 (TThread t) \<le> 1" using k1(5) by simp
  show ?thesis
  proof (rule tick_increase_ok [OF k1(2,3) cb])
    fix k'
    assume a: "rt_tick_increase cb k1 = Some k'" "kernel_ok k'"
      "\<And>t. TThread t \<in> set (timer_list k1) \<Longrightarrow> key (rt_tick k1) k1 (TThread t) \<le> 1 \<Longrightarrow> alive t k'"
    have "ticks cb (Suc (max 1 d - 1)) k = Some k'" using k1(1) a(1) by (simp only: ticks.simps Option.bind.simps)
    then have "ticks cb (max 1 d) k = Some k'" using s by (simp only:)
    with a(2) a(3) [OF k1(4) d] show ?thesis by blast
  qed
qed

section \<open>Properties\<close>

text \<open>C5: The tick interrupt is total and keeps the kernel consistent. In every consistent state with a
  current thread, and for user timeout functions that neither start nor change timers, \<^verbatim>\<open>rt_tick_increase\<close>
  returns (the loop over the due timers ends, and no assertion of a thread's timeout fails), the state is
  consistent again, the tick counter has advanced by one, every thread whose timer was due is ready or running,
  and no timer is due any more.\<close>

theorem tick_keeps_kernel_ok:
  assumes "kernel_ok k" "current k \<noteq> None" "callbacks_ok cb"
  shows "\<exists>k'. rt_tick_increase cb k = Some k' \<and> kernel_ok k' \<and> current k' \<noteq> None \<and> rt_tick k' = rt_tick k + 1
    \<and> (\<forall>t. TThread t \<in> set (timer_list k) \<longrightarrow> key (rt_tick k) k (TThread t) \<le> 1 \<longrightarrow> alive t k')
    \<and> (\<forall>i \<in> set (timer_list k'). 0 < key (rt_tick k') k' i)"
  by (rule tick_increase_ok [OF assms]) blast

lemma no_callbacks: "callbacks_ok (\<lambda>_. Some)"
  by (simp add: callbacks_ok_def)

lemma two_threads_kernel:
  "unat p < 32 \<Longrightarrow> unat q < 32 \<Longrightarrow> stat_of (threads (two_threads p q st) 0) = 3 \<Longrightarrow> kernel_ok (two_threads p q st)"
  using two_threads_ok [of p q st]
  by (simp add: kernel_ok_def timers_ok_def sorted_from_def tt_ok_def period_ok_def) (simp add: two_threads_def Let_def)

theorem tick_keeps_kernel_ok_witness:
  "\<exists>k'. rt_tick_increase (\<lambda>_. Some) (two_threads 10 5 3) = Some k' \<and> kernel_ok k' \<and> rt_tick k' = 1"
proof -
  have ok: "kernel_ok (two_threads 10 5 3)" by (rule two_threads_kernel) (simp_all add: two_threads_def Let_def stat_of_def)
  have c: "current (two_threads 10 5 3) \<noteq> None" "rt_tick (two_threads 10 5 3) = 0" by (simp_all add: two_threads_def Let_def)
  from tick_keeps_kernel_ok [OF ok c(1) no_callbacks] c(2) show ?thesis by auto
qed

text \<open>C23: Sleeping takes exactly the requested time. A running thread that calls \<^verbatim>\<open>rt_thread_sleep(n)\<close> with \<open>n\<close>
  below \<^verbatim>\<open>RT_TICK_MAX / 2\<close>, while no user timer is running, stays suspended during the next \<open>n - 1\<close> ticks and
  is ready or running after the \<open>n\<close>-th (the first, for \<open>n = 0\<close>), whatever the tick counter is.\<close>

theorem sleep_is_exact:
  assumes "kernel_ok k" "current k = Some t" "stat_of (threads k t) = RT_THREAD_RUNNING" "n < HALF_TICK"
    "ready_group k \<noteq> 0" "lock_nest k = 0" "\<forall>u. TUser u \<notin> set (timer_list k)" "callbacks_ok cb"
  shows "\<exists>k1. rt_thread_sleep_begin n k = Some k1
    \<and> (\<forall>m < max 1 (unat n). \<exists>k2. ticks cb m k1 = Some k2 \<and> stat_of (threads k2 t) = RT_THREAD_SUSPEND)
    \<and> (\<exists>k2. ticks cb (max 1 (unat n)) k1 = Some k2 \<and> alive t k2)"
proof -
  obtain k1 where k1: "rt_thread_sleep_begin n k = Some k1" "kernel_ok k1" "TThread t \<in> set (timer_list k1)"
    "key (rt_tick k) k1 (TThread t) = unat n" "rt_tick k1 = rt_tick k" "lock_nest k = 0 \<and> ready_group k \<noteq> 0 \<longrightarrow> scheduled k1"
    "set (timer_list k1) \<subseteq> insert (TThread t) (set (timer_list k))"
    by (rule sleep_kernel [OF assms(1-4)])
  have c: "current k1 \<noteq> None" using k1(6) assms(5,6) by (auto simp: scheduled_def)
  have u: "\<forall>u. TUser u \<notin> set (timer_list k1)" using k1(7) assms(7) by auto
  have d: "key (rt_tick k1) k1 (TThread t) = unat n" using k1(4,5) by simp
  have "\<exists>k2. ticks cb m k1 = Some k2 \<and> stat_of (threads k2 t) = RT_THREAD_SUSPEND" if "m < max 1 (unat n)" for m
    using sleeping_ticks [OF assms(8) k1(2) c u k1(3) d that] kernel_okD(3) unfolding tt_ok_def by blast
  with sleeper_wakes [OF assms(8) k1(2) c u k1(3) d] k1(1) show ?thesis by blast
qed

theorem sleep_is_exact_witness:
  "\<exists>k1 k2. rt_thread_sleep_begin 3 ((two_threads 10 12 3)\<lparr>rt_tick := 0xffffffff\<rparr>) = Some k1
    \<and> ticks (\<lambda>_. Some) 3 k1 = Some k2 \<and> alive 0 k2"
proof -
  let ?base = "two_threads 10 12 3" and ?k = "(two_threads 10 12 3)\<lparr>rt_tick := 0xffffffff\<rparr>"
  have "kernel_ok ?base" by (rule two_threads_kernel) (simp_all add: two_threads_def Let_def stat_of_def)
  then have ok: "kernel_ok ?k"
  proof -
    have "timer_list ?k = []" by (simp add: two_threads_def Let_def)
    moreover have "sched_ok ?k" using \<open>kernel_ok ?base\<close> sched_ok_cong [of ?k ?base] by (simp add: kernel_ok_def)
    moreover have "period_ok ?k" using \<open>kernel_ok ?base\<close> by (simp add: kernel_ok_def period_ok_def)
    ultimately show ?thesis by (simp add: kernel_ok_def timers_ok_def sorted_from_def tt_ok_def)
  qed
  have c: "current ?k = Some 0" "stat_of (threads ?k 0) = 3" "ready_group ?k \<noteq> 0" "lock_nest ?k = 0"
    "\<forall>u. TUser u \<notin> set (timer_list ?k)" by (simp_all add: two_threads_def Let_def stat_of_def)
  from sleep_is_exact [OF ok c(1,2) _ c(3-5) no_callbacks, of 3] show ?thesis by auto
qed

text \<open>Milliseconds. For every non-negative argument \<^verbatim>\<open>rt_tick_from_millisecond\<close> returns the argument (there are
  1000 ticks per second), for every negative one the largest tick; and \<^verbatim>\<open>rt_thread_mdelay\<close> with a negative
  argument or with the largest positive one does not return, since the timer asserts a shorter duration.\<close>

lemma mdelay_range:
  shows "(0 \<le> sint ms \<longrightarrow> rt_tick_from_millisecond ms = ms) \<and> (sint ms < 0 \<longrightarrow> rt_tick_from_millisecond ms = RT_TICK_MAX)
    \<and> (sint ms < 0 \<or> ms = 0x7fffffff \<longrightarrow> rt_thread_mdelay_begin ms k = None)"
proof -
  have eq: "rt_tick_from_millisecond ms = ms" if "0 \<le> sint ms"
  proof -
    have "(1000 * (sint ms mod 1000) + 999) div 1000 = sint ms mod 1000" by simp
    then have "rt_tick_from_millisecond ms = word_of_int (1000 * (sint ms div 1000)) + word_of_int (sint ms mod 1000)"
      using that by (simp only: rt_tick_from_millisecond_def) simp
    also have "\<dots> = word_of_int (1000 * (sint ms div 1000) + sint ms mod 1000)" by (rule of_int_add [symmetric])
    also have "1000 * (sint ms div 1000) + sint ms mod 1000 = sint ms" by (rule mult_div_mod_eq)
    finally show ?thesis by simp
  qed
  have neg: "rt_tick_from_millisecond ms = RT_TICK_MAX" if "sint ms < 0" using that by (simp add: rt_tick_from_millisecond_def)
  have none: "rt_thread_sleep_begin n k = None" if "\<not> n < HALF_TICK" for n
    using that
    by (auto simp: rt_thread_sleep_begin_def rt_timer_start_def rt_timer_control_def Let_def split: Option.bind_split)
  have "sint (0x7fffffff :: u32) = 0x7fffffff" by simp
  with eq have "ms = 0x7fffffff \<Longrightarrow> rt_tick_from_millisecond ms = 0x7fffffff" by simp
  with eq neg none [of RT_TICK_MAX] none [of "0x7fffffff"] show ?thesis by (auto simp: rt_thread_mdelay_begin_def)
qed

lemma mdelay_range_witness: "rt_tick_from_millisecond 50 = 50 \<and> rt_thread_mdelay_begin (- 1) (two_threads 10 5 3) = None"
  using mdelay_range [of 50 "two_threads 10 5 3"] mdelay_range [of "- 1" "two_threads 10 5 3"] by simp

end
