(* ===== verification/Ipc.thy ===== *)
theory Ipc
  imports Clock
begin

text \<open>
  The common part of RTT4/src/ipc.c: threads wait in the list of an IPC object, first-in first-out or by
  priority, until they are resumed or their timer expires. \<open>LIpc i\<close> is the list \<^verbatim>\<open>suspend_thread\<close> of object \<open>i\<close>,
  \<open>LSender i\<close> its \<^verbatim>\<open>suspend_sender_thread\<close>. Blocking functions are cut at their call of \<^verbatim>\<open>rt_schedule\<close>.
\<close>

section \<open>Operations\<close>

abbreviation (input) RT_IPC_FLAG_FIFO :: u8 where "RT_IPC_FLAG_FIFO \<equiv> 0"
abbreviation (input) RT_IPC_FLAG_PRIO :: u8 where "RT_IPC_FLAG_PRIO \<equiv> 1"
abbreviation (input) RT_IPC_CMD_RESET :: int where "RT_IPC_CMD_RESET \<equiv> 1"

text \<open>The search of \<^verbatim>\<open>rt_ipc_list_suspend\<close> for the first waiting thread of lower priority.\<close>

fun prio_insert :: "(nat \<Rightarrow> u8) \<Rightarrow> nat \<Rightarrow> nat list \<Rightarrow> nat list" where
  "prio_insert pr t [] = [t]"
| "prio_insert pr t (n # ns) = (if pr t < pr n then t # n # ns else n # prio_insert pr t ns)"

definition ipc_place :: "u8 \<Rightarrow> nat \<Rightarrow> kernel \<Rightarrow> nat list \<Rightarrow> nat list" where
  "ipc_place flag t k xs =
     (if flag = RT_IPC_FLAG_FIFO then xs @ [t]
      else if flag = RT_IPC_FLAG_PRIO then prio_insert (\<lambda>u. current_priority (threads k u)) t xs
      else xs)"

definition rt_ipc_list_suspend :: "lhead \<Rightarrow> nat \<Rightarrow> u8 \<Rightarrow> kernel \<Rightarrow> kernel option" where
  "rt_ipc_list_suspend l t flag k = do {
     (_, k) \<leftarrow> rt_thread_suspend t k;
     Some (k\<lparr>lists := (lists k)(l := ipc_place flag t k (lists k l))\<rparr>) }"

text \<open>The first entry of an empty list would be the list head itself.\<close>

definition rt_ipc_list_resume :: "lhead \<Rightarrow> kernel \<Rightarrow> kernel option" where
  "rt_ipc_list_resume l k = (case lists k l of [] \<Rightarrow> None | t # ts \<Rightarrow> Some (snd (rt_thread_resume t k)))"

partial_function (option) rt_ipc_list_resume_all :: "lhead \<Rightarrow> kernel \<Rightarrow> kernel option" where
  "rt_ipc_list_resume_all l k =
     (case lists k l of
        [] \<Rightarrow> Some k
      | t # ts \<Rightarrow> do {
          let k = upd_thread t (\<lambda>th. th\<lparr>t_error := - RT_ERROR\<rparr>) k;
          let k = snd (rt_thread_resume t k);
          rt_ipc_list_resume_all l k })"

text \<open>The timer of a thread that waits for at most \<open>time\<close> ticks, if \<open>time\<close> (a signed number) is positive.\<close>

definition wait_timer :: "nat \<Rightarrow> u32 \<Rightarrow> kernel \<Rightarrow> kernel option" where
  "wait_timer t time k =
     (if 0 < sint time then rt_timer_start (TThread t) (snd (rt_timer_control (TThread t) (TIMER_SET_TIME time) k))
      else Some k)"

text \<open>Suspend, start the timer and schedule: the common end of the blocking functions.\<close>

definition ipc_block :: "lhead \<Rightarrow> nat \<Rightarrow> u8 \<Rightarrow> u32 \<Rightarrow> kernel \<Rightarrow> kernel option" where
  "ipc_block l t flag time k = do {
     k \<leftarrow> rt_ipc_list_suspend l t flag k;
     k \<leftarrow> wait_timer t time k;
     rt_schedule k }"

text \<open>The remaining waiting time when a wait that started at tick \<open>start\<close> is over.\<close>

definition remaining_timeout :: "u32 \<Rightarrow> u32 \<Rightarrow> kernel \<Rightarrow> u32" where
  "remaining_timeout timeout start k =
     (if 0 < sint timeout
      then let timeout = timeout - (rt_tick_get k - start) in if sint timeout < 0 then 0 else timeout
      else timeout)"

text \<open>The check \<^verbatim>\<open>RT_DEBUG_IN_THREAD_CONTEXT\<close> of RTT4/include/rtdebug.h, and \<^verbatim>\<open>RT_DEBUG_NOT_IN_INTERRUPT\<close>.\<close>

definition RT_DEBUG_NOT_IN_INTERRUPT :: "kernel \<Rightarrow> unit option" where
  "RT_DEBUG_NOT_IN_INTERRUPT k = RT_ASSERT (rt_interrupt_get_nest k = 0)"

definition RT_DEBUG_IN_THREAD_CONTEXT :: "kernel \<Rightarrow> unit option" where
  "RT_DEBUG_IN_THREAD_CONTEXT k = do { RT_ASSERT (rt_thread_self k \<noteq> None); RT_DEBUG_NOT_IN_INTERRUPT k }"

lemma in_thread_ctx: "current k = Some t \<Longrightarrow> irq_nest k = 0 \<Longrightarrow> RT_DEBUG_IN_THREAD_CONTEXT k = Some ()"
  by (simp add: RT_DEBUG_IN_THREAD_CONTEXT_def RT_DEBUG_NOT_IN_INTERRUPT_def rt_thread_self_def rt_interrupt_get_nest_def)

text \<open>A function either returns a value or leaves the calling thread waiting.\<close>

datatype 'r ipc_result = Done 'r | Waiting nat

section \<open>What waiting changes\<close>

definition same_data :: "kernel \<Rightarrow> kernel \<Rightarrow> bool" where
  "same_data k k' \<longleftrightarrow> (\<forall>u. \<exists>v. threads k' u = (threads k u)\<lparr>stat := v\<rparr>)"

lemma same_data_refl [simp]: "same_data k k"
proof -
  have "\<exists>v. th = th\<lparr>stat := v\<rparr>" for th :: thread by (rule exI [of _ "stat th"]) simp
  then show ?thesis by (simp add: same_data_def)
qed

lemma same_data_stat: "(\<And>u. \<exists>v. threads k' u = (threads k u)\<lparr>stat := v\<rparr>) \<Longrightarrow> same_data k k'"
  by (simp add: same_data_def)

lemma same_data_trans: "same_data k k1 \<Longrightarrow> same_data k1 k2 \<Longrightarrow> same_data k k2"
proof (rule same_data_stat)
  fix u
  assume a: "same_data k k1" "same_data k1 k2"
  then obtain v w where "threads k1 u = (threads k u)\<lparr>stat := v\<rparr>" "threads k2 u = (threads k1 u)\<lparr>stat := w\<rparr>"
    unfolding same_data_def by meson
  then have "threads k2 u = (threads k u)\<lparr>stat := w\<rparr>" by simp
  then show "\<exists>v. threads k2 u = (threads k u)\<lparr>stat := v\<rparr>" by blast
qed

lemma same_dataD:
  assumes "same_data k k'"
  shows "t_error (threads k' u) = t_error (threads k u)" "current_priority (threads k' u) = current_priority (threads k u)"
    "event_set (threads k' u) = event_set (threads k u)" "event_info (threads k' u) = event_info (threads k u)"
    "init_priority (threads k' u) = init_priority (threads k u)"
proof -
  from assms obtain v where "threads k' u = (threads k u)\<lparr>stat := v\<rparr>" unfolding same_data_def by blast
  then show "t_error (threads k' u) = t_error (threads k u)" "current_priority (threads k' u) = current_priority (threads k u)"
    "event_set (threads k' u) = event_set (threads k u)" "event_info (threads k' u) = event_info (threads k u)"
    "init_priority (threads k' u) = init_priority (threads k u)" by simp_all
qed

definition is_wait :: "lhead \<Rightarrow> bool" where
  "is_wait l \<longleftrightarrow> (\<exists>i. l = LIpc i \<or> l = LSender i)"

lemma is_wait_simps [simp]: "is_wait (LIpc i)" "is_wait (LSender i)" "\<not> is_wait (LReady p)" "\<not> is_wait LDefunct"
  by (simp_all add: is_wait_def)

lemma is_wait_not_ready: "is_wait l \<Longrightarrow> \<forall>p. l \<noteq> LReady p"
  by (auto simp: is_wait_def)

lemma prio_insert_set [simp]: "set (prio_insert pr t xs) = insert t (set xs)"
  by (induction xs) auto

lemma prio_insert_distinct [simp]: "distinct (prio_insert pr t xs) \<longleftrightarrow> t \<notin> set xs \<and> distinct xs"
  by (induction xs) auto

text \<open>Waiting by priority: the list stays sorted, and equal priorities stay in the order of arrival.\<close>

lemma prio_insert_split:
  "prio_insert pr t xs = takeWhile (\<lambda>u. unat (pr u) \<le> unat (pr t)) xs @ t # dropWhile (\<lambda>u. unat (pr u) \<le> unat (pr t)) xs"
  by (induction xs) (auto simp: word_less_nat_alt)

lemma prio_insert_sorted:
  assumes "sorted (map (\<lambda>u. unat (pr u)) xs)"
  shows "sorted (map (\<lambda>u. unat (pr u)) (prio_insert pr t xs))"
  unfolding prio_insert_split using sorted_insert [OF assms, of t] by simp

lemma prio_insert_cong: "(\<And>u. pr u = pr' u) \<Longrightarrow> prio_insert pr t xs = prio_insert pr' t xs"
  by (induction xs) auto

lemma ipc_place_prio:
  "(\<And>u. current_priority (threads k' u) = current_priority (threads k u)) \<Longrightarrow> ipc_place flag t k' xs = ipc_place flag t k xs"
  by (simp add: ipc_place_def)

lemma ipc_place_cong: "same_data k k' \<Longrightarrow> ipc_place flag t k' xs = ipc_place flag t k xs"
  by (simp add: ipc_place_def same_dataD(2) cong: prio_insert_cong)

section \<open>Waking\<close>

lemma waiting_suspended: "kernel_ok k \<Longrightarrow> is_wait l \<Longrightarrow> t \<in> set (lists k l) \<Longrightarrow> stat_of (threads k t) = RT_THREAD_SUSPEND"
  using base_okD(4) [OF kernel_okD(4)] by (auto simp: is_wait_def wait_ok_def)

lemma waiting_once:
  assumes "kernel_ok k" "t \<in> set (lists k l)" "l' \<noteq> l"
  shows "t \<notin> set (lists k l')"
  using base_okD(1) [OF kernel_okD(4) [OF assms(1)]] assms(2,3) unfolding lists_ok_def by blast

lemma resume_same_data: "same_data k (snd (rt_thread_resume t k))"
proof (rule same_data_stat)
  fix u
  have self: "\<exists>v. threads k u = (threads k u)\<lparr>stat := v\<rparr>" by (rule exI [of _ "stat (threads k u)"]) simp
  show "\<exists>v. threads (snd (rt_thread_resume t k)) u = (threads k u)\<lparr>stat := v\<rparr>"
    using self by (cases "u = t") (auto simp: rt_thread_resume_def Let_def rt_schedule_insert_thread_def set_stat_def)
qed

text \<open>Resuming the first thread of a waiting list.\<close>

lemma ipc_resume_kernel:
  assumes ok: "kernel_ok k" and w: "is_wait l" and l: "lists k l = t # ts"
  obtains k' where "rt_ipc_list_resume l k = Some k'" "kernel_ok k'" "lists k' l = ts"
    "\<And>l'. is_wait l' \<Longrightarrow> l' \<noteq> l \<Longrightarrow> lists k' l' = lists k l'" "alive t k'" "same_data k k'"
    "current k' = current k" "rt_tick k' = rt_tick k" "lock_nest k' = lock_nest k" "irq_nest k' = irq_nest k"
    "\<And>u. u \<noteq> t \<Longrightarrow> threads k' u = threads k u"
proof -
  have tl: "t \<in> set (lists k l)" using l by simp
  have s: "stat_of (threads k t) = RT_THREAD_SUSPEND" by (rule waiting_suspended [OF ok w tl])
  note r = resume_kernel [OF ok s]
  have d: "distinct (t # ts)" using base_okD(1) [OF kernel_okD(4) [OF ok]] l unfolding lists_ok_def by metis
  let ?k = "snd (rt_thread_resume t k)"
  show ?thesis
  proof (rule that [of ?k])
    show "rt_ipc_list_resume l k = Some ?k" by (simp add: rt_ipc_list_resume_def l)
    show "lists ?k l = ts" using r(9) [OF is_wait_not_ready [OF w]] l d by (simp add: removeAll_id)
    show "lists ?k l' = lists k l'" if "is_wait l'" "l' \<noteq> l" for l'
      using r(9) [OF is_wait_not_ready [OF that(1)]] waiting_once [OF ok tl that(2)] by (simp add: removeAll_id)
    show "alive t ?k" using r(10) by (simp add: alive_def)
  qed (use r resume_same_data in simp_all)
qed

text \<open>Resuming the first waiting thread and scheduling, as every operation that hands something over does.\<close>

lemma ipc_wake_kernel:
  assumes ok: "kernel_ok k" and w: "is_wait l" and l: "lists k l = t # ts" and c: "current k \<noteq> None"
  obtains k1 k' where "rt_ipc_list_resume l k = Some k1" "rt_schedule k1 = Some k'" "kernel_ok k'" "current k' \<noteq> None"
    "lists k' l = ts" "\<forall>l'. is_wait l' \<longrightarrow> l' \<noteq> l \<longrightarrow> lists k' l' = lists k l'" "alive t k'" "same_data k k'"
    "rt_tick k' = rt_tick k" "lock_nest k' = lock_nest k" "irq_nest k' = irq_nest k"
    "lock_nest k = 0 \<and> current k \<noteq> Some t \<longrightarrow> scheduled k'"
proof -
  obtain k1 where k1: "rt_ipc_list_resume l k = Some k1" "kernel_ok k1" "lists k1 l = ts"
    "\<forall>l'. is_wait l' \<longrightarrow> l' \<noteq> l \<longrightarrow> lists k1 l' = lists k l'" "alive t k1" "same_data k k1"
    "current k1 = current k" "rt_tick k1 = rt_tick k" "lock_nest k1 = lock_nest k" "irq_nest k1 = irq_nest k"
    by (rule ipc_resume_kernel [OF ok w l]) blast
  have c1: "current k1 \<noteq> None" using k1(7) c by simp
  obtain k' where k': "rt_schedule k1 = Some k'" "kernel_ok k'" "lock_nest k1 = 0 \<and> ready_group k1 \<noteq> 0 \<longrightarrow> scheduled k'"
    "current k' \<noteq> None" by (rule schedule_kernel [OF k1(2) c1])
  note so = kernel_okD(1) [OF k1(2)]
  note fr = schedule_frame [OF so k'(1)]
  have wl: "lists k' l' = lists k1 l'" if "is_wait l'" for l' by (rule fr(8) [OF is_wait_not_ready [OF that]])
  have sd: "same_data k1 k'" by (rule same_data_stat) (rule fr(6))
  have rd: "ready_group k1 \<noteq> 0" if "current k \<noteq> Some t"
  proof -
    have "stat_of (threads k1 t) \<noteq> RT_THREAD_RUNNING" using sched_okD(3) [OF so, of t] that k1(7) by (auto simp: own_ok_def)
    then show ?thesis using ready_group_nz [OF so, of t] k1(5) by (simp add: alive_def)
  qed
  show ?thesis
  proof (rule that [OF k1(1) k'(1,2,4)])
    show "lists k' l = ts" using wl [OF w] k1(3) by simp
    show "\<forall>l'. is_wait l' \<longrightarrow> l' \<noteq> l \<longrightarrow> lists k' l' = lists k l'" using wl k1(4) by simp
    show "alive t k'" by (rule schedule_alive' [OF so k'(1) k1(5)])
    show "same_data k k'" by (rule same_data_trans [OF k1(6) sd])
    show "lock_nest k = 0 \<and> current k \<noteq> Some t \<longrightarrow> scheduled k'" using k'(3) rd k1(9) by simp
  qed (use fr k1 in simp_all)
qed

text \<open>Resuming all threads of a waiting list: each gets the error code and is runnable; the list is empty.\<close>

lemma resume_all_kernel:
  assumes "is_wait l"
  shows "kernel_ok k \<Longrightarrow> \<exists>k'. rt_ipc_list_resume_all l k = Some k' \<and> kernel_ok k' \<and> lists k' l = []
    \<and> (\<forall>l'. is_wait l' \<longrightarrow> l' \<noteq> l \<longrightarrow> lists k' l' = lists k l') \<and> current k' = current k \<and> rt_tick k' = rt_tick k
    \<and> lock_nest k' = lock_nest k \<and> (\<forall>t \<in> set (lists k l). alive t k' \<and> t_error (threads k' t) = - RT_ERROR)
    \<and> (\<forall>u. u \<notin> set (lists k l) \<longrightarrow> threads k' u = threads k u) \<and> irq_nest k' = irq_nest k"
proof (induction "lists k l" arbitrary: k)
  case Nil
  then show ?case by (subst rt_ipc_list_resume_all.simps) simp
next
  case (Cons t ts)
  note l = Cons(2) [symmetric]
  let ?f = "\<lambda>th. th\<lparr>t_error := - RT_ERROR\<rparr>"
  let ?k1 = "upd_thread t ?f k"
  have ok1: "kernel_ok ?k1" by (rule upd_data_kernel [OF Cons.prems]) (simp_all add: stat_of_def)
  have l1: "lists ?k1 l = t # ts" using l by simp
  obtain k2 where k2: "rt_ipc_list_resume l ?k1 = Some k2" "kernel_ok k2" "lists k2 l = ts"
    "\<And>l'. is_wait l' \<Longrightarrow> l' \<noteq> l \<Longrightarrow> lists k2 l' = lists ?k1 l'" "alive t k2" "same_data ?k1 k2"
    "current k2 = current ?k1" "rt_tick k2 = rt_tick ?k1" "lock_nest k2 = lock_nest ?k1" "irq_nest k2 = irq_nest ?k1"
    "\<And>u. u \<noteq> t \<Longrightarrow> threads k2 u = threads ?k1 u"
    by (rule ipc_resume_kernel [OF ok1 assms l1]) blast
  have e2: "k2 = snd (rt_thread_resume t ?k1)" using k2(1) l1 by (simp add: rt_ipc_list_resume_def)
  have st: "rt_ipc_list_resume_all l k = rt_ipc_list_resume_all l k2"
    using l e2 by (subst rt_ipc_list_resume_all.simps) (simp add: Let_def)
  from Cons.hyps(1) [OF k2(3) [symmetric] k2(2)] obtain k' where
    k': "rt_ipc_list_resume_all l k2 = Some k'" "kernel_ok k'" "lists k' l = []"
    "\<forall>l'. is_wait l' \<longrightarrow> l' \<noteq> l \<longrightarrow> lists k' l' = lists k2 l'" "current k' = current k2" "rt_tick k' = rt_tick k2"
    "lock_nest k' = lock_nest k2" "\<forall>t \<in> set (lists k2 l). alive t k' \<and> t_error (threads k' t) = - RT_ERROR"
    "\<forall>u. u \<notin> set (lists k2 l) \<longrightarrow> threads k' u = threads k2 u" "irq_nest k' = irq_nest k2" by blast
  have d: "t \<notin> set ts" using base_okD(1) [OF kernel_okD(4) [OF ok1]] l1 unfolding lists_ok_def by (metis distinct.simps(2))
  have t': "threads k' t = threads k2 t" using k'(9) k2(3) d by simp
  have "t_error (threads k2 t) = - RT_ERROR" using same_dataD(1) [OF k2(6), of t] by simp
  then have tt: "alive t k' \<and> t_error (threads k' t) = - RT_ERROR" using t' k2(5) by (simp add: alive_def)
  show ?case
  proof (intro exI [of _ k'] conjI)
    show "\<forall>t \<in> set (lists k l). alive t k' \<and> t_error (threads k' t) = - RT_ERROR"
      using k'(8) k2(3) tt unfolding l by simp
    show "\<forall>u. u \<notin> set (lists k l) \<longrightarrow> threads k' u = threads k u" using k'(9) k2(3,11) unfolding l by simp
    show "\<forall>l'. is_wait l' \<longrightarrow> l' \<noteq> l \<longrightarrow> lists k' l' = lists k l'" using k'(4) k2(4) by simp
  qed (use st k' k2 in simp_all)
qed

section \<open>Blocking\<close>

lemma sint_pos_bound:
  fixes w :: u32
  assumes "0 \<le> sint w"
  shows "uint w = sint w"
proof -
  have "\<not> bit w 31" using bit_last_iff [of w] assms by simp
  have "signed_take_bit 31 (uint w) = take_bit 31 (uint w)"
    using \<open>\<not> bit w 31\<close> by (simp add: signed_take_bit_eq_if_positive bit_uint_iff)
  moreover have "take_bit 31 (uint w) = uint w"
  proof -
    have "take_bit (Suc 31) (uint w) = uint w" by (rule take_bit_int_eq_self) (use unsigned_less [of w, where ?'a = int] in simp_all)
    moreover have "take_bit (Suc 31) (uint w) = take_bit 31 (uint w)"
      using \<open>\<not> bit w 31\<close> by (simp only: take_bit_Suc_from_most) (simp add: bit_uint_iff)
    ultimately show ?thesis by (simp only:)
  qed
  ultimately show ?thesis by (simp add: sint_uint)
qed

lemma wait_time_ok:
  fixes w :: u32
  assumes "0 < sint w" "sint w < 0x7fffffff"
  shows "w < HALF_TICK"
  using sint_pos_bound [of w] assms by (simp add: word_less_alt)

lemma wait_timer_kernel:
  assumes ok: "kernel_ok k" and s: "stat_of (threads k t) = RT_THREAD_SUSPEND" and b: "sint time < 0x7fffffff"
  obtains k' where "wait_timer t time k = Some k'" "kernel_ok k'" "threads k' = threads k" "lists k' = lists k"
    "ready_group k' = ready_group k" "current k' = current k" "lock_nest k' = lock_nest k" "irq_nest k' = irq_nest k"
    "rt_tick k' = rt_tick k"
    "0 < sint time \<Longrightarrow> TThread t \<in> set (timer_list k') \<and> key (rt_tick k) k' (TThread t) = unat time"
proof (cases "0 < sint time")
  case False
  with ok that [of k] show ?thesis by (simp add: wait_timer_def)
next
  case True
  let ?i = "TThread t" and ?c = "snd (rt_timer_control (TThread t) (TIMER_SET_TIME time) k)"
  have ok2: "kernel_ok ?c" by (rule set_time_kernel [OF ok])
  have i2: "tm_init_tick (timers ?c ?i) = time" by (simp add: rt_timer_control_def)
  have "time < HALF_TICK" by (rule wait_time_ok [OF True b])
  with i2 obtain k' where k': "rt_timer_start ?i ?c = Some k'" using timer_start_returns by fastforce
  note fr = timer_start_frame [OF k']
  have ok': "kernel_ok k'" by (rule timer_start_kernel [OF ok2 _ _ k']) (simp_all add: s)
  have so: "sorted_from (rt_tick ?c) 0x7fffffff ?c" using kernel_okD(2) [OF ok2] by (simp add: timers_ok_def)
  have "key (rt_tick k) k' ?i = unat time" using timer_start_place(2) [OF so disjI1 [OF refl] _ k'] i2 by simp
  with that [of k'] True k' ok' fr show ?thesis by (simp add: wait_timer_def)
qed

text \<open>Suspending the running thread and putting it anywhere into a waiting list.\<close>

lemma suspend_insert_kernel:
  assumes ok: "kernel_ok k" and s: "stat_of (threads k t) = RT_THREAD_RUNNING" and w: "is_wait l"
  obtains k1 where "rt_thread_suspend t k = Some (RT_EOK, k1)" "lists k1 = lists k" "same_data k k1"
    "\<And>xs. set xs = insert t (set (lists k l)) \<Longrightarrow> distinct xs \<Longrightarrow> kernel_ok (k1\<lparr>lists := (lists k1)(l := xs)\<rparr>)"
    "t \<notin> set (lists k l)" "distinct (lists k l)" "stat_of (threads k1 t) = RT_THREAD_SUSPEND"
    "current k1 = current k" "rt_tick k1 = rt_tick k" "lock_nest k1 = lock_nest k" "irq_nest k1 = irq_nest k"
    "\<And>u. u \<noteq> t \<Longrightarrow> threads k1 u = threads k u"
proof -
  obtain k1 where k1: "rt_thread_suspend t k = Some (RT_EOK, k1)" "kernel_ok k1" "nolist t k1"
    "stat_of (threads k1 t) = RT_THREAD_SUSPEND" "current k1 = current k" "rt_tick k1 = rt_tick k"
    "lock_nest k1 = lock_nest k" "irq_nest k1 = irq_nest k"
    "\<And>l. lists k1 l = removeAll t (lists k l)" "\<And>u. u \<noteq> t \<Longrightarrow> threads k1 u = threads k u"
    "threads k1 t = set_stat RT_THREAD_SUSPEND (threads k t)"
    by (rule suspend_kernel [OF ok]) (use s in auto)
  have nl: "t \<notin> set (lists k l)" for l using not_listed [OF kernel_okD(4) [OF ok], of t] s by (simp add: nolist_def)
  have l1: "lists k1 l = lists k l" for l using k1(9) nl by (simp add: removeAll_id)
  have sd: "same_data k k1"
  proof (rule same_data_stat)
    fix u show "\<exists>v. threads k1 u = (threads k u)\<lparr>stat := v\<rparr>"
    proof (cases "u = t")
      case True
      with k1(11) show ?thesis by (auto simp: set_stat_def)
    next
      case False
      with k1(10) show ?thesis by (intro exI [of _ "stat (threads k u)"]) simp
    qed
  qed
  have d: "distinct (lists k l)" using base_okD(1) [OF kernel_okD(4) [OF ok]] by (simp add: lists_ok_def)
  have "kernel_ok (k1\<lparr>lists := (lists k1)(l := xs)\<rparr>)" if xs: "set xs = insert t (set (lists k l))" "distinct xs" for xs
  proof -
    let ?k2 = "k1\<lparr>lists := (lists k1)(l := xs)\<rparr>"
    have "sched_ok ?k2"
    proof (rule list_insert_sched [OF kernel_okD(1) [OF k1(2)] k1(3)])
      show "list_stat l (stat_of (threads k1 t))" using w k1(4) by (auto simp: is_wait_def list_stat_def)
      show "set xs = insert t (set (lists k1 l))" "distinct xs" using xs by (simp_all add: l1)
    qed
    moreover have "timers_ok ?k2" using kernel_okD(2) [OF k1(2)] by (subst timers_ok_cong [of _ k1]) simp_all
    ultimately show ?thesis using kernel_okD(3,5) [OF k1(2)] by (simp add: kernel_ok_def tt_ok_def period_ok_def)
  qed
  then show ?thesis using that [of k1] k1 l1 sd nl d by blast
qed

lemma ipc_suspend_kernel:
  assumes ok: "kernel_ok k" and s: "stat_of (threads k t) = RT_THREAD_RUNNING" and w: "is_wait l" and f: "flag = 0 \<or> flag = 1"
  obtains k' where "rt_ipc_list_suspend l t flag k = Some k'" "kernel_ok k'" "lists k' l = ipc_place flag t k (lists k l)"
    "\<And>l'. l' \<noteq> l \<Longrightarrow> lists k' l' = lists k l'" "stat_of (threads k' t) = RT_THREAD_SUSPEND" "same_data k k'"
    "current k' = current k" "rt_tick k' = rt_tick k" "lock_nest k' = lock_nest k" "irq_nest k' = irq_nest k"
    "\<And>u. u \<noteq> t \<Longrightarrow> threads k' u = threads k u"
proof (rule suspend_insert_kernel [OF ok s w])
  fix k1
  assume k1: "rt_thread_suspend t k = Some (RT_EOK, k1)" "lists k1 = lists k" "same_data k k1"
    "\<And>xs. set xs = insert t (set (lists k l)) \<Longrightarrow> distinct xs \<Longrightarrow> kernel_ok (k1\<lparr>lists := (lists k1)(l := xs)\<rparr>)"
    "t \<notin> set (lists k l)" "distinct (lists k l)" "stat_of (threads k1 t) = RT_THREAD_SUSPEND"
    "current k1 = current k" "rt_tick k1 = rt_tick k" "lock_nest k1 = lock_nest k" "irq_nest k1 = irq_nest k"
    "\<And>u. u \<noteq> t \<Longrightarrow> threads k1 u = threads k u"
  let ?xs = "ipc_place flag t k1 (lists k1 l)"
  let ?k2 = "k1\<lparr>lists := (lists k1)(l := ?xs)\<rparr>"
  have "kernel_ok ?k2" by (rule k1(4)) (use f k1(2,5,6) in \<open>auto simp: ipc_place_def\<close>)
  moreover have "same_data k ?k2" using k1(3) by (simp add: same_data_def)
  ultimately show ?thesis
    using that [of ?k2] k1 ipc_place_cong [OF k1(3)] by (simp add: rt_ipc_list_suspend_def)
qed

text \<open>The second half of blocking: the thread is in its waiting list; start its timer and schedule.\<close>

lemma wait_schedule_kernel:
  assumes ok: "kernel_ok k1" and c: "current k1 \<noteq> None" "stat_of (threads k1 t) = RT_THREAD_SUSPEND" and b: "sint time < 0x7fffffff"
  obtains k' where "wait_timer t time k1 \<bind> rt_schedule = Some k'" "kernel_ok k'"
    "\<And>l'. is_wait l' \<Longrightarrow> lists k' l' = lists k1 l'" "stat_of (threads k' t) = RT_THREAD_SUSPEND" "same_data k1 k'"
    "current k' \<noteq> None" "rt_tick k' = rt_tick k1" "lock_nest k' = lock_nest k1" "irq_nest k' = irq_nest k1"
    "0 < sint time \<Longrightarrow> TThread t \<in> set (timer_list k') \<and> key (rt_tick k1) k' (TThread t) = unat time"
    "lock_nest k1 = 0 \<and> ready_group k1 \<noteq> 0 \<Longrightarrow> scheduled k'"
proof -
  obtain k2 where k2: "wait_timer t time k1 = Some k2" "kernel_ok k2" "threads k2 = threads k1" "lists k2 = lists k1"
    "ready_group k2 = ready_group k1" "current k2 = current k1" "lock_nest k2 = lock_nest k1" "irq_nest k2 = irq_nest k1"
    "rt_tick k2 = rt_tick k1"
    "0 < sint time \<longrightarrow> TThread t \<in> set (timer_list k2) \<and> key (rt_tick k1) k2 (TThread t) = unat time"
    by (rule wait_timer_kernel [OF ok c(2) b]) blast
  have c2: "current k2 \<noteq> None" using k2(6) c(1) by simp
  obtain k3 where k3: "rt_schedule k2 = Some k3" "kernel_ok k3" "lock_nest k2 = 0 \<and> ready_group k2 \<noteq> 0 \<longrightarrow> scheduled k3"
    "current k3 \<noteq> None" by (rule schedule_kernel [OF k2(2) c2])
  note fr = schedule_frame [OF kernel_okD(1) [OF k2(2)] k3(1)]
  have "same_data k1 k2" using same_data_refl [of k1] unfolding same_data_def k2(3) .
  moreover have "same_data k2 k3" by (rule same_data_stat) (rule fr(6))
  ultimately have sd: "same_data k1 k3" by (rule same_data_trans)
  show ?thesis
  proof (rule that [of k3])
    show "lists k3 l' = lists k1 l'" if "is_wait l'" for l' using fr(8) [OF is_wait_not_ready [OF that]] k2(4) by simp
    show "stat_of (threads k3 t) = RT_THREAD_SUSPEND" using fr(7) [of t] k2(3) c(2) by simp
    show "TThread t \<in> set (timer_list k3) \<and> key (rt_tick k1) k3 (TThread t) = unat time" if "0 < sint time"
      using k2(10) that fr(1,2) by (simp add: key_def)
    show "scheduled k3" if "lock_nest k1 = 0 \<and> ready_group k1 \<noteq> 0" using k3(3) that k2(5,7) by simp
  qed (use k3 sd fr k2 in simp_all)
qed

lemma ready_group_keeps:
  assumes ok: "kernel_ok k" "kernel_ok k1" and w: "is_wait l" and l: "\<And>l'. l' \<noteq> l \<Longrightarrow> lists k1 l' = lists k l'" and g: "ready_group k \<noteq> 0"
  shows "ready_group k1 \<noteq> 0"
proof -
  obtain u us hp where u: "lists k (LReady hp) = u # us" "hp < 32"
    using highest_ok [OF kernel_okD(4) [OF ok(1)] g] by metis
  have "LReady hp \<noteq> l" using w by (auto simp: is_wait_def)
  then have "lists k1 (LReady hp) = u # us" using l u by simp
  then show ?thesis using base_okD(2) [OF kernel_okD(4) [OF ok(2)]] u(2) by (auto simp: group_ok_def)
qed

lemma ipc_block_kernel:
  assumes ok: "kernel_ok k" and c: "current k = Some t" "stat_of (threads k t) = RT_THREAD_RUNNING"
    and w: "is_wait l" and f: "flag = 0 \<or> flag = 1" and b: "sint time < 0x7fffffff"
  obtains k' where "ipc_block l t flag time k = Some k'" "kernel_ok k'" "lists k' l = ipc_place flag t k (lists k l)"
    "\<And>l'. is_wait l' \<Longrightarrow> l' \<noteq> l \<Longrightarrow> lists k' l' = lists k l'" "stat_of (threads k' t) = RT_THREAD_SUSPEND" "same_data k k'"
    "current k' \<noteq> None" "rt_tick k' = rt_tick k" "lock_nest k' = lock_nest k" "irq_nest k' = irq_nest k"
    "0 < sint time \<Longrightarrow> TThread t \<in> set (timer_list k') \<and> key (rt_tick k) k' (TThread t) = unat time"
    "lock_nest k = 0 \<and> ready_group k \<noteq> 0 \<Longrightarrow> scheduled k'"
proof -
  obtain k1 where k1: "rt_ipc_list_suspend l t flag k = Some k1" "kernel_ok k1" "lists k1 l = ipc_place flag t k (lists k l)"
    "\<And>l'. l' \<noteq> l \<Longrightarrow> lists k1 l' = lists k l'" "stat_of (threads k1 t) = RT_THREAD_SUSPEND" "same_data k k1"
    "current k1 = current k" "rt_tick k1 = rt_tick k" "lock_nest k1 = lock_nest k" "irq_nest k1 = irq_nest k"
    by (rule ipc_suspend_kernel [OF ok c(2) w f]) blast
  have c1: "current k1 \<noteq> None" using k1(7) c(1) by simp
  have rg: "ready_group k1 \<noteq> 0" if "ready_group k \<noteq> 0" by (rule ready_group_keeps [OF ok k1(2) w k1(4) that])
  show ?thesis
  proof (rule wait_schedule_kernel [OF k1(2) c1 k1(5) b])
    fix k'
    assume k': "wait_timer t time k1 \<bind> rt_schedule = Some k'" "kernel_ok k'"
      "\<And>l'. is_wait l' \<Longrightarrow> lists k' l' = lists k1 l'" "stat_of (threads k' t) = RT_THREAD_SUSPEND" "same_data k1 k'"
      "current k' \<noteq> None" "rt_tick k' = rt_tick k1" "lock_nest k' = lock_nest k1" "irq_nest k' = irq_nest k1"
      "0 < sint time \<Longrightarrow> TThread t \<in> set (timer_list k') \<and> key (rt_tick k1) k' (TThread t) = unat time"
      "lock_nest k1 = 0 \<and> ready_group k1 \<noteq> 0 \<Longrightarrow> scheduled k'"
    show ?thesis
    proof (rule that [of k'])
      show "ipc_block l t flag time k = Some k'" using k'(1) by (simp add: ipc_block_def k1(1))
      show "same_data k k'" by (rule same_data_trans [OF k1(6) k'(5)])
      show "TThread t \<in> set (timer_list k') \<and> key (rt_tick k) k' (TThread t) = unat time" if "0 < sint time"
        using k'(10) [OF that] k1(8) by simp
      show "scheduled k'" if "lock_nest k = 0 \<and> ready_group k \<noteq> 0" using k'(11) that rg k1(9) by simp
    qed (use k' k1 w in simp_all)
  qed
qed

section \<open>Facts shared by the blocking functions\<close>

text \<open>The calling thread runs, outside of interrupts.\<close>

definition runs :: "nat \<Rightarrow> kernel \<Rightarrow> bool" where
  "runs t k \<longleftrightarrow> current k = Some t \<and> stat_of (threads k t) = RT_THREAD_RUNNING \<and> irq_nest k = 0"

lemma wake_some:
  assumes "kernel_ok k" "current k \<noteq> None" "is_wait l"
  shows "\<exists>k'. (if lists k l \<noteq> [] then rt_ipc_list_resume l k \<bind> rt_schedule else Some k) = Some k' \<and> kernel_ok k' \<and> current k' \<noteq> None"
proof (cases "lists k l")
  case Nil
  with assms show ?thesis by simp
next
  case (Cons t ts)
  obtain k1 k' where "rt_ipc_list_resume l k = Some k1" "rt_schedule k1 = Some k'" "kernel_ok k'" "current k' \<noteq> None"
    by (rule ipc_wake_kernel [OF assms(1,3) Cons assms(2)])
  with Cons show ?thesis by simp
qed

lemma block_ok:
  assumes kk: "kernel_ok k" and r: "runs t k" and w: "is_wait l" and f: "flag = 0 \<or> flag = 1" and b: "sint timeout < 0x7fffffff"
  defines "k1 \<equiv> upd_thread t (\<lambda>th. th\<lparr>t_error := RT_EOK\<rparr>) k"
  shows "\<exists>k'. RT_DEBUG_IN_THREAD_CONTEXT k1 = Some () \<and> ipc_block l t flag timeout k1 = Some k' \<and> kernel_ok k'
    \<and> current k' \<noteq> None \<and> lists k' l = ipc_place flag t k (lists k l)"
proof -
  have ok1: "kernel_ok k1" unfolding k1_def using kk by (rule upd_data_kernel) (simp_all add: stat_of_def)
  have c1: "current k1 = Some t" "stat_of (threads k1 t) = RT_THREAD_RUNNING" "irq_nest k1 = 0"
    using r by (simp_all add: runs_def k1_def stat_of_def)
  obtain k' where k': "ipc_block l t flag timeout k1 = Some k'" "kernel_ok k'" "current k' \<noteq> None"
    "lists k' l = ipc_place flag t k1 (lists k1 l)"
    by (rule ipc_block_kernel [OF ok1 c1(1,2) w f b]) blast
  have "ipc_place flag t k1 xs = ipc_place flag t k xs" for xs
    by (rule ipc_place_prio) (simp add: k1_def)
  with k' in_thread_ctx [OF c1(1,3)] show ?thesis by (simp add: k1_def)
qed

section \<open>The remaining waiting time\<close>

lemma sint_word_of_int: "- 2147483648 \<le> x \<Longrightarrow> x < 2147483648 \<Longrightarrow> sint (word_of_int x :: u32) = x"
  by (simp add: signed_of_int signed_take_bit_int_eq_self)

lemma sint_diff:
  fixes a d :: u32
  assumes "0 \<le> sint a" "uint d < 0x80000000"
  shows "sint (a - d) = sint a - uint d"
proof -
  have "sint a < 2147483648" using sint_less [of a] by simp
  with assms uint_ge_0 [of d] have "sint (word_of_int (sint a - uint d) :: u32) = sint a - uint d"
    by (intro sint_word_of_int) linarith+
  then show ?thesis by simp
qed

lemma remaining_timeout_exact:
  assumes "0 < sint timeout" "uint (rt_tick k - start) < 0x80000000"
  shows "sint (remaining_timeout timeout start k) = max 0 (sint timeout - uint (rt_tick k - start))"
proof -
  have d: "sint (timeout - (rt_tick k - start)) = sint timeout - uint (rt_tick k - start)"
    by (rule sint_diff) (use assms in simp_all)
  show ?thesis unfolding remaining_timeout_def rt_tick_get_def Let_def using assms(1) d by (simp add: max_def)
qed

lemma remaining_le:
  assumes "sint timeout < 0x7fffffff" "uint (rt_tick k - start) < 0x80000000"
  shows "sint (remaining_timeout timeout start k) < 0x7fffffff"
proof (cases "0 < sint timeout")
  case True
  show ?thesis unfolding remaining_timeout_exact [OF True assms(2)] using assms(1) uint_ge_0 [of "rt_tick k - start"] by linarith
next
  case False
  with assms(1) show ?thesis by (simp add: remaining_timeout_def)
qed

end
