(* ===== verification/Ipc_Sem.thy ===== *)
theory Ipc_Sem
  imports Ipc
begin

text \<open>
  The semaphores of RTT4/src/ipc.c. A semaphore has a 16-bit value and the waiting list \<open>LIpc i\<close>.
  \<^verbatim>\<open>rt_sem_take\<close> is cut at its call of \<^verbatim>\<open>rt_schedule\<close>: a thread that waits returns later with
  \<open>rt_sem_take_end\<close>.
\<close>

record rt_sem =
  sem_value :: u16
  sem_flag :: u8

section \<open>Operations\<close>

definition rt_sem_init :: "u32 \<Rightarrow> u8 \<Rightarrow> rt_sem option" where
  "rt_sem_init value flag = do {
     RT_ASSERT (value < 0x10000);
     Some \<lparr>sem_value = ucast value, sem_flag = flag\<rparr> }"

text \<open>The argument tells whether the object could be allocated.\<close>

definition rt_sem_create :: "bool \<Rightarrow> u32 \<Rightarrow> u8 \<Rightarrow> kernel \<Rightarrow> rt_sem option option" where
  "rt_sem_create obj value flag k = do {
     RT_DEBUG_NOT_IN_INTERRUPT k;
     RT_ASSERT (value < 0x10000);
     if \<not> obj then Some None else Some (Some \<lparr>sem_value = ucast value, sem_flag = flag\<rparr>) }"

definition rt_sem_detach :: "nat \<Rightarrow> kernel \<Rightarrow> kernel option" where
  "rt_sem_detach i k = rt_ipc_list_resume_all (LIpc i) k"

definition rt_sem_delete :: "nat \<Rightarrow> kernel \<Rightarrow> kernel option" where
  "rt_sem_delete i k = do { RT_DEBUG_NOT_IN_INTERRUPT k; rt_ipc_list_resume_all (LIpc i) k }"

definition rt_sem_take :: "nat \<Rightarrow> u32 \<Rightarrow> rt_sem \<Rightarrow> kernel \<Rightarrow> (rt_err_t ipc_result \<times> rt_sem \<times> kernel) option" where
  "rt_sem_take i time s k =
     (if 0 < sem_value s then Some (Done RT_EOK, s\<lparr>sem_value := sem_value s - 1\<rparr>, k)
      else if time = 0 then Some (Done (- RT_ETIMEOUT), s, k)
      else do {
        RT_DEBUG_IN_THREAD_CONTEXT k;
        thread \<leftarrow> rt_thread_self k;
        let k = upd_thread thread (\<lambda>th. th\<lparr>t_error := RT_EOK\<rparr>) k;
        k \<leftarrow> ipc_block (LIpc i) thread (sem_flag s) time k;
        Some (Waiting thread, s, k) })"

definition rt_sem_take_end :: "nat \<Rightarrow> kernel \<Rightarrow> rt_err_t" where
  "rt_sem_take_end thread k =
     (if t_error (threads k thread) \<noteq> RT_EOK then t_error (threads k thread) else RT_EOK)"

definition rt_sem_trytake :: "nat \<Rightarrow> rt_sem \<Rightarrow> kernel \<Rightarrow> (rt_err_t ipc_result \<times> rt_sem \<times> kernel) option" where
  "rt_sem_trytake i s k = rt_sem_take i 0 s k"

definition rt_sem_release :: "nat \<Rightarrow> rt_sem \<Rightarrow> kernel \<Rightarrow> (rt_sem \<times> kernel) option" where
  "rt_sem_release i s k =
     (if lists k (LIpc i) \<noteq> [] then do {
        k \<leftarrow> rt_ipc_list_resume (LIpc i) k;
        k \<leftarrow> rt_schedule k;
        Some (s, k) }
      else Some (s\<lparr>sem_value := sem_value s + 1\<rparr>, k))"

definition rt_sem_control :: "nat \<Rightarrow> int \<Rightarrow> u32 \<Rightarrow> rt_sem \<Rightarrow> kernel \<Rightarrow> (rt_err_t \<times> rt_sem \<times> kernel) option" where
  "rt_sem_control i cmd value s k =
     (if cmd = RT_IPC_CMD_RESET then do {
        k \<leftarrow> rt_ipc_list_resume_all (LIpc i) k;
        let s = s\<lparr>sem_value := ucast value\<rparr>;
        k \<leftarrow> rt_schedule k;
        Some (RT_EOK, s, k) }
      else Some (- RT_ERROR, s, k))"

section \<open>Every operation keeps the invariant\<close>

text \<open>No thread waits while the semaphore has a value.\<close>

definition sem_ok :: "nat \<Rightarrow> rt_sem \<Rightarrow> kernel \<Rightarrow> bool" where
  "sem_ok i s k \<longleftrightarrow> kernel_ok k \<and> current k \<noteq> None \<and> (lists k (LIpc i) \<noteq> [] \<longrightarrow> sem_value s = 0)
     \<and> (sem_flag s = RT_IPC_FLAG_FIFO \<or> sem_flag s = RT_IPC_FLAG_PRIO)"

lemma sem_take_block:
  assumes ok: "sem_ok i s k" and c: "current k = Some t" "stat_of (threads k t) = RT_THREAD_RUNNING" "irq_nest k = 0"
    and v: "sem_value s = 0" and n: "time \<noteq> 0" and b: "sint time < 0x7fffffff"
  obtains k' where "rt_sem_take i time s k = Some (Waiting t, s, k')" "sem_ok i s k'"
    "lists k' (LIpc i) = ipc_place (sem_flag s) t k (lists k (LIpc i))" "stat_of (threads k' t) = RT_THREAD_SUSPEND"
    "t_error (threads k' t) = RT_EOK" "lock_nest k = 0 \<and> ready_group k \<noteq> 0 \<longrightarrow> scheduled k'" "lock_nest k' = lock_nest k"
proof -
  let ?f = "\<lambda>th. th\<lparr>t_error := RT_EOK\<rparr>"
  let ?k1 = "upd_thread t ?f k"
  have ok1: "kernel_ok ?k1" using ok by (intro upd_data_kernel) (simp_all add: sem_ok_def stat_of_def)
  have c1: "current ?k1 = Some t" "stat_of (threads ?k1 t) = RT_THREAD_RUNNING" using c by (simp_all add: stat_of_def)
  have f: "sem_flag s = 0 \<or> sem_flag s = 1" using ok by (simp add: sem_ok_def)
  obtain k' where k': "ipc_block (LIpc i) t (sem_flag s) time ?k1 = Some k'" "kernel_ok k'"
    "lists k' (LIpc i) = ipc_place (sem_flag s) t ?k1 (lists ?k1 (LIpc i))" "stat_of (threads k' t) = RT_THREAD_SUSPEND"
    "same_data ?k1 k'" "current k' \<noteq> None" "lock_nest ?k1 = 0 \<and> ready_group ?k1 \<noteq> 0 \<longrightarrow> scheduled k'"
    "lock_nest k' = lock_nest ?k1"
    by (rule ipc_block_kernel [OF ok1 c1 _ f b, of "LIpc i"]) (simp, blast)
  have pl: "ipc_place (sem_flag s) t ?k1 xs = ipc_place (sem_flag s) t k xs" for xs
    by (rule ipc_place_prio) simp
  show ?thesis
  proof (rule that [of k'])
    show "rt_sem_take i time s k = Some (Waiting t, s, k')"
      using v n c k'(1)
      by (simp add: rt_sem_take_def RT_DEBUG_IN_THREAD_CONTEXT_def RT_DEBUG_NOT_IN_INTERRUPT_def rt_thread_self_def
          rt_interrupt_get_nest_def)
    show "sem_ok i s k'" using k'(2,6) v f by (simp add: sem_ok_def)
    show "lists k' (LIpc i) = ipc_place (sem_flag s) t k (lists k (LIpc i))" using k'(3) pl by simp
    show "t_error (threads k' t) = RT_EOK" using same_dataD(1) [OF k'(5), of t] by simp
  qed (use k' in simp_all)
qed

lemma sem_release_handover:
  assumes ok: "sem_ok i s k" and l: "lists k (LIpc i) = t # ts"
  obtains k' where "rt_sem_release i s k = Some (s, k')" "sem_ok i s k'" "lists k' (LIpc i) = ts" "alive t k'" "same_data k k'"
    "lock_nest k = 0 \<and> current k \<noteq> Some t \<longrightarrow> scheduled k'"
proof -
  have k: "kernel_ok k" "current k \<noteq> None" using ok by (simp_all add: sem_ok_def)
  obtain k1 k' where k': "rt_ipc_list_resume (LIpc i) k = Some k1" "rt_schedule k1 = Some k'" "kernel_ok k'" "current k' \<noteq> None"
    "lists k' (LIpc i) = ts" "alive t k'" "same_data k k'" "lock_nest k = 0 \<and> current k \<noteq> Some t \<longrightarrow> scheduled k'"
    by (rule ipc_wake_kernel [OF k(1) _ l k(2)]) (simp, blast)
  show ?thesis
  proof (rule that [of k'])
    show "rt_sem_release i s k = Some (s, k')" by (simp add: rt_sem_release_def l k'(1,2))
    show "sem_ok i s k'" using ok k'(3-5) l by (simp add: sem_ok_def)
  qed (use k' in simp_all)
qed

section \<open>Counting\<close>

text \<open>A history of the semaphore: the threads' calls, and steps of the rest of the system, which keep the
  kernel consistent and can only take threads off the waiting list (a timeout, a deleted thread). \<open>rel\<close> counts
  the releases, \<open>got\<close> the takes that succeeded, at once or by a release that handed over.\<close>

inductive sem_run :: "nat \<Rightarrow> rt_sem \<Rightarrow> kernel \<Rightarrow> rt_sem \<Rightarrow> kernel \<Rightarrow> nat \<Rightarrow> nat \<Rightarrow> bool" for i s0 k0 where
  start: "sem_ok i s0 k0 \<Longrightarrow> sem_run i s0 k0 s0 k0 0 0"
| take: "sem_run i s0 k0 s k rel got \<Longrightarrow> current k = Some t \<Longrightarrow> stat_of (threads k t) = RT_THREAD_RUNNING \<Longrightarrow> irq_nest k = 0 \<Longrightarrow>
    sint time < 0x7fffffff \<Longrightarrow> rt_sem_take i time s k = Some (r, s', k') \<Longrightarrow>
    sem_run i s0 k0 s' k' rel (if r = Done RT_EOK then got + 1 else got)"
| release: "sem_run i s0 k0 s k rel got \<Longrightarrow> sem_value s < 0xffff \<Longrightarrow> rt_sem_release i s k = Some (s', k') \<Longrightarrow>
    sem_run i s0 k0 s' k' (rel + 1) (if lists k (LIpc i) \<noteq> [] then got + 1 else got)"
| rest: "sem_run i s0 k0 s k rel got \<Longrightarrow> kernel_ok k' \<Longrightarrow> current k' \<noteq> None \<Longrightarrow>
    set (lists k' (LIpc i)) \<subseteq> set (lists k (LIpc i)) \<Longrightarrow> sem_run i s0 k0 s k' rel got"

lemma u16_pos: "0 < w \<Longrightarrow> unat w = unat (w - 1) + 1" for w :: u16
  using unat_minus_one [of w] unat_gt_0 [of w] by (simp add: word_gt_0)

lemma u16_succ: "w < 0xffff \<Longrightarrow> unat (w + 1) = unat w + 1" for w :: u16
  by (rule unat_plus_one) (simp add: word_less_nat_alt)

lemma sem_run_inv:
  "sem_run i s0 k0 s k rel got \<Longrightarrow> sem_ok i s k \<and> unat (sem_value s) + got = unat (sem_value s0) + rel"
proof (induction rule: sem_run.induct)
  case start
  then show ?case by simp
next
  case (take s k rel got t time r s' k')
  consider (v) "0 < sem_value s" | (z) "sem_value s = 0" "time = 0" | (w) "sem_value s = 0" "time \<noteq> 0" using word_gt_0 [of "sem_value s"] by metis
  then show ?case
  proof cases
    case v
    with take.hyps(6) have "r = Done RT_EOK" "s' = s\<lparr>sem_value := sem_value s - 1\<rparr>" "k' = k" by (simp_all add: rt_sem_take_def)
    moreover have "lists k (LIpc i) = []" using take.IH v by (auto simp: sem_ok_def)
    ultimately show ?thesis using take.IH u16_pos [OF v] by (simp add: sem_ok_def)
  next
    case z
    with take.hyps(6) have "r = Done (- RT_ETIMEOUT)" "s' = s" "k' = k" by (simp_all add: rt_sem_take_def)
    with take.IH show ?thesis by simp
  next
    case w
    from take.IH have ok: "sem_ok i s k" by simp
    obtain k1 where "rt_sem_take i time s k = Some (Waiting t, s, k1)" "sem_ok i s k1"
      by (rule sem_take_block [OF ok take.hyps(2,3,4) w take.hyps(5)])
    with take.hyps(6) take.IH show ?thesis by auto
  qed
next
  case (release s k rel got s' k')
  show ?case
  proof (cases "lists k (LIpc i)")
    case Nil
    with release.hyps(3) have "s' = s\<lparr>sem_value := sem_value s + 1\<rparr>" "k' = k" by (simp_all add: rt_sem_release_def)
    with release.IH Nil u16_succ [OF release.hyps(2)] show ?thesis by (simp add: sem_ok_def)
  next
    case (Cons t ts)
    from release.IH have ok: "sem_ok i s k" by simp
    obtain k1 where "rt_sem_release i s k = Some (s, k1)" "sem_ok i s k1" by (rule sem_release_handover [OF ok Cons])
    with release.hyps(3) release.IH Cons show ?thesis by auto
  qed
next
  case (rest s k rel got k')
  then show ?case by (auto simp: sem_ok_def)
qed

section \<open>Properties\<close>


definition sem2 :: rt_sem where "sem2 = \<lparr>sem_value = 2, sem_flag = 0\<rparr>"

lemma sem2_ok: "sem_ok 0 sem2 (two_threads 10 5 3)"
proof -
  have "kernel_ok (two_threads 10 5 3)" by (rule two_threads_kernel) (simp_all add: two_threads_def Let_def stat_of_def)
  then show ?thesis by (simp add: sem_ok_def sem2_def) (simp add: two_threads_def Let_def)
qed


text \<open>A release hands over. When threads wait, \<^verbatim>\<open>rt_sem_release\<close> makes the first of them ready or running
  without touching the value or its error code, so that its \<^verbatim>\<open>rt_sem_take\<close> returns \<^verbatim>\<open>RT_EOK\<close>; the others keep
  waiting in their order, and no ready thread is more urgent than the one that runs then.\<close>

lemma sem_release_wakes_first:
  assumes "sem_ok i s k" "lists k (LIpc i) = t # ts" "t_error (threads k t) = RT_EOK" "lock_nest k = 0" "current k \<noteq> Some t"
  shows "\<exists>k'. rt_sem_release i s k = Some (s, k') \<and> sem_ok i s k' \<and> lists k' (LIpc i) = ts \<and> alive t k'
    \<and> rt_sem_take_end t k' = RT_EOK \<and> scheduled k'"
proof -
  obtain k' where k': "rt_sem_release i s k = Some (s, k')" "sem_ok i s k'" "lists k' (LIpc i) = ts" "alive t k'" "same_data k k'"
    "lock_nest k = 0 \<and> current k \<noteq> Some t \<longrightarrow> scheduled k'"
    by (rule sem_release_handover [OF assms(1,2)])
  have "rt_sem_take_end t k' = RT_EOK" using same_dataD(1) [OF k'(5), of t] assms(3) by (simp add: rt_sem_take_end_def)
  with k' assms(4,5) show ?thesis by blast
qed

text \<open>Thread 0 waits for an empty semaphore; thread 1, of lower priority, runs.\<close>

lemma sem_waiting_example:
  "\<exists>k. rt_sem_take 0 50 \<lparr>sem_value = 0, sem_flag = 0\<rparr> (two_threads 5 10 3) = Some (Waiting 0, \<lparr>sem_value = 0, sem_flag = 0\<rparr>, k)
    \<and> sem_ok 0 \<lparr>sem_value = 0, sem_flag = 0\<rparr> k \<and> lists k (LIpc 0) = [0] \<and> t_error (threads k 0) = RT_EOK \<and> lock_nest k = 0
    \<and> current k \<noteq> Some 0"
proof -
  let ?k = "two_threads 5 10 3" and ?s = "\<lparr>sem_value = 0, sem_flag = 0\<rparr> :: rt_sem"
  have "kernel_ok ?k" by (rule two_threads_kernel) (simp_all add: two_threads_def Let_def stat_of_def)
  then have ok: "sem_ok 0 ?s ?k" by (simp add: sem_ok_def) (simp add: two_threads_def Let_def)
  have c: "current ?k = Some 0" "stat_of (threads ?k 0) = RT_THREAD_RUNNING" "irq_nest ?k = 0" "lists ?k (LIpc 0) = []"
    "lock_nest ?k = 0" "ready_group ?k \<noteq> 0"
    by (simp_all add: two_threads_def Let_def stat_of_def)
  obtain k where k: "rt_sem_take 0 50 ?s ?k = Some (Waiting 0, ?s, k)" "sem_ok 0 ?s k"
    "lists k (LIpc 0) = ipc_place (sem_flag ?s) 0 ?k (lists ?k (LIpc 0))" "stat_of (threads k 0) = RT_THREAD_SUSPEND"
    "t_error (threads k 0) = RT_EOK" "lock_nest ?k = 0 \<and> ready_group ?k \<noteq> 0 \<longrightarrow> scheduled k"
    "lock_nest k = lock_nest ?k"
    by (rule sem_take_block [OF ok c(1-3), of 50]) simp_all
  have "current k \<noteq> Some 0" using k(4,6) c(5,6) by (auto simp: scheduled_def)
  then show ?thesis using k c(4,5) by (simp add: ipc_place_def)
qed

text \<open>The value wraps. At the value 65535 with no thread waiting, a release leaves the value 0: 65536 permits
  are lost and the next take waits, although \<^verbatim>\<open>rt_sem_release\<close> returns \<^verbatim>\<open>RT_EOK\<close>.\<close>

lemma sem_release_wraps:
  assumes "sem_value s = 0xffff" "lists k (LIpc i) = []"
  shows "\<exists>s'. rt_sem_release i s k = Some (s', k) \<and> sem_value s' = 0"
  using assms by (simp add: rt_sem_release_def)

lemma sem_release_wraps_witness:
  "\<exists>s'. rt_sem_release 0 \<lparr>sem_value = 0xffff, sem_flag = 0\<rparr> (two_threads 10 5 3) = Some (s', two_threads 10 5 3) \<and> sem_value s' = 0"
  by (rule sem_release_wraps) (simp_all add: two_threads_def Let_def)

end
