(* ===== verification/Ipc_Mutex.thy ===== *)
theory Ipc_Mutex
  imports Ipc
begin

text \<open>
  The mutexes of RTT4/src/ipc.c: recursive, owned by a thread, with priority inheritance. The owner is
  \<open>None\<close> for \<^verbatim>\<open>RT_NULL\<close>. \<^verbatim>\<open>rt_mutex_take\<close> is cut at \<^verbatim>\<open>rt_schedule\<close>; \<open>rt_mutex_take_end\<close> is the rest, with the jump
  back to \<^verbatim>\<open>__again\<close> for an interrupted wait.
\<close>

record rt_mutex =
  mx_value :: u16
  mx_original_priority :: u8
  mx_hold :: u8
  mx_owner :: "nat option"
  mx_flag :: u8

section \<open>Operations\<close>

definition rt_mutex_init :: "u8 \<Rightarrow> rt_mutex" where
  "rt_mutex_init flag = \<lparr>mx_value = 1, mx_original_priority = 0xff, mx_hold = 0, mx_owner = None, mx_flag = flag\<rparr>"

definition rt_mutex_create :: "bool \<Rightarrow> u8 \<Rightarrow> kernel \<Rightarrow> rt_mutex option option" where
  "rt_mutex_create obj flag k = do {
     RT_DEBUG_NOT_IN_INTERRUPT k;
     Some (if \<not> obj then None else Some (rt_mutex_init flag)) }"

definition rt_mutex_detach :: "nat \<Rightarrow> kernel \<Rightarrow> kernel option" where
  "rt_mutex_detach i k = rt_ipc_list_resume_all (LIpc i) k"

definition rt_mutex_delete :: "nat \<Rightarrow> kernel \<Rightarrow> kernel option" where
  "rt_mutex_delete i k = do { RT_DEBUG_NOT_IN_INTERRUPT k; rt_ipc_list_resume_all (LIpc i) k }"

text \<open>From the label \<^verbatim>\<open>__again\<close> on.\<close>

definition mutex_again :: "nat \<Rightarrow> u32 \<Rightarrow> nat \<Rightarrow> rt_mutex \<Rightarrow> kernel \<Rightarrow> (rt_err_t ipc_result \<times> rt_mutex \<times> kernel) option" where
  "mutex_again i time thread m k =
     (if 0 < mx_value m then
        Some (Done RT_EOK, m\<lparr>mx_value := mx_value m - 1, mx_owner := Some thread,
          mx_original_priority := current_priority (threads k thread), mx_hold := mx_hold m + 1\<rparr>, k)
      else if time = 0 then
        Some (Done (- RT_ETIMEOUT), m, upd_thread thread (\<lambda>th. th\<lparr>t_error := - RT_ETIMEOUT\<rparr>) k)
      else do {
        owner \<leftarrow> mx_owner m;
        k \<leftarrow> (if current_priority (threads k thread) < current_priority (threads k owner)
              then rt_thread_control owner (CTRL_CHANGE_PRIORITY (current_priority (threads k thread))) k
              else Some k);
        k \<leftarrow> ipc_block (LIpc i) thread (mx_flag m) time k;
        Some (Waiting thread, m, k) })"

definition rt_mutex_take :: "nat \<Rightarrow> u32 \<Rightarrow> rt_mutex \<Rightarrow> kernel \<Rightarrow> (rt_err_t ipc_result \<times> rt_mutex \<times> kernel) option" where
  "rt_mutex_take i time m k = do {
     RT_DEBUG_IN_THREAD_CONTEXT k;
     thread \<leftarrow> rt_thread_self k;
     let k = upd_thread thread (\<lambda>th. th\<lparr>t_error := RT_EOK\<rparr>) k;
     if mx_owner m = Some thread then Some (Done RT_EOK, m\<lparr>mx_hold := mx_hold m + 1\<rparr>, k)
     else mutex_again i time thread m k }"

definition rt_mutex_take_end ::
  "nat \<Rightarrow> u32 \<Rightarrow> nat \<Rightarrow> rt_mutex \<Rightarrow> kernel \<Rightarrow> (rt_err_t ipc_result \<times> rt_mutex \<times> kernel) option" where
  "rt_mutex_take_end i time thread m k =
     (if t_error (threads k thread) \<noteq> RT_EOK then
        if t_error (threads k thread) = - RT_EINTR then mutex_again i time thread m k
        else Some (Done (t_error (threads k thread)), m, k)
      else Some (Done RT_EOK, m, k))"

definition rt_mutex_release :: "nat \<Rightarrow> rt_mutex \<Rightarrow> kernel \<Rightarrow> (rt_err_t \<times> rt_mutex \<times> kernel) option" where
  "rt_mutex_release i m k = do {
     RT_DEBUG_IN_THREAD_CONTEXT k;
     thread \<leftarrow> rt_thread_self k;
     if mx_owner m \<noteq> Some thread then Some (- RT_ERROR, m, upd_thread thread (\<lambda>th. th\<lparr>t_error := - RT_ERROR\<rparr>) k)
     else do {
       let m = m\<lparr>mx_hold := mx_hold m - 1\<rparr>;
       if mx_hold m = 0 then do {
         k \<leftarrow> (if mx_original_priority m \<noteq> current_priority (threads k thread)
               then rt_thread_control thread (CTRL_CHANGE_PRIORITY (mx_original_priority m)) k else Some k);
         case lists k (LIpc i) of
           t # ts \<Rightarrow> do {
             let m = m\<lparr>mx_owner := Some t, mx_original_priority := current_priority (threads k t), mx_hold := mx_hold m + 1\<rparr>;
             k \<leftarrow> rt_ipc_list_resume (LIpc i) k;
             k \<leftarrow> rt_schedule k;
             Some (RT_EOK, m, k) }
         | [] \<Rightarrow> Some (RT_EOK, m\<lparr>mx_value := mx_value m + 1, mx_owner := None, mx_original_priority := 0xff\<rparr>, k) }
       else Some (RT_EOK, m, k) } }"

definition rt_mutex_control :: rt_err_t where
  "rt_mutex_control = - RT_ERROR"

section \<open>Invariant\<close>

definition mutex_ok :: "nat \<Rightarrow> rt_mutex \<Rightarrow> kernel \<Rightarrow> bool" where
  "mutex_ok i m k \<longleftrightarrow> kernel_ok k \<and> current k \<noteq> None \<and> (mx_flag m = RT_IPC_FLAG_FIFO \<or> mx_flag m = RT_IPC_FLAG_PRIO)
     \<and> (case mx_owner m of
          None \<Rightarrow> mx_value m = 1 \<and> mx_hold m = 0 \<and> lists k (LIpc i) = []
        | Some o' \<Rightarrow> mx_value m = 0 \<and> 0 < mx_hold m \<and> unat (mx_original_priority m) < 32)"

lemma running_prio:
  assumes "kernel_ok k" "stat_of (threads k t) \<in> {RT_THREAD_READY, RT_THREAD_SUSPEND, RT_THREAD_RUNNING}"
  shows "unat (current_priority (threads k t)) < 32"
  using mask_of(1) [OF kernel_okD(4) [OF assms(1)], of t] assms(2) by (simp add: prio_def started_def)

lemma take_free:
  assumes ok: "mutex_ok i m k" and c: "current k = Some t" "stat_of (threads k t) = RT_THREAD_RUNNING" "irq_nest k = 0"
    and f: "mx_owner m = None"
  obtains m' k' where "rt_mutex_take i time m k = Some (Done RT_EOK, m', k')" "mutex_ok i m' k'"
    "mx_owner m' = Some t" "mx_hold m' = 1" "mx_original_priority m' = current_priority (threads k t)"
proof -
  let ?k = "upd_thread t (\<lambda>th. th\<lparr>t_error := RT_EOK\<rparr>) k"
  have ok1: "kernel_ok ?k" using ok by (intro upd_data_kernel) (simp_all add: mutex_ok_def stat_of_def)
  have p: "unat (current_priority (threads k t)) < 32" using ok c by (intro running_prio) (auto simp: mutex_ok_def)
  show ?thesis
    using that ok ok1 p f c in_thread_ctx [OF c(1,3)]
    by (simp add: rt_mutex_take_def mutex_again_def mutex_ok_def rt_thread_self_def Let_def)
qed

lemma take_again:
  assumes ok: "mutex_ok i m k" and c: "current k = Some t" "irq_nest k = 0" and f: "mx_owner m = Some t" and h: "mx_hold m < 0xff"
  obtains k' where "rt_mutex_take i time m k = Some (Done RT_EOK, m\<lparr>mx_hold := mx_hold m + 1\<rparr>, k')"
    "mutex_ok i (m\<lparr>mx_hold := mx_hold m + 1\<rparr>) k'"
proof -
  let ?k = "upd_thread t (\<lambda>th. th\<lparr>t_error := RT_EOK\<rparr>) k"
  have ok1: "kernel_ok ?k" using ok by (intro upd_data_kernel) (simp_all add: mutex_ok_def stat_of_def)
  have h1: "0 < mx_hold m + 1" using h unat_plus_one [of "mx_hold m"] by (simp add: word_less_nat_alt)
  show ?thesis
    using that ok ok1 f c in_thread_ctx [OF c(1,2)] h1 by (simp add: rt_mutex_take_def mutex_ok_def rt_thread_self_def)
qed

text \<open>Waiting for a mutex that another thread owns: the owner is at least as urgent afterwards.\<close>

lemma take_wait:
  assumes ok: "mutex_ok i m k" and c: "current k = Some t" "stat_of (threads k t) = RT_THREAD_RUNNING" "irq_nest k = 0"
    and f: "mx_owner m = Some u" "u \<noteq> t" and n: "time \<noteq> 0" and b: "sint time < 0x7fffffff"
  obtains k' where "rt_mutex_take i time m k = Some (Waiting t, m, k')" "mutex_ok i m k'" "prio u k' \<le> prio t k'"
    "prio u k' \<le> prio u k" "t_error (threads k' t) = RT_EOK" "stat_of (threads k' t) = RT_THREAD_SUSPEND"
    "set (lists k' (LIpc i)) = insert t (set (lists k (LIpc i)))" "lock_nest k = 0 \<and> ready_group k \<noteq> 0 \<longrightarrow> scheduled k'"
    "lock_nest k' = lock_nest k"
proof -
  let ?k = "upd_thread t (\<lambda>th. th\<lparr>t_error := RT_EOK\<rparr>) k"
  let ?p = "current_priority (threads k t)"
  from ok have kk: "kernel_ok k" and fl: "mx_flag m = 0 \<or> mx_flag m = 1" by (simp_all add: mutex_ok_def)
  have ok1: "kernel_ok ?k" using kk by (intro upd_data_kernel) (simp_all add: stat_of_def)
  have p: "unat ?p < 32" using kk c by (intro running_prio) auto
  let ?low = "?p < current_priority (threads k u)"
  obtain k1 where k1: "(if ?low then rt_thread_control u (CTRL_CHANGE_PRIORITY ?p) ?k else Some ?k) = Some k1" "kernel_ok k1"
    "current k1 = Some t" "lock_nest k1 = lock_nest k" "current_priority (threads k1 u) = (if ?low then ?p else current_priority (threads k u))"
    "threads k1 t = threads ?k t" "lists k1 (LIpc i) = lists k (LIpc i)" "ready_group k \<noteq> 0 \<longrightarrow> ready_group k1 \<noteq> 0"
  proof (cases ?low)
    case False
    then show ?thesis using that [of ?k] ok1 c f(2) by simp
  next
    case True
    obtain k1 where k1: "rt_thread_control u (CTRL_CHANGE_PRIORITY ?p) ?k = Some k1" "kernel_ok k1" "current_priority (threads k1 u) = ?p"
      "current k1 = current ?k" "lock_nest k1 = lock_nest ?k" "\<And>v. v \<noteq> u \<Longrightarrow> threads k1 v = threads ?k v"
      "stat_of (threads k1 u) = stat_of (threads ?k u)" "\<And>l. \<forall>p. l \<noteq> LReady p \<Longrightarrow> lists k1 l = lists ?k l"
      by (rule priority_kernel [OF ok1 p]) blast
    have "ready_group k1 \<noteq> 0" if g: "ready_group k \<noteq> 0"
    proof -
      obtain v vs hp where v: "lists k (LReady hp) = v # vs" using highest_ok [OF kernel_okD(4) [OF kk] g] by metis
      then have "v \<in> set (lists k (LReady hp))" by simp
      then have "stat_of (threads k v) = RT_THREAD_READY" using base_okD(3) [OF kernel_okD(4) [OF kk]] unfolding ready_ok_def by blast
      then have "stat_of (threads k1 v) = RT_THREAD_READY" using k1(6,7) by (cases "v = u"; cases "v = t") (simp_all add: stat_of_def)
      then show ?thesis by (rule ready_group_nz [OF kernel_okD(1) [OF k1(2)]])
    qed
    with that [of k1] True k1 c f(2) show ?thesis by simp
  qed
  have s1: "stat_of (threads k1 t) = RT_THREAD_RUNNING" using k1(6) c(2) by (simp add: stat_of_def)
  obtain k2 where k2: "ipc_block (LIpc i) t (mx_flag m) time k1 = Some k2" "kernel_ok k2"
    "lists k2 (LIpc i) = ipc_place (mx_flag m) t k1 (lists k1 (LIpc i))" "stat_of (threads k2 t) = RT_THREAD_SUSPEND"
    "same_data k1 k2" "current k2 \<noteq> None" "lock_nest k2 = lock_nest k1" "lock_nest k1 = 0 \<and> ready_group k1 \<noteq> 0 \<longrightarrow> scheduled k2"
    by (rule ipc_block_kernel [OF k1(2,3) s1 _ fl b, of "LIpc i"]) (simp, blast)
  have pu: "prio u k2 = unat (if ?low then ?p else current_priority (threads k u))"
    using same_dataD(2) [OF k2(5), of u] k1(5) by (simp add: prio_def)
  have pt: "prio t k2 = unat ?p" using same_dataD(2) [OF k2(5), of t] k1(6) by (simp add: prio_def)
  show ?thesis
  proof (rule that [of k2])
    have "mutex_again i time t m ?k = Some (Waiting t, m, k2)"
      unfolding mutex_again_def using f n ok k1(1) k2(1) by (auto simp: mutex_ok_def split: if_splits)
    then show "rt_mutex_take i time m k = Some (Waiting t, m, k2)"
      using f c in_thread_ctx [OF c(1,3)] by (simp add: rt_mutex_take_def rt_thread_self_def)
    show "mutex_ok i m k2" using ok k2(2,6) f by (simp add: mutex_ok_def)
    show "prio u k2 \<le> prio t k2" "prio u k2 \<le> prio u k"
      unfolding pu pt by (simp_all add: word_less_nat_alt prio_def)
    show "t_error (threads k2 t) = RT_EOK" using same_dataD(1) [OF k2(5), of t] k1(6) by simp
    show "set (lists k2 (LIpc i)) = insert t (set (lists k (LIpc i)))" using k2(3) k1(7) fl by (auto simp: ipc_place_def)
    show "lock_nest k = 0 \<and> ready_group k \<noteq> 0 \<longrightarrow> scheduled k2" using k2(8) k1(4,8) by simp
  qed (use k2 k1 in simp_all)
qed

text \<open>Giving up the last hold: the owner gets its own priority back, and the first waiting thread becomes the
  owner, or the mutex is free.\<close>

lemma release_last:
  assumes ok: "mutex_ok i m k" and c: "current k = Some t" "irq_nest k = 0" and f: "mx_owner m = Some t" and h: "mx_hold m = 1"
  obtains m' k' where "rt_mutex_release i m k = Some (RT_EOK, m', k')" "mutex_ok i m' k'"
    "mx_owner m' = (case lists k (LIpc i) of [] \<Rightarrow> None | u # us \<Rightarrow> Some u)" "lists k (LIpc i) \<noteq> [] \<longrightarrow> mx_hold m' = 1"
    "current_priority (threads k' t) = mx_original_priority m" "lists k' (LIpc i) = tl (lists k (LIpc i))"
    "\<forall>u us. lists k (LIpc i) = u # us \<longrightarrow> alive u k' \<and> t_error (threads k' u) = t_error (threads k u)"
proof -
  from ok f have kk: "kernel_ok k" and op: "unat (mx_original_priority m) < 32" and v: "mx_value m = 0"
    and cur: "current k \<noteq> None" by (simp_all add: mutex_ok_def)
  let ?ch = "mx_original_priority m \<noteq> current_priority (threads k t)"
  obtain k1 where k1: "(if ?ch then rt_thread_control t (CTRL_CHANGE_PRIORITY (mx_original_priority m)) k else Some k) = Some k1"
    "kernel_ok k1" "current k1 = current k" "lists k1 (LIpc i) = lists k (LIpc i)"
    "current_priority (threads k1 t) = mx_original_priority m" "\<forall>u. t_error (threads k1 u) = t_error (threads k u)"
  proof (cases ?ch)
    case False
    show ?thesis by (rule that [of k]) (use False kk in auto)
  next
    case True
    obtain k1 where k1: "rt_thread_control t (CTRL_CHANGE_PRIORITY (mx_original_priority m)) k = Some k1" "kernel_ok k1"
      "current_priority (threads k1 t) = mx_original_priority m" "current k1 = current k"
      "\<And>v. v \<noteq> t \<Longrightarrow> threads k1 v = threads k v" "\<And>l. \<forall>p. l \<noteq> LReady p \<Longrightarrow> lists k1 l = lists k l"
      "t_error (threads k1 t) = t_error (threads k t)"
      by (rule priority_kernel [OF kk op]) blast
    have "t_error (threads k1 v) = t_error (threads k v)" for v using k1(5,7) by (cases "v = t") simp_all
    then show ?thesis by (intro that [of k1]) (use True k1 in auto)
  qed
  note rel = rt_mutex_release_def rt_thread_self_def Let_def
  show ?thesis
  proof (cases "lists k (LIpc i)")
    case Nil
    let ?m = "m\<lparr>mx_hold := 0, mx_value := 1, mx_owner := None, mx_original_priority := 0xff\<rparr>"
    have "rt_mutex_release i m k = Some (RT_EOK, ?m, k1)"
      using c f h k1(1,4) Nil v in_thread_ctx [OF c] by (cases ?ch) (simp_all add: rel)
    moreover have "mutex_ok i ?m k1" using ok k1(2-4) Nil cur by (simp add: mutex_ok_def)
    ultimately show ?thesis using that [of ?m k1] Nil k1(4,5) by simp
  next
    case (Cons u us)
    have l1: "lists k1 (LIpc i) = u # us" using k1(4) Cons by simp
    have su: "stat_of (threads k1 u) = RT_THREAD_SUSPEND"
      by (rule waiting_suspended [OF k1(2), of "LIpc i"]) (simp_all add: l1)
    let ?m = "m\<lparr>mx_hold := 1, mx_owner := Some u, mx_original_priority := current_priority (threads k1 u)\<rparr>"
    obtain k2 where k2: "rt_ipc_list_resume (LIpc i) k1 = Some k2" "kernel_ok k2" "lists k2 (LIpc i) = us" "alive u k2"
      "same_data k1 k2" "current k2 = current k1"
      by (rule ipc_resume_kernel [OF k1(2) _ l1]) (simp, blast)
    have c2: "current k2 \<noteq> None" using k2(6) k1(3) cur by simp
    obtain k3 where k3: "rt_schedule k2 = Some k3" "kernel_ok k3" "current k3 \<noteq> None" by (rule schedule_kernel [OF k2(2) c2])
    note fr = schedule_frame [OF kernel_okD(1) [OF k2(2)] k3(1)]
    have sd: "same_data k1 k3" by (rule same_data_trans [OF k2(5) same_data_stat]) (rule fr(6))
    have "rt_mutex_release i m k = Some (RT_EOK, ?m, k3)"
      using c f h k1(1) l1 k2(1) k3(1) in_thread_ctx [OF c] by (cases ?ch) (simp_all add: rel)
    moreover have "unat (current_priority (threads k1 u)) < 32" using su by (intro running_prio [OF k1(2)]) simp
    then have "mutex_ok i ?m k3" using ok k3(2,3) v by (simp add: mutex_ok_def)
    moreover have "alive u k3" by (rule schedule_alive' [OF kernel_okD(1) [OF k2(2)] k3(1) k2(4)])
    moreover have "lists k3 (LIpc i) = us" using fr(8) [of "LIpc i"] k2(3) by simp
    ultimately show ?thesis using that [of ?m k3] Cons same_dataD(1,2) [OF sd] k1(5,6) by simp
  qed
qed

lemma release_nested:
  assumes ok: "mutex_ok i m k" and c: "current k = Some t" "irq_nest k = 0" and f: "mx_owner m = Some t" and h: "mx_hold m \<noteq> 1"
  shows "rt_mutex_release i m k = Some (RT_EOK, m\<lparr>mx_hold := mx_hold m - 1\<rparr>, k) \<and> mutex_ok i (m\<lparr>mx_hold := mx_hold m - 1\<rparr>) k"
proof -
  have n: "mx_hold m - 1 \<noteq> 0" using h by (metis add.commute diff_add_cancel add_0)
  then have "0 < mx_hold m - 1" by (simp add: word_gt_0)
  then show ?thesis
    using n ok c f in_thread_ctx [OF c] by (simp add: rt_mutex_release_def rt_thread_self_def Let_def mutex_ok_def)
qed

lemma release_other:
  assumes ok: "mutex_ok i m k" and c: "current k = Some t" "irq_nest k = 0" and f: "mx_owner m \<noteq> Some t"
  obtains k' where "rt_mutex_release i m k = Some (- RT_ERROR, m, k')" "mutex_ok i m k'"
proof -
  let ?k = "upd_thread t (\<lambda>th. th\<lparr>t_error := - RT_ERROR\<rparr>) k"
  have "kernel_ok ?k" using ok by (intro upd_data_kernel) (simp_all add: mutex_ok_def stat_of_def)
  with that [of ?k] ok c f in_thread_ctx [OF c] show ?thesis
    by (simp add: rt_mutex_release_def rt_thread_self_def mutex_ok_def split: option.splits)
qed

section \<open>Histories\<close>

text \<open>A history of a mutex. \<open>held t\<close> counts the takes of thread \<open>t\<close> that succeeded, at once or by a release of
  the owner that handed over, minus its successful releases. Takes stay within 255 nested holds. Steps of the
  rest of the system keep the kernel consistent and can only take threads off the waiting list.\<close>

inductive mutex_run :: "nat \<Rightarrow> rt_mutex \<Rightarrow> kernel \<Rightarrow> rt_mutex \<Rightarrow> kernel \<Rightarrow> (nat \<Rightarrow> nat) \<Rightarrow> bool" for i m0 k0 where
  start: "mutex_ok i m0 k0 \<Longrightarrow> mx_owner m0 = None \<Longrightarrow> mutex_run i m0 k0 m0 k0 (\<lambda>_. 0)"
| take: "mutex_run i m0 k0 m k held \<Longrightarrow> current k = Some t \<Longrightarrow> stat_of (threads k t) = RT_THREAD_RUNNING \<Longrightarrow> irq_nest k = 0 \<Longrightarrow>
    sint time < 0x7fffffff \<Longrightarrow> mx_hold m < 0xff \<Longrightarrow> rt_mutex_take i time m k = Some (r, m', k') \<Longrightarrow>
    mutex_run i m0 k0 m' k' (if r = Done RT_EOK then held(t := held t + 1) else held)"
| release: "mutex_run i m0 k0 m k held \<Longrightarrow> current k = Some t \<Longrightarrow> irq_nest k = 0 \<Longrightarrow>
    rt_mutex_release i m k = Some (r, m', k') \<Longrightarrow>
    held' = (if r = RT_EOK then held(t := held t - 1) else held) \<Longrightarrow>
    held'' = (case mx_owner m' of Some u \<Rightarrow> if Some u \<noteq> mx_owner m then held'(u := held' u + 1) else held' | None \<Rightarrow> held') \<Longrightarrow>
    mutex_run i m0 k0 m' k' held''"
| rest: "mutex_run i m0 k0 m k held \<Longrightarrow> kernel_ok k' \<Longrightarrow> current k' \<noteq> None \<Longrightarrow>
    set (lists k' (LIpc i)) \<subseteq> set (lists k (LIpc i)) - set_option (mx_owner m) \<Longrightarrow> mutex_run i m0 k0 m k' held"

definition holders :: "rt_mutex \<Rightarrow> nat \<Rightarrow> nat" where
  "holders m t = (if mx_owner m = Some t then unat (mx_hold m) else 0)"

text \<open>The owner does not wait for its own mutex.\<close>

definition owner_not_waiting :: "nat \<Rightarrow> rt_mutex \<Rightarrow> kernel \<Rightarrow> bool" where
  "owner_not_waiting i m k \<longleftrightarrow> (\<forall>t. mx_owner m = Some t \<longrightarrow> t \<notin> set (lists k (LIpc i)))"

lemma u8_step:
  "w < 0xff \<Longrightarrow> unat (w + 1) = unat w + 1" "w \<noteq> 0 \<Longrightarrow> unat (w - 1) = unat w - 1" for w :: u8
  using unat_plus_one [of w] unat_minus_one [of w] by (simp_all add: word_less_nat_alt)

lemma mutex_take_inv:
  assumes ok: "mutex_ok i m k" and ow: "owner_not_waiting i m k"
    and c: "current k = Some t" "stat_of (threads k t) = RT_THREAD_RUNNING" "irq_nest k = 0"
    and b: "sint time < 0x7fffffff" "mx_hold m < 0xff" and r: "rt_mutex_take i time m k = Some (r, m', k')"
  shows "mutex_ok i m' k' \<and> owner_not_waiting i m' k' \<and>
    holders m' = (if r = Done RT_EOK then (holders m)(t := holders m t + 1) else holders m)"
proof -
  have nl: "t \<notin> set (lists k (LIpc i))"
    using waiting_suspended [of k "LIpc i" t] ok c(2) by (auto simp: mutex_ok_def)
  consider (free) "mx_owner m = None" | (own) "mx_owner m = Some t" | (wait) u where "mx_owner m = Some u" "u \<noteq> t" "time \<noteq> 0"
    | (poll) u where "mx_owner m = Some u" "u \<noteq> t" "time = 0" by (cases "mx_owner m") blast+
  then show ?thesis
  proof cases
    case free
    obtain m1 k1 where "rt_mutex_take i time m k = Some (Done RT_EOK, m1, k1)" "mutex_ok i m1 k1" "mx_owner m1 = Some t" "mx_hold m1 = 1"
      by (rule take_free [OF ok c free])
    moreover have "k1 = upd_thread t (\<lambda>th. th\<lparr>t_error := RT_EOK\<rparr>) k"
      using calculation(1) free c ok in_thread_ctx [OF c(1,3)]
      by (simp add: rt_mutex_take_def mutex_again_def mutex_ok_def rt_thread_self_def)
    ultimately show ?thesis using r free nl by (auto simp: holders_def owner_not_waiting_def)
  next
    case own
    obtain k1 where "rt_mutex_take i time m k = Some (Done RT_EOK, m\<lparr>mx_hold := mx_hold m + 1\<rparr>, k1)"
      "mutex_ok i (m\<lparr>mx_hold := mx_hold m + 1\<rparr>) k1" by (rule take_again [OF ok c(1,3) own b(2)])
    moreover have "k1 = upd_thread t (\<lambda>th. th\<lparr>t_error := RT_EOK\<rparr>) k"
      using calculation(1) own c in_thread_ctx [OF c(1,3)] by (simp add: rt_mutex_take_def rt_thread_self_def)
    ultimately show ?thesis using r own nl u8_step(1) [OF b(2)] by (auto simp: holders_def owner_not_waiting_def)
  next
    case (wait u)
    obtain k1 where "rt_mutex_take i time m k = Some (Waiting t, m, k1)" "mutex_ok i m k1"
      "set (lists k1 (LIpc i)) = insert t (set (lists k (LIpc i)))"
      by (rule take_wait [OF ok c wait b(1)])
    with r wait ow show ?thesis by (auto simp: owner_not_waiting_def)
  next
    case (poll u)
    let ?k = "upd_thread t (\<lambda>th. th\<lparr>t_error := - RT_ETIMEOUT\<rparr>) (upd_thread t (\<lambda>th. th\<lparr>t_error := RT_EOK\<rparr>) k)"
    have e: "r = Done (- RT_ETIMEOUT)" "m' = m" "k' = ?k"
      using r poll c ok in_thread_ctx [OF c(1,3)] by (simp_all add: rt_mutex_take_def mutex_again_def rt_thread_self_def mutex_ok_def)
    have "kernel_ok (upd_thread t (\<lambda>th. th\<lparr>t_error := RT_EOK\<rparr>) k)"
      using ok by (intro upd_data_kernel) (simp_all add: mutex_ok_def stat_of_def)
    then have "kernel_ok ?k" by (rule upd_data_kernel) (simp_all add: stat_of_def)
    with e ok ow poll show ?thesis by (simp add: mutex_ok_def owner_not_waiting_def)
  qed
qed

lemma mutex_release_inv:
  assumes ok: "mutex_ok i m k" and ow: "owner_not_waiting i m k" and c: "current k = Some t" "irq_nest k = 0"
    and r: "rt_mutex_release i m k = Some (r, m', k')"
    and h: "h = (if r = RT_EOK then (holders m)(t := holders m t - 1) else holders m)"
  shows "mutex_ok i m' k' \<and> owner_not_waiting i m' k' \<and>
    holders m' = (case mx_owner m' of Some u \<Rightarrow> if Some u \<noteq> mx_owner m then h(u := h u + 1) else h | None \<Rightarrow> h)"
proof (cases "mx_owner m = Some t")
  case False
  obtain k1 where k1: "rt_mutex_release i m k = Some (- RT_ERROR, m, k1)" "mutex_ok i m k1" by (rule release_other [OF ok c False])
  moreover have "k1 = upd_thread t (\<lambda>th. th\<lparr>t_error := - RT_ERROR\<rparr>) k"
    using k1(1) False c in_thread_ctx [OF c] by (simp add: rt_mutex_release_def rt_thread_self_def)
  ultimately show ?thesis using r ow h by (auto simp: owner_not_waiting_def split: option.split)
next
  case own: True
  have hp: "mx_hold m \<noteq> 0" using ok own by (auto simp: mutex_ok_def)
  show ?thesis
  proof (cases "mx_hold m = 1")
    case False
    have "r = RT_EOK" "m' = m\<lparr>mx_hold := mx_hold m - 1\<rparr>" "k' = k" "mutex_ok i (m\<lparr>mx_hold := mx_hold m - 1\<rparr>) k"
      using release_nested [OF ok c own False] r by simp_all
    with own ow h u8_step(2) [OF hp] show ?thesis by (auto simp: owner_not_waiting_def holders_def)
  next
    case True
    obtain m1 k1 where m1: "rt_mutex_release i m k = Some (RT_EOK, m1, k1)" "mutex_ok i m1 k1"
      "mx_owner m1 = (case lists k (LIpc i) of [] \<Rightarrow> None | u # us \<Rightarrow> Some u)" "lists k (LIpc i) \<noteq> [] \<longrightarrow> mx_hold m1 = 1"
      "lists k1 (LIpc i) = tl (lists k (LIpc i))" by (rule release_last [OF ok c own True])
    have z: "h = (\<lambda>_. 0)" using h r m1(1) own True by (auto simp: holders_def fun_eq_iff)
    have d: "distinct (lists k (LIpc i))" using base_okD(1) [OF kernel_okD(4)] ok by (simp add: mutex_ok_def lists_ok_def)
    show ?thesis
    proof (cases "lists k (LIpc i)")
      case Nil
      with m1 r z show ?thesis by (auto simp: owner_not_waiting_def holders_def)
    next
      case (Cons u us)
      with own ow have "u \<noteq> t" by (auto simp: owner_not_waiting_def)
      with Cons m1 r z d own show ?thesis by (auto simp: owner_not_waiting_def holders_def fun_eq_iff)
    qed
  qed
qed

lemma mutex_run_inv:
  "mutex_run i m0 k0 m k held \<Longrightarrow> mutex_ok i m k \<and> owner_not_waiting i m k \<and> held = holders m"
proof (induction rule: mutex_run.induct)
  case start
  then show ?case by (auto simp: owner_not_waiting_def holders_def)
next
  case (take m k held t time r m' k')
  then show ?case using mutex_take_inv [of i m k t time r m' k'] by simp
next
  case (release m k held t r m' k' held' held'')
  then show ?case using mutex_release_inv [of i m k t r m' k' held'] by simp
next
  case (rest m k held k')
  then have "lists k (LIpc i) = [] \<Longrightarrow> lists k' (LIpc i) = []" by auto
  with rest show ?case by (auto simp: mutex_ok_def owner_not_waiting_def split: option.splits)
qed

section \<open>Properties\<close>

text \<open>C18: Mutual exclusion. In every history of a mutex (takes, blocking or polling, up to 255 nested holds,
  releases, and arbitrary consistent activity of the rest of the system) at most one thread has more successful
  takes than releases; it is the owner recorded in the mutex, which does not wait for it, and its surplus is the
  hold counter.\<close>

theorem mutex_exclusive:
  assumes "mutex_run i m0 k0 m k held"
  shows "(\<forall>t u. 0 < held t \<longrightarrow> 0 < held u \<longrightarrow> t = u)
    \<and> (\<forall>t. 0 < held t \<longrightarrow> mx_owner m = Some t \<and> held t = unat (mx_hold m) \<and> t \<notin> set (lists k (LIpc i)))
    \<and> (\<forall>t. mx_owner m = Some t \<longrightarrow> 0 < held t) \<and> kernel_ok k"
proof -
  from mutex_run_inv [OF assms] have h: "mutex_ok i m k" "owner_not_waiting i m k" "held = holders m" by simp_all
  have "\<forall>t. mx_owner m = Some t \<longrightarrow> 0 < held t" using h(1,3) by (auto simp: mutex_ok_def holders_def word_less_nat_alt)
  with h show ?thesis by (auto simp: holders_def owner_not_waiting_def mutex_ok_def split: if_splits)
qed

lemma mutex_init_ok:
  assumes "flag = 0 \<or> flag = 1"
  shows "mutex_ok i (rt_mutex_init flag) (two_threads 10 5 3)"
proof -
  have "kernel_ok (two_threads 10 5 3)" by (rule two_threads_kernel) (simp_all add: two_threads_def Let_def stat_of_def)
  with assms show ?thesis by (simp add: mutex_ok_def rt_mutex_init_def) (simp add: two_threads_def Let_def)
qed

theorem mutex_exclusive_witness:
  "\<exists>m k. rt_mutex_take 3 100 (rt_mutex_init 1) (two_threads 10 5 3) = Some (Done RT_EOK, m, k) \<and> mx_owner m = Some 0"
proof -
  let ?k = "two_threads 10 5 3"
  have c: "current ?k = Some 0" "stat_of (threads ?k 0) = RT_THREAD_RUNNING" "irq_nest ?k = 0"
    by (simp_all add: two_threads_def Let_def stat_of_def)
  have ok: "mutex_ok 3 (rt_mutex_init 1) ?k" by (rule mutex_init_ok) simp
  have f: "mx_owner (rt_mutex_init 1) = None" "mx_hold (rt_mutex_init 1) < 0xff" by (simp_all add: rt_mutex_init_def)
  obtain m k where t: "rt_mutex_take 3 100 (rt_mutex_init 1) ?k = Some (Done RT_EOK, m, k)" by (rule take_free [OF ok c f(1)])
  have "mutex_run 3 (rt_mutex_init 1) ?k m k (if Done RT_EOK = (Done RT_EOK :: rt_err_t ipc_result) then (\<lambda>_. 0)(0 := 0 + 1) else (\<lambda>_. 0))"
    by (rule mutex_run.take [OF mutex_run.start [OF ok f(1)] c _ f(2) t]) simp
  from mutex_exclusive [OF this, THEN conjunct2, THEN conjunct1, rule_format, of 0] t show ?thesis by simp
qed

text \<open>C20: Priority inheritance. A thread that has to wait for a mutex is suspended in its waiting list, and the
  owner then has at least the priority of the waiting thread, and no lower priority than before; when the owner
  gives up its last hold, it has the priority again that it had when it took the mutex, and the first waiting
  thread becomes the owner and is ready or running.\<close>

theorem mutex_priority_inheritance:
  assumes "mutex_ok i m k" "current k = Some t" "stat_of (threads k t) = RT_THREAD_RUNNING" "irq_nest k = 0"
  shows "(\<forall>u (time :: u32). mx_owner m = Some u \<and> u \<noteq> t \<and> time \<noteq> 0 \<and> sint time < 0x7fffffff \<longrightarrow>
      (\<exists>k'. rt_mutex_take i time m k = Some (Waiting t, m, k') \<and> mutex_ok i m k' \<and> prio u k' \<le> prio t k' \<and> prio u k' \<le> prio u k
        \<and> stat_of (threads k' t) = RT_THREAD_SUSPEND \<and> t \<in> set (lists k' (LIpc i))))
    \<and> (mx_owner m = Some t \<and> mx_hold m = 1 \<longrightarrow>
      (\<exists>m' k'. rt_mutex_release i m k = Some (RT_EOK, m', k') \<and> mutex_ok i m' k'
        \<and> current_priority (threads k' t) = mx_original_priority m
        \<and> (\<forall>u us. lists k (LIpc i) = u # us \<longrightarrow> mx_owner m' = Some u \<and> alive u k' \<and> lists k' (LIpc i) = us)))"
proof (intro conjI allI impI)
  fix u and time :: u32
  assume a: "mx_owner m = Some u \<and> u \<noteq> t \<and> time \<noteq> 0 \<and> sint time < 0x7fffffff"
  obtain k' where "rt_mutex_take i time m k = Some (Waiting t, m, k')" "mutex_ok i m k'" "prio u k' \<le> prio t k'"
    "prio u k' \<le> prio u k" "stat_of (threads k' t) = RT_THREAD_SUSPEND"
    "set (lists k' (LIpc i)) = insert t (set (lists k (LIpc i)))"
    by (rule take_wait [OF assms, of u time]) (use a in auto)
  then show "\<exists>k'. rt_mutex_take i time m k = Some (Waiting t, m, k') \<and> mutex_ok i m k' \<and> prio u k' \<le> prio t k' \<and> prio u k' \<le> prio u k
        \<and> stat_of (threads k' t) = RT_THREAD_SUSPEND \<and> t \<in> set (lists k' (LIpc i))" by blast
next
  assume a: "mx_owner m = Some t \<and> mx_hold m = 1"
  obtain m' k' where "rt_mutex_release i m k = Some (RT_EOK, m', k')" "mutex_ok i m' k'"
    "mx_owner m' = (case lists k (LIpc i) of [] \<Rightarrow> None | u # us \<Rightarrow> Some u)"
    "current_priority (threads k' t) = mx_original_priority m" "lists k' (LIpc i) = tl (lists k (LIpc i))"
    "\<forall>u us. lists k (LIpc i) = u # us \<longrightarrow> alive u k' \<and> t_error (threads k' u) = t_error (threads k u)"
    by (rule release_last [OF assms(1,2,4)]) (use a in auto)
  then show "\<exists>m' k'. rt_mutex_release i m k = Some (RT_EOK, m', k') \<and> mutex_ok i m' k'
        \<and> current_priority (threads k' t) = mx_original_priority m
        \<and> (\<forall>u us. lists k (LIpc i) = u # us \<longrightarrow> mx_owner m' = Some u \<and> alive u k' \<and> lists k' (LIpc i) = us)" by auto
qed

theorem mutex_priority_inheritance_witness:
  "\<exists>k'. rt_mutex_take 0 7 \<lparr>mx_value = 0, mx_original_priority = 20, mx_hold = 1, mx_owner = Some 1, mx_flag = 1\<rparr> (two_threads 5 20 3)
      = Some (Waiting 0, \<lparr>mx_value = 0, mx_original_priority = 20, mx_hold = 1, mx_owner = Some 1, mx_flag = 1\<rparr>, k')
    \<and> prio 1 k' \<le> prio 0 k'"
proof -
  let ?k = "two_threads 5 20 3" and ?m = "\<lparr>mx_value = 0, mx_original_priority = 20, mx_hold = 1, mx_owner = Some 1, mx_flag = 1\<rparr> :: rt_mutex"
  have "kernel_ok ?k" by (rule two_threads_kernel) (simp_all add: two_threads_def Let_def stat_of_def)
  then have ok: "mutex_ok 0 ?m ?k" by (simp add: mutex_ok_def) (simp add: two_threads_def Let_def)
  have c: "current ?k = Some 0" "stat_of (threads ?k 0) = RT_THREAD_RUNNING" "irq_nest ?k = 0"
    by (simp_all add: two_threads_def Let_def stat_of_def)
  from mutex_priority_inheritance [OF ok c, THEN conjunct1, rule_format, of 1 7] show ?thesis by auto
qed

end
