(* ===== verification/Ipc_Event.thy ===== *)
theory Ipc_Event
  imports Ipc
begin

text \<open>
  The events of RTT4/src/ipc.c: 32 flags in a word; a thread waits for all (\<^verbatim>\<open>RT_EVENT_FLAG_AND\<close>) or for one
  (\<^verbatim>\<open>RT_EVENT_FLAG_OR\<close>) of a set of them and may clear what it received (\<^verbatim>\<open>RT_EVENT_FLAG_CLEAR\<close>).
\<close>

record rt_event =
  ev_set :: u32
  ev_flag :: u8

abbreviation (input) RT_EVENT_FLAG_AND :: u8 where "RT_EVENT_FLAG_AND \<equiv> 1"
abbreviation (input) RT_EVENT_FLAG_OR :: u8 where "RT_EVENT_FLAG_OR \<equiv> 2"
abbreviation (input) RT_EVENT_FLAG_CLEAR :: u8 where "RT_EVENT_FLAG_CLEAR \<equiv> 4"

section \<open>Operations\<close>

definition rt_event_init :: "u8 \<Rightarrow> rt_event" where
  "rt_event_init flag = \<lparr>ev_set = 0, ev_flag = flag\<rparr>"

definition rt_event_create :: "bool \<Rightarrow> u8 \<Rightarrow> kernel \<Rightarrow> rt_event option option" where
  "rt_event_create obj flag k = do {
     RT_DEBUG_NOT_IN_INTERRUPT k;
     Some (if \<not> obj then None else Some (rt_event_init flag)) }"

definition rt_event_detach :: "nat \<Rightarrow> kernel \<Rightarrow> kernel option" where
  "rt_event_detach i k = rt_ipc_list_resume_all (LIpc i) k"

definition rt_event_delete :: "nat \<Rightarrow> kernel \<Rightarrow> kernel option" where
  "rt_event_delete i k = do { RT_DEBUG_NOT_IN_INTERRUPT k; rt_ipc_list_resume_all (LIpc i) k }"

text \<open>Whether the flags \<open>ev\<close> are what a thread waits for with option \<open>info\<close> and set \<open>evset\<close>.\<close>

definition event_status :: "u8 \<Rightarrow> u32 \<Rightarrow> u32 \<Rightarrow> bool" where
  "event_status info evset ev =
     (if info AND RT_EVENT_FLAG_AND \<noteq> 0 then evset AND ev = evset
      else if info AND RT_EVENT_FLAG_OR \<noteq> 0 then evset AND ev \<noteq> 0
      else False)"

text \<open>The loop of \<^verbatim>\<open>rt_event_send\<close> over the waiting threads; resuming one only takes that one off the list.\<close>

fun event_scan :: "nat list \<Rightarrow> rt_event \<Rightarrow> kernel \<Rightarrow> bool \<Rightarrow> rt_event \<times> kernel \<times> bool" where
  "event_scan [] ev k need_schedule = (ev, k, need_schedule)"
| "event_scan (t # ts) ev k need_schedule =
     (if event_status (event_info (threads k t)) (event_set (threads k t)) (ev_set ev) then
        let k = (if event_info (threads k t) AND RT_EVENT_FLAG_AND = 0
                 then upd_thread t (\<lambda>th. th\<lparr>event_set := event_set th AND ev_set ev\<rparr>) k else k);
            ev = (if event_info (threads k t) AND RT_EVENT_FLAG_CLEAR \<noteq> 0
                  then ev\<lparr>ev_set := ev_set ev AND NOT (event_set (threads k t))\<rparr> else ev);
            k = snd (rt_thread_resume t k)
        in event_scan ts ev k True
      else event_scan ts ev k need_schedule)"

definition rt_event_send :: "nat \<Rightarrow> u32 \<Rightarrow> rt_event \<Rightarrow> kernel \<Rightarrow> (rt_err_t \<times> rt_event \<times> kernel) option" where
  "rt_event_send i evset ev k =
     (if evset = 0 then Some (- RT_ERROR, ev, k)
      else do {
        let ev = ev\<lparr>ev_set := ev_set ev OR evset\<rparr>;
        let (ev, k, need_schedule) = event_scan (lists k (LIpc i)) ev k False;
        k \<leftarrow> (if need_schedule then rt_schedule k else Some k);
        Some (RT_EOK, ev, k) })"

text \<open>The second component of a result is what is stored in \<^verbatim>\<open>*recved\<close>.\<close>

definition rt_event_recv ::
  "nat \<Rightarrow> u32 \<Rightarrow> u8 \<Rightarrow> u32 \<Rightarrow> rt_event \<Rightarrow> kernel \<Rightarrow> ((rt_err_t \<times> u32 option) ipc_result \<times> rt_event \<times> kernel) option" where
  "rt_event_recv i evset opt timeout ev k = do {
     RT_DEBUG_IN_THREAD_CONTEXT k;
     if evset = 0 then Some (Done (- RT_ERROR, None), ev, k)
     else do {
       thread \<leftarrow> rt_thread_self k;
       let k = upd_thread thread (\<lambda>th. th\<lparr>t_error := RT_EOK\<rparr>) k;
       RT_ASSERT (opt AND RT_EVENT_FLAG_AND \<noteq> 0 \<or> opt AND RT_EVENT_FLAG_OR \<noteq> 0);
       if event_status opt evset (ev_set ev) then
         Some (Done (RT_EOK, Some (ev_set ev AND evset)),
               (if opt AND RT_EVENT_FLAG_CLEAR \<noteq> 0 then ev\<lparr>ev_set := ev_set ev AND NOT evset\<rparr> else ev), k)
       else if timeout = 0 then
         Some (Done (- RT_ETIMEOUT, None), ev, upd_thread thread (\<lambda>th. th\<lparr>t_error := - RT_ETIMEOUT\<rparr>) k)
       else do {
         let k = upd_thread thread (\<lambda>th. th\<lparr>event_set := evset, event_info := opt\<rparr>) k;
         k \<leftarrow> ipc_block (LIpc i) thread (ev_flag ev) timeout k;
         Some (Waiting thread, ev, k) } } }"

definition rt_event_recv_end :: "nat \<Rightarrow> kernel \<Rightarrow> rt_err_t \<times> u32 option" where
  "rt_event_recv_end thread k =
     (if t_error (threads k thread) \<noteq> RT_EOK then (t_error (threads k thread), None)
      else (t_error (threads k thread), Some (event_set (threads k thread))))"

definition rt_event_control :: "nat \<Rightarrow> int \<Rightarrow> rt_event \<Rightarrow> kernel \<Rightarrow> (rt_err_t \<times> rt_event \<times> kernel) option" where
  "rt_event_control i cmd ev k =
     (if cmd = RT_IPC_CMD_RESET then do {
        k \<leftarrow> rt_ipc_list_resume_all (LIpc i) k;
        let ev = ev\<lparr>ev_set := 0\<rparr>;
        k \<leftarrow> rt_schedule k;
        Some (RT_EOK, ev, k) }
      else Some (- RT_ERROR, ev, k))"

section \<open>The scan\<close>

definition wants :: "kernel \<Rightarrow> nat \<Rightarrow> u32 \<Rightarrow> bool" where
  "wants k t ev \<longleftrightarrow> event_status (event_info (threads k t)) (event_set (threads k t)) ev"

text \<open>Clearing flags satisfies nobody.\<close>

lemma and_mono_eq: "s AND (ev AND m) = s \<Longrightarrow> s AND ev = s" for s :: u32
  by (metis and.assoc and.commute and.left_commute and.idem)

lemma status_antimono:
  assumes "\<not> event_status info s ev"
  shows "\<not> event_status info s (ev AND m)"
proof -
  have "s AND (ev AND m) \<noteq> 0 \<Longrightarrow> s AND ev \<noteq> 0" for s :: u32 by (metis and.assoc and_zero_eq bit.conj_zero_left)
  with assms and_mono_eq [of s ev m] show ?thesis by (auto simp: event_status_def split: if_splits)
qed

text \<open>Which threads a scan resumes: going through the list with the flags that are left.\<close>

fun scan_spec :: "kernel \<Rightarrow> nat list \<Rightarrow> u32 \<Rightarrow> nat list \<times> u32" where
  "scan_spec k [] ev = ([], ev)"
| "scan_spec k (t # ts) ev =
     (if wants k t ev then
        let got = (if event_info (threads k t) AND RT_EVENT_FLAG_AND = 0 then event_set (threads k t) AND ev else event_set (threads k t));
            ev' = (if event_info (threads k t) AND RT_EVENT_FLAG_CLEAR \<noteq> 0 then ev AND NOT got else ev)
        in case scan_spec k ts ev' of (ws, e) \<Rightarrow> (t # ws, e)
      else scan_spec k ts ev)"

lemma scan_spec_mono: "\<exists>m. snd (scan_spec k ts ev) = ev AND m"
proof (induction ts arbitrary: ev)
  case Nil
  then show ?case by (auto intro: exI [of _ "- 1"])
next
  case (Cons t ts)
  show ?case
  proof (cases "wants k t ev")
    case False
    with Cons show ?thesis by simp
  next
    case True
    let ?got = "if event_info (threads k t) AND RT_EVENT_FLAG_AND = 0 then event_set (threads k t) AND ev else event_set (threads k t)"
    let ?ev' = "if event_info (threads k t) AND RT_EVENT_FLAG_CLEAR \<noteq> 0 then ev AND NOT ?got else ev"
    obtain m where m: "snd (scan_spec k ts ?ev') = ?ev' AND m" using Cons [of ?ev'] by blast
    have "snd (scan_spec k (t # ts) ev) = ?ev' AND m" using True m by (simp add: Let_def split_beta)
    moreover have "\<exists>m'. ?ev' AND m = ev AND m'" by (auto simp: and.assoc)
    ultimately show ?thesis by simp
  qed
qed

lemma scan_spec_unsatisfied: "t \<in> set ts \<Longrightarrow> t \<notin> set (fst (scan_spec k ts ev)) \<Longrightarrow> \<not> wants k t (snd (scan_spec k ts ev))"
proof (induction ts arbitrary: ev)
  case (Cons u us)
  show ?case
  proof (cases "wants k u ev")
    case True
    with Cons.prems have "t \<noteq> u" by (auto simp: Let_def split_beta)
    with Cons True show ?thesis by (auto simp: Let_def split_beta)
  next
    case False
    obtain m where m: "snd (scan_spec k us ev) = ev AND m" using scan_spec_mono by blast
    show ?thesis
    proof (cases "t \<in> set us")
      case True
      with Cons False show ?thesis by simp
    next
      case out: False
      with Cons.prems have "t = u" by simp
      with False status_antimono [of _ _ ev m] m show ?thesis by (simp add: wants_def)
    qed
  qed
qed simp

lemma scan_spec_wanted: "t \<in> set (fst (scan_spec k ts ev)) \<Longrightarrow> t \<in> set ts \<and> wants k t ev"
proof (induction ts arbitrary: ev)
  case (Cons u us)
  have mono: "wants k t (ev AND m) \<Longrightarrow> wants k t ev" for m using status_antimono by (auto simp: wants_def)
  show ?case
  proof (cases "wants k u ev")
    case True
    let ?got = "if event_info (threads k u) AND RT_EVENT_FLAG_AND = 0 then event_set (threads k u) AND ev else event_set (threads k u)"
    let ?ev' = "if event_info (threads k u) AND RT_EVENT_FLAG_CLEAR \<noteq> 0 then ev AND NOT ?got else ev"
    from Cons.prems True have "t = u \<or> t \<in> set (fst (scan_spec k us ?ev'))" by (auto simp: Let_def split_beta)
    with Cons.IH [of ?ev'] True mono show ?thesis by (auto split: if_splits)
  next
    case False
    with Cons show ?thesis by simp
  qed
qed simp

lemma scan_spec_cong:
  assumes "\<And>u. u \<in> set ts \<Longrightarrow> event_info (threads k' u) = event_info (threads k u) \<and> event_set (threads k' u) = event_set (threads k u)"
  shows "scan_spec k' ts ev = scan_spec k ts ev"
  using assms
proof (induction ts arbitrary: ev)
  case (Cons t ts)
  then have "event_info (threads k' t) = event_info (threads k t)" "event_set (threads k' t) = event_set (threads k t)" by simp_all
  moreover have "scan_spec k' ts e = scan_spec k ts e" for e using Cons by simp
  ultimately show ?case by (simp add: wants_def)
qed simp

lemma filter_removeAll: "filter (\<lambda>u. u \<notin> set ws) (removeAll t xs) = filter (\<lambda>u. u \<notin> set (t # ws)) xs"
  by (induction xs) auto

text \<open>The scan resumes exactly the threads of the specification.\<close>

lemma event_scan_kernel:
  "kernel_ok k \<Longrightarrow> distinct ts \<Longrightarrow> set ts \<subseteq> set (lists k (LIpc i)) \<Longrightarrow>
    \<exists>k'. event_scan ts ev k need = (ev\<lparr>ev_set := snd (scan_spec k ts (ev_set ev))\<rparr>, k', need \<or> fst (scan_spec k ts (ev_set ev)) \<noteq> [])
      \<and> kernel_ok k' \<and> current k' = current k \<and> lock_nest k' = lock_nest k
      \<and> lists k' (LIpc i) = filter (\<lambda>t. t \<notin> set (fst (scan_spec k ts (ev_set ev)))) (lists k (LIpc i))
      \<and> (\<forall>t \<in> set (fst (scan_spec k ts (ev_set ev))). alive t k' \<and> t_error (threads k' t) = t_error (threads k t))
      \<and> (\<forall>u. u \<notin> set (fst (scan_spec k ts (ev_set ev))) \<longrightarrow> threads k' u = threads k u)"
proof (induction ts arbitrary: ev k need)
  case Nil
  then show ?case by simp
next
  case (Cons t ts)
  show ?case
  proof (cases "wants k t (ev_set ev)")
    case False
    with Cons.IH [of k ev need] Cons.prems show ?thesis by (simp add: wants_def)
  next
    case True
    let ?and = "event_info (threads k t) AND RT_EVENT_FLAG_AND = 0"
    let ?k1 = "if ?and then upd_thread t (\<lambda>th. th\<lparr>event_set := event_set th AND ev_set ev\<rparr>) k else k"
    let ?got = "if ?and then event_set (threads k t) AND ev_set ev else event_set (threads k t)"
    let ?e1 = "if event_info (threads k t) AND RT_EVENT_FLAG_CLEAR \<noteq> 0 then ev_set ev AND NOT ?got else ev_set ev"
    let ?ev1 = "ev\<lparr>ev_set := ?e1\<rparr>"
    let ?k2 = "snd (rt_thread_resume t ?k1)"
    have ok1: "kernel_ok ?k1" using Cons.prems(1) by (auto intro!: upd_data_kernel simp: stat_of_def)
    have f1: "stat_of (threads ?k1 u) = stat_of (threads k u)" "lists ?k1 = lists k" "current ?k1 = current k" "lock_nest ?k1 = lock_nest k"
      "t_error (threads ?k1 u) = t_error (threads k u)" for u by (auto simp: stat_of_def)
    have s: "stat_of (threads ?k1 t) = RT_THREAD_SUSPEND"
      unfolding f1(1) by (rule waiting_suspended [OF Cons.prems(1), of "LIpc i"]) (use Cons.prems(3) in auto)
    note r = resume_kernel [OF ok1 s]
    have step: "event_scan (t # ts) ev k need = event_scan ts ?ev1 ?k2 True"
      using True by (simp add: wants_def Let_def cong: if_cong)
    have l2: "lists ?k2 (LIpc i) = removeAll t (lists k (LIpc i))" using r(9) [of "LIpc i"] f1(2) by simp
    have oth: "threads ?k2 u = threads k u" if "u \<noteq> t" for u using r(8) [OF that] that by simp
    have tn: "t \<notin> set ts" "distinct ts" using Cons.prems(2) by simp_all
    have sub: "set ts \<subseteq> set (lists ?k2 (LIpc i))" unfolding l2 using Cons.prems(3) tn by auto
    have sc: "scan_spec ?k2 ts e = scan_spec k ts e" for e
    proof (rule scan_spec_cong)
      fix u assume "u \<in> set ts"
      with tn have "u \<noteq> t" by auto
      from oth [OF this] show "event_info (threads ?k2 u) = event_info (threads k u) \<and> event_set (threads ?k2 u) = event_set (threads k u)"
        by (simp only:)
    qed
    from Cons.IH [OF r(2) tn(2) sub, of ?ev1 True] obtain k' where
      k': "event_scan ts ?ev1 ?k2 True = (?ev1\<lparr>ev_set := snd (scan_spec k ts ?e1)\<rparr>, k', True)" "kernel_ok k'" "current k' = current ?k2"
      "lock_nest k' = lock_nest ?k2"
      "lists k' (LIpc i) = filter (\<lambda>u. u \<notin> set (fst (scan_spec k ts ?e1))) (lists ?k2 (LIpc i))"
      "\<forall>u \<in> set (fst (scan_spec k ts ?e1)). alive u k' \<and> t_error (threads k' u) = t_error (threads ?k2 u)"
      "\<forall>u. u \<notin> set (fst (scan_spec k ts ?e1)) \<longrightarrow> threads k' u = threads ?k2 u"
      unfolding sc by (auto simp: sc)
    have w: "scan_spec k (t # ts) (ev_set ev) = (t # fst (scan_spec k ts ?e1), snd (scan_spec k ts ?e1))"
      using True by (simp add: Let_def split_beta)
    have tw: "t \<notin> set (fst (scan_spec k ts ?e1))" using scan_spec_wanted tn(1) by blast
    have tt: "threads k' t = threads ?k2 t" using k'(7) tw by simp
    have al: "alive t k' \<and> t_error (threads k' t) = t_error (threads k t)"
      using r(10,11) tt f1(5) by (simp add: alive_def)
    show ?thesis
    proof (intro exI [of _ k'] conjI)
      show "event_scan (t # ts) ev k need = (ev\<lparr>ev_set := snd (scan_spec k (t # ts) (ev_set ev))\<rparr>, k', need \<or> fst (scan_spec k (t # ts) (ev_set ev)) \<noteq> [])"
        unfolding step w k'(1) by simp
      show "lists k' (LIpc i) = filter (\<lambda>u. u \<notin> set (fst (scan_spec k (t # ts) (ev_set ev)))) (lists k (LIpc i))"
        unfolding k'(5) l2 w fst_conv by (rule filter_removeAll)
      show "\<forall>u \<in> set (fst (scan_spec k (t # ts) (ev_set ev))). alive u k' \<and> t_error (threads k' u) = t_error (threads k u)"
      proof
        fix u assume "u \<in> set (fst (scan_spec k (t # ts) (ev_set ev)))"
        then consider "u = t" | "u \<noteq> t" "u \<in> set (fst (scan_spec k ts ?e1))" unfolding w by auto
        then show "alive u k' \<and> t_error (threads k' u) = t_error (threads k u)"
        proof cases
          case 1
          with al show ?thesis by simp
        next
          case 2
          from k'(6) 2(2) have "alive u k' \<and> t_error (threads k' u) = t_error (threads ?k2 u)" by blast
          with oth [OF 2(1)] show ?thesis by (simp only:)
        qed
      qed
      show "\<forall>u. u \<notin> set (fst (scan_spec k (t # ts) (ev_set ev))) \<longrightarrow> threads k' u = threads k u"
        unfolding w using k'(7) oth by simp
    qed (use k' r f1 in simp_all)
  qed
qed

section \<open>Invariant\<close>

text \<open>No waiting thread has what it waits for.\<close>

definition event_ok :: "nat \<Rightarrow> rt_event \<Rightarrow> kernel \<Rightarrow> bool" where
  "event_ok i ev k \<longleftrightarrow> kernel_ok k \<and> current k \<noteq> None \<and> (ev_flag ev = RT_IPC_FLAG_FIFO \<or> ev_flag ev = RT_IPC_FLAG_PRIO)
     \<and> (\<forall>t \<in> set (lists k (LIpc i)). \<not> wants k t (ev_set ev))"

lemma wants_cong: "same_data k k' \<Longrightarrow> wants k' t e = wants k t e"
  by (simp add: wants_def same_dataD)

lemma event_send_ok:
  assumes ok: "event_ok i ev k" and n: "s \<noteq> 0"
  defines "sp \<equiv> scan_spec k (lists k (LIpc i)) (ev_set ev OR s)"
  obtains k' where "rt_event_send i s ev k = Some (RT_EOK, ev\<lparr>ev_set := snd sp\<rparr>, k')" "event_ok i (ev\<lparr>ev_set := snd sp\<rparr>) k'"
    "lists k' (LIpc i) = filter (\<lambda>t. t \<notin> set (fst sp)) (lists k (LIpc i))"
    "\<forall>t \<in> set (fst sp). alive t k' \<and> t_error (threads k' t) = t_error (threads k t)"
proof -
  let ?ts = "lists k (LIpc i)"
  from ok have kk: "kernel_ok k" and cur: "current k \<noteq> None" by (simp_all add: event_ok_def)
  have d: "distinct ?ts" using base_okD(1) [OF kernel_okD(4) [OF kk]] by (simp add: lists_ok_def)
  from event_scan_kernel [OF kk d subset_refl, of "ev\<lparr>ev_set := ev_set ev OR s\<rparr>" False] obtain k1 where
    k1: "event_scan ?ts (ev\<lparr>ev_set := ev_set ev OR s\<rparr>) k False = (ev\<lparr>ev_set := snd sp\<rparr>, k1, fst sp \<noteq> [])" "kernel_ok k1"
    "current k1 = current k" "lists k1 (LIpc i) = filter (\<lambda>t. t \<notin> set (fst sp)) ?ts"
    "\<forall>t \<in> set (fst sp). alive t k1 \<and> t_error (threads k1 t) = t_error (threads k t)"
    "\<forall>u. u \<notin> set (fst sp) \<longrightarrow> threads k1 u = threads k u" by (auto simp: sp_def)
  have uns: "\<not> wants k1 t (snd sp)" if "t \<in> set (lists k1 (LIpc i))" for t
  proof -
    from that k1(4) have t: "t \<in> set ?ts" "t \<notin> set (fst sp)" by auto
    have "\<not> wants k t (snd sp)" unfolding sp_def by (rule scan_spec_unsatisfied) (use t in \<open>simp_all add: sp_def\<close>)
    with k1(6) t(2) show ?thesis by (simp add: wants_def)
  qed
  show ?thesis
  proof (cases "fst sp = []")
    case True
    have "rt_event_send i s ev k = Some (RT_EOK, ev\<lparr>ev_set := snd sp\<rparr>, k1)" using n k1(1) True by (simp add: rt_event_send_def Let_def)
    moreover have "event_ok i (ev\<lparr>ev_set := snd sp\<rparr>) k1" using ok k1(2,3) uns by (simp add: event_ok_def)
    ultimately show ?thesis using that k1(4,5) by blast
  next
    case False
    have c1: "current k1 \<noteq> None" using k1(3) cur by simp
    obtain k2 where k2: "rt_schedule k1 = Some k2" "kernel_ok k2" "current k2 \<noteq> None" by (rule schedule_kernel [OF k1(2) c1])
    note fr = schedule_frame [OF kernel_okD(1) [OF k1(2)] k2(1)]
    have sd: "same_data k1 k2" by (rule same_data_stat) (rule fr(6))
    have l2: "lists k2 (LIpc i) = lists k1 (LIpc i)" using fr(8) [of "LIpc i"] by simp
    have "rt_event_send i s ev k = Some (RT_EOK, ev\<lparr>ev_set := snd sp\<rparr>, k2)" using n k1(1) k2(1) False by (simp add: rt_event_send_def Let_def)
    moreover have "event_ok i (ev\<lparr>ev_set := snd sp\<rparr>) k2" using ok k2(2,3) uns l2 wants_cong [OF sd] by (simp add: event_ok_def)
    moreover have "\<forall>t \<in> set (fst sp). alive t k2 \<and> t_error (threads k2 t) = t_error (threads k t)"
      using k1(5) schedule_alive' [OF kernel_okD(1) [OF k1(2)] k2(1)] same_dataD(1) [OF sd] by simp
    ultimately show ?thesis using that k1(4) l2 by metis
  qed
qed

lemma event_recv_block:
  assumes ok: "event_ok i ev k" and c: "current k = Some t" "stat_of (threads k t) = RT_THREAD_RUNNING" "irq_nest k = 0"
    and o: "opt AND RT_EVENT_FLAG_AND \<noteq> 0 \<or> opt AND RT_EVENT_FLAG_OR \<noteq> 0" and s: "s \<noteq> 0" "\<not> event_status opt s (ev_set ev)"
    and n: "timeout \<noteq> 0" and b: "sint timeout < 0x7fffffff"
  obtains k' where "rt_event_recv i s opt timeout ev k = Some (Waiting t, ev, k')" "event_ok i ev k'" "t \<in> set (lists k' (LIpc i))"
proof -
  let ?k1 = "upd_thread t (\<lambda>th. th\<lparr>t_error := RT_EOK\<rparr>) k"
  let ?k2 = "upd_thread t (\<lambda>th. th\<lparr>event_set := s, event_info := opt\<rparr>) ?k1"
  from ok have kk: "kernel_ok k" and fl: "ev_flag ev = 0 \<or> ev_flag ev = 1" by (simp_all add: event_ok_def)
  have ok1: "kernel_ok ?k1" using kk by (rule upd_data_kernel) (simp_all add: stat_of_def)
  have ok2: "kernel_ok ?k2" using ok1 by (rule upd_data_kernel) (simp_all add: stat_of_def)
  have c2: "current ?k2 = Some t" "stat_of (threads ?k2 t) = RT_THREAD_RUNNING" using c by (simp_all add: stat_of_def)
  obtain k' where k': "ipc_block (LIpc i) t (ev_flag ev) timeout ?k2 = Some k'" "kernel_ok k'"
    "lists k' (LIpc i) = ipc_place (ev_flag ev) t ?k2 (lists ?k2 (LIpc i))" "same_data ?k2 k'" "current k' \<noteq> None"
    by (rule ipc_block_kernel [OF ok2 c2 _ fl b, of "LIpc i"]) (simp, blast)
  have st: "set (lists k' (LIpc i)) = insert t (set (lists k (LIpc i)))" using k'(3) fl by (auto simp: ipc_place_def)
  have "\<not> wants k' u (ev_set ev)" if "u \<in> set (lists k' (LIpc i))" for u
    using that s(2) ok st wants_cong [OF k'(4), of u] by (cases "u = t") (auto simp: wants_def event_ok_def)
  then have "event_ok i ev k'" using k'(2,5) fl by (simp add: event_ok_def)
  moreover have "rt_event_recv i s opt timeout ev k = Some (Waiting t, ev, k')"
    using c o s n k'(1) in_thread_ctx [OF c(1,3)] by (simp add: rt_event_recv_def rt_thread_self_def Let_def)
  ultimately show ?thesis using that st by blast
qed

section \<open>Properties\<close>


text \<open>Thread 0 waits for the flags 1 and 2, with clearing.\<close>

lemma event_example:
  "\<exists>k. rt_event_recv 0 3 5 50 \<lparr>ev_set = 1, ev_flag = 0\<rparr> (two_threads 5 10 3) = Some (Waiting 0, \<lparr>ev_set = 1, ev_flag = 0\<rparr>, k)
    \<and> event_ok 0 \<lparr>ev_set = 1, ev_flag = 0\<rparr> k \<and> 0 \<in> set (lists k (LIpc 0))"
proof -
  let ?k = "two_threads 5 10 3" and ?ev = "\<lparr>ev_set = 1, ev_flag = 0\<rparr> :: rt_event"
  have "kernel_ok ?k" by (rule two_threads_kernel) (simp_all add: two_threads_def Let_def stat_of_def)
  then have ok: "event_ok 0 ?ev ?k" by (simp add: event_ok_def) (simp add: two_threads_def Let_def)
  have c: "current ?k = Some 0" "stat_of (threads ?k 0) = RT_THREAD_RUNNING" "irq_nest ?k = 0"
    by (simp_all add: two_threads_def Let_def stat_of_def)
  have a: "(5 :: u8) AND RT_EVENT_FLAG_AND \<noteq> 0 \<or> (5 :: u8) AND RT_EVENT_FLAG_OR \<noteq> 0" "(3 :: u32) \<noteq> 0"
    "\<not> event_status 5 3 (ev_set ?ev)" "(50 :: u32) \<noteq> 0" "sint (50 :: u32) < 0x7fffffff"
    by (simp_all add: event_status_def)
  obtain k where "rt_event_recv 0 3 5 50 ?ev ?k = Some (Waiting 0, ?ev, k)" "event_ok 0 ?ev k" "0 \<in> set (lists k (LIpc 0))"
    by (rule event_recv_block [OF ok c a])
  then show ?thesis by blast
qed


end
