(* ===== verification/Mailbox.thy ===== *)
theory Mailbox
  imports Bounded_Fifo Ipc
begin

text \<open>
  The mailboxes of RTT4/src/ipc.c: a ring of 32-bit mails with a list of waiting receivers (\<open>LIpc i\<close>) and one
  of waiting senders (\<open>LSender i\<close>). The ring is the second interpretation of \<open>bounded_fifo\<close>. The loops of
  \<^verbatim>\<open>rt_mb_send_wait\<close> and \<^verbatim>\<open>rt_mb_recv\<close> around \<^verbatim>\<open>rt_schedule\<close> are cut there: a turn that ends waiting is taken up by
  \<open>rt_mb_send_resume\<close> and \<open>rt_mb_recv_resume\<close> when the thread runs again.
\<close>

record rt_mailbox =
  mb_pool :: "u32 list"
  mb_size :: u16
  mb_entry :: u16
  mb_in :: u16
  mb_out :: u16
  mb_flag :: u8

section \<open>The ring\<close>

definition rt_mb_init :: "u32 list \<Rightarrow> u16 \<Rightarrow> u8 \<Rightarrow> rt_mailbox" where
  "rt_mb_init pool sz flag = \<lparr>mb_pool = pool, mb_size = sz, mb_entry = 0, mb_in = 0, mb_out = 0, mb_flag = flag\<rparr>"

text \<open>The object and the memory of the pool come from the heap; \<^verbatim>\<open>mb->size\<close> has 16 bits.\<close>

definition rt_mb_create :: "bool \<Rightarrow> (nat \<Rightarrow> u32 list option) \<Rightarrow> u32 \<Rightarrow> u8 \<Rightarrow> kernel \<Rightarrow> rt_mailbox option option" where
  "rt_mb_create obj alloc sz flag k = do {
     RT_DEBUG_NOT_IN_INTERRUPT k;
     Some (if \<not> obj then None
           else map_option (\<lambda>pool. rt_mb_init pool (ucast sz) flag) (alloc (unat (ucast sz :: u16)))) }"

definition mb_push :: "u32 \<Rightarrow> rt_mailbox \<Rightarrow> rt_mailbox" where
  "mb_push v mb =
     (let mb = mb\<lparr>mb_pool := (mb_pool mb)[unat (mb_in mb) := v]\<rparr>;
          mb = mb\<lparr>mb_in := mb_in mb + 1\<rparr>;
          mb = (if mb_size mb \<le> mb_in mb then mb\<lparr>mb_in := 0\<rparr> else mb)
      in mb\<lparr>mb_entry := mb_entry mb + 1\<rparr>)"

definition mb_pop :: "rt_mailbox \<Rightarrow> u32 \<times> rt_mailbox" where
  "mb_pop mb =
     (let v = mb_pool mb ! unat (mb_out mb);
          mb = mb\<lparr>mb_out := mb_out mb + 1\<rparr>;
          mb = (if mb_size mb \<le> mb_out mb then mb\<lparr>mb_out := 0\<rparr> else mb)
      in (v, mb\<lparr>mb_entry := mb_entry mb - 1\<rparr>))"

text \<open>What a send without waiting does to the ring, and a receive.\<close>

definition mb_put :: "u32 \<Rightarrow> rt_mailbox \<Rightarrow> rt_err_t \<times> rt_mailbox" where
  "mb_put v mb = (if mb_entry mb = mb_size mb then (- RT_EFULL, mb) else (RT_EOK, mb_push v mb))"

definition mb_get :: "rt_mailbox \<Rightarrow> (u32 \<times> rt_mailbox) option" where
  "mb_get mb = (if mb_entry mb = 0 then None else Some (mb_pop mb))"

section \<open>Sending and receiving\<close>

text \<open>Store the mail and wake the first receiver.\<close>

definition mb_deliver :: "nat \<Rightarrow> u32 \<Rightarrow> rt_mailbox \<Rightarrow> kernel \<Rightarrow> (rt_err_t ipc_result \<times> rt_mailbox \<times> kernel) option" where
  "mb_deliver i v mb k = do {
     let mb = mb_push v mb;
     if lists k (LIpc i) \<noteq> [] then do {
       k \<leftarrow> rt_ipc_list_resume (LIpc i) k;
       k \<leftarrow> rt_schedule k;
       Some (Done RT_EOK, mb, k) }
     else Some (Done RT_EOK, mb, k) }"

definition mb_send_loop ::
  "nat \<Rightarrow> u32 \<Rightarrow> u32 \<Rightarrow> nat option \<Rightarrow> rt_mailbox \<Rightarrow> kernel \<Rightarrow> (rt_err_t ipc_result \<times> rt_mailbox \<times> kernel) option" where
  "mb_send_loop i v timeout self mb k =
     (if mb_entry mb = mb_size mb then do {
        thread \<leftarrow> self;
        let k = upd_thread thread (\<lambda>th. th\<lparr>t_error := RT_EOK\<rparr>) k;
        if timeout = 0 then Some (Done (- RT_EFULL), mb, k)
        else do {
          RT_DEBUG_IN_THREAD_CONTEXT k;
          k \<leftarrow> ipc_block (LSender i) thread (mb_flag mb) timeout k;
          Some (Waiting thread, mb, k) } }
      else mb_deliver i v mb k)"

definition rt_mb_send_wait ::
  "nat \<Rightarrow> u32 \<Rightarrow> u32 \<Rightarrow> rt_mailbox \<Rightarrow> kernel \<Rightarrow> (rt_err_t ipc_result \<times> rt_mailbox \<times> kernel) option" where
  "rt_mb_send_wait i v timeout mb k =
     (if mb_entry mb = mb_size mb \<and> timeout = 0 then Some (Done (- RT_EFULL), mb, k)
      else mb_send_loop i v timeout (rt_thread_self k) mb k)"

definition rt_mb_send :: "nat \<Rightarrow> u32 \<Rightarrow> rt_mailbox \<Rightarrow> kernel \<Rightarrow> (rt_err_t ipc_result \<times> rt_mailbox \<times> kernel) option" where
  "rt_mb_send i v mb k = rt_mb_send_wait i v 0 mb k"

definition rt_mb_send_resume ::
  "nat \<Rightarrow> u32 \<Rightarrow> u32 \<Rightarrow> u32 \<Rightarrow> nat \<Rightarrow> rt_mailbox \<Rightarrow> kernel \<Rightarrow> (rt_err_t ipc_result \<times> rt_mailbox \<times> kernel) option" where
  "rt_mb_send_resume i v timeout start thread mb k =
     (if t_error (threads k thread) \<noteq> RT_EOK then Some (Done (t_error (threads k thread)), mb, k)
      else mb_send_loop i v (remaining_timeout timeout start k) (Some thread) mb k)"

text \<open>Take the oldest mail and wake the first sender; the mail is the second result.\<close>

definition mb_fetch :: "nat \<Rightarrow> rt_mailbox \<Rightarrow> kernel \<Rightarrow> ((rt_err_t \<times> u32 option) ipc_result \<times> rt_mailbox \<times> kernel) option" where
  "mb_fetch i mb k = do {
     let (v, mb) = mb_pop mb;
     if lists k (LSender i) \<noteq> [] then do {
       k \<leftarrow> rt_ipc_list_resume (LSender i) k;
       k \<leftarrow> rt_schedule k;
       Some (Done (RT_EOK, Some v), mb, k) }
     else Some (Done (RT_EOK, Some v), mb, k) }"

definition mb_recv_loop ::
  "nat \<Rightarrow> u32 \<Rightarrow> nat option \<Rightarrow> rt_mailbox \<Rightarrow> kernel \<Rightarrow> ((rt_err_t \<times> u32 option) ipc_result \<times> rt_mailbox \<times> kernel) option" where
  "mb_recv_loop i timeout self mb k =
     (if mb_entry mb = 0 then do {
        thread \<leftarrow> self;
        let k = upd_thread thread (\<lambda>th. th\<lparr>t_error := RT_EOK\<rparr>) k;
        if timeout = 0 then
          Some (Done (- RT_ETIMEOUT, None), mb, upd_thread thread (\<lambda>th. th\<lparr>t_error := - RT_ETIMEOUT\<rparr>) k)
        else do {
          RT_DEBUG_IN_THREAD_CONTEXT k;
          k \<leftarrow> ipc_block (LIpc i) thread (mb_flag mb) timeout k;
          Some (Waiting thread, mb, k) } }
      else mb_fetch i mb k)"

definition rt_mb_recv ::
  "nat \<Rightarrow> u32 \<Rightarrow> rt_mailbox \<Rightarrow> kernel \<Rightarrow> ((rt_err_t \<times> u32 option) ipc_result \<times> rt_mailbox \<times> kernel) option" where
  "rt_mb_recv i timeout mb k =
     (if mb_entry mb = 0 \<and> timeout = 0 then Some (Done (- RT_ETIMEOUT, None), mb, k)
      else mb_recv_loop i timeout (rt_thread_self k) mb k)"

definition rt_mb_recv_resume ::
  "nat \<Rightarrow> u32 \<Rightarrow> u32 \<Rightarrow> nat \<Rightarrow> rt_mailbox \<Rightarrow> kernel \<Rightarrow> ((rt_err_t \<times> u32 option) ipc_result \<times> rt_mailbox \<times> kernel) option" where
  "rt_mb_recv_resume i timeout start thread mb k =
     (if t_error (threads k thread) \<noteq> RT_EOK then Some (Done (t_error (threads k thread), None), mb, k)
      else mb_recv_loop i (remaining_timeout timeout start k) (Some thread) mb k)"

definition rt_mb_control :: "nat \<Rightarrow> int \<Rightarrow> rt_mailbox \<Rightarrow> kernel \<Rightarrow> (rt_err_t \<times> rt_mailbox \<times> kernel) option" where
  "rt_mb_control i cmd mb k =
     (if cmd = RT_IPC_CMD_RESET then do {
        k \<leftarrow> rt_ipc_list_resume_all (LIpc i) k;
        k \<leftarrow> rt_ipc_list_resume_all (LSender i) k;
        let mb = mb\<lparr>mb_entry := 0, mb_in := 0, mb_out := 0\<rparr>;
        k \<leftarrow> rt_schedule k;
        Some (RT_EOK, mb, k) }
      else Some (- RT_ERROR, mb, k))"

definition rt_mb_detach :: "nat \<Rightarrow> kernel \<Rightarrow> kernel option" where
  "rt_mb_detach i k = rt_ipc_list_resume_all (LIpc i) k \<bind> rt_ipc_list_resume_all (LSender i)"

definition rt_mb_delete :: "nat \<Rightarrow> kernel \<Rightarrow> kernel option" where
  "rt_mb_delete i k = do {
     RT_DEBUG_NOT_IN_INTERRUPT k;
     k \<leftarrow> rt_ipc_list_resume_all (LIpc i) k;
     rt_ipc_list_resume_all (LSender i) k }"

section \<open>The ring is a bounded first-in first-out store\<close>

definition ring_at :: "rt_mailbox \<Rightarrow> nat \<Rightarrow> nat" where
  "ring_at mb j = (unat (mb_out mb) + j) mod unat (mb_size mb)"

definition mb_contents :: "rt_mailbox \<Rightarrow> u32 list" where
  "mb_contents mb = map (\<lambda>j. mb_pool mb ! ring_at mb j) [0..<unat (mb_entry mb)]"

definition mb_inv :: "rt_mailbox \<Rightarrow> bool" where
  "mb_inv mb \<longleftrightarrow> length (mb_pool mb) = unat (mb_size mb) \<and> 0 < mb_size mb \<and> mb_out mb < mb_size mb
     \<and> unat (mb_in mb) = ring_at mb (unat (mb_entry mb)) \<and> mb_entry mb \<le> mb_size mb"

lemma wrap_mod: "a < 2 * n \<Longrightarrow> a mod n = (if a < n then a else a - n)" for n :: nat
  by (simp add: le_mod_geq)

lemma offset_step:
  fixes off sz :: u16
  assumes "off < sz"
  shows "unat (if sz \<le> off + 1 then 0 else off + 1) = (unat off + 1) mod unat sz"
proof -
  have u: "unat (off + 1) = unat off + 1" using assms u16_bound [of sz] by (intro unat_plus_one) (simp add: word_less_nat_alt)
  show ?thesis using assms u by (auto simp: word_le_nat_alt word_less_nat_alt wrap_mod)
qed

lemma mb_invD:
  assumes "mb_inv mb"
  shows "length (mb_pool mb) = unat (mb_size mb)" "0 < unat (mb_size mb)" "unat (mb_out mb) < unat (mb_size mb)"
    "unat (mb_in mb) = ring_at mb (unat (mb_entry mb))" "unat (mb_entry mb) \<le> unat (mb_size mb)" "unat (mb_in mb) < unat (mb_size mb)"
  using assms by (auto simp: mb_inv_def word_less_nat_alt word_le_nat_alt ring_at_def)

lemma push_inv:
  assumes i: "mb_inv mb" and r: "mb_entry mb \<noteq> mb_size mb"
  shows "mb_inv (mb_push v mb) \<and> mb_contents (mb_push v mb) = mb_contents mb @ [v] \<and> mb_size (mb_push v mb) = mb_size mb
    \<and> mb_flag (mb_push v mb) = mb_flag mb"
proof -
  note d = mb_invD [OF i]
  have e: "unat (mb_entry mb) < unat (mb_size mb)" using d(5) r by (metis le_neq_implies_less word_unat_eq_iff)
  have e1: "unat (mb_entry mb + 1) = unat (mb_entry mb) + 1" using e u16_bound [of "mb_size mb"] by (intro unat_plus_one) simp
  have p: "mb_push v mb = mb\<lparr>mb_pool := (mb_pool mb)[unat (mb_in mb) := v],
      mb_in := (if mb_size mb \<le> mb_in mb + 1 then 0 else mb_in mb + 1), mb_entry := mb_entry mb + 1\<rparr>"
    by (cases mb) (simp add: mb_push_def Let_def)
  have in1: "unat (if mb_size mb \<le> mb_in mb + 1 then 0 else mb_in mb + 1) = (unat (mb_in mb) + 1) mod unat (mb_size mb)"
    using d(6) by (intro offset_step) (simp add: word_less_nat_alt)
  have "(unat (mb_in mb) + 1) mod unat (mb_size mb) = (unat (mb_out mb) + (unat (mb_entry mb) + 1)) mod unat (mb_size mb)"
    unfolding d(4) ring_at_def by (simp add: mod_Suc_eq)
  then have inv: "mb_inv (mb_push v mb)"
    using i in1 e e1 by (simp add: mb_inv_def p ring_at_def word_le_nat_alt)
  have ne: "ring_at mb j \<noteq> unat (mb_in mb)" if "j < unat (mb_entry mb)" for j
    using that e d(3) unfolding d(4) ring_at_def by (auto simp: wrap_mod)
  have "map (\<lambda>j. (mb_pool mb)[unat (mb_in mb) := v] ! ring_at mb j) [0..<unat (mb_entry mb)] = mb_contents mb"
    using ne unfolding mb_contents_def by (intro map_cong refl nth_list_update_neq) (metis atLeastLessThan_iff set_upt)
  moreover have "(mb_pool mb)[unat (mb_in mb) := v] ! ring_at mb (unat (mb_entry mb)) = v" using d(1,4,6) by simp
  ultimately have "mb_contents (mb_push v mb) = mb_contents mb @ [v]"
    by (simp add: mb_contents_def p e1 ring_at_def)
  with inv show ?thesis by (simp add: p)
qed

lemma pop_inv:
  assumes i: "mb_inv mb" and r: "mb_entry mb \<noteq> 0"
  shows "mb_inv (snd (mb_pop mb)) \<and> mb_contents mb = fst (mb_pop mb) # mb_contents (snd (mb_pop mb))
    \<and> mb_size (snd (mb_pop mb)) = mb_size mb \<and> mb_flag (snd (mb_pop mb)) = mb_flag mb"
proof -
  note d = mb_invD [OF i]
  let ?q = "mb\<lparr>mb_out := (if mb_size mb \<le> mb_out mb + 1 then 0 else mb_out mb + 1), mb_entry := mb_entry mb - 1\<rparr>"
  have p: "mb_pop mb = (mb_pool mb ! unat (mb_out mb), ?q)" by (cases mb) (simp add: mb_pop_def Let_def)
  have o1: "unat (mb_out ?q) = (unat (mb_out mb) + 1) mod unat (mb_size mb)"
    using d(3) offset_step [of "mb_out mb" "mb_size mb"] by (simp add: word_less_nat_alt)
  have e1: "unat (mb_entry mb) = Suc (unat (mb_entry mb - 1))"
    using r unat_minus_one [of "mb_entry mb"] unat_gt_0 [of "mb_entry mb"] by simp
  have at: "ring_at ?q j = ring_at mb (Suc j)" for j
    unfolding ring_at_def o1 by (simp add: mod_add_left_eq)
  have "mb_inv ?q"
    using i o1 e1 d at [of "unat (mb_entry mb - 1)"] by (simp add: mb_inv_def word_less_nat_alt word_le_nat_alt)
  moreover have "mb_contents mb = mb_pool mb ! unat (mb_out mb) # mb_contents ?q"
  proof -
    have "mb_contents mb = mb_pool mb ! ring_at mb 0 # map (\<lambda>j. mb_pool mb ! ring_at mb (Suc j)) [0..<unat (mb_entry mb - 1)]"
      unfolding mb_contents_def e1 by (simp add: upt_conv_Cons map_Suc_upt [symmetric] del: upt_Suc)
    moreover have "mb_contents ?q = map (\<lambda>j. mb_pool mb ! ring_at mb (Suc j)) [0..<unat (mb_entry mb - 1)]"
      unfolding mb_contents_def at by simp
    ultimately show ?thesis using d(3) by (simp add: ring_at_def)
  qed
  ultimately show ?thesis by (simp add: p)
qed

lemma mb_contents_length: "length (mb_contents mb) = unat (mb_entry mb)"
  by (simp add: mb_contents_def)

interpretation mbf: bounded_fifo mb_inv mb_contents "\<lambda>mb. unat (mb_size mb)" "\<lambda>_ _. True" "(=)" mb_put mb_get
proof (unfold_locales, goal_cases)
  case (1 q)
  then show ?case using mb_invD(5) by (simp add: mb_contents_length)
next
  case (2 q m)
  then have "mb_entry q \<noteq> mb_size q" by (auto simp: mb_contents_length)
  with push_inv [OF 2(1), of m] show ?case by (simp add: mb_put_def)
next
  case (3 q m)
  then have "mb_entry q = mb_size q" by (simp add: mb_contents_length word_unat_eq_iff)
  then show ?case by (simp add: mb_put_def)
next
  case (4 q x xs)
  then have "mb_entry q \<noteq> 0" by (auto simp: mb_contents_def)
  with pop_inv [OF 4(1)] 4(2) show ?case by (auto simp: mb_get_def intro: exI [of _ "snd (mb_pop q)"] split: prod.splits)
next
  case (5 q)
  then have "unat (mb_entry q) = 0" using mb_contents_length [of q] by simp
  then show ?case by (simp add: mb_get_def unat_eq_0)
qed

section \<open>Sending and receiving keep the kernel consistent\<close>

definition mbox_ok :: "nat \<Rightarrow> rt_mailbox \<Rightarrow> kernel \<Rightarrow> bool" where
  "mbox_ok i mb k \<longleftrightarrow> mb_inv mb \<and> kernel_ok k \<and> current k \<noteq> None \<and> (mb_flag mb = RT_IPC_FLAG_FIFO \<or> mb_flag mb = RT_IPC_FLAG_PRIO)"

lemma deliver_eq:
  "mb_deliver i v mb k = map_option (\<lambda>k'. (Done RT_EOK, mb_push v mb, k'))
     (if lists k (LIpc i) \<noteq> [] then rt_ipc_list_resume (LIpc i) k \<bind> rt_schedule else Some k)"
  by (simp add: mb_deliver_def Let_def map_option_case split: bind_splits option.splits)

lemma fetch_eq:
  "mb_fetch i mb k = map_option (\<lambda>k'. (Done (RT_EOK, Some (fst (mb_pop mb))), snd (mb_pop mb), k'))
     (if lists k (LSender i) \<noteq> [] then rt_ipc_list_resume (LSender i) k \<bind> rt_schedule else Some k)"
  by (simp add: mb_fetch_def split_beta map_option_case split: bind_splits option.splits)

lemma deliver_ok:
  assumes "mbox_ok i mb k" "mb_entry mb \<noteq> mb_size mb"
  shows "\<exists>mb' k'. mb_deliver i v mb k = Some (Done RT_EOK, mb', k') \<and> mbox_ok i mb' k' \<and> mb_contents mb' = mb_contents mb @ [v]"
  using wake_some [of k "LIpc i"] push_inv [of mb v] assms by (auto simp: deliver_eq mbox_ok_def)

lemma fetch_ok:
  assumes "mbox_ok i mb k" "mb_entry mb \<noteq> 0"
  shows "\<exists>v mb' k'. mb_fetch i mb k = Some (Done (RT_EOK, Some v), mb', k') \<and> mbox_ok i mb' k' \<and> mb_contents mb = v # mb_contents mb'"
  using wake_some [of k "LSender i"] pop_inv [of mb] assms by (auto simp: fetch_eq mbox_ok_def)

text \<open>A thread that waits keeps the mailbox as it is.\<close>

lemma mb_block_ok:
  assumes "mbox_ok i mb k" "runs t k" "is_wait l" "sint timeout < 0x7fffffff"
  defines "k1 \<equiv> upd_thread t (\<lambda>th. th\<lparr>t_error := RT_EOK\<rparr>) k"
  shows "\<exists>k'. RT_DEBUG_IN_THREAD_CONTEXT k1 = Some () \<and> ipc_block l t (mb_flag mb) timeout k1 = Some k' \<and> mbox_ok i mb k'"
  using block_ok [of k t l "mb_flag mb" timeout] assms by (auto simp: mbox_ok_def)

lemma upd_error_ok: "mbox_ok i mb k \<Longrightarrow> mbox_ok i mb (upd_thread t (\<lambda>th. th\<lparr>t_error := e\<rparr>) k)"
  using upd_data_kernel [of k "\<lambda>th. th\<lparr>t_error := e\<rparr>" t] by (simp add: mbox_ok_def stat_of_def)

lemma send_loop_ok:
  assumes ok: "mbox_ok i mb k" and r: "runs t k" and b: "sint timeout < 0x7fffffff"
  shows "\<exists>r mb' k'. mb_send_loop i v timeout (Some t) mb k = Some (r, mb', k') \<and> mbox_ok i mb' k'
    \<and> mb_contents mb' = (if r = Done RT_EOK then mb_contents mb @ [v] else mb_contents mb)"
proof (cases "mb_entry mb = mb_size mb")
  case False
  with deliver_ok [OF ok, of v] show ?thesis by (auto simp: mb_send_loop_def)
next
  case True
  show ?thesis
  proof (cases "timeout = 0")
    case True
    with \<open>mb_entry mb = mb_size mb\<close> upd_error_ok [OF ok] show ?thesis by (simp add: mb_send_loop_def Let_def)
  next
    case False
    with True mb_block_ok [OF ok r, of "LSender i" timeout] b show ?thesis by (auto simp: mb_send_loop_def Let_def)
  qed
qed

lemma recv_loop_ok:
  assumes ok: "mbox_ok i mb k" and r: "runs t k" and b: "sint timeout < 0x7fffffff"
  shows "\<exists>r mb' k'. mb_recv_loop i timeout (Some t) mb k = Some (r, mb', k') \<and> mbox_ok i mb' k'
    \<and> (case r of Done (e, Some v) \<Rightarrow> e = RT_EOK \<and> mb_contents mb = v # mb_contents mb'
       | _ \<Rightarrow> mb_contents mb' = mb_contents mb)"
proof (cases "mb_entry mb = 0")
  case False
  with fetch_ok [OF ok] show ?thesis by (auto simp: mb_recv_loop_def)
next
  case True
  show ?thesis
  proof (cases "timeout = 0")
    case True
    with \<open>mb_entry mb = 0\<close> upd_error_ok [OF upd_error_ok [OF ok]] show ?thesis by (simp add: mb_recv_loop_def Let_def)
  next
    case False
    with True mb_block_ok [OF ok r, of "LIpc i" timeout] b show ?thesis by (auto simp: mb_recv_loop_def Let_def)
  qed
qed

section \<open>Histories\<close>

text \<open>Histories of one mailbox: sends and receives of any running thread, the continuation of those that had to
  wait, and arbitrary consistent activity of the rest of the system. \<open>sent\<close> holds the mails of the sends that
  were accepted, \<open>got\<close> those that were received.\<close>

inductive mb_run :: "nat \<Rightarrow> rt_mailbox \<Rightarrow> kernel \<Rightarrow> u32 list \<Rightarrow> u32 list \<Rightarrow> bool" for i where
  start: "mbox_ok i mb k \<Longrightarrow> mb_entry mb = 0 \<Longrightarrow> mb_run i mb k [] []"
| send: "mb_run i mb k sent got \<Longrightarrow> runs t k \<Longrightarrow> sint timeout < 0x7fffffff \<Longrightarrow>
    rt_mb_send_wait i v timeout mb k = Some (r, mb', k') \<Longrightarrow>
    mb_run i mb' k' (if r = Done RT_EOK then sent @ [v] else sent) got"
| send_resume: "mb_run i mb k sent got \<Longrightarrow> runs t k \<Longrightarrow> sint timeout < 0x7fffffff \<Longrightarrow> uint (rt_tick k - start) < 0x80000000 \<Longrightarrow>
    rt_mb_send_resume i v timeout start t mb k = Some (r, mb', k') \<Longrightarrow>
    mb_run i mb' k' (if r = Done RT_EOK then sent @ [v] else sent) got"
| recv: "mb_run i mb k sent got \<Longrightarrow> runs t k \<Longrightarrow> sint timeout < 0x7fffffff \<Longrightarrow>
    rt_mb_recv i timeout mb k = Some (r, mb', k') \<Longrightarrow>
    mb_run i mb' k' sent (case r of Done (e, Some v) \<Rightarrow> got @ [v] | _ \<Rightarrow> got)"
| recv_resume: "mb_run i mb k sent got \<Longrightarrow> runs t k \<Longrightarrow> sint timeout < 0x7fffffff \<Longrightarrow> uint (rt_tick k - start) < 0x80000000 \<Longrightarrow>
    rt_mb_recv_resume i timeout start t mb k = Some (r, mb', k') \<Longrightarrow>
    mb_run i mb' k' sent (case r of Done (e, Some v) \<Rightarrow> got @ [v] | _ \<Rightarrow> got)"
| rest: "mb_run i mb k sent got \<Longrightarrow> kernel_ok k' \<Longrightarrow> current k' \<noteq> None \<Longrightarrow> mb_run i mb k' sent got"

lemma send_wait_ok:
  assumes "mbox_ok i mb k" "runs t k" "sint timeout < 0x7fffffff"
  shows "\<exists>r mb' k'. rt_mb_send_wait i v timeout mb k = Some (r, mb', k') \<and> mbox_ok i mb' k'
    \<and> mb_contents mb' = (if r = Done RT_EOK then mb_contents mb @ [v] else mb_contents mb)"
  using send_loop_ok [OF assms, of v] assms by (auto simp: rt_mb_send_wait_def rt_thread_self_def runs_def)

lemma send_resume_ok:
  assumes "mbox_ok i mb k" "runs t k" "sint timeout < 0x7fffffff" "uint (rt_tick k - start) < 0x80000000"
  shows "\<exists>r mb' k'. rt_mb_send_resume i v timeout start t mb k = Some (r, mb', k') \<and> mbox_ok i mb' k'
    \<and> mb_contents mb' = (if r = Done RT_EOK then mb_contents mb @ [v] else mb_contents mb)"
  using send_loop_ok [OF assms(1,2) remaining_le [OF assms(3,4)], of v] assms(1) by (auto simp: rt_mb_send_resume_def)

lemma recv_ok:
  assumes "mbox_ok i mb k" "runs t k" "sint timeout < 0x7fffffff"
  shows "\<exists>r mb' k'. rt_mb_recv i timeout mb k = Some (r, mb', k') \<and> mbox_ok i mb' k'
    \<and> (case r of Done (e, Some v) \<Rightarrow> e = RT_EOK \<and> mb_contents mb = v # mb_contents mb' | _ \<Rightarrow> mb_contents mb' = mb_contents mb)"
  using recv_loop_ok [OF assms] assms by (auto simp: rt_mb_recv_def rt_thread_self_def runs_def)

lemma recv_resume_ok:
  assumes "mbox_ok i mb k" "runs t k" "sint timeout < 0x7fffffff" "uint (rt_tick k - start) < 0x80000000"
  shows "\<exists>r mb' k'. rt_mb_recv_resume i timeout start t mb k = Some (r, mb', k') \<and> mbox_ok i mb' k'
    \<and> (case r of Done (e, Some v) \<Rightarrow> e = RT_EOK \<and> mb_contents mb = v # mb_contents mb' | _ \<Rightarrow> mb_contents mb' = mb_contents mb)"
  using recv_loop_ok [OF assms(1,2) remaining_le [OF assms(3,4)]] assms(1) by (auto simp: rt_mb_recv_resume_def)

lemma recv_step:
  assumes "sent = got @ mb_contents mb"
    "case r of Done (e, Some v) \<Rightarrow> e = RT_EOK \<and> mb_contents mb = v # mb_contents mb' | _ \<Rightarrow> mb_contents mb' = mb_contents mb"
  shows "sent = (case r of Done (e, Some v) \<Rightarrow> got @ [v] | _ \<Rightarrow> got) @ mb_contents mb'"
  using assms by (auto split: ipc_result.splits prod.splits option.splits)

lemma mb_run_inv: "mb_run i mb k sent got \<Longrightarrow> mbox_ok i mb k \<and> sent = got @ mb_contents mb"
proof (induction rule: mb_run.induct)
  case (start mb k)
  then show ?case by (simp add: mb_contents_def)
next
  case (send mb k sent got t timeout v r mb' k')
  with send_wait_ok [of i mb k t timeout v] show ?case by auto
next
  case (send_resume mb k sent got t timeout start v r mb' k')
  with send_resume_ok [of i mb k t timeout start v] show ?case by auto
next
  case (recv mb k sent got t timeout r mb' k')
  then obtain "mbox_ok i mb' k'"
    "case r of Done (e, Some v) \<Rightarrow> e = RT_EOK \<and> mb_contents mb = v # mb_contents mb' | _ \<Rightarrow> mb_contents mb' = mb_contents mb"
    using recv_ok [of i mb k t timeout] by auto
  with recv_step [of sent got mb mb' r] recv.IH show ?case by blast
next
  case (recv_resume mb k sent got t timeout start r mb' k')
  then obtain "mbox_ok i mb' k'"
    "case r of Done (e, Some v) \<Rightarrow> e = RT_EOK \<and> mb_contents mb = v # mb_contents mb' | _ \<Rightarrow> mb_contents mb' = mb_contents mb"
    using recv_resume_ok [of i mb k t timeout start] by auto
  with recv_step [of sent got mb mb' r] recv_resume.IH show ?case by blast
next
  case (rest mb k sent got k')
  then show ?case by (simp add: mbox_ok_def)
qed

section \<open>Properties\<close>

text \<open>C21: A mailbox delivers every accepted mail once and in order. In every history of blocking and
  non-blocking sends and receives, interrupted waits and arbitrary other activity, the mails accepted so far are the
  mails received so far followed by the mails in the ring; the ring never holds more than its size, and the
  kernel stays consistent.\<close>

theorem mailbox_delivers:
  assumes "mb_run i mb k sent got"
  shows "sent = got @ mb_contents mb \<and> length sent - length got \<le> unat (mb_size mb) \<and> mb_inv mb \<and> kernel_ok k"
proof -
  from mb_run_inv [OF assms] have r: "mbox_ok i mb k" "sent = got @ mb_contents mb" by simp_all
  then have "mb_inv mb" "kernel_ok k" by (simp_all add: mbox_ok_def)
  with r(2) mbf.len_le_cap [of mb] show ?thesis by simp
qed

definition mb4 :: rt_mailbox where "mb4 = rt_mb_init [0, 0, 0, 0] 4 0"

lemma mb4_ok: "mbox_ok 0 mb4 (two_threads 10 5 3)" "mb_entry mb4 = 0" "runs 0 (two_threads 10 5 3)"
proof -
  have "kernel_ok (two_threads 10 5 3)" by (rule two_threads_kernel) (simp_all add: two_threads_def Let_def stat_of_def)
  moreover have "mb_inv mb4" by (simp add: mb_inv_def mb4_def rt_mb_init_def ring_at_def)
  ultimately show "mbox_ok 0 mb4 (two_threads 10 5 3)" by (simp add: mbox_ok_def mb4_def rt_mb_init_def) (simp add: two_threads_def Let_def)
  show "mb_entry mb4 = 0" by (simp add: mb4_def rt_mb_init_def)
  show "runs 0 (two_threads 10 5 3)" by (simp add: runs_def two_threads_def Let_def stat_of_def)
qed

theorem mailbox_delivers_witness:
  "\<exists>mb k. rt_mb_send_wait 0 7 0 mb4 (two_threads 10 5 3) = Some (Done RT_EOK, mb, k) \<and> [7] = [] @ mb_contents mb \<and> kernel_ok k"
proof -
  let ?k = "two_threads 10 5 3"
  have l: "lists ?k (LIpc 0) = []" "current ?k = Some 0" by (simp_all add: two_threads_def Let_def)
  have s: "rt_mb_send_wait 0 7 0 mb4 ?k = Some (Done RT_EOK, mb_push 7 mb4, ?k)"
    by (simp add: rt_mb_send_wait_def mb_send_loop_def mb_deliver_def l rt_thread_self_def mb4_def rt_mb_init_def)
  have "mb_run 0 (mb_push 7 mb4) ?k [7] []"
    using mb_run.send [OF mb_run.start [OF mb4_ok(1,2)] mb4_ok(3) _ s] by simp
  from mailbox_delivers [OF this] s show ?thesis by simp
qed

text \<open>A wait does not overrun. When a positive waiting time is recomputed after a wait of fewer than
  \<open>2\<^sup>3\<^sup>1\<close> ticks, the time that is left is the old one minus the elapsed ticks, and 0 instead of a negative
  number, which would mean waiting for ever; this holds across the wrap-around of the tick counter.\<close>

lemma remaining_time:
  assumes "0 < sint timeout" "uint (rt_tick k - start) < 0x80000000"
  shows "sint (remaining_timeout timeout start k) = max 0 (sint timeout - uint (rt_tick k - start))"
  by (rule remaining_timeout_exact [OF assms])

text \<open>The ring of a mailbox is a first-in first-out store: mails put into a fresh mailbox, up to its size,
  come out in the same order.\<close>

lemma mailbox_fifo:
  assumes "length pool = unat sz" "0 < sz" "length vs \<le> unat sz"
  shows "fst (get_n mb_get (length vs) (put_all mb_put vs (rt_mb_init pool sz flag))) = vs"
proof -
  let ?q = "rt_mb_init pool sz flag"
  have "mb_inv ?q" "mb_contents ?q = []" "mb_size ?q = sz"
    using assms(1,2) by (simp_all add: rt_mb_init_def mb_inv_def ring_at_def mb_contents_def)
  with mbf.fifo [of ?q vs] assms(3) have "list_all2 (=) vs (fst (get_n mb_get (length vs) (put_all mb_put vs ?q)))" by simp
  then show ?thesis by (simp add: list.rel_eq)
qed

lemma mailbox_fifo_witness:
  "fst (get_n mb_get 3 (put_all mb_put [1, 2, 3] (rt_mb_init [0, 0, 0, 0] 4 0))) = [1, 2, 3]"
  using mailbox_fifo [of "[0, 0, 0, 0]" 4 "[1, 2, 3]" 0] by (simp add: numeral_3_eq_3)

end
