(* ===== verification/Ipc_Mq.thy ===== *)
theory Ipc_Mq
  imports Mq_Pool Ipc
begin

text \<open>
  The message queues of RTT4/src/ipc.c with the threads that wait for them: the message store of theory Mq_Pool,
  a list of waiting receivers (\<open>LIpc i\<close>) and one of waiting senders (\<open>LSender i\<close>). The loops of
  \<^verbatim>\<open>rt_mq_send_wait\<close> and \<^verbatim>\<open>rt_mq_recv\<close> are cut at \<^verbatim>\<open>rt_schedule\<close>; the continuations are \<open>rt_mq_send_resume\<close> and
  \<open>rt_mq_recv_resume\<close>. The copy of a message, which runs with interrupts enabled, is one step here; theory Mq_Pool
  treats the interleavings of its sections.
\<close>

record rt_messagequeue =
  mq_store :: rt_mq
  mq_flag :: u8

section \<open>Creation and removal\<close>

text \<open>The slots of the buffer of \<^verbatim>\<open>rt_mq_init\<close>: each starts with its link word of four bytes.\<close>

definition pool_slots :: "bytes \<Rightarrow> u16 \<Rightarrow> u16 \<Rightarrow> mq_msg list" where
  "pool_slots pool msg_size n =
     map (\<lambda>i. \<lparr>nxt = None, body = take (unat msg_size) (drop (i * (unat msg_size + 4) + 4) pool)\<rparr>) [0..<unat n]"

definition rt_mq_init :: "bytes \<Rightarrow> u32 \<Rightarrow> u32 \<Rightarrow> u8 \<Rightarrow> rt_messagequeue" where
  "rt_mq_init msgpool msg_size pool_size flag =
     (let msgsz = ucast (RT_ALIGN msg_size RT_ALIGN_SIZE) :: u16;
          maxm = ucast (pool_size div (ucast msgsz + 4)) :: u16
      in \<lparr>mq_store = mq_setup (pool_slots msgpool msgsz maxm) msgsz maxm, mq_flag = flag\<rparr>)"

definition rt_mq_create ::
  "bool \<Rightarrow> (u16 \<Rightarrow> u16 \<Rightarrow> mq_msg list option) \<Rightarrow> u32 \<Rightarrow> u32 \<Rightarrow> u8 \<Rightarrow> kernel \<Rightarrow> rt_messagequeue option option" where
  "rt_mq_create obj alloc msg_size max_msgs flag k = do {
     RT_DEBUG_NOT_IN_INTERRUPT k;
     let msgsz = (ucast (RT_ALIGN msg_size RT_ALIGN_SIZE) :: u16);
     let maxm = (ucast max_msgs :: u16);
     Some (if \<not> obj then None
           else map_option (\<lambda>pool. \<lparr>mq_store = mq_setup pool msgsz maxm, mq_flag = flag\<rparr>) (alloc msgsz maxm)) }"

definition rt_mq_detach :: "nat \<Rightarrow> kernel \<Rightarrow> kernel option" where
  "rt_mq_detach i k = rt_ipc_list_resume_all (LIpc i) k \<bind> rt_ipc_list_resume_all (LSender i)"

definition rt_mq_delete :: "nat \<Rightarrow> kernel \<Rightarrow> kernel option" where
  "rt_mq_delete i k = do {
     RT_DEBUG_NOT_IN_INTERRUPT k;
     k \<leftarrow> rt_ipc_list_resume_all (LIpc i) k;
     rt_ipc_list_resume_all (LSender i) k }"

section \<open>Sending\<close>

text \<open>Wake the first thread of a list, if any: the end of the send and receive functions.\<close>

definition mq_wake :: "lhead \<Rightarrow> kernel \<Rightarrow> kernel option" where
  "mq_wake l k = (if lists k l \<noteq> [] then do { k \<leftarrow> rt_ipc_list_resume l k; rt_schedule k } else Some k)"

definition mq_send_loop ::
  "nat \<Rightarrow> bytes \<Rightarrow> u32 \<Rightarrow> nat option \<Rightarrow> rt_messagequeue \<Rightarrow> kernel \<Rightarrow> (rt_err_t ipc_result \<times> rt_messagequeue \<times> kernel) option" where
  "mq_send_loop i buffer timeout self mq k =
     (case mq_take_free (mq_store mq) of
        None \<Rightarrow> do {
          thread \<leftarrow> self;
          let k = upd_thread thread (\<lambda>th. th\<lparr>t_error := RT_EOK\<rparr>) k;
          if timeout = 0 then Some (Done (- RT_EFULL), mq, k)
          else do {
            RT_DEBUG_IN_THREAD_CONTEXT k;
            k \<leftarrow> ipc_block (LSender i) thread (mq_flag mq) timeout k;
            Some (Waiting thread, mq, k) } }
      | Some (msg, q) \<Rightarrow> do {
          let mq = mq\<lparr>mq_store := mq_link msg (mq_fill msg buffer q)\<rparr>;
          k \<leftarrow> mq_wake (LIpc i) k;
          Some (Done RT_EOK, mq, k) })"

definition rt_mq_send_wait ::
  "nat \<Rightarrow> bytes \<Rightarrow> u32 \<Rightarrow> rt_messagequeue \<Rightarrow> kernel \<Rightarrow> (rt_err_t ipc_result \<times> rt_messagequeue \<times> kernel) option" where
  "rt_mq_send_wait i buffer timeout mq k = do {
     RT_ASSERT (buffer \<noteq> []);
     if length buffer > unat (mq_msg_size (mq_store mq)) then Some (Done (- RT_ERROR), mq, k)
     else if mq_free (mq_store mq) = None \<and> timeout = 0 then Some (Done (- RT_EFULL), mq, k)
     else mq_send_loop i buffer timeout (rt_thread_self k) mq k }"

definition rt_mq_send_resume ::
  "nat \<Rightarrow> bytes \<Rightarrow> u32 \<Rightarrow> u32 \<Rightarrow> nat \<Rightarrow> rt_messagequeue \<Rightarrow> kernel \<Rightarrow> (rt_err_t ipc_result \<times> rt_messagequeue \<times> kernel) option" where
  "rt_mq_send_resume i buffer timeout start thread mq k =
     (if t_error (threads k thread) \<noteq> RT_EOK then Some (Done (t_error (threads k thread)), mq, k)
      else mq_send_loop i buffer (remaining_timeout timeout start k) (Some thread) mq k)"

definition rt_mq_send :: "nat \<Rightarrow> bytes \<Rightarrow> rt_messagequeue \<Rightarrow> kernel \<Rightarrow> (rt_err_t ipc_result \<times> rt_messagequeue \<times> kernel) option" where
  "rt_mq_send i buffer mq k = rt_mq_send_wait i buffer 0 mq k"

definition rt_mq_urgent :: "nat \<Rightarrow> bytes \<Rightarrow> rt_messagequeue \<Rightarrow> kernel \<Rightarrow> (rt_err_t \<times> rt_messagequeue \<times> kernel) option" where
  "rt_mq_urgent i buffer mq k = do {
     RT_ASSERT (buffer \<noteq> []);
     if length buffer > unat (mq_msg_size (mq_store mq)) then Some (- RT_ERROR, mq, k)
     else case mq_take_free (mq_store mq) of
         None \<Rightarrow> Some (- RT_EFULL, mq, k)
       | Some (msg, q) \<Rightarrow> do {
           let mq = mq\<lparr>mq_store := mq_link_urgent msg (mq_fill_urgent msg buffer q)\<rparr>;
           k \<leftarrow> mq_wake (LIpc i) k;
           Some (RT_EOK, mq, k) } }"

section \<open>Receiving and resetting\<close>

text \<open>The second result is what was copied to the buffer of \<open>sz\<close> bytes.\<close>

definition mq_recv_loop ::
  "nat \<Rightarrow> nat \<Rightarrow> u32 \<Rightarrow> nat option \<Rightarrow> rt_messagequeue \<Rightarrow> kernel \<Rightarrow> ((rt_err_t \<times> bytes option) ipc_result \<times> rt_messagequeue \<times> kernel) option" where
  "mq_recv_loop i sz timeout self mq k =
     (if mq_entry (mq_store mq) = 0 then do {
        RT_DEBUG_IN_THREAD_CONTEXT k;
        thread \<leftarrow> self;
        let k = upd_thread thread (\<lambda>th. th\<lparr>t_error := RT_EOK\<rparr>) k;
        if timeout = 0 then
          Some (Done (- RT_ETIMEOUT, None), mq, upd_thread thread (\<lambda>th. th\<lparr>t_error := - RT_ETIMEOUT\<rparr>) k)
        else do {
          k \<leftarrow> ipc_block (LIpc i) thread (mq_flag mq) timeout k;
          Some (Waiting thread, mq, k) } }
      else do {
        (msg, q) \<leftarrow> mq_take_head (mq_store mq);
        let buffer = mq_copy_out msg sz q;
        let mq = mq\<lparr>mq_store := mq_put_free msg q\<rparr>;
        k \<leftarrow> mq_wake (LSender i) k;
        Some (Done (RT_EOK, Some buffer), mq, k) })"

definition rt_mq_recv ::
  "nat \<Rightarrow> nat \<Rightarrow> u32 \<Rightarrow> rt_messagequeue \<Rightarrow> kernel \<Rightarrow> ((rt_err_t \<times> bytes option) ipc_result \<times> rt_messagequeue \<times> kernel) option" where
  "rt_mq_recv i sz timeout mq k = do {
     RT_ASSERT (sz \<noteq> 0);
     if mq_entry (mq_store mq) = 0 \<and> timeout = 0 then Some (Done (- RT_ETIMEOUT, None), mq, k)
     else mq_recv_loop i sz timeout (rt_thread_self k) mq k }"

definition rt_mq_recv_resume ::
  "nat \<Rightarrow> nat \<Rightarrow> u32 \<Rightarrow> u32 \<Rightarrow> nat \<Rightarrow> rt_messagequeue \<Rightarrow> kernel \<Rightarrow> ((rt_err_t \<times> bytes option) ipc_result \<times> rt_messagequeue \<times> kernel) option" where
  "rt_mq_recv_resume i sz timeout start thread mq k =
     (if t_error (threads k thread) \<noteq> RT_EOK then Some (Done (t_error (threads k thread), None), mq, k)
      else mq_recv_loop i sz (remaining_timeout timeout start k) (Some thread) mq k)"

definition rt_mq_control :: "nat \<Rightarrow> int \<Rightarrow> rt_messagequeue \<Rightarrow> kernel \<Rightarrow> (rt_err_t \<times> rt_messagequeue \<times> kernel) option" where
  "rt_mq_control i cmd mq k =
     (if cmd = RT_IPC_CMD_RESET then do {
        k \<leftarrow> rt_ipc_list_resume_all (LIpc i) k;
        k \<leftarrow> rt_ipc_list_resume_all (LSender i) k;
        q \<leftarrow> mq_reset (mq_store mq);
        k \<leftarrow> rt_schedule k;
        Some (RT_EOK, mq\<lparr>mq_store := q\<rparr>, k) }
      else Some (- RT_ERROR, mq, k))"

section \<open>Sending and receiving keep the kernel and the store consistent\<close>

definition mqueue_ok :: "rt_messagequeue \<Rightarrow> kernel \<Rightarrow> bool" where
  "mqueue_ok mq k \<longleftrightarrow> mq_inv [] (mq_store mq) \<and> kernel_ok k \<and> current k \<noteq> None
     \<and> (mq_flag mq = RT_IPC_FLAG_FIFO \<or> mq_flag mq = RT_IPC_FLAG_PRIO)"

abbreviation mq_items :: "rt_messagequeue \<Rightarrow> bytes list" where
  "mq_items mq \<equiv> mq_contents (mq_store mq)"

abbreviation mq_slot :: "rt_messagequeue \<Rightarrow> nat" where
  "mq_slot mq \<equiv> unat (mq_msg_size (mq_store mq))"

abbreviation mq_size :: "rt_messagequeue \<Rightarrow> nat" where
  "mq_size mq \<equiv> mq_cap (mq_store mq)"

lemma mq_wake_ok:
  assumes "mqueue_ok mq k" "is_wait l"
  shows "\<exists>k'. mq_wake l k = Some k' \<and> kernel_ok k' \<and> current k' \<noteq> None"
  using wake_some [of k l] assms by (auto simp: mqueue_ok_def mq_wake_def)

lemma upd_error_mqok: "mqueue_ok mq k \<Longrightarrow> mqueue_ok mq (upd_thread t (\<lambda>th. th\<lparr>t_error := e\<rparr>) k)"
  using upd_data_kernel [of k "\<lambda>th. th\<lparr>t_error := e\<rparr>" t] by (simp add: mqueue_ok_def stat_of_def)

lemma take_free_none: "mq_take_free q = None \<longleftrightarrow> mq_free q = None"
  by (simp add: mq_take_free_def split: option.splits)

lemma store_send:
  assumes "mq_inv [] q" "length buf \<le> unat (mq_msg_size q)" "mq_take_free q = Some (m, q1)"
  shows "\<exists>x. mq_inv [] (mq_link m (mq_fill m buf q1)) \<and> mq_contents (mq_link m (mq_fill m buf q1)) = mq_contents q @ [x]
    \<and> mq_carries buf x \<and> length (mq_contents q) < mq_cap q \<and> mq_msg_size (mq_link m (mq_fill m buf q1)) = mq_msg_size q
    \<and> mq_cap (mq_link m (mq_fill m buf q1)) = mq_cap q"
proof -
  have s: "mq_send buf q = (RT_EOK, mq_link m (mq_fill m buf q1))" using assms(2,3) by (simp add: mq_send_def)
  have l: "length (mq_contents q) < mq_cap q"
    using mqf.put_full [OF assms(1), of buf] mqf.len_le_cap [OF assms(1)] s assms(2) by (fastforce simp: mq_accepts_def)
  have a: "mq_accepts q buf" using assms(2) by (simp add: mq_accepts_def)
  have "mq_msg_size q1 = mq_msg_size q" using assms(3) by (auto simp: mq_take_free_def split: option.splits)
  with mqf.put_room [OF assms(1) a l] s l show ?thesis by auto
qed

lemma store_urgent:
  assumes "mq_inv [] q" "length buf \<le> unat (mq_msg_size q)" "mq_take_free q = Some (m, q1)"
  defines "q' \<equiv> mq_link_urgent m (mq_fill_urgent m buf q1)"
  shows "\<exists>x. mq_inv [] q' \<and> mq_contents q' = x # mq_contents q \<and> mq_carries buf x \<and> length (mq_contents q) < mq_cap q
    \<and> mq_msg_size q' = mq_msg_size q \<and> mq_cap q' = mq_cap q"
proof -
  from assms(1) obtain us fs where w: "mq_wf us fs [] q" by (auto simp: mq_inv_def)
  have "mq_free q \<noteq> None" using assms(3) take_free_none [of q] by simp
  then obtain j fs' where f: "fs = j # fs'" using mq_wf_free_None [OF w] by (cases fs) auto
  have u: "mq_urgent buf q = (RT_EOK, q')" using assms by (simp add: mq_urgent_def)
  from mq_urgent_room [OF w [unfolded f] assms(2)] u have r: "mq_wf (j # us) fs' [] q'"
    "mq_contents q' = memcpy_at 0 buf (body (mq_pool q ! j)) # mq_contents q" by auto
  have "length (mq_contents q) < mq_cap q" using mq_wf_count [OF w] f by (simp add: mq_contents_wf [OF w])
  moreover have "mq_msg_size q' = mq_msg_size q" "mq_cap q' = mq_cap q"
    using assms(3) by (auto simp: q'_def mq_link_urgent_def mq_fill_urgent_def Let_def mq_take_free_def split: option.splits)
  ultimately show ?thesis using r by (auto simp: mq_carries_def intro: mq_invI)
qed

lemma store_recv:
  assumes "mq_inv [] q" "mq_entry q \<noteq> 0" "unat (mq_msg_size q) \<le> sz"
  obtains m q1 where "mq_take_head q = Some (m, q1)" "mq_inv [] (mq_put_free m q1)"
    "mq_contents q = mq_copy_out m sz q1 # mq_contents (mq_put_free m q1)" "mq_msg_size (mq_put_free m q1) = mq_msg_size q"
    "mq_cap (mq_put_free m q1) = mq_cap q"
proof -
  from assms(1) obtain us fs where w: "mq_wf us fs [] q" by (auto simp: mq_inv_def)
  have "us \<noteq> []" using mq_wfD(12) [OF w] assms(2) by (auto simp: unat_eq_0)
  then obtain m us' where us: "us = m # us'" by (cases us) auto
  from mq_take_head_wf [OF w [unfolded us]] obtain q1 where q1: "mq_take_head q = Some (m, q1)" "mq_wf us' fs [m] q1"
    "mq_pool q1 = mq_pool q" "mq_msg_size q1 = mq_msg_size q" "mq_max_msgs q1 = mq_max_msgs q" by auto
  have rc: "mq_recv sz q = Some (mq_copy_out m sz q1, mq_put_free m q1)" using assms(2) q1(1) by (simp add: mq_recv_def)
  obtain x xs where x: "mq_contents q = x # xs" "mq_copy_out m sz q1 = take sz x" "mq_contents (mq_put_free m q1) = xs"
    "mq_inv [] (mq_put_free m q1)" by (rule mq_recv_cases [OF assms(1) rc])
  have "length x = unat (mq_msg_size q)" using mq_inv_slot_length [OF assms(1), of x] x(1) by simp
  then have "mq_copy_out m sz q1 = x" using x(2) assms(3) by simp
  with x that [OF q1(1)] q1(4,5) show ?thesis by (simp add: mq_put_free_def)
qed

text \<open>What a send and a receive do to the queued messages, whether or not the thread has to wait.\<close>

definition send_effect :: "bytes \<Rightarrow> rt_messagequeue \<Rightarrow> rt_err_t ipc_result \<Rightarrow> rt_messagequeue \<Rightarrow> bool" where
  "send_effect buf mq r mq' \<longleftrightarrow> mq_slot mq' = mq_slot mq \<and> mq_size mq' = mq_size mq \<and>
     (if r = Done RT_EOK then length (mq_items mq) < mq_size mq \<and> (\<exists>x. mq_items mq' = mq_items mq @ [x] \<and> mq_carries buf x)
      else mq_items mq' = mq_items mq)"

definition recv_effect :: "rt_messagequeue \<Rightarrow> (rt_err_t \<times> bytes option) ipc_result \<Rightarrow> rt_messagequeue \<Rightarrow> bool" where
  "recv_effect mq r mq' \<longleftrightarrow> mq_slot mq' = mq_slot mq \<and> mq_size mq' = mq_size mq \<and>
     (case r of Done (e, Some b) \<Rightarrow> e = RT_EOK \<and> mq_items mq = b # mq_items mq' | _ \<Rightarrow> mq_items mq' = mq_items mq)"

lemma mq_block_ok:
  assumes "mqueue_ok mq k" "runs t k" "is_wait l" "sint timeout < 0x7fffffff"
  defines "k1 \<equiv> upd_thread t (\<lambda>th. th\<lparr>t_error := RT_EOK\<rparr>) k"
  shows "\<exists>k'. RT_DEBUG_IN_THREAD_CONTEXT k1 = Some () \<and> ipc_block l t (mq_flag mq) timeout k1 = Some k' \<and> mqueue_ok mq k'"
  using block_ok [of k t l "mq_flag mq" timeout] assms by (auto simp: mqueue_ok_def)

lemma mq_send_loop_ok:
  assumes ok: "mqueue_ok mq k" and r: "runs t k" and b: "sint timeout < 0x7fffffff" and l: "length buf \<le> mq_slot mq"
  shows "\<exists>r mq' k'. mq_send_loop i buf timeout (Some t) mq k = Some (r, mq', k') \<and> mqueue_ok mq' k' \<and> send_effect buf mq r mq'"
proof (cases "mq_take_free (mq_store mq)")
  case (Some x)
  obtain m q1 where x: "x = (m, q1)" by (cases x) auto
  have i: "mq_inv [] (mq_store mq)" using ok by (simp add: mqueue_ok_def)
  obtain k' where "mq_wake (LIpc i) k = Some k'" "kernel_ok k'" "current k' \<noteq> None" using mq_wake_ok [OF ok, of "LIpc i"] by auto
  with Some x store_send [OF i l Some [unfolded x]] ok show ?thesis
    by (auto simp: mq_send_loop_def Let_def mqueue_ok_def send_effect_def)
next
  case None
  show ?thesis
  proof (cases "timeout = 0")
    case True
    with None upd_error_mqok [OF ok] show ?thesis by (simp add: mq_send_loop_def Let_def send_effect_def)
  next
    case False
    with None mq_block_ok [OF ok r, of "LSender i" timeout] b show ?thesis
      by (auto simp: mq_send_loop_def Let_def send_effect_def)
  qed
qed

lemma mq_recv_loop_ok:
  assumes ok: "mqueue_ok mq k" and r: "runs t k" and b: "sint timeout < 0x7fffffff" and sz: "mq_slot mq \<le> sz"
  shows "\<exists>r mq' k'. mq_recv_loop i sz timeout (Some t) mq k = Some (r, mq', k') \<and> mqueue_ok mq' k' \<and> recv_effect mq r mq'"
proof (cases "mq_entry (mq_store mq) = 0")
  case False
  have i: "mq_inv [] (mq_store mq)" using ok by (simp add: mqueue_ok_def)
  obtain m q1 where q: "mq_take_head (mq_store mq) = Some (m, q1)" "mq_inv [] (mq_put_free m q1)"
    "mq_items mq = mq_copy_out m sz q1 # mq_contents (mq_put_free m q1)" "mq_msg_size (mq_put_free m q1) = mq_msg_size (mq_store mq)"
    "mq_cap (mq_put_free m q1) = mq_size mq" by (rule store_recv [OF i False sz])
  obtain k' where "mq_wake (LSender i) k = Some k'" "kernel_ok k'" "current k' \<noteq> None" using mq_wake_ok [OF ok, of "LSender i"] by auto
  with False q ok show ?thesis by (auto simp: mq_recv_loop_def Let_def mqueue_ok_def recv_effect_def)
next
  case True
  have c: "RT_DEBUG_IN_THREAD_CONTEXT k = Some ()" using r by (auto simp: runs_def intro: in_thread_ctx)
  show ?thesis
  proof (cases "timeout = 0")
    case z: True
    with True c upd_error_mqok [OF upd_error_mqok [OF ok]] show ?thesis by (simp add: mq_recv_loop_def Let_def recv_effect_def)
  next
    case False
    with True c mq_block_ok [OF ok r, of "LIpc i" timeout] b show ?thesis by (auto simp: mq_recv_loop_def Let_def recv_effect_def)
  qed
qed

section \<open>Abstract specification\<close>

text \<open>To its users a message queue is a list of at most \<open>cap\<close> messages. The observable events: a message is
  accepted at the end, accepted at the front, or handed to a receiver, whose buffer then starts with it.\<close>

datatype mq_event = Put bytes | PutFront bytes | Get bytes | Reset

fun spec_step :: "nat \<Rightarrow> mq_event \<Rightarrow> bytes list \<Rightarrow> bytes list option" where
  "spec_step cap (Put m) ms = (if length ms < cap then Some (ms @ [m]) else None)"
| "spec_step cap (PutFront m) ms = (if length ms < cap then Some (m # ms) else None)"
| "spec_step cap (Get b) [] = None"
| "spec_step cap (Get b) (m # ms) = (if take (length m) b = m then Some ms else None)"
| "spec_step cap Reset ms = Some []"

primrec spec_run :: "nat \<Rightarrow> mq_event list \<Rightarrow> bytes list \<Rightarrow> bytes list option" where
  "spec_run cap [] ms = Some ms"
| "spec_run cap (e # es) ms = spec_step cap e ms \<bind> spec_run cap es"

lemma spec_run_append: "spec_run cap (es @ fs) ms = spec_run cap es ms \<bind> spec_run cap fs"
  by (induction es arbitrary: ms) (simp_all split: bind_splits)

text \<open>Histories of one queue: the functions of the code called by any running thread (and urgent sends, resets
  and sends without waiting by interrupts too), the continuations of those that waited, and arbitrary consistent
  activity of the rest of the system.\<close>

inductive mq_hist :: "nat \<Rightarrow> rt_messagequeue \<Rightarrow> kernel \<Rightarrow> mq_event list \<Rightarrow> bool" for i where
  start: "mqueue_ok mq k \<Longrightarrow> mq_items mq = [] \<Longrightarrow> mq_hist i mq k []"
| send: "mq_hist i mq k es \<Longrightarrow> runs t k \<Longrightarrow> sint timeout < 0x7fffffff \<Longrightarrow>
    rt_mq_send_wait i buf timeout mq k = Some (r, mq', k') \<Longrightarrow>
    mq_hist i mq' k' (if r = Done RT_EOK then es @ [Put buf] else es)"
| send_resume: "mq_hist i mq k es \<Longrightarrow> runs t k \<Longrightarrow> sint timeout < 0x7fffffff \<Longrightarrow> uint (rt_tick k - start) < 0x80000000 \<Longrightarrow>
    length buf \<le> mq_slot mq \<Longrightarrow> rt_mq_send_resume i buf timeout start t mq k = Some (r, mq', k') \<Longrightarrow>
    mq_hist i mq' k' (if r = Done RT_EOK then es @ [Put buf] else es)"
| urgent: "mq_hist i mq k es \<Longrightarrow> rt_mq_urgent i buf mq k = Some (e, mq', k') \<Longrightarrow>
    mq_hist i mq' k' (if e = RT_EOK then es @ [PutFront buf] else es)"
| recv: "mq_hist i mq k es \<Longrightarrow> runs t k \<Longrightarrow> sint timeout < 0x7fffffff \<Longrightarrow> mq_slot mq \<le> sz \<Longrightarrow>
    rt_mq_recv i sz timeout mq k = Some (r, mq', k') \<Longrightarrow>
    mq_hist i mq' k' (case r of Done (e, Some b) \<Rightarrow> es @ [Get b] | _ \<Rightarrow> es)"
| recv_resume: "mq_hist i mq k es \<Longrightarrow> runs t k \<Longrightarrow> sint timeout < 0x7fffffff \<Longrightarrow> uint (rt_tick k - start) < 0x80000000 \<Longrightarrow>
    mq_slot mq \<le> sz \<Longrightarrow> rt_mq_recv_resume i sz timeout start t mq k = Some (r, mq', k') \<Longrightarrow>
    mq_hist i mq' k' (case r of Done (e, Some b) \<Rightarrow> es @ [Get b] | _ \<Rightarrow> es)"
| reset: "mq_hist i mq k es \<Longrightarrow> rt_mq_control i cmd mq k = Some (e, mq', k') \<Longrightarrow>
    mq_hist i mq' k' (if e = RT_EOK then es @ [Reset] else es)"
| rest: "mq_hist i mq k es \<Longrightarrow> kernel_ok k' \<Longrightarrow> current k' \<noteq> None \<Longrightarrow> mq_hist i mq k' es"

text \<open>The simulation relation: the abstract messages are those the queued slots carry.\<close>

definition mq_sim :: "nat \<Rightarrow> mq_event list \<Rightarrow> rt_messagequeue \<Rightarrow> bool" where
  "mq_sim cap es mq \<longleftrightarrow> mq_size mq = cap \<and> (\<exists>ms. spec_run cap es [] = Some ms \<and> list_all2 mq_carries ms (mq_items mq))"

lemma sim_send:
  assumes "mq_sim cap es mq" "send_effect buf mq r mq'"
  shows "mq_sim cap (if r = Done RT_EOK then es @ [Put buf] else es) mq'"
proof -
  from assms(1) obtain ms where m: "mq_size mq = cap" "spec_run cap es [] = Some ms" "list_all2 mq_carries ms (mq_items mq)"
    by (auto simp: mq_sim_def)
  with list_all2_lengthD [OF m(3)] assms(2) show ?thesis
    by (auto simp: mq_sim_def send_effect_def spec_run_append list_all2_append)
qed

lemma sim_recv:
  assumes "mq_sim cap es mq" "recv_effect mq r mq'"
  shows "mq_sim cap (case r of Done (e, Some b) \<Rightarrow> es @ [Get b] | _ \<Rightarrow> es) mq'"
proof (cases "\<exists>e b. r = Done (e, Some b)")
  case False
  then have "(case r of Done (e, Some b) \<Rightarrow> es @ [Get b] | _ \<Rightarrow> es) = es"
    by (auto split: ipc_result.splits prod.splits option.splits)
  moreover have "mq_items mq' = mq_items mq" "mq_size mq' = mq_size mq"
    using assms(2) False by (auto simp: recv_effect_def split: ipc_result.splits prod.splits option.splits)
  ultimately show ?thesis using assms(1) by (simp add: mq_sim_def)
next
  case True
  then obtain e b where r: "r = Done (e, Some b)" by blast
  from assms(1) obtain ms where m: "mq_size mq = cap" "spec_run cap es [] = Some ms" "list_all2 mq_carries ms (mq_items mq)"
    by (auto simp: mq_sim_def)
  from assms(2) r have i: "mq_items mq = b # mq_items mq'" "mq_size mq' = mq_size mq" by (simp_all add: recv_effect_def)
  with m(3) obtain c cs where "ms = c # cs" "mq_carries c b" "list_all2 mq_carries cs (mq_items mq')" by (auto simp: list_all2_Cons2)
  with m(1,2) i(2) r show ?thesis by (simp add: mq_sim_def spec_run_append mq_carries_def)
qed

lemma send_wait_effect:
  assumes ok: "mqueue_ok mq k" and r: "runs t k" and b: "sint timeout < 0x7fffffff"
    and s: "rt_mq_send_wait i buf timeout mq k = Some (r, mq', k')"
  shows "mqueue_ok mq' k' \<and> send_effect buf mq r mq'"
proof -
  have ne: "buf \<noteq> []" using s by (auto simp: rt_mq_send_wait_def RT_ASSERT_def split: if_splits)
  have self: "rt_thread_self k = Some t" using r by (simp add: runs_def rt_thread_self_def)
  consider "mq_slot mq < length buf" | "length buf \<le> mq_slot mq" "mq_free (mq_store mq) = None \<and> timeout = 0"
    | "length buf \<le> mq_slot mq" "\<not> (mq_free (mq_store mq) = None \<and> timeout = 0)" by linarith
  then show ?thesis
  proof cases
    case 3
    then have "rt_mq_send_wait i buf timeout mq k = mq_send_loop i buf timeout (Some t) mq k"
      using ne self by (auto simp: rt_mq_send_wait_def RT_ASSERT_def)
    with s mq_send_loop_ok [OF ok r b 3(1), of i] show ?thesis by auto
  qed (use s ok ne in \<open>auto simp: rt_mq_send_wait_def RT_ASSERT_def send_effect_def\<close>)
qed

lemma send_resume_effect:
  assumes ok: "mqueue_ok mq k" and r: "runs t k" and b: "sint timeout < 0x7fffffff" "uint (rt_tick k - start) < 0x80000000"
    and l: "length buf \<le> mq_slot mq" and s: "rt_mq_send_resume i buf timeout start t mq k = Some (r, mq', k')"
  shows "mqueue_ok mq' k' \<and> send_effect buf mq r mq'"
  using mq_send_loop_ok [OF ok r remaining_le [OF b] l, of i] s ok
  by (auto simp: rt_mq_send_resume_def send_effect_def split: if_splits)

lemma recv_mq_effect:
  assumes ok: "mqueue_ok mq k" and r: "runs t k" and b: "sint timeout < 0x7fffffff" and sz: "mq_slot mq \<le> sz"
    and s: "rt_mq_recv i sz timeout mq k = Some (r, mq', k')"
  shows "mqueue_ok mq' k' \<and> recv_effect mq r mq'"
proof -
  have ne: "sz \<noteq> 0" using s by (auto simp: rt_mq_recv_def RT_ASSERT_def split: if_splits)
  have self: "rt_thread_self k = Some t" using r by (simp add: runs_def rt_thread_self_def)
  show ?thesis
  proof (cases "mq_entry (mq_store mq) = 0 \<and> timeout = 0")
    case True
    with s ok ne show ?thesis by (auto simp: rt_mq_recv_def RT_ASSERT_def recv_effect_def)
  next
    case False
    then have "rt_mq_recv i sz timeout mq k = mq_recv_loop i sz timeout (Some t) mq k"
      using ne self by (auto simp: rt_mq_recv_def RT_ASSERT_def)
    with s mq_recv_loop_ok [OF ok r b sz, of i] show ?thesis by auto
  qed
qed

lemma recv_resume_effect:
  assumes ok: "mqueue_ok mq k" and r: "runs t k" and b: "sint timeout < 0x7fffffff" "uint (rt_tick k - start) < 0x80000000"
    and sz: "mq_slot mq \<le> sz" and s: "rt_mq_recv_resume i sz timeout start t mq k = Some (r, mq', k')"
  shows "mqueue_ok mq' k' \<and> recv_effect mq r mq'"
  using mq_recv_loop_ok [OF ok r remaining_le [OF b] sz, of i] s ok
  by (auto simp: rt_mq_recv_resume_def recv_effect_def split: if_splits)

lemma urgent_effect:
  assumes ok: "mqueue_ok mq k" and s: "rt_mq_urgent i buf mq k = Some (e, mq', k')"
  shows "mqueue_ok mq' k' \<and> mq_size mq' = mq_size mq \<and>
    (if e = RT_EOK then length (mq_items mq) < mq_size mq \<and> (\<exists>x. mq_items mq' = x # mq_items mq \<and> mq_carries buf x)
     else mq_items mq' = mq_items mq)"
proof -
  have ne: "buf \<noteq> []" using s by (auto simp: rt_mq_urgent_def RT_ASSERT_def split: if_splits)
  have inv: "mq_inv [] (mq_store mq)" using ok by (simp add: mqueue_ok_def)
  show ?thesis
  proof (cases "mq_slot mq < length buf \<or> mq_take_free (mq_store mq) = None")
    case True
    with s ne have "e \<noteq> RT_EOK \<and> mq' = mq \<and> k' = k"
      by (cases "mq_slot mq < length buf") (auto simp: rt_mq_urgent_def RT_ASSERT_def)
    with ok show ?thesis by simp
  next
    case False
    then obtain m q1 where f: "mq_take_free (mq_store mq) = Some (m, q1)" and l: "length buf \<le> mq_slot mq" by force
    obtain k1 where "mq_wake (LIpc i) k = Some k1" "kernel_ok k1" "current k1 \<noteq> None" using mq_wake_ok [OF ok, of "LIpc i"] by auto
    with s ne l f have "e = RT_EOK" "mq' = mq\<lparr>mq_store := mq_link_urgent m (mq_fill_urgent m buf q1)\<rparr>" "kernel_ok k'" "current k' \<noteq> None"
      by (auto simp: rt_mq_urgent_def RT_ASSERT_def Let_def)
    with store_urgent [OF inv l f] ok show ?thesis by (auto simp: mqueue_ok_def)
  qed
qed

lemma reset_effect:
  assumes ok: "mqueue_ok mq k" and s: "rt_mq_control i cmd mq k = Some (e, mq', k')"
  shows "mqueue_ok mq' k' \<and> mq_size mq' = mq_size mq \<and> mq_items mq' = (if e = RT_EOK then [] else mq_items mq)"
proof (cases "cmd = RT_IPC_CMD_RESET")
  case False
  with s ok show ?thesis by (simp add: rt_mq_control_def)
next
  case True
  from ok obtain us fs where w: "mq_wf us fs [] (mq_store mq)" and kk: "kernel_ok k" "current k \<noteq> None"
    by (auto simp: mqueue_ok_def mq_inv_def)
  from resume_all_kernel [OF _ kk(1), of "LIpc i"] obtain k1 where
    k1: "rt_ipc_list_resume_all (LIpc i) k = Some k1" "kernel_ok k1" "current k1 = current k" by auto
  from resume_all_kernel [OF _ k1(2), of "LSender i"] obtain k2 where
    k2: "rt_ipc_list_resume_all (LSender i) k1 = Some k2" "kernel_ok k2" "current k2 = current k1" by auto
  have c2: "current k2 \<noteq> None" using kk(2) k1(3) k2(3) by simp
  obtain k3 where k3: "rt_schedule k2 = Some k3" "kernel_ok k3" "current k3 \<noteq> None" by (rule schedule_kernel [OF k2(2) c2])
  from mq_reset_ok [OF w] obtain q where q: "mq_reset (mq_store mq) = Some q" "mq_wf [] (rev us @ fs) [] q" "mq_contents q = []" by auto
  have "mq_cap q = mq_size mq" using mq_wf_count [OF w] mq_wf_count [OF q(2)] by simp
  with True s k1 k2 k3 q ok show ?thesis by (auto simp: rt_mq_control_def mqueue_ok_def intro: mq_invI)
qed

lemma sim_urgent:
  assumes "mq_sim cap es mq" "mq_size mq' = mq_size mq"
    "if e = RT_EOK then length (mq_items mq) < mq_size mq \<and> (\<exists>x. mq_items mq' = x # mq_items mq \<and> mq_carries buf x)
     else mq_items mq' = mq_items mq"
  shows "mq_sim cap (if e = RT_EOK then es @ [PutFront buf] else es) mq'"
proof -
  from assms(1) obtain ms where m: "mq_size mq = cap" "spec_run cap es [] = Some ms" "list_all2 mq_carries ms (mq_items mq)"
    by (auto simp: mq_sim_def)
  with list_all2_lengthD [OF m(3)] assms(2,3) show ?thesis by (auto simp: mq_sim_def spec_run_append split: if_splits)
qed

lemma mq_hist_sim: "mq_hist i mq k es \<Longrightarrow> mqueue_ok mq k \<and> mq_sim (mq_size mq) es mq"
proof (induction rule: mq_hist.induct)
  case (start mq k)
  then show ?case by (simp add: mq_sim_def)
next
  case (send mq k es t timeout buf r mq' k')
  from send_wait_effect [OF _ send.hyps(2,3,4)] send.IH have e: "mqueue_ok mq' k'" "send_effect buf mq r mq'" by auto
  with sim_send [of "mq_size mq" es mq] send.IH show ?case by (simp add: send_effect_def)
next
  case (send_resume mq k es t timeout start buf r mq' k')
  from send_resume_effect [OF _ send_resume.hyps(2-6)] send_resume.IH have e: "mqueue_ok mq' k'" "send_effect buf mq r mq'" by auto
  with sim_send [of "mq_size mq" es mq] send_resume.IH show ?case by (simp add: send_effect_def)
next
  case (urgent mq k es buf e mq' k')
  with urgent_effect [of mq k i buf e mq' k'] sim_urgent [of "mq_size mq" es mq mq' e buf] show ?case by auto
next
  case (recv mq k es t timeout sz r mq' k')
  from recv_mq_effect [OF _ recv.hyps(2-5)] recv.IH have e: "mqueue_ok mq' k'" "recv_effect mq r mq'" by auto
  with sim_recv [of "mq_size mq" es mq r mq'] recv.IH show ?case by (simp add: recv_effect_def)
next
  case (recv_resume mq k es t timeout start sz r mq' k')
  from recv_resume_effect [OF _ recv_resume.hyps(2-6)] recv_resume.IH have e: "mqueue_ok mq' k'" "recv_effect mq r mq'" by auto
  with sim_recv [of "mq_size mq" es mq r mq'] recv_resume.IH show ?case by (simp add: recv_effect_def)
next
  case (reset mq k es cmd e mq' k')
  with reset_effect [of mq k i cmd e mq' k'] show ?case by (auto simp: mq_sim_def spec_run_append)
next
  case (rest mq k es k')
  then show ?case by (simp add: mqueue_ok_def)
qed

section \<open>Properties\<close>

text \<open>C3: Message queues refine a bounded list. In every history of sends, urgent sends, receives and resets by any
  threads, waits included, the accepted messages, the messages handed out (with buffers of the slot size) and the
  resets are a run of the abstract queue, which stores at the end or at the front and takes from the front; the
  queued slots carry the abstract messages, their number is at most the capacity, and kernel and pool stay
  consistent.\<close>

theorem mq_refines_list:
  assumes "mq_hist i mq k es"
  shows "\<exists>ms. spec_run (mq_cap (mq_store mq)) es [] = Some ms \<and> list_all2 mq_carries ms (mq_contents (mq_store mq))
    \<and> length ms \<le> mq_cap (mq_store mq) \<and> mq_inv [] (mq_store mq) \<and> kernel_ok k"
proof -
  from mq_hist_sim [OF assms] obtain ms where ok: "mqueue_ok mq k" and
    m: "spec_run (mq_size mq) es [] = Some ms" "list_all2 mq_carries ms (mq_items mq)" by (auto simp: mq_sim_def)
  from ok have i: "mq_inv [] (mq_store mq)" "kernel_ok k" by (simp_all add: mqueue_ok_def)
  with m list_all2_lengthD [OF m(2)] mqf.len_le_cap [OF i(1)] show ?thesis by auto
qed

definition mqx :: rt_messagequeue where
  "mqx = \<lparr>mq_store = mq_setup [\<lparr>nxt = None, body = [0, 0]\<rparr>] 2 1, mq_flag = 0\<rparr>"

theorem mq_refines_list_witness:
  "\<exists>mq k. rt_mq_urgent 0 [7] mqx (two_threads 10 5 3) = Some (RT_EOK, mq, k)
    \<and> (\<exists>ms. spec_run (mq_cap (mq_store mq)) [PutFront [7]] [] = Some ms \<and> list_all2 mq_carries ms (mq_contents (mq_store mq)) \<and> kernel_ok k)"
proof -
  let ?k = "two_threads 10 5 3"
  have kk: "kernel_ok ?k" by (rule two_threads_kernel) (simp_all add: two_threads_def Let_def stat_of_def)
  have c: "current ?k = Some 0" "lists ?k (LIpc 0) = []" by (simp_all add: two_threads_def Let_def)
  have q: "mq_inv [] (mq_store mqx) \<and> mq_contents (mq_store mqx) = []" "mq_flag mqx = 0" "mq_slot mqx = 2"
    using mq_setup_inv [of "[\<lparr>nxt = None, body = [0, 0]\<rparr>]" 1 2]
    by (auto simp: mqx_def mq_setup_def Let_def)
  have h: "mq_hist 0 mqx ?k []" by (rule mq_hist.start) (use kk c q in \<open>simp_all add: mqueue_ok_def\<close>)
  have "mq_take_free (mq_store mqx) \<noteq> None" by (simp add: mqx_def mq_setup_def mq_take_free_def Let_def)
  then obtain mq where r: "rt_mq_urgent 0 [7] mqx ?k = Some (RT_EOK, mq, ?k)"
    using q(3) c(2) by (auto simp: rt_mq_urgent_def RT_ASSERT_def mq_wake_def Let_def)
  have "mq_hist 0 mq ?k [PutFront [7]]" using mq_hist.urgent [OF h r] by simp
  from mq_refines_list [OF this] r show ?thesis by blast
qed

end
