(* ===== verification/Undisturbed.thy ===== *)
theory Undisturbed
  imports Ipc
begin

text \<open>
  What the functions of the kernel do to threads that wait for IPC objects they are not concerned with: nothing, except that a thread may
  leave its list (a timeout, a deleted or resumed thread). The locale \<open>ipc_object\<close> is what an object has to promise to
  live beside others in one kernel; theory System interprets it for all objects.
\<close>

section \<open>What a step may do to the waiting threads\<close>

text \<open>The threads in the list \<open>l\<close> after the step were in it before, and still want the same events.\<close>

definition undisturbed :: "lhead \<Rightarrow> kernel \<Rightarrow> kernel \<Rightarrow> bool" where
  "undisturbed l k k' \<longleftrightarrow> set (lists k' l) \<subseteq> set (lists k l)
     \<and> (\<forall>t \<in> set (lists k' l). event_set (threads k' t) = event_set (threads k t) \<and> event_info (threads k' t) = event_info (threads k t))"

definition quiet :: "kernel \<Rightarrow> kernel \<Rightarrow> bool" where
  "quiet k k' \<longleftrightarrow> (\<forall>l. is_wait l \<longrightarrow> set (lists k' l) \<subseteq> set (lists k l))
     \<and> (\<forall>t. event_set (threads k' t) = event_set (threads k t) \<and> event_info (threads k' t) = event_info (threads k t))"

text \<open>A step of an object with the lists \<open>L\<close>.\<close>

definition calm :: "lhead set \<Rightarrow> kernel \<Rightarrow> kernel \<Rightarrow> bool" where
  "calm L k k' \<longleftrightarrow> (\<forall>l. is_wait l \<longrightarrow> l \<notin> L \<longrightarrow> undisturbed l k k')"

lemma quiet_undisturbed: "quiet k k' \<Longrightarrow> is_wait l \<Longrightarrow> undisturbed l k k'"
  by (simp add: quiet_def undisturbed_def)

lemma quiet_calm: "quiet k k' \<Longrightarrow> calm L k k'"
  by (simp add: calm_def quiet_undisturbed)

lemma calmD: "calm L k k' \<Longrightarrow> is_wait l \<Longrightarrow> l \<notin> L \<Longrightarrow> undisturbed l k k'"
  by (simp add: calm_def)

lemma calm_mono: "calm L k k' \<Longrightarrow> L \<subseteq> M \<Longrightarrow> calm M k k'"
  by (auto simp: calm_def)

lemma undisturbed_empty: "undisturbed l k k' \<Longrightarrow> lists k l = [] \<Longrightarrow> lists k' l = []"
  by (simp add: undisturbed_def)

lemma quiet_refl [simp]: "quiet k k"
  by (simp add: quiet_def)

lemma quiet_trans: "quiet k k1 \<Longrightarrow> quiet k1 k2 \<Longrightarrow> quiet k k2"
  unfolding quiet_def by (metis order_trans)

lemma quiet_upd:
  assumes "\<And>th. event_set (f th) = event_set th" "\<And>th. event_info (f th) = event_info th"
  shows "quiet k (upd_thread t f k)"
  using assms by (simp add: quiet_def)

text \<open>Functions of the kernel.\<close>

lemma quiet_remove: "quiet k (rt_schedule_remove_thread t k)"
  by (auto simp: quiet_def rt_schedule_remove_thread_def Let_def)

lemma quiet_insert: "quiet k (rt_schedule_insert_thread t k)"
  by (auto simp: quiet_def rt_schedule_insert_thread_def Let_def is_wait_def set_stat_def)

lemma quiet_choice: "quiet k (snd (snd (schedule_choice c t0 hp k)))"
  by (auto simp: schedule_choice_def quiet_def)

lemma quiet_fields: "lists k' = lists k \<Longrightarrow> threads k' = threads k \<Longrightarrow> quiet k k'"
  by (simp add: quiet_def)

lemma quiet_schedule:
  assumes "rt_schedule k = Some k'"
  shows "quiet k k'"
proof (cases "lock_nest k = 0 \<and> ready_group k \<noteq> 0")
  case False
  with assms show ?thesis by (auto simp: rt_schedule_def split: if_splits)
next
  case True
  from assms True obtain t0 hp c where h: "get_highest_priority_thread k = Some (t0, hp)" "current k = Some c"
    by (auto simp: rt_schedule_def bind_eq_Some_conv)
  obtain t1 ins k1 where c: "schedule_choice c t0 hp k = (t1, ins, k1)" by (cases "schedule_choice c t0 hp k") auto
  have q1: "quiet k k1" using quiet_choice [of k c t0 hp] c by simp
  let ?k2 = "k1\<lparr>rt_current_priority := of_nat hp, current := Some t1\<rparr>"
  let ?k3 = "if ins then rt_schedule_insert_thread c ?k2 else ?k2"
  have "quiet k1 ?k2" by (rule quiet_fields) simp_all
  moreover have "quiet ?k2 ?k3" using quiet_insert [of ?k2 c] by simp
  ultimately have q3: "quiet k ?k3" by (intro quiet_trans [OF quiet_trans [OF q1]])
  have u: "quiet k0 (upd_thread t (set_stat v) k0)" for k0 t v by (rule quiet_upd) (simp_all add: set_stat_def)
  show ?thesis
  proof (cases "t1 = c")
    case True
    with assms \<open>lock_nest k = 0 \<and> ready_group k \<noteq> 0\<close> h c have "k' = upd_thread c (set_stat RT_THREAD_RUNNING) (rt_schedule_remove_thread c k1)"
      by (simp add: rt_schedule_def)
    then show ?thesis using quiet_trans [OF q1 quiet_trans [OF quiet_remove u]] by simp
  next
    case False
    with assms True h c have "k' = upd_thread t1 (set_stat RT_THREAD_RUNNING) (rt_schedule_remove_thread t1 ?k3)"
      by (simp add: rt_schedule_def Let_def)
    then show ?thesis using quiet_trans [OF q3 quiet_trans [OF quiet_remove u]] by simp
  qed
qed

lemma quiet_timer_remove: "quiet k (rt_timer_remove i k)" "quiet k (rt_timer_detach i k)"
  by (simp_all add: quiet_fields rt_timer_remove_def rt_timer_detach_def)

lemma quiet_upd_timer: "quiet k (upd_timer i f k)"
  by (rule quiet_fields) (simp_all add: upd_timer_def)

lemma quiet_timer_stop: "quiet k (snd (rt_timer_stop i k))"
  by (auto simp: rt_timer_stop_def rt_timer_remove_def upd_timer_def intro!: quiet_fields)

lemma quiet_timer_control: "quiet k (snd (rt_timer_control i c k))"
  by (auto simp: rt_timer_control_def upd_timer_def intro!: quiet_fields split: timer_ctrl.splits)

lemma quiet_timer_start: "rt_timer_start i k = Some k' \<Longrightarrow> quiet k k'"
  by (auto simp: rt_timer_start_def rt_timer_remove_def upd_timer_def RT_ASSERT_def Let_def intro!: quiet_fields split: if_splits)

lemma quiet_suspend: "rt_thread_suspend t k = Some (e, k') \<Longrightarrow> quiet k k'"
proof -
  assume a: "rt_thread_suspend t k = Some (e, k')"
  show ?thesis
  proof (cases "stat_of (threads k t) \<noteq> RT_THREAD_READY \<and> stat_of (threads k t) \<noteq> RT_THREAD_RUNNING")
    case True
    with a show ?thesis by (simp add: rt_thread_suspend_def)
  next
    case False
    with a have "k' = snd (rt_timer_stop (TThread t) (upd_thread t (set_stat RT_THREAD_SUSPEND) (rt_schedule_remove_thread t k)))"
      by (auto simp: rt_thread_suspend_def Let_def RT_ASSERT_def split: if_splits)
    moreover have u: "quiet k0 (upd_thread t (set_stat v) k0)" for k0 v by (rule quiet_upd) (simp_all add: set_stat_def)
    ultimately show ?thesis using quiet_trans [OF quiet_trans [OF quiet_remove u] quiet_timer_stop] by simp
  qed
qed

lemma quiet_tlist_remove: "quiet k (tlist_remove t k)"
  by (auto simp: quiet_def)

lemma quiet_resume: "quiet k (snd (rt_thread_resume t k))"
  using quiet_trans [OF quiet_tlist_remove [of k t] quiet_trans [OF quiet_timer_stop [of "tlist_remove t k" "TThread t"] quiet_insert]]
  by (simp add: rt_thread_resume_def Let_def)

lemma quiet_defunct: "quiet k (tlist_insert_after LDefunct t k)"
  by (simp add: quiet_def is_wait_def)

lemmas quiet_steps = quiet_remove quiet_insert quiet_timer_remove quiet_upd_timer quiet_timer_stop quiet_timer_control quiet_tlist_remove
  quiet_resume quiet_defunct

lemma quiet_startup: "rt_thread_startup t k = Some k' \<Longrightarrow> quiet k k'"
proof -
  assume a: "rt_thread_startup t k = Some k'"
  let ?k1 = "upd_thread t (\<lambda>th. th\<lparr>current_priority := init_priority th\<rparr>) k"
  from a obtain mask where m: "shl1 (current_priority (threads ?k1 t)) = Some mask"
    by (auto simp: rt_thread_startup_def RT_ASSERT_def Let_def bind_eq_Some_conv split: if_splits)
  let ?k3 = "upd_thread t (\<lambda>th. th\<lparr>stat := RT_THREAD_SUSPEND\<rparr>) (upd_thread t (\<lambda>th. th\<lparr>number_mask := mask\<rparr>) ?k1)"
  let ?k4 = "snd (rt_thread_resume t ?k3)"
  have "quiet k ?k3" by (simp add: quiet_def)
  then have q: "quiet k ?k4" by (rule quiet_trans [OF _ quiet_resume])
  have "k' = ?k4 \<or> rt_schedule ?k4 = Some k'" using a m by (auto simp: rt_thread_startup_def RT_ASSERT_def Let_def split: if_splits)
  then show ?thesis using q quiet_trans [OF q quiet_schedule] by blast
qed

lemma quiet_stat_close: "quiet k (upd_thread t (\<lambda>th. th\<lparr>stat := v\<rparr>) k)"
  by (rule quiet_upd) simp_all

lemma quiet_close:
  assumes "rt_thread_detach t k = Some k' \<or> rt_thread_delete t k = Some k'"
  shows "quiet k k'"
proof -
  let ?k1 = "if stat_of (threads k t) \<noteq> RT_THREAD_INIT then rt_schedule_remove_thread t k else k"
  let ?k2 = "upd_thread t (\<lambda>th. th\<lparr>stat := RT_THREAD_CLOSE\<rparr>) (rt_timer_detach (TThread t) ?k1)"
  have "quiet k ?k1" using quiet_remove by simp
  then have q: "quiet k ?k2" by (rule quiet_trans [OF quiet_trans [OF _ quiet_timer_remove(2)] quiet_stat_close])
  have "k' = ?k2 \<or> k' = tlist_insert_after LDefunct t ?k2"
    using assms by (auto simp: rt_thread_detach_def rt_thread_delete_def RT_ASSERT_def Let_def split: if_splits)
  then show ?thesis using q quiet_trans [OF q quiet_defunct] by auto
qed

lemma quiet_exit:
  assumes "rt_thread_exit k = Some k'"
  shows "quiet k k'"
proof -
  from assms obtain t where t: "rt_thread_self k = Some t" by (auto simp: rt_thread_exit_def bind_eq_Some_conv)
  let ?k2 = "rt_timer_detach (TThread t) (upd_thread t (\<lambda>th. th\<lparr>stat := RT_THREAD_CLOSE\<rparr>) (rt_schedule_remove_thread t k))"
  let ?k3 = "if is_static (threads ?k2 t) \<and> \<not> has_cleanup (threads ?k2 t) then ?k2 else tlist_insert_after LDefunct t ?k2"
  have "quiet k ?k2" by (rule quiet_trans [OF quiet_trans [OF quiet_remove quiet_stat_close] quiet_timer_remove(2)])
  then have "quiet k ?k3" using quiet_trans [OF _ quiet_defunct] by auto
  moreover have "rt_schedule ?k3 = Some k'" using assms t by (simp add: rt_thread_exit_def Let_def)
  ultimately show ?thesis by (rule quiet_trans [OF _ quiet_schedule])
qed

text \<open>Suspend, set the timer, schedule: the common part of sleeping and blocking.\<close>

lemma quiet_timed_sleep:
  assumes "rt_thread_suspend t k = Some (e, k1)" "rt_timer_start (TThread t) (snd (rt_timer_control (TThread t) c k1)) = Some k2" "rt_schedule k2 = Some k'"
  shows "quiet k k'"
  by (rule quiet_trans [OF quiet_trans [OF quiet_trans [OF quiet_suspend [OF assms(1)] quiet_timer_control] quiet_timer_start [OF assms(2)]]
        quiet_schedule [OF assms(3)]])

lemma quiet_sleep: "rt_thread_sleep_begin n k = Some k' \<Longrightarrow> quiet k k'"
  by (auto simp: rt_thread_sleep_begin_def bind_eq_Some_conv intro: quiet_timed_sleep)

lemma quiet_delay_until: "rt_thread_delay_until_begin a b k = Some (v, w, k') \<Longrightarrow> quiet k k'"
  by (auto simp: rt_thread_delay_until_begin_def bind_eq_Some_conv Let_def intro: quiet_timed_sleep split: if_splits)

lemma quiet_priority:
  assumes "rt_thread_control t (CTRL_CHANGE_PRIORITY p) k = Some k'"
  shows "quiet k k'"
proof (cases "stat_of (threads k t) = RT_THREAD_READY")
  case False
  with assms show ?thesis by (auto simp: rt_thread_control_def bind_eq_Some_conv quiet_def)
next
  case True
  with assms obtain mask where e: "k' = rt_schedule_insert_thread t (upd_thread t (\<lambda>th. th\<lparr>number_mask := mask\<rparr>)
      (upd_thread t (\<lambda>th. th\<lparr>current_priority := p\<rparr>) (rt_schedule_remove_thread t k)))"
    by (auto simp: rt_thread_control_def bind_eq_Some_conv)
  have "quiet k0 (upd_thread t (\<lambda>th. th\<lparr>number_mask := mask\<rparr>) (upd_thread t (\<lambda>th. th\<lparr>current_priority := p\<rparr>) k0))" for k0 by (simp add: quiet_def)
  from quiet_trans [OF quiet_trans [OF quiet_remove this] quiet_insert] show ?thesis by (simp only: e)
qed

lemma quiet_timeout:
  assumes "rt_thread_timeout t k = Some k'"
  shows "quiet k k'"
proof -
  let ?k1 = "upd_thread t (\<lambda>th. th\<lparr>t_error := - RT_ETIMEOUT\<rparr>) k"
  have s: "rt_schedule (rt_schedule_insert_thread t (tlist_remove t ?k1)) = Some k'"
    using assms by (auto simp: rt_thread_timeout_def RT_ASSERT_def Let_def split: if_splits)
  have "quiet k ?k1" by (simp add: quiet_def)
  from quiet_trans [OF quiet_trans [OF quiet_trans [OF this quiet_tlist_remove] quiet_insert] quiet_schedule [OF s]] show ?thesis .
qed

section \<open>The tick interrupt\<close>

lemma quiet_check_turn:
  assumes cb: "\<And>u k k'. cb u k = Some k' \<Longrightarrow> quiet k k'" and IH: "\<And>n k k'. loop n k = Some k' \<Longrightarrow> quiet k k'"
    and r: "(case timer_list k of
        [] \<Rightarrow> Some k
      | i # is \<Rightarrow>
          if n - timeout_tick (timers k i) < HALF_TICK then do {
            let k = rt_timer_remove i k;
            k \<leftarrow> timeout_func cb i k;
            let current_tick = rt_tick_get k;
            let deact = upd_timer i (\<lambda>tm. tm\<lparr>tm_active := False\<rparr>) k;
            if tm_periodic (timers k i) \<and> tm_active (timers k i)
            then do { k \<leftarrow> rt_timer_start i deact; loop current_tick k }
            else loop current_tick deact }
          else Some k) = Some k'"
  shows "quiet k k'"
proof (cases "timer_list k")
  case Nil
  with r show ?thesis by simp
next
  case (Cons i js)
  show ?thesis
  proof (cases "n - timeout_tick (timers k i) < HALF_TICK")
    case False
    with r Cons show ?thesis by simp
  next
    case True
    with r Cons obtain k1 where k1: "timeout_func cb i (rt_timer_remove i k) = Some k1" by (auto simp: bind_eq_Some_conv Let_def)
    let ?d = "upd_timer i (\<lambda>tm. tm\<lparr>tm_active := False\<rparr>) k1"
    have "quiet (rt_timer_remove i k) k1" using k1 cb quiet_timeout by (cases i) (auto simp: timeout_func_def)
    then have q1: "quiet k ?d" by (rule quiet_trans [OF quiet_trans [OF quiet_timer_remove(1)] quiet_upd_timer])
    consider k2 where "rt_timer_start i ?d = Some k2" "loop (rt_tick_get k1) k2 = Some k'" | "loop (rt_tick_get k1) ?d = Some k'"
      using r Cons True k1 by (auto simp: bind_eq_Some_conv Let_def split: if_splits)
    then show ?thesis
    proof cases
      case (1 k2)
      from quiet_trans [OF quiet_trans [OF q1 quiet_timer_start [OF 1(1)]] IH [OF 1(2)]] show ?thesis .
    next
      case 2
      from quiet_trans [OF q1 IH [OF 2]] show ?thesis .
    qed
  qed
qed

lemma quiet_check_loop:
  assumes cb: "\<And>u k k'. cb u k = Some k' \<Longrightarrow> quiet k k'" and r: "timer_check_loop cb n k = Some k'"
  shows "quiet k k'"
proof -
  have "cb = cb \<longrightarrow> quiet k k'"
  proof (rule timer_check_loop.raw_induct [OF _ r, where P = "\<lambda>c n k k'. c = cb \<longrightarrow> quiet k k'"], rule impI)
    fix loop :: "(nat \<Rightarrow> kernel \<Rightarrow> kernel option) \<Rightarrow> u32 \<Rightarrow> kernel \<Rightarrow> kernel option" and c n k k'
    assume IH: "\<And>c n k k'. loop c n k = Some k' \<Longrightarrow> c = cb \<longrightarrow> quiet k k'" and c: "c = cb"
    assume r: "(case timer_list k of [] \<Rightarrow> Some k
      | i # is \<Rightarrow> if n - timeout_tick (timers k i) < HALF_TICK then do {
            let k = rt_timer_remove i k;
            k \<leftarrow> timeout_func c i k;
            let current_tick = rt_tick_get k;
            let deact = upd_timer i (\<lambda>tm. tm\<lparr>tm_active := False\<rparr>) k;
            if tm_periodic (timers k i) \<and> tm_active (timers k i)
            then do { k \<leftarrow> rt_timer_start i deact; loop c current_tick k }
            else loop c current_tick deact }
          else Some k) = Some k'"
    show "quiet k k'" by (rule quiet_check_turn [OF cb _ r [unfolded c]]) (use IH in auto)
  qed
  then show ?thesis by simp
qed

lemma quiet_tick:
  assumes cb: "\<And>u k k'. cb u k = Some k' \<Longrightarrow> quiet k k'" and r: "rt_tick_increase cb k = Some k'"
  shows "quiet k k'"
proof -
  let ?k0 = "k\<lparr>rt_tick := rt_tick k + 1\<rparr>"
  from r obtain k1 where k1: "tick_slice ?k0 = Some k1" "timer_check_loop cb (rt_tick_get k1) k1 = Some k'"
    by (auto simp: rt_tick_increase_def rt_timer_check_def bind_eq_Some_conv)
  obtain t where t: "rt_thread_self ?k0 = Some t" using k1(1) by (auto simp: tick_slice_def bind_eq_Some_conv)
  let ?a = "upd_thread t (\<lambda>th. th\<lparr>remaining_tick := remaining_tick th - 1\<rparr>) ?k0"
  let ?b = "upd_thread t (\<lambda>th. th\<lparr>stat := stat th OR RT_THREAD_STAT_YIELD\<rparr>) (upd_thread t (\<lambda>th. th\<lparr>remaining_tick := init_tick th\<rparr>) ?a)"
  have q: "quiet k ?a" "quiet k ?b" by (simp_all add: quiet_def)
  have "k1 = ?a \<or> rt_schedule ?b = Some k1" using k1(1) t by (auto simp: tick_slice_def rt_thread_yield_def Let_def split: if_splits)
  then have "quiet k k1" using q(1) quiet_trans [OF q(2) quiet_schedule] by blast
  from quiet_trans [OF this quiet_check_loop [OF cb k1(2)]] show ?thesis .
qed

section \<open>Waiting and waking\<close>

lemma undisturbed_trans: "undisturbed l k k1 \<Longrightarrow> undisturbed l k1 k2 \<Longrightarrow> undisturbed l k k2"
  unfolding undisturbed_def by (metis (no_types, lifting) order_trans subsetD)

lemma calm_trans: "calm L k k1 \<Longrightarrow> calm L k1 k2 \<Longrightarrow> calm L k k2"
  unfolding calm_def using undisturbed_trans by blast

lemmas calm_quiet = calm_trans [OF _ quiet_calm] and quiet_calm_trans = calm_trans [OF quiet_calm]

lemma calm_list: "l \<in> L \<Longrightarrow> calm L k (k\<lparr>lists := (lists k)(l := xs)\<rparr>)"
  by (auto simp: calm_def undisturbed_def)

text \<open>The running thread does not wait: its data are its own.\<close>

lemma calm_running:
  assumes "kernel_ok k" "stat_of (threads k t) = RT_THREAD_RUNNING"
  shows "calm L k (upd_thread t f k)"
  using waiting_suspended [OF assms(1), of _ t] assms(2) by (auto simp: calm_def undisturbed_def)

lemma quiet_wait_timer: "wait_timer t time k = Some k' \<Longrightarrow> quiet k k'"
  using quiet_trans [OF quiet_timer_control quiet_timer_start] by (auto simp: wait_timer_def split: if_splits)

lemma calm_block:
  assumes "ipc_block l t flag time k = Some k'" "l \<in> L"
  shows "calm L k k'"
proof -
  from assms(1) obtain e k1 k3 where k: "rt_thread_suspend t k = Some (e, k1)"
    "wait_timer t time (k1\<lparr>lists := (lists k1)(l := ipc_place flag t k1 (lists k1 l))\<rparr>) = Some k3" "rt_schedule k3 = Some k'"
    by (auto simp: ipc_block_def rt_ipc_list_suspend_def bind_eq_Some_conv)
  from calm_quiet [OF calm_quiet [OF quiet_calm_trans [OF quiet_suspend [OF k(1)] calm_list [OF assms(2)]] quiet_wait_timer [OF k(2)]] quiet_schedule [OF k(3)]]
  show ?thesis .
qed

lemma quiet_error: "quiet k (upd_thread t (\<lambda>th. th\<lparr>t_error := e\<rparr>) k)"
  by (rule quiet_upd) simp_all

lemma quiet_list_resume: "rt_ipc_list_resume l k = Some k' \<Longrightarrow> quiet k k'"
  using quiet_resume by (auto simp: rt_ipc_list_resume_def split: list.splits)

lemma quiet_wake: "rt_ipc_list_resume l k \<bind> rt_schedule = Some k' \<Longrightarrow> quiet k k'"
  using quiet_trans [OF quiet_list_resume quiet_schedule] by (auto simp: bind_eq_Some_conv)

lemma quiet_resume_all:
  assumes r: "rt_ipc_list_resume_all l k = Some k'"
  shows "quiet k k'"
proof (rule rt_ipc_list_resume_all.raw_induct [OF _ r, where P = "\<lambda>l k k'. quiet k k'"])
  fix loop :: "lhead \<Rightarrow> kernel \<Rightarrow> kernel option" and l k k'
  assume IH: "\<And>l k k'. loop l k = Some k' \<Longrightarrow> quiet k k'"
  assume r: "(case lists k l of [] \<Rightarrow> Some k
      | t # ts \<Rightarrow> do {
          let k = upd_thread t (\<lambda>th. th\<lparr>t_error := - RT_ERROR\<rparr>) k;
          let k = snd (rt_thread_resume t k);
          loop l k }) = Some k'"
  show "quiet k k'"
  proof (cases "lists k l")
    case Nil
    with r show ?thesis by simp
  next
    case (Cons t ts)
    with r have "loop l (snd (rt_thread_resume t (upd_thread t (\<lambda>th. th\<lparr>t_error := - RT_ERROR\<rparr>) k))) = Some k'" by (simp add: Let_def)
    from quiet_trans [OF quiet_trans [OF quiet_error quiet_resume] IH [OF this]] show ?thesis .
  qed
qed

section \<open>What an object promises\<close>

text \<open>\<open>ok\<close> is the invariant of an object with number \<open>i\<close>, \<open>op\<close> its steps. A step keeps the invariant and leaves all lists of
  other objects undisturbed; the invariant survives every step of the system that leaves the lists of the object
  undisturbed. \<open>links\<close> are these lists.\<close>

abbreviation links :: "nat \<Rightarrow> lhead set" where
  "links i \<equiv> {LIpc i, LSender i}"

locale ipc_object =
  fixes ok :: "nat \<Rightarrow> 'o \<Rightarrow> kernel \<Rightarrow> bool"
    and op :: "nat \<Rightarrow> 'o \<Rightarrow> kernel \<Rightarrow> 'o \<Rightarrow> kernel \<Rightarrow> bool"
  assumes op_ok: "ok i x k \<Longrightarrow> op i x k x' k' \<Longrightarrow> ok i x' k'"
    and op_calm: "ok i x k \<Longrightarrow> op i x k x' k' \<Longrightarrow> calm (links i) k k'"
    and ok_kernel: "ok i x k \<Longrightarrow> kernel_ok k \<and> current k \<noteq> None"
    and frame: "ok i x k \<Longrightarrow> kernel_ok k' \<Longrightarrow> current k' \<noteq> None \<Longrightarrow> undisturbed (LIpc i) k k' \<Longrightarrow> undisturbed (LSender i) k k' \<Longrightarrow> ok i x k'"
begin

text \<open>A store of such objects: a step of one keeps all; a quiet step of the rest of the kernel keeps all.\<close>

lemma store_op:
  assumes "\<forall>j x. st j = Some x \<longrightarrow> ok j x k" "st i = Some x" "op i x k x' k'"
  shows "\<forall>j y. (st(i \<mapsto> x')) j = Some y \<longrightarrow> ok j y k'"
proof (intro allI impI)
  fix j y
  assume a: "(st(i \<mapsto> x')) j = Some y"
  have o: "ok i x' k'" "calm (links i) k k'" using op_ok op_calm assms by blast+
  show "ok j y k'"
  proof (cases "j = i")
    case True
    with a o show ?thesis by simp
  next
    case False
    with a assms(1) have "ok j y k" by simp
    moreover have "undisturbed (LIpc j) k k'" "undisturbed (LSender j) k k'" using calmD [OF o(2)] False by simp_all
    ultimately show ?thesis using frame ok_kernel [OF o(1)] by blast
  qed
qed

lemma store_quiet:
  assumes "\<forall>j x. st j = Some x \<longrightarrow> ok j x k" "kernel_ok k'" "current k' \<noteq> None" "quiet k k'"
  shows "\<forall>j x. st j = Some x \<longrightarrow> ok j x k'"
proof (intro allI impI)
  fix j x
  assume "st j = Some x"
  with assms(1) have "ok j x k" by simp
  then show "ok j x k'"
    by (rule frame [OF _ assms(2,3) quiet_undisturbed [OF assms(4)] quiet_undisturbed [OF assms(4)]]) simp_all
qed

end

end
