(* ===== verification/System.thy ===== *)
theory System
  imports Undisturbed Ipc_Sem Ipc_Mutex Ipc_Event Ipc_Mq Mailbox
begin

text \<open>
  All objects of the kernel together. Each IPC object has its own histories and its own invariant in its theory, with
  the rest of the system as an arbitrary environment. Here the objects share one kernel: every step of one object, of the
  threads or of the tick interrupt is shown to leave the other objects undisturbed, so that all invariants hold at once in
  every reachable state.
\<close>

section \<open>Semaphores\<close>

text \<open>The steps of an object are the calls of its functions: those that may wait by the running thread, the others by interrupts too.\<close>

inductive sem_op :: "nat \<Rightarrow> rt_sem \<Rightarrow> kernel \<Rightarrow> rt_sem \<Rightarrow> kernel \<Rightarrow> bool" for i s k where
  sem_take: "runs t k \<Longrightarrow> sint time < 0x7fffffff \<Longrightarrow> rt_sem_take i time s k = Some (r, s', k') \<Longrightarrow> sem_op i s k s' k'"
| sem_release: "rt_sem_release i s k = Some (s', k') \<Longrightarrow> sem_op i s k s' k'"
| sem_reset: "rt_sem_control i cmd arg s k = Some (e, s', k') \<Longrightarrow> sem_op i s k s' k'"

lemma sem_calm:
  assumes "sem_op i s k s' k'"
  shows "calm {LIpc i} k k'"
  using assms
proof cases
  case (sem_take t time r)
  then consider "k' = k" | u where "ipc_block (LIpc i) u (sem_flag s) time (upd_thread u (\<lambda>th. th\<lparr>t_error := RT_EOK\<rparr>) k) = Some k'"
    by (auto simp: rt_sem_take_def Let_def bind_eq_Some_conv split: if_splits)
  then show ?thesis by cases (auto intro: quiet_calm quiet_calm_trans [OF quiet_error calm_block])
next
  case sem_release
  then have "k' = k \<or> rt_ipc_list_resume (LIpc i) k \<bind> rt_schedule = Some k'"
    by (auto simp: rt_sem_release_def bind_eq_Some_conv split: if_splits)
  then show ?thesis using quiet_calm quiet_wake by auto
next
  case (sem_reset cmd arg e)
  then consider "k' = k" | k1 where "rt_ipc_list_resume_all (LIpc i) k = Some k1" "rt_schedule k1 = Some k'"
    by (auto simp: rt_sem_control_def bind_eq_Some_conv Let_def split: if_splits)
  then show ?thesis by cases (auto intro: quiet_calm quiet_trans [OF quiet_resume_all quiet_schedule])
qed

text \<open>Emptying a waiting list and scheduling, as the reset commands do.\<close>

lemma reset_kernel:
  assumes ok: "kernel_ok k" "current k \<noteq> None" and w: "is_wait l"
    and k1: "rt_ipc_list_resume_all l k = Some k1" and k': "rt_schedule k1 = Some k'"
  shows "kernel_ok k' \<and> current k' \<noteq> None \<and> lists k' l = []"
proof -
  from resume_all_kernel [OF w ok(1)] k1 have r: "kernel_ok k1" "lists k1 l = []" "current k1 = current k" by auto
  have c1: "current k1 \<noteq> None" using r(3) ok(2) by simp
  obtain k2 where "rt_schedule k1 = Some k2" "kernel_ok k2" "current k2 \<noteq> None" by (rule schedule_kernel [OF r(1) c1])
  moreover have "lists k' l = []" using schedule_frame(8) [OF kernel_okD(1) [OF r(1)] k' is_wait_not_ready [OF w]] r(2) by simp
  ultimately show ?thesis using k' by simp
qed

lemma sem_op_ok:
  assumes ok: "sem_ok i s k" and o: "sem_op i s k s' k'"
  shows "sem_ok i s' k'"
  using o
proof cases
  case (sem_take t time r)
  from sem_run.take [OF sem_run.start [OF ok] _ _ _ sem_take(2,3)] sem_take(1) sem_run_inv show ?thesis by (fastforce simp: runs_def)
next
  case sem_release
  then show ?thesis
  proof (cases "lists k (LIpc i)")
    case Nil
    with sem_release ok show ?thesis by (auto simp: rt_sem_release_def sem_ok_def)
  next
    case (Cons t ts)
    obtain k1 where "rt_sem_release i s k = Some (s, k1)" "sem_ok i s k1" by (rule sem_release_handover [OF ok Cons])
    with sem_release show ?thesis by simp
  qed
next
  case (sem_reset cmd arg e)
  have kk: "kernel_ok k" "current k \<noteq> None" using ok by (simp_all add: sem_ok_def)
  from sem_reset consider "s' = s" "k' = k"
    | k1 where "rt_ipc_list_resume_all (LIpc i) k = Some k1" "rt_schedule k1 = Some k'" "sem_flag s' = sem_flag s"
    by (auto simp: rt_sem_control_def bind_eq_Some_conv Let_def split: if_splits)
  then show ?thesis
  proof cases
    case 2
    from reset_kernel [OF kk _ 2(1,2)] 2(3) ok show ?thesis by (simp add: sem_ok_def)
  qed (use ok in simp)
qed

text \<open>Semaphores, mutexes and events have no list of senders.\<close>

abbreviation sem_obj :: "nat \<Rightarrow> rt_sem \<Rightarrow> kernel \<Rightarrow> bool" where
  "sem_obj i s k \<equiv> sem_ok i s k \<and> lists k (LSender i) = []"

lemma no_senders: "calm {LIpc i} k k' \<Longrightarrow> lists k (LSender i) = [] \<Longrightarrow> lists k' (LSender i) = []"
  by (rule undisturbed_empty [OF calmD]) auto

lemma own_calm: "calm {LIpc i} k k' \<Longrightarrow> calm (links i) k k'"
  by (rule calm_mono) auto

interpretation sems: ipc_object sem_obj sem_op
proof
  show "sem_obj i x' k'" if "sem_obj i x k" "sem_op i x k x' k'" for i x k x' k'
    using that(1) sem_op_ok [OF _ that(2)] no_senders [OF sem_calm [OF that(2)]] by simp
  show "calm (links i) k k'" if "sem_obj i x k" "sem_op i x k x' k'" for i x k x' k'
    by (rule own_calm [OF sem_calm [OF that(2)]])
  show "kernel_ok k \<and> current k \<noteq> None" if "sem_obj i x k" for i x k
    using that by (simp add: sem_ok_def)
  show "sem_obj i x k'" if "sem_obj i x k" "kernel_ok k'" "current k' \<noteq> None" "undisturbed (LIpc i) k k'" "undisturbed (LSender i) k k'"
    for i x k k'
    using that undisturbed_empty by (auto simp: sem_ok_def)
qed

section \<open>Mutexes\<close>

inductive mutex_op :: "nat \<Rightarrow> rt_mutex \<Rightarrow> kernel \<Rightarrow> rt_mutex \<Rightarrow> kernel \<Rightarrow> bool" for i m k where
  mutex_take: "runs t k \<Longrightarrow> sint time < 0x7fffffff \<Longrightarrow> mx_hold m < 0xff \<Longrightarrow> rt_mutex_take i time m k = Some (r, m', k') \<Longrightarrow>
    mutex_op i m k m' k'"
| mutex_release: "runs t k \<Longrightarrow> rt_mutex_release i m k = Some (e, m', k') \<Longrightarrow> mutex_op i m k m' k'"

lemma quiet_lend:
  assumes "(if b then rt_thread_control t (CTRL_CHANGE_PRIORITY p) k else Some k) = Some k'"
  shows "quiet k k'"
  using assms quiet_priority by (auto split: if_splits)

lemma mutex_again_calm:
  assumes "mutex_again i time t m k = Some (r, m', k')"
  shows "calm {LIpc i} k k'"
proof -
  consider "0 < mx_value m" | "\<not> 0 < mx_value m" "time = 0" | "\<not> 0 < mx_value m" "time \<noteq> 0" by blast
  then show ?thesis
  proof cases
    case 3
    with assms obtain w k1 where w: "(if current_priority (threads k t) < current_priority (threads k w)
        then rt_thread_control w (CTRL_CHANGE_PRIORITY (current_priority (threads k t))) k else Some k) = Some k1"
      "ipc_block (LIpc i) t (mx_flag m) time k1 = Some k'"
      unfolding mutex_again_def if_not_P [OF 3(1)] if_not_P [OF 3(2)] bind_eq_Some_conv by blast
    show ?thesis by (rule quiet_calm_trans [OF quiet_lend [OF w(1)] calm_block [OF w(2)]]) simp
  qed (use assms in \<open>auto simp: mutex_again_def intro: quiet_calm quiet_error\<close>)
qed

lemma mutex_release_quiet:
  assumes "rt_mutex_release i m k = Some (e, m', k')"
  shows "quiet k k'"
proof -
  from assms obtain u where u: "rt_thread_self k = Some u" by (auto simp: rt_mutex_release_def bind_eq_Some_conv)
  consider "mx_owner m \<noteq> Some u" | "mx_owner m = Some u" "mx_hold m - 1 \<noteq> 0" | "mx_owner m = Some u" "mx_hold m - 1 = 0" by blast
  then show ?thesis
  proof cases
    case 3
    have "\<exists>k1. quiet k k1 \<and> (k' = k1 \<or> rt_ipc_list_resume (LIpc i) k1 \<bind> rt_schedule = Some k')"
    proof (cases "mx_original_priority m = current_priority (threads k u)")
      case True
      with assms u 3 have "k' = k \<or> rt_ipc_list_resume (LIpc i) k \<bind> rt_schedule = Some k'"
        by (auto simp: rt_mutex_release_def bind_eq_Some_conv Let_def split: list.splits)
      then show ?thesis using quiet_refl by blast
    next
      case False
      with assms u 3 obtain k1 where k1: "rt_thread_control u (CTRL_CHANGE_PRIORITY (mx_original_priority m)) k = Some k1"
        by (auto simp: rt_mutex_release_def bind_eq_Some_conv Let_def)
      with False assms u 3 have "k' = k1 \<or> rt_ipc_list_resume (LIpc i) k1 \<bind> rt_schedule = Some k'"
        by (auto simp: rt_mutex_release_def bind_eq_Some_conv Let_def split: list.splits)
      with quiet_priority [OF k1] show ?thesis by blast
    qed
    then obtain k1 where k1: "quiet k k1" and "k' = k1 \<or> rt_ipc_list_resume (LIpc i) k1 \<bind> rt_schedule = Some k'" by blast
    from this(2) show ?thesis
    proof
      assume "k' = k1"
      with k1 show ?thesis by simp
    next
      assume "rt_ipc_list_resume (LIpc i) k1 \<bind> rt_schedule = Some k'"
      from quiet_trans [OF k1 quiet_wake [OF this]] show ?thesis .
    qed
  qed (use assms u in \<open>auto simp: rt_mutex_release_def bind_eq_Some_conv Let_def intro: quiet_error\<close>)
qed

lemma mutex_calm:
  assumes "mutex_op i m k m' k'"
  shows "calm {LIpc i} k k'"
  using assms
proof cases
  case (mutex_take t time r)
  then obtain u where "k' = upd_thread u (\<lambda>th. th\<lparr>t_error := RT_EOK\<rparr>) k
      \<or> mutex_again i time u m (upd_thread u (\<lambda>th. th\<lparr>t_error := RT_EOK\<rparr>) k) = Some (r, m', k')"
    by (auto simp: rt_mutex_take_def Let_def bind_eq_Some_conv split: if_splits)
  then show ?thesis using quiet_calm [OF quiet_error] quiet_calm_trans [OF quiet_error mutex_again_calm] by metis
next
  case (mutex_release t e)
  then show ?thesis by (intro quiet_calm mutex_release_quiet)
qed

abbreviation mutex_obj :: "nat \<Rightarrow> rt_mutex \<Rightarrow> kernel \<Rightarrow> bool" where
  "mutex_obj i m k \<equiv> mutex_ok i m k \<and> owner_not_waiting i m k \<and> lists k (LSender i) = []"

lemma mutex_op_ok:
  assumes "mutex_ok i m k" "owner_not_waiting i m k" "mutex_op i m k m' k'"
  shows "mutex_ok i m' k' \<and> owner_not_waiting i m' k'"
  using assms(3)
proof cases
  case (mutex_take t time r)
  then show ?thesis using mutex_take_inv [OF assms(1,2) _ _ _ mutex_take(2-4)] by (simp add: runs_def)
next
  case (mutex_release t e)
  then show ?thesis using mutex_release_inv [OF assms(1,2) _ _ mutex_release(2) refl] by (simp add: runs_def)
qed

interpretation mutexes: ipc_object mutex_obj mutex_op
proof
  show "mutex_obj i x' k'" if "mutex_obj i x k" "mutex_op i x k x' k'" for i x k x' k'
    using that(1) mutex_op_ok [OF _ _ that(2)] no_senders [OF mutex_calm [OF that(2)]] by simp
  show "calm (links i) k k'" if "mutex_obj i x k" "mutex_op i x k x' k'" for i x k x' k'
    by (rule own_calm [OF mutex_calm [OF that(2)]])
  show "kernel_ok k \<and> current k \<noteq> None" if "mutex_obj i x k" for i x k
    using that by (simp add: mutex_ok_def)
  show "mutex_obj i x k'" if "mutex_obj i x k" "kernel_ok k'" "current k' \<noteq> None" "undisturbed (LIpc i) k k'" "undisturbed (LSender i) k k'"
    for i x k k'
    using that undisturbed_empty [OF that(4)] undisturbed_empty [OF that(5)]
    by (cases "mx_owner x") (auto simp: mutex_ok_def owner_not_waiting_def undisturbed_def)
qed

section \<open>Events\<close>

inductive event_op :: "nat \<Rightarrow> rt_event \<Rightarrow> kernel \<Rightarrow> rt_event \<Rightarrow> kernel \<Rightarrow> bool" for i ev k where
  event_send: "rt_event_send i s ev k = Some (e, ev', k') \<Longrightarrow> event_op i ev k ev' k'"
| event_recv: "runs t k \<Longrightarrow> sint timeout < 0x7fffffff \<Longrightarrow> rt_event_recv i s opt timeout ev k = Some (r, ev', k') \<Longrightarrow> event_op i ev k ev' k'"
| event_reset: "rt_event_control i cmd ev k = Some (e, ev', k') \<Longrightarrow> event_op i ev k ev' k'"

text \<open>The scan changes only threads that wait for the event.\<close>

lemma scan_lists: "is_wait l \<Longrightarrow> event_scan ts ev k need = (ev', k', need') \<Longrightarrow> set (lists k' l) \<subseteq> set (lists k l)"
proof (induction ts arbitrary: ev k need)
  case (Cons t ts)
  have q: "set (lists (snd (rt_thread_resume t k1)) l) \<subseteq> set (lists k1 l)" for k1
    using quiet_resume [of k1 t] Cons.prems(1) by (simp add: quiet_def)
  show ?case
  proof (cases "event_status (event_info (threads k t)) (event_set (threads k t)) (ev_set ev)")
    case False
    with Cons show ?thesis by simp
  next
    case True
    let ?k1 = "if event_info (threads k t) AND RT_EVENT_FLAG_AND = 0
      then upd_thread t (\<lambda>th. th\<lparr>event_set := event_set th AND ev_set ev\<rparr>) k else k"
    have "\<exists>ev1. event_scan ts ev1 (snd (rt_thread_resume t ?k1)) True = (ev', k', need')"
      using Cons.prems(2) True unfolding event_scan.simps if_P [OF True] Let_def by blast
    from this Cons.IH [OF Cons.prems(1)] have "set (lists k' l) \<subseteq> set (lists (snd (rt_thread_resume t ?k1)) l)" by blast
    also have "\<dots> \<subseteq> set (lists ?k1 l)" by (rule q)
    also have "lists ?k1 l = lists k l" by simp
    finally show ?thesis .
  qed
qed simp

lemma scan_calm:
  assumes ok: "kernel_ok k" and r: "event_scan (lists k (LIpc i)) ev k need = (ev', k', need')"
  shows "calm {LIpc i} k k'"
  unfolding calm_def undisturbed_def
proof (intro allI impI conjI ballI)
  fix l
  assume l: "is_wait l" "l \<notin> {LIpc i}"
  show sub: "set (lists k' l) \<subseteq> set (lists k l)" by (rule scan_lists [OF l(1) r])
  fix t
  assume t: "t \<in> set (lists k' l)"
  have d: "distinct (lists k (LIpc i))" using base_okD(1) [OF kernel_okD(4) [OF ok]] by (simp add: lists_ok_def)
  have "t \<notin> set (lists k (LIpc i))" using waiting_once [OF ok, of t l "LIpc i"] sub t l(2) by auto
  then have "t \<notin> set (fst (scan_spec k (lists k (LIpc i)) (ev_set ev)))" using scan_spec_wanted by blast
  with event_scan_kernel [OF ok d subset_refl, of ev need] r have e: "threads k' t = threads k t" by auto
  show "event_set (threads k' t) = event_set (threads k t)" "event_info (threads k' t) = event_info (threads k t)"
    by (simp_all add: e)
qed

lemma event_calm:
  assumes ok: "event_ok i ev k" and o: "event_op i ev k ev' k'"
  shows "calm {LIpc i} k k'"
  using o
proof cases
  case (event_send s e)
  have kk: "kernel_ok k" using ok by (simp add: event_ok_def)
  from event_send consider "k' = k"
    | ev1 k1 n where "event_scan (lists k (LIpc i)) (ev\<lparr>ev_set := ev_set ev OR s\<rparr>) k False = (ev1, k1, n)" "k' = k1 \<or> rt_schedule k1 = Some k'"
    by (auto simp: rt_event_send_def Let_def bind_eq_Some_conv split: if_splits prod.splits)
  then show ?thesis
  proof cases
    case (2 ev1 k1 n)
    from 2(2) show ?thesis using scan_calm [OF kk 2(1)] calm_quiet [OF scan_calm [OF kk 2(1)] quiet_schedule] by auto
  qed (simp add: quiet_calm)
next
  case (event_recv t timeout s opt r)
  let ?a = "upd_thread t (\<lambda>th. th\<lparr>t_error := RT_EOK\<rparr>) k"
  let ?b = "upd_thread t (\<lambda>th. th\<lparr>event_set := s, event_info := opt\<rparr>) ?a"
  have self: "rt_thread_self k = Some t" and run: "stat_of (threads ?a t) = RT_THREAD_RUNNING"
    using event_recv(1) by (simp_all add: runs_def rt_thread_self_def stat_of_def)
  have ka: "kernel_ok ?a" using ok by (intro upd_data_kernel) (simp_all add: event_ok_def stat_of_def)
  from event_recv(3) self consider "k' = k" | "k' = ?a" | "k' = upd_thread t (\<lambda>th. th\<lparr>t_error := - RT_ETIMEOUT\<rparr>) ?a"
    | "ipc_block (LIpc i) t (ev_flag ev) timeout ?b = Some k'"
    by (auto simp: rt_event_recv_def Let_def bind_eq_Some_conv split: if_splits)
  then show ?thesis
  proof cases
    case 4
    show ?thesis by (rule calm_trans [OF quiet_calm_trans [OF quiet_error calm_running [OF ka run]] calm_block [OF 4]]) simp
  next
    case 3
    from quiet_calm [OF quiet_trans [OF quiet_error quiet_error]] show ?thesis unfolding 3 .
  qed (auto intro: quiet_calm quiet_error)
next
  case (event_reset cmd e)
  then consider "k' = k" | k1 where "rt_ipc_list_resume_all (LIpc i) k = Some k1" "rt_schedule k1 = Some k'"
    by (auto simp: rt_event_control_def bind_eq_Some_conv Let_def split: if_splits)
  then show ?thesis by cases (auto intro: quiet_calm quiet_trans [OF quiet_resume_all quiet_schedule])
qed

lemma event_upd_ok: "event_ok i ev k \<Longrightarrow> event_ok i ev (upd_thread t (\<lambda>th. th\<lparr>t_error := e\<rparr>) k)"
  using upd_data_kernel [of k "\<lambda>th. th\<lparr>t_error := e\<rparr>" t] by (simp add: event_ok_def stat_of_def wants_def)

text \<open>Taking flags away satisfies no waiting thread.\<close>

lemma event_clear_ok: "event_ok i ev k \<Longrightarrow> event_ok i (ev\<lparr>ev_set := ev_set ev AND m\<rparr>) k"
  using status_antimono by (fastforce simp: event_ok_def wants_def)

lemma event_op_ok:
  assumes ok: "event_ok i ev k" and o: "event_op i ev k ev' k'"
  shows "event_ok i ev' k'"
  using o
proof cases
  case (event_send s e)
  show ?thesis
  proof (cases "s = 0")
    case True
    with event_send ok show ?thesis by (simp add: rt_event_send_def)
  next
    case False
    obtain k1 where "rt_event_send i s ev k = Some (RT_EOK, ev\<lparr>ev_set := snd (scan_spec k (lists k (LIpc i)) (ev_set ev OR s))\<rparr>, k1)"
      "event_ok i (ev\<lparr>ev_set := snd (scan_spec k (lists k (LIpc i)) (ev_set ev OR s))\<rparr>) k1" by (rule event_send_ok [OF ok False])
    with event_send show ?thesis by simp
  qed
next
  case (event_recv t timeout s opt r)
  have c: "current k = Some t" "stat_of (threads k t) = RT_THREAD_RUNNING" "irq_nest k = 0" using event_recv(1) by (simp_all add: runs_def)
  have self: "rt_thread_self k = Some t" using c by (simp add: rt_thread_self_def)
  show ?thesis
  proof (cases "s \<noteq> 0 \<and> \<not> event_status opt s (ev_set ev) \<and> timeout \<noteq> 0")
    case True
    then have "opt AND RT_EVENT_FLAG_AND \<noteq> 0 \<or> opt AND RT_EVENT_FLAG_OR \<noteq> 0"
      using event_recv(3) self by (auto simp: rt_event_recv_def RT_ASSERT_def Let_def bind_eq_Some_conv split: if_splits)
    then obtain k1 where "rt_event_recv i s opt timeout ev k = Some (Waiting t, ev, k1)" "event_ok i ev k1"
      using event_recv_block [OF ok c _ _ _ _ event_recv(2), of opt s] True by blast
    with event_recv(3) show ?thesis by simp
  next
    case False
    let ?a = "upd_thread t (\<lambda>th. th\<lparr>t_error := RT_EOK\<rparr>) k"
    from False event_recv(3) self consider "ev' = ev" "k' = k" | "ev' = ev" "k' = ?a" | m where "ev' = ev\<lparr>ev_set := ev_set ev AND m\<rparr>" "k' = ?a"
      | "ev' = ev" "k' = upd_thread t (\<lambda>th. th\<lparr>t_error := - RT_ETIMEOUT\<rparr>) ?a"
      by (auto simp: rt_event_recv_def Let_def bind_eq_Some_conv split: if_splits)
    then show ?thesis
      by cases (simp_all only: ok event_upd_ok [OF ok] event_upd_ok [OF event_upd_ok [OF ok]] event_clear_ok [OF event_upd_ok [OF ok]])
  qed
next
  case (event_reset cmd e)
  have kk: "kernel_ok k" "current k \<noteq> None" using ok by (simp_all add: event_ok_def)
  from event_reset consider "ev' = ev" "k' = k"
    | k1 where "rt_ipc_list_resume_all (LIpc i) k = Some k1" "rt_schedule k1 = Some k'" "ev_flag ev' = ev_flag ev"
    by (auto simp: rt_event_control_def bind_eq_Some_conv Let_def split: if_splits)
  then show ?thesis
  proof cases
    case 2
    from reset_kernel [OF kk _ 2(1,2)] 2(3) ok show ?thesis by (simp add: event_ok_def)
  qed (use ok in simp)
qed

abbreviation event_obj :: "nat \<Rightarrow> rt_event \<Rightarrow> kernel \<Rightarrow> bool" where
  "event_obj i ev k \<equiv> event_ok i ev k \<and> lists k (LSender i) = []"

interpretation events: ipc_object event_obj event_op
proof
  show "event_obj i x' k'" if "event_obj i x k" "event_op i x k x' k'" for i x k x' k'
    using that(1) event_op_ok [OF _ that(2)] no_senders [OF event_calm [OF _ that(2)]] by simp
  show "calm (links i) k k'" if "event_obj i x k" "event_op i x k x' k'" for i x k x' k'
    using own_calm [OF event_calm [OF _ that(2)]] that(1) by simp
  show "kernel_ok k \<and> current k \<noteq> None" if "event_obj i x k" for i x k
    using that by (simp add: event_ok_def)
  show "event_obj i x k'" if "event_obj i x k" "kernel_ok k'" "current k' \<noteq> None" "undisturbed (LIpc i) k k'" "undisturbed (LSender i) k k'"
    for i x k k'
    using that undisturbed_empty [OF that(5)] by (auto simp: event_ok_def undisturbed_def wants_def)
qed

section \<open>Mailboxes\<close>

inductive mbox_op :: "nat \<Rightarrow> rt_mailbox \<Rightarrow> kernel \<Rightarrow> rt_mailbox \<Rightarrow> kernel \<Rightarrow> bool" for i mb k where
  mb_send: "rt_mb_send i v mb k = Some (r, mb', k') \<Longrightarrow> mbox_op i mb k mb' k'"
| mb_send_wait: "runs t k \<Longrightarrow> sint timeout < 0x7fffffff \<Longrightarrow> rt_mb_send_wait i v timeout mb k = Some (r, mb', k') \<Longrightarrow> mbox_op i mb k mb' k'"
| mb_send_resume: "runs t k \<Longrightarrow> sint timeout < 0x7fffffff \<Longrightarrow> uint (rt_tick k - start) < 0x80000000 \<Longrightarrow>
    rt_mb_send_resume i v timeout start t mb k = Some (r, mb', k') \<Longrightarrow> mbox_op i mb k mb' k'"
| mb_recv: "runs t k \<Longrightarrow> sint timeout < 0x7fffffff \<Longrightarrow> rt_mb_recv i timeout mb k = Some (r', mb', k') \<Longrightarrow> mbox_op i mb k mb' k'"
| mb_recv_resume: "runs t k \<Longrightarrow> sint timeout < 0x7fffffff \<Longrightarrow> uint (rt_tick k - start) < 0x80000000 \<Longrightarrow>
    rt_mb_recv_resume i timeout start t mb k = Some (r', mb', k') \<Longrightarrow> mbox_op i mb k mb' k'"
| mb_reset: "rt_mb_control i cmd mb k = Some (e, mb', k') \<Longrightarrow> mbox_op i mb k mb' k'"

lemma quiet_wake_if:
  assumes "(if lists k l \<noteq> [] then rt_ipc_list_resume l k \<bind> rt_schedule else Some k) = Some k'"
  shows "quiet k k'"
  using assms quiet_wake by (auto split: if_splits)

lemma deliver_quiet: "mb_deliver i v mb k = Some (r, mb', k') \<Longrightarrow> quiet k k'"
  unfolding deliver_eq map_option_eq_Some by (blast intro: quiet_wake_if)

lemma fetch_quiet: "mb_fetch i mb k = Some (r, mb', k') \<Longrightarrow> quiet k k'"
  unfolding fetch_eq map_option_eq_Some by (blast intro: quiet_wake_if)

text \<open>A thread that waits, after its error code was cleared.\<close>

lemma calm_wait:
  assumes "ipc_block l t flag timeout (upd_thread t (\<lambda>th. th\<lparr>t_error := e\<rparr>) k) = Some k'" "l \<in> L"
  shows "calm L k k'"
  by (rule quiet_calm_trans [OF quiet_error calm_block [OF assms]])

lemma mb_send_loop_calm:
  assumes "mb_send_loop i v timeout self mb k = Some (r, mb', k')"
  shows "calm (links i) k k'"
proof -
  from assms consider "mb_deliver i v mb k = Some (r, mb', k')" | t where "k' = upd_thread t (\<lambda>th. th\<lparr>t_error := RT_EOK\<rparr>) k"
    | t where "ipc_block (LSender i) t (mb_flag mb) timeout (upd_thread t (\<lambda>th. th\<lparr>t_error := RT_EOK\<rparr>) k) = Some k'"
    by (auto simp: mb_send_loop_def Let_def bind_eq_Some_conv split: if_splits)
  then show ?thesis
  proof cases
    case 1
    from quiet_calm [OF deliver_quiet [OF 1]] show ?thesis .
  next
    case 2
    from quiet_calm [OF quiet_error] show ?thesis unfolding 2 .
  next
    case 3
    show ?thesis by (rule calm_wait [OF 3]) simp
  qed
qed

lemma mb_recv_loop_calm:
  assumes "mb_recv_loop i timeout self mb k = Some (r, mb', k')"
  shows "calm (links i) k k'"
proof -
  from assms consider "mb_fetch i mb k = Some (r, mb', k')"
    | t where "k' = upd_thread t (\<lambda>th. th\<lparr>t_error := - RT_ETIMEOUT\<rparr>) (upd_thread t (\<lambda>th. th\<lparr>t_error := RT_EOK\<rparr>) k)"
    | t where "ipc_block (LIpc i) t (mb_flag mb) timeout (upd_thread t (\<lambda>th. th\<lparr>t_error := RT_EOK\<rparr>) k) = Some k'"
    by (auto simp: mb_recv_loop_def Let_def bind_eq_Some_conv split: if_splits)
  then show ?thesis
  proof cases
    case 1
    from quiet_calm [OF fetch_quiet [OF 1]] show ?thesis .
  next
    case 2
    from quiet_calm [OF quiet_trans [OF quiet_error quiet_error]] show ?thesis unfolding 2 .
  next
    case 3
    show ?thesis by (rule calm_wait [OF 3]) simp
  qed
qed

lemma reset_both_quiet:
  assumes "rt_ipc_list_resume_all l k = Some k1" "rt_ipc_list_resume_all l' k1 = Some k2" "rt_schedule k2 = Some k'"
  shows "quiet k k'"
  by (rule quiet_trans [OF quiet_trans [OF quiet_resume_all [OF assms(1)] quiet_resume_all [OF assms(2)]] quiet_schedule [OF assms(3)]])

lemma mbox_calm:
  assumes "mbox_op i mb k mb' k'"
  shows "calm (links i) k k'"
  using assms
proof cases
  case (mb_reset cmd e)
  then have "quiet k k'" by (auto simp: rt_mb_control_def bind_eq_Some_conv Let_def intro: reset_both_quiet split: if_splits)
  then show ?thesis by (rule quiet_calm)
qed (auto simp: rt_mb_send_def rt_mb_send_wait_def rt_mb_send_resume_def rt_mb_recv_def rt_mb_recv_resume_def
    intro: quiet_calm mb_send_loop_calm mb_recv_loop_calm split: if_splits)

text \<open>Emptying both lists and scheduling.\<close>

lemma reset_both_kernel:
  assumes ok: "kernel_ok k" "current k \<noteq> None"
    and k1: "rt_ipc_list_resume_all (LIpc i) k = Some k1" and k2: "rt_ipc_list_resume_all (LSender i) k1 = Some k2"
    and k': "rt_schedule k2 = Some k'"
  shows "kernel_ok k' \<and> current k' \<noteq> None"
proof -
  from resume_all_kernel [OF _ ok(1), of "LIpc i"] k1 have r: "kernel_ok k1" "current k1 = current k" by auto
  with reset_kernel [OF r(1) _ _ k2 k'] ok(2) show ?thesis by simp
qed

lemma mbox_op_ok:
  assumes ok: "mbox_ok i mb k" and o: "mbox_op i mb k mb' k'"
  shows "mbox_ok i mb' k'"
  using o
proof cases
  case (mb_send v r)
  show ?thesis
  proof (cases "mb_entry mb = mb_size mb")
    case True
    with mb_send ok show ?thesis by (simp add: rt_mb_send_def rt_mb_send_wait_def)
  next
    case False
    with mb_send deliver_ok [OF ok False, of v] show ?thesis by (auto simp: rt_mb_send_def rt_mb_send_wait_def mb_send_loop_def)
  qed
next
  case (mb_send_wait t timeout v r)
  with send_wait_ok [OF ok mb_send_wait(1,2), of v] show ?thesis by auto
next
  case (mb_send_resume t timeout start v r)
  with send_resume_ok [OF ok mb_send_resume(1,2,3), of v] show ?thesis by auto
next
  case (mb_recv t timeout r')
  with recv_ok [OF ok mb_recv(1,2)] show ?thesis by auto
next
  case (mb_recv_resume t timeout start r')
  with recv_resume_ok [OF ok mb_recv_resume(1,2,3)] show ?thesis by auto
next
  case (mb_reset cmd e)
  have kk: "kernel_ok k" "current k \<noteq> None" using ok by (simp_all add: mbox_ok_def)
  from mb_reset consider "mb' = mb" "k' = k"
    | k1 k2 where "rt_ipc_list_resume_all (LIpc i) k = Some k1" "rt_ipc_list_resume_all (LSender i) k1 = Some k2" "rt_schedule k2 = Some k'"
      "mb' = mb\<lparr>mb_entry := 0, mb_in := 0, mb_out := 0\<rparr>"
    by (auto simp: rt_mb_control_def bind_eq_Some_conv Let_def split: if_splits)
  then show ?thesis
  proof cases
    case (2 k1 k2)
    have "mb_inv mb'" using ok 2(4) by (simp add: mbox_ok_def mb_inv_def ring_at_def)
    with reset_both_kernel [OF kk 2(1-3)] 2(4) ok show ?thesis by (simp add: mbox_ok_def)
  qed (use ok in simp)
qed

interpretation mboxes: ipc_object mbox_ok mbox_op
proof
  show "mbox_ok i x' k'" if "mbox_ok i x k" "mbox_op i x k x' k'" for i x k x' k'
    by (rule mbox_op_ok [OF that])
  show "calm (links i) k k'" if "mbox_ok i x k" "mbox_op i x k x' k'" for i x k x' k'
    by (rule mbox_calm [OF that(2)])
qed (simp_all add: mbox_ok_def)

section \<open>Message queues\<close>

inductive mqueue_op :: "nat \<Rightarrow> rt_messagequeue \<Rightarrow> kernel \<Rightarrow> rt_messagequeue \<Rightarrow> kernel \<Rightarrow> bool" for i mq k where
  mq_send: "rt_mq_send i buf mq k = Some (r, mq', k') \<Longrightarrow> mqueue_op i mq k mq' k'"
| mq_send_wait: "runs t k \<Longrightarrow> sint timeout < 0x7fffffff \<Longrightarrow> rt_mq_send_wait i buf timeout mq k = Some (r, mq', k') \<Longrightarrow> mqueue_op i mq k mq' k'"
| mq_send_resume: "runs t k \<Longrightarrow> sint timeout < 0x7fffffff \<Longrightarrow> uint (rt_tick k - start) < 0x80000000 \<Longrightarrow> length buf \<le> mq_slot mq \<Longrightarrow>
    rt_mq_send_resume i buf timeout start t mq k = Some (r, mq', k') \<Longrightarrow> mqueue_op i mq k mq' k'"
| mq_urgent: "rt_mq_urgent i buf mq k = Some (e, mq', k') \<Longrightarrow> mqueue_op i mq k mq' k'"
| mq_recv: "runs t k \<Longrightarrow> sint timeout < 0x7fffffff \<Longrightarrow> mq_slot mq \<le> sz \<Longrightarrow> rt_mq_recv i sz timeout mq k = Some (r', mq', k') \<Longrightarrow>
    mqueue_op i mq k mq' k'"
| mq_recv_resume: "runs t k \<Longrightarrow> sint timeout < 0x7fffffff \<Longrightarrow> uint (rt_tick k - start) < 0x80000000 \<Longrightarrow> mq_slot mq \<le> sz \<Longrightarrow>
    rt_mq_recv_resume i sz timeout start t mq k = Some (r', mq', k') \<Longrightarrow> mqueue_op i mq k mq' k'"
| mq_reset: "rt_mq_control i cmd mq k = Some (e, mq', k') \<Longrightarrow> mqueue_op i mq k mq' k'"

lemma mq_wake_quiet: "mq_wake l k = Some k' \<Longrightarrow> quiet k k'"
  by (rule quiet_wake_if) (simp add: mq_wake_def cong: if_cong)

lemma mq_send_loop_calm:
  assumes "mq_send_loop i buf timeout self mq k = Some (r, mq', k')"
  shows "calm (links i) k k'"
proof -
  from assms consider "mq_wake (LIpc i) k = Some k'" | t where "k' = upd_thread t (\<lambda>th. th\<lparr>t_error := RT_EOK\<rparr>) k"
    | t where "ipc_block (LSender i) t (mq_flag mq) timeout (upd_thread t (\<lambda>th. th\<lparr>t_error := RT_EOK\<rparr>) k) = Some k'"
    by (auto simp: mq_send_loop_def Let_def bind_eq_Some_conv split: if_splits option.splits)
  then show ?thesis
  proof cases
    case 1
    from quiet_calm [OF mq_wake_quiet [OF 1]] show ?thesis .
  next
    case 2
    from quiet_calm [OF quiet_error] show ?thesis unfolding 2 .
  next
    case 3
    show ?thesis by (rule calm_wait [OF 3]) simp
  qed
qed

lemma mq_recv_loop_calm:
  assumes "mq_recv_loop i sz timeout self mq k = Some (r, mq', k')"
  shows "calm (links i) k k'"
proof -
  from assms consider "mq_wake (LSender i) k = Some k'"
    | t where "k' = upd_thread t (\<lambda>th. th\<lparr>t_error := - RT_ETIMEOUT\<rparr>) (upd_thread t (\<lambda>th. th\<lparr>t_error := RT_EOK\<rparr>) k)"
    | t where "ipc_block (LIpc i) t (mq_flag mq) timeout (upd_thread t (\<lambda>th. th\<lparr>t_error := RT_EOK\<rparr>) k) = Some k'"
    by (auto simp: mq_recv_loop_def Let_def bind_eq_Some_conv split: if_splits)
  then show ?thesis
  proof cases
    case 1
    from quiet_calm [OF mq_wake_quiet [OF 1]] show ?thesis .
  next
    case 2
    from quiet_calm [OF quiet_trans [OF quiet_error quiet_error]] show ?thesis unfolding 2 .
  next
    case 3
    show ?thesis by (rule calm_wait [OF 3]) simp
  qed
qed

lemma mqueue_calm:
  assumes "mqueue_op i mq k mq' k'"
  shows "calm (links i) k k'"
  using assms
proof cases
  case (mq_reset cmd e)
  then have "quiet k k'" by (auto simp: rt_mq_control_def bind_eq_Some_conv Let_def intro: reset_both_quiet split: if_splits)
  then show ?thesis by (rule quiet_calm)
next
  case (mq_urgent buf e)
  then have "quiet k k'"
    by (auto simp: rt_mq_urgent_def bind_eq_Some_conv Let_def intro: mq_wake_quiet split: if_splits option.splits)
  then show ?thesis by (rule quiet_calm)
qed (auto simp: rt_mq_send_def rt_mq_send_wait_def rt_mq_send_resume_def rt_mq_recv_def rt_mq_recv_resume_def bind_eq_Some_conv
    intro: quiet_calm mq_send_loop_calm mq_recv_loop_calm split: if_splits)

text \<open>A send that does not wait needs no running thread.\<close>

lemma mq_send_ok:
  assumes ok: "mqueue_ok mq k" and s: "rt_mq_send i buf mq k = Some (r, mq', k')"
  shows "mqueue_ok mq' k'"
proof -
  have ne: "buf \<noteq> []" using s by (auto simp: rt_mq_send_def rt_mq_send_wait_def RT_ASSERT_def split: if_splits)
  have inv: "mq_inv [] (mq_store mq)" using ok by (simp add: mqueue_ok_def)
  show ?thesis
  proof (cases "mq_slot mq < length buf \<or> mq_free (mq_store mq) = None")
    case True
    with s ne have "mq' = mq \<and> k' = k" by (auto simp: rt_mq_send_def rt_mq_send_wait_def RT_ASSERT_def split: if_splits)
    with ok show ?thesis by simp
  next
    case False
    then have l: "length buf \<le> mq_slot mq" by simp
    from False obtain m q1 where f: "mq_take_free (mq_store mq) = Some (m, q1)" using take_free_none [of "mq_store mq"] by force
    obtain k1 where "mq_wake (LIpc i) k = Some k1" "kernel_ok k1" "current k1 \<noteq> None" using mq_wake_ok [OF ok, of "LIpc i"] by auto
    with s ne l f False have "mq' = mq\<lparr>mq_store := mq_link m (mq_fill m buf q1)\<rparr>" "kernel_ok k'" "current k' \<noteq> None"
      by (auto simp: rt_mq_send_def rt_mq_send_wait_def RT_ASSERT_def mq_send_loop_def Let_def)
    with store_send [OF inv l f] ok show ?thesis by (auto simp: mqueue_ok_def)
  qed
qed

lemma mqueue_op_ok:
  assumes ok: "mqueue_ok mq k" and o: "mqueue_op i mq k mq' k'"
  shows "mqueue_ok mq' k'"
  using o
proof cases
  case (mq_send buf r)
  from mq_send_ok [OF ok mq_send] show ?thesis .
next
  case (mq_send_wait t timeout buf r)
  from send_wait_effect [OF ok mq_send_wait] show ?thesis by simp
next
  case (mq_send_resume t timeout start buf r)
  from send_resume_effect [OF ok mq_send_resume] show ?thesis by simp
next
  case (mq_urgent buf e)
  from urgent_effect [OF ok mq_urgent] show ?thesis by simp
next
  case (mq_recv t timeout sz r')
  from recv_mq_effect [OF ok mq_recv] show ?thesis by simp
next
  case (mq_recv_resume t timeout start sz r')
  from recv_resume_effect [OF ok mq_recv_resume] show ?thesis by simp
next
  case (mq_reset cmd e)
  from reset_effect [OF ok mq_reset] show ?thesis by simp
qed

interpretation mqueues: ipc_object "\<lambda>_. mqueue_ok" mqueue_op
proof
  show "mqueue_ok x' k'" if "mqueue_ok x k" "mqueue_op i x k x' k'" for i x k x' k'
    by (rule mqueue_op_ok [OF that])
  show "calm (links i) k k'" if "mqueue_ok x k" "mqueue_op i x k x' k'" for i x k x' k'
    by (rule mqueue_calm [OF that(2)])
qed (simp_all add: mqueue_ok_def)

end
