(* ===== verification/System_Run.thy ===== *)
theory System_Run
  imports System
begin

text \<open>
  The whole kernel at run time: threads, tick, scheduler and any number of IPC objects of all kinds, created and deleted as the
  program goes. The state is a kernel and a table of objects by number; the steps are the calls of the functions of the code. In
  every reachable state the kernel is consistent and the invariants of all objects hold.
\<close>

section \<open>Objects of all kinds\<close>

datatype kobj = OSem rt_sem | OMutex rt_mutex | OEvent rt_event | OMbox rt_mailbox | OMq rt_messagequeue

fun kobj_ok :: "nat \<Rightarrow> kobj \<Rightarrow> kernel \<Rightarrow> bool" where
  "kobj_ok i (OSem s) k \<longleftrightarrow> sem_obj i s k"
| "kobj_ok i (OMutex m) k \<longleftrightarrow> mutex_obj i m k"
| "kobj_ok i (OEvent ev) k \<longleftrightarrow> event_obj i ev k"
| "kobj_ok i (OMbox mb) k \<longleftrightarrow> mbox_ok i mb k"
| "kobj_ok i (OMq mq) k \<longleftrightarrow> mqueue_ok mq k"

inductive kobj_op :: "nat \<Rightarrow> kobj \<Rightarrow> kernel \<Rightarrow> kobj \<Rightarrow> kernel \<Rightarrow> bool" for i where
  on_sem: "sem_op i x k x' k' \<Longrightarrow> kobj_op i (OSem x) k (OSem x') k'"
| on_mutex: "mutex_op i y k y' k' \<Longrightarrow> kobj_op i (OMutex y) k (OMutex y') k'"
| on_event: "event_op i z k z' k' \<Longrightarrow> kobj_op i (OEvent z) k (OEvent z') k'"
| on_mbox: "mbox_op i v k v' k' \<Longrightarrow> kobj_op i (OMbox v) k (OMbox v') k'"
| on_mq: "mqueue_op i w k w' k' \<Longrightarrow> kobj_op i (OMq w) k (OMq w') k'"

interpretation kobjs: ipc_object kobj_ok kobj_op
proof
  fix i x k x' k'
  assume ok: "kobj_ok i x k" and o: "kobj_op i x k x' k'"
  show "kobj_ok i x' k'"
    using o
  proof cases
    case (on_sem x x')
    with sems.op_ok [of i x k x' k'] ok show ?thesis by simp
  next
    case (on_mutex y y')
    with mutexes.op_ok [of i y k y' k'] ok show ?thesis by simp
  next
    case (on_event z z')
    with events.op_ok [of i z k z' k'] ok show ?thesis by simp
  next
    case (on_mbox v v')
    with mboxes.op_ok [of i v k v' k'] ok show ?thesis by simp
  next
    case (on_mq w w')
    with mqueues.op_ok [of w k i w' k'] ok show ?thesis by simp
  qed
  show "calm (links i) k k'"
    using o
  proof cases
    case (on_sem x x')
    with sems.op_calm [of i x k x' k'] ok show ?thesis by simp
  next
    case (on_mutex y y')
    with mutexes.op_calm [of i y k y' k'] ok show ?thesis by simp
  next
    case (on_event z z')
    with events.op_calm [of i z k z' k'] ok show ?thesis by simp
  next
    case (on_mbox v v')
    with mboxes.op_calm [of i v k v' k'] ok show ?thesis by simp
  next
    case (on_mq w w')
    with mqueues.op_calm [of w k i w' k'] ok show ?thesis by simp
  qed
next
  fix i x k
  assume "kobj_ok i x k"
  then show "kernel_ok k \<and> current k \<noteq> None"
    by (cases x) (simp_all add: sem_ok_def mutex_ok_def event_ok_def mbox_ok_def mqueue_ok_def)
next
  fix i x k k'
  assume ok: "kobj_ok i x k" and e: "kernel_ok k'" "current k' \<noteq> None" "undisturbed (LIpc i) k k'" "undisturbed (LSender i) k k'"
  show "kobj_ok i x k'"
  proof (cases x)
    case (OSem y)
    with ok sems.frame [OF _ e, of y] show ?thesis by simp
  next
    case (OMutex y)
    with ok mutexes.frame [OF _ e, of y] show ?thesis by simp
  next
    case (OEvent y)
    with ok events.frame [OF _ e, of y] show ?thesis by simp
  next
    case (OMbox y)
    with ok mboxes.frame [OF _ e, of y] show ?thesis by simp
  next
    case (OMq y)
    with ok mqueues.frame [OF _ e, of y] show ?thesis by simp
  qed
qed

text \<open>New objects, and the functions that end them.\<close>

inductive created :: "kobj \<Rightarrow> bool" where
  new_sem: "flag = 0 \<or> flag = 1 \<Longrightarrow> rt_sem_init v flag = Some s \<Longrightarrow> created (OSem s)"
| new_mutex: "flag = 0 \<or> flag = 1 \<Longrightarrow> created (OMutex (rt_mutex_init flag))"
| new_event: "flag = 0 \<or> flag = 1 \<Longrightarrow> created (OEvent (rt_event_init flag))"
| new_mbox: "flag = 0 \<or> flag = 1 \<Longrightarrow> length pool = unat sz \<Longrightarrow> 0 < sz \<Longrightarrow> created (OMbox (rt_mb_init pool sz flag))"
| new_mq: "flag = 0 \<or> flag = 1 \<Longrightarrow> length pool = unat maxm \<Longrightarrow> \<forall>s \<in> set pool. length (body s) = unat msgsz \<Longrightarrow>
    created (OMq \<lparr>mq_store = mq_setup pool msgsz maxm, mq_flag = flag\<rparr>)"

fun kobj_detach :: "nat \<Rightarrow> kobj \<Rightarrow> kernel \<Rightarrow> kernel option" where
  "kobj_detach i (OSem s) k = rt_sem_detach i k"
| "kobj_detach i (OMutex m) k = rt_mutex_detach i k"
| "kobj_detach i (OEvent ev) k = rt_event_detach i k"
| "kobj_detach i (OMbox mb) k = rt_mb_detach i k"
| "kobj_detach i (OMq mq) k = rt_mq_detach i k"

lemma created_ok:
  assumes "created x" "kernel_ok k" "current k \<noteq> None" "lists k (LIpc i) = []" "lists k (LSender i) = []"
  shows "kobj_ok i x k"
  using assms
proof (induction rule: created.induct)
  case (new_sem flag v s)
  then show ?case by (auto simp: rt_sem_init_def sem_ok_def bind_eq_Some_conv)
next
  case (new_mbox flag pool sz)
  then show ?case by (simp add: mbox_ok_def rt_mb_init_def mb_inv_def ring_at_def)
next
  case (new_mq flag pool maxm msgsz)
  then show ?case using mq_setup_inv [of pool maxm msgsz] by (simp add: mqueue_ok_def)
qed (auto simp: mutex_ok_def owner_not_waiting_def rt_mutex_init_def event_ok_def rt_event_init_def)

text \<open>Nobody waits for an object that was detached.\<close>

lemma detach_one:
  assumes "kernel_ok k" "rt_ipc_list_resume_all (LIpc i) k = Some k'" "lists k (LSender i) = []"
  shows "kernel_ok k' \<and> current k' = current k \<and> quiet k k' \<and> lists k' (LIpc i) = [] \<and> lists k' (LSender i) = []"
  using resume_all_kernel [OF _ assms(1), of "LIpc i"] assms(2,3) quiet_resume_all [OF assms(2)] by auto

lemma detach_both:
  assumes ok: "kernel_ok k" and r: "rt_ipc_list_resume_all (LIpc i) k \<bind> rt_ipc_list_resume_all (LSender i) = Some k'"
  shows "kernel_ok k' \<and> current k' = current k \<and> quiet k k' \<and> lists k' (LIpc i) = [] \<and> lists k' (LSender i) = []"
proof -
  from r obtain k1 where k1: "rt_ipc_list_resume_all (LIpc i) k = Some k1" "rt_ipc_list_resume_all (LSender i) k1 = Some k'"
    by (auto simp: bind_eq_Some_conv)
  have q: "quiet k k'" by (rule quiet_trans [OF quiet_resume_all [OF k1(1)] quiet_resume_all [OF k1(2)]])
  from resume_all_kernel [OF _ ok, of "LIpc i"] k1(1) have a: "kernel_ok k1" "current k1 = current k" "lists k1 (LIpc i) = []" by auto
  from resume_all_kernel [OF _ a(1), of "LSender i"] k1(2) a have "kernel_ok k'" "current k' = current k" "lists k' (LIpc i) = []"
    "lists k' (LSender i) = []" by auto
  with q show ?thesis by simp
qed

lemma detach_ok:
  assumes ok: "kobj_ok i x k" and r: "kobj_detach i x k = Some k'"
  shows "kernel_ok k' \<and> current k' \<noteq> None \<and> quiet k k' \<and> lists k' (LIpc i) = [] \<and> lists k' (LSender i) = []"
proof -
  have kk: "kernel_ok k" "current k \<noteq> None" using kobjs.ok_kernel [OF ok] by simp_all
  then show ?thesis using ok r detach_one [OF kk(1), of i k'] detach_both [OF kk(1), of i k']
    by (cases x) (simp_all add: rt_sem_detach_def rt_mutex_detach_def rt_event_detach_def rt_mb_detach_def rt_mq_detach_def)
qed

section \<open>Threads, the tick and the interrupts\<close>

inductive thread_step :: "kernel \<Rightarrow> kernel \<Rightarrow> bool" for k where
  init: "nolist t k \<Longrightarrow> TThread t \<notin> set (timer_list k) \<Longrightarrow> rt_thread_init t static p tick k = Some k' \<Longrightarrow> thread_step k k'"
| startup: "unat (init_priority (threads k t)) < 32 \<Longrightarrow> rt_thread_startup t k = Some k' \<Longrightarrow> thread_step k k'"
| detach: "stat_of (threads k t) = RT_THREAD_INIT \<or> started (threads k t) \<Longrightarrow> rt_thread_detach t k = Some k' \<Longrightarrow> thread_step k k'"
| delete: "stat_of (threads k t) = RT_THREAD_INIT \<or> started (threads k t) \<Longrightarrow> rt_thread_delete t k = Some k' \<Longrightarrow> thread_step k k'"
| exit: "runs t k \<Longrightarrow> rt_thread_exit k = Some k' \<Longrightarrow> thread_step k k'"
| yield: "rt_thread_yield k = Some k' \<Longrightarrow> thread_step k k'"
| suspend: "stat_of (threads k t) = RT_THREAD_READY \<or> stat_of (threads k t) = RT_THREAD_RUNNING \<Longrightarrow>
    rt_thread_suspend t k = Some (e, k') \<Longrightarrow> thread_step k k'"
| resume: "rt_thread_resume t k = (e, k') \<Longrightarrow> thread_step k k'"
| sleep: "runs t k \<Longrightarrow> tick < HALF_TICK \<Longrightarrow> rt_thread_sleep_begin tick k = Some k' \<Longrightarrow> thread_step k k'"
| sleep_end: "runs t k \<Longrightarrow> k' = rt_thread_sleep_end t k \<Longrightarrow> thread_step k k'"
| delay_until: "runs t k \<Longrightarrow> rt_tick k - tick + inc < HALF_TICK \<Longrightarrow> rt_thread_delay_until_begin tick inc k = Some (v, w, k') \<Longrightarrow> thread_step k k'"
| priority: "unat p < 32 \<Longrightarrow> rt_thread_control t (CTRL_CHANGE_PRIORITY p) k = Some k' \<Longrightarrow> thread_step k k'"
| enter: "k' = rt_enter_critical k \<Longrightarrow> thread_step k k'"
| leave: "rt_exit_critical k = Some k' \<Longrightarrow> thread_step k k'"
| irq_enter: "k' = rt_interrupt_enter k \<Longrightarrow> thread_step k k'"
| irq_leave: "k' = rt_interrupt_leave k \<Longrightarrow> thread_step k k'"
| tick: "callbacks_ok cb \<Longrightarrow> (\<And>u k k'. cb u k = Some k' \<Longrightarrow> quiet k k') \<Longrightarrow> rt_tick_increase cb k = Some k' \<Longrightarrow> thread_step k k'"

lemma schedule_current:
  assumes "rt_schedule k = Some k'" "current k \<noteq> None"
  shows "current k' \<noteq> None"
proof (cases "lock_nest k = 0 \<and> ready_group k \<noteq> 0")
  case False
  with assms show ?thesis by (auto simp: rt_schedule_def split: if_splits)
next
  case True
  with assms obtain a hp c where g: "get_highest_priority_thread k = Some (a, hp)" "current k = Some c"
    by (auto simp: rt_schedule_def bind_eq_Some_conv)
  obtain t n k1 where sc: "schedule_choice c a hp k = (t, n, k1)" by (cases "schedule_choice c a hp k") auto
  then have "current k1 = Some c" using g(2) by (auto simp: schedule_choice_def split: if_splits)
  with assms(1) True g show ?thesis by (auto simp: rt_schedule_def Let_def sc split: if_splits)
qed

text \<open>The counters of nested interrupts and locks are not part of the invariant.\<close>

lemma nest_kernel: "kernel_ok k \<Longrightarrow> kernel_ok (k\<lparr>lock_nest := n\<rparr>)" "kernel_ok k \<Longrightarrow> kernel_ok (k\<lparr>irq_nest := m\<rparr>)"
  using sched_ok_cong [of "k\<lparr>lock_nest := n\<rparr>" k] timers_ok_cong [of "k\<lparr>lock_nest := n\<rparr>" k]
    sched_ok_cong [of "k\<lparr>irq_nest := m\<rparr>" k] timers_ok_cong [of "k\<lparr>irq_nest := m\<rparr>" k]
  by (simp_all add: kernel_ok_def tt_ok_def period_ok_def)

lemma init_step:
  assumes ok: "kernel_ok k" and n: "nolist t k" "TThread t \<notin> set (timer_list k)" and r: "rt_thread_init t static p tick k = Some k'"
  shows "kernel_ok k' \<and> current k' = current k \<and> quiet k k'"
proof -
  have p: "unat p < 32" using r by (auto simp: rt_thread_init_def RT_ASSERT_def split: if_splits)
  obtain k1 where "rt_thread_init t static p tick k = Some k1" "kernel_ok k1" "current k1 = current k"
    by (rule thread_init_kernel [OF ok n p])
  moreover have "quiet k k'"
    using r p by (auto simp: rt_thread_init_def Let_def rt_timer_init_obj_def intro: quiet_trans [OF quiet_upd quiet_upd_timer])
  ultimately show ?thesis using r by simp
qed

lemma startup_step:
  assumes ok: "kernel_ok k" "current k \<noteq> None" and p: "unat (init_priority (threads k t)) < 32" and r: "rt_thread_startup t k = Some k'"
  shows "kernel_ok k' \<and> current k' \<noteq> None \<and> quiet k k'"
proof -
  have s: "stat_of (threads k t) = RT_THREAD_INIT" using r by (auto simp: rt_thread_startup_def RT_ASSERT_def split: if_splits)
  obtain k1 where k1: "rt_thread_startup t k = Some k1" "kernel_ok k1" by (rule startup_kernel [OF ok(1) s p])
  have c: "current (snd (rt_thread_resume t k)) = current k" for k by (simp add: rt_thread_resume_def Let_def)
  have "current k' \<noteq> None"
    using r ok(2) schedule_current
    by (auto simp: rt_thread_startup_def Let_def rt_thread_self_def bind_eq_Some_conv c split: if_splits)
  with k1 r quiet_startup [OF r] show ?thesis by simp
qed

lemma close_step:
  assumes ok: "kernel_ok k" and s: "stat_of (threads k t) = RT_THREAD_INIT \<or> started (threads k t)"
    and r: "rt_thread_detach t k = Some k' \<or> rt_thread_delete t k = Some k'"
  shows "kernel_ok k' \<and> current k' = current k \<and> quiet k k'"
proof -
  note c = close_kernel [OF ok s refl refl]
  have "kernel_ok k'" using r c by (auto simp: rt_thread_detach_def rt_thread_delete_def Let_def)
  moreover have "current k' = current k"
    using r by (auto simp: rt_thread_detach_def rt_thread_delete_def Let_def rt_timer_detach_def)
  ultimately show ?thesis using quiet_close [OF r] by simp
qed

lemma exit_step:
  assumes ok: "kernel_ok k" and t: "runs t k" and r: "rt_thread_exit k = Some k'"
  shows "kernel_ok k' \<and> current k' \<noteq> None \<and> quiet k k'"
proof -
  have c: "current k = Some t" "stat_of (threads k t) = RT_THREAD_RUNNING" using t by (simp_all add: runs_def)
  obtain k1 where "rt_thread_exit k = Some k1" "kernel_ok k1" by (rule exit_kernel [OF ok c])
  moreover have "current k' \<noteq> None"
    using r c(1) by (auto simp: rt_thread_exit_def Let_def rt_thread_self_def bind_eq_Some_conv rt_timer_detach_def
        split: if_splits dest!: schedule_current)
  ultimately show ?thesis using r quiet_exit [OF r] by simp
qed

lemma sleep_step:
  assumes ok: "kernel_ok k" and t: "runs t k" and d: "tick < HALF_TICK" and r: "rt_thread_sleep_begin tick k = Some k'"
  shows "kernel_ok k' \<and> current k' \<noteq> None \<and> quiet k k'"
proof -
  have c: "current k = Some t" "stat_of (threads k t) = RT_THREAD_RUNNING" using t by (simp_all add: runs_def)
  obtain k1 where k1: "rt_thread_sleep_begin tick k = Some k1" "kernel_ok k1" by (rule sleep_kernel [OF ok c d])
  obtain k2 where k2: "rt_thread_suspend t k = Some (RT_EOK, k2)" "current k2 = current k" by (rule suspend_kernel [OF ok]) (use c in auto)
  with r c(1) obtain k3 where "rt_timer_start (TThread t) (snd (rt_timer_control (TThread t) (TIMER_SET_TIME tick) k2)) = Some k3"
    "rt_schedule k3 = Some k'" by (auto simp: rt_thread_sleep_begin_def rt_thread_self_def bind_eq_Some_conv)
  with timer_start_frame k2(2) c(1) schedule_current [of k3 k'] have "current k' \<noteq> None" by fastforce
  with k1 r quiet_sleep [OF r] show ?thesis by simp
qed

lemma schedule_step:
  assumes "kernel_ok k" "current k \<noteq> None" "rt_schedule k = Some k'"
  shows "kernel_ok k' \<and> current k' \<noteq> None \<and> quiet k k'"
proof -
  obtain k1 where "rt_schedule k = Some k1" "kernel_ok k1" "current k1 \<noteq> None" by (rule schedule_kernel [OF assms(1,2)])
  with assms(3) quiet_schedule [OF assms(3)] show ?thesis by simp
qed

lemma leave_step:
  assumes ok: "kernel_ok k" "current k \<noteq> None" and r: "rt_exit_critical k = Some k'"
  shows "kernel_ok k' \<and> current k' \<noteq> None \<and> quiet k k'"
proof -
  let ?a = "\<lambda>n. k\<lparr>lock_nest := n\<rparr>"
  have q: "quiet k (?a n)" for n by (rule quiet_fields) simp_all
  from r ok(2) consider n where "k' = ?a n" | "rt_schedule (?a 0) = Some k'" by (auto simp: rt_exit_critical_def Let_def split: if_splits)
  then show ?thesis
  proof cases
    case 1
    with nest_kernel(1) [OF ok(1)] ok(2) q show ?thesis by simp
  next
    case 2
    from schedule_step [OF nest_kernel(1) [OF ok(1)] _ 2] ok(2) quiet_trans [OF q quiet_schedule [OF 2]] show ?thesis by simp
  qed
qed

lemma resume_step:
  assumes ok: "kernel_ok k" and r: "rt_thread_resume t k = (e, k')"
  shows "kernel_ok k' \<and> current k' = current k \<and> quiet k k'"
proof (cases "stat_of (threads k t) = RT_THREAD_SUSPEND")
  case True
  with resume_kernel(2,3) [OF ok True] r quiet_resume [of k t] show ?thesis by simp
next
  case False
  with r ok show ?thesis by (simp add: rt_thread_resume_def)
qed

lemma thread_step_ok:
  assumes ok: "kernel_ok k" "current k \<noteq> None" and o: "thread_step k k'"
  shows "kernel_ok k' \<and> current k' \<noteq> None \<and> quiet k k'"
  using o
proof cases
  case (init t static p tick)
  from init_step [OF ok(1) init] ok(2) show ?thesis by simp
next
  case (startup t)
  from startup_step [OF ok startup] show ?thesis .
next
  case (detach t)
  from close_step [OF ok(1) detach(1)] detach(2) ok(2) show ?thesis by simp
next
  case (delete t)
  from close_step [OF ok(1) delete(1)] delete(2) ok(2) show ?thesis by simp
next
  case (exit t)
  from exit_step [OF ok(1) exit] show ?thesis .
next
  case yield
  from schedule_step [OF ok] yield show ?thesis by (simp add: rt_thread_yield_def)
next
  case (suspend t e)
  obtain k1 where "rt_thread_suspend t k = Some (RT_EOK, k1)" "kernel_ok k1" "current k1 = current k"
    by (rule suspend_kernel [OF ok(1) suspend(1)])
  with suspend(2) quiet_suspend [OF suspend(2)] ok(2) show ?thesis by simp
next
  case (resume t e)
  from resume_step [OF ok(1) resume] ok(2) show ?thesis by simp
next
  case (sleep t tick)
  from sleep_step [OF ok(1) sleep] show ?thesis .
next
  case (sleep_end t)
  then have e: "k' = k \<or> k' = upd_thread t (\<lambda>th. th\<lparr>t_error := RT_EOK\<rparr>) k" by (simp add: rt_thread_sleep_end_def)
  have "kernel_ok (upd_thread t (\<lambda>th. th\<lparr>t_error := RT_EOK\<rparr>) k)" using ok(1) by (rule upd_data_kernel) (simp_all add: stat_of_def)
  with e ok quiet_error show ?thesis by auto
next
  case (delay_until t tick inc v w)
  show ?thesis
  proof (cases "rt_tick k - tick < inc")
    case True
    with delay_until(3) have "rt_thread_sleep_begin (rt_tick k - tick + inc) k = Some k'" by (auto simp: delay_until_is_sleep)
    from sleep_step [OF ok(1) delay_until(1,2) this] show ?thesis .
  next
    case False
    with delay_until(3) ok show ?thesis by (auto simp: rt_thread_delay_until_begin_def bind_eq_Some_conv)
  qed
next
  case (priority p t)
  obtain k1 where "rt_thread_control t (CTRL_CHANGE_PRIORITY p) k = Some k1" "kernel_ok k1" "current k1 = current k"
    by (rule priority_kernel [OF ok(1) priority(1)])
  with priority(2) quiet_priority [OF priority(2)] ok(2) show ?thesis by simp
next
  case enter
  with nest_kernel(1) [OF ok(1)] ok(2) show ?thesis by (auto simp: rt_enter_critical_def intro: quiet_fields)
next
  case leave
  from leave_step [OF ok leave] show ?thesis .
next
  case irq_enter
  with nest_kernel(2) [OF ok(1)] ok(2) show ?thesis by (auto simp: rt_interrupt_enter_def intro: quiet_fields)
next
  case irq_leave
  with nest_kernel(2) [OF ok(1)] ok(2) show ?thesis by (auto simp: rt_interrupt_leave_def intro: quiet_fields)
next
  case (tick cb)
  obtain k1 where "rt_tick_increase cb k = Some k1" "kernel_ok k1" "current k1 \<noteq> None" by (rule tick_increase_ok [OF ok tick(1)])
  with tick(3) quiet_tick [OF tick(2,3)] show ?thesis by simp
qed

section \<open>The system\<close>

text \<open>From a consistent kernel without objects on which nobody waits: calls of threads and interrupts in any order.\<close>

inductive sys_run :: "(nat \<Rightarrow> kobj option) \<Rightarrow> kernel \<Rightarrow> bool" where
  boot: "kernel_ok k \<Longrightarrow> current k \<noteq> None \<Longrightarrow> \<forall>l. is_wait l \<longrightarrow> lists k l = [] \<Longrightarrow> sys_run (\<lambda>_. None) k"
| create: "sys_run objs k \<Longrightarrow> objs i = None \<Longrightarrow> created x \<Longrightarrow> sys_run (objs(i \<mapsto> x)) k"
| remove: "sys_run objs k \<Longrightarrow> objs i = Some x \<Longrightarrow> kobj_detach i x k = Some k' \<Longrightarrow> sys_run (objs(i := None)) k'"
| call: "sys_run objs k \<Longrightarrow> objs i = Some x \<Longrightarrow> kobj_op i x k x' k' \<Longrightarrow> sys_run (objs(i \<mapsto> x')) k'"
| step: "sys_run objs k \<Longrightarrow> thread_step k k' \<Longrightarrow> sys_run objs k'"

definition sys_inv :: "(nat \<Rightarrow> kobj option) \<Rightarrow> kernel \<Rightarrow> bool" where
  "sys_inv objs k \<longleftrightarrow> kernel_ok k \<and> current k \<noteq> None \<and> (\<forall>i x. objs i = Some x \<longrightarrow> kobj_ok i x k)
     \<and> (\<forall>i. objs i = None \<longrightarrow> lists k (LIpc i) = [] \<and> lists k (LSender i) = [])"

text \<open>A step that disturbs at most the lists of one existing object keeps the lists of missing objects empty.\<close>

lemma missing_calm:
  assumes "\<forall>j. objs j = None \<longrightarrow> lists k (LIpc j) = [] \<and> lists k (LSender j) = []" "calm (links i) k k'" "objs j = None" "j \<noteq> i"
  shows "lists k' (LIpc j) = [] \<and> lists k' (LSender j) = []"
  using assms(1,3,4) undisturbed_empty [OF calmD [OF assms(2), of "LIpc j"]] undisturbed_empty [OF calmD [OF assms(2), of "LSender j"]]
  by simp

lemma sys_run_inv: "sys_run objs k \<Longrightarrow> sys_inv objs k"
proof (induction rule: sys_run.induct)
  case (boot k)
  then show ?case by (simp add: sys_inv_def)
next
  case (create objs k i x)
  with created_ok [of x k i] show ?case by (auto simp: sys_inv_def)
next
  case (remove objs k i x k')
  then have "kobj_ok i x k" by (simp add: sys_inv_def)
  note d = detach_ok [OF this remove.hyps(3)]
  have "\<forall>j y. objs j = Some y \<longrightarrow> kobj_ok j y k'"
    by (rule kobjs.store_quiet [of objs k]) (use remove.IH d in \<open>simp_all add: sys_inv_def\<close>)
  moreover have "lists k' (LIpc j) = [] \<and> lists k' (LSender j) = []" if "objs j = None" for j
    using missing_calm [of objs k i k' j] quiet_calm d remove.IH that remove.hyps(2) by (cases "j = i") (auto simp: sys_inv_def)
  ultimately show ?case using d by (auto simp: sys_inv_def)
next
  case (call objs k i x x' k')
  then have a: "\<forall>j y. objs j = Some y \<longrightarrow> kobj_ok j y k" by (simp add: sys_inv_def)
  then have ok: "kobj_ok i x k" using call.hyps(2) by simp
  note s = kobjs.store_op [OF a call.hyps(2,3)]
  then have "kobj_ok i x' k'" by simp
  from kobjs.ok_kernel [OF this] have kk: "kernel_ok k'" "current k' \<noteq> None" by simp_all
  have "lists k' (LIpc j) = [] \<and> lists k' (LSender j) = []" if "(objs(i \<mapsto> x')) j = None" for j
    using missing_calm [OF _ kobjs.op_calm [OF ok call.hyps(3)], of objs j] call.IH that by (auto simp: sys_inv_def split: if_splits)
  with s kk show ?case by (simp add: sys_inv_def)
next
  case (step objs k k')
  then have "kernel_ok k" "current k \<noteq> None" by (simp_all add: sys_inv_def)
  note t = thread_step_ok [OF this step.hyps(2)]
  have "\<forall>j y. objs j = Some y \<longrightarrow> kobj_ok j y k'"
    by (rule kobjs.store_quiet [of objs k]) (use step.IH t in \<open>simp_all add: sys_inv_def\<close>)
  moreover have "lists k' l = []" if "lists k l = []" "is_wait l" for l
    by (rule undisturbed_empty [OF quiet_undisturbed that(1)]) (use t that(2) in simp_all)
  ultimately show ?case using t step.IH by (simp add: sys_inv_def)
qed

section \<open>Every call returns\<close>

text \<open>In a consistent state no call of the running thread fails an assertion or loops.\<close>

lemma reset_returns:
  assumes ok: "kernel_ok k" "current k \<noteq> None" and w: "is_wait l"
  obtains k1 k2 where "rt_ipc_list_resume_all l k = Some k1" "rt_schedule k1 = Some k2" "kernel_ok k1" "current k1 \<noteq> None"
proof -
  from resume_all_kernel [OF w ok(1)] obtain k1 where k1: "rt_ipc_list_resume_all l k = Some k1" "kernel_ok k1" "current k1 = current k" by auto
  then have c: "current k1 \<noteq> None" using ok(2) by simp
  obtain k2 where "rt_schedule k1 = Some k2" by (rule schedule_kernel [OF k1(2) c])
  with that k1(1,2) c show ?thesis by blast
qed

lemma sem_returns:
  assumes ok: "sem_ok i s k" and t: "runs t k" and b: "sint time < 0x7fffffff"
  shows "rt_sem_take i time s k \<noteq> None" "rt_sem_release i s k \<noteq> None" "rt_sem_control i cmd v s k \<noteq> None"
proof -
  have kk: "kernel_ok k" "current k \<noteq> None" using ok by (simp_all add: sem_ok_def)
  have c: "current k = Some t" "stat_of (threads k t) = RT_THREAD_RUNNING" "irq_nest k = 0" using t by (simp_all add: runs_def)
  show "rt_sem_take i time s k \<noteq> None"
  proof (cases "sem_value s = 0 \<and> time \<noteq> 0")
    case True
    then show ?thesis using sem_take_block [OF ok c _ _ b] by (metis option.distinct(1))
  next
    case False
    then show ?thesis by (auto simp: rt_sem_take_def word_gt_0)
  qed
  show "rt_sem_release i s k \<noteq> None"
  proof (cases "lists k (LIpc i)")
    case Nil
    then show ?thesis by (simp add: rt_sem_release_def)
  next
    case (Cons u us)
    then show ?thesis using sem_release_handover [OF ok] by (metis option.distinct(1))
  qed
  obtain k1 k2 where "rt_ipc_list_resume_all (LIpc i) k = Some k1" "rt_schedule k1 = Some k2" by (rule reset_returns [OF kk, of "LIpc i"]) simp
  then show "rt_sem_control i cmd v s k \<noteq> None" by (simp add: rt_sem_control_def)
qed

lemma mutex_returns:
  assumes ok: "mutex_ok i m k" and t: "runs t k" and b: "sint time < 0x7fffffff"
  shows "rt_mutex_take i time m k \<noteq> None" "rt_mutex_release i m k \<noteq> None"
proof -
  have c: "current k = Some t" "stat_of (threads k t) = RT_THREAD_RUNNING" "irq_nest k = 0" using t by (simp_all add: runs_def)
  consider "mx_owner m = None" | "mx_owner m = Some t" | u where "mx_owner m = Some u" "u \<noteq> t" "time \<noteq> 0" | u where "mx_owner m = Some u" "u \<noteq> t" "time = 0"
    by (cases "mx_owner m") blast+
  then show "rt_mutex_take i time m k \<noteq> None"
  proof cases
    case 1
    then show ?thesis using take_free [OF ok c, of time] by (metis option.distinct(1))
  next
    case (3 u)
    then show ?thesis using take_wait [OF ok c 3 b] by (metis option.distinct(1))
  qed (use ok c in_thread_ctx [OF c(1,3)] in \<open>simp_all add: rt_mutex_take_def mutex_again_def rt_thread_self_def mutex_ok_def Let_def\<close>)
  consider "mx_owner m \<noteq> Some t" | "mx_owner m = Some t" "mx_hold m \<noteq> 1" | "mx_owner m = Some t" "mx_hold m = 1" by blast
  then show "rt_mutex_release i m k \<noteq> None"
  proof cases
    case 1
    then show ?thesis using release_other [OF ok c(1,3)] by (metis option.distinct(1))
  next
    case 2
    then show ?thesis using release_nested [OF ok c(1,3)] by simp
  next
    case 3
    then show ?thesis using release_last [OF ok c(1,3)] by (metis option.distinct(1))
  qed
qed

lemma event_returns:
  assumes ok: "event_ok i ev k" and t: "runs t k" and b: "sint time < 0x7fffffff"
  shows "rt_event_send i s ev k \<noteq> None" "rt_event_control i cmd ev k \<noteq> None"
    "opt AND RT_EVENT_FLAG_AND \<noteq> 0 \<or> opt AND RT_EVENT_FLAG_OR \<noteq> 0 \<Longrightarrow> rt_event_recv i s opt time ev k \<noteq> None"
proof -
  have kk: "kernel_ok k" "current k \<noteq> None" using ok by (simp_all add: event_ok_def)
  have c: "current k = Some t" "stat_of (threads k t) = RT_THREAD_RUNNING" "irq_nest k = 0" using t by (simp_all add: runs_def)
  show "rt_event_send i s ev k \<noteq> None"
  proof (cases "s = 0")
    case False
    then show ?thesis using event_send_ok [OF ok] by (metis option.distinct(1))
  qed (simp add: rt_event_send_def)
  obtain k1 k2 where "rt_ipc_list_resume_all (LIpc i) k = Some k1" "rt_schedule k1 = Some k2" by (rule reset_returns [OF kk, of "LIpc i"]) simp
  then show "rt_event_control i cmd ev k \<noteq> None" by (simp add: rt_event_control_def)
  assume o: "opt AND RT_EVENT_FLAG_AND \<noteq> 0 \<or> opt AND RT_EVENT_FLAG_OR \<noteq> 0"
  show "rt_event_recv i s opt time ev k \<noteq> None"
  proof (cases "s \<noteq> 0 \<and> \<not> event_status opt s (ev_set ev) \<and> time \<noteq> 0")
    case True
    then show ?thesis using event_recv_block [OF ok c o _ _ _ b] by (metis option.distinct(1))
  next
    case False
    with o c in_thread_ctx [OF c(1,3)] show ?thesis by (auto simp: rt_event_recv_def rt_thread_self_def RT_ASSERT_def Let_def)
  qed
qed

lemma mbox_returns:
  assumes ok: "mbox_ok i mb k" and t: "runs t k" and b: "sint time < 0x7fffffff"
  shows "rt_mb_send_wait i v time mb k \<noteq> None" "rt_mb_recv i time mb k \<noteq> None" "rt_mb_control i cmd mb k \<noteq> None"
proof -
  have kk: "kernel_ok k" "current k \<noteq> None" using ok by (simp_all add: mbox_ok_def)
  show "rt_mb_send_wait i v time mb k \<noteq> None" using send_wait_ok [OF ok t b, of v] by auto
  show "rt_mb_recv i time mb k \<noteq> None" using recv_ok [OF ok t b] by auto
  obtain k1 where k1: "rt_ipc_list_resume_all (LIpc i) k = Some k1" "kernel_ok k1" "current k1 \<noteq> None"
    by (rule reset_returns [OF kk, of "LIpc i"]) simp
  obtain k2 k3 where "rt_ipc_list_resume_all (LSender i) k1 = Some k2" "rt_schedule k2 = Some k3"
    by (rule reset_returns [OF k1(2,3), of "LSender i"]) simp
  with k1(1) show "rt_mb_control i cmd mb k \<noteq> None" by (simp add: rt_mb_control_def)
qed

lemma mqueue_returns:
  assumes ok: "mqueue_ok mq k" and t: "runs t k" and b: "sint time < 0x7fffffff"
  shows "buf \<noteq> [] \<Longrightarrow> rt_mq_send_wait i buf time mq k \<noteq> None" "buf \<noteq> [] \<Longrightarrow> rt_mq_urgent i buf mq k \<noteq> None"
    "0 < sz \<Longrightarrow> mq_slot mq \<le> sz \<Longrightarrow> rt_mq_recv i sz time mq k \<noteq> None" "rt_mq_control i cmd mq k \<noteq> None"
proof -
  have kk: "kernel_ok k" "current k \<noteq> None" using ok by (simp_all add: mqueue_ok_def)
  have self: "rt_thread_self k = Some t" using t by (simp add: runs_def rt_thread_self_def)
  show "rt_mq_send_wait i buf time mq k \<noteq> None" if "buf \<noteq> []"
    using mq_send_loop_ok [OF ok t b, of buf i] that self by (auto simp: rt_mq_send_wait_def RT_ASSERT_def)
  show "rt_mq_urgent i buf mq k \<noteq> None" if "buf \<noteq> []"
    using mq_wake_ok [OF ok, of "LIpc i"] that by (auto simp: rt_mq_urgent_def RT_ASSERT_def Let_def split: option.splits)
  show "rt_mq_recv i sz time mq k \<noteq> None" if "0 < sz" "mq_slot mq \<le> sz"
    using mq_recv_loop_ok [OF ok t b that(2), of i] that(1) self by (auto simp: rt_mq_recv_def RT_ASSERT_def)
  obtain k1 where k1: "rt_ipc_list_resume_all (LIpc i) k = Some k1" "kernel_ok k1" "current k1 \<noteq> None"
    by (rule reset_returns [OF kk, of "LIpc i"]) simp
  obtain k2 k3 where k2: "rt_ipc_list_resume_all (LSender i) k1 = Some k2" "rt_schedule k2 = Some k3"
    by (rule reset_returns [OF k1(2,3), of "LSender i"]) simp
  from ok obtain us fs where "mq_wf us fs [] (mq_store mq)" by (auto simp: mqueue_ok_def mq_inv_def)
  from mq_reset_ok [OF this] k1(1) k2 show "rt_mq_control i cmd mq k \<noteq> None" by (auto simp: rt_mq_control_def)
qed

section \<open>Properties\<close>

text \<open>A run of the system: a semaphore and a mutex are created, and the running thread waits for the empty semaphore.\<close>

lemma sys_example:
  obtains k where "rt_sem_take 0 50 \<lparr>sem_value = 0, sem_flag = 0\<rparr> (two_threads 5 10 3) = Some (Waiting 0, \<lparr>sem_value = 0, sem_flag = 0\<rparr>, k)"
    "sys_run ((\<lambda>_. None)(0 \<mapsto> OSem \<lparr>sem_value = 0, sem_flag = 0\<rparr>, 1 \<mapsto> OMutex (rt_mutex_init 1), 0 \<mapsto> OSem \<lparr>sem_value = 0, sem_flag = 0\<rparr>)) k"
    "lists k (LIpc 0) = [0]"
proof -
  let ?k = "two_threads 5 10 3" and ?s = "\<lparr>sem_value = 0, sem_flag = 0\<rparr> :: rt_sem"
  have "kernel_ok ?k" by (rule two_threads_kernel) (simp_all add: two_threads_def Let_def stat_of_def)
  then have "sys_run (\<lambda>_. None) ?k" by (rule sys_run.boot) (auto simp: two_threads_def Let_def is_wait_def)
  then have "sys_run ((\<lambda>_. None)(0 \<mapsto> OSem ?s)) ?k" by (rule sys_run.create) (auto intro: new_sem [of 0 0] simp: rt_sem_init_def)
  then have r: "sys_run ((\<lambda>_. None)(0 \<mapsto> OSem ?s, 1 \<mapsto> OMutex (rt_mutex_init 1))) ?k"
    by (rule sys_run.create) (auto intro: new_mutex)
  have u: "runs 0 ?k" by (simp add: runs_def two_threads_def Let_def stat_of_def)
  from sem_waiting_example obtain k where k: "rt_sem_take 0 50 ?s ?k = Some (Waiting 0, ?s, k)" "lists k (LIpc 0) = [0]" by blast
  have "kobj_op 0 (OSem ?s) ?k (OSem ?s) k" by (rule kobj_op.on_sem, rule sem_op.sem_take [OF u _ k(1)]) simp
  then have "sys_run ((\<lambda>_. None)(0 \<mapsto> OSem ?s, 1 \<mapsto> OMutex (rt_mutex_init 1), 0 \<mapsto> OSem ?s)) k"
    by (rule sys_run.call [OF r, rotated]) simp
  with k that show ?thesis by blast
qed

text \<open>C2: The kernel as a whole is consistent. In every state reached from a consistent kernel without objects by creating
  and removing semaphores, mutexes, events, mailboxes and message queues, by the calls of their functions by threads and
  interrupts, by the life cycle, sleeping and priorities of threads and by tick interrupts, in any order: nobody waits for a semaphore with
  a positive value or for a free mutex, the owner of a mutex does not wait for it, no thread that waits for an event has its condition
  fulfilled, rings and message pools are well-formed, and every waiting thread is suspended, waits for an existing object
  and is in one list only.\<close>

theorem system_invariant:
  assumes "sys_run objs k"
  shows "(\<forall>i s. objs i = Some (OSem s) \<longrightarrow> 0 < sem_value s \<longrightarrow> lists k (LIpc i) = [])
    \<and> (\<forall>i m. objs i = Some (OMutex m) \<longrightarrow>
        (case mx_owner m of None \<Rightarrow> mx_value m = 1 \<and> lists k (LIpc i) = [] | Some t \<Rightarrow> mx_value m = 0 \<and> t \<notin> set (lists k (LIpc i))))
    \<and> (\<forall>i ev. objs i = Some (OEvent ev) \<longrightarrow>
        (\<forall>t \<in> set (lists k (LIpc i)). \<not> event_status (event_info (threads k t)) (event_set (threads k t)) (ev_set ev)))
    \<and> (\<forall>i mb. objs i = Some (OMbox mb) \<longrightarrow> mb_inv mb) \<and> (\<forall>i mq. objs i = Some (OMq mq) \<longrightarrow> mq_inv [] (mq_store mq))
    \<and> (\<forall>i t l. l = LIpc i \<or> l = LSender i \<longrightarrow> t \<in> set (lists k l) \<longrightarrow>
        objs i \<noteq> None \<and> stat_of (threads k t) = RT_THREAD_SUSPEND \<and> (\<forall>l'. t \<in> set (lists k l') \<longrightarrow> l' = l))"
proof -
  from sys_run_inv [OF assms] have k: "kernel_ok k" and o: "\<And>i x. objs i = Some x \<Longrightarrow> kobj_ok i x k"
    and n: "\<And>i. objs i = None \<Longrightarrow> lists k (LIpc i) = [] \<and> lists k (LSender i) = []" by (auto simp: sys_inv_def)
  have "\<forall>i s. objs i = Some (OSem s) \<longrightarrow> 0 < sem_value s \<longrightarrow> lists k (LIpc i) = []" using o by (fastforce simp: sem_ok_def)
  moreover have "case mx_owner m of None \<Rightarrow> mx_value m = 1 \<and> lists k (LIpc i) = [] | Some t \<Rightarrow> mx_value m = 0 \<and> t \<notin> set (lists k (LIpc i))"
    if "objs i = Some (OMutex m)" for i m
    using o [OF that] by (auto simp: mutex_ok_def owner_not_waiting_def split: option.splits)
  moreover have "\<not> event_status (event_info (threads k t)) (event_set (threads k t)) (ev_set ev)"
    if "objs i = Some (OEvent ev)" "t \<in> set (lists k (LIpc i))" for i ev t
    using o [OF that(1)] that(2) by (auto simp: event_ok_def wants_def)
  moreover have "mb_inv mb" if "objs i = Some (OMbox mb)" for i mb using o [OF that] by (simp add: mbox_ok_def)
  moreover have "mq_inv [] (mq_store mq)" if "objs i = Some (OMq mq)" for i mq using o [OF that] by (simp add: mqueue_ok_def)
  moreover have "objs i \<noteq> None \<and> stat_of (threads k t) = RT_THREAD_SUSPEND \<and> (\<forall>l'. t \<in> set (lists k l') \<longrightarrow> l' = l)"
    if "l = LIpc i \<or> l = LSender i" "t \<in> set (lists k l)" for i t l
    using n [of i] waiting_suspended [OF k _ that(2)] waiting_once [OF k that(2)] that by (cases "objs i") auto
  ultimately show ?thesis by blast
qed

theorem system_invariant_witness:
  "\<exists>k. rt_sem_take 0 50 \<lparr>sem_value = 0, sem_flag = 0\<rparr> (two_threads 5 10 3) = Some (Waiting 0, \<lparr>sem_value = 0, sem_flag = 0\<rparr>, k)
    \<and> stat_of (threads k 0) = RT_THREAD_SUSPEND \<and> lists k (LIpc 1) = []"
proof -
  obtain k where k: "rt_sem_take 0 50 \<lparr>sem_value = 0, sem_flag = 0\<rparr> (two_threads 5 10 3) = Some (Waiting 0, \<lparr>sem_value = 0, sem_flag = 0\<rparr>, k)"
    "sys_run ((\<lambda>_. None)(0 \<mapsto> OSem \<lparr>sem_value = 0, sem_flag = 0\<rparr>, 1 \<mapsto> OMutex (rt_mutex_init 1), 0 \<mapsto> OSem \<lparr>sem_value = 0, sem_flag = 0\<rparr>)) k"
    "lists k (LIpc 0) = [0]" by (rule sys_example)
  note inv = system_invariant [OF k(2)]
  have "stat_of (threads k 0) = RT_THREAD_SUSPEND" using inv k(3) by (metis list.set_intros(1))
  moreover have "lists k (LIpc 1) = []"
    using inv [THEN conjunct2, THEN conjunct1, rule_format, of 1 "rt_mutex_init 1"] by (simp add: rt_mutex_init_def)
  ultimately show ?thesis using k(1) by blast
qed

text \<open>C10: Thread records stay well-typed. In every reachable state of the system a started thread has a priority below 32 and
  the mask of that priority, a ready thread is in the ready list of its priority and only there, only the current thread is running,
  a thread whose timer runs is suspended, closed threads are the only ones in the defunct list, and the bitmap of the scheduler has
  exactly the bits of the non-empty ready lists.\<close>

theorem threads_well_typed:
  assumes "sys_run objs k"
  shows "(\<forall>t. stat_of (threads k t) \<in> {RT_THREAD_READY, RT_THREAD_SUSPEND, RT_THREAD_RUNNING} \<longrightarrow>
        unat (current_priority (threads k t)) < 32 \<and> number_mask (threads k t) = 2 ^ unat (current_priority (threads k t)))
    \<and> (\<forall>t p. t \<in> set (lists k (LReady p)) \<longleftrightarrow> stat_of (threads k t) = RT_THREAD_READY \<and> unat (current_priority (threads k t)) = p)
    \<and> (\<forall>t. stat_of (threads k t) = RT_THREAD_RUNNING \<longrightarrow> current k = Some t)
    \<and> (\<forall>t. TThread t \<in> set (timer_list k) \<longrightarrow> stat_of (threads k t) = RT_THREAD_SUSPEND)
    \<and> (\<forall>t \<in> set (lists k LDefunct). stat_of (threads k t) = RT_THREAD_CLOSE)
    \<and> (\<forall>p < 32. bit (ready_group k) p \<longleftrightarrow> lists k (LReady p) \<noteq> [])"
proof -
  have k: "kernel_ok k" using sys_run_inv [OF assms] by (simp add: sys_inv_def)
  note s = kernel_okD(1) [OF k] and b = kernel_okD(4) [OF k] and t = kernel_okD(3) [OF k]
  have "t \<in> set (lists k (LReady p)) \<longleftrightarrow> stat_of (threads k t) = RT_THREAD_READY \<and> unat (current_priority (threads k t)) = p" for t p
    using base_okD(3) [OF b] s by (auto simp: ready_ok_def sched_ok_def stat_ok_def prio_def)
  moreover have "\<forall>t. stat_of (threads k t) \<in> {RT_THREAD_READY, RT_THREAD_SUSPEND, RT_THREAD_RUNNING} \<longrightarrow>
        unat (current_priority (threads k t)) < 32 \<and> number_mask (threads k t) = 2 ^ unat (current_priority (threads k t))"
    using base_okD(5) [OF b] by (simp add: mask_ok_def started_def prio_def)
  ultimately show ?thesis
    using base_okD(2,4) [OF b] s t by (simp add: group_ok_def wait_ok_def tt_ok_def sched_ok_def stat_ok_def)
qed

theorem threads_well_typed_witness:
  "\<exists>k. rt_sem_take 0 50 \<lparr>sem_value = 0, sem_flag = 0\<rparr> (two_threads 5 10 3) = Some (Waiting 0, \<lparr>sem_value = 0, sem_flag = 0\<rparr>, k)
    \<and> (\<forall>p < 32. bit (ready_group k) p \<longleftrightarrow> lists k (LReady p) \<noteq> [])"
proof -
  obtain k where k: "rt_sem_take 0 50 \<lparr>sem_value = 0, sem_flag = 0\<rparr> (two_threads 5 10 3) = Some (Waiting 0, \<lparr>sem_value = 0, sem_flag = 0\<rparr>, k)"
    "sys_run ((\<lambda>_. None)(0 \<mapsto> OSem \<lparr>sem_value = 0, sem_flag = 0\<rparr>, 1 \<mapsto> OMutex (rt_mutex_init 1), 0 \<mapsto> OSem \<lparr>sem_value = 0, sem_flag = 0\<rparr>)) k"
    by (rule sys_example)
  from threads_well_typed [OF k(2)] k(1) show ?thesis by blast
qed



end
