(* ===== verification/Rt_Heap.thy ===== *)
theory Rt_Heap
  imports Ipc
begin

text \<open>
  The heap of RTT4/src/mem.c. Addresses, sizes and the offsets stored in headers are natural numbers below \<open>2\<^sup>3\<^sup>2\<close>;
  \<open>add32\<close> and \<open>sub32\<close> are the unsigned operations with their wrap-around. \<open>hdr h a\<close> is the \<^verbatim>\<open>struct heap_mem\<close> at address
  \<open>a\<close>, \<open>cells h a\<close> the byte of user data at address \<open>a\<close>; that headers and user data do not overlap is part of what is
  proved. The semaphore \<^verbatim>\<open>heap_sem\<close> makes allocation, release and resizing in place one step each; a reallocation that moves
  a block is an allocation, a copy and a release in a row. \<open>None\<close> is a failed assertion or a loop that does not
  end. A null pointer result is \<open>RT_NULL\<close>, the address 0.
\<close>

record heap_mem =
  hm_magic :: u16
  hm_used :: u16
  hm_next :: nat
  hm_prev :: nat

record heap =
  heap_ptr :: nat
  heap_end :: nat
  lfree :: nat
  mem_size_aligned :: nat
  used_mem :: nat
  max_mem :: nat
  hdr :: "nat \<Rightarrow> heap_mem"
  cells :: "nat \<Rightarrow> u8"

abbreviation (input) RT_NULL :: nat where "RT_NULL \<equiv> 0"
abbreviation (input) HEAP_MAGIC :: u16 where "HEAP_MAGIC \<equiv> 0x1ea0"
abbreviation (input) MIN_SIZE :: nat where "MIN_SIZE \<equiv> 12"
abbreviation (input) MIN_SIZE_ALIGNED :: nat where "MIN_SIZE_ALIGNED \<equiv> 16"
abbreviation (input) SIZEOF_STRUCT_MEM :: nat where "SIZEOF_STRUCT_MEM \<equiv> 16"

definition add32 :: "nat \<Rightarrow> nat \<Rightarrow> nat" where
  "add32 a b = (a + b) mod 4294967296"

definition sub32 :: "nat \<Rightarrow> nat \<Rightarrow> nat" where
  "sub32 a b = (a + 4294967296 - b) mod 4294967296"

definition upd_hdr :: "nat \<Rightarrow> (heap_mem \<Rightarrow> heap_mem) \<Rightarrow> heap \<Rightarrow> heap" where
  "upd_hdr a f h = h\<lparr>hdr := (hdr h)(a := f (hdr h a))\<rparr>"

section \<open>Operations\<close>

text \<open>Merge a free block with a free successor, then with a free predecessor.\<close>

definition plug_forward :: "nat \<Rightarrow> heap \<Rightarrow> heap" where
  "plug_forward mem h =
     (let nmem = add32 (heap_ptr h) (hm_next (hdr h mem))
      in if mem \<noteq> nmem \<and> hm_used (hdr h nmem) = 0 \<and> nmem \<noteq> heap_end h then
           let h = (if lfree h = nmem then h\<lparr>lfree := mem\<rparr> else h);
               h = upd_hdr mem (\<lambda>m. m\<lparr>hm_next := hm_next (hdr h nmem)\<rparr>) h
           in upd_hdr (add32 (heap_ptr h) (hm_next (hdr h nmem))) (\<lambda>m. m\<lparr>hm_prev := sub32 mem (heap_ptr h)\<rparr>) h
         else h)"

definition plug_backward :: "nat \<Rightarrow> heap \<Rightarrow> heap" where
  "plug_backward mem h =
     (let pmem = add32 (heap_ptr h) (hm_prev (hdr h mem))
      in if pmem \<noteq> mem \<and> hm_used (hdr h pmem) = 0 then
           let h = (if lfree h = mem then h\<lparr>lfree := pmem\<rparr> else h);
               h = upd_hdr pmem (\<lambda>m. m\<lparr>hm_next := hm_next (hdr h mem)\<rparr>) h
           in upd_hdr (add32 (heap_ptr h) (hm_next (hdr h mem))) (\<lambda>m. m\<lparr>hm_prev := sub32 pmem (heap_ptr h)\<rparr>) h
         else h)"

definition plug_holes :: "nat \<Rightarrow> heap \<Rightarrow> heap option" where
  "plug_holes mem h = do {
     RT_ASSERT (heap_ptr h \<le> mem);
     RT_ASSERT (mem < heap_end h);
     RT_ASSERT (hm_used (hdr h mem) = 0);
     Some (plug_backward mem (plug_forward mem h)) }"

definition rt_system_heap_init :: "u32 \<Rightarrow> u32 \<Rightarrow> kernel \<Rightarrow> heap \<Rightarrow> heap option" where
  "rt_system_heap_init begin_addr end_addr k h = do {
     let begin_align = unat (RT_ALIGN begin_addr RT_ALIGN_SIZE);
     let end_align = unat (RT_ALIGN_DOWN end_addr RT_ALIGN_SIZE);
     RT_DEBUG_NOT_IN_INTERRUPT k;
     if 2 * SIZEOF_STRUCT_MEM < end_align \<and> begin_align \<le> sub32 end_align (2 * SIZEOF_STRUCT_MEM) then do {
       let h = h\<lparr>mem_size_aligned := sub32 (sub32 end_align begin_align) (2 * SIZEOF_STRUCT_MEM)\<rparr>;
       let h = h\<lparr>heap_ptr := begin_align\<rparr>;
       let h = upd_hdr (heap_ptr h) (\<lambda>m. \<lparr>hm_magic = HEAP_MAGIC, hm_used = 0,
                 hm_next = add32 (mem_size_aligned h) SIZEOF_STRUCT_MEM, hm_prev = 0\<rparr>) h;
       let h = h\<lparr>heap_end := add32 (heap_ptr h) (hm_next (hdr h (heap_ptr h)))\<rparr>;
       let h = upd_hdr (heap_end h) (\<lambda>m. \<lparr>hm_magic = HEAP_MAGIC, hm_used = 1,
                 hm_next = add32 (mem_size_aligned h) SIZEOF_STRUCT_MEM,
                 hm_prev = add32 (mem_size_aligned h) SIZEOF_STRUCT_MEM\<rparr>) h;
       Some (h\<lparr>lfree := heap_ptr h\<rparr>) }
     else Some h }"

text \<open>The search of \<^verbatim>\<open>rt_malloc\<close> for the first free block that is large enough: its offset, if there is one.\<close>

partial_function (option) malloc_search :: "heap \<Rightarrow> nat \<Rightarrow> nat \<Rightarrow> nat option option" where
  "malloc_search h sz ptr =
     (if ptr < sub32 (mem_size_aligned h) sz then
        let mem = hdr h (add32 (heap_ptr h) ptr)
        in if hm_used mem = 0 \<and> sz \<le> sub32 (hm_next mem) (add32 ptr SIZEOF_STRUCT_MEM) then Some (Some ptr)
           else malloc_search h sz (hm_next mem)
      else Some None)"

text \<open>Mark the block as used, after splitting off the rest if that is large enough, and account for it.\<close>

definition count_used :: "nat \<Rightarrow> heap \<Rightarrow> heap" where
  "count_used n h =
     (let h = h\<lparr>used_mem := add32 (used_mem h) n\<rparr>
      in if max_mem h < used_mem h then h\<lparr>max_mem := used_mem h\<rparr> else h)"

definition malloc_take :: "nat \<Rightarrow> nat \<Rightarrow> heap \<Rightarrow> heap" where
  "malloc_take sz ptr h =
     (let mem = add32 (heap_ptr h) ptr;
          h = (if add32 (add32 sz SIZEOF_STRUCT_MEM) MIN_SIZE_ALIGNED \<le> sub32 (hm_next (hdr h mem)) (add32 ptr SIZEOF_STRUCT_MEM) then
                 let ptr2 = add32 (add32 ptr SIZEOF_STRUCT_MEM) sz;
                     mem2 = add32 (heap_ptr h) ptr2;
                     h = upd_hdr mem2 (\<lambda>m. \<lparr>hm_magic = HEAP_MAGIC, hm_used = 0, hm_next = hm_next (hdr h mem), hm_prev = ptr\<rparr>) h;
                     h = upd_hdr mem (\<lambda>m. m\<lparr>hm_next := ptr2, hm_used := 1\<rparr>) h;
                     h = (if hm_next (hdr h mem2) \<noteq> add32 (mem_size_aligned h) SIZEOF_STRUCT_MEM
                          then upd_hdr (add32 (heap_ptr h) (hm_next (hdr h mem2))) (\<lambda>m. m\<lparr>hm_prev := ptr2\<rparr>) h else h)
                 in count_used (add32 sz SIZEOF_STRUCT_MEM) h
               else
                 let h = upd_hdr mem (\<lambda>m. m\<lparr>hm_used := 1\<rparr>) h
                 in count_used (sub32 (hm_next (hdr h mem)) (sub32 mem (heap_ptr h))) h)
      in upd_hdr mem (\<lambda>m. m\<lparr>hm_magic := HEAP_MAGIC\<rparr>) h)"

text \<open>\<^verbatim>\<open>while (lfree->used && lfree != heap_end) lfree = (struct heap_mem *)&heap_ptr[lfree->next]\<close>.\<close>

partial_function (option) lfree_loop :: "heap \<Rightarrow> nat \<Rightarrow> nat option" where
  "lfree_loop h l =
     (if hm_used (hdr h l) \<noteq> 0 \<and> l \<noteq> heap_end h then lfree_loop h (add32 (heap_ptr h) (hm_next (hdr h l))) else Some l)"

definition rt_malloc :: "u32 \<Rightarrow> kernel \<Rightarrow> heap \<Rightarrow> (nat \<times> heap) option" where
  "rt_malloc size0 k h =
     (if size0 = 0 then Some (RT_NULL, h)
      else do {
        RT_DEBUG_NOT_IN_INTERRUPT k;
        let sz = unat (RT_ALIGN size0 RT_ALIGN_SIZE);
        if mem_size_aligned h < sz then Some (RT_NULL, h)
        else do {
          let sz = (if sz < MIN_SIZE_ALIGNED then MIN_SIZE_ALIGNED else sz);
          r \<leftarrow> malloc_search h sz (sub32 (lfree h) (heap_ptr h));
          case r of
            None \<Rightarrow> Some (RT_NULL, h)
          | Some ptr \<Rightarrow> do {
              let mem = add32 (heap_ptr h) ptr;
              let h = malloc_take sz ptr h;
              h \<leftarrow> (if mem = lfree h then do {
                     l \<leftarrow> lfree_loop h (lfree h);
                     RT_ASSERT (l = heap_end h \<or> hm_used (hdr h l) = 0);
                     Some (h\<lparr>lfree := l\<rparr>) }
                   else Some h);
              RT_ASSERT (add32 (add32 mem SIZEOF_STRUCT_MEM) sz \<le> heap_end h);
              RT_ASSERT (add32 mem SIZEOF_STRUCT_MEM mod 8 = 0);
              RT_ASSERT (mem mod 8 = 0);
              Some (add32 mem SIZEOF_STRUCT_MEM, h) } } })"

definition rt_free :: "nat \<Rightarrow> kernel \<Rightarrow> heap \<Rightarrow> heap option" where
  "rt_free rmem k h =
     (if rmem = RT_NULL then Some h
      else do {
        RT_DEBUG_NOT_IN_INTERRUPT k;
        RT_ASSERT (rmem mod 8 = 0);
        RT_ASSERT (heap_ptr h \<le> rmem \<and> rmem < heap_end h);
        let mem = sub32 rmem SIZEOF_STRUCT_MEM;
        RT_ASSERT (hm_used (hdr h mem) \<noteq> 0);
        RT_ASSERT (hm_magic (hdr h mem) = HEAP_MAGIC);
        let h = upd_hdr mem (\<lambda>m. m\<lparr>hm_used := 0, hm_magic := HEAP_MAGIC\<rparr>) h;
        let h = (if mem < lfree h then h\<lparr>lfree := mem\<rparr> else h);
        let h = h\<lparr>used_mem := sub32 (used_mem h) (sub32 (hm_next (hdr h mem)) (sub32 mem (heap_ptr h)))\<rparr>;
        plug_holes mem h })"

text \<open>\<^verbatim>\<open>rt_memcpy\<close> and \<^verbatim>\<open>rt_memset\<close> on user data.\<close>

definition copy_cells :: "nat \<Rightarrow> nat \<Rightarrow> nat \<Rightarrow> heap \<Rightarrow> heap" where
  "copy_cells dst src n h = h\<lparr>cells := (\<lambda>a. if dst \<le> a \<and> a < dst + n then cells h (src + (a - dst)) else cells h a)\<rparr>"

definition zero_cells :: "nat \<Rightarrow> nat \<Rightarrow> heap \<Rightarrow> heap" where
  "zero_cells dst n h = h\<lparr>cells := (\<lambda>a. if dst \<le> a \<and> a < dst + n then 0 else cells h a)\<rparr>"

text \<open>The splitting branch of \<^verbatim>\<open>rt_realloc\<close>.\<close>

definition realloc_split :: "nat \<Rightarrow> nat \<Rightarrow> nat \<Rightarrow> nat \<Rightarrow> heap \<Rightarrow> heap option" where
  "realloc_split mem ptr sz newsize h = do {
     let h = h\<lparr>used_mem := sub32 (used_mem h) (sub32 sz newsize)\<rparr>;
     let ptr2 = add32 (add32 ptr SIZEOF_STRUCT_MEM) newsize;
     let mem2 = add32 (heap_ptr h) ptr2;
     let h = upd_hdr mem2 (\<lambda>m. \<lparr>hm_magic = HEAP_MAGIC, hm_used = 0, hm_next = hm_next (hdr h mem), hm_prev = ptr\<rparr>) h;
     let h = upd_hdr mem (\<lambda>m. m\<lparr>hm_next := ptr2\<rparr>) h;
     let h = (if hm_next (hdr h mem2) \<noteq> add32 (mem_size_aligned h) SIZEOF_STRUCT_MEM
              then upd_hdr (add32 (heap_ptr h) (hm_next (hdr h mem2))) (\<lambda>m. m\<lparr>hm_prev := ptr2\<rparr>) h else h);
     plug_holes mem2 h }"

definition rt_realloc :: "nat \<Rightarrow> u32 \<Rightarrow> kernel \<Rightarrow> heap \<Rightarrow> (nat \<times> heap) option" where
  "rt_realloc rmem newsize0 k h = do {
     RT_DEBUG_NOT_IN_INTERRUPT k;
     let newsize = unat (RT_ALIGN newsize0 RT_ALIGN_SIZE);
     if mem_size_aligned h < newsize then Some (RT_NULL, h)
     else if newsize = 0 then do { h \<leftarrow> rt_free rmem k h; Some (RT_NULL, h) }
     else if rmem = RT_NULL then rt_malloc (of_nat newsize) k h
     else if rmem < heap_ptr h \<or> heap_end h \<le> rmem then Some (rmem, h)
     else do {
       let mem = sub32 rmem SIZEOF_STRUCT_MEM;
       let ptr = sub32 mem (heap_ptr h);
       let sz = sub32 (sub32 (hm_next (hdr h mem)) ptr) SIZEOF_STRUCT_MEM;
       if sz = newsize then Some (rmem, h)
       else if add32 (add32 newsize SIZEOF_STRUCT_MEM) MIN_SIZE < sz then do {
         h \<leftarrow> realloc_split mem ptr sz newsize h;
         Some (rmem, h) }
       else do {
         (nmem, h) \<leftarrow> rt_malloc (of_nat newsize) k h;
         if nmem \<noteq> RT_NULL then do {
           let h = copy_cells nmem rmem (if sz < newsize then sz else newsize) h;
           h \<leftarrow> rt_free rmem k h;
           Some (nmem, h) }
         else Some (nmem, h) } } }"

definition rt_calloc :: "u32 \<Rightarrow> u32 \<Rightarrow> kernel \<Rightarrow> heap \<Rightarrow> (nat \<times> heap) option" where
  "rt_calloc cnt sz k h = do {
     (p, h) \<leftarrow> rt_malloc (cnt * sz) k h;
     Some (p, if p \<noteq> RT_NULL then zero_cells p (unat (cnt * sz)) h else h) }"

definition rt_memory_info :: "heap \<Rightarrow> nat \<times> nat \<times> nat" where
  "rt_memory_info h = (mem_size_aligned h, used_mem h, max_mem h)"

section \<open>The heap as a sequence of segments\<close>

text \<open>A segment is a header with the space behind it: its total length and whether it is in use.\<close>

type_synonym seg = "nat \<times> bool"

abbreviation seg_len :: "seg list \<Rightarrow> nat" where
  "seg_len ss \<equiv> sum_list (map fst ss)"

text \<open>\<open>rep h q p ss q' p'\<close>: the headers from offset \<open>p\<close> on, whose first links back to \<open>q\<close>, are those of the segments \<open>ss\<close>;
  they end at offset \<open>p'\<close>, and the last one is at \<open>q'\<close>.\<close>

fun rep :: "heap \<Rightarrow> nat \<Rightarrow> nat \<Rightarrow> seg list \<Rightarrow> nat \<Rightarrow> nat \<Rightarrow> bool" where
  "rep h q p [] q' p' \<longleftrightarrow> q' = q \<and> p' = p"
| "rep h q p ((n, u) # ss) q' p' \<longleftrightarrow>
     hdr h (heap_ptr h + p) = \<lparr>hm_magic = HEAP_MAGIC, hm_used = of_bool u, hm_next = p + n, hm_prev = q\<rparr>
     \<and> 24 \<le> n \<and> 8 dvd n \<and> rep h p (p + n) ss q' p'"

text \<open>The used segments with their offsets.\<close>

fun used_segs :: "nat \<Rightarrow> seg list \<Rightarrow> (nat \<times> nat) list" where
  "used_segs p [] = []"
| "used_segs p ((n, u) # ss) = (if u then (p, n) # used_segs (p + n) ss else used_segs (p + n) ss)"

text \<open>Where \<^verbatim>\<open>lfree\<close> may point: to a free segment or to the end of the heap.\<close>

fun free_in :: "nat \<Rightarrow> seg list \<Rightarrow> nat \<Rightarrow> bool" where
  "free_in p [] l \<longleftrightarrow> False"
| "free_in p ((n, u) # ss) l \<longleftrightarrow> \<not> u \<and> l = p \<or> free_in (p + n) ss l"

definition lfree_at :: "seg list \<Rightarrow> nat \<Rightarrow> bool" where
  "lfree_at ss l \<longleftrightarrow> l = seg_len ss \<or> free_in 0 ss l"

definition no_holes :: "seg list \<Rightarrow> bool" where
  "no_holes ss \<longleftrightarrow> successively (\<lambda>a b. snd a \<or> snd b) ss"

definition geometry :: "heap \<Rightarrow> bool" where
  "geometry h \<longleftrightarrow> 8 dvd heap_ptr h \<and> 0 < heap_ptr h \<and> 8 dvd mem_size_aligned h \<and> 16 \<le> mem_size_aligned h
     \<and> heap_end h = heap_ptr h + mem_size_aligned h + 16 \<and> heap_end h + 16 \<le> 4294967296"

definition heap_wf :: "seg list \<Rightarrow> heap \<Rightarrow> bool" where
  "heap_wf ss h \<longleftrightarrow> geometry h \<and> (\<exists>q. rep h 0 0 ss q (mem_size_aligned h + 16)) \<and> no_holes ss
     \<and> (\<exists>l. lfree h = heap_ptr h + l \<and> lfree_at ss l) \<and> used_mem h = sum_list (map snd (used_segs 0 ss))"

section \<open>Lemmas on representations\<close>

lemma add32_small [simp]: "a + b < 4294967296 \<Longrightarrow> add32 a b = a + b"
  by (simp add: add32_def)

lemma sub32_small [simp]: "b \<le> a \<Longrightarrow> a < 4294967296 \<Longrightarrow> sub32 a b = a - b"
proof -
  assume a: "b \<le> a" "a < 4294967296"
  have "a + 4294967296 - b = (a - b) + 4294967296" using a by simp
  then have "(a + 4294967296 - b) mod 4294967296 = (a - b) mod 4294967296" by (metis mod_add_self2)
  then show ?thesis using a by (simp add: sub32_def)
qed

lemma upd_hdr_simps [simp]:
  "heap_ptr (upd_hdr a f h) = heap_ptr h" "heap_end (upd_hdr a f h) = heap_end h" "lfree (upd_hdr a f h) = lfree h"
  "mem_size_aligned (upd_hdr a f h) = mem_size_aligned h" "used_mem (upd_hdr a f h) = used_mem h"
  "max_mem (upd_hdr a f h) = max_mem h" "cells (upd_hdr a f h) = cells h"
  "hdr (upd_hdr a f h) b = (if b = a then f (hdr h a) else hdr h b)"
  by (simp_all add: upd_hdr_def)

lemma rep_end: "rep h q p ss q' p' \<Longrightarrow> p' = p + seg_len ss"
  by (induction h q p ss q' p' rule: rep.induct) auto

lemma rep_append: "rep h q p (as @ bs) q' p' \<longleftrightarrow> (\<exists>r. rep h q p as r (p + seg_len as) \<and> rep h r (p + seg_len as) bs q' p')"
  by (induction as arbitrary: q p) (auto simp: add.assoc)

lemma rep_cong:
  "heap_ptr h' = heap_ptr h \<Longrightarrow> \<forall>a. p \<le> a \<and> a < p + seg_len ss \<longrightarrow> hdr h' (heap_ptr h + a) = hdr h (heap_ptr h + a) \<Longrightarrow>
    rep h' q p ss q' p' = rep h q p ss q' p'"
proof (induction h q p ss q' p' rule: rep.induct)
  case (2 h q p n u ss q' p')
  have IH: "rep h' p (p + n) ss q' p' = rep h p (p + n) ss q' p'" by (rule "2.IH") (use "2.prems" in auto)
  show ?case
  proof (cases "24 \<le> n")
    case True
    then have "hdr h' (heap_ptr h + p) = hdr h (heap_ptr h + p)" using "2.prems"(2) by simp
    with IH "2.prems"(1) show ?thesis by simp
  qed simp
qed simp

lemma rep_upd_other:
  "a < heap_ptr h + p \<or> heap_ptr h + p + seg_len ss \<le> a \<Longrightarrow> rep (upd_hdr a f h) q p ss q' p' = rep h q p ss q' p'"
  by (intro rep_cong) auto

text \<open>Changing the back link of the first header, or of the end of the heap.\<close>

lemma rep_set_prev:
  assumes "rep h q p ss q' p'"
  shows "\<exists>q''. rep (upd_hdr (heap_ptr h + p) (\<lambda>m. m\<lparr>hm_prev := r\<rparr>) h) r p ss q'' p'"
proof (cases ss)
  case Nil
  with assms show ?thesis by simp
next
  case (Cons s ss')
  obtain n u where s: "s = (n, u)" by (cases s)
  have n: "24 \<le> n" and r: "rep h p (p + n) ss' q' p'" using assms Cons s by simp_all
  have "rep (upd_hdr (heap_ptr h + p) (\<lambda>m. m\<lparr>hm_prev := r\<rparr>) h) p (p + n) ss' q' p'"
    using r n by (subst rep_upd_other) auto
  with assms Cons s show ?thesis by (intro exI [of _ q']) simp
qed

lemma free_in_append: "free_in p (as @ bs) l \<longleftrightarrow> free_in p as l \<or> free_in (p + seg_len as) bs l"
  by (induction as arbitrary: p) (auto simp: add.assoc)

lemma free_in_split: "free_in p ss l \<Longrightarrow> \<exists>as n bs. ss = as @ (n, False) # bs \<and> l = p + seg_len as"
proof (induction p ss l rule: free_in.induct)
  case (2 p n u ss l)
  show ?case
  proof (cases "\<not> u \<and> l = p")
    case True
    then show ?thesis by (intro exI [of _ "[]"] exI [of _ n] exI [of _ ss]) auto
  next
    case False
    with 2 obtain as m bs where "ss = as @ (m, False) # bs" "l = p + n + seg_len as" by auto
    then show ?thesis by (intro exI [of _ "(n, u) # as"] exI [of _ m] exI [of _ bs]) auto
  qed
qed simp

lemma used_segs_append: "used_segs p (as @ bs) = used_segs p as @ used_segs (p + seg_len as) bs"
  by (induction as arbitrary: p) (auto simp: add.assoc)

lemma rep_bounds: "rep h q p ss q' p' \<Longrightarrow> (a, n) \<in> set (used_segs p ss) \<Longrightarrow> p \<le> a \<and> 24 \<le> n \<and> 8 dvd n \<and> a + n \<le> p'"
proof (induction h q p ss q' p' rule: rep.induct)
  case (2 h q p n u ss q' p')
  then show ?case using rep_end [of h p "p + n" ss q' p'] by (auto split: if_splits)
qed simp

lemma rep_aligned: "rep h q p ss q' p' \<Longrightarrow> 8 dvd p \<Longrightarrow> (a, n) \<in> set (used_segs p ss) \<Longrightarrow> 8 dvd a"
  by (induction h q p ss q' p' rule: rep.induct) (auto split: if_splits)

lemma rep_len_aligned: "rep h q p ss q' p' \<Longrightarrow> 8 dvd seg_len ss"
  by (induction ss arbitrary: q p) auto

text \<open>Used segments do not overlap.\<close>

lemma used_disjoint:
  "rep h q p ss q' p' \<Longrightarrow> (a, n) \<in> set (used_segs p ss) \<Longrightarrow> (b, m) \<in> set (used_segs p ss) \<Longrightarrow>
    (a, n) = (b, m) \<or> a + n \<le> b \<or> b + m \<le> a"
proof (induction h q p ss q' p' rule: rep.induct)
  case (2 h q p k u ss q' p')
  have r: "rep h p (p + k) ss q' p'" using "2.prems"(1) by simp
  have ge: "p + k \<le> x" if "(x, y) \<in> set (used_segs (p + k) ss)" for x y using rep_bounds [OF r that] by simp
  show ?case using "2.IH" [OF r] "2.prems"(2,3) ge [of a n] ge [of b m] by (auto split: if_splits)
qed simp

lemma used_segs_split:
  "(a, n) \<in> set (used_segs p ss) \<Longrightarrow> \<exists>as bs. ss = as @ (n, True) # bs \<and> a = p + seg_len as"
proof (induction p ss rule: used_segs.induct)
  case (2 p k u ss)
  show ?case
  proof (cases "u \<and> a = p \<and> n = k")
    case True
    then show ?thesis by (intro exI [of _ "[]"] exI [of _ ss]) auto
  next
    case False
    with 2 obtain as bs where "ss = as @ (n, True) # bs" "a = p + k + seg_len as" by (auto split: if_splits)
    then show ?thesis by (intro exI [of _ "(k, u) # as"] exI [of _ bs]) auto
  qed
qed simp

lemma no_holes_append: "no_holes (as @ b # bs) \<longleftrightarrow>
    no_holes as \<and> no_holes bs \<and> (as \<noteq> [] \<longrightarrow> snd (last as) \<or> snd b) \<and> (bs \<noteq> [] \<longrightarrow> snd b \<or> snd (hd bs))"
  by (cases bs) (auto simp: no_holes_def successively_append_iff)

section \<open>Allocation\<close>

text \<open>First fit over the segments from offset \<open>p\<close>, among those that start before \<open>lim\<close>.\<close>

fun fit :: "nat \<Rightarrow> nat \<Rightarrow> nat \<Rightarrow> seg list \<Rightarrow> nat option" where
  "fit lim sz p [] = None"
| "fit lim sz p ((n, u) # ss) = (if p < lim then if \<not> u \<and> sz + 16 \<le> n then Some p else fit lim sz (p + n) ss else None)"

lemma search_fit:
  assumes g: "geometry h" and z: "sz \<le> mem_size_aligned h" and r: "rep h q p ss q' (mem_size_aligned h + 16)"
  shows "malloc_search h sz p = Some (fit (mem_size_aligned h - sz) sz p ss)"
  using r
proof (induction ss arbitrary: q p)
  case Nil
  then have "\<not> p < sub32 (mem_size_aligned h) sz" using g z by (auto simp: geometry_def)
  then show ?case by (subst malloc_search.simps) simp
next
  case (Cons s ss)
  obtain n u where s: "s = (n, u)" by (cases s)
  note pr = Cons.prems [unfolded s]
  have e: "mem_size_aligned h + 16 = p + (n + seg_len ss)" using rep_end [OF pr] by simp
  have b: "heap_ptr h + p + n + 16 \<le> 4294967296" "24 \<le> n" using g e pr by (auto simp: geometry_def)
  have "sub32 (p + n) (add32 p 16) = n - 16" using b by simp
  moreover have "malloc_search h sz (p + n) = Some (fit (mem_size_aligned h - sz) sz (p + n) ss)" using Cons.IH pr by auto
  ultimately show ?case
    using pr b g z by (subst malloc_search.simps) (auto simp: s geometry_def)
qed

lemma fit_split: "fit lim sz p ss = Some x \<Longrightarrow> \<exists>as n bs. ss = as @ (n, False) # bs \<and> x = p + seg_len as \<and> sz + 16 \<le> n"
proof (induction ss arbitrary: p)
  case (Cons s ss)
  obtain n u where s: "s = (n, u)" by (cases s)
  show ?case
  proof (cases "\<not> u \<and> sz + 16 \<le> n")
    case True
    with Cons.prems s show ?thesis by (intro exI [of _ "[]"] exI [of _ n] exI [of _ ss]) (auto split: if_splits)
  next
    case False
    with Cons.prems s have "fit lim sz (p + n) ss = Some x" by (auto split: if_splits)
    from Cons.IH [OF this] obtain as m bs where "ss = as @ (m, False) # bs" "x = p + n + seg_len as" "sz + 16 \<le> m" by blast
    then show ?thesis using s by (intro exI [of _ "s # as"] exI [of _ m] exI [of _ bs]) auto
  qed
qed simp

lemma fit_complete:
  "p + seg_len as < lim \<Longrightarrow> sz + 16 \<le> n \<Longrightarrow> fit lim sz p (as @ (n, False) # bs) \<noteq> None"
  by (induction as arbitrary: p) (auto simp: add.assoc)

definition new_segs :: "nat \<Rightarrow> nat \<Rightarrow> seg list" where
  "new_segs sz n = (if sz + 48 \<le> n then [(sz + 16, True), (n - sz - 16, False)] else [(n, True)])"

lemma new_segs_len [simp]: "seg_len (new_segs sz n) = n"
  by (simp add: new_segs_def)

lemma count_used_simps [simp]:
  "hdr (count_used n h) = hdr h" "heap_ptr (count_used n h) = heap_ptr h" "heap_end (count_used n h) = heap_end h"
  "lfree (count_used n h) = lfree h" "mem_size_aligned (count_used n h) = mem_size_aligned h" "cells (count_used n h) = cells h"
  "used_mem (count_used n h) = add32 (used_mem h) n"
  by (simp_all add: count_used_def Let_def)

lemma rep_split:
  assumes "rep h 0 0 (as @ (n, u) # bs) q E"
  obtains r where "rep h 0 0 as r (seg_len as)" "rep h (seg_len as) (seg_len as + n) bs q E" "24 \<le> n" "8 dvd n"
    "hdr h (heap_ptr h + seg_len as) = \<lparr>hm_magic = HEAP_MAGIC, hm_used = of_bool u, hm_next = seg_len as + n, hm_prev = r\<rparr>"
    "E = seg_len as + n + seg_len bs"
  using assms rep_end [OF assms] by (auto simp: rep_append)

lemma rep_pos: "rep h q p ss q' p' \<Longrightarrow> ss \<noteq> [] \<Longrightarrow> 24 \<le> seg_len ss"
  by (cases ss) auto

text \<open>Segments are replaced by others of the same length when the new headers are in place, those before are untouched
  and the next header links back to the last of them.\<close>

lemma rep_replace_list:
  assumes r: "rep h 0 0 (as @ old @ bs) q E" and hp: "heap_ptr h' = heap_ptr h"
    and new: "rep h' r (seg_len as) new q1 (seg_len as + seg_len old)" and q: "rep h 0 0 as r (seg_len as)"
    and lo: "\<forall>a. a < heap_ptr h + seg_len as \<longrightarrow> hdr h' a = hdr h a"
    and nx: "bs \<noteq> [] \<longrightarrow> hdr h' (heap_ptr h + (seg_len as + seg_len old)) = (hdr h (heap_ptr h + (seg_len as + seg_len old)))\<lparr>hm_prev := q1\<rparr>"
    and hi: "\<forall>a. heap_ptr h + (seg_len as + seg_len old) < a \<and> a < heap_ptr h + E \<longrightarrow> hdr h' a = hdr h a"
  shows "\<exists>q'. rep h' 0 0 (as @ new @ bs) q' E"
proof -
  let ?N = "seg_len as + seg_len old"
  obtain r' where s: "rep h r' ?N bs q E" using r by (auto simp: rep_append add.assoc)
  have e: "E = ?N + seg_len bs" by (rule rep_end [OF s])
  have A: "rep h' 0 0 as r (seg_len as)" using q lo hp by (subst rep_cong) auto
  have "\<exists>q'. rep h' q1 ?N bs q' E"
  proof (cases "bs = []")
    case True
    with s show ?thesis by simp
  next
    case False
    let ?h = "upd_hdr (heap_ptr h + ?N) (\<lambda>m. m\<lparr>hm_prev := q1\<rparr>) h"
    obtain q' where "rep ?h q1 ?N bs q' E" using rep_set_prev [OF s, of q1] by blast
    moreover have "rep h' q1 ?N bs q' E = rep ?h q1 ?N bs q' E"
    proof (rule rep_cong)
      show "\<forall>a. ?N \<le> a \<and> a < ?N + seg_len bs \<longrightarrow> hdr h' (heap_ptr ?h + a) = hdr ?h (heap_ptr ?h + a)"
      proof (intro allI impI)
        fix a assume a: "?N \<le> a \<and> a < ?N + seg_len bs"
        show "hdr h' (heap_ptr ?h + a) = hdr ?h (heap_ptr ?h + a)"
          using a nx False hi e by (cases "a = ?N") auto
      qed
    qed (simp add: hp)
    ultimately show ?thesis by blast
  qed
  then obtain q' where B: "rep h' q1 ?N bs q' E" by blast
  have "seg_len new = seg_len old" using rep_end [OF new] by simp
  with A B new have "rep h' 0 0 (as @ new @ bs) q' E" by (auto simp: rep_append)
  then show ?thesis by blast
qed

lemma rep_replace:
  assumes "rep h 0 0 (as @ (n, u) # bs) q E" "heap_ptr h' = heap_ptr h"
    "rep h' r (seg_len as) new q1 (seg_len as + n)" "rep h 0 0 as r (seg_len as)"
    "\<forall>a. a < heap_ptr h + seg_len as \<longrightarrow> hdr h' a = hdr h a"
    "bs \<noteq> [] \<longrightarrow> hdr h' (heap_ptr h + (seg_len as + n)) = (hdr h (heap_ptr h + (seg_len as + n)))\<lparr>hm_prev := q1\<rparr>"
    "\<forall>a. heap_ptr h + (seg_len as + n) < a \<and> a < heap_ptr h + E \<longrightarrow> hdr h' a = hdr h a"
  shows "\<exists>q'. rep h' 0 0 (as @ new @ bs) q' E"
  using rep_replace_list [of h as "[(n, u)]" bs q E h' r new q1] assms by simp

lemma malloc_take_rep:
  assumes g: "geometry h" and r: "rep h 0 0 (as @ (n, False) # bs) q (mem_size_aligned h + 16)" and n: "sz + 16 \<le> n" and z: "8 dvd sz" "16 \<le> sz"
  defines "h' \<equiv> malloc_take sz (seg_len as) h"
  shows "\<exists>q'. rep h' 0 0 (as @ new_segs sz n @ bs) q' (mem_size_aligned h + 16)"
    "heap_ptr h' = heap_ptr h" "heap_end h' = heap_end h" "mem_size_aligned h' = mem_size_aligned h" "lfree h' = lfree h" "cells h' = cells h"
    "used_mem h' = add32 (used_mem h) (fst (hd (new_segs sz n)))"
proof -
  let ?P = "seg_len as" and ?b = "heap_ptr h"
  obtain r0 where s: "rep h 0 0 as r0 ?P" "rep h ?P (?P + n) bs q (mem_size_aligned h + 16)" "24 \<le> n" "8 dvd n"
    "hdr h (?b + ?P) = \<lparr>hm_magic = HEAP_MAGIC, hm_used = of_bool False, hm_next = ?P + n, hm_prev = r0\<rparr>"
    "mem_size_aligned h + 16 = ?P + n + seg_len bs" using r by (rule rep_split)
  have b: "?b + ?P + n + 16 \<le> 4294967296" "?b + ?P + n + seg_len bs + 16 \<le> 4294967296" "0 < ?b" using g s(6) by (auto simp: geometry_def)
  have m: "add32 ?b ?P = ?b + ?P" "sub32 (?P + n) (add32 ?P 16) = n - 16" "add32 (add32 ?P 16) sz = ?P + 16 + sz"
    "add32 ?b (?P + 16 + sz) = ?b + (?P + 16 + sz)" "add32 ?b (?P + n) = ?b + (?P + n)" "add32 (add32 sz 16) 16 = sz + 32"
    "add32 (mem_size_aligned h) 16 = mem_size_aligned h + 16" "sub32 (?b + ?P) ?b = ?P" "sub32 (?P + n) ?P = n" "add32 sz 16 = sz + 16"
    using b n s(3,6) by simp_all
  have cond: "sz + 32 \<le> n - 16 \<longleftrightarrow> sz + 48 \<le> n" by linarith
  have last: "?P + n \<noteq> mem_size_aligned h + 16 \<longleftrightarrow> bs \<noteq> []" using s(6) rep_pos [OF s(2)] by (cases "bs = []") (simp, linarith)
  have fr: "heap_ptr h' = heap_ptr h \<and> heap_end h' = heap_end h \<and> mem_size_aligned h' = mem_size_aligned h \<and> lfree h' = lfree h \<and> cells h' = cells h"
    by (simp add: h'_def malloc_take_def Let_def)
  show "heap_ptr h' = heap_ptr h" "heap_end h' = heap_end h" "mem_size_aligned h' = mem_size_aligned h" "lfree h' = lfree h" "cells h' = cells h"
    using fr by simp_all
  show "used_mem h' = add32 (used_mem h) (fst (hd (new_segs sz n)))"
  proof (cases "sz + 48 \<le> n")
    case True
    then show ?thesis using s(5) m by (simp add: h'_def malloc_take_def Let_def new_segs_def cond)
  next
    case False
    then show ?thesis using s(5) m n by (simp add: h'_def malloc_take_def Let_def new_segs_def cond)
  qed
  show "\<exists>q'. rep h' 0 0 (as @ new_segs sz n @ bs) q' (mem_size_aligned h + 16)"
  proof (cases "sz + 48 \<le> n")
    case True
    let ?N = "?b + (?P + n)" and ?M2 = "?b + (?P + 16 + sz)"
    have h: "hdr h' a = (if a = ?b + ?P then \<lparr>hm_magic = HEAP_MAGIC, hm_used = 1, hm_next = ?P + 16 + sz, hm_prev = r0\<rparr>
        else if a = ?M2 then \<lparr>hm_magic = HEAP_MAGIC, hm_used = 0, hm_next = ?P + n, hm_prev = ?P\<rparr>
        else if a = ?N \<and> bs \<noteq> [] then (hdr h ?N)\<lparr>hm_prev := ?P + 16 + sz\<rparr> else hdr h a)" for a
      using True s(3,5) m last cond by (simp add: h'_def malloc_take_def Let_def)
    show ?thesis
    proof (rule rep_replace [OF r _ _ s(1)])
      show "rep h' r0 ?P (new_segs sz n) (?P + 16 + sz) (?P + n)"
        using True z s(4) fr h by (simp add: new_segs_def add.assoc add.commute [of 16 sz])
    qed (use fr h True s(3) in \<open>auto simp: s(6)\<close>)
  next
    case False
    have h: "hdr h' a = (if a = ?b + ?P then \<lparr>hm_magic = HEAP_MAGIC, hm_used = 1, hm_next = ?P + n, hm_prev = r0\<rparr> else hdr h a)" for a
      using False s(5) m n cond by (simp add: h'_def malloc_take_def Let_def)
    have nx: "bs \<noteq> [] \<longrightarrow> hm_prev (hdr h (?b + (?P + n))) = ?P" using s(2) by (cases bs) auto
    show ?thesis
    proof (rule rep_replace [OF r _ _ s(1)])
      show "rep h' r0 ?P (new_segs sz n) ?P (?P + n)" using False s(3,4) fr h by (simp add: new_segs_def)
      show "bs \<noteq> [] \<longrightarrow> hdr h' (?b + (?P + n)) = (hdr h (?b + (?P + n)))\<lparr>hm_prev := ?P\<rparr>" using h s(3) nx by auto
    qed (use fr h s(3) in auto)
  qed
qed

lemma lfree_loop_ok:
  assumes g: "geometry h" and r: "rep h q p ss q' (mem_size_aligned h + 16)"
  shows "\<exists>l. lfree_loop h (heap_ptr h + p) = Some (heap_ptr h + l) \<and>
    (l = mem_size_aligned h + 16 \<or> (\<exists>as n bs. ss = as @ (n, False) # bs \<and> l = p + seg_len as \<and> (\<forall>a \<in> set as. snd a)))"
  using r
proof (induction ss arbitrary: q p)
  case Nil
  with g show ?case by (subst lfree_loop.simps) (auto simp: geometry_def add.assoc)
next
  case (Cons s ss)
  obtain n u where s: "s = (n, u)" by (cases s)
  note pr = Cons.prems [unfolded s]
  have e: "mem_size_aligned h + 16 = p + (n + seg_len ss)" using rep_end [OF pr] by simp
  have b: "heap_ptr h + p + n + 16 \<le> 4294967296" "24 \<le> n" "heap_ptr h + p \<noteq> heap_end h" using g e pr by (auto simp: geometry_def)
  show ?case
  proof (cases u)
    case False
    with pr s show ?thesis by (subst lfree_loop.simps) (auto intro: exI [of _ p] exI [of _ "[]"])
  next
    case True
    have "rep h p (p + n) ss q' (mem_size_aligned h + 16)" using pr by simp
    from Cons.IH [OF this] obtain l where l: "lfree_loop h (heap_ptr h + (p + n)) = Some (heap_ptr h + l)"
      "l = mem_size_aligned h + 16 \<or> (\<exists>as m bs. ss = as @ (m, False) # bs \<and> l = p + n + seg_len as \<and> (\<forall>a \<in> set as. snd a))" by blast
    have "lfree_loop h (heap_ptr h + p) = lfree_loop h (heap_ptr h + (p + n))"
      using pr b True by (subst lfree_loop.simps) (simp add: add.assoc)
    moreover have "\<exists>as m bs. s # ss = as @ (m, False) # bs \<and> l = p + seg_len as \<and> (\<forall>a \<in> set as. snd a)" if "l \<noteq> mem_size_aligned h + 16"
    proof -
      from l(2) that obtain as m bs where "ss = as @ (m, False) # bs" "l = p + n + seg_len as" "\<forall>a \<in> set as. snd a" by blast
      then show ?thesis using s True by (intro exI [of _ "s # as"] exI [of _ m] exI [of _ bs]) auto
    qed
    ultimately show ?thesis using l(1) by auto
  qed
qed

lemma and_not_mask: "w AND NOT (mask n) = push_bit n (drop_bit n w)" for w :: u32
  by (rule bit_word_eqI) (auto simp: bit_simps)

lemma align_down8: "unat (w AND - 8) = unat w div 8 * 8" for w :: u32
proof -
  have "(- 8 :: u32) = NOT (mask 3)" by (simp add: mask_eq_exp_minus_1)
  then have "unat (w AND - 8) = unat w div 8 * 8 mod 4294967296"
    by (simp only: and_not_mask) (simp add: push_bit_eq_mult drop_bit_eq_div unat_word_ariths(2) unat_div)
  moreover have "unat w div 8 * 8 < 4294967296" using u32_bound [of w] by linarith
  ultimately show ?thesis by simp
qed

lemma align8:
  assumes "unat s \<le> 4294967288"
  shows "unat (RT_ALIGN s 8) = (unat s + 7) div 8 * 8"
proof -
  have "unat (s + 7) = unat s + 7"
    using assms unat_word_ariths(1) [of s 7] by simp
  then show ?thesis by (simp add: RT_ALIGN_def align_down8 add.commute)
qed

lemma align8_wraps:
  assumes "4294967288 < unat s"
  shows "unat (RT_ALIGN s 8) = 0"
proof -
  have "unat (s + 7) = (unat s + 7) mod 4294967296" using unat_word_ariths(1) [of s 7] by simp
  also have "\<dots> = unat s + 7 - 4294967296" using assms u32_bound [of s] by (simp add: le_mod_geq)
  finally have "unat (s + 7) < 8" using u32_bound [of s] by simp
  then show ?thesis by (simp add: RT_ALIGN_def align_down8 add.commute)
qed

text \<open>\<^verbatim>\<open>rt_malloc\<close> on the segments: the size it allocates for a request, and where it looks.\<close>

definition block_size :: "u32 \<Rightarrow> nat" where
  "block_size s = (let sz = unat (RT_ALIGN s RT_ALIGN_SIZE) in if sz < MIN_SIZE_ALIGNED then MIN_SIZE_ALIGNED else sz)"

lemma block_size_props: "8 dvd block_size s" "16 \<le> block_size s"
proof -
  have "unat (RT_ALIGN s 8) = unat (s + 7) div 8 * 8" by (simp add: RT_ALIGN_def align_down8 add.commute)
  then have "8 dvd unat (RT_ALIGN s 8)" by simp
  then show "8 dvd block_size s" "16 \<le> block_size s" by (simp_all add: block_size_def Let_def)
qed

lemma block_size_ge: "unat s \<le> 4294967288 \<Longrightarrow> unat s \<le> block_size s"
  by (simp add: block_size_def Let_def align8) linarith

lemma used_sum_bound: "sum_list (map snd (used_segs p ss)) \<le> seg_len ss"
  by (induction p ss rule: used_segs.induct) auto

lemma lfree_at_replace:
  "lfree_at (as @ (n, False) # bs) l \<Longrightarrow> l \<noteq> seg_len as \<Longrightarrow> seg_len new = n \<Longrightarrow> lfree_at (as @ new @ bs) l"
  by (auto simp: lfree_at_def free_in_append)

lemma used_replace_sum:
  assumes "seg_len new = n"
  shows "sum_list (map snd (used_segs 0 (as @ new @ bs))) + (if u then n else 0)
    = sum_list (map snd (used_segs 0 (as @ (n, u) # bs))) + sum_list (map snd (used_segs (seg_len as) new))"
  using assms by (simp add: used_segs_append)

lemma new_segs_used: "used_segs p (new_segs sz n) = [(p, fst (hd (new_segs sz n)))]"
  by (simp add: new_segs_def)

lemma no_holes_new: "no_holes (as @ (n, False) # bs) \<Longrightarrow> no_holes (as @ new_segs sz n @ bs)"
  by (cases bs) (auto simp: new_segs_def no_holes_def successively_append_iff)

text \<open>What an allocation that finds a block does.\<close>

lemma malloc_found:
  assumes ok: "heap_wf (as @ (n, False) # bs) h" and n: "sz + 16 \<le> n" and z: "8 dvd sz" "16 \<le> sz" and irq: "irq_nest k = 0"
  defines "h1 \<equiv> malloc_take sz (seg_len as) h" and "ss' \<equiv> as @ new_segs sz n @ bs"
  shows "\<exists>h'. (if add32 (heap_ptr h) (seg_len as) = lfree h1 then do {
                     l \<leftarrow> lfree_loop h1 (lfree h1);
                     RT_ASSERT (l = heap_end h1 \<or> hm_used (hdr h1 l) = 0);
                     Some (h1\<lparr>lfree := l\<rparr>) }
                   else Some h1) = Some h' \<and> heap_wf ss' h' \<and> cells h' = cells h \<and> heap_ptr h' = heap_ptr h \<and> heap_end h' = heap_end h
    \<and> mem_size_aligned h' = mem_size_aligned h"
proof -
  from ok obtain q l where g: "geometry h" and r: "rep h 0 0 (as @ (n, False) # bs) q (mem_size_aligned h + 16)"
    and nh: "no_holes (as @ (n, False) # bs)" and l: "lfree h = heap_ptr h + l" "lfree_at (as @ (n, False) # bs) l"
    and um: "used_mem h = sum_list (map snd (used_segs 0 (as @ (n, False) # bs)))" by (auto simp: heap_wf_def)
  note mt = malloc_take_rep [OF g r n z, folded h1_def]
  have e: "mem_size_aligned h + 16 = seg_len as + n + seg_len bs" using rep_end [OF r] by simp
  have b: "heap_ptr h + seg_len as < 4294967296" using g e by (auto simp: geometry_def)
  have us: "sum_list (map snd (used_segs 0 ss')) = used_mem h + fst (hd (new_segs sz n))"
    using used_replace_sum [of "new_segs sz n" n as bs False] um by (simp add: ss'_def new_segs_used)
  moreover have "sum_list (map snd (used_segs 0 ss')) \<le> mem_size_aligned h + 16"
    using used_sum_bound [of 0 ss'] e by (simp add: ss'_def)
  moreover have "mem_size_aligned h + 16 < 4294967296" using g by (auto simp: geometry_def)
  ultimately have um': "used_mem h1 = sum_list (map snd (used_segs 0 ss'))" using mt(7) by simp
  have g1: "geometry h1" using g mt by (simp add: geometry_def)
  have nh': "no_holes ss'" unfolding ss'_def by (rule no_holes_new [OF nh])
  from mt(1) obtain q' where r': "rep h1 0 0 ss' q' (mem_size_aligned h1 + 16)" using mt(4) by (auto simp: ss'_def)
  show ?thesis
  proof (cases "l = seg_len as")
    case False
    then have "lfree_at ss' l" unfolding ss'_def by (intro lfree_at_replace [OF l(2)]) simp_all
    with g1 r' nh' um' l(1) mt have "heap_wf ss' h1" by (auto simp: heap_wf_def)
    with False b l(1) mt show ?thesis by simp
  next
    case True
    from r' obtain r0 where sub: "rep h1 r0 (seg_len as) (new_segs sz n @ bs) q' (mem_size_aligned h1 + 16)"
      by (auto simp: ss'_def rep_append)
    from lfree_loop_ok [OF g1 sub] obtain l' where l': "lfree_loop h1 (heap_ptr h1 + seg_len as) = Some (heap_ptr h1 + l')"
      "l' = mem_size_aligned h1 + 16 \<or> (\<exists>cs m ds. new_segs sz n @ bs = cs @ (m, False) # ds \<and> l' = seg_len as + seg_len cs \<and> (\<forall>a \<in> set cs. snd a))" by blast
    have la: "lfree_at ss' l'"
    proof -
      have "l' = seg_len ss'" if "l' = mem_size_aligned h1 + 16" using that rep_end [OF r'] by simp
      moreover have "lfree_at ss' l'" if "new_segs sz n @ bs = cs @ (m, False) # ds" "l' = seg_len as + seg_len cs" for cs m ds
        unfolding lfree_at_def ss'_def that(1) using that(2) by (simp add: free_in_append)
      ultimately show ?thesis using l'(2) by (auto simp: lfree_at_def)
    qed
    have "heap_ptr h1 + l' = heap_end h1 \<or> hm_used (hdr h1 (heap_ptr h1 + l')) = 0"
    proof -
      from la consider "l' = seg_len ss'" | cs m ds where "ss' = cs @ (m, False) # ds" "l' = seg_len cs"
        using free_in_split [of 0 ss' l'] by (auto simp: lfree_at_def)
      then show ?thesis
      proof cases
        case 1
        then show ?thesis using rep_end [OF r'] g1 by (simp add: geometry_def)
      next
        case 2
        then show ?thesis using r' by (auto simp: rep_append)
      qed
    qed
    moreover have "heap_wf ss' (h1\<lparr>lfree := heap_ptr h1 + l'\<rparr>)"
    proof -
      have "rep (h1\<lparr>lfree := heap_ptr h1 + l'\<rparr>) 0 0 ss' q' (mem_size_aligned h1 + 16)" using r' by (subst rep_cong [of _ h1]) simp_all
      then show ?thesis using g1 nh' um' la by (auto simp: heap_wf_def geometry_def)
    qed
    ultimately show ?thesis using True b l(1) l'(1) mt by simp
  qed
qed

lemma heap_wfD:
  assumes "heap_wf ss h"
  obtains q l where "geometry h" "rep h 0 0 ss q (mem_size_aligned h + 16)" "no_holes ss" "lfree h = heap_ptr h + l" "lfree_at ss l"
    "used_mem h = sum_list (map snd (used_segs 0 ss))" "seg_len ss = mem_size_aligned h + 16"
  using assms rep_end by (fastforce simp: heap_wf_def)

text \<open>The part of the list that the search sees starts at \<^verbatim>\<open>lfree\<close>.\<close>

lemma lfree_suffix:
  assumes "lfree_at ss l" "rep h 0 0 ss q E"
  obtains as bs r where "ss = as @ bs" "l = seg_len as" "rep h r l bs q E"
proof -
  have e: "E = seg_len ss" using rep_end [OF assms(2)] by simp
  from assms(1) consider "l = seg_len ss" | as n bs where "ss = as @ (n, False) # bs" "l = seg_len as"
    using free_in_split [of 0 ss l] by (auto simp: lfree_at_def)
  then show ?thesis
  proof cases
    case 1
    with e that [of ss "[]" q] show ?thesis by simp
  next
    case 2
    with assms(2) that [of as "(n, False) # bs"] show ?thesis by (auto simp: rep_append)
  qed
qed

lemma malloc_ok:
  assumes ok: "heap_wf ss h" and irq: "irq_nest k = 0" and nz: "s \<noteq> 0" and sz: "unat (RT_ALIGN s 8) \<le> mem_size_aligned h"
  obtains (none) as bs where "rt_malloc s k h = Some (RT_NULL, h)" "ss = as @ bs" "lfree h = heap_ptr h + seg_len as"
      "fit (mem_size_aligned h - block_size s) (block_size s) (seg_len as) bs = None"
    | (some) as n bs h' where "rt_malloc s k h = Some (heap_ptr h + seg_len as + 16, h')" "ss = as @ (n, False) # bs" "block_size s + 16 \<le> n"
      "heap_wf (as @ new_segs (block_size s) n @ bs) h'" "cells h' = cells h" "heap_ptr h' = heap_ptr h" "heap_end h' = heap_end h"
      "mem_size_aligned h' = mem_size_aligned h"
proof -
  let ?sz = "block_size s"
  obtain q l where o: "geometry h" "rep h 0 0 ss q (mem_size_aligned h + 16)" "no_holes ss" "lfree h = heap_ptr h + l" "lfree_at ss l"
    "seg_len ss = mem_size_aligned h + 16" using ok by (rule heap_wfD)
  obtain as bs r where sp: "ss = as @ bs" "l = seg_len as" "rep h r l bs q (mem_size_aligned h + 16)" using o(5,2) by (rule lfree_suffix)
  have z: "?sz \<le> mem_size_aligned h" using sz o(1) by (simp add: block_size_def Let_def geometry_def)
  have b: "heap_ptr h + l < 4294967296" using o(1,6) sp(1,2) by (auto simp: geometry_def)
  have se: "malloc_search h ?sz (sub32 (lfree h) (heap_ptr h)) = Some (fit (mem_size_aligned h - ?sz) ?sz l bs)"
    using search_fit [OF o(1) z sp(3)] b o(4) by simp
  have ctx: "RT_DEBUG_NOT_IN_INTERRUPT k = Some ()" using irq by (simp add: RT_DEBUG_NOT_IN_INTERRUPT_def rt_interrupt_get_nest_def)
  have fold: "(if unat (RT_ALIGN s 8) < 16 then 16 else unat (RT_ALIGN s 8)) = ?sz" by (simp add: block_size_def Let_def)
  show ?thesis
  proof (cases "fit (mem_size_aligned h - ?sz) ?sz l bs")
    case None
    with se nz sz ctx fold have "rt_malloc s k h = Some (RT_NULL, h)" by (simp add: rt_malloc_def Let_def)
    with none None sp o(4) show ?thesis by simp
  next
    case (Some x)
    from fit_split [OF Some] obtain cs n ds where x: "bs = cs @ (n, False) # ds" "x = l + seg_len cs" "?sz + 16 \<le> n" by blast
    have ss: "ss = (as @ cs) @ (n, False) # ds" "x = seg_len (as @ cs)" using x sp by simp_all
    from malloc_found [OF ok [unfolded ss(1)] x(3) block_size_props irq] obtain h' where
      h': "(if add32 (heap_ptr h) x = lfree (malloc_take ?sz x h) then do {
                     l \<leftarrow> lfree_loop (malloc_take ?sz x h) (lfree (malloc_take ?sz x h));
                     RT_ASSERT (l = heap_end (malloc_take ?sz x h) \<or> hm_used (hdr (malloc_take ?sz x h) l) = 0);
                     Some (malloc_take ?sz x h\<lparr>lfree := l\<rparr>) }
                   else Some (malloc_take ?sz x h)) = Some h'" "heap_wf ((as @ cs) @ new_segs ?sz n @ ds) h'" "cells h' = cells h"
        "heap_ptr h' = heap_ptr h" "heap_end h' = heap_end h" "mem_size_aligned h' = mem_size_aligned h"
      unfolding ss(2) by auto
    have bx: "heap_ptr h + x + n \<le> heap_end h" "heap_end h < 4294967296" using ss o(1,6) by (auto simp: geometry_def)
    have m: "add32 (heap_ptr h) x = heap_ptr h + x" "add32 (heap_ptr h + x) 16 = heap_ptr h + x + 16"
      "add32 (heap_ptr h + x + 16) ?sz = heap_ptr h + x + 16 + ?sz" using bx x(3) by simp_all
    have "8 dvd x"
    proof -
      obtain r' where "rep h 0 0 (as @ cs) r' x" using o(2) unfolding ss(1) rep_append [of h 0 0 "as @ cs"] ss(2) by auto
      then show ?thesis unfolding ss(2) by (rule rep_len_aligned)
    qed
    then have al: "(heap_ptr h + x) mod 8 = 0" "(heap_ptr h + x + 16) mod 8 = 0" using o(1) by (auto simp: geometry_def mod_eq_0_iff_dvd)
    have "rt_malloc s k h = Some (heap_ptr h + x + 16, h')"
      using se nz sz ctx fold Some h'(1,5) m bx x(3) al by (simp add: rt_malloc_def Let_def)
    with some [of "as @ cs" h' n ds] ss h' x(3) show ?thesis by (simp add: add.assoc)
  qed
qed

section \<open>Release\<close>

lemma merge_rep:
  assumes g: "geometry h" and r: "rep h 0 0 (as @ (n, False) # (m, u) # bs) q (mem_size_aligned h + 16)"
  defines "h' \<equiv> upd_hdr (heap_ptr h + (seg_len as + n + m)) (\<lambda>x. x\<lparr>hm_prev := seg_len as\<rparr>)
    (upd_hdr (heap_ptr h + seg_len as) (\<lambda>x. x\<lparr>hm_next := seg_len as + n + m\<rparr>) h)"
  shows "\<exists>q'. rep h' 0 0 (as @ (n + m, False) # bs) q' (mem_size_aligned h + 16)"
proof -
  obtain r0 where s: "rep h 0 0 as r0 (seg_len as)" "rep h (seg_len as) (seg_len as + n) ((m, u) # bs) q (mem_size_aligned h + 16)" "24 \<le> n" "8 dvd n"
    "hdr h (heap_ptr h + seg_len as) = \<lparr>hm_magic = HEAP_MAGIC, hm_used = of_bool False, hm_next = seg_len as + n, hm_prev = r0\<rparr>"
    using r by (rule rep_split)
  have "\<exists>q'. rep h' 0 0 (as @ [(n + m, False)] @ bs) q' (mem_size_aligned h + 16)"
  proof (rule rep_replace_list [of h as "[(n, False), (m, u)]" bs q _ h' r0 _ "seg_len as"])
    show "rep h 0 0 (as @ [(n, False), (m, u)] @ bs) q (mem_size_aligned h + 16)" using r by simp
    show "rep h' r0 (seg_len as) [(n + m, False)] (seg_len as) (seg_len as + seg_len [(n, False), (m, u)])"
      using s by (simp add: h'_def add.assoc)
  qed (use s in \<open>auto simp: h'_def add.assoc\<close>)
  then show ?thesis by simp
qed

lemma lfree_at_merge:
  "lfree_at (as @ (n, False) # (m, False) # bs) l \<Longrightarrow> lfree_at (as @ (n + m, False) # bs) (if l = seg_len as + n then seg_len as else l)"
  by (auto simp: lfree_at_def free_in_append add.assoc)

text \<open>What merging keeps.\<close>

definition same_frame :: "heap \<Rightarrow> heap \<Rightarrow> bool" where
  "same_frame h h' \<longleftrightarrow> heap_ptr h' = heap_ptr h \<and> heap_end h' = heap_end h \<and> mem_size_aligned h' = mem_size_aligned h
     \<and> used_mem h' = used_mem h \<and> cells h' = cells h \<and> lfree h' \<le> lfree h"

lemma same_frame_geometry: "same_frame h h' \<Longrightarrow> geometry h' = geometry h"
  by (simp add: same_frame_def geometry_def)

definition lists_heap :: "seg list \<Rightarrow> heap \<Rightarrow> bool" where
  "lists_heap ss h \<longleftrightarrow> (\<exists>q. rep h 0 0 ss q (mem_size_aligned h + 16)) \<and> (\<exists>l. lfree h = heap_ptr h + l \<and> lfree_at ss l)"

lemma rep_lfree [simp]: "rep (h\<lparr>lfree := x\<rparr>) q p ss q' p' = rep h q p ss q' p'"
  by (rule rep_cong) simp_all

lemma merge_lists:
  assumes g: "geometry h" and r: "rep h 0 0 (as @ (n, False) # (m, False) # bs) q (mem_size_aligned h + 16)"
    and l: "lfree h = heap_ptr h + l" "lfree_at (as @ (n, False) # (m, False) # bs) l"
  defines "h' \<equiv> upd_hdr (heap_ptr h + (seg_len as + n + m)) (\<lambda>x. x\<lparr>hm_prev := seg_len as\<rparr>)
    (upd_hdr (heap_ptr h + seg_len as) (\<lambda>x. x\<lparr>hm_next := seg_len as + n + m\<rparr>)
       (if lfree h = heap_ptr h + (seg_len as + n) then h\<lparr>lfree := heap_ptr h + seg_len as\<rparr> else h))"
  shows "lists_heap (as @ (n + m, False) # bs) h'" "same_frame h h'"
proof -
  let ?h0 = "if lfree h = heap_ptr h + (seg_len as + n) then h\<lparr>lfree := heap_ptr h + seg_len as\<rparr> else h"
  have f: "heap_ptr ?h0 = heap_ptr h" "mem_size_aligned ?h0 = mem_size_aligned h" "geometry ?h0" "rep ?h0 0 0 (as @ (n, False) # (m, False) # bs) q (mem_size_aligned ?h0 + 16)"
    using g r by (auto simp: geometry_def)
  from merge_rep [OF f(3,4)] obtain q' where "rep h' 0 0 (as @ (n + m, False) # bs) q' (mem_size_aligned h + 16)"
    unfolding h'_def f(1,2) by blast
  moreover have "mem_size_aligned h' = mem_size_aligned h" "heap_ptr h' = heap_ptr h" by (simp_all add: h'_def)
  moreover have "lfree h' = heap_ptr h + (if l = seg_len as + n then seg_len as else l)" using l(1) by (simp add: h'_def)
  ultimately show "lists_heap (as @ (n + m, False) # bs) h'" using lfree_at_merge [OF l(2)] unfolding lists_heap_def by auto
  show "same_frame h h'" by (simp add: same_frame_def h'_def)
qed

lemma same_frame_trans: "same_frame h h1 \<Longrightarrow> same_frame h1 h2 \<Longrightarrow> same_frame h h2"
  by (simp add: same_frame_def)

lemma rep_last: "rep h q p (as @ [(m, u)]) r p' \<Longrightarrow> r = p + seg_len as"
  by (auto simp: rep_append)

lemma plug_forward_ok:
  assumes g: "geometry h" and ls: "lists_heap (as @ (n, False) # bs) h" and nh: "no_holes bs"
  defines "h' \<equiv> plug_forward (heap_ptr h + seg_len as) h"
  obtains n' bs' where "lists_heap (as @ (n', False) # bs') h'" "same_frame h h'" "no_holes bs'" "bs' \<noteq> [] \<longrightarrow> snd (hd bs')"
    "\<forall>p. used_segs p ((n', False) # bs') = used_segs p ((n, False) # bs)" "n \<le> n'"
proof -
  let ?P = "seg_len as"
  from ls obtain q l where r: "rep h 0 0 (as @ (n, False) # bs) q (mem_size_aligned h + 16)"
    and l: "lfree h = heap_ptr h + l" "lfree_at (as @ (n, False) # bs) l" by (auto simp: lists_heap_def)
  obtain r0 where s: "rep h ?P (?P + n) bs q (mem_size_aligned h + 16)" "24 \<le> n"
    "hdr h (heap_ptr h + ?P) = \<lparr>hm_magic = HEAP_MAGIC, hm_used = of_bool False, hm_next = ?P + n, hm_prev = r0\<rparr>"
    "mem_size_aligned h + 16 = ?P + n + seg_len bs" using r by (rule rep_split)
  have e: "heap_end h = heap_ptr h + (?P + n + seg_len bs)" "heap_end h < 4294967296" using g s(4) by (auto simp: geometry_def)
  have a1: "add32 (heap_ptr h) (?P + n) = heap_ptr h + (?P + n)" using e by simp
  show ?thesis
  proof (cases "\<exists>m bs'. bs = (m, False) # bs'")
    case True
    then obtain m bs' where bs: "bs = (m, False) # bs'" by blast
    have m: "hdr h (heap_ptr h + (?P + n)) = \<lparr>hm_magic = HEAP_MAGIC, hm_used = 0, hm_next = ?P + n + m, hm_prev = ?P\<rparr>" "24 \<le> m"
      using s(1) bs by simp_all
    have a2: "add32 (heap_ptr h) (?P + n + m) = heap_ptr h + (?P + n + m)" "sub32 (heap_ptr h + ?P) (heap_ptr h) = ?P" using e bs by simp_all
    have "h' = upd_hdr (heap_ptr h + (?P + n + m)) (\<lambda>x. x\<lparr>hm_prev := ?P\<rparr>)
      (upd_hdr (heap_ptr h + ?P) (\<lambda>x. x\<lparr>hm_next := ?P + n + m\<rparr>)
         (if lfree h = heap_ptr h + (?P + n) then h\<lparr>lfree := heap_ptr h + ?P\<rparr> else h))"
      using s(2,3) m a1 a2 e bs by (simp add: h'_def plug_forward_def Let_def)
    with merge_lists [OF g r [unfolded bs] l [unfolded bs]] have "lists_heap (as @ (n + m, False) # bs') h'" "same_frame h h'" by simp_all
    moreover have "no_holes bs'" "bs' \<noteq> [] \<longrightarrow> snd (hd bs')" using nh unfolding bs no_holes_def by (cases bs'; simp)+
    ultimately show ?thesis using that [of "n + m" bs'] bs by (simp add: add.assoc)
  next
    case False
    have "h' = h"
    proof (cases bs)
      case Nil
      then show ?thesis using s(3) a1 e by (simp add: h'_def plug_forward_def Let_def)
    next
      case (Cons b bs')
      with False obtain m where "bs = (m, True) # bs'" by (cases b) auto
      then show ?thesis using s(1,3) a1 by (simp add: h'_def plug_forward_def Let_def)
    qed
    moreover have "bs \<noteq> [] \<longrightarrow> snd (hd bs)" using False by (cases bs) auto
    ultimately show ?thesis using that [of n bs] ls nh by (simp add: same_frame_def)
  qed
qed

lemma plug_backward_ok:
  assumes g: "geometry h" and ls: "lists_heap (as @ (n, False) # bs) h" and nh: "no_holes as" "no_holes bs" "bs \<noteq> [] \<longrightarrow> snd (hd bs)"
  defines "h' \<equiv> plug_backward (heap_ptr h + seg_len as) h"
  obtains ss' where "lists_heap ss' h'" "same_frame h h'" "no_holes ss'" "used_segs 0 ss' = used_segs 0 (as @ (n, False) # bs)"
proof -
  let ?P = "seg_len as"
  from ls obtain q l where r: "rep h 0 0 (as @ (n, False) # bs) q (mem_size_aligned h + 16)"
    and l: "lfree h = heap_ptr h + l" "lfree_at (as @ (n, False) # bs) l" by (auto simp: lists_heap_def)
  obtain r0 where s: "rep h 0 0 as r0 ?P" "24 \<le> n"
    "hdr h (heap_ptr h + ?P) = \<lparr>hm_magic = HEAP_MAGIC, hm_used = of_bool False, hm_next = ?P + n, hm_prev = r0\<rparr>"
    "mem_size_aligned h + 16 = ?P + n + seg_len bs" using r by (rule rep_split)
  have e: "heap_ptr h + (?P + n + seg_len bs) < 4294967296" using g s(4) by (auto simp: geometry_def)
  have a1: "add32 (heap_ptr h) (?P + n) = heap_ptr h + (?P + n)" using e by simp
  show ?thesis
  proof (cases "\<exists>as' m. as = as' @ [(m, False)]")
    case True
    then obtain as' m where as: "as = as' @ [(m, False)]" by blast
    have r0: "r0 = seg_len as'" using rep_last [of h 0 0 as' m False r0] s(1) as by simp
    have m: "hm_used (hdr h (heap_ptr h + seg_len as')) = 0" "24 \<le> m" using s(1) as by (auto simp: rep_append)
    have a2: "add32 (heap_ptr h) (seg_len as') = heap_ptr h + seg_len as'" "sub32 (heap_ptr h + seg_len as') (heap_ptr h) = seg_len as'"
      using e as by simp_all
    have r': "rep h 0 0 (as' @ (m, False) # (n, False) # bs) q (mem_size_aligned h + 16)" "lfree_at (as' @ (m, False) # (n, False) # bs) l"
      using r l as by simp_all
    have "h' = upd_hdr (heap_ptr h + (seg_len as' + m + n)) (\<lambda>x. x\<lparr>hm_prev := seg_len as'\<rparr>)
      (upd_hdr (heap_ptr h + seg_len as') (\<lambda>x. x\<lparr>hm_next := seg_len as' + m + n\<rparr>)
         (if lfree h = heap_ptr h + (seg_len as' + m) then h\<lparr>lfree := heap_ptr h + seg_len as'\<rparr> else h))"
      using s(3) m a1 a2 as r0 by (simp add: h'_def plug_backward_def Let_def)
    with merge_lists [OF g r'(1) l(1) r'(2)] have "lists_heap (as' @ (m + n, False) # bs) h'" "same_frame h h'" by simp_all
    moreover have "no_holes (as' @ (m + n, False) # bs)"
      using nh unfolding as no_holes_append by (auto simp: no_holes_def successively_append_iff)
    ultimately show ?thesis using that [of "as' @ (m + n, False) # bs"] as by (simp add: used_segs_append add.assoc)
  next
    case False
    have "h' = h \<and> (as \<noteq> [] \<longrightarrow> snd (last as))"
    proof (cases as rule: rev_cases)
      case Nil
      then show ?thesis using s(1,3) e by (simp add: h'_def plug_backward_def Let_def)
    next
      case (snoc as' b)
      with False obtain m where as: "as = as' @ [(m, True)]" by (cases b) auto
      have r0: "r0 = seg_len as'" using rep_last [of h 0 0 as' m True r0] s(1) as by simp
      have "hm_used (hdr h (heap_ptr h + seg_len as')) = 1" using s(1) as by (auto simp: rep_append)
      moreover have "add32 (heap_ptr h) (seg_len as') = heap_ptr h + seg_len as'" using e as by simp
      ultimately show ?thesis using s(3) r0 as by (simp add: h'_def plug_backward_def Let_def)
    qed
    moreover have "no_holes (as @ (n, False) # bs)" if "as \<noteq> [] \<longrightarrow> snd (last as)" using that nh unfolding no_holes_append by simp
    ultimately show ?thesis using that [of "as @ (n, False) # bs"] ls by (simp add: same_frame_def)
  qed
qed

lemma plug_holes_ok:
  assumes g: "geometry h" and ls: "lists_heap (as @ (n, False) # bs) h" and nh: "no_holes as" "no_holes bs"
  obtains ss' h' where "plug_holes (heap_ptr h + seg_len as) h = Some h'" "lists_heap ss' h'" "same_frame h h'" "no_holes ss'"
    "used_segs 0 ss' = used_segs 0 (as @ (n, False) # bs)"
proof -
  let ?m = "heap_ptr h + seg_len as" and ?h1 = "plug_forward (heap_ptr h + seg_len as) h"
  obtain n' bs' where f: "lists_heap (as @ (n', False) # bs') ?h1" "same_frame h ?h1" "no_holes bs'" "bs' \<noteq> [] \<longrightarrow> snd (hd bs')"
    "\<forall>p. used_segs p ((n', False) # bs') = used_segs p ((n, False) # bs)" using g ls nh(2) by (rule plug_forward_ok)
  have g1: "geometry ?h1" using same_frame_geometry [OF f(2)] g by simp
  have hp: "heap_ptr ?h1 = heap_ptr h" using f(2) by (simp add: same_frame_def)
  obtain ss' where b: "lists_heap ss' (plug_backward ?m ?h1)" "same_frame ?h1 (plug_backward ?m ?h1)" "no_holes ss'"
    "used_segs 0 ss' = used_segs 0 (as @ (n', False) # bs')"
    using plug_backward_ok [OF g1 f(1) nh(1) f(3,4)] unfolding hp by blast
  have u: "hm_used (hdr h ?m) = 0" "?m < heap_end h"
  proof -
    from ls obtain q where r: "rep h 0 0 (as @ (n, False) # bs) q (mem_size_aligned h + 16)" by (auto simp: lists_heap_def)
    obtain r0 where "24 \<le> n" "hdr h ?m = \<lparr>hm_magic = HEAP_MAGIC, hm_used = of_bool False, hm_next = seg_len as + n, hm_prev = r0\<rparr>"
      "mem_size_aligned h + 16 = seg_len as + n + seg_len bs" using r by (rule rep_split)
    then show "hm_used (hdr h ?m) = 0" "?m < heap_end h" using g by (auto simp: geometry_def)
  qed
  have "plug_holes ?m h = Some (plug_backward ?m ?h1)" using u by (simp add: plug_holes_def)
  moreover have "used_segs 0 ss' = used_segs 0 (as @ (n, False) # bs)" using b(4) f(5) by (simp add: used_segs_append)
  ultimately show ?thesis using that b same_frame_trans [OF f(2) b(2)] by blast
qed

lemma heap_wf_lists: "heap_wf ss h \<longleftrightarrow> geometry h \<and> lists_heap ss h \<and> no_holes ss \<and> used_mem h = sum_list (map snd (used_segs 0 ss))"
  by (auto simp: heap_wf_def lists_heap_def)

lemma not_irq: "irq_nest k = 0 \<Longrightarrow> RT_DEBUG_NOT_IN_INTERRUPT k = Some ()"
  by (simp add: RT_DEBUG_NOT_IN_INTERRUPT_def rt_interrupt_get_nest_def)

lemma free_ok:
  assumes ok: "heap_wf (as @ (n, True) # bs) h" and irq: "irq_nest k = 0"
  obtains ss' h' where "rt_free (heap_ptr h + seg_len as + 16) k h = Some h'" "heap_wf ss' h'"
    "used_segs 0 ss' = used_segs 0 as @ used_segs (seg_len as + n) bs" "cells h' = cells h" "heap_ptr h' = heap_ptr h" "heap_end h' = heap_end h"
    "mem_size_aligned h' = mem_size_aligned h" "lfree h' < heap_end h"
proof -
  let ?P = "seg_len as" and ?mem = "heap_ptr h + seg_len as"
  obtain q l where o: "geometry h" "rep h 0 0 (as @ (n, True) # bs) q (mem_size_aligned h + 16)" "no_holes (as @ (n, True) # bs)"
    "lfree h = heap_ptr h + l" "lfree_at (as @ (n, True) # bs) l" "used_mem h = sum_list (map snd (used_segs 0 (as @ (n, True) # bs)))"
    using ok by (rule heap_wfD)
  obtain r0 where s: "rep h 0 0 as r0 ?P" "rep h ?P (?P + n) bs q (mem_size_aligned h + 16)" "24 \<le> n" "8 dvd n"
    "hdr h ?mem = \<lparr>hm_magic = HEAP_MAGIC, hm_used = of_bool True, hm_next = ?P + n, hm_prev = r0\<rparr>"
    "mem_size_aligned h + 16 = ?P + n + seg_len bs" using o(2) by (rule rep_split)
  have e: "heap_end h = heap_ptr h + (?P + n + seg_len bs)" "heap_end h < 4294967296" "0 < heap_ptr h" using o(1) s(6) by (auto simp: geometry_def)
  have "8 dvd ?P" by (rule rep_len_aligned [OF s(1)])
  then have al: "(heap_ptr h + ?P + 16) mod 8 = 0" using o(1) by (auto simp: geometry_def mod_eq_0_iff_dvd)
  have a: "sub32 (heap_ptr h + ?P + 16) 16 = ?mem" "sub32 ?mem (heap_ptr h) = ?P" "sub32 (?P + n) ?P = n" using e s(3) by simp_all
  let ?h1 = "upd_hdr ?mem (\<lambda>m. m\<lparr>hm_used := 0, hm_magic := HEAP_MAGIC\<rparr>) h"
  let ?h2 = "if ?mem < lfree ?h1 then ?h1\<lparr>lfree := ?mem\<rparr> else ?h1"
  let ?h3 = "?h2\<lparr>used_mem := sub32 (used_mem ?h2) n\<rparr>"
  have f: "heap_ptr ?h3 = heap_ptr h" "heap_end ?h3 = heap_end h" "mem_size_aligned ?h3 = mem_size_aligned h" "cells ?h3 = cells h" "hdr ?h3 = hdr ?h1"
    "used_mem ?h3 = sub32 (used_mem h) n"
    by simp_all
  have g3: "geometry ?h3" using o(1) f by (simp add: geometry_def)
  have r1: "\<exists>q'. rep ?h1 0 0 (as @ [(n, False)] @ bs) q' (mem_size_aligned h + 16)"
  proof (rule rep_replace [OF o(2) _ _ s(1)])
    show "rep ?h1 r0 ?P [(n, False)] ?P (?P + n)" using s by simp
    show "bs \<noteq> [] \<longrightarrow> hdr ?h1 (heap_ptr h + (?P + n)) = (hdr h (heap_ptr h + (?P + n)))\<lparr>hm_prev := ?P\<rparr>"
      using s(2,3) by (cases bs) auto
  qed (use s(3) in auto)
  then obtain q' where "rep ?h1 0 0 (as @ (n, False) # bs) q' (mem_size_aligned h + 16)" by auto
  then have r3: "rep ?h3 0 0 (as @ (n, False) # bs) q' (mem_size_aligned ?h3 + 16)" using f by (subst rep_cong [of _ ?h1]) simp_all
  have "\<exists>l'. lfree ?h3 = heap_ptr ?h3 + l' \<and> lfree_at (as @ (n, False) # bs) l'"
  proof (cases "?mem < lfree h")
    case True
    then show ?thesis by (intro exI [of _ ?P]) (simp add: lfree_at_def free_in_append)
  next
    case False
    then show ?thesis using o(4,5) by (intro exI [of _ l]) (auto simp: lfree_at_def free_in_append)
  qed
  with r3 have ls: "lists_heap (as @ (n, False) # bs) ?h3" by (auto simp: lists_heap_def)
  have nh: "no_holes as" "no_holes bs" using o(3) unfolding no_holes_append by simp_all
  obtain ss' h' where h': "plug_holes (heap_ptr ?h3 + ?P) ?h3 = Some h'" "lists_heap ss' h'" "same_frame ?h3 h'" "no_holes ss'"
    "used_segs 0 ss' = used_segs 0 (as @ (n, False) # bs)" using g3 ls nh by (rule plug_holes_ok)
  have us: "used_segs 0 ss' = used_segs 0 as @ used_segs (?P + n) bs" using h'(5) by (simp add: used_segs_append)
  have "used_mem h = sum_list (map snd (used_segs 0 ss')) + n" using o(6) us by (simp add: used_segs_append)
  moreover have "used_mem h \<le> mem_size_aligned h + 16" using used_sum_bound [of 0 "as @ (n, True) # bs"] o(6) s(6) by simp
  moreover have "used_mem h' = sub32 (used_mem h) n" using h'(3) by (simp add: same_frame_def)
  ultimately have "used_mem h' = sum_list (map snd (used_segs 0 ss'))" using o(1) by (simp add: geometry_def)
  moreover have "geometry h'" using g3 same_frame_geometry [OF h'(3)] by simp
  ultimately have ok': "heap_wf ss' h'" using h'(2,4) by (simp add: heap_wf_lists)
  have ret: "rt_free (heap_ptr h + ?P + 16) k h = Some h'"
    using not_irq [OF irq] al e s(3,5) a h'(1) unfolding f(1)
    by (cases "?mem < lfree h") (simp_all add: rt_free_def Let_def)
  have fr: "cells h' = cells h" "heap_ptr h' = heap_ptr h" "heap_end h' = heap_end h" "mem_size_aligned h' = mem_size_aligned h" "lfree h' \<le> lfree ?h3"
    using h'(3) f(1-4) by (simp_all only: same_frame_def)
  have "lfree ?h3 \<le> ?mem" by simp
  then have "lfree h' < heap_end h" using fr(5) e(1) s(3) by linarith
  with ret ok' us fr(1-4) show ?thesis by (rule that)
qed

section \<open>Reallocation\<close>

lemma realloc_split_ok:
  assumes ok: "heap_wf (as @ (n, True) # bs) h" and z: "8 dvd z" "0 < z" "z + 28 < n - 16"
  obtains ss' h' where "realloc_split (heap_ptr h + seg_len as) (seg_len as) (n - 16) z h = Some h'" "heap_wf ss' h'"
    "used_segs 0 ss' = used_segs 0 as @ (seg_len as, z + 16) # used_segs (seg_len as + n) bs" "cells h' = cells h" "heap_ptr h' = heap_ptr h"
    "heap_end h' = heap_end h" "mem_size_aligned h' = mem_size_aligned h"
proof -
  let ?P = "seg_len as" and ?mem = "heap_ptr h + seg_len as"
  obtain q l where o: "geometry h" "rep h 0 0 (as @ (n, True) # bs) q (mem_size_aligned h + 16)" "no_holes (as @ (n, True) # bs)"
    "lfree h = heap_ptr h + l" "lfree_at (as @ (n, True) # bs) l" "used_mem h = sum_list (map snd (used_segs 0 (as @ (n, True) # bs)))"
    using ok by (rule heap_wfD)
  obtain r0 where s: "rep h 0 0 as r0 ?P" "rep h ?P (?P + n) bs q (mem_size_aligned h + 16)" "24 \<le> n" "8 dvd n"
    "hdr h ?mem = \<lparr>hm_magic = HEAP_MAGIC, hm_used = of_bool True, hm_next = ?P + n, hm_prev = r0\<rparr>"
    "mem_size_aligned h + 16 = ?P + n + seg_len bs" using o(2) by (rule rep_split)
  have e: "heap_ptr h + (?P + n + seg_len bs) + 16 \<le> 4294967296" "0 < heap_ptr h" using o(1) s(6) by (auto simp: geometry_def)
  have m: "sub32 (n - 16) z = n - 16 - z" "add32 (add32 ?P 16) z = ?P + 16 + z" "add32 (heap_ptr h) (?P + 16 + z) = heap_ptr h + (?P + 16 + z)"
    "add32 (mem_size_aligned h) 16 = mem_size_aligned h + 16" "add32 (heap_ptr h) (?P + n) = heap_ptr h + (?P + n)"
    using e z(3) s(6) by simp_all
  have last: "?P + n \<noteq> mem_size_aligned h + 16 \<longleftrightarrow> bs \<noteq> []" using s(6) rep_pos [OF s(2)] by (cases "bs = []") (simp, linarith)
  let ?M2 = "heap_ptr h + (?P + 16 + z)" and ?N = "heap_ptr h + (?P + n)"
  let ?h0 = "h\<lparr>used_mem := sub32 (used_mem h) (n - 16 - z)\<rparr>"
  let ?h1 = "upd_hdr ?M2 (\<lambda>m. \<lparr>hm_magic = HEAP_MAGIC, hm_used = 0, hm_next = ?P + n, hm_prev = ?P\<rparr>) ?h0"
  let ?h2 = "upd_hdr ?mem (\<lambda>m. m\<lparr>hm_next := ?P + 16 + z\<rparr>) ?h1"
  let ?h3 = "if bs \<noteq> [] then upd_hdr ?N (\<lambda>m. m\<lparr>hm_prev := ?P + 16 + z\<rparr>) ?h2 else ?h2"
  have f: "heap_ptr ?h3 = heap_ptr h" "heap_end ?h3 = heap_end h" "mem_size_aligned ?h3 = mem_size_aligned h" "cells ?h3 = cells h" "lfree ?h3 = lfree h"
    "used_mem ?h3 = sub32 (used_mem h) (n - 16 - z)" by simp_all
  have ne: "?mem \<noteq> ?M2" "?M2 \<noteq> ?N" "?mem \<noteq> ?N" using z(3) s(3) by simp_all
  have eq: "realloc_split ?mem ?P (n - 16) z h = plug_holes ?M2 ?h3"
    using m last s(5) ne by (simp add: realloc_split_def Let_def)
  have h: "hdr ?h3 a = (if a = ?mem then \<lparr>hm_magic = HEAP_MAGIC, hm_used = 1, hm_next = ?P + 16 + z, hm_prev = r0\<rparr>
      else if a = ?M2 then \<lparr>hm_magic = HEAP_MAGIC, hm_used = 0, hm_next = ?P + n, hm_prev = ?P\<rparr>
      else if a = ?N \<and> bs \<noteq> [] then (hdr h ?N)\<lparr>hm_prev := ?P + 16 + z\<rparr> else hdr h a)" for a
    using s(5) ne by simp
  have z8: "8 \<le> z" using z(1,2) by (rule dvd_imp_le)
  have d8: "8 dvd n - z - 16" using s(4) z(1) by (simp add: dvd_diff_nat)
  have gap: "32 \<le> n - z - 16"
  proof -
    from s(4) z(1) obtain i j where "n = 8 * i" "z = 8 * j" by (auto elim!: dvdE)
    then have ij: "8 * j + 44 < 8 * i" using z(3) by linarith
    then have "j + 6 \<le> i" by linarith
    then have "48 + 8 * j \<le> 8 * i" by linarith
    then show ?thesis unfolding \<open>n = 8 * i\<close> \<open>z = 8 * j\<close> by linarith
  qed
  have "\<exists>q'. rep ?h3 0 0 (as @ [(z + 16, True), (n - z - 16, False)] @ bs) q' (mem_size_aligned h + 16)"
  proof (rule rep_replace [OF o(2) f(1) _ s(1)])
    show "rep ?h3 r0 ?P [(z + 16, True), (n - z - 16, False)] (?P + 16 + z) (?P + n)"
      using h [of ?mem] h [of ?M2] ne f(1) z z8 gap d8 s(3) by (simp add: add.assoc add.commute [of 16 z])
    show "\<forall>a. a < heap_ptr h + ?P \<longrightarrow> hdr ?h3 a = hdr h a" unfolding h using s(3) by auto
    show "bs \<noteq> [] \<longrightarrow> hdr ?h3 ?N = (hdr h ?N)\<lparr>hm_prev := ?P + 16 + z\<rparr>" unfolding h using ne by auto
    show "\<forall>a. ?N < a \<and> a < heap_ptr h + (mem_size_aligned h + 16) \<longrightarrow> hdr ?h3 a = hdr h a" unfolding h using z(3) by auto
  qed
  then have r3: "\<exists>q'. rep ?h3 0 0 ((as @ [(z + 16, True)]) @ (n - z - 16, False) # bs) q' (mem_size_aligned ?h3 + 16)" using f(3) by simp
  have lf: "lfree_at ((as @ [(z + 16, True)]) @ (n - z - 16, False) # bs) l"
    using o(5) z(3) by (auto simp: lfree_at_def free_in_append)
  have ls: "lists_heap ((as @ [(z + 16, True)]) @ (n - z - 16, False) # bs) ?h3"
    unfolding lists_heap_def using r3 lf o(4) f(1,5) by auto
  have g3: "geometry ?h3" using o(1) f by (simp add: geometry_def)
  have nh: "no_holes (as @ [(z + 16, True)])" "no_holes bs" using o(3) unfolding no_holes_append by (auto simp: no_holes_def)
  obtain ss' h' where h': "plug_holes (heap_ptr ?h3 + seg_len (as @ [(z + 16, True)])) ?h3 = Some h'" "lists_heap ss' h'" "same_frame ?h3 h'" "no_holes ss'"
    "used_segs 0 ss' = used_segs 0 ((as @ [(z + 16, True)]) @ (n - z - 16, False) # bs)" using g3 ls nh by (rule plug_holes_ok)
  have "realloc_split ?mem ?P (n - 16) z h = Some h'" using eq h'(1) f(1) by (simp add: add.assoc add.commute [of 16 z])
  moreover have us: "used_segs 0 ss' = used_segs 0 as @ (?P, z + 16) # used_segs (?P + n) bs"
    using h'(5) z(3) by (simp add: used_segs_append)
  moreover have "heap_wf ss' h'"
  proof -
    have "used_mem h = sum_list (map snd (used_segs 0 ss')) + (n - 16 - z)" using o(6) us z(3) by (simp add: used_segs_append)
    moreover have "used_mem h \<le> mem_size_aligned h + 16" using used_sum_bound [of 0 "as @ (n, True) # bs"] o(6) s(6) by simp
    moreover have "used_mem h' = sub32 (used_mem h) (n - 16 - z)" using h'(3) f(6) by (simp add: same_frame_def)
    ultimately have "used_mem h' = sum_list (map snd (used_segs 0 ss'))" using o(1) by (simp add: geometry_def)
    then show ?thesis using h'(2,4) g3 same_frame_geometry [OF h'(3)] by (simp add: heap_wf_lists)
  qed
  ultimately show ?thesis using that h'(3) f by (simp add: same_frame_def)
qed

end
