(* ===== verification/Rt_Heap_Run.thy ===== *)
theory Rt_Heap_Run
  imports Rt_Heap
begin

text \<open>
  Histories of the heap. The map of live blocks gives for each pointer that was handed out and not returned the number of
  bytes the client asked for. \<open>heap_inv\<close> ties it to the segments of theory Rt_Heap; every operation keeps it and returns.
\<close>

type_synonym live = "nat \<rightharpoonup> nat"

section \<open>Live blocks and used segments\<close>

text \<open>\<open>b\<close> is the address of the heap, \<open>us\<close> the used segments; a segment has room for its header and the bytes asked for.\<close>

definition live_on :: "live \<Rightarrow> nat \<Rightarrow> (nat \<times> nat) list \<Rightarrow> bool" where
  "live_on L b us \<longleftrightarrow> (\<forall>p s. L p = Some s \<longrightarrow> (\<exists>a n. (a, n) \<in> set us \<and> p = b + a + 16 \<and> s + 16 \<le> n))
     \<and> (\<forall>(a, n) \<in> set us. b + a + 16 \<in> dom L)"

definition heap_inv :: "live \<Rightarrow> heap \<Rightarrow> bool" where
  "heap_inv L h \<longleftrightarrow> (\<exists>ss. heap_wf ss h \<and> live_on L (heap_ptr h) (used_segs 0 ss))"

lemma used_distinct: "rep h q p ss q' p' \<Longrightarrow> distinct (map fst (used_segs p ss))"
proof (induction h q p ss q' p' rule: rep.induct)
  case (2 h q p n u ss q' p')
  then have r: "rep h p (p + n) ss q' p'" "24 \<le> n" and d: "distinct (map fst (used_segs (p + n) ss))" by simp_all
  have "p \<notin> fst ` set (used_segs (p + n) ss)" using rep_bounds [OF r(1)] r(2) by fastforce
  with d show ?case by simp
qed simp

lemma live_onD: "live_on L b us \<Longrightarrow> L p = Some s \<Longrightarrow> \<exists>a n. (a, n) \<in> set us \<and> p = b + a + 16 \<and> s + 16 \<le> n"
  unfolding live_on_def by blast

lemma live_on_dom: "live_on L b us \<Longrightarrow> (a, n) \<in> set us \<Longrightarrow> \<exists>s. L (b + a + 16) = Some s"
  unfolding live_on_def by fastforce

lemma live_onI:
  "(\<And>p s. L p = Some s \<Longrightarrow> \<exists>a n. (a, n) \<in> set us \<and> p = b + a + 16 \<and> s + 16 \<le> n) \<Longrightarrow>
    (\<And>a n. (a, n) \<in> set us \<Longrightarrow> \<exists>s. L (b + a + 16) = Some s) \<Longrightarrow> live_on L b us"
  unfolding live_on_def by fastforce

lemma live_on_add:
  assumes "live_on L b (us @ vs)" "t + 16 \<le> n"
  shows "live_on (L(b + a + 16 \<mapsto> t)) b (us @ (a, n) # vs)"
proof (rule live_onI)
  show "\<exists>a' m. (a', m) \<in> set (us @ (a, n) # vs) \<and> p = b + a' + 16 \<and> s + 16 \<le> m" if "(L(b + a + 16 \<mapsto> t)) p = Some s" for p s
    using that assms(2) live_onD [OF assms(1), of p s] by (cases "p = b + a + 16") auto
  show "\<exists>s. (L(b + a + 16 \<mapsto> t)) (b + a' + 16) = Some s" if "(a', m) \<in> set (us @ (a, n) # vs)" for a' m
    using that live_on_dom [OF assms(1), of a' m] by auto
qed

lemma live_on_remove:
  assumes "live_on L b (us @ (a, n) # vs)" "distinct (map fst (us @ (a, n) # vs))"
  shows "live_on (L(b + a + 16 := None)) b (us @ vs)"
proof (rule live_onI)
  show "\<exists>a' m. (a', m) \<in> set (us @ vs) \<and> p = b + a' + 16 \<and> s + 16 \<le> m" if "(L(b + a + 16 := None)) p = Some s" for p s
    using that live_onD [OF assms(1), of p s] by (auto split: if_splits)
  show "\<exists>s. (L(b + a + 16 := None)) (b + a' + 16) = Some s" if "(a', m) \<in> set (us @ vs)" for a' m
  proof -
    have "a' \<noteq> a" using that assms(2) by (auto simp: image_iff)
    then show ?thesis using that live_on_dom [OF assms(1), of a' m] by auto
  qed
qed

lemma live_on_resize:
  assumes "live_on L b (us @ (a, n) # vs)" "distinct (map fst (us @ (a, n) # vs))" "t + 16 \<le> m"
  shows "live_on (L(b + a + 16 \<mapsto> t)) b (us @ (a, m) # vs)"
  using live_on_add [OF live_on_remove [OF assms(1,2)] assms(3), of a] by simp

lemma live_on_fresh:
  assumes "live_on L b us" "a \<notin> fst ` set us"
  shows "L (b + a + 16) = None"
proof (rule ccontr)
  assume "L (b + a + 16) \<noteq> None"
  then obtain s where "L (b + a + 16) = Some s" by blast
  from live_onD [OF assms(1) this] assms(2) show False by force
qed

lemma heap_wf_distinct: "heap_wf ss h \<Longrightarrow> distinct (map fst (used_segs 0 ss))"
  by (auto simp: heap_wf_def intro: used_distinct)

lemma heap_wf_cells [simp]: "heap_wf ss (h\<lparr>cells := c\<rparr>) = heap_wf ss h"
proof -
  have "rep (h\<lparr>cells := c\<rparr>) q p ss q' p' = rep h q p ss q' p'" for q p q' p' by (rule rep_cong) simp_all
  then show ?thesis by (simp add: heap_wf_def geometry_def)
qed

lemma heap_inv_cells [simp]: "heap_inv L (h\<lparr>cells := c\<rparr>) = heap_inv L h"
  by (simp add: heap_inv_def)

text \<open>The block of a live pointer.\<close>

lemma live_block:
  assumes "heap_wf ss h" "live_on L (heap_ptr h) (used_segs 0 ss)" "L p = Some s"
  obtains as n bs where "ss = as @ (n, True) # bs" "p = heap_ptr h + seg_len as + 16" "s + 16 \<le> n"
    "used_segs 0 ss = used_segs 0 as @ (seg_len as, n) # used_segs (seg_len as + n) bs"
proof -
  from assms(2,3) obtain a n where a: "(a, n) \<in> set (used_segs 0 ss)" "p = heap_ptr h + a + 16" "s + 16 \<le> n"
    unfolding live_on_def by blast
  from used_segs_split [OF a(1)] obtain as bs where "ss = as @ (n, True) # bs" "a = seg_len as" by auto
  with a that show ?thesis by (simp add: used_segs_append)
qed

text \<open>What the invariant says of the live blocks.\<close>

lemma heap_inv_block:
  assumes "heap_inv L h" "L p = Some s"
  shows "p mod 8 = 0" "heap_ptr h + 16 \<le> p" "p + s \<le> heap_end h"
proof -
  from assms(1) obtain ss where ok: "heap_wf ss h" and lv: "live_on L (heap_ptr h) (used_segs 0 ss)" by (auto simp: heap_inv_def)
  from lv assms(2) obtain a n where a: "(a, n) \<in> set (used_segs 0 ss)" "p = heap_ptr h + a + 16" "s + 16 \<le> n"
    unfolding live_on_def by blast
  obtain q where r: "geometry h" "rep h 0 0 ss q (mem_size_aligned h + 16)" using ok by (auto simp: heap_wf_def)
  have "8 dvd a" using rep_aligned [OF r(2) _ a(1)] by simp
  then show "p mod 8 = 0" using r(1) a(2) by (auto simp: geometry_def mod_eq_0_iff_dvd)
  show "heap_ptr h + 16 \<le> p" "p + s \<le> heap_end h" using rep_bounds [OF r(2) a(1)] a(2,3) r(1) by (auto simp: geometry_def)
qed

lemma heap_inv_disjoint:
  assumes "heap_inv L h" "L p = Some s" "L q = Some t" "p \<noteq> q"
  shows "p + s + 16 \<le> q \<or> q + t + 16 \<le> p"
proof -
  from assms(1) obtain ss where ok: "heap_wf ss h" and lv: "live_on L (heap_ptr h) (used_segs 0 ss)" by (auto simp: heap_inv_def)
  from lv assms(2) obtain a n where a: "(a, n) \<in> set (used_segs 0 ss)" "p = heap_ptr h + a + 16" "s + 16 \<le> n"
    unfolding live_on_def by blast
  from lv assms(3) obtain b m where b: "(b, m) \<in> set (used_segs 0 ss)" "q = heap_ptr h + b + 16" "t + 16 \<le> m"
    unfolding live_on_def by blast
  obtain r where r: "rep h 0 0 ss r (mem_size_aligned h + 16)" using ok by (auto simp: heap_wf_def)
  from used_disjoint [OF r a(1) b(1)] show ?thesis using a b assms(4) by auto
qed

section \<open>Every operation keeps the invariant and returns\<close>

lemma malloc_inv:
  assumes inv: "heap_inv L h" and irq: "irq_nest k = 0" and t: "t \<le> block_size s"
  obtains (none) "rt_malloc s k h = Some (RT_NULL, h)"
    | (some) p h' where "rt_malloc s k h = Some (p, h')" "p \<noteq> RT_NULL" "s \<noteq> 0" "L p = None" "heap_inv (L(p \<mapsto> t)) h'" "cells h' = cells h"
      "heap_ptr h' = heap_ptr h" "heap_end h' = heap_end h" "mem_size_aligned h' = mem_size_aligned h"
proof (cases "s \<noteq> 0 \<and> unat (RT_ALIGN s 8) \<le> mem_size_aligned h")
  case False
  then show ?thesis using none not_irq [OF irq] by (cases "s = 0") (auto simp: rt_malloc_def Let_def)
next
  case True
  then have nz: "s \<noteq> 0" and z: "unat (RT_ALIGN s 8) \<le> mem_size_aligned h" by simp_all
  from inv obtain ss where ok: "heap_wf ss h" and lv: "live_on L (heap_ptr h) (used_segs 0 ss)" by (auto simp: heap_inv_def)
  from ok irq nz z show ?thesis
  proof (cases rule: malloc_ok)
    case none
    then show ?thesis using that(1) by blast
  next
    case (some as n bs h')
    let ?ns = "new_segs (block_size s) n"
    have us: "used_segs 0 (as @ ?ns @ bs) = used_segs 0 as @ (seg_len as, fst (hd ?ns)) # used_segs (seg_len as + n) bs"
      "used_segs 0 ss = used_segs 0 as @ used_segs (seg_len as + n) bs"
      using some(2) by (simp_all add: used_segs_append new_segs_used)
    have "block_size s + 16 \<le> fst (hd ?ns)" using some(3) by (simp add: new_segs_def)
    with t have "t + 16 \<le> fst (hd ?ns)" by simp
    with lv have "live_on (L(heap_ptr h + seg_len as + 16 \<mapsto> t)) (heap_ptr h) (used_segs 0 (as @ ?ns @ bs))"
      unfolding us by (intro live_on_add)
    with some(4,6) have "heap_inv (L(heap_ptr h + seg_len as + 16 \<mapsto> t)) h'" by (auto simp: heap_inv_def)
    moreover have "L (heap_ptr h + seg_len as + 16) = None"
      using live_on_fresh [OF lv] heap_wf_distinct [OF some(4)] unfolding us by (auto simp: image_iff)
    ultimately show ?thesis using that(2) [OF some(1)] some nz by simp
  qed
qed

lemma free_inv:
  assumes inv: "heap_inv L h" and irq: "irq_nest k = 0" and p: "L p = Some s"
  obtains h' where "rt_free p k h = Some h'" "heap_inv (L(p := None)) h'" "cells h' = cells h" "heap_ptr h' = heap_ptr h" "heap_end h' = heap_end h"
    "mem_size_aligned h' = mem_size_aligned h" "lfree h' < heap_end h'"
proof -
  from inv obtain ss where ok: "heap_wf ss h" and lv: "live_on L (heap_ptr h) (used_segs 0 ss)" by (auto simp: heap_inv_def)
  obtain as n bs where b: "ss = as @ (n, True) # bs" "p = heap_ptr h + seg_len as + 16"
    "used_segs 0 ss = used_segs 0 as @ (seg_len as, n) # used_segs (seg_len as + n) bs" using ok lv p by (rule live_block)
  obtain ss' h' where h': "rt_free p k h = Some h'" "heap_wf ss' h'"
    "used_segs 0 ss' = used_segs 0 as @ used_segs (seg_len as + n) bs" "cells h' = cells h" "heap_ptr h' = heap_ptr h" "heap_end h' = heap_end h"
    "mem_size_aligned h' = mem_size_aligned h" "lfree h' < heap_end h"
    using free_ok [OF ok [unfolded b(1)] irq] unfolding b(2) by blast
  have "live_on (L(p := None)) (heap_ptr h) (used_segs 0 ss')"
    using live_on_remove [OF lv [unfolded b(3)]] heap_wf_distinct [OF ok] unfolding h'(3) b(2,3) by blast
  with h'(2,5) have "heap_inv (L(p := None)) h'" by (auto simp: heap_inv_def)
  with h' that show ?thesis by simp
qed

lemma heap_inv_geometry: "heap_inv L h \<Longrightarrow> geometry h"
  by (auto simp: heap_inv_def heap_wf_def)

lemma RT_ALIGN_ge: "unat n \<le> 4294967288 \<Longrightarrow> unat n \<le> unat (RT_ALIGN n 8)"
  by (simp add: align8)

lemma RT_ALIGN_zero: "unat n \<le> 4294967288 \<Longrightarrow> unat (RT_ALIGN n 8) = 0 \<longleftrightarrow> n = 0"
  using RT_ALIGN_ge [of n] by (auto simp: align8 unat_eq_zero)

lemma RT_ALIGN_dvd: "8 dvd unat (RT_ALIGN n 8)"
  by (simp add: RT_ALIGN_def align_down8)

text \<open>What \<^verbatim>\<open>rt_realloc\<close> finds out about a live block.\<close>

lemma realloc_unfold:
  assumes irq: "irq_nest k = 0" and ok: "heap_wf ss h"
    and b: "ss = as @ (n, True) # bs" "p = heap_ptr h + seg_len as + 16" and z: "z = unat (RT_ALIGN w 8)"
  shows "rt_realloc p w k h =
    (if mem_size_aligned h < z then Some (RT_NULL, h)
     else if z = 0 then do { h \<leftarrow> rt_free p k h; Some (RT_NULL, h) }
     else if n - 16 = z then Some (p, h)
     else if z + 28 < n - 16 then do { h \<leftarrow> realloc_split (heap_ptr h + seg_len as) (seg_len as) (n - 16) z h; Some (p, h) }
     else do {
       (nmem, h) \<leftarrow> rt_malloc (of_nat z) k h;
       if nmem \<noteq> RT_NULL then do {
         h \<leftarrow> rt_free p k (copy_cells nmem p (if n - 16 < z then n - 16 else z) h);
         Some (nmem, h) }
       else Some (nmem, h) })"
proof -
  obtain q where g: "geometry h" and r: "rep h 0 0 (as @ (n, True) # bs) q (mem_size_aligned h + 16)" using ok b(1) by (auto simp: heap_wf_def)
  obtain r0 where s: "24 \<le> n" "hdr h (heap_ptr h + seg_len as) = \<lparr>hm_magic = HEAP_MAGIC, hm_used = of_bool True, hm_next = seg_len as + n, hm_prev = r0\<rparr>"
    "mem_size_aligned h + 16 = seg_len as + n + seg_len bs" using r by (rule rep_split)
  have e: "heap_end h = heap_ptr h + (seg_len as + n + seg_len bs)" "heap_end h < 4294967296" using g s(3) by (auto simp: geometry_def)
  have a: "sub32 p 16 = heap_ptr h + seg_len as" "sub32 (heap_ptr h + seg_len as) (heap_ptr h) = seg_len as"
    "sub32 (sub32 (seg_len as + n) (seg_len as)) 16 = n - 16" using e s(1) unfolding b(2) by simp_all
  have np: "p \<noteq> RT_NULL" "\<not> (p < heap_ptr h \<or> heap_end h \<le> p)" using e s(1) unfolding b(2) by simp_all
  have zz: "add32 (add32 z 16) 12 = z + 28" if "z \<le> mem_size_aligned h" using that g by (simp add: geometry_def)
  have sz: "sub32 (sub32 (hm_next (hdr h (sub32 p 16))) (sub32 (sub32 p 16) (heap_ptr h))) 16 = n - 16" using a s(2) by simp
  show ?thesis using np not_irq [OF irq] a zz unfolding rt_realloc_def Let_def z [symmetric] sz by simp
qed

lemma heap_inv_shrink:
  assumes "heap_inv (L(p \<mapsto> t)) h" "t' \<le> t"
  shows "heap_inv (L(p \<mapsto> t')) h"
proof -
  from assms(1) obtain ss where ok: "heap_wf ss h" and lv: "live_on (L(p \<mapsto> t)) (heap_ptr h) (used_segs 0 ss)" by (auto simp: heap_inv_def)
  have "live_on (L(p \<mapsto> t')) (heap_ptr h) (used_segs 0 ss)"
  proof (rule live_onI)
    show "\<exists>a n. (a, n) \<in> set (used_segs 0 ss) \<and> x = heap_ptr h + a + 16 \<and> s + 16 \<le> n" if "(L(p \<mapsto> t')) x = Some s" for x s
      using live_onD [OF lv, of x "if x = p then t else s"] that assms(2) by (fastforce split: if_splits)
    show "\<exists>s. (L(p \<mapsto> t')) (heap_ptr h + a + 16) = Some s" if "(a, n) \<in> set (used_segs 0 ss)" for a n
      using live_on_dom [OF lv that] by (auto split: if_splits)
  qed
  with ok show ?thesis by (auto simp: heap_inv_def)
qed

lemma copy_cells_simps [simp]:
  "heap_ptr (copy_cells d s n h) = heap_ptr h" "heap_end (copy_cells d s n h) = heap_end h" "heap_inv L (copy_cells d s n h) = heap_inv L h"
  "mem_size_aligned (copy_cells d s n h) = mem_size_aligned h"
  "cells (copy_cells d s n h) a = (if d \<le> a \<and> a < d + n then cells h (s + (a - d)) else cells h a)"
  by (simp_all add: copy_cells_def)

text \<open>Moving a block: allocate, copy, release.\<close>

lemma move_inv:
  assumes inv: "heap_inv L h" and irq: "irq_nest k = 0" and p: "L p = Some s"
    and m: "rt_malloc w k h = Some (p', h1)" "L p' = None" "heap_inv (L(p' \<mapsto> z)) h1" "cells h1 = cells h" and n: "n \<le> z" "t \<le> z"
  obtains h' where "rt_free p k (copy_cells p' p n h1) = Some h'" "heap_inv (L(p := None, p' \<mapsto> t)) h'"
    "\<forall>i < n. cells h' (p' + i) = cells h (p + i)" "\<forall>q u i. L q = Some u \<and> i < u \<longrightarrow> cells h' (q + i) = cells h (q + i)"
    "heap_ptr h' = heap_ptr h1" "heap_end h' = heap_end h1" "mem_size_aligned h' = mem_size_aligned h1"
proof -
  have ne: "p' \<noteq> p" using m(2) p by auto
  let ?h2 = "copy_cells p' p n h1"
  have i2: "heap_inv (L(p' \<mapsto> t)) ?h2" using heap_inv_shrink [OF m(3) n(2)] by simp
  have l2: "(L(p' \<mapsto> t)) p = Some s" using p ne by simp
  obtain h' where h': "rt_free p k ?h2 = Some h'" "heap_inv ((L(p' \<mapsto> t))(p := None)) h'" "cells h' = cells ?h2" "heap_ptr h' = heap_ptr ?h2"
    "heap_end h' = heap_end ?h2" "mem_size_aligned h' = mem_size_aligned ?h2" using i2 irq l2 by (rule free_inv)
  have "heap_inv (L(p := None, p' \<mapsto> t)) h'" using h'(2) ne by (simp add: fun_upd_twist)
  moreover have "\<forall>i < n. cells h' (p' + i) = cells h (p + i)" using h'(3) m(4) by simp
  moreover have "cells h' (q + i) = cells h (q + i)" if q: "L q = Some u" "i < u" for q u i
  proof -
    have "q \<noteq> p'" using q m(2) by auto
    then have "q + u + 16 \<le> p' \<or> p' + z + 16 \<le> q" using heap_inv_disjoint [OF m(3), of q u p' z] q by simp
    then show ?thesis using h'(3) m(4) n(1) q(2) by auto
  qed
  ultimately show ?thesis using that h' by simp
qed

lemma realloc_inv:
  assumes inv: "heap_inv L h" and irq: "irq_nest k = 0" and p: "L p = Some s" and w: "unat w \<le> 4294967288"
  obtains (freed) h' where "rt_realloc p w k h = Some (RT_NULL, h')" "w = 0" "heap_inv (L(p := None)) h'" "lfree h' < heap_end h'"
      "cells h' = cells h"
    | (none) "rt_realloc p w k h = Some (RT_NULL, h)" "w \<noteq> 0"
    | (some) p' h' where "rt_realloc p w k h = Some (p', h')" "p' \<noteq> RT_NULL" "w \<noteq> 0" "heap_inv (L(p := None, p' \<mapsto> unat w)) h'"
      "\<forall>i < min s (unat w). cells h' (p' + i) = cells h (p + i)" "\<forall>q u i. q \<noteq> p \<and> L q = Some u \<and> i < u \<longrightarrow> cells h' (q + i) = cells h (q + i)"
proof -
  let ?z = "unat (RT_ALIGN w 8)"
  from inv obtain ss where ok: "heap_wf ss h" and lv: "live_on L (heap_ptr h) (used_segs 0 ss)" by (auto simp: heap_inv_def)
  obtain as n bs where b: "ss = as @ (n, True) # bs" "p = heap_ptr h + seg_len as + 16" "s + 16 \<le> n"
    "used_segs 0 ss = used_segs 0 as @ (seg_len as, n) # used_segs (seg_len as + n) bs" using ok lv p by (rule live_block)
  note u = realloc_unfold [OF irq ok b(1,2) refl, of w]
  have z: "unat w \<le> ?z" "?z = 0 \<longleftrightarrow> w = 0" by (rule RT_ALIGN_ge [OF w], rule RT_ALIGN_zero [OF w])
  have np: "p \<noteq> RT_NULL" using b(2) by simp
  consider (big) "mem_size_aligned h < ?z" | (zero) "?z = 0" | (same) "?z \<le> mem_size_aligned h" "?z \<noteq> 0" "n - 16 = ?z"
    | (split) "?z \<le> mem_size_aligned h" "?z \<noteq> 0" "n - 16 \<noteq> ?z" "?z + 28 < n - 16"
    | (move) "?z \<le> mem_size_aligned h" "?z \<noteq> 0" "n - 16 \<noteq> ?z" "\<not> ?z + 28 < n - 16" by linarith
  then show ?thesis
  proof cases
    case big
    then show ?thesis using none u z by simp
  next
    case zero
    obtain h' where "rt_free p k h = Some h'" "heap_inv (L(p := None)) h'" "lfree h' < heap_end h'" "cells h' = cells h"
      using free_inv [OF inv irq p] by metis
    then show ?thesis using freed u z zero by simp
  next
    case same
    have "live_on (L(p \<mapsto> unat w)) (heap_ptr h) (used_segs 0 ss)"
      using live_on_resize [OF lv [unfolded b(4)], of "unat w" n] heap_wf_distinct [OF ok] b(2,3,4) z(1) same by simp
    with ok have "heap_inv (L(p := None, p \<mapsto> unat w)) h" by (auto simp: heap_inv_def)
    then show ?thesis using some [of p h] u same z np by simp
  next
    case split
    have d: "8 dvd ?z" "0 < ?z" using RT_ALIGN_dvd split by auto
    obtain ss' h' where h': "realloc_split (heap_ptr h + seg_len as) (seg_len as) (n - 16) ?z h = Some h'" "heap_wf ss' h'"
      "used_segs 0 ss' = used_segs 0 as @ (seg_len as, ?z + 16) # used_segs (seg_len as + n) bs" "cells h' = cells h" "heap_ptr h' = heap_ptr h"
      using realloc_split_ok [OF ok [unfolded b(1)] d split(4)] by metis
    have "live_on (L(p \<mapsto> unat w)) (heap_ptr h') (used_segs 0 ss')"
      using live_on_resize [OF lv [unfolded b(4)], of "unat w" "?z + 16"] heap_wf_distinct [OF ok] b(2,4) h'(3,5) z(1) by simp
    with h'(2) have "heap_inv (L(p := None, p \<mapsto> unat w)) h'" by (auto simp: heap_inv_def)
    then show ?thesis using some [of p h'] u split z np h'(1,4) by simp
  next
    case move
    have bz: "?z \<le> block_size (of_nat ?z)" using block_size_ge [of "RT_ALIGN w 8"] move(1) heap_inv_geometry [OF inv] by (simp add: geometry_def)
    from inv irq bz show ?thesis
    proof (cases rule: malloc_inv)
      case none
      then show ?thesis using that(2) u move z by simp
    next
      case (some p' h1)
      let ?n = "if n - 16 < ?z then n - 16 else ?z"
      have nz: "?n \<le> ?z" by simp
      obtain h' where h': "rt_free p k (copy_cells p' p ?n h1) = Some h'" "heap_inv (L(p := None, p' \<mapsto> unat w)) h'"
        "\<forall>i < ?n. cells h' (p' + i) = cells h (p + i)" "\<forall>q u i. L q = Some u \<and> i < u \<longrightarrow> cells h' (q + i) = cells h (q + i)"
        "heap_ptr h' = heap_ptr h1" "heap_end h' = heap_end h1" "mem_size_aligned h' = mem_size_aligned h1"
        by (rule move_inv [OF inv irq p some(1,4,5,6) nz z(1)])
      have "min s (unat w) \<le> ?n" using b(3) z(1) by auto
      then have c: "\<forall>i < min s (unat w). cells h' (p' + i) = cells h (p + i)" using h'(3) by auto
      have "rt_realloc p w k h = Some (p', h')" using u move some(1,2) h'(1) by simp
      moreover have "w \<noteq> 0" using z(2) move(2) by simp
      moreover have "\<forall>q u i. q \<noteq> p \<and> L q = Some u \<and> i < u \<longrightarrow> cells h' (q + i) = cells h (q + i)" using h'(4) by blast
      ultimately show ?thesis using that(3) some(2) h'(2) c by blast
    qed
  qed
qed

section \<open>Initialisation\<close>

lemma align_down8': "unat (RT_ALIGN_DOWN e 8) = unat e div 8 * 8"
  by (simp add: RT_ALIGN_DOWN_def align_down8)

lemma init_ok:
  assumes "rt_system_heap_init b e k h0 = Some h" "0 < unat b" "unat b + 64 \<le> unat e" "used_mem h0 = 0"
  shows "heap_wf [(mem_size_aligned h + 16, False)] h" "lfree h = heap_ptr h" "heap_ptr h = (unat b + 7) div 8 * 8"
    "mem_size_aligned h = unat e div 8 * 8 - (unat b + 7) div 8 * 8 - 32"
proof -
  define B E where "B = (unat b + 7) div 8 * 8" and "E = unat e div 8 * 8"
  have eb: "unat e < 4294967296" by (rule u32_bound)
  have b: "unat (RT_ALIGN b 8) = B" unfolding B_def using assms(3) eb by (intro align8) simp
  have e: "unat (RT_ALIGN_DOWN e 8) = E" unfolding E_def by (rule align_down8')
  have bd: "B \<le> unat b + 7" "unat b \<le> B" "E \<le> unat e" "unat e \<le> E + 7" unfolding B_def E_def by linarith+
  have d: "8 dvd B" "8 dvd E" by (simp_all add: B_def E_def)
  have le: "B + 48 \<le> E" using bd assms(3) d by presburger
  let ?M = "E - B - 32"
  have big: "32 < E" "sub32 E 32 = E - 32" "B \<le> E - 32" "sub32 (sub32 E B) 32 = ?M" "add32 ?M 16 = ?M + 16" "add32 B (?M + 16) = B + ?M + 16"
    using le bd eb by simp_all
  have ctx: "RT_DEBUG_NOT_IN_INTERRUPT k = Some ()" using assms(1) by (auto simp: rt_system_heap_init_def Let_def bind_eq_Some_conv)
  have h: "h = (upd_hdr (B + ?M + 16) (\<lambda>m. \<lparr>hm_magic = HEAP_MAGIC, hm_used = 1, hm_next = ?M + 16, hm_prev = ?M + 16\<rparr>)
      (upd_hdr B (\<lambda>m. \<lparr>hm_magic = HEAP_MAGIC, hm_used = 0, hm_next = ?M + 16, hm_prev = 0\<rparr>)
        (h0\<lparr>mem_size_aligned := ?M, heap_ptr := B, heap_end := B + ?M + 16\<rparr>)))\<lparr>lfree := B\<rparr>"
    using assms(1) ctx big by (simp add: rt_system_heap_init_def Let_def b e upd_hdr_def)
  show "lfree h = heap_ptr h" "heap_ptr h = (unat b + 7) div 8 * 8" "mem_size_aligned h = unat e div 8 * 8 - (unat b + 7) div 8 * 8 - 32"
    by (simp_all add: h B_def E_def)
  have "8 dvd ?M" using d by (intro dvd_diff_nat) simp_all
  then have g: "geometry h" using bd eb assms(2) d le by (simp add: h geometry_def)
  have "8 dvd ?M + 16" by (rule dvd_add [OF \<open>8 dvd ?M\<close>]) simp
  moreover have "24 \<le> ?M + 16" using le by simp
  ultimately have "rep h 0 0 [(mem_size_aligned h + 16, False)] 0 (mem_size_aligned h + 16)" by (simp add: h)
  then show "heap_wf [(mem_size_aligned h + 16, False)] h"
    using g assms(4) by (auto simp: heap_wf_def h no_holes_def lfree_at_def)
qed

section \<open>Histories\<close>

text \<open>What can happen to the heap after its initialisation: threads call the functions of mem.c with pointers they own,
  and write to the bytes they asked for.\<close>

inductive heap_run :: "heap \<Rightarrow> live \<Rightarrow> bool" where
  init: "rt_system_heap_init b e k h0 = Some h \<Longrightarrow> 0 < unat b \<Longrightarrow> unat b + 64 \<le> unat e \<Longrightarrow> used_mem h0 = 0 \<Longrightarrow> heap_run h Map.empty"
| malloc: "heap_run h L \<Longrightarrow> irq_nest k = 0 \<Longrightarrow> unat s \<le> 4294967288 \<Longrightarrow> rt_malloc s k h = Some (p, h') \<Longrightarrow>
    heap_run h' (if p = RT_NULL then L else L(p \<mapsto> unat s))"
| calloc: "heap_run h L \<Longrightarrow> irq_nest k = 0 \<Longrightarrow> unat c * unat s \<le> 4294967288 \<Longrightarrow> rt_calloc c s k h = Some (p, h') \<Longrightarrow>
    heap_run h' (if p = RT_NULL then L else L(p \<mapsto> unat c * unat s))"
| free: "heap_run h L \<Longrightarrow> irq_nest k = 0 \<Longrightarrow> L p = Some s \<Longrightarrow> rt_free p k h = Some h' \<Longrightarrow> heap_run h' (L(p := None))"
| realloc: "heap_run h L \<Longrightarrow> irq_nest k = 0 \<Longrightarrow> L p = Some s \<Longrightarrow> unat w \<le> 4294967288 \<Longrightarrow> rt_realloc p w k h = Some (p', h') \<Longrightarrow>
    heap_run h' (if p' \<noteq> RT_NULL then L(p := None, p' \<mapsto> unat w) else if w = 0 then L(p := None) else L)"
| client_write: "heap_run h L \<Longrightarrow> L p = Some s \<Longrightarrow> i < s \<Longrightarrow> heap_run (h\<lparr>cells := (cells h)(p + i := v)\<rparr>) L"

lemma unat_mult_small: "unat c * unat s \<le> 4294967288 \<Longrightarrow> unat (c * s) = unat c * unat s" for c s :: u32
  by (simp add: unat_word_ariths(2))

lemma calloc_inv:
  assumes "heap_inv L h" "irq_nest k = 0" "unat c * unat s \<le> 4294967288" "rt_calloc c s k h = Some (p, h')"
  shows "if p = RT_NULL then h' = h else heap_inv (L(p \<mapsto> unat c * unat s)) h' \<and> (\<forall>i < unat c * unat s. cells h' (p + i) = 0)"
proof -
  have u: "unat (c * s) = unat c * unat s" by (rule unat_mult_small [OF assms(3)])
  have "unat c * unat s \<le> block_size (c * s)" using block_size_ge [of "c * s"] assms(3) u by simp
  with assms(1,2) show ?thesis
  proof (cases rule: malloc_inv)
    case none
    then show ?thesis using assms(4) by (simp add: rt_calloc_def)
  next
    case (some q h1)
    then show ?thesis using assms(4) u by (auto simp: rt_calloc_def zero_cells_def)
  qed
qed

text \<open>With nothing live, \<^verbatim>\<open>lfree\<close> is not at the end of the heap.\<close>

definition heap_state :: "live \<Rightarrow> heap \<Rightarrow> bool" where
  "heap_state L h \<longleftrightarrow> heap_inv L h \<and> (L = Map.empty \<longrightarrow> lfree h < heap_end h)"

lemma heap_stateI: "heap_inv L h \<Longrightarrow> lfree h < heap_end h \<Longrightarrow> heap_state L h"
  "heap_inv (L(p \<mapsto> s)) h \<Longrightarrow> heap_state (L(p \<mapsto> s)) h"
  by (simp_all add: heap_state_def)

lemma heap_run_state: "heap_run h L \<Longrightarrow> heap_state L h"
proof (induction rule: heap_run.induct)
  case (init b e k h0 h)
  note i = init_ok [OF init]
  from i(1) have "heap_inv Map.empty h" unfolding heap_inv_def by (intro exI [of _ "[(mem_size_aligned h + 16, False)]"]) (simp add: live_on_def)
  moreover have "lfree h < heap_end h" using i(1,2) by (simp add: heap_wf_def geometry_def)
  ultimately show ?case by (rule heap_stateI)
next
  case (malloc h L k s p h')
  then have "heap_inv L h" by (simp add: heap_state_def)
  from this malloc(2) block_size_ge [OF malloc(3)] show ?case
  proof (cases rule: malloc_inv)
    case none
    then show ?thesis using malloc(4,5) by simp
  next
    case (some p1 h1)
    then have "p1 = p" "h1 = h'" using malloc(4) by simp_all
    with some(2,5) have np: "p \<noteq> RT_NULL" and "heap_inv (L(p \<mapsto> unat s)) h'" by simp_all
    then show ?thesis unfolding if_not_P [OF np] by (intro heap_stateI(2))
  qed
next
  case (calloc h L k c s p h')
  then show ?case using calloc_inv [of L h k c s p h'] by (auto simp: heap_state_def)
next
  case (free h L k p s h')
  then have "heap_inv L h" by (simp add: heap_state_def)
  from free_inv [OF this free(2,3)] free(4) show ?case by (metis heap_stateI(1) option.sel)
next
  case (realloc h L k p s w p' h')
  then have "heap_inv L h" by (simp add: heap_state_def)
  from this realloc(2,3,4) show ?case
  proof (cases rule: realloc_inv)
    case (freed h1)
    then have "p' = RT_NULL" "h1 = h'" using realloc(5) by simp_all
    with freed have np: "\<not> p' \<noteq> RT_NULL" and st: "heap_state (L(p := None)) h'" by (simp_all add: heap_stateI(1) del: fun_upd_apply)
    show ?thesis unfolding if_not_P [OF np] if_P [OF \<open>w = 0\<close>] by (rule st)
  next
    case none
    then show ?thesis using realloc(5,6) by simp
  next
    case (some p1 h1)
    then have "p1 = p'" "h1 = h'" using realloc(5) by simp_all
    with some(2,4) have np: "p' \<noteq> RT_NULL" and "heap_inv (L(p := None, p' \<mapsto> unat w)) h'" by simp_all
    then show ?thesis unfolding if_P [OF np] by (intro heap_stateI(2))
  qed
qed (simp add: heap_state_def)

lemma heap_run_inv: "heap_run h L \<Longrightarrow> heap_inv L h"
  using heap_run_state by (simp add: heap_state_def)

text \<open>Nothing used, no two free neighbours: one free segment.\<close>

lemma one_free_segment:
  assumes "no_holes ss" "used_segs p ss = []" "ss \<noteq> []"
  shows "\<exists>n. ss = [(n, False)]"
proof -
  obtain n u rest where ss: "ss = (n, u) # rest" using assms(3) by (cases ss) auto
  have u: "\<not> u" "used_segs (p + n) rest = []" using assms(2) ss by (auto split: if_splits)
  have "rest = []" using assms(1) u unfolding ss no_holes_def by (cases rest) (auto split: if_splits)
  with ss u show ?thesis by simp
qed

lemma empty_heap:
  assumes "heap_state Map.empty h"
  shows "heap_wf [(mem_size_aligned h + 16, False)] h" "lfree h = heap_ptr h" "used_mem h = 0"
proof -
  from assms obtain ss where ok: "heap_wf ss h" and lv: "live_on Map.empty (heap_ptr h) (used_segs 0 ss)" and lt: "lfree h < heap_end h"
    by (auto simp: heap_state_def heap_inv_def)
  obtain q l where o: "geometry h" "no_holes ss" "lfree h = heap_ptr h + l" "lfree_at ss l" "used_mem h = sum_list (map snd (used_segs 0 ss))"
    "seg_len ss = mem_size_aligned h + 16" using ok by (rule heap_wfD)
  have us: "used_segs 0 ss = []" using lv by (cases "used_segs 0 ss") (auto simp: live_on_def)
  obtain n where ss: "ss = [(n, False)]" using one_free_segment [OF o(2) us] o(6) by fastforce
  then show "heap_wf [(mem_size_aligned h + 16, False)] h" using ok o(6) by simp
  show "used_mem h = 0" using o(5) us by simp
  show "lfree h = heap_ptr h" using o(1,3,4,6) lt ss by (auto simp: lfree_at_def geometry_def)
qed

section \<open>The heap as a provider of memory\<close>

text \<open>What a component that takes its memory from the heap relies on, and what follows for the parts it cuts out of its block.\<close>

locale region_heap =
  fixes hinv :: "live \<Rightarrow> 'h \<Rightarrow> bool"
    and alloc :: "u32 \<Rightarrow> kernel \<Rightarrow> 'h \<Rightarrow> (nat \<times> 'h) option"
    and release :: "nat \<Rightarrow> kernel \<Rightarrow> 'h \<Rightarrow> 'h option"
  assumes alloc: "hinv L h \<Longrightarrow> irq_nest k = 0 \<Longrightarrow> unat w \<le> 4294967288 \<Longrightarrow>
      \<exists>p h'. alloc w k h = Some (p, h') \<and> (if p = RT_NULL then h' = h else L p = None \<and> hinv (L(p \<mapsto> unat w)) h')"
    and release: "hinv L h \<Longrightarrow> irq_nest k = 0 \<Longrightarrow> L p = Some s \<Longrightarrow> \<exists>h'. release p k h = Some h' \<and> hinv (L(p := None)) h'"
    and apart: "hinv L h \<Longrightarrow> L p = Some s \<Longrightarrow> L q = Some t \<Longrightarrow> p \<noteq> q \<Longrightarrow> p + s \<le> q \<or> q + t \<le> p"
    and addressable: "hinv L h \<Longrightarrow> L p = Some s \<Longrightarrow> 0 < p \<and> p + s \<le> 4294967296"
begin

lemma carved_apart:
  assumes "hinv L h" "L r = Some n" "r \<le> a" "a + len \<le> r + n" "L q = Some t" "q \<noteq> r"
  shows "a + len \<le> q \<or> q + t \<le> a"
  using apart [OF assms(1,2,5)] assms(3,4,6) by auto

lemma alloc_release:
  assumes "hinv L h" "irq_nest k = 0" "unat s \<le> 4294967288" "alloc s k h = Some (p, h')" "p \<noteq> RT_NULL"
  shows "\<exists>h''. release p k h' = Some h'' \<and> hinv L h''"
proof -
  have "L p = None" "hinv (L(p \<mapsto> unat s)) h'" using alloc [OF assms(1-3)] assms(4,5) by auto
  moreover have "(L(p \<mapsto> unat s))(p := None) = L" using \<open>L p = None\<close> by auto
  ultimately show ?thesis using release [of "L(p \<mapsto> unat s)" h' k p "unat s"] assms(2) by simp
qed

end

interpretation heap: region_heap heap_inv rt_malloc rt_free
proof unfold_locales
  fix L h and k :: kernel and s :: u32
  assume a: "heap_inv L h" "irq_nest k = 0" "unat s \<le> 4294967288"
  show "\<exists>p h'. rt_malloc s k h = Some (p, h') \<and> (if p = RT_NULL then h' = h else L p = None \<and> heap_inv (L(p \<mapsto> unat s)) h')"
    using a(1,2) block_size_ge [OF a(3)] by (rule malloc_inv) auto
next
  fix L h and k :: kernel and p s
  assume "heap_inv L h" "irq_nest k = 0" "L p = Some s"
  then show "\<exists>h'. rt_free p k h = Some h' \<and> heap_inv (L(p := None)) h'" by (rule free_inv) blast
next
  fix L h p s q t
  assume "heap_inv L h" "L p = Some s" "L q = Some t" "p \<noteq> q"
  from heap_inv_disjoint [OF this] show "p + s \<le> q \<or> q + t \<le> p" by auto
next
  fix L h p s
  assume a: "heap_inv L h" "L p = Some s"
  from heap_inv_block [OF a] heap_inv_geometry [OF a(1)] show "0 < p \<and> p + s \<le> 4294967296" by (auto simp: geometry_def)
qed

section \<open>Shrinking a block in place\<close>

lemma plug_forward_end:
  "lfree h = heap_end h \<Longrightarrow> lfree (plug_forward mem h) = heap_end h \<and> heap_end (plug_forward mem h) = heap_end h"
  by (auto simp: plug_forward_def Let_def)

lemma plug_backward_end:
  "lfree h = heap_end h \<Longrightarrow> mem \<noteq> heap_end h \<Longrightarrow> lfree (plug_backward mem h) = heap_end h \<and> heap_end (plug_backward mem h) = heap_end h"
  by (auto simp: plug_backward_def Let_def)

lemma plug_lfree_end:
  assumes "plug_holes mem h = Some h'" "lfree h = heap_end h"
  shows "lfree h' = heap_end h'"
proof -
  have "mem < heap_end h" "h' = plug_backward mem (plug_forward mem h)"
    using assms(1) by (simp_all add: plug_holes_def RT_ASSERT_def split: if_splits)
  then show ?thesis using plug_forward_end [OF assms(2), of mem] plug_backward_end [of "plug_forward mem h" mem] by simp
qed

lemma realloc_split_lfree_end:
  assumes "realloc_split mem ptr sz z h = Some h'" "lfree h = heap_end h"
  shows "lfree h' = heap_end h'"
proof -
  have "\<exists>a h3. plug_holes a h3 = Some h' \<and> lfree h3 = heap_end h3"
    using assms unfolding realloc_split_def Let_def
    by (intro exI conjI) (assumption, simp)
  then show ?thesis using plug_lfree_end by blast
qed

lemma realloc_in_place:
  assumes inv: "heap_inv L h" and irq: "irq_nest k = 0" and p: "L p = Some s" and w: "w \<noteq> 0" "unat w + 35 < s"
  obtains ss' h' where "rt_realloc p w k h = Some (p, h')" "heap_wf ss' h'" "lfree h = heap_end h \<longrightarrow> lfree h' = heap_end h'"
proof -
  let ?z = "unat (RT_ALIGN w 8)"
  from inv obtain ss where ok: "heap_wf ss h" and lv: "live_on L (heap_ptr h) (used_segs 0 ss)" by (auto simp: heap_inv_def)
  obtain as n bs where b: "ss = as @ (n, True) # bs" "p = heap_ptr h + seg_len as + 16" "s + 16 \<le> n" using ok lv p by (rule live_block)
  obtain q where "rep h 0 0 ss q (mem_size_aligned h + 16)" and g: "geometry h" using ok by (auto simp: heap_wf_def)
  then have e: "mem_size_aligned h + 16 = seg_len as + n + seg_len bs" using rep_end [of h 0 0 ss q "mem_size_aligned h + 16"] b(1) by simp
  have n: "n \<le> mem_size_aligned h + 16" using e by simp
  have "n < 4294967296" using n g by (auto simp: geometry_def)
  then have w': "unat w \<le> 4294967288" using w(2) b(3) by simp
  have "?z \<le> unat w + 7" using align8 [OF w'] by simp
  then have z: "?z + 28 < n - 16" "?z \<le> mem_size_aligned h" using w(2) b(3) n by simp_all
  have nz: "?z \<noteq> 0" using RT_ALIGN_zero [OF w'] w(1) by simp
  obtain ss' h' where h': "realloc_split (heap_ptr h + seg_len as) (seg_len as) (n - 16) ?z h = Some h'" "heap_wf ss' h'"
    using realloc_split_ok [OF ok [unfolded b(1)] RT_ALIGN_dvd _ z(1)] nz by (metis gr0I)
  have "rt_realloc p w k h = Some (p, h')" using realloc_unfold [OF irq ok b(1,2) refl, of w] z nz h'(1) by simp
  with that h' realloc_split_lfree_end show ?thesis by blast
qed

text \<open>With \<^verbatim>\<open>lfree\<close> at the end of the heap the search sees no block.\<close>

lemma malloc_lfree_end:
  assumes ok: "heap_wf ss h" and e: "lfree h = heap_end h" and irq: "irq_nest k = 0"
  shows "rt_malloc m k h = Some (RT_NULL, h)"
proof -
  have g: "geometry h" using ok by (simp add: heap_wf_def)
  have "malloc_search h z (sub32 (heap_end h) (heap_ptr h)) = Some None" if "z \<le> mem_size_aligned h" for z
  proof -
    have "\<not> sub32 (heap_end h) (heap_ptr h) < sub32 (mem_size_aligned h) z" using g that by (auto simp: geometry_def)
    then show ?thesis by (subst malloc_search.simps) simp
  qed
  then show ?thesis using not_irq [OF irq] e g by (simp add: rt_malloc_def Let_def geometry_def)
qed

section \<open>A sample history\<close>

definition blank_heap :: heap where
  "blank_heap = \<lparr>heap_ptr = 0, heap_end = 0, lfree = 0, mem_size_aligned = 0, used_mem = 0, max_mem = 0,
     hdr = (\<lambda>a. \<lparr>hm_magic = 0, hm_used = 0, hm_next = 0, hm_prev = 0\<rparr>), cells = (\<lambda>a. 0)\<rparr>"

lemma sample_init:
  fixes k :: kernel
  assumes "irq_nest k = 0"
  obtains h where "heap_run h Map.empty" "heap_wf [(80, False)] h" "heap_ptr h = 4096" "mem_size_aligned h = 64"
proof -
  have "\<exists>h. rt_system_heap_init 4096 4192 k blank_heap = Some h" using not_irq [OF assms] by (simp add: rt_system_heap_init_def Let_def)
  then obtain h where h: "rt_system_heap_init 4096 4192 k blank_heap = Some h" by blast
  have c: "0 < unat (4096 :: u32)" "unat (4096 :: u32) + 64 \<le> unat (4192 :: u32)" "used_mem blank_heap = 0" by (simp_all add: blank_heap_def)
  have "heap_run h Map.empty" using h c by (rule heap_run.init)
  with init_ok [OF h c] that show ?thesis by simp
qed

lemma sample_full:
  fixes k :: kernel
  assumes "irq_nest k = 0"
  obtains h where "heap_run h [4112 \<mapsto> 56]" "lfree h = heap_end h" "heap_ptr h = 4096"
proof -
  obtain h where h: "heap_run h Map.empty" "heap_wf [(80, False)] h" "heap_ptr h = 4096" "mem_size_aligned h = 64"
    using assms by (rule sample_init)
  have al: "unat (RT_ALIGN (56 :: u32) 8) = 56" by (subst align8) simp_all
  then have z: "unat (RT_ALIGN (56 :: u32) 8) \<le> mem_size_aligned h" "block_size 56 = 56" using h(4) by (simp_all add: block_size_def)
  have l: "lfree h = heap_ptr h" using empty_heap(2) [OF heap_run_state [OF h(1)]] .
  have nz: "(56 :: u32) \<noteq> 0" by simp
  from h(2) assms nz z(1) have "\<exists>h'. rt_malloc 56 k h = Some (4112, h') \<and> heap_wf [(80, True)] h' \<and> heap_ptr h' = 4096 \<and> mem_size_aligned h' = 64"
  proof (cases rule: malloc_ok)
    case (none as bs)
    have "as = [] \<and> bs = [(80, False)]" using none(2,3) l by (cases as) auto
    then show ?thesis using none(4) h(4) z(2) by simp
  next
    case (some as n bs h')
    have "as = [] \<and> n = 80 \<and> bs = []" using some(2) by (cases as) auto
    then show ?thesis using some h(3,4) z(2) by (simp add: new_segs_def)
  qed
  then obtain h' where h': "rt_malloc 56 k h = Some (4112, h')" "heap_wf [(80, True)] h'" "heap_ptr h' = 4096" "mem_size_aligned h' = 64" by blast
  have "heap_run h' [4112 \<mapsto> 56]" using heap_run.malloc [OF h(1) assms _ h'(1)] by simp
  moreover have "lfree h' = heap_end h'" using h'(2) by (auto simp: heap_wf_def lfree_at_def geometry_def)
  ultimately show ?thesis using that h'(3) by blast
qed

section \<open>Properties\<close>


text \<open>No call on the heap fails an assertion or runs for ever: after every history, allocation of any size, and release and
  reallocation of any live block return.\<close>

lemma heap_returns:
  assumes "heap_run h L" "irq_nest k = 0"
  shows "(\<exists>p h'. rt_malloc s k h = Some (p, h')) \<and>
    (\<forall>q t w. L q = Some t \<and> unat w \<le> 4294967288 \<longrightarrow> (\<exists>h'. rt_free q k h = Some h') \<and> (\<exists>p h'. rt_realloc q w k h = Some (p, h')))"
proof -
  note inv = heap_run_inv [OF assms(1)]
  have "\<exists>p h'. rt_malloc s k h = Some (p, h')" by (rule malloc_inv [OF inv assms(2), of 0 s]) auto
  moreover have "\<exists>h'. rt_free q k h = Some h'" if "L q = Some t" for q t using free_inv [OF inv assms(2) that] by blast
  moreover have "\<exists>p h'. rt_realloc q w k h = Some (p, h')" if "L q = Some t" "unat w \<le> 4294967288" for q t w
    using realloc_inv [OF inv assms(2) that] by metis
  ultimately show ?thesis by blast
qed

text \<open>When a live block is reallocated, the bytes it keeps (the shorter of the old and the new size) have their old values at
  the new place, and the contents of every other live block are unchanged.\<close>

lemma realloc_keeps_contents:
  assumes "heap_run h L" "irq_nest k = 0" "L p = Some s" "unat w \<le> 4294967288" "rt_realloc p w k h = Some (p', h')" "p' \<noteq> RT_NULL"
  shows "(\<forall>i < min s (unat w). cells h' (p' + i) = cells h (p + i)) \<and>
    (\<forall>q t i. q \<noteq> p \<and> L q = Some t \<and> i < t \<longrightarrow> cells h' (q + i) = cells h (q + i))"
  using heap_run_inv [OF assms(1)] assms(2,3,4) by (cases rule: realloc_inv) (use assms(5,6) in auto)

text \<open>C8: Released memory is merged again: whatever was allocated and released before, once nothing is live any request smaller
  than the heap is granted, at the start of the heap, and the accounting shows no used memory.\<close>

theorem heap_coalesces:
  assumes "heap_run h Map.empty" "irq_nest k = 0" "s \<noteq> 0" "unat s + 7 < mem_size_aligned h" "16 < mem_size_aligned h"
  shows "(\<exists>h'. rt_malloc s k h = Some (heap_ptr h + 16, h')) \<and> rt_memory_info h = (mem_size_aligned h, 0, max_mem h)"
proof -
  note e = empty_heap [OF heap_run_state [OF assms(1)]]
  have g: "mem_size_aligned h < 4294967272" using heap_inv_geometry [OF heap_run_inv [OF assms(1)]] by (auto simp: geometry_def)
  have al: "unat (RT_ALIGN s 8) = (unat s + 7) div 8 * 8" using assms(4) g by (intro align8) simp
  then have z: "unat (RT_ALIGN s 8) < mem_size_aligned h" using assms(4) by linarith
  then have b: "block_size s < mem_size_aligned h" using assms(5) by (simp add: block_size_def Let_def)
  have "\<exists>h'. rt_malloc s k h = Some (heap_ptr h + 16, h')"
    using e(1) assms(2,3) less_imp_le [OF z]
  proof (cases rule: malloc_ok)
    case (none as bs)
    then have "as = [] \<and> bs = [(mem_size_aligned h + 16, False)]" using e(2) by (cases as) (auto simp: Cons_eq_append_conv)
    then show ?thesis using none(4) b by simp
  next
    case (some as n bs h')
    then have "as = []" by (auto simp: Cons_eq_append_conv)
    with some show ?thesis by simp
  qed
  then show ?thesis using e(3) by (simp add: rt_memory_info_def)
qed

text \<open>Shrinking a block in place does not move \<^verbatim>\<open>lfree\<close> down to the part that is split off. When the heap was exhausted (\<^verbatim>\<open>lfree\<close> at its
  end), the block shrinks but every allocation still fails, although the freed part is large enough for some.
\<close>

lemma realloc_loses_tail:
  assumes "heap_run h L" "irq_nest k = 0" "lfree h = heap_end h" "L p = Some s" "w \<noteq> 0" "unat w + 35 < s"
  shows "\<exists>h'. rt_realloc p w k h = Some (p, h') \<and> (\<forall>m. rt_malloc m k h' = Some (RT_NULL, h'))"
proof -
  obtain ss' h' where "rt_realloc p w k h = Some (p, h')" "heap_wf ss' h'" "lfree h = heap_end h \<longrightarrow> lfree h' = heap_end h'"
    using heap_run_inv [OF assms(1)] assms(2,4,5,6) by (rule realloc_in_place)
  then show ?thesis using malloc_lfree_end [OF _ _ assms(2)] assms(3) by blast
qed

section \<open>Witnesses\<close>

lemma wrap_kernel_thread: "irq_nest wrap_kernel = 0"
  by (simp add: wrap_kernel_def two_threads_def)


theorem heap_coalesces_witness: "\<exists>h h'. heap_run h Map.empty \<and> rt_malloc 40 wrap_kernel h = Some (heap_ptr h + 16, h')"
proof -
  obtain h where h: "heap_run h Map.empty" "mem_size_aligned h = 64" using sample_init [OF wrap_kernel_thread] by blast
  with heap_coalesces [OF h(1) wrap_kernel_thread, of 40] show ?thesis by auto
qed

end
