(* ===== verification/Mempool.thy ===== *)
theory Mempool
  imports Rt_Heap_Run
begin

text \<open>
  The memory pools of RTT4/src/mempool.c: blocks of one size, each behind a pointer-sized word that links the free blocks
  and holds the address of the pool while the block is in use. \<open>links m a\<close> is that word at address \<open>a\<close>, \<open>pools m a\<close> the
  control block at address \<open>a\<close>; its waiting threads are the list \<open>LIpc (mp_wait p)\<close>. \<^verbatim>\<open>rt_mp_alloc\<close> is cut at its call of
  \<^verbatim>\<open>rt_schedule\<close>. Addresses and sizes are natural numbers below \<open>2\<^sup>3\<^sup>2\<close>, as in theory Rt_Heap.
\<close>

record mempool =
  mp_start :: nat
  mp_size :: nat
  mp_block_size :: nat
  mp_block_list :: nat
  mp_total :: nat
  mp_free :: nat
  mp_wait :: nat

record pool_mem =
  pools :: "nat \<Rightarrow> mempool"
  links :: "nat \<Rightarrow> nat"
  rt_errno :: rt_err_t

definition mul32 :: "nat \<Rightarrow> nat \<Rightarrow> nat" where
  "mul32 a b = (a * b) mod 4294967296"

definition upd_pool :: "nat \<Rightarrow> (mempool \<Rightarrow> mempool) \<Rightarrow> pool_mem \<Rightarrow> pool_mem" where
  "upd_pool mp f m = m\<lparr>pools := (pools m)(mp := f (pools m mp))\<rparr>"

definition set_link :: "nat \<Rightarrow> nat \<Rightarrow> pool_mem \<Rightarrow> pool_mem" where
  "set_link a v m = m\<lparr>links := (links m)(a := v)\<rparr>"

section \<open>Operations\<close>

text \<open>The loop that links all blocks, and the end of the list.\<close>

definition mp_link_blocks :: "nat \<Rightarrow> nat \<Rightarrow> nat \<Rightarrow> pool_mem \<Rightarrow> pool_mem" where
  "mp_link_blocks block_ptr bs cnt m =
     (let m = fold (\<lambda>offset. set_link (add32 block_ptr (mul32 offset (add32 bs 4)))
                                (add32 block_ptr (mul32 (add32 offset 1) (add32 bs 4)))) [0..<cnt] m
      in set_link (add32 block_ptr (mul32 (sub32 cnt 1) (add32 bs 4))) RT_NULL m)"

definition rt_mp_init :: "nat \<Rightarrow> nat \<Rightarrow> u32 \<Rightarrow> u32 \<Rightarrow> nat \<Rightarrow> pool_mem \<Rightarrow> (rt_err_t \<times> pool_mem) option" where
  "rt_mp_init mp start size0 block_size0 i m = do {
     RT_ASSERT (mp \<noteq> RT_NULL);
     RT_ASSERT (start \<noteq> RT_NULL);
     RT_ASSERT (0 < size0 \<and> 0 < block_size0);
     let sz = unat (RT_ALIGN_DOWN size0 RT_ALIGN_SIZE);
     let bs = unat (RT_ALIGN block_size0 RT_ALIGN_SIZE);
     let cnt = sz div add32 bs 4;
     let m = upd_pool mp (\<lambda>p. \<lparr>mp_start = start, mp_size = sz, mp_block_size = bs, mp_block_list = mp_block_list p,
               mp_total = cnt, mp_free = cnt, mp_wait = i\<rparr>) m;
     let m = mp_link_blocks start bs cnt m;
     Some (RT_EOK, upd_pool mp (\<lambda>p. p\<lparr>mp_block_list := start\<rparr>) m) }"

text \<open>The loop that wakes the waiting threads is that of \<^verbatim>\<open>rt_ipc_list_resume_all\<close>.\<close>

definition rt_mp_detach :: "nat \<Rightarrow> pool_mem \<Rightarrow> kernel \<Rightarrow> kernel option" where
  "rt_mp_detach mp m k = do {
     RT_ASSERT (mp \<noteq> RT_NULL);
     rt_ipc_list_resume_all (LIpc (mp_wait (pools m mp))) k }"

text \<open>\<open>mp\<close> is the address of the allocated object, or \<open>RT_NULL\<close>.\<close>

definition rt_mp_create ::
  "nat \<Rightarrow> u32 \<Rightarrow> u32 \<Rightarrow> nat \<Rightarrow> kernel \<Rightarrow> heap \<Rightarrow> pool_mem \<Rightarrow> (nat \<times> heap \<times> pool_mem) option" where
  "rt_mp_create mp block_count block_size0 i k h m = do {
     RT_DEBUG_NOT_IN_INTERRUPT k;
     RT_ASSERT (0 < block_count \<and> 0 < block_size0);
     if mp = RT_NULL then Some (RT_NULL, h, m)
     else do {
       let bs = RT_ALIGN block_size0 RT_ALIGN_SIZE;
       let m = upd_pool mp (\<lambda>p. p\<lparr>mp_block_size := unat bs, mp_size := unat ((bs + 4) * block_count)\<rparr>) m;
       (start, h) \<leftarrow> rt_malloc ((bs + 4) * block_count) k h;
       let m = upd_pool mp (\<lambda>p. p\<lparr>mp_start := start\<rparr>) m;
       if start = RT_NULL then Some (RT_NULL, h, m)
       else do {
         let m = upd_pool mp (\<lambda>p. p\<lparr>mp_total := unat block_count, mp_free := unat block_count, mp_wait := i\<rparr>) m;
         let m = mp_link_blocks start (unat bs) (unat block_count) m;
         Some (mp, h, upd_pool mp (\<lambda>p. p\<lparr>mp_block_list := start\<rparr>) m) } } }"

definition rt_mp_delete :: "nat \<Rightarrow> pool_mem \<Rightarrow> kernel \<Rightarrow> heap \<Rightarrow> (kernel \<times> heap) option" where
  "rt_mp_delete mp m k h = do {
     RT_DEBUG_NOT_IN_INTERRUPT k;
     RT_ASSERT (mp \<noteq> RT_NULL);
     k \<leftarrow> rt_ipc_list_resume_all (LIpc (mp_wait (pools m mp))) k;
     h \<leftarrow> rt_free (mp_start (pools m mp)) k h;
     Some (k, h) }"

text \<open>\<^verbatim>\<open>rt_set_errno\<close> of kservice.c.\<close>

definition rt_set_errno :: "rt_err_t \<Rightarrow> pool_mem \<Rightarrow> kernel \<Rightarrow> pool_mem \<times> kernel" where
  "rt_set_errno e m k =
     (if rt_interrupt_get_nest k \<noteq> 0 then (m\<lparr>rt_errno := e\<rparr>, k)
      else case rt_thread_self k of
        None \<Rightarrow> (m\<lparr>rt_errno := e\<rparr>, k)
      | Some tid \<Rightarrow> (m, upd_thread tid (\<lambda>th. th\<lparr>t_error := e\<rparr>) k))"

text \<open>Take the first free block.\<close>

definition mp_take :: "nat \<Rightarrow> pool_mem \<Rightarrow> (nat \<times> pool_mem) option" where
  "mp_take mp m = do {
     let m = upd_pool mp (\<lambda>p. p\<lparr>mp_free := sub32 (mp_free p) 1\<rparr>) m;
     let block_ptr = mp_block_list (pools m mp);
     RT_ASSERT (block_ptr \<noteq> RT_NULL);
     let m = upd_pool mp (\<lambda>p. p\<lparr>mp_block_list := links m block_ptr\<rparr>) m;
     Some (add32 block_ptr 4, set_link block_ptr mp m) }"

text \<open>Suspend the thread at the front of the waiting list.\<close>

definition mp_block :: "lhead \<Rightarrow> nat \<Rightarrow> u32 \<Rightarrow> kernel \<Rightarrow> kernel option" where
  "mp_block l thread time k = do {
     (_, k) \<leftarrow> rt_thread_suspend thread k;
     let k = k\<lparr>lists := (lists k)(l := thread # lists k l)\<rparr>;
     wait_timer thread time k \<bind> rt_schedule }"

definition mp_alloc_loop ::
  "nat \<Rightarrow> u32 \<Rightarrow> nat option \<Rightarrow> pool_mem \<Rightarrow> kernel \<Rightarrow> (nat ipc_result \<times> pool_mem \<times> kernel) option" where
  "mp_alloc_loop mp time self m k =
     (if mp_free (pools m mp) = 0 then
        if time = 0 then let (m, k) = rt_set_errno (- RT_ETIMEOUT) m k in Some (Done RT_NULL, m, k)
        else do {
          RT_DEBUG_NOT_IN_INTERRUPT k;
          thread \<leftarrow> self;
          let k = upd_thread thread (\<lambda>th. th\<lparr>t_error := RT_EOK\<rparr>) k;
          k \<leftarrow> mp_block (LIpc (mp_wait (pools m mp))) thread time k;
          Some (Waiting thread, m, k) }
      else do {
        (p, m) \<leftarrow> mp_take mp m;
        Some (Done p, m, k) })"

definition rt_mp_alloc :: "nat \<Rightarrow> u32 \<Rightarrow> pool_mem \<Rightarrow> kernel \<Rightarrow> (nat ipc_result \<times> pool_mem \<times> kernel) option" where
  "rt_mp_alloc mp time m k = do {
     RT_ASSERT (mp \<noteq> RT_NULL);
     mp_alloc_loop mp time (rt_thread_self k) m k }"

text \<open>The thread runs again after waiting since tick \<open>before_sleep\<close>.\<close>

definition rt_mp_alloc_resume ::
  "nat \<Rightarrow> u32 \<Rightarrow> u32 \<Rightarrow> nat \<Rightarrow> pool_mem \<Rightarrow> kernel \<Rightarrow> (nat ipc_result \<times> pool_mem \<times> kernel) option" where
  "rt_mp_alloc_resume mp time before_sleep thread m k =
     (if t_error (threads k thread) \<noteq> RT_EOK then Some (Done RT_NULL, m, k)
      else mp_alloc_loop mp (remaining_timeout time before_sleep k) (Some thread) m k)"

definition rt_mp_free :: "nat \<Rightarrow> pool_mem \<Rightarrow> kernel \<Rightarrow> (pool_mem \<times> kernel) option" where
  "rt_mp_free block m k =
     (if block = RT_NULL then Some (m, k)
      else do {
        let block_ptr = sub32 block 4;
        let mp = links m block_ptr;
        let m = upd_pool mp (\<lambda>p. p\<lparr>mp_free := add32 (mp_free p) 1\<rparr>) m;
        let m = set_link block_ptr (mp_block_list (pools m mp)) m;
        let m = upd_pool mp (\<lambda>p. p\<lparr>mp_block_list := block_ptr\<rparr>) m;
        case lists k (LIpc (mp_wait (pools m mp))) of
          thread # ts \<Rightarrow> do {
            let k = upd_thread thread (\<lambda>th. th\<lparr>t_error := RT_EOK\<rparr>) k;
            k \<leftarrow> rt_schedule (snd (rt_thread_resume thread k));
            Some (m, k) }
        | [] \<Rightarrow> Some (m, k) })"

section \<open>The pool as a list of free and a set of used blocks\<close>

lemma mul32_small [simp]: "a * b < 4294967296 \<Longrightarrow> mul32 a b = a * b"
  by (simp add: mul32_def)

lemma upd_pool_simps [simp]:
  "pools (upd_pool mp f m) a = (if a = mp then f (pools m mp) else pools m a)" "links (upd_pool mp f m) = links m"
  "rt_errno (upd_pool mp f m) = rt_errno m"
  by (simp_all add: upd_pool_def)

lemma set_link_simps [simp]:
  "pools (set_link a v m) = pools m" "links (set_link a v m) b = (if b = a then v else links m b)" "rt_errno (set_link a v m) = rt_errno m"
  by (simp_all add: set_link_def)

fun chain :: "(nat \<Rightarrow> nat) \<Rightarrow> nat \<Rightarrow> nat list \<Rightarrow> bool" where
  "chain l a [] \<longleftrightarrow> a = RT_NULL"
| "chain l a (b # bs) \<longleftrightarrow> a = b \<and> b \<noteq> RT_NULL \<and> chain l (l b) bs"

lemma chain_other: "a \<notin> set bs \<Longrightarrow> chain (l(a := v)) x bs = chain l x bs"
  by (induction bs arbitrary: x) auto

text \<open>The blocks of a pool, and where they may be.\<close>

definition block_at :: "mempool \<Rightarrow> nat \<Rightarrow> nat" where
  "block_at p i = mp_start p + i * (mp_block_size p + 4)"

definition pool_blocks :: "mempool \<Rightarrow> nat set" where
  "pool_blocks p = block_at p ` {..<mp_total p}"

definition pool_geometry :: "mempool \<Rightarrow> bool" where
  "pool_geometry p \<longleftrightarrow> 0 < mp_start p \<and> 0 < mp_block_size p \<and> block_at p (mp_total p) \<le> 4294967296"

definition pool_wf :: "nat \<Rightarrow> nat list \<Rightarrow> nat set \<Rightarrow> pool_mem \<Rightarrow> bool" where
  "pool_wf mp fl us m \<longleftrightarrow> mp \<noteq> RT_NULL \<and> pool_geometry (pools m mp) \<and> chain (links m) (mp_block_list (pools m mp)) fl
     \<and> distinct fl \<and> set fl \<inter> us = {} \<and> set fl \<union> us = pool_blocks (pools m mp) \<and> mp_free (pools m mp) = length fl
     \<and> (\<forall>b \<in> us. links m b = mp)"

text \<open>What never changes in a pool: place, block size, number of blocks, waiting list.\<close>

definition pool_shape :: "mempool \<Rightarrow> nat \<times> nat \<times> nat \<times> nat" where
  "pool_shape p = (mp_start p, mp_block_size p, mp_total p, mp_wait p)"

lemma block_at_mono: "i < j \<Longrightarrow> block_at p i + (mp_block_size p + 4) \<le> block_at p j"
proof -
  assume "i < j"
  then have "Suc i * (mp_block_size p + 4) \<le> j * (mp_block_size p + 4)" by (intro mult_le_mono1) simp
  then show ?thesis by (simp add: block_at_def)
qed

lemma block_at_inj: "block_at p i = block_at p j \<Longrightarrow> i = j"
  using block_at_mono [of i j p] block_at_mono [of j i p] by (cases i j rule: linorder_cases) auto

lemma pool_block_bounds:
  assumes "pool_geometry p" "b \<in> pool_blocks p"
  shows "mp_start p \<le> b" "b + (mp_block_size p + 4) \<le> block_at p (mp_total p)" "b + 4 < 4294967296" "0 < b"
proof -
  obtain i where i: "b = block_at p i" "i < mp_total p" using assms(2) by (auto simp: pool_blocks_def)
  show 1: "mp_start p \<le> b" using i by (simp add: block_at_def)
  show 2: "b + (mp_block_size p + 4) \<le> block_at p (mp_total p)" using block_at_mono [OF i(2)] i(1) by simp
  show "b + 4 < 4294967296" "0 < b" using 1 2 assms(1) by (auto simp: pool_geometry_def)
qed

lemma pool_block_disjoint:
  assumes "b \<in> pool_blocks p" "c \<in> pool_blocks p" "b \<noteq> c"
  shows "b + (mp_block_size p + 4) \<le> c \<or> c + (mp_block_size p + 4) \<le> b"
proof -
  obtain i j where "b = block_at p i" "c = block_at p j" using assms by (auto simp: pool_blocks_def)
  with assms(3) block_at_mono [of i j p] block_at_mono [of j i p] show ?thesis by (cases i j rule: linorder_cases) auto
qed

lemma pool_blocks_card: "card (pool_blocks p) = mp_total p"
  unfolding pool_blocks_def by (subst card_image) (auto simp: inj_on_def dest: block_at_inj)

lemma pool_wf_count:
  assumes "pool_wf mp fl us m"
  shows "card us + mp_free (pools m mp) = mp_total (pools m mp)"
proof -
  have u: "set fl \<union> us = pool_blocks (pools m mp)" "set fl \<inter> us = {}" "distinct fl" "mp_free (pools m mp) = length fl"
    using assms by (simp_all add: pool_wf_def)
  have "finite us" using u(1) by (metis finite_Un pool_blocks_def finite_imageI finite_lessThan)
  then have "card (set fl \<union> us) = card (set fl) + card us" using u(2) by (intro card_Un_disjoint) auto
  then show ?thesis using u pool_blocks_card by (simp add: distinct_card)
qed

section \<open>Taking and returning blocks\<close>

lemma mp_take_wf:
  assumes wf: "pool_wf mp fl us m" and f: "mp_free (pools m mp) \<noteq> 0"
  obtains b fl' m' where "fl = b # fl'" "mp_take mp m = Some (b + 4, m')" "pool_wf mp fl' (insert b us) m'" "b \<notin> us"
    "pool_shape (pools m' mp) = pool_shape (pools m mp)"
proof -
  obtain b fl' where fl: "fl = b # fl'" using wf f by (cases fl) (auto simp: pool_wf_def)
  note w = wf [unfolded pool_wf_def fl]
  have b: "b \<in> pool_blocks (pools m mp)" using w by auto
  note bd = pool_block_bounds [OF _ b]
  have n: "length fl' + 1 \<le> 4294967296"
  proof -
    have "length (b # fl') \<le> mp_total (pools m mp)" using pool_wf_count [OF wf] w by simp
    moreover have "mp_total (pools m mp) \<le> block_at (pools m mp) (mp_total (pools m mp))" by (simp add: block_at_def add_mult_distrib2)
    ultimately show ?thesis using w by (simp add: pool_geometry_def)
  qed
  let ?m1 = "upd_pool mp (\<lambda>p. p\<lparr>mp_free := length fl'\<rparr>) m"
  let ?m' = "set_link b mp (upd_pool mp (\<lambda>p. p\<lparr>mp_block_list := links m b\<rparr>) ?m1)"
  have s: "sub32 (length fl' + 1) 1 = length fl'" using n by (simp add: sub32_def)
  have "mp_take mp m = Some (b + 4, ?m')"
    using w bd s by (simp add: mp_take_def Let_def upd_pool_def set_link_def)
  moreover have "pool_wf mp fl' (insert b us) ?m'"
    using w chain_other [of b fl' "links m" mp "links m b"] by (auto simp: pool_wf_def pool_geometry_def pool_blocks_def block_at_def set_link_def upd_pool_def)
  ultimately show ?thesis using that [OF fl] w by (auto simp: upd_pool_def set_link_def pool_shape_def)
qed

lemma mp_free_wf:
  assumes wf: "pool_wf mp fl us m" and b: "b \<in> us"
  defines "m' \<equiv> upd_pool mp (\<lambda>p. p\<lparr>mp_block_list := b\<rparr>) (set_link b (mp_block_list (pools m mp)) (upd_pool mp (\<lambda>p. p\<lparr>mp_free := add32 (mp_free p) 1\<rparr>) m))"
  shows "pool_wf mp (b # fl) (us - {b}) m'" "pool_shape (pools m' mp) = pool_shape (pools m mp)"
proof -
  note w = wf [unfolded pool_wf_def]
  have n: "length fl + 1 < 4294967296"
  proof -
    have "finite us" using w by (metis finite_Un pool_blocks_def finite_imageI finite_lessThan)
    then have "0 < card us" using b card_gt_0_iff by blast
    then have "length fl + 1 \<le> mp_total (pools m mp)" using pool_wf_count [OF wf] w by simp
    moreover have "mp_total (pools m mp) * 4 \<le> block_at (pools m mp) (mp_total (pools m mp))" by (simp add: block_at_def add_mult_distrib2)
    ultimately show ?thesis using w by (simp add: pool_geometry_def)
  qed
  have bb: "b \<in> pool_blocks (pools m mp)" "b \<notin> set fl" using w b by auto
  have nz: "b \<noteq> RT_NULL" using pool_block_bounds(4) [OF _ bb(1)] w by simp
  show "pool_wf mp (b # fl) (us - {b}) m'"
    using w n bb nz b chain_other [of b fl "links m" "mp_block_list (pools m mp)" "mp_block_list (pools m mp)"]
    unfolding m'_def by (auto simp: pool_wf_def pool_geometry_def pool_blocks_def block_at_def set_link_def upd_pool_def)
  show "pool_shape (pools m' mp) = pool_shape (pools m mp)" by (simp add: m'_def pool_shape_def)
qed

section \<open>Initialisation\<close>

lemma fold_links:
  assumes g: "pool_geometry p" and n: "n \<le> mp_total p"
  shows "links (fold (\<lambda>i. set_link (add32 (mp_start p) (mul32 i (add32 (mp_block_size p) 4)))
      (add32 (mp_start p) (mul32 (add32 i 1) (add32 (mp_block_size p) 4)))) [0..<n] m) a
    = (if a \<in> block_at p ` {..<n} then (a + (mp_block_size p + 4)) mod 4294967296 else links m a)"
  using n
proof (induction n)
  case (Suc n)
  have lt: "block_at p (Suc n) \<le> 4294967296" using block_at_mono [of "Suc n" "mp_total p" p] Suc.prems g
    by (cases "Suc n = mp_total p") (auto simp: pool_geometry_def)
  have e: "block_at p (Suc n) = block_at p n + (mp_block_size p + 4)" by (simp add: block_at_def)
  have s: "add32 (mp_block_size p) 4 = mp_block_size p + 4" "add32 n 1 = n + 1"
    using lt e g by (simp_all add: block_at_def pool_geometry_def add_mult_distrib2)
  have a1: "add32 (mp_start p) (mul32 n (mp_block_size p + 4)) = block_at p n"
    using lt e by (simp add: block_at_def)
  have "add32 n (Suc 0) = Suc n" using s(2) by simp
  then have a2: "add32 (mp_start p) (mul32 (add32 n (Suc 0)) (mp_block_size p + 4)) = (block_at p n + (mp_block_size p + 4)) mod 4294967296"
    by (simp add: add32_def mul32_def block_at_def mod_simps algebra_simps)
  show ?case using Suc by (auto simp: s(1) a1 a2 lessThan_Suc)
qed simp

text \<open>From block \<open>i\<close> on, the links run through the blocks in order.\<close>

lemma chain_blocks:
  assumes "\<forall>j < n. block_at p j \<noteq> RT_NULL" "\<forall>j. j + 1 < n \<longrightarrow> l (block_at p j) = block_at p (j + 1)" "l (block_at p (n - 1)) = RT_NULL" "i < n"
  shows "chain l (block_at p i) (map (block_at p) [i..<n])"
  using assms(4)
proof (induction "n - i" arbitrary: i)
  case (Suc d)
  show ?case
  proof (cases "i + 1 < n")
    case True
    then have "chain l (block_at p (i + 1)) (map (block_at p) [i + 1..<n])" by (intro Suc.hyps(1)) (use Suc.hyps(2) in simp_all)
    then show ?thesis using assms(1,2) True Suc.prems by (simp add: upt_conv_Cons)
  next
    case False
    then have "i = n - 1" using Suc.prems by simp
    then show ?thesis using assms(1,3) Suc.prems by (simp add: upt_conv_Cons)
  qed
qed simp

lemma mp_link_blocks_chain:
  assumes g: "pool_geometry p" and n: "0 < mp_total p"
  shows "chain (links (mp_link_blocks (mp_start p) (mp_block_size p) (mp_total p) m)) (mp_start p) (map (block_at p) [0..<mp_total p])"
    "pools (mp_link_blocks (mp_start p) (mp_block_size p) (mp_total p) m) = pools m"
proof -
  let ?n = "mp_total p" and ?m = "mp_link_blocks (mp_start p) (mp_block_size p) (mp_total p) m"
  have e: "block_at p ?n = block_at p (?n - 1) + (mp_block_size p + 4)" using n by (cases ?n) (simp_all add: block_at_def)
  have le: "block_at p ?n \<le> 4294967296" using g by (simp add: pool_geometry_def)
  have nb: "?n < 4294967296" using le g by (simp add: block_at_def pool_geometry_def add_mult_distrib2)
  have "add32 (mp_block_size p) 4 = mp_block_size p + 4" using e le g by (simp add: block_at_def pool_geometry_def)
  moreover have "mul32 (?n - 1) (mp_block_size p + 4) = (?n - 1) * (mp_block_size p + 4)" using e le by (simp add: block_at_def)
  ultimately have last: "add32 (mp_start p) (mul32 (sub32 ?n 1) (add32 (mp_block_size p) 4)) = block_at p (?n - 1)"
    using n nb e le by (simp add: block_at_def)
  have l: "links ?m a = (if a = block_at p (?n - 1) then RT_NULL else
      if a \<in> block_at p ` {..<?n} then (a + (mp_block_size p + 4)) mod 4294967296 else links m a)" for a
    unfolding mp_link_blocks_def Let_def last using fold_links [OF g order_refl, of m a] by simp
  have nx: "links ?m (block_at p j) = block_at p (j + 1)" if j: "j + 1 < ?n" for j
  proof -
    have "block_at p (j + 1) = block_at p j + (mp_block_size p + 4)" by (simp add: block_at_def)
    moreover have "block_at p (j + 1) < 4294967296" using block_at_mono [OF j, of p] le by simp
    moreover have "block_at p j \<noteq> block_at p (?n - 1)" using block_at_inj [of p j "?n - 1"] j by auto
    ultimately show ?thesis using l [of "block_at p j"] j by auto
  qed
  have "chain (links ?m) (block_at p 0) (map (block_at p) [0..<?n])"
  proof (rule chain_blocks)
    show "\<forall>j < ?n. block_at p j \<noteq> RT_NULL" using g by (simp add: block_at_def pool_geometry_def)
    show "links ?m (block_at p (?n - 1)) = RT_NULL" using l by simp
  qed (use nx n in simp_all)
  then show "chain (links ?m) (mp_start p) (map (block_at p) [0..<?n])" by (simp add: block_at_def)
  have "pools (fold (\<lambda>i. set_link (f i) (g i)) xs m) = pools m" for f g xs by (induction xs arbitrary: m) simp_all
  then show "pools ?m = pools m" by (simp add: mp_link_blocks_def Let_def)
qed

lemma fresh_pool_wf:
  assumes "pool_geometry p" "0 < mp_total p" "mp_free p = mp_total p" "mp \<noteq> RT_NULL" "pools m mp = p"
  defines "m' \<equiv> upd_pool mp (\<lambda>p. p\<lparr>mp_block_list := mp_start p\<rparr>) (mp_link_blocks (mp_start p) (mp_block_size p) (mp_total p) m)"
  shows "pool_wf mp (map (block_at p) [0..<mp_total p]) {} m'"
proof -
  note c = mp_link_blocks_chain [OF assms(1,2), of m]
  have "distinct (map (block_at p) [0..<mp_total p])" by (simp add: distinct_map inj_on_def block_at_inj)
  moreover have "set (map (block_at p) [0..<mp_total p]) = pool_blocks p" by (auto simp: pool_blocks_def atLeast0LessThan)
  ultimately show ?thesis using assms(1,3,4,5) c
    by (simp add: pool_wf_def m'_def pool_geometry_def pool_blocks_def block_at_def)
qed

lemma mp_init_wf:
  assumes r: "rt_mp_init mp start size0 bs0 i m0 = Some (e, m)" and fit: "start + unat size0 \<le> 4294967296" "unat bs0 \<le> 4294967280"
    and one: "unat bs0 + 18 \<le> unat size0"
  obtains fl where "pool_wf mp fl {} m" "e = RT_EOK" "mp_start (pools m mp) = start" "mp_wait (pools m mp) = i"
    "block_at (pools m mp) (mp_total (pools m mp)) \<le> start + unat size0" "unat bs0 \<le> mp_block_size (pools m mp)"
proof -
  define sz bs where "sz = unat (RT_ALIGN_DOWN size0 8)" and "bs = unat (RT_ALIGN bs0 8)"
  have z: "sz \<le> unat size0" "unat size0 \<le> sz + 7" by (simp_all add: sz_def align_down8')
  have b: "unat bs0 \<le> bs" "bs \<le> unat bs0 + 7" using fit(2) by (simp_all add: bs_def align8)
  have st: "add32 bs 4 = bs + 4" using b(2) fit(2) by simp
  have a: "mp \<noteq> RT_NULL" "start \<noteq> RT_NULL" "0 < size0" "0 < bs0" using r by (auto simp: rt_mp_init_def RT_ASSERT_def split: if_splits)
  let ?p = "\<lparr>mp_start = start, mp_size = sz, mp_block_size = bs, mp_block_list = mp_block_list (pools m0 mp), mp_total = sz div (bs + 4),
    mp_free = sz div (bs + 4), mp_wait = i\<rparr>"
  let ?m1 = "upd_pool mp (\<lambda>p. ?p) m0"
  have m: "e = RT_EOK" "m = upd_pool mp (\<lambda>p. p\<lparr>mp_block_list := mp_start ?p\<rparr>) (mp_link_blocks (mp_start ?p) (mp_block_size ?p) (mp_total ?p) ?m1)"
    using r a st by (auto simp: rt_mp_init_def Let_def sz_def [symmetric] bs_def [symmetric] upd_pool_def)
  have total: "0 < sz div (bs + 4)" using z b one by (simp add: div_greater_zero_iff)
  have be: "block_at ?p (mp_total ?p) \<le> start + sz" by (simp add: block_at_def)
  have "0 < unat bs0" using a(4) by (simp add: word_less_nat_alt)
  then have g: "pool_geometry ?p" using be a(2) b(1) fit(1) z(1) by (simp add: pool_geometry_def)
  have pm: "pools m mp = ?p\<lparr>mp_block_list := start\<rparr>" using mp_link_blocks_chain(2) [OF g] total unfolding m(2) by simp
  have "pool_wf mp (map (block_at ?p) [0..<mp_total ?p]) {} (upd_pool mp (\<lambda>p. p\<lparr>mp_block_list := mp_start p\<rparr>)
     (mp_link_blocks (mp_start ?p) (mp_block_size ?p) (mp_total ?p) ?m1))"
    by (rule fresh_pool_wf [OF g]) (use total a(1) in simp_all)
  moreover have "upd_pool mp (\<lambda>p. p\<lparr>mp_block_list := mp_start p\<rparr>) (mp_link_blocks (mp_start ?p) (mp_block_size ?p) (mp_total ?p) ?m1) = m"
    unfolding m(2) using mp_link_blocks_chain(2) [OF g] total by (simp add: upd_pool_def)
  ultimately have wf: "pool_wf mp (map (block_at ?p) [0..<mp_total ?p]) {} m" by simp
  have "sz div (bs + 4) * (bs + 4) \<le> unat size0" using z(1) div_times_less_eq_dividend le_trans by blast
  then show ?thesis using that [OF wf m(1)] pm b(1) by (simp add: block_at_def)
qed

section \<open>Waiting and waking\<close>

lemma mp_block_kernel:
  assumes ok: "kernel_ok k" and c: "runs t k" and w: "is_wait l" and b: "sint time < 0x7fffffff"
  obtains k' where "mp_block l t time k = Some k'" "kernel_ok k'" "current k' \<noteq> None" "lists k' l = t # lists k l"
    "irq_nest k' = irq_nest k" "lock_nest k' = lock_nest k" "same_data k k'" "stat_of (threads k' t) = RT_THREAD_SUSPEND"
    "lock_nest k = 0 \<and> ready_group k \<noteq> 0 \<longrightarrow> scheduled k'"
proof -
  have r: "current k = Some t" "stat_of (threads k t) = RT_THREAD_RUNNING" using c by (simp_all add: runs_def)
  show ?thesis
  proof (rule suspend_insert_kernel [OF ok r(2) w])
    fix k1
    assume k1: "rt_thread_suspend t k = Some (RT_EOK, k1)" "lists k1 = lists k" "same_data k k1"
      "\<And>xs. set xs = insert t (set (lists k l)) \<Longrightarrow> distinct xs \<Longrightarrow> kernel_ok (k1\<lparr>lists := (lists k1)(l := xs)\<rparr>)"
      "t \<notin> set (lists k l)" "distinct (lists k l)" "stat_of (threads k1 t) = RT_THREAD_SUSPEND"
      "current k1 = current k" "rt_tick k1 = rt_tick k" "lock_nest k1 = lock_nest k" "irq_nest k1 = irq_nest k"
      "\<And>u. u \<noteq> t \<Longrightarrow> threads k1 u = threads k u"
    let ?k2 = "k1\<lparr>lists := (lists k1)(l := t # lists k1 l)\<rparr>"
    have ok2: "kernel_ok ?k2" by (rule k1(4)) (use k1(2,5,6) in simp_all)
    have c2: "current ?k2 \<noteq> None" "stat_of (threads ?k2 t) = RT_THREAD_SUSPEND" using k1(7,8) r(1) by simp_all
    have rg: "ready_group ?k2 \<noteq> 0" if "ready_group k \<noteq> 0" by (rule ready_group_keeps [OF ok ok2 w _ that]) (use k1(2) in simp)
    have sd: "same_data k ?k2" using k1(3) by (simp add: same_data_def)
    show ?thesis
    proof (rule wait_schedule_kernel [OF ok2 c2 b])
      fix k'
      assume k': "wait_timer t time ?k2 \<bind> rt_schedule = Some k'" "kernel_ok k'" "\<And>l'. is_wait l' \<Longrightarrow> lists k' l' = lists ?k2 l'"
        "stat_of (threads k' t) = RT_THREAD_SUSPEND" "same_data ?k2 k'" "current k' \<noteq> None" "lock_nest k' = lock_nest ?k2" "irq_nest k' = irq_nest ?k2"
        "lock_nest ?k2 = 0 \<and> ready_group ?k2 \<noteq> 0 \<Longrightarrow> scheduled k'"
      show ?thesis
      proof (rule that [of k'])
        show "mp_block l t time k = Some k'" using k'(1) by (simp add: mp_block_def k1(1))
        show "lists k' l = t # lists k l" using k'(3) [OF w] k1(2) by simp
        show "same_data k k'" by (rule same_data_trans [OF sd k'(5)])
        show "lock_nest k = 0 \<and> ready_group k \<noteq> 0 \<longrightarrow> scheduled k'" using k'(9) rg k1(10) by simp
      qed (use k' k1 in simp_all)
    qed
  qed
qed

text \<open>Resuming the first waiting thread of the pool and scheduling.\<close>

lemma mp_wake_kernel:
  assumes ok: "kernel_ok k" and c: "current k \<noteq> None" and l: "lists k (LIpc i) = t # ts"
  obtains k' where "rt_schedule (snd (rt_thread_resume t (upd_thread t (\<lambda>th. th\<lparr>t_error := RT_EOK\<rparr>) k))) = Some k'" "kernel_ok k'"
    "current k' \<noteq> None" "lists k' (LIpc i) = ts" "alive t k'" "t_error (threads k' t) = RT_EOK"
proof -
  let ?k1 = "upd_thread t (\<lambda>th. th\<lparr>t_error := RT_EOK\<rparr>) k"
  have ok1: "kernel_ok ?k1" using ok by (rule upd_data_kernel) (simp_all add: stat_of_def)
  have l1: "lists ?k1 (LIpc i) = t # ts" and c1: "current ?k1 \<noteq> None" using l c by simp_all
  obtain k2 k' where k': "rt_ipc_list_resume (LIpc i) ?k1 = Some k2" "rt_schedule k2 = Some k'" "kernel_ok k'" "current k' \<noteq> None"
    "lists k' (LIpc i) = ts" "alive t k'" "same_data ?k1 k'"
    by (rule ipc_wake_kernel [OF ok1 _ l1 c1]) (simp, blast)
  have "k2 = snd (rt_thread_resume t ?k1)" using k'(1) l1 by (simp add: rt_ipc_list_resume_def)
  moreover have "t_error (threads k' t) = RT_EOK" using same_dataD(1) [OF k'(7), of t] by simp
  ultimately show ?thesis using that k' by simp
qed

section \<open>Every operation keeps the pool and the kernel consistent\<close>

text \<open>\<open>U\<close> are the pointers that are handed out, \<open>sh\<close> the shape of the pool.\<close>

definition pool_ok :: "nat \<Rightarrow> nat \<times> nat \<times> nat \<times> nat \<Rightarrow> nat set \<Rightarrow> pool_mem \<Rightarrow> kernel \<Rightarrow> bool" where
  "pool_ok mp sh U m k \<longleftrightarrow> (\<exists>fl us. pool_wf mp fl us m \<and> U = (\<lambda>b. b + 4) ` us) \<and> pool_shape (pools m mp) = sh \<and> kernel_ok k \<and> current k \<noteq> None"

lemma pool_okD:
  assumes "pool_ok mp sh U m k"
  obtains fl us where "pool_wf mp fl us m" "U = (\<lambda>b. b + 4) ` us" "pool_shape (pools m mp) = sh" "kernel_ok k" "current k \<noteq> None"
  using assms by (auto simp: pool_ok_def)

lemma set_errno_kernel:
  assumes "kernel_ok k"
  shows "kernel_ok (snd (rt_set_errno e m k)) \<and> current (snd (rt_set_errno e m k)) = current k \<and> pools (fst (rt_set_errno e m k)) = pools m
    \<and> links (fst (rt_set_errno e m k)) = links m"
proof (cases "rt_interrupt_get_nest k \<noteq> 0 \<or> rt_thread_self k = None")
  case True
  with assms show ?thesis by (auto simp: rt_set_errno_def)
next
  case False
  then obtain t where "rt_thread_self k = Some t" "rt_interrupt_get_nest k = 0" by auto
  moreover have "kernel_ok (upd_thread t (\<lambda>th. th\<lparr>t_error := e\<rparr>) k)" using assms by (rule upd_data_kernel) (simp_all add: stat_of_def)
  ultimately show ?thesis by (simp add: rt_set_errno_def)
qed

lemma alloc_loop_ok:
  assumes ok: "pool_ok mp sh U m k" and b: "sint time < 0x7fffffff" and r: "time \<noteq> 0 \<longrightarrow> self = Some t \<and> runs t k"
  obtains (got) p m' where "mp_alloc_loop mp time self m k = Some (Done p, m', k)" "mp_free (pools m mp) \<noteq> 0" "p \<noteq> RT_NULL" "p \<notin> U"
      "pool_ok mp sh (insert p U) m' k"
    | (none) m' k' where "mp_alloc_loop mp time self m k = Some (Done RT_NULL, m', k')" "mp_free (pools m mp) = 0" "time = 0" "pool_ok mp sh U m' k'"
    | (waits) k' where "mp_alloc_loop mp time self m k = Some (Waiting t, m, k')" "mp_free (pools m mp) = 0" "time \<noteq> 0" "pool_ok mp sh U m k'"
      "lists k' (LIpc (mp_wait (pools m mp))) = t # lists k (LIpc (mp_wait (pools m mp)))" "t_error (threads k' t) = RT_EOK"
proof -
  obtain fl us where w: "pool_wf mp fl us m" "U = (\<lambda>b. b + 4) ` us" "pool_shape (pools m mp) = sh" "kernel_ok k" "current k \<noteq> None"
    using ok by (rule pool_okD)
  consider (a) "mp_free (pools m mp) \<noteq> 0" | (b) "mp_free (pools m mp) = 0" "time = 0" | (c) "mp_free (pools m mp) = 0" "time \<noteq> 0" by blast
  then show ?thesis
  proof cases
    case a
    obtain c fl' m' where t: "fl = c # fl'" "mp_take mp m = Some (c + 4, m')" "pool_wf mp fl' (insert c us) m'" "c \<notin> us"
      "pool_shape (pools m' mp) = pool_shape (pools m mp)" using w(1) a by (rule mp_take_wf)
    have "pool_ok mp sh (insert (c + 4) U) m' k" unfolding pool_ok_def using t(3,5) w by (intro conjI exI [of _ fl'] exI [of _ "insert c us"]) simp_all
    moreover have "mp_alloc_loop mp time self m k = Some (Done (c + 4), m', k)" using a t(2) by (simp add: mp_alloc_loop_def)
    moreover have "c + 4 \<notin> U" using w(2) t(4) by auto
    ultimately show ?thesis using got a by simp
  next
    case b
    obtain m' k' where e: "rt_set_errno (- RT_ETIMEOUT) m k = (m', k')" by fastforce
    have f: "kernel_ok k'" "current k' = current k" "pools m' = pools m" "links m' = links m"
      using set_errno_kernel [OF w(4), of "- RT_ETIMEOUT" m] unfolding e by simp_all
    have "pool_wf mp fl us m'" using w(1) f(3,4) by (simp add: pool_wf_def)
    with f w have "pool_ok mp sh U m' k'" by (auto simp: pool_ok_def)
    moreover have "mp_alloc_loop mp time self m k = Some (Done RT_NULL, m', k')" using b e by (simp add: mp_alloc_loop_def)
    ultimately show ?thesis using none b by blast
  next
    case c
    let ?k1 = "upd_thread t (\<lambda>th. th\<lparr>t_error := RT_EOK\<rparr>) k"
    have s: "self = Some t" "runs t k" using r c by simp_all
    have ok1: "kernel_ok ?k1" using w(4) by (rule upd_data_kernel) (simp_all add: stat_of_def)
    have r1: "runs t ?k1" using s(2) by (simp add: runs_def stat_of_def)
    obtain k' where k': "mp_block (LIpc (mp_wait (pools m mp))) t time ?k1 = Some k'" "kernel_ok k'" "current k' \<noteq> None"
      "lists k' (LIpc (mp_wait (pools m mp))) = t # lists ?k1 (LIpc (mp_wait (pools m mp)))" "same_data ?k1 k'"
      by (rule mp_block_kernel [OF ok1 r1 _ b, of "LIpc (mp_wait (pools m mp))"]) (simp, blast)
    have ctx: "RT_DEBUG_NOT_IN_INTERRUPT k = Some ()" using s(2) by (intro not_irq) (simp add: runs_def)
    have "mp_alloc_loop mp time self m k = Some (Waiting t, m, k')" using c s(1) ctx k'(1) by (simp add: mp_alloc_loop_def)
    moreover have "pool_ok mp sh U m k'" using w k'(2,3) by (auto simp: pool_ok_def)
    moreover have "t_error (threads k' t) = RT_EOK" using same_dataD(1) [OF k'(5), of t] by simp
    ultimately show ?thesis using waits c k'(4) by simp
  qed
qed

lemma free_pool_ok:
  assumes ok: "pool_ok mp sh U m k" and p: "p \<in> U"
  obtains m' k' where "rt_mp_free p m k = Some (m', k')" "pool_ok mp sh (U - {p}) m' k'" "mp_free (pools m' mp) \<noteq> 0"
    "lists k' (LIpc (mp_wait (pools m mp))) = tl (lists k (LIpc (mp_wait (pools m mp))))"
    "\<forall>t ts. lists k (LIpc (mp_wait (pools m mp))) = t # ts \<longrightarrow> alive t k' \<and> t_error (threads k' t) = RT_EOK"
proof -
  let ?l = "LIpc (mp_wait (pools m mp))"
  obtain fl us where w: "pool_wf mp fl us m" "U = (\<lambda>b. b + 4) ` us" "pool_shape (pools m mp) = sh" "kernel_ok k" "current k \<noteq> None"
    using ok by (rule pool_okD)
  obtain b where b: "b \<in> us" "p = b + 4" using w(2) p by auto
  have bd: "b + 4 < 4294967296" "links m b = mp" using pool_block_bounds(3) [of "pools m mp" b] w(1) b(1) by (auto simp: pool_wf_def)
  define m' where "m' = upd_pool mp (\<lambda>p. p\<lparr>mp_block_list := b\<rparr>) (set_link b (mp_block_list (pools m mp)) (upd_pool mp (\<lambda>p. p\<lparr>mp_free := add32 (mp_free p) 1\<rparr>) m))"
  note f = mp_free_wf [OF w(1) b(1), folded m'_def]
  have wt: "mp_wait (pools m' mp) = mp_wait (pools m mp)" using f(2) by (simp add: pool_shape_def)
  have pb: "sub32 p 4 = b" "p \<noteq> RT_NULL" using b(2) bd(1) by simp_all
  have bl: "mp_block_list (pools (upd_pool mp (\<lambda>p. p\<lparr>mp_free := add32 (mp_free p) 1\<rparr>) m) mp) = mp_block_list (pools m mp)" by simp
  have e: "rt_mp_free p m k = (case lists k ?l of
      thread # ts \<Rightarrow> rt_schedule (snd (rt_thread_resume thread (upd_thread thread (\<lambda>th. th\<lparr>t_error := RT_EOK\<rparr>) k))) \<bind> (\<lambda>k. Some (m', k))
    | [] \<Rightarrow> Some (m', k))"
    unfolding rt_mp_free_def Let_def pb(1) bd(2) bl m'_def [symmetric] wt using pb(2) by simp
  have U: "U - {p} = (\<lambda>b. b + 4) ` (us - {b})" using w(2) b(2) by auto
  have pk: "pool_ok mp sh (U - {p}) m' k'" if "kernel_ok k'" "current k' \<noteq> None" for k'
    unfolding pool_ok_def U using f w(3) that by (intro conjI exI [of _ "b # fl"] exI [of _ "us - {b}"]) simp_all
  have nz: "mp_free (pools m' mp) \<noteq> 0" using f(1) by (simp add: pool_wf_def)
  show ?thesis
  proof (cases "lists k ?l")
    case Nil
    show ?thesis by (rule that [of m' k]) (use Nil e pk w(4,5) nz in simp_all)
  next
    case (Cons t ts)
    obtain k' where k': "rt_schedule (snd (rt_thread_resume t (upd_thread t (\<lambda>th. th\<lparr>t_error := RT_EOK\<rparr>) k))) = Some k'" "kernel_ok k'"
      "current k' \<noteq> None" "lists k' ?l = ts" "alive t k'" "t_error (threads k' t) = RT_EOK" using w(4,5) Cons by (rule mp_wake_kernel)
    show ?thesis by (rule that [of m' k']) (use Cons e k' pk nz in simp_all)
  qed
qed

section \<open>Pools in the heap\<close>

lemma create_size:
  assumes "(unat bs0 + 11) * unat cnt \<le> 4294967288" "0 < cnt"
  shows "unat ((RT_ALIGN bs0 8 + 4) * cnt) = (unat (RT_ALIGN bs0 8) + 4) * unat cnt" "unat bs0 \<le> unat (RT_ALIGN bs0 8)"
    "unat (RT_ALIGN bs0 8) + 4 \<le> unat bs0 + 11" "(unat (RT_ALIGN bs0 8) + 4) * unat cnt \<le> 4294967288"
proof -
  have c: "1 \<le> unat cnt" using assms(2) by (simp add: word_less_nat_alt)
  have "unat bs0 + 11 \<le> (unat bs0 + 11) * unat cnt" using mult_le_mono2 [OF c, of "unat bs0 + 11"] by simp
  then have b: "unat bs0 + 11 \<le> 4294967288" using assms(1) by linarith
  show 1: "unat bs0 \<le> unat (RT_ALIGN bs0 8)" "unat (RT_ALIGN bs0 8) + 4 \<le> unat bs0 + 11" using b by (simp_all add: align8)
  have 4: "unat (RT_ALIGN bs0 8 + 4) = unat (RT_ALIGN bs0 8) + 4" using 1 b by (simp add: unat_word_ariths(1))
  show le: "(unat (RT_ALIGN bs0 8) + 4) * unat cnt \<le> 4294967288" by (rule le_trans [OF mult_le_mono1 [OF 1(2)] assms(1)])
  show "unat ((RT_ALIGN bs0 8 + 4) * cnt) = (unat (RT_ALIGN bs0 8) + 4) * unat cnt" using unat_mult_small [of "RT_ALIGN bs0 8 + 4" cnt] 4 le by simp
qed

lemma mp_create_wf:
  assumes inv: "heap_inv L h" and irq: "irq_nest k = 0" and n: "(unat bs0 + 11) * unat cnt \<le> 4294967288" and nn: "mp \<noteq> RT_NULL"
    and r: "rt_mp_create mp cnt bs0 i k h m0 = Some (mp, h', m)"
  obtains fl where "pool_wf mp fl {} m" "L (mp_start (pools m mp)) = None"
    "heap_inv (L(mp_start (pools m mp) \<mapsto> mp_total (pools m mp) * (mp_block_size (pools m mp) + 4))) h'"
    "mp_total (pools m mp) = unat cnt" "unat bs0 \<le> mp_block_size (pools m mp)" "mp_wait (pools m mp) = i"
proof -
  have a: "0 < cnt" "0 < bs0" using r by (auto simp: rt_mp_create_def RT_ASSERT_def not_irq [OF irq] split: if_splits)
  let ?bs = "unat (RT_ALIGN bs0 8)" and ?s = "(RT_ALIGN bs0 8 + 4) * cnt"
  note z = create_size [OF n a(1)]
  have s: "unat ?s \<le> 4294967288" using z(1,4) by simp
  obtain st h1 where al: "rt_malloc ?s k h = Some (st, h1)" "if st = RT_NULL then h1 = h else L st = None \<and> heap_inv (L(st \<mapsto> unat ?s)) h1"
    using heap.alloc [OF inv irq s] by blast
  let ?m1 = "\<lambda>q. upd_pool mp (\<lambda>p. p\<lparr>mp_start := st\<rparr>) (upd_pool mp (\<lambda>p. p\<lparr>mp_block_size := ?bs, mp_size := unat ?s\<rparr>) m0)"
  let ?m2 = "upd_pool mp (\<lambda>p. p\<lparr>mp_total := unat cnt, mp_free := unat cnt, mp_wait := i\<rparr>) (?m1 0)"
  let ?p = "pools ?m2 mp"
  have st: "st \<noteq> RT_NULL" "h1 = h'" "m = upd_pool mp (\<lambda>p. p\<lparr>mp_block_list := st\<rparr>) (mp_link_blocks st ?bs (unat cnt) ?m2)"
    using r a nn al(1) by (auto simp: rt_mp_create_def Let_def not_irq [OF irq] split: if_splits)
  have hi: "heap_inv (L(st \<mapsto> unat ?s)) h'" "L st = None" using al(2) st(1,2) by simp_all
  have "0 < st \<and> st + unat ?s \<le> 4294967296" using heap.addressable [OF hi(1)] by simp
  moreover have "0 < unat bs0" using a(2) by (simp add: word_less_nat_alt)
  ultimately have g: "pool_geometry ?p" using z(1,2) by (simp add: pool_geometry_def block_at_def mult.commute)
  have c: "0 < mp_total ?p" using a(1) by (simp add: word_less_nat_alt)
  have ml: "m = upd_pool mp (\<lambda>p. p\<lparr>mp_block_list := mp_start p\<rparr>) (mp_link_blocks (mp_start ?p) (mp_block_size ?p) (mp_total ?p) ?m2)"
    using mp_link_blocks_chain(2) [OF g c, of ?m2] unfolding st(3) by (simp add: upd_pool_def)
  have "pool_wf mp (map (block_at ?p) [0..<mp_total ?p]) {} m" unfolding ml by (rule fresh_pool_wf [OF g c]) (use nn in simp_all)
  moreover have "pools m mp = ?p\<lparr>mp_block_list := st\<rparr>" using mp_link_blocks_chain(2) [OF g c, of ?m2] unfolding ml by simp
  ultimately show ?thesis using that hi z(1,2) by (simp add: mult.commute)
qed

section \<open>Histories\<close>

text \<open>A pool is made once, statically or in the heap. Then threads and interrupts allocate and return blocks, and the rest of the
  system does what keeps the kernel consistent. The set holds the pointers that are handed out.\<close>

definition handed_out :: "nat ipc_result \<Rightarrow> nat set \<Rightarrow> nat set" where
  "handed_out r U = (case r of Done p \<Rightarrow> if p = RT_NULL then U else insert p U | Waiting t \<Rightarrow> U)"

inductive pool_run :: "nat \<Rightarrow> nat \<times> nat \<times> nat \<times> nat \<Rightarrow> pool_mem \<Rightarrow> kernel \<Rightarrow> nat set \<Rightarrow> bool" for mp where
  init: "rt_mp_init mp start size0 bs0 i m0 = Some (e, m) \<Longrightarrow> start + unat size0 \<le> 4294967296 \<Longrightarrow> unat bs0 \<le> 4294967280 \<Longrightarrow>
    unat bs0 + 18 \<le> unat size0 \<Longrightarrow> kernel_ok k \<Longrightarrow> current k \<noteq> None \<Longrightarrow> pool_run mp (pool_shape (pools m mp)) m k {}"
| create: "heap_run h L \<Longrightarrow> irq_nest k = 0 \<Longrightarrow> (unat bs0 + 11) * unat cnt \<le> 4294967288 \<Longrightarrow> mp \<noteq> RT_NULL \<Longrightarrow>
    rt_mp_create mp cnt bs0 i k h m0 = Some (mp, h', m) \<Longrightarrow> kernel_ok k \<Longrightarrow> current k \<noteq> None \<Longrightarrow> pool_run mp (pool_shape (pools m mp)) m k {}"
| alloc: "pool_run mp sh m k U \<Longrightarrow> sint time < 0x7fffffff \<Longrightarrow> time \<noteq> 0 \<longrightarrow> runs t k \<Longrightarrow> rt_mp_alloc mp time m k = Some (r, m', k') \<Longrightarrow>
    pool_run mp sh m' k' (handed_out r U)"
| resume: "pool_run mp sh m k U \<Longrightarrow> sint time < 0x7fffffff \<Longrightarrow> uint (rt_tick k - before) < 0x80000000 \<Longrightarrow> runs t k \<Longrightarrow>
    rt_mp_alloc_resume mp time before t m k = Some (r, m', k') \<Longrightarrow> pool_run mp sh m' k' (handed_out r U)"
| free: "pool_run mp sh m k U \<Longrightarrow> p \<in> U \<Longrightarrow> rt_mp_free p m k = Some (m', k') \<Longrightarrow> pool_run mp sh m' k' (U - {p})"
| rest: "pool_run mp sh m k U \<Longrightarrow> kernel_ok k' \<Longrightarrow> current k' \<noteq> None \<Longrightarrow> pool_run mp sh m k' U"

lemma alloc_loop_handed:
  assumes "pool_ok mp sh U m k" "sint time < 0x7fffffff" "time \<noteq> 0 \<longrightarrow> self = Some t \<and> runs t k"
    "mp_alloc_loop mp time self m k = Some (r, m', k')"
  shows "pool_ok mp sh (handed_out r U) m' k'"
  using assms(1-3) by (cases rule: alloc_loop_ok) (use assms(4) in \<open>auto simp: handed_out_def\<close>)

lemma runs_self: "runs t k \<Longrightarrow> rt_thread_self k = Some t"
  by (simp add: runs_def rt_thread_self_def)

lemma pool_run_ok: "pool_run mp sh m k U \<Longrightarrow> pool_ok mp sh U m k"
proof (induction rule: pool_run.induct)
  case (init start size0 bs0 i m0 e m k)
  from mp_init_wf [OF init(1-4)] obtain fl where "pool_wf mp fl {} m" by blast
  with init(5,6) show ?case by (auto simp: pool_ok_def)
next
  case (create h L k bs0 cnt i m0 h' m)
  from mp_create_wf [OF heap_run_inv [OF create(1)] create(2-5)] obtain fl where "pool_wf mp fl {} m" by blast
  with create(6,7) show ?case by (auto simp: pool_ok_def)
next
  case (alloc sh m k U time t r m' k')
  have "mp_alloc_loop mp time (rt_thread_self k) m k = Some (r, m', k')"
    using alloc.hyps(4) by (auto simp: rt_mp_alloc_def RT_ASSERT_def split: if_splits)
  with alloc.IH alloc.hyps(2,3) runs_self show ?case by (intro alloc_loop_handed) auto
next
  case (resume sh m k U time before t r m' k')
  show ?case
  proof (cases "t_error (threads k t) \<noteq> RT_EOK")
    case True
    with resume.hyps(5) resume.IH show ?thesis by (auto simp: rt_mp_alloc_resume_def handed_out_def)
  next
    case False
    then have "mp_alloc_loop mp (remaining_timeout time before k) (Some t) m k = Some (r, m', k')" using resume.hyps(5) by (simp add: rt_mp_alloc_resume_def)
    then show ?thesis using resume.IH remaining_le [OF resume.hyps(2,3)] resume.hyps(4) by (intro alloc_loop_handed) auto
  qed
next
  case (free sh m k U p m' k')
  from free_pool_ok [OF free.IH free.hyps(2)] free.hyps(3) show ?case by (metis option.inject prod.inject)
qed (simp add: pool_ok_def)

section \<open>Properties\<close>

text \<open>After every history of a pool the blocks handed out lie inside its memory, each with the full block size, disjoint and with room
  for the link word in front; the counter of free blocks is exact.\<close>

lemma pool_safe:
  assumes "pool_run mp (start, bs, cnt, i) m k U"
  shows "(\<forall>p \<in> U. start + 4 \<le> p \<and> p + bs \<le> start + cnt * (bs + 4)) \<and> (\<forall>p \<in> U. \<forall>q \<in> U. p \<noteq> q \<longrightarrow> p + bs + 4 \<le> q \<or> q + bs + 4 \<le> p)
    \<and> card U + mp_free (pools m mp) = cnt"
proof -
  obtain fl us where w: "pool_wf mp fl us m" "U = (\<lambda>b. b + 4) ` us" "pool_shape (pools m mp) = (start, bs, cnt, i)"
    using pool_run_ok [OF assms] by (rule pool_okD)
  have sh: "mp_start (pools m mp) = start" "mp_block_size (pools m mp) = bs" "mp_total (pools m mp) = cnt" using w(3) by (simp_all add: pool_shape_def)
  have us: "us \<subseteq> pool_blocks (pools m mp)" and g: "pool_geometry (pools m mp)" using w(1) by (auto simp: pool_wf_def)
  have "start \<le> b \<and> b + (bs + 4) \<le> start + cnt * (bs + 4)" if "b \<in> us" for b
    using pool_block_bounds(1,2) [OF g] us that by (auto simp: sh block_at_def)
  moreover have "b + (bs + 4) \<le> c \<or> c + (bs + 4) \<le> b" if "b \<in> us" "c \<in> us" "b \<noteq> c" for b c
    using pool_block_disjoint [of b "pools m mp" c] us that by (auto simp: sh)
  moreover have "card U = card us" unfolding w(2) by (rule card_image) (simp add: inj_on_def)
  ultimately show ?thesis using pool_wf_count [OF w(1)] unfolding w(2) sh by fastforce
qed

text \<open>An allocation that does not wait succeeds exactly when not all blocks are handed out, and then returns a block that
  nobody has.\<close>

lemma pool_alloc_exact:
  assumes "pool_run mp (start, bs, cnt, i) m k U"
  shows "\<exists>p m' k'. rt_mp_alloc mp 0 m k = Some (Done p, m', k') \<and> (p \<noteq> RT_NULL \<longleftrightarrow> card U < cnt) \<and> p \<notin> U"
proof -
  note ok = pool_run_ok [OF assms]
  obtain fl us where w: "pool_wf mp fl us m" "U = (\<lambda>b. b + 4) ` us" "pool_shape (pools m mp) = (start, bs, cnt, i)"
    using ok by (rule pool_okD)
  have "card U = card us" unfolding w(2) by (rule card_image) (simp add: inj_on_def)
  then have n: "card U + mp_free (pools m mp) = cnt" using pool_wf_count [OF w(1)] w(3) by (simp add: pool_shape_def)
  have mp: "mp \<noteq> RT_NULL" using w(1) by (simp add: pool_wf_def)
  have z: "sint (0 :: u32) < 0x7fffffff" "(0 :: u32) \<noteq> 0 \<longrightarrow> rt_thread_self k = Some t \<and> runs t k" for t by simp_all
  from ok z show ?thesis
  proof (cases rule: alloc_loop_ok [where self = "rt_thread_self k"])
    case (got p m')
    then show ?thesis using n mp by (intro exI [of _ p] exI [of _ m'] exI [of _ k]) (auto simp: rt_mp_alloc_def)
  next
    case (none m' k')
    have "RT_NULL \<notin> U" using w(2) by auto
    then show ?thesis using none n mp by (intro exI [of _ 0] exI [of _ m'] exI [of _ k']) (auto simp: rt_mp_alloc_def)
  qed simp
qed


text \<open>Waiting for a pool is last-in first-out: a thread that finds no free block is put in front of those that wait already, so
  the next block that is returned wakes it, and all earlier threads keep waiting.\<close>

lemma pool_wakes_newest:
  assumes "pool_run mp (start, bs, cnt, i) m k U" "card U = cnt" "runs t k" "time \<noteq> 0" "sint time < 0x7fffffff" "p \<in> U"
  shows "\<exists>k' m'' k''. rt_mp_alloc mp time m k = Some (Waiting t, m, k') \<and> lists k' (LIpc i) = t # lists k (LIpc i)
    \<and> rt_mp_free p m k' = Some (m'', k'') \<and> alive t k'' \<and> t_error (threads k'' t) = RT_EOK \<and> lists k'' (LIpc i) = lists k (LIpc i)"
proof -
  note ok = pool_run_ok [OF assms(1)]
  obtain fl us where w: "pool_wf mp fl us m" "U = (\<lambda>b. b + 4) ` us" "pool_shape (pools m mp) = (start, bs, cnt, i)" using ok by (rule pool_okD)
  have i: "mp_wait (pools m mp) = i" "mp \<noteq> RT_NULL" using w(1,3) by (simp_all add: pool_shape_def pool_wf_def)
  have "card U = card us" unfolding w(2) by (rule card_image) (simp add: inj_on_def)
  then have f: "mp_free (pools m mp) = 0" using pool_wf_count [OF w(1)] w(3) assms(2) by (simp add: pool_shape_def)
  have r: "time \<noteq> 0 \<longrightarrow> rt_thread_self k = Some t \<and> runs t k" using assms(3) runs_self by simp
  from ok assms(5) r show ?thesis
  proof (cases rule: alloc_loop_ok)
    case (waits k')
    obtain m'' k'' where "rt_mp_free p m k' = Some (m'', k'')"
      "lists k'' (LIpc (mp_wait (pools m mp))) = tl (lists k' (LIpc (mp_wait (pools m mp))))"
      "\<forall>t ts. lists k' (LIpc (mp_wait (pools m mp))) = t # ts \<longrightarrow> alive t k'' \<and> t_error (threads k'' t) = RT_EOK"
      using waits(4) assms(6) by (rule free_pool_ok)
    then show ?thesis using waits(1,5) i by (intro exI [of _ k'] exI [of _ m''] exI [of _ k'']) (simp add: rt_mp_alloc_def)
  qed (use f assms(4) in simp_all)
qed

text \<open>\<^verbatim>\<open>rt_mp_init\<close> does not check that the memory holds a block. When it does not, the pool has no block, and the end-of-list mark is
  written one block in front of the memory.\<close>

lemma mp_init_underflow:
  assumes "mp \<noteq> RT_NULL" "start < 4294967296" "0 < size0" "0 < bs0" "unat bs0 \<le> 4294967280"
    and "unat size0 < unat bs0 + 4" "unat (RT_ALIGN bs0 8) + 4 < start"
  shows "\<exists>m'. rt_mp_init mp start size0 bs0 i m = Some (RT_EOK, m') \<and> mp_total (pools m' mp) = 0
    \<and> links m' = (links m)(start - (unat (RT_ALIGN bs0 8) + 4) := RT_NULL)"
proof -
  define bs where "bs = unat (RT_ALIGN bs0 8)"
  have b: "unat bs0 \<le> bs" "add32 bs 4 = bs + 4" "bs + 4 < start" using assms(5,7) by (simp_all add: bs_def align8)
  have "unat (RT_ALIGN_DOWN size0 8) \<le> unat size0" by (simp add: align_down8')
  then have z: "unat (RT_ALIGN_DOWN size0 8) div (bs + 4) = 0" using b(1) assms(6) by simp
  have "(4294967295 :: nat) * (bs + 4) = (4294967296 - (bs + 4)) + (bs + 3) * 4294967296" using b(3) assms(2) by simp
  then have "mul32 4294967295 (bs + 4) = (4294967296 - (bs + 4)) mod 4294967296" unfolding mul32_def by (metis mod_mult_self1)
  then have "mul32 4294967295 (bs + 4) = 4294967296 - (bs + 4)" by simp
  moreover have "start + (4294967296 - (bs + 4)) = (start - (bs + 4)) + 4294967296" using b(3) assms(2) by simp
  ultimately have "add32 start (mul32 4294967295 (bs + 4)) = (start - (bs + 4) + 4294967296) mod 4294967296" by (simp only: add32_def)
  then have "add32 start (mul32 4294967295 (bs + 4)) = start - (bs + 4)" using assms(2) by simp
  moreover have "sub32 0 1 = 4294967295" by (simp add: sub32_def)
  ultimately show ?thesis
    using assms(1,3,4,7) z b unfolding bs_def [symmetric]
    by (simp add: rt_mp_init_def Let_def bs_def [symmetric] mp_link_blocks_def) (simp add: set_link_def upd_pool_def)
qed

section \<open>Witnesses\<close>

text \<open>One block of 16 bytes in 34 bytes of memory, and the kernel with two threads.\<close>

definition no_pools :: pool_mem where
  "no_pools = \<lparr>pools = (\<lambda>a. \<lparr>mp_start = 0, mp_size = 0, mp_block_size = 0, mp_block_list = 0, mp_total = 0, mp_free = 0, mp_wait = 0\<rparr>),
     links = (\<lambda>a. 0), rt_errno = 0\<rparr>"

abbreviation k2t :: kernel where "k2t \<equiv> two_threads 10 12 3"

lemma k2t_ok: "kernel_ok k2t" "current k2t \<noteq> None" "runs 0 k2t"
proof -
  show "kernel_ok k2t" by (rule two_threads_kernel) (simp_all add: two_threads_def Let_def stat_of_def)
  show "current k2t \<noteq> None" "runs 0 k2t" by (simp_all add: two_threads_def Let_def stat_of_def runs_def)
qed

lemma sample_pool:
  obtains m where "rt_mp_init 64 4096 34 16 7 no_pools = Some (0, m)" "pool_shape (pools m 64) = (4096, 16, 1, 7)"
    "pool_run 64 (4096, 16, 1, 7) m k2t {}"
proof -
  have w: "unat (RT_ALIGN_DOWN (34 :: u32) 8) = 32" "unat (RT_ALIGN (16 :: u32) 8) = 16"
    by (simp add: align_down8', subst align8, simp_all)
  have "\<exists>m. rt_mp_init 64 4096 34 16 7 no_pools = Some (0, m) \<and> pool_shape (pools m 64) = (4096, 16, 1, 7)"
    by (simp add: rt_mp_init_def Let_def w mp_link_blocks_def pool_shape_def)
  then obtain m where m: "rt_mp_init 64 4096 34 16 7 no_pools = Some (0, m)" "pool_shape (pools m 64) = (4096, 16, 1, 7)" by blast
  have "pool_run 64 (pool_shape (pools m 64)) m k2t {}" by (rule pool_run.init [OF m(1)]) (use k2t_ok in simp_all)
  with m that show ?thesis by simp
qed

lemma sample_pool_used: obtains m p where "pool_run 64 (4096, 16, 1, 7) m k2t {p}" "p \<noteq> RT_NULL"
proof -
  obtain m where m: "pool_run 64 (4096, 16, 1, 7) m k2t {}" using sample_pool by blast
  have z: "sint (0 :: u32) < 0x7fffffff" "(0 :: u32) \<noteq> 0 \<longrightarrow> rt_thread_self k2t = Some 0 \<and> runs 0 k2t" by simp_all
  obtain fl us where w: "pool_wf 64 fl us m" "{} = (\<lambda>b. b + 4) ` us" "pool_shape (pools m 64) = (4096, 16, 1, 7)"
    using pool_run_ok [OF m] by (rule pool_okD)
  have f: "mp_free (pools m 64) = 1" using pool_wf_count [OF w(1)] w(2,3) by (simp add: pool_shape_def)
  from pool_run_ok [OF m] z show ?thesis
  proof (cases rule: alloc_loop_ok)
    case (got p m')
    then have "rt_mp_alloc 64 0 m k2t = Some (Done p, m', k2t)" by (simp add: rt_mp_alloc_def)
    from pool_run.alloc [OF m z(1) _ this] got(3) that show ?thesis by (simp add: handed_out_def)
  qed (use f in simp_all)
qed

text \<open>A pool of one block of 16 bytes in the sample heap.\<close>

lemma sample_pool_heap:
  obtains h L h' m where "heap_run h L" "rt_mp_create 64 1 16 7 k2t h no_pools = Some (64, h', m)" "pool_run 64 (pool_shape (pools m 64)) m k2t {}"
proof -
  have irq: "irq_nest k2t = 0" by (simp add: two_threads_def Let_def)
  obtain h where h: "heap_run h Map.empty" "mem_size_aligned h = 64" "heap_wf [(80, False)] h" using sample_init [OF irq] by blast
  have al: "unat (RT_ALIGN (16 :: u32) 8) = 16" by (subst align8) simp_all
  then have a16: "RT_ALIGN (16 :: u32) 8 = 16" by (intro word_unat_eq_iff [THEN iffD2]) simp
  have "unat (RT_ALIGN (20 :: u32) 8) = 24" by (subst align8) simp_all
  then have bs: "block_size 20 = 24" "unat (RT_ALIGN (20 :: u32) 8) \<le> mem_size_aligned h" using h(2) by (simp_all add: block_size_def)
  have "\<exists>p h'. rt_malloc 20 k2t h = Some (p, h') \<and> p \<noteq> RT_NULL"
  proof (rule malloc_ok [OF h(3) irq _ bs(2)])
    fix as cs
    assume "[(80, False)] = as @ cs" "lfree h = heap_ptr h + seg_len as"
      "fit (mem_size_aligned h - block_size 20) (block_size 20) (seg_len as) cs = None"
    moreover have "lfree h = heap_ptr h" by (rule empty_heap(2) [OF heap_run_state [OF h(1)]])
    ultimately show ?thesis using bs(1) h(2) by (cases as) auto
  qed auto
  then obtain p h' where p: "rt_malloc 20 k2t h = Some (p, h')" "p \<noteq> RT_NULL" by blast
  then have "\<exists>m. rt_mp_create 64 1 16 7 k2t h no_pools = Some (64, h', m)"
    using a16 by (simp add: rt_mp_create_def Let_def not_irq [OF irq])
  then obtain m where m: "rt_mp_create 64 1 16 7 k2t h no_pools = Some (64, h', m)" by blast
  have "pool_run 64 (pool_shape (pools m 64)) m k2t {}" by (rule pool_run.create [OF h(1) irq _ _ m]) (use k2t_ok in simp_all)
  with h(1) m that show ?thesis by blast
qed


end
