(* ===== verification/Kservice_Mem.thy ===== *)
theory Kservice_Mem
  imports Prelude
begin

text \<open>
  The memory and string functions of RTT4/src/kservice.c on a memory of bytes. Addresses are natural numbers: a C object does
  not wrap around the end of the address space. The word loops of \<^verbatim>\<open>rt_memset\<close> and \<^verbatim>\<open>rt_memcpy\<close> store and load four
  bytes, lowest address first. A string function that runs on past the end of a string without a terminator does not return
  (\<open>None\<close>).
\<close>

type_synonym memory = "nat \<Rightarrow> u8"

definition load32 :: "nat \<Rightarrow> memory \<Rightarrow> u32" where
  "load32 a m = of_le32 (m a) (m (a + 1)) (m (a + 2)) (m (a + 3))"

definition store32 :: "nat \<Rightarrow> u32 \<Rightarrow> memory \<Rightarrow> memory" where
  "store32 a w m = m(a := ucast w, a + 1 := ucast (drop_bit 8 w), a + 2 := ucast (drop_bit 16 w), a + 3 := ucast (drop_bit 24 w))"

section \<open>Memory\<close>

text \<open>The word that \<^verbatim>\<open>rt_memset\<close> stores: its four bytes are the low byte of the argument.\<close>

definition memset_word :: "u32 \<Rightarrow> u32" where
  "memset_word c = (let d = c AND 0xff; b = push_bit 8 d OR d in b OR push_bit 16 b)"

text \<open>\<^verbatim>\<open>rt_memset\<close>: the loop over four words, the loop over words, the loop over bytes.\<close>

fun memset_bytes :: "u8 \<Rightarrow> nat \<Rightarrow> nat \<Rightarrow> memory \<Rightarrow> memory" where
  "memset_bytes d 0 a m = m"
| "memset_bytes d (Suc cnt) a m = memset_bytes d cnt (a + 1) (m(a := d))"

fun memset_words :: "u32 \<Rightarrow> nat \<Rightarrow> nat \<Rightarrow> memory \<Rightarrow> nat \<times> nat \<times> memory" where
  "memset_words w cnt a m =
     (if 4 \<le> cnt then memset_words w (cnt - 4) (a + 4) (store32 a w m) else (cnt, a, m))"

fun memset_blocks :: "u32 \<Rightarrow> nat \<Rightarrow> nat \<Rightarrow> memory \<Rightarrow> nat \<times> nat \<times> memory" where
  "memset_blocks w cnt a m =
     (if 16 \<le> cnt then
        memset_blocks w (cnt - 16) (a + 16) (store32 (a + 12) w (store32 (a + 8) w (store32 (a + 4) w (store32 a w m))))
      else (cnt, a, m))"

definition rt_memset :: "nat \<Rightarrow> u32 \<Rightarrow> nat \<Rightarrow> memory \<Rightarrow> memory" where
  "rt_memset s c cnt m =
     (let (cnt, a, m) =
            (if 4 \<le> cnt \<and> s mod 4 = 0 then
               let buffer = memset_word c;
                   (cnt, a, m) = memset_blocks buffer cnt s m
               in memset_words buffer cnt a m
             else (cnt, s, m))
      in memset_bytes (ucast (c AND 0xff)) cnt a m)"

text \<open>\<^verbatim>\<open>rt_memcpy\<close>\<close>

fun memcpy_bytes :: "nat \<Rightarrow> nat \<Rightarrow> nat \<Rightarrow> memory \<Rightarrow> memory" where
  "memcpy_bytes 0 d s m = m"
| "memcpy_bytes (Suc len) d s m = memcpy_bytes len (d + 1) (s + 1) (m(d := m s))"

definition move32 :: "nat \<Rightarrow> nat \<Rightarrow> memory \<Rightarrow> memory" where
  "move32 d s m = store32 d (load32 s m) m"

fun memcpy_words :: "nat \<Rightarrow> nat \<Rightarrow> nat \<Rightarrow> memory \<Rightarrow> nat \<times> nat \<times> nat \<times> memory" where
  "memcpy_words len d s m =
     (if 4 \<le> len then memcpy_words (len - 4) (d + 4) (s + 4) (move32 d s m) else (len, d, s, m))"

fun memcpy_blocks :: "nat \<Rightarrow> nat \<Rightarrow> nat \<Rightarrow> memory \<Rightarrow> nat \<times> nat \<times> nat \<times> memory" where
  "memcpy_blocks len d s m =
     (if 16 \<le> len then
        memcpy_blocks (len - 16) (d + 16) (s + 16)
          (move32 (d + 12) (s + 12) (move32 (d + 8) (s + 8) (move32 (d + 4) (s + 4) (move32 d s m))))
      else (len, d, s, m))"

definition rt_memcpy :: "nat \<Rightarrow> nat \<Rightarrow> nat \<Rightarrow> memory \<Rightarrow> memory" where
  "rt_memcpy dst src cnt m =
     (let (len, d, s, m) =
            (if 16 \<le> cnt \<and> src mod 4 = 0 \<and> dst mod 4 = 0 then
               let (len, d, s, m) = memcpy_blocks cnt dst src m in memcpy_words len d s m
             else (cnt, dst, src, m))
      in memcpy_bytes len d s m)"

text \<open>\<^verbatim>\<open>rt_memmove\<close> and \<^verbatim>\<open>rt_memcmp\<close>\<close>

fun memmove_down :: "nat \<Rightarrow> nat \<Rightarrow> nat \<Rightarrow> memory \<Rightarrow> memory" where
  "memmove_down 0 tmp s m = m"
| "memmove_down (Suc n) tmp s m = memmove_down n (tmp - 1) (s - 1) (m(tmp - 1 := m (s - 1)))"

definition rt_memmove :: "nat \<Rightarrow> nat \<Rightarrow> nat \<Rightarrow> memory \<Rightarrow> memory" where
  "rt_memmove dest src n m =
     (if src < dest \<and> dest < src + n then memmove_down n (dest + n) (src + n) m else memcpy_bytes n dest src m)"

fun rt_memcmp :: "nat \<Rightarrow> nat \<Rightarrow> nat \<Rightarrow> memory \<Rightarrow> int" where
  "rt_memcmp cs ct 0 m = 0"
| "rt_memcmp cs ct (Suc cnt) m =
     (let res = uint (m cs) - uint (m ct) in if res \<noteq> 0 then res else rt_memcmp (cs + 1) (ct + 1) cnt m)"

section \<open>Strings\<close>

partial_function (option) strlen_loop :: "nat \<Rightarrow> memory \<Rightarrow> nat \<Rightarrow> nat option" where
  "strlen_loop s m sc = (if m sc \<noteq> 0 then strlen_loop s m (sc + 1) else Some (sc - s))"

definition rt_strlen :: "nat \<Rightarrow> memory \<Rightarrow> nat option" where
  "rt_strlen s m = strlen_loop s m s"

text \<open>\<^verbatim>\<open>rt_strnlen\<close> reads the character before it compares the number of characters with the maximum; the second result is the
  highest address read.\<close>

function strnlen_loop :: "nat \<Rightarrow> nat \<Rightarrow> memory \<Rightarrow> nat \<Rightarrow> nat \<times> nat" where
  "strnlen_loop s maxlen m sc = (if m sc \<noteq> 0 \<and> sc - s < maxlen then strnlen_loop s maxlen m (sc + 1) else (sc - s, sc))"
  by pat_completeness auto
termination by (relation "measure (\<lambda>(s, n, m, sc). s + n - sc)") auto

definition rt_strnlen :: "nat \<Rightarrow> nat \<Rightarrow> memory \<Rightarrow> nat \<times> nat" where
  "rt_strnlen s maxlen m = strnlen_loop s maxlen m s"

text \<open>\<^verbatim>\<open>rt_strstr\<close>; the loop runs \<open>l1 - l2 + 1\<close> times.\<close>

fun strstr_loop :: "nat \<Rightarrow> nat \<Rightarrow> nat \<Rightarrow> nat \<Rightarrow> memory \<Rightarrow> nat option" where
  "strstr_loop 0 l2 s1 s2 m = None"
| "strstr_loop (Suc n) l2 s1 s2 m = (if rt_memcmp s1 s2 l2 m = 0 then Some s1 else strstr_loop n l2 (s1 + 1) s2 m)"

definition rt_strstr :: "nat \<Rightarrow> nat \<Rightarrow> memory \<Rightarrow> nat option option" where
  "rt_strstr s1 s2 m = do {
     l2 \<leftarrow> rt_strlen s2 m;
     if l2 = 0 then Some (Some s1)
     else do {
       l1 \<leftarrow> rt_strlen s1 m;
       Some (strstr_loop (l1 + 1 - l2) l2 s1 s2 m) } }"

definition to_lower :: "u8 \<Rightarrow> u8" where
  "to_lower c = (if 65 \<le> c \<and> c \<le> 90 then c + 32 else c)"

partial_function (option) rt_strcasecmp :: "nat \<Rightarrow> nat \<Rightarrow> memory \<Rightarrow> u32 option" where
  "rt_strcasecmp a b m =
     (if to_lower (m a) = to_lower (m b) \<and> to_lower (m a) \<noteq> 0 then rt_strcasecmp (a + 1) (b + 1) m
      else Some (ucast (to_lower (m a)) - ucast (to_lower (m b))))"

text \<open>\<^verbatim>\<open>rt_strncpy\<close>: after the terminator the rest of the field is filled with zeros.\<close>

fun strncpy_loop :: "nat \<Rightarrow> nat \<Rightarrow> nat \<Rightarrow> memory \<Rightarrow> memory" where
  "strncpy_loop d s 0 m = m"
| "strncpy_loop d s (Suc n) m =
     (let c = m s; m = m(d := c)
      in if c = 0 then memset_bytes 0 n (d + 1) m else strncpy_loop (d + 1) (s + 1) n m)"

definition rt_strncpy :: "nat \<Rightarrow> nat \<Rightarrow> nat \<Rightarrow> memory \<Rightarrow> memory" where
  "rt_strncpy dst src n m = strncpy_loop dst src n m"

text \<open>\<^verbatim>\<open>rt_strncmp\<close> keeps the difference of two (signed) characters in a signed char.\<close>

fun strncmp_loop :: "nat \<Rightarrow> nat \<Rightarrow> nat \<Rightarrow> memory \<Rightarrow> u8 \<Rightarrow> u8" where
  "strncmp_loop cs ct 0 m res = res"
| "strncmp_loop cs ct (Suc cnt) m res =
     (let res = m cs - m ct in if res \<noteq> 0 \<or> m cs = 0 then res else strncmp_loop (cs + 1) (ct + 1) cnt m res)"

definition rt_strncmp :: "nat \<Rightarrow> nat \<Rightarrow> nat \<Rightarrow> memory \<Rightarrow> int" where
  "rt_strncmp cs ct cnt m = sint (strncmp_loop cs ct cnt m 0)"

partial_function (option) rt_strcmp :: "nat \<Rightarrow> nat \<Rightarrow> memory \<Rightarrow> int option" where
  "rt_strcmp cs ct m =
     (if m cs \<noteq> 0 \<and> m cs = m ct then rt_strcmp (cs + 1) (ct + 1) m else Some (sint (m cs) - sint (m ct)))"

declare memset_words.simps [simp del] memset_blocks.simps [simp del] memcpy_words.simps [simp del]
  memcpy_blocks.simps [simp del] strnlen_loop.simps [simp del]

section \<open>Reference definitions\<close>

definition filled :: "nat \<Rightarrow> nat \<Rightarrow> u8 \<Rightarrow> memory \<Rightarrow> memory" where
  "filled a n d m = (\<lambda>x. if a \<le> x \<and> x < a + n then d else m x)"

definition copied :: "nat \<Rightarrow> nat \<Rightarrow> nat \<Rightarrow> memory \<Rightarrow> memory" where
  "copied d s n m = (\<lambda>x. if d \<le> x \<and> x < d + n then m (s + (x - d)) else m x)"

lemma filled_append: "b = a + k \<Longrightarrow> filled b n d (filled a k d m) = filled a (k + n) d m"
  by (auto simp: filled_def fun_eq_iff)

lemma filled_0 [simp]: "filled a 0 d m = m"
  by (rule ext) (auto simp: filled_def)

lemma memset_bytes_eq: "memset_bytes d n a m = filled a n d m"
proof (induction n arbitrary: a m)
  case (Suc n)
  then show ?case by (auto simp: filled_def fun_eq_iff)
qed simp

section \<open>Filling\<close>

lemma low_byte: "c AND 0xff = take_bit 8 c" for c :: u32
  by (simp add: take_bit_eq_mask mask_eq_exp_minus_1)

lemma word_bits: "bit (memset_word c) n \<longleftrightarrow> n < 32 \<and> bit c (n mod 8)"
proof -
  consider "n < 8" | "8 \<le> n" "n < 16" | "16 \<le> n" "n < 24" | "24 \<le> n" "n < 32" | "32 \<le> n" by linarith
  then show ?thesis
  proof cases
    case 1
    then show ?thesis unfolding memset_word_def low_byte Let_def by (auto simp: bit_simps)
  next
    case 2
    then have "n mod 8 = n - 8" by (simp add: mod_if)
    with 2 show ?thesis unfolding memset_word_def low_byte Let_def by (auto simp: bit_simps)
  next
    case 3
    then have "n mod 8 = n - 16" by (simp add: mod_if)
    with 3 show ?thesis unfolding memset_word_def low_byte Let_def by (auto simp: bit_simps)
  next
    case 4
    then have "n mod 8 = n - 24" by (simp add: mod_if)
    with 4 show ?thesis unfolding memset_word_def low_byte Let_def by (auto simp: bit_simps)
  next
    case 5
    then show ?thesis using impossible_bit [of n "memset_word c"] by auto
  qed
qed

lemma word_bytes:
  "ucast (memset_word c) = (ucast c :: u8)" "ucast (drop_bit 8 (memset_word c)) = (ucast c :: u8)"
  "ucast (drop_bit 16 (memset_word c)) = (ucast c :: u8)" "ucast (drop_bit 24 (memset_word c)) = (ucast c :: u8)"
proof -
  have m: "(8 + n) mod 8 = n mod 8" "(16 + n) mod 8 = n mod 8" "(24 + n) mod 8 = n mod 8" for n :: nat by presburger+
  show "ucast (memset_word c) = (ucast c :: u8)" "ucast (drop_bit 8 (memset_word c)) = (ucast c :: u8)"
    "ucast (drop_bit 16 (memset_word c)) = (ucast c :: u8)" "ucast (drop_bit 24 (memset_word c)) = (ucast c :: u8)"
    by (rule bit_word_eqI, simp add: bit_ucast_iff bit_drop_bit_eq word_bits m)+
qed

lemma store_word: "store32 a (memset_word c) m = filled a 4 (ucast c) m"
proof
  fix x
  consider "x < a" | "x = a" | "x = a + 1" | "x = a + 2" | "x = a + 3" | "a + 4 \<le> x" by linarith
  then show "store32 a (memset_word c) m x = filled a 4 (ucast c) m x"
    by cases (simp_all add: store32_def filled_def word_bytes)
qed

lemma memset_words_eq:
  "\<exists>k. k \<le> n \<and> memset_words (memset_word c) n a m = (n - k, a + k, filled a k (ucast c) m)"
proof (induction n arbitrary: a m rule: less_induct)
  case (less n)
  show ?case
  proof (cases "4 \<le> n")
    case False
    then show ?thesis by (subst memset_words.simps) (auto intro: exI [of _ 0])
  next
    case True
    with less [of "n - 4" "a + 4" "store32 a (memset_word c) m"] obtain k where
      k: "k \<le> n - 4" "memset_words (memset_word c) (n - 4) (a + 4) (store32 a (memset_word c) m)
        = (n - 4 - k, a + 4 + k, filled (a + 4) k (ucast c) (store32 a (memset_word c) m))" by auto
    have "memset_words (memset_word c) n a m = (n - (4 + k), a + (4 + k), filled a (4 + k) (ucast c) m)"
      using True k by (subst memset_words.simps) (simp add: store_word filled_append)
    with k(1) True show ?thesis by (intro exI [of _ "4 + k"]) simp
  qed
qed

lemma memset_blocks_eq:
  "\<exists>k. k \<le> n \<and> memset_blocks (memset_word c) n a m = (n - k, a + k, filled a k (ucast c) m)"
proof (induction n arbitrary: a m rule: less_induct)
  case (less n)
  show ?case
  proof (cases "16 \<le> n")
    case False
    then show ?thesis by (subst memset_blocks.simps) (auto intro: exI [of _ 0])
  next
    case True
    let ?w = "memset_word c"
    have s: "store32 (a + 12) ?w (store32 (a + 8) ?w (store32 (a + 4) ?w (store32 a ?w m))) = filled a 16 (ucast c) m"
      by (simp add: store_word filled_append)
    with True less [of "n - 16" "a + 16" "filled a 16 (ucast c) m"] obtain k where
      k: "k \<le> n - 16" "memset_blocks ?w (n - 16) (a + 16) (filled a 16 (ucast c) m)
        = (n - 16 - k, a + 16 + k, filled (a + 16) k (ucast c) (filled a 16 (ucast c) m))" by auto
    have "memset_blocks ?w n a m = (n - (16 + k), a + (16 + k), filled a (16 + k) (ucast c) m)"
      using True k s by (subst memset_blocks.simps) (simp add: filled_append)
    with k(1) True show ?thesis by (intro exI [of _ "16 + k"]) simp
  qed
qed

lemma memset_eq: "rt_memset a c n m = filled a n (ucast c) m"
proof -
  have u: "ucast (c AND 0xff) = (ucast c :: u8)"
    unfolding low_byte by (rule bit_word_eqI) (auto simp: bit_simps)
  show ?thesis
  proof (cases "4 \<le> n \<and> a mod 4 = 0")
    case False
    then show ?thesis by (auto simp: rt_memset_def Let_def memset_bytes_eq u)
  next
    case True
    obtain k where k: "k \<le> n" "memset_blocks (memset_word c) n a m = (n - k, a + k, filled a k (ucast c) m)" using memset_blocks_eq by blast
    obtain j where j: "j \<le> n - k" "memset_words (memset_word c) (n - k) (a + k) (filled a k (ucast c) m)
      = (n - k - j, a + k + j, filled (a + k) j (ucast c) (filled a k (ucast c) m))" using memset_words_eq by blast
    from True k j show ?thesis
      by (simp add: rt_memset_def Let_def memset_bytes_eq filled_append u)
  qed
qed

section \<open>Copying\<close>

text \<open>Copying forwards is right unless the destination starts inside the source.\<close>

definition no_clobber :: "nat \<Rightarrow> nat \<Rightarrow> nat \<Rightarrow> bool" where
  "no_clobber d s n \<longleftrightarrow> d \<le> s \<or> s + n \<le> d"

lemma copied_0 [simp]: "copied d s 0 m = m"
  by (rule ext) (auto simp: copied_def)

lemma copied_append:
  assumes "no_clobber d s (j + n)" "d' = d + j" "s' = s + j"
  shows "copied d' s' n (copied d s j m) = copied d s (j + n) m"
  using assms by (auto simp: copied_def no_clobber_def fun_eq_iff ac_simps)

lemma copied_1: "m(d := m s) = copied d s 1 m"
  by (auto simp: copied_def fun_eq_iff)

lemma no_clobber_step: "no_clobber d s (j + n) \<Longrightarrow> no_clobber (d + j) (s + j) n"
  by (auto simp: no_clobber_def)

lemma memcpy_bytes_eq: "no_clobber d s n \<Longrightarrow> memcpy_bytes n d s m = copied d s n m"
proof (induction n arbitrary: d s m)
  case (Suc n)
  then have "no_clobber d s (1 + n)" by simp
  with Suc.IH [OF no_clobber_step [OF this]] copied_append [OF this refl refl] show ?case by (simp add: copied_1)
qed simp

lemma move32_eq: "move32 d s m = copied d s 4 m"
proof
  fix x
  have b: "ucast (load32 s m) = m s" "ucast (drop_bit 8 (load32 s m)) = m (s + 1)" "ucast (drop_bit 16 (load32 s m)) = m (s + 2)"
    "ucast (drop_bit 24 (load32 s m)) = m (s + 3)"
    by (rule bit_word_eqI, auto simp: load32_def of_le32_def bit_simps dest: bit_imp_le_length)+
  consider "x < d" | "x = d" | "x = d + 1" | "x = d + 2" | "x = d + 3" | "d + 4 \<le> x" by linarith
  then show "move32 d s m x = copied d s 4 m x"
    by cases (simp_all add: move32_def store32_def copied_def b)
qed

lemma memcpy_words_eq:
  "no_clobber d s n \<Longrightarrow> \<exists>k. k \<le> n \<and> memcpy_words n d s m = (n - k, d + k, s + k, copied d s k m)"
proof (induction n arbitrary: d s m rule: less_induct)
  case (less n)
  show ?case
  proof (cases "4 \<le> n")
    case False
    then show ?thesis by (subst memcpy_words.simps) (auto intro: exI [of _ 0])
  next
    case True
    then have c: "no_clobber d s (4 + (n - 4))" using less.prems by simp
    with True less.IH [of "n - 4" "d + 4" "s + 4" "copied d s 4 m"] no_clobber_step [OF c] obtain k where
      k: "k \<le> n - 4" "memcpy_words (n - 4) (d + 4) (s + 4) (copied d s 4 m)
        = (n - 4 - k, d + 4 + k, s + 4 + k, copied (d + 4) (s + 4) k (copied d s 4 m))" by auto
    have "no_clobber d s (4 + k)" using c k(1) by (auto simp: no_clobber_def)
    from copied_append [OF this refl refl] True k
    have "memcpy_words n d s m = (n - (4 + k), d + (4 + k), s + (4 + k), copied d s (4 + k) m)"
      by (subst memcpy_words.simps) (simp add: move32_eq ac_simps)
    with k(1) True show ?thesis by (intro exI [of _ "4 + k"]) simp
  qed
qed

lemma move_block:
  assumes "no_clobber d s 16"
  shows "move32 (d + 12) (s + 12) (move32 (d + 8) (s + 8) (move32 (d + 4) (s + 4) (move32 d s m))) = copied d s 16 m"
proof -
  have c: "no_clobber d s (4 + 4)" "no_clobber d s (8 + 4)" "no_clobber d s (12 + 4)" using assms by (auto simp: no_clobber_def)
  from copied_append [OF c(1) refl refl] copied_append [OF c(2) refl refl] copied_append [OF c(3) refl refl] show ?thesis
    by (simp add: move32_eq)
qed

lemma memcpy_blocks_eq:
  "no_clobber d s n \<Longrightarrow> \<exists>k. k \<le> n \<and> memcpy_blocks n d s m = (n - k, d + k, s + k, copied d s k m)"
proof (induction n arbitrary: d s m rule: less_induct)
  case (less n)
  show ?case
  proof (cases "16 \<le> n")
    case False
    then show ?thesis by (subst memcpy_blocks.simps) (auto intro: exI [of _ 0])
  next
    case True
    then have c: "no_clobber d s (16 + (n - 16))" "no_clobber d s 16" using less.prems by (auto simp: no_clobber_def)
    with True less.IH [of "n - 16" "d + 16" "s + 16" "copied d s 16 m"] no_clobber_step [OF c(1)] obtain k where
      k: "k \<le> n - 16" "memcpy_blocks (n - 16) (d + 16) (s + 16) (copied d s 16 m)
        = (n - 16 - k, d + 16 + k, s + 16 + k, copied (d + 16) (s + 16) k (copied d s 16 m))" by auto
    have "no_clobber d s (16 + k)" using c k(1) by (auto simp: no_clobber_def)
    from copied_append [OF this refl refl] True k
    have "memcpy_blocks n d s m = (n - (16 + k), d + (16 + k), s + (16 + k), copied d s (16 + k) m)"
      by (subst memcpy_blocks.simps) (simp add: move_block [OF c(2)] ac_simps)
    with k(1) True show ?thesis by (intro exI [of _ "16 + k"]) simp
  qed
qed

lemma memcpy_eq:
  assumes c: "no_clobber d s n"
  shows "rt_memcpy d s n m = copied d s n m"
proof (cases "16 \<le> n \<and> s mod 4 = 0 \<and> d mod 4 = 0")
  case False
  then show ?thesis using memcpy_bytes_eq [OF c] by (auto simp: rt_memcpy_def)
next
  case True
  obtain k where k: "k \<le> n" "memcpy_blocks n d s m = (n - k, d + k, s + k, copied d s k m)" using memcpy_blocks_eq [OF c] by blast
  have c1: "no_clobber (d + k) (s + k) (n - k)" "no_clobber d s (k + (n - k))" using c k(1) by (auto simp: no_clobber_def)
  obtain j where j: "j \<le> n - k" "memcpy_words (n - k) (d + k) (s + k) (copied d s k m)
    = (n - k - j, d + k + j, s + k + j, copied (d + k) (s + k) j (copied d s k m))" using memcpy_words_eq [OF c1(1)] by blast
  have c2: "no_clobber d s (k + j)" "no_clobber d s (k + j + (n - k - j))" "no_clobber (d + k + j) (s + k + j) (n - k - j)"
    using c k(1) j(1) by (auto simp: no_clobber_def)
  have "copied (d + k) (s + k) j (copied d s k m) = copied d s (k + j) m" by (rule copied_append [OF c2(1) refl refl])
  then have "rt_memcpy d s n m = copied (d + k + j) (s + k + j) (n - k - j) (copied d s (k + j) m)"
    using True k j memcpy_bytes_eq [OF c2(3)] by (simp add: rt_memcpy_def)
  also have "\<dots> = copied d s (k + j + (n - k - j)) m" by (rule copied_append [OF c2(2)]) (simp_all add: ac_simps)
  finally show ?thesis using k(1) j(1) by simp
qed

lemma memmove_down_eq: "n \<le> s \<Longrightarrow> s \<le> t \<Longrightarrow> memmove_down n t s m = copied (t - n) (s - n) n m"
proof (induction n arbitrary: s t m)
  case (Suc n)
  then have "memmove_down (Suc n) t s m = copied (t - 1 - n) (s - 1 - n) n (m(t - 1 := m (s - 1)))"
    unfolding memmove_down.simps by (intro Suc.IH) simp_all
  also have "\<dots> = copied (t - Suc n) (s - Suc n) (Suc n) m"
  proof
    fix x
    have "s - Suc n + (x - (t - Suc n)) = s - 1" if "x = t - 1" using that Suc.prems by simp
    with Suc.prems show "copied (t - 1 - n) (s - 1 - n) n (m(t - 1 := m (s - 1))) x = copied (t - Suc n) (s - Suc n) (Suc n) m x"
      by (auto simp: copied_def)
  qed
  finally show ?case .
qed simp

lemma memmove_eq: "rt_memmove d s n m = copied d s n m"
proof (cases "s < d \<and> d < s + n")
  case True
  then show ?thesis using memmove_down_eq [of n "s + n" "d + n" m] by (simp add: rt_memmove_def)
next
  case False
  then have "no_clobber d s n" by (auto simp: no_clobber_def)
  with False memcpy_bytes_eq show ?thesis by (auto simp: rt_memmove_def)
qed

section \<open>Comparing and searching\<close>

definition block :: "memory \<Rightarrow> nat \<Rightarrow> nat \<Rightarrow> bytes" where
  "block m a n = map m [a..<a + n]"

lemma block_simps [simp]: "block m a 0 = []" "length (block m a n) = n"
  by (simp_all add: block_def)

lemma block_Suc: "block m a (Suc n) = m a # block m (a + 1) n"
  by (simp add: block_def upt_conv_Cons del: upt_Suc)

lemma sint_eq_iff: "sint a = sint b \<longleftrightarrow> a = b" for a b :: u8
  by (metis signed_word_eqI)

lemma sint_0_iff: "sint a = 0 \<longleftrightarrow> a = 0" for a :: u8
  using sint_eq_iff [of a 0] by simp

lemma memcmp_eq_0: "rt_memcmp a b n m = 0 \<longleftrightarrow> block m a n = block m b n"
proof (induction n arbitrary: a b)
  case (Suc n)
  then show ?case by (auto simp: block_Suc Let_def word_uint_eq_iff)
qed simp

text \<open>A string: its characters, none of them zero, then a zero.\<close>

fun cstr :: "memory \<Rightarrow> nat \<Rightarrow> bytes \<Rightarrow> bool" where
  "cstr m s [] \<longleftrightarrow> m s = 0"
| "cstr m s (c # cs) \<longleftrightarrow> m s = c \<and> c \<noteq> 0 \<and> cstr m (s + 1) cs"

lemma cstr_block: "cstr m s xs \<Longrightarrow> block m s (length xs) = xs"
  by (induction xs arbitrary: s) (simp_all add: block_Suc)

lemma strlen_eq: "cstr m s xs \<Longrightarrow> rt_strlen s m = Some (length xs)"
proof -
  have "cstr m sc xs \<Longrightarrow> s \<le> sc \<Longrightarrow> strlen_loop s m sc = Some (sc - s + length xs)" for sc
  proof (induction xs arbitrary: sc)
    case Nil
    then show ?case by (subst strlen_loop.simps) simp
  next
    case (Cons c cs)
    from Cons.IH [of "sc + 1"] Cons.prems have "strlen_loop s m (sc + 1) = Some (sc + 1 - s + length cs)" by simp
    with Cons.prems show ?case by (subst strlen_loop.simps) simp
  qed
  then show "cstr m s xs \<Longrightarrow> ?thesis" by (simp add: rt_strlen_def)
qed

lemma block_drop: "k \<le> n \<Longrightarrow> block m (a + k) (n - k) = drop k (block m a n)"
  by (simp add: block_def drop_map)

lemma block_take: "k \<le> n \<Longrightarrow> block m a k = take k (block m a n)"
  by (simp add: block_def take_map min_def)

text \<open>\<open>occurs k ys xs\<close>: the string \<open>ys\<close> occurs in \<open>xs\<close> at position \<open>k\<close>.\<close>

definition occurs :: "nat \<Rightarrow> bytes \<Rightarrow> bytes \<Rightarrow> bool" where
  "occurs k ys xs \<longleftrightarrow> k + length ys \<le> length xs \<and> take (length ys) (drop k xs) = ys"

lemma occurs_block:
  assumes "cstr m a xs" "k + length ys \<le> length xs"
  shows "block m (a + k) (length ys) = ys \<longleftrightarrow> occurs k ys xs"
proof -
  have "block m (a + k) (length ys) = take (length ys) (block m (a + k) (length xs - k))" using assms(2) by (intro block_take) simp
  also have "block m (a + k) (length xs - k) = drop k xs" using block_drop [of k "length xs" m a] cstr_block [OF assms(1)] assms(2) by simp
  finally show ?thesis using assms(2) by (simp add: occurs_def)
qed

lemma strstr_loop_eq:
  assumes x: "cstr m a xs" and y: "cstr m b ys" and k: "k + n + length ys = length xs + 1" and p: "\<And>j. j < k \<Longrightarrow> \<not> occurs j ys xs"
  shows "case strstr_loop n (length ys) (a + k) b m of
      Some p \<Rightarrow> \<exists>j. p = a + j \<and> occurs j ys xs \<and> (\<forall>i < j. \<not> occurs i ys xs) | None \<Rightarrow> \<forall>j. \<not> occurs j ys xs"
  using k p
proof (induction n arbitrary: k)
  case 0
  have "\<not> occurs j ys xs" for j
  proof (cases "j < k")
    case False
    with 0 show ?thesis by (simp add: occurs_def)
  qed (use 0 in simp)
  then show ?case by simp
next
  case (Suc n)
  have le: "k + length ys \<le> length xs" using Suc.prems(1) by simp
  have c: "rt_memcmp (a + k) b (length ys) m = 0 \<longleftrightarrow> occurs k ys xs"
    unfolding memcmp_eq_0 cstr_block [OF y] by (rule occurs_block [OF x le])
  show ?case
  proof (cases "occurs k ys xs")
    case True
    with c Suc.prems(2) show ?thesis by auto
  next
    case False
    have "\<And>j. j < k + 1 \<Longrightarrow> \<not> occurs j ys xs" using Suc.prems(2) False by (metis less_SucE Suc_eq_plus1)
    with Suc.IH [of "k + 1"] Suc.prems(1) c False show ?thesis by (simp add: add.assoc)
  qed
qed

lemma strstr_eq:
  assumes x: "cstr m a xs" and y: "cstr m b ys"
  shows "\<exists>r. rt_strstr a b m = Some r \<and> (case r of
      Some p \<Rightarrow> \<exists>j. p = a + j \<and> occurs j ys xs \<and> (\<forall>i < j. \<not> occurs i ys xs) | None \<Rightarrow> \<forall>j. \<not> occurs j ys xs)"
proof (cases "ys = []")
  case True
  then have "rt_strstr a b m = Some (Some a)" using strlen_eq [OF y] by (simp add: rt_strstr_def)
  with True show ?thesis by (auto simp: occurs_def intro: exI [of _ 0])
next
  case False
  then have e: "rt_strstr a b m = Some (strstr_loop (length xs + 1 - length ys) (length ys) a b m)"
    using strlen_eq [OF x] strlen_eq [OF y] by (simp add: rt_strstr_def)
  show ?thesis
  proof (cases "length ys \<le> length xs + 1")
    case True
    then show ?thesis using strstr_loop_eq [OF x y, of 0 "length xs + 1 - length ys"] e by auto
  next
    case False
    with e show ?thesis by (auto simp: occurs_def)
  qed
qed

text \<open>Comparing strings.\<close>

lemma strcmp_eq: "cstr m a xs \<Longrightarrow> cstr m b ys \<Longrightarrow> \<exists>r. rt_strcmp a b m = Some r \<and> (r = 0 \<longleftrightarrow> xs = ys)"
proof (induction xs arbitrary: a b ys)
  case Nil
  then show ?case by (subst rt_strcmp.simps) (cases ys, auto simp: sint_0_iff)
next
  case (Cons c cs)
  show ?case
  proof (cases ys)
    case Nil
    with Cons.prems show ?thesis by (subst rt_strcmp.simps) (auto simp: sint_0_iff)
  next
    case (Cons d ds)
    show ?thesis
    proof (cases "c = d")
      case True
      with Cons.IH [of "a + 1" "b + 1" ds] Cons.prems Cons show ?thesis by (subst rt_strcmp.simps) auto
    next
      case False
      with Cons.prems Cons show ?thesis by (subst rt_strcmp.simps) (auto simp: sint_eq_iff)
    qed
  qed
qed

lemma strncmp_eq: "cstr m a xs \<Longrightarrow> cstr m b ys \<Longrightarrow> rt_strncmp a b n m = 0 \<longleftrightarrow> take n xs = take n ys"
proof -
  have "cstr m a xs \<Longrightarrow> cstr m b ys \<Longrightarrow> strncmp_loop a b n m 0 = 0 \<longleftrightarrow> take n xs = take n ys" for a b
  proof (induction n arbitrary: a b xs ys)
    case (Suc n)
    show ?case
    proof (cases "xs = [] \<or> ys = [] \<or> hd xs \<noteq> hd ys")
      case True
      with Suc.prems show ?thesis by (cases xs; cases ys) (auto simp: Let_def)
    next
      case False
      then obtain c cs ds where "xs = c # cs" "ys = c # ds" by (cases xs; cases ys) auto
      with Suc.IH [of "a + 1" cs "b + 1" ds] Suc.prems show ?thesis by (simp add: Let_def)
    qed
  qed simp
  then show "cstr m a xs \<Longrightarrow> cstr m b ys \<Longrightarrow> ?thesis" by (simp add: rt_strncmp_def sint_0_iff)
qed

lemma to_lower_0 [simp]: "to_lower c = 0 \<longleftrightarrow> c = 0" "to_lower 0 = 0"
proof -
  have "c + 32 \<noteq> 0" if "65 \<le> c" "c \<le> 90" for c :: u8
  proof
    assume "c + 32 = 0"
    then have "c = - 32" by (simp add: eq_neg_iff_add_eq_0)
    with that(2) show False by simp
  qed
  then show "to_lower c = 0 \<longleftrightarrow> c = 0" "to_lower 0 = 0" by (auto simp: to_lower_def)
qed

lemma ucast8_eq [simp]: "(ucast (x :: u8) :: u32) = ucast y \<longleftrightarrow> x = y" "(ucast (x :: u8) :: u32) = 0 \<longleftrightarrow> x = 0"
  by (simp_all add: word_uint_eq_iff uint_up_ucast is_up)

lemma strcasecmp_eq:
  "cstr m a xs \<Longrightarrow> cstr m b ys \<Longrightarrow> \<exists>r. rt_strcasecmp a b m = Some r \<and> (r = 0 \<longleftrightarrow> map to_lower xs = map to_lower ys)"
proof (induction xs arbitrary: a b ys)
  case Nil
  then show ?case by (subst rt_strcasecmp.simps) (cases ys, auto simp: unsigned_eq_0_iff)
next
  case (Cons c cs)
  show ?case
  proof (cases ys)
    case Nil
    with Cons.prems show ?thesis by (subst rt_strcasecmp.simps) (auto simp: unsigned_eq_0_iff)
  next
    case (Cons d ds)
    show ?thesis
    proof (cases "to_lower c = to_lower d")
      case True
      with Cons.IH [of "a + 1" "b + 1" ds] Cons.prems Cons show ?thesis by (subst rt_strcasecmp.simps) auto
    next
      case False
      with Cons.prems Cons show ?thesis by (subst rt_strcasecmp.simps) auto
    qed
  qed
qed

text \<open>A copy of a string into a field: cut or filled with zeros.\<close>

lemma strncpy_loop_eq:
  "cstr m s xs \<Longrightarrow> d + n \<le> s \<or> s + length xs < d \<Longrightarrow>
    strncpy_loop d s n m = (\<lambda>x. if d \<le> x \<and> x < d + n then if x - d < length xs then xs ! (x - d) else 0 else m x)"
proof (induction n arbitrary: d s xs m)
  case 0
  then show ?case by (auto simp: fun_eq_iff)
next
  case (Suc n)
  show ?case
  proof (cases xs)
    case Nil
    with Suc.prems(1) show ?thesis by (auto simp: Let_def memset_bytes_eq filled_def fun_eq_iff)
  next
    case (Cons c cs)
    have keep: "cstr m a ys \<Longrightarrow> x < a \<or> a + length ys < x \<Longrightarrow> cstr (m(x := v)) a ys" for a ys x v
      by (induction ys arbitrary: a) auto
    have k: "cstr (m(d := c)) (s + 1) cs" by (rule keep) (use Suc.prems Cons in auto)
    have "m s = c" "c \<noteq> 0" using Suc.prems(1) Cons by simp_all
    then have "strncpy_loop d s (Suc n) m = strncpy_loop (d + 1) (s + 1) n (m(d := c))" by (simp only: strncpy_loop.simps Let_def if_False)
    also have "\<dots> = (\<lambda>x. if d + 1 \<le> x \<and> x < d + 1 + n then if x - (d + 1) < length cs then cs ! (x - (d + 1)) else 0 else (m(d := c)) x)"
      by (rule Suc.IH [OF k]) (use Suc.prems(2) Cons in auto)
    also have "\<dots> = (\<lambda>x. if d \<le> x \<and> x < d + Suc n then if x - d < length xs then xs ! (x - d) else 0 else m x)"
    proof
      fix x
      consider "x < d" | "x = d" | y where "x = Suc (d + y)" using linorder_less_linear [of x d] less_imp_Suc_add by blast
      then show "(if d + 1 \<le> x \<and> x < d + 1 + n then if x - (d + 1) < length cs then cs ! (x - (d + 1)) else 0 else (m(d := c)) x) =
        (if d \<le> x \<and> x < d + Suc n then if x - d < length xs then xs ! (x - d) else 0 else m x)"
        by cases (simp_all add: Cons)
    qed
    finally show ?thesis .
  qed
qed

text \<open>\<^verbatim>\<open>rt_strnlen\<close> gives the length up to the maximum, but reads one character more than the maximum when the string is at least
  that long.\<close>

lemma strnlen_eq: "cstr m s xs \<Longrightarrow> rt_strnlen s n m = (min (length xs) n, s + min (length xs) n)"
proof -
  have "cstr m (s + k) ys \<Longrightarrow> k \<le> n \<Longrightarrow> strnlen_loop s n m (s + k) = (min (k + length ys) n, s + min (k + length ys) n)" for k ys
  proof (induction ys arbitrary: k)
    case Nil
    then show ?case by (subst strnlen_loop.simps) auto
  next
    case (Cons c cs)
    show ?case
    proof (cases "k < n")
      case True
      with Cons.IH [of "k + 1"] Cons.prems show ?thesis by (subst strnlen_loop.simps) simp
    next
      case False
      with Cons.prems show ?thesis by (subst strnlen_loop.simps) auto
    qed
  qed
  from this [of 0 xs] show "cstr m s xs \<Longrightarrow> ?thesis" by (simp add: rt_strnlen_def)
qed

section \<open>Properties\<close>

text \<open>C33: The word-wise memory functions are the byte-wise ones. \<^verbatim>\<open>rt_memset\<close>, with its loops over blocks, words and bytes, sets
  exactly the \<open>n\<close> bytes to the low byte of its argument, for every alignment and length; \<^verbatim>\<open>rt_memmove\<close> moves the old
  contents of the source even when the areas overlap; \<^verbatim>\<open>rt_memcpy\<close> does so unless the destination starts inside the
  source. No other byte changes.\<close>

theorem memory_functions_exact:
  "rt_memset s c n m = (\<lambda>x. if s \<le> x \<and> x < s + n then ucast c else m x)
    \<and> rt_memmove d s n m = (\<lambda>x. if d \<le> x \<and> x < d + n then m (s + (x - d)) else m x)
    \<and> (d \<le> s \<or> s + n \<le> d \<longrightarrow> rt_memcpy d s n m = (\<lambda>x. if d \<le> x \<and> x < d + n then m (s + (x - d)) else m x))"
  using memset_eq [of s c n m] memmove_eq [of d s n m] memcpy_eq [of d s n m] by (simp add: filled_def copied_def no_clobber_def)

theorem memory_functions_exact_witness:
  "rt_memcpy 100 103 2 (\<lambda>x. of_nat x) = (\<lambda>x. if 100 \<le> x \<and> x < 102 then of_nat (103 + (x - 100)) else of_nat x)"
  using memory_functions_exact [of 103 0 2 "\<lambda>x. of_nat x" 100] by simp

text \<open>The string functions. For terminated strings \<open>xs\<close> and \<open>ys\<close> they all return: \<^verbatim>\<open>rt_strlen\<close> the number of characters, \<^verbatim>\<open>rt_strnlen\<close> that number but at most \<open>n\<close>,
  \<^verbatim>\<open>rt_strcmp\<close> and \<^verbatim>\<open>rt_strncmp\<close> zero exactly for equal strings and equal prefixes, \<^verbatim>\<open>rt_strcasecmp\<close> zero exactly for strings
  that are equal in lower case, and \<^verbatim>\<open>rt_strstr\<close> the first occurrence, if there is one.\<close>

lemma string_functions_exact:
  assumes "cstr m a xs" "cstr m b ys"
  shows "rt_strlen a m = Some (length xs) \<and> fst (rt_strnlen a n m) = min (length xs) n
    \<and> (\<exists>r. rt_strcmp a b m = Some r \<and> (r = 0 \<longleftrightarrow> xs = ys))
    \<and> (rt_strncmp a b n m = 0 \<longleftrightarrow> take n xs = take n ys)
    \<and> (\<exists>r. rt_strcasecmp a b m = Some r \<and> (r = 0 \<longleftrightarrow> map to_lower xs = map to_lower ys))
    \<and> (\<exists>r. rt_strstr a b m = Some r \<and> (case r of
        Some p \<Rightarrow> \<exists>j. p = a + j \<and> occurs j ys xs \<and> (\<forall>i < j. \<not> occurs i ys xs) | None \<Rightarrow> \<forall>j. \<not> occurs j ys xs))"
  by (intro conjI strlen_eq [OF assms(1)] strcmp_eq [OF assms] strncmp_eq [OF assms] strcasecmp_eq [OF assms] strstr_eq [OF assms])
    (simp add: strnlen_eq [OF assms(1)])

end
