(* ===== verification/Kservice_Print.thy ===== *)
theory Kservice_Print
  imports Prelude
begin

text \<open>
  Formatted output of RTT4/src/kservice.c: \<^verbatim>\<open>rt_vsnprintf\<close> with its helpers, and \<^verbatim>\<open>rt_kprintf\<close>. A buffer is the list of its
  characters with the position of the write pointer, which moves on past the end without writing there. The variable
  arguments are a list of integers and strings (a string is the list of its characters up to the terminator); taking an argument of the wrong kind, or one that is missing, is undefined in
  C and gives \<open>None\<close> here, and so does the conversion \<^verbatim>\<open>%f\<close>, which is not modelled (it works with doubles). The options
  \<^verbatim>\<open>RT_PRINTF_LONGLONG\<close> and \<^verbatim>\<open>RT_PRINTF_SPECIAL\<close> are not configured.
\<close>

abbreviation (input) ZEROPAD :: u8 where "ZEROPAD \<equiv> 1"
abbreviation (input) SIGN :: u8 where "SIGN \<equiv> 2"
abbreviation (input) PLUS :: u8 where "PLUS \<equiv> 4"
abbreviation (input) SPACE :: u8 where "SPACE \<equiv> 8"
abbreviation (input) LEFT :: u8 where "LEFT \<equiv> 16"
abbreviation (input) SPECIAL :: u8 where "SPECIAL \<equiv> 32"
abbreviation (input) LARGE :: u8 where "LARGE \<equiv> 64"

record pbuf =
  pb_pos :: nat
  pb_buf :: string

text \<open>\<^verbatim>\<open>if (str < end) *str = c; ++ str;\<close>\<close>

definition putc :: "char \<Rightarrow> pbuf \<Rightarrow> pbuf" where
  "putc c b = b\<lparr>pb_buf := (if pb_pos b < length (pb_buf b) then (pb_buf b)[pb_pos b := c] else pb_buf b), pb_pos := pb_pos b + 1\<rparr>"

text \<open>\<^verbatim>\<open>while (size-- > 0) putc(c)\<close>\<close>

function pad :: "char \<Rightarrow> int \<Rightarrow> pbuf \<Rightarrow> int \<times> pbuf" where
  "pad c sz b = (if 0 < sz then pad c (sz - 1) (putc c b) else (sz - 1, b))"
  by pat_completeness auto
termination by (relation "measure (\<lambda>(c, sz, b). nat sz)") auto

section \<open>Numbers\<close>

definition divide :: "u32 \<Rightarrow> nat \<Rightarrow> nat \<times> u32" where
  "divide n base = (if base = 10 then (unat (n mod 10), n div 10) else (unat (n mod 16), n div 16))"

definition small_digits :: string where "small_digits = ''0123456789abcdef''"
definition large_digits :: string where "large_digits = ''0123456789ABCDEF''"

lemma divide_less: "n \<noteq> 0 \<Longrightarrow> unat (snd (divide n base)) < unat n"
  by (simp add: divide_def unat_div unat_gt_0)

text \<open>The loop that fills \<^verbatim>\<open>tmp\<close>, lowest digit first.\<close>

function tmp_digits :: "string \<Rightarrow> nat \<Rightarrow> u32 \<Rightarrow> string" where
  "tmp_digits digits base num =
     (if num = 0 then [] else digits ! fst (divide num base) # tmp_digits digits base (snd (divide num base)))"
  by pat_completeness auto
termination by (relation "measure (\<lambda>(d, b, n). unat n)") (auto simp: divide_less)

text \<open>\<^verbatim>\<open>while (i < precision--) putc('0')\<close>, and the loop that puts the digits.\<close>

function zeros_loop :: "int \<Rightarrow> int \<Rightarrow> pbuf \<Rightarrow> pbuf" where
  "zeros_loop i precision b = (if i < precision then zeros_loop i (precision - 1) (putc CHR ''0'' b) else b)"
  by pat_completeness auto
termination by (relation "measure (\<lambda>(i, p, b). nat (p - i))") auto

fun digits_loop :: "nat \<Rightarrow> string \<Rightarrow> pbuf \<Rightarrow> pbuf" where
  "digits_loop 0 tmp b = b"
| "digits_loop (Suc i) tmp b = digits_loop i tmp (putc (tmp ! i) b)"

definition get_sign :: "u8 \<Rightarrow> u32 \<Rightarrow> char option \<times> u32" where
  "get_sign type num =
     (if type AND SIGN \<noteq> 0 then
        if sint num < 0 then (Some CHR ''-'', - num)
        else if type AND PLUS \<noteq> 0 then (Some CHR ''+'', num)
        else if type AND SPACE \<noteq> 0 then (Some CHR '' '', num)
        else (None, num)
      else (None, num))"

text \<open>The part of \<^verbatim>\<open>print_number\<close> after the digits are in \<^verbatim>\<open>tmp\<close>.\<close>

definition print_field :: "string \<Rightarrow> char option \<Rightarrow> int \<Rightarrow> int \<Rightarrow> u8 \<Rightarrow> pbuf \<Rightarrow> pbuf" where
  "print_field tmp sign s precision type b =
     (let c = (if type AND ZEROPAD \<noteq> 0 then CHR ''0'' else CHR '' '');
          i = int (length tmp);
          precision_bak = precision;
          precision = (if i > precision then i else precision);
          size = s - precision;
          (size, b) =
            (if type AND (ZEROPAD OR LEFT) = 0
             then pad CHR '' '' (if sign \<noteq> None \<and> 0 < size then size - 1 else size) b else (size, b));
          (size, b) = (case sign of Some sg \<Rightarrow> (size - 1, putc sg b) | None \<Rightarrow> (size, b));
          (size, b) = (if type AND LEFT = 0 then pad c size b else (size, b));
          b = zeros_loop i precision b;
          b = (if precision_bak \<noteq> 0 then digits_loop (length tmp) tmp b else b)
      in snd (pad CHR '' '' size b))"

definition print_number :: "u32 \<Rightarrow> nat \<Rightarrow> int \<Rightarrow> int \<Rightarrow> u8 \<Rightarrow> pbuf \<Rightarrow> pbuf" where
  "print_number num base s precision type b =
     (let digits = (if type AND LARGE \<noteq> 0 then large_digits else small_digits);
          type = (if type AND LEFT \<noteq> 0 then type AND NOT ZEROPAD else type);
          (sign, num) = get_sign type num;
          tmp = (if num = 0 then ''0'' else tmp_digits digits base num)
      in print_field tmp sign s precision type b)"

section \<open>Parsing the format\<close>

definition isdigit :: "char \<Rightarrow> bool" where
  "isdigit c \<longleftrightarrow> 48 \<le> (of_char c :: nat) \<and> (of_char c :: nat) < 58"

fun skip_atoi :: "u32 \<Rightarrow> string \<Rightarrow> u32 \<times> string" where
  "skip_atoi i [] = (i, [])"
| "skip_atoi i (c # s) = (if isdigit c then skip_atoi (i * 10 + of_char c - 48) s else (i, c # s))"

fun flag_loop :: "u8 \<Rightarrow> string \<Rightarrow> u8 \<times> string" where
  "flag_loop flags [] = (flags, [])"
| "flag_loop flags (c # s) =
     (if c = CHR ''-'' then flag_loop (flags OR LEFT) s
      else if c = CHR ''+'' then flag_loop (flags OR PLUS) s
      else if c = CHR '' '' then flag_loop (flags OR SPACE) s
      else if c = CHR ''#'' then flag_loop (flags OR SPECIAL) s
      else if c = CHR ''0'' then flag_loop (flags OR ZEROPAD) s
      else (flags, c # s))"

datatype parg = PInt u32 | PStr "string option"

fun va_int :: "parg list \<Rightarrow> (u32 \<times> parg list) option" where
  "va_int (PInt w # args) = Some (w, args)"
| "va_int _ = None"

fun va_str :: "parg list \<Rightarrow> (string option \<times> parg list) option" where
  "va_str (PStr s # args) = Some (s, args)"
| "va_str _ = None"

definition get_width :: "u8 \<Rightarrow> string \<Rightarrow> parg list \<Rightarrow> (int \<times> u8 \<times> string \<times> parg list) option" where
  "get_width flags fmt args =
     (case fmt of
        [] \<Rightarrow> Some (- 1, flags, fmt, args)
      | c # s \<Rightarrow>
          if isdigit c then let (w, s) = skip_atoi 0 fmt in Some (sint w, flags, s, args)
          else if c = CHR ''*'' then do {
            (w, args) \<leftarrow> va_int args;
            Some (if sint w < 0 then (- sint w, flags OR LEFT, s, args) else (sint w, flags, s, args)) }
          else Some (- 1, flags, fmt, args))"

definition get_precision :: "string \<Rightarrow> parg list \<Rightarrow> (int \<times> string \<times> parg list) option" where
  "get_precision fmt args =
     (case fmt of
        [] \<Rightarrow> Some (- 1, fmt, args)
      | c # s \<Rightarrow>
          if c \<noteq> CHR ''.'' then Some (- 1, fmt, args)
          else case s of
              [] \<Rightarrow> Some (0, s, args)
            | d # s' \<Rightarrow>
                if isdigit d then let (w, s) = skip_atoi 0 s in Some (if sint w < 0 then 0 else sint w, s, args)
                else if d = CHR ''*'' then do {
                  (w, args) \<leftarrow> va_int args;
                  Some (if sint w < 0 then 0 else sint w, s', args) }
                else Some (0, s, args))"

definition get_qualifier :: "string \<Rightarrow> char option \<times> string" where
  "get_qualifier fmt =
     (case fmt of [] \<Rightarrow> (None, fmt)
      | c # s \<Rightarrow> if c = CHR ''h'' \<or> c = CHR ''l'' then (Some c, s) else (None, fmt))"

section \<open>Conversions\<close>

text \<open>\<^verbatim>\<open>while (--field_width > 0)\<close> and \<^verbatim>\<open>while (len < field_width--)\<close>\<close>

function char_pad :: "int \<Rightarrow> pbuf \<Rightarrow> int \<times> pbuf" where
  "char_pad w b = (if 0 < w - 1 then char_pad (w - 1) (putc CHR '' '' b) else (w - 1, b))"
  by pat_completeness auto
termination by (relation "measure (\<lambda>(w, b). nat w)") auto

function str_pad :: "int \<Rightarrow> int \<Rightarrow> pbuf \<Rightarrow> int \<times> pbuf" where
  "str_pad len w b = (if len < w then str_pad len (w - 1) (putc CHR '' '' b) else (w - 1, b))"
  by pat_completeness auto
termination by (relation "measure (\<lambda>(l, w, b). nat (w - l))") auto

definition print_char :: "u32 \<Rightarrow> int \<Rightarrow> u8 \<Rightarrow> pbuf \<Rightarrow> pbuf" where
  "print_char v width flags b =
     (let (width, b) = (if flags AND LEFT = 0 then char_pad width b else (width, b));
          b = putc (char_of (unat v)) b
      in snd (char_pad width b))"

fun chars_loop :: "nat \<Rightarrow> string \<Rightarrow> pbuf \<Rightarrow> pbuf" where
  "chars_loop 0 s b = b"
| "chars_loop (Suc n) s b = chars_loop n (tl s) (putc (hd s) b)"

definition print_string :: "string option \<Rightarrow> int \<Rightarrow> int \<Rightarrow> u8 \<Rightarrow> pbuf \<Rightarrow> pbuf" where
  "print_string arg width precision flags b =
     (let s = (case arg of None \<Rightarrow> ''(NULL)'' | Some s \<Rightarrow> s);
          len = int (length s);
          len = (if 0 < precision \<and> precision < len then precision else len);
          (width, b) = (if flags AND LEFT = 0 then str_pad len width b else (width, b));
          b = chars_loop (nat len) s b
      in snd (str_pad len width b))"

text \<open>The value of an integer conversion.\<close>

definition int_value :: "char option \<Rightarrow> u8 \<Rightarrow> u32 \<Rightarrow> u32" where
  "int_value qualifier flags v =
     (if qualifier = Some CHR ''h'' then
        if flags AND SIGN \<noteq> 0 then word_of_int (sint (ucast v :: u16)) else ucast (ucast v :: u16)
      else v)"

text \<open>What follows a percent sign: the rest of the format, of the arguments, and the buffer.\<close>

definition print_int ::
  "char option \<Rightarrow> nat \<Rightarrow> int \<Rightarrow> int \<Rightarrow> u8 \<Rightarrow> string \<Rightarrow> parg list \<Rightarrow> pbuf \<Rightarrow> (string \<times> parg list \<times> pbuf) option" where
  "print_int qualifier base width precision flags s args b = do {
     (v, args) \<leftarrow> va_int args;
     Some (s, args, print_number (int_value qualifier flags v) base width precision flags b) }"

text \<open>The switch over the conversion character, and the whole of a conversion.\<close>

definition convert ::
  "char option \<Rightarrow> int \<Rightarrow> int \<Rightarrow> u8 \<Rightarrow> string \<Rightarrow> parg list \<Rightarrow> pbuf \<Rightarrow> (string \<times> parg list \<times> pbuf) option" where
  "convert qualifier width precision flags fmt args b =
     (case fmt of
        [] \<Rightarrow> Some ([], args, putc CHR ''%'' b)
      | c # s \<Rightarrow>
          if c = CHR ''c'' then do { (v, args) \<leftarrow> va_int args; Some (s, args, print_char v width flags b) }
          else if c = CHR ''s'' then do { (v, args) \<leftarrow> va_str args; Some (s, args, print_string v width precision flags b) }
          else if c = CHR ''p'' then do {
            (v, args) \<leftarrow> va_int args;
            let (width, flags) = (if width = - 1 then (8, flags OR ZEROPAD) else (width, flags));
            Some (s, args, print_number v 16 width precision flags b) }
          else if c = CHR ''%'' then Some (s, args, putc CHR ''%'' b)
          else if c = CHR ''o'' then print_int qualifier 8 width precision flags s args b
          else if c = CHR ''X'' then print_int qualifier 16 width precision (flags OR LARGE) s args b
          else if c = CHR ''x'' then print_int qualifier 16 width precision flags s args b
          else if c = CHR ''d'' \<or> c = CHR ''i'' then print_int qualifier 10 width precision (flags OR SIGN) s args b
          else if c = CHR ''u'' then print_int qualifier 10 width precision flags s args b
          else if c = CHR ''f'' then None
          else Some (s, args, putc c (putc CHR ''%'' b)))"

definition conversion :: "string \<Rightarrow> parg list \<Rightarrow> pbuf \<Rightarrow> (string \<times> parg list \<times> pbuf) option" where
  "conversion fmt args b = do {
     let (flags, fmt) = flag_loop 0 fmt;
     (width, flags, fmt, args) \<leftarrow> get_width flags fmt args;
     (precision, fmt, args) \<leftarrow> get_precision fmt args;
     let (qualifier, fmt) = get_qualifier fmt;
     convert qualifier width precision flags fmt args b }"

declare pad.simps [simp del] zeros_loop.simps [simp del] char_pad.simps [simp del] str_pad.simps [simp del] tmp_digits.simps [simp del]

section \<open>The format loop\<close>

lemma flag_loop_length: "length (snd (flag_loop fl s)) \<le> length s"
  by (induction s arbitrary: fl) (auto simp: le_SucI)

lemma skip_atoi_length: "length (snd (skip_atoi i s)) \<le> length s"
  by (induction s arbitrary: i) (auto simp: le_SucI)

lemma get_width_length: "get_width fl s args = Some (w, fl', s', args') \<Longrightarrow> length s' \<le> length s"
  using skip_atoi_length [of 0 s]
  by (auto simp: get_width_def Let_def bind_eq_Some_conv split: list.splits if_splits prod.splits)

lemma get_precision_length: "get_precision s args = Some (p, s', args') \<Longrightarrow> length s' \<le> length s"
  using skip_atoi_length [of 0 "tl s"]
  by (auto simp: get_precision_def Let_def bind_eq_Some_conv split: list.splits if_splits prod.splits)

lemma get_qualifier_length: "length (snd (get_qualifier s)) \<le> length s"
  by (auto simp: get_qualifier_def split: list.splits)

lemma print_int_rest: "print_int q base w p fl s args b = Some (s', args', b') \<Longrightarrow> s' = s"
  by (auto simp: print_int_def bind_eq_Some_conv)

lemma convert_length:
  assumes "convert q w p fl s args b = Some (s', args', b')"
  shows "length s' \<le> length s"
proof (cases s)
  case Nil
  with assms show ?thesis by (simp add: convert_def)
next
  case (Cons c t)
  have "s' = t"
    using assms unfolding Cons convert_def list.case
    by (auto simp only: bind_eq_Some_conv Let_def option.inject prod.inject split: if_split_asm prod.splits dest!: print_int_rest)
  with Cons show ?thesis by simp
qed

lemma conversion_parts:
  assumes "conversion s args b = Some (s', args', b')"
  obtains fl s1 w fl2 s2 args2 p s3 args3 q s4 where "flag_loop 0 s = (fl, s1)" "get_width fl s1 args = Some (w, fl2, s2, args2)"
    "get_precision s2 args2 = Some (p, s3, args3)" "get_qualifier s3 = (q, s4)" "convert q w p fl2 s4 args3 b = Some (s', args', b')"
proof -
  obtain fl s1 where 1: "flag_loop 0 s = (fl, s1)" by (cases "flag_loop 0 s") auto
  from assms 1 obtain w fl2 s2 args2 p s3 args3 where 2: "get_width fl s1 args = Some (w, fl2, s2, args2)"
    "get_precision s2 args2 = Some (p, s3, args3)" by (auto simp: conversion_def bind_eq_Some_conv)
  obtain q s4 where 3: "get_qualifier s3 = (q, s4)" by (cases "get_qualifier s3") auto
  from assms 1 2 3 have "convert q w p fl2 s4 args3 b = Some (s', args', b')" by (simp add: conversion_def)
  with that 1 2 3 show ?thesis by blast
qed

lemma conversion_length:
  assumes "conversion s args b = Some (s', args', b')"
  shows "length s' \<le> length s"
proof -
  obtain fl s1 w fl2 s2 args2 p s3 args3 q s4 where c: "flag_loop 0 s = (fl, s1)" "get_width fl s1 args = Some (w, fl2, s2, args2)"
    "get_precision s2 args2 = Some (p, s3, args3)" "get_qualifier s3 = (q, s4)" "convert q w p fl2 s4 args3 b = Some (s', args', b')"
    by (rule conversion_parts [OF assms])
  have "length s' \<le> length s4" by (rule convert_length [OF c(5)])
  also have "\<dots> \<le> length s3" using get_qualifier_length [of s3] c(4) by simp
  also have "\<dots> \<le> length s2" by (rule get_precision_length [OF c(3)])
  also have "\<dots> \<le> length s1" by (rule get_width_length [OF c(2)])
  also have "\<dots> \<le> length s" using flag_loop_length [of 0 s] c(1) by simp
  finally show ?thesis .
qed

function format_loop :: "string \<Rightarrow> parg list \<Rightarrow> pbuf \<Rightarrow> pbuf option" where
  "format_loop [] args b = Some b"
| "format_loop (c # fmt) args b =
     (if c \<noteq> CHR ''%'' then format_loop fmt args (putc c b)
      else case conversion fmt args b of None \<Rightarrow> None | Some (fmt, args, b) \<Rightarrow> format_loop fmt args b)"
  by pat_completeness auto
termination by (relation "measure (\<lambda>(s, a, b). length s)") (auto dest: conversion_length)

text \<open>The result is the number of characters of the whole output, and the buffer.\<close>

definition rt_vsnprintf :: "string \<Rightarrow> string \<Rightarrow> parg list \<Rightarrow> (nat \<times> string) option" where
  "rt_vsnprintf buf fmt args = do {
     b \<leftarrow> format_loop fmt args \<lparr>pb_pos = 0, pb_buf = buf\<rparr>;
     Some (pb_pos b,
       if 0 < length buf then
         if pb_pos b < length buf then (pb_buf b)[pb_pos b := CHR 0x00] else (pb_buf b)[length buf - 1 := CHR 0x00]
       else pb_buf b) }"

definition rt_snprintf :: "string \<Rightarrow> string \<Rightarrow> parg list \<Rightarrow> (nat \<times> string) option" where
  "rt_snprintf buf fmt args = rt_vsnprintf buf fmt args"

text \<open>\<^verbatim>\<open>rt_kprintf\<close> with its buffer of \<^verbatim>\<open>RT_CONSOLEBUF_SIZE\<close> (128) characters, of which it passes 127. The results are the buffer and what
  is sent: \<^verbatim>\<open>length\<close> characters to a console device, or the string up to its terminator to \<^verbatim>\<open>rt_hw_console_output\<close>.\<close>

definition rt_kprintf :: "bool \<Rightarrow> string \<Rightarrow> string \<Rightarrow> parg list \<Rightarrow> (string \<times> string) option" where
  "rt_kprintf device log_buf fmt args = do {
     (n, buf) \<leftarrow> rt_vsnprintf (take 127 log_buf) fmt args;
     let log_buf = buf @ drop 127 log_buf;
     let n = (if 127 < n then 127 else n);
     Some (log_buf, if device then take n log_buf else takeWhile (\<lambda>c. c \<noteq> CHR 0x00) log_buf) }"

section \<open>What the loops emit\<close>

definition emit :: "string \<Rightarrow> pbuf \<Rightarrow> pbuf" where
  "emit s b = fold putc s b"

lemma emit_simps [simp]: "emit [] b = b" "emit (c # s) b = emit s (putc c b)" "emit s (emit t b) = emit (t @ s) b"
  by (simp_all add: emit_def)

lemma emit_putc: "putc c (emit s b) = emit (s @ [c]) b"
  by (simp add: emit_def)

lemma emit_pos [simp]: "pb_pos (emit s b) = pb_pos b + length s"
  by (induction s arbitrary: b) (simp_all add: putc_def)

lemma emit_buf:
  "pb_buf (emit s b) = take (pb_pos b) (pb_buf b) @ take (length (pb_buf b) - pb_pos b) s @ drop (pb_pos b + length s) (pb_buf b)"
proof (induction s arbitrary: b)
  case Nil
  then show ?case by simp
next
  case (Cons c s)
  show ?case
  proof (cases "pb_pos b < length (pb_buf b)")
    case True
    then have "take (Suc (pb_pos b)) ((pb_buf b)[pb_pos b := c]) = take (pb_pos b) (pb_buf b) @ [c]"
      by (simp add: take_Suc_conv_app_nth)
    with True Cons [of "putc c b"] show ?thesis
      by (simp add: putc_def Suc_diff_Suc [symmetric])
  next
    case False
    with Cons [of "putc c b"] show ?thesis by (simp add: putc_def)
  qed
qed

lemma pad_emit: "pad c n b = (min n 0 - 1, emit (replicate (nat n) c) b)"
proof (induction c n b rule: pad.induct)
  case (1 c n b)
  show ?case
  proof (cases "0 < n")
    case True
    then have "nat n = Suc (nat (n - 1))" by simp
    with True 1 show ?thesis by (subst pad.simps) (simp add: min_def)
  qed (subst pad.simps, simp)
qed

lemma zeros_emit: "zeros_loop i p b = emit (replicate (nat (p - i)) CHR ''0'') b"
proof (induction i p b rule: zeros_loop.induct)
  case (1 i p b)
  show ?case
  proof (cases "i < p")
    case True
    then have "nat (p - i) = Suc (nat (p - 1 - i))" by simp
    with True 1 show ?thesis by (subst zeros_loop.simps) simp
  qed (subst zeros_loop.simps, simp)
qed

lemma digits_emit: "n \<le> length tmp \<Longrightarrow> digits_loop n tmp b = emit (rev (take n tmp)) b"
  by (induction n arbitrary: b) (simp_all add: take_Suc_conv_app_nth)

lemma char_pad_emit: "char_pad w b = (min (w - 1) 0, emit (replicate (nat (w - 1)) CHR '' '') b)"
proof (induction w b rule: char_pad.induct)
  case (1 w b)
  show ?case
  proof (cases "0 < w - 1")
    case True
    then have "nat (w - 1) = Suc (nat (w - 1 - 1))" by simp
    with True 1 show ?thesis by (subst char_pad.simps) (simp add: min_def)
  qed (subst char_pad.simps, simp)
qed

lemma str_pad_emit: "str_pad len w b = (min w len - 1, emit (replicate (nat (w - len)) CHR '' '') b)"
proof (induction len w b rule: str_pad.induct)
  case (1 len w b)
  show ?case
  proof (cases "len < w")
    case True
    then have "nat (w - len) = Suc (nat (w - 1 - len))" by simp
    with True 1 show ?thesis by (subst str_pad.simps) (simp add: min_def)
  qed (subst str_pad.simps, simp add: min_def)
qed

lemma chars_emit: "n \<le> length s \<Longrightarrow> chars_loop n s b = emit (take n s) b"
proof (induction n arbitrary: s b)
  case (Suc n)
  then obtain c t where "s = c # t" by (cases s) auto
  with Suc show ?case by simp
qed simp

section \<open>The text of a number\<close>

text \<open>Sign, digits with leading zeros up to the precision, and the padding to the width: with blanks on the left, with zeros
  between sign and digits, or with blanks on the right.\<close>

definition number_sign :: "u8 \<Rightarrow> u32 \<Rightarrow> string" where
  "number_sign type num = (case fst (get_sign type num) of None \<Rightarrow> [] | Some c \<Rightarrow> [c])"

definition number_digits :: "u8 \<Rightarrow> nat \<Rightarrow> u32 \<Rightarrow> string" where
  "number_digits type base num =
     (let v = snd (get_sign type num)
      in if v = 0 then ''0'' else rev (tmp_digits (if type AND LARGE \<noteq> 0 then large_digits else small_digits) base v))"

definition number_text :: "u32 \<Rightarrow> nat \<Rightarrow> int \<Rightarrow> int \<Rightarrow> u8 \<Rightarrow> string" where
  "number_text num base width precision type =
     (let sg = number_sign type num; ds = number_digits type base num;
          body = replicate (nat precision - length ds) CHR ''0'' @ (if precision \<noteq> 0 then ds else []);
          room = nat (width - max precision (int (length ds)) - int (length sg))
      in if type AND LEFT \<noteq> 0 then sg @ body @ replicate room CHR '' ''
         else if type AND ZEROPAD \<noteq> 0 then sg @ replicate room CHR ''0'' @ body
         else replicate room CHR '' '' @ sg @ body)"

lemma flag_bits [simp]:
  fixes t :: u8
  shows "(t AND - 2) AND 1 = 0" "(t AND - 2) AND 16 = t AND 16" "(t AND - 2) AND 2 = t AND 2" "(t AND - 2) AND 4 = t AND 4"
    "(t AND - 2) AND 8 = t AND 8" "(t AND - 2) AND 17 = t AND 16"
  by (simp_all only: and.assoc) simp_all

lemma flag_pad: "t AND 17 = 0 \<longleftrightarrow> t AND 1 = 0 \<and> t AND 16 = 0" for t :: u8
proof -
  have "t AND (1 OR 16) = 0 \<longleftrightarrow> t AND 1 = 0 \<and> t AND 16 = 0" by (simp only: bit.conj_disj_distrib or_eq_0_iff)
  then show ?thesis by simp
qed

lemma get_sign_left: "get_sign (t AND - 2) num = get_sign t num"
  by (simp add: get_sign_def)

lemma print_field_emit:
  fixes tmp sg p w
  defines "s \<equiv> (case sg of None \<Rightarrow> [] | Some c \<Rightarrow> [c])"
    and "body \<equiv> replicate (nat p - length tmp) CHR ''0'' @ (if p \<noteq> 0 then rev tmp else [])"
    and "room \<equiv> nat (w - max p (int (length tmp)) - int (case sg of None \<Rightarrow> 0 | Some c \<Rightarrow> 1))"
  assumes t: "t AND LEFT \<noteq> 0 \<longrightarrow> t AND ZEROPAD = 0"
  shows "print_field tmp sg w p t b = emit (if t AND LEFT \<noteq> 0 then s @ body @ replicate room CHR '' ''
     else if t AND ZEROPAD \<noteq> 0 then s @ replicate room CHR ''0'' @ body else replicate room CHR '' '' @ s @ body) b"
proof -
  have pm: "(if int (length tmp) > p then int (length tmp) else p) = max p (int (length tmp))" by simp
  let ?p = "if p < int (length tmp) then int (length tmp) else p"
  have z: "nat (?p - int (length tmp)) = nat p - length tmp" by (auto simp: nat_diff_distrib)
  have body: "(if p \<noteq> 0 then digits_loop (length tmp) tmp (zeros_loop (int (length tmp)) ?p b)
      else zeros_loop (int (length tmp)) ?p b) = emit body b" for b
    by (simp add: zeros_emit z digits_emit body_def)
  consider (left) "t AND LEFT \<noteq> 0" "t AND ZEROPAD = 0" | (zero) "t AND LEFT = 0" "t AND ZEROPAD \<noteq> 0" | (blank) "t AND LEFT = 0" "t AND ZEROPAD = 0"
    using t by blast
  then show ?thesis
  proof cases
    case left
    then show ?thesis
      by (cases sg) (simp_all add: print_field_def Let_def pm body pad_emit flag_pad s_def room_def split del: if_split)
  next
    case zero
    then show ?thesis
      by (cases sg) (simp_all add: print_field_def Let_def pm body pad_emit flag_pad s_def room_def split del: if_split)
  next
    case blank
    have n: "nat (if p < w \<and> int (length tmp) < w then w - ?p - 1 else w - ?p) = nat (w - max p (int (length tmp)) - 1)" by auto
    from blank show ?thesis
      by (cases sg) (simp_all add: print_field_def Let_def pm body pad_emit flag_pad s_def room_def n emit_putc split del: if_split)
  qed
qed

lemma print_number_emit: "print_number num base w p t b = emit (number_text num base w p t) b"
proof -
  obtain sg v where g: "get_sign t num = (sg, v)" by (cases "get_sign t num") auto
  define tmp where "tmp = (if v = 0 then ''0'' else tmp_digits (if t AND LARGE \<noteq> 0 then large_digits else small_digits) base v)"
  have ds: "number_digits t base num = rev tmp" by (simp add: number_digits_def g tmp_def)
  have sn: "number_sign t num = (case sg of None \<Rightarrow> [] | Some c \<Rightarrow> [c])" by (simp add: number_sign_def g)
  have ln: "int (length (case sg of None \<Rightarrow> [] | Some c \<Rightarrow> [c])) = int (case sg of None \<Rightarrow> 0 | Some c \<Rightarrow> 1)" by (simp split: option.split)
  let ?t = "if t AND LEFT \<noteq> 0 then t AND - 2 else t"
  have "print_number num base w p t b = print_field tmp sg w p ?t b"
    by (cases "t AND LEFT = 0") (simp_all add: print_number_def Let_def tmp_def g get_sign_left)
  also have "\<dots> = emit (number_text num base w p t) b"
    by (subst print_field_emit) (simp_all add: number_text_def Let_def ds sn ln)
  finally show ?thesis .
qed

section \<open>One text for all buffers\<close>

definition emits :: "(pbuf \<Rightarrow> pbuf) \<Rightarrow> bool" where
  "emits f \<longleftrightarrow> (\<exists>t. \<forall>b. f b = emit t b)"

lemma emits_emit: "(\<And>b. f b = emit t b) \<Longrightarrow> emits f"
  by (auto simp: emits_def)

lemma emits_number: "emits (print_number num base w p t)"
  by (rule emits_emit) (rule print_number_emit)

lemma emits_char: "emits (print_char v w fl)"
  by (rule emits_emit [of _ "(if fl AND LEFT = 0 then replicate (nat (w - 1)) CHR '' '' else []) @ [char_of (unat v)]
      @ (if fl AND LEFT = 0 then [] else replicate (nat (w - 1)) CHR '' '')"])
    (simp add: print_char_def Let_def char_pad_emit emit_putc)

lemma emits_string: "emits (print_string a w p fl)"
proof -
  let ?s = "case a of None \<Rightarrow> ''(NULL)'' | Some s \<Rightarrow> s"
  let ?len = "if 0 < p \<and> p < int (length ?s) then p else int (length ?s)"
  have l: "nat ?len \<le> length ?s" by (simp, linarith)
  show ?thesis
    by (rule emits_emit [of _ "(if fl AND LEFT = 0 then replicate (nat (w - ?len)) CHR '' '' else []) @ take (nat ?len) ?s
        @ (if fl AND LEFT = 0 then [] else replicate (nat (w - ?len)) CHR '' '')"])
      (simp add: print_string_def Let_def str_pad_emit chars_emit [OF l] split del: if_split cong: if_cong, simp add: str_pad_emit)
qed

lemma emits_putc: "emits (putc c)" "emits (\<lambda>b. putc d (putc c b))"
  by (rule emits_emit [of _ "[c]"], simp, rule emits_emit [of _ "[c, d]"], simp)

text \<open>A conversion fails for every buffer or emits the same text into every buffer.\<close>

definition uniform :: "(pbuf \<Rightarrow> (string \<times> parg list \<times> pbuf) option) \<Rightarrow> bool" where
  "uniform g \<longleftrightarrow> (\<forall>b. g b = None) \<or> (\<exists>s args f. emits f \<and> (\<forall>b. g b = Some (s, args, f b)))"

lemma uniform_Some: "emits f \<Longrightarrow> uniform (\<lambda>b. Some (s, args, f b))"
  by (auto simp: uniform_def)

lemma uniform_None: "uniform (\<lambda>b. None)"
  by (simp add: uniform_def)

lemma uniform_if: "uniform g \<Longrightarrow> uniform h \<Longrightarrow> uniform (\<lambda>b. if c then g b else h b)"
  by (cases c) simp_all

lemma uniform_bind: "(\<And>x. uniform (\<lambda>b. g x b)) \<Longrightarrow> uniform (\<lambda>b. m \<bind> (\<lambda>x. g x b))"
  by (cases m) (simp_all add: uniform_None)

lemma uniform_int: "uniform (\<lambda>b. print_int q base w p fl s args b)"
  unfolding print_int_def by (rule uniform_bind) (auto intro!: uniform_Some emits_number split: prod.split)

lemma uniform_convert: "uniform (\<lambda>b. convert q w p fl fmt args b)"
proof (cases fmt)
  case Nil
  then show ?thesis unfolding convert_def by (auto intro: uniform_Some emits_putc)
next
  case (Cons c s)
  show ?thesis
    unfolding convert_def Cons list.case Let_def case_prod_beta
    by (intro uniform_if uniform_bind uniform_int uniform_None uniform_Some emits_putc emits_char emits_string emits_number)
qed

lemma uniform_conversion: "uniform (\<lambda>b. conversion fmt args b)"
  unfolding conversion_def Let_def case_prod_beta by (intro uniform_bind uniform_convert)

lemma format_loop_text: "(\<forall>b. format_loop fmt args b = None) \<or> (\<exists>t. \<forall>b. format_loop fmt args b = Some (emit t b))"
proof (induction fmt arbitrary: args rule: length_induct)
  case (1 fmt)
  show ?case
  proof (cases fmt)
    case Nil
    then show ?thesis by (auto intro: exI [of _ "[]"])
  next
    case (Cons c s)
    show ?thesis
    proof (cases "c = CHR ''%''")
      case False
      from 1 Cons have "(\<forall>b. format_loop s args b = None) \<or> (\<exists>t. \<forall>b. format_loop s args b = Some (emit t b))" by simp
      then show ?thesis
      proof
        assume "\<exists>t. \<forall>b. format_loop s args b = Some (emit t b)"
        then obtain t where "\<forall>b. format_loop s args b = Some (emit t b)" ..
        then have "\<forall>b. format_loop fmt args b = Some (emit (c # t) b)" using Cons False by simp
        then show ?thesis by blast
      qed (use Cons False in simp)
    next
      case True
      from uniform_conversion [of s args] consider "\<forall>b. conversion s args b = None"
        | s' args' t where "\<forall>b. conversion s args b = Some (s', args', emit t b)" unfolding uniform_def emits_def by metis
      then show ?thesis
      proof cases
        case 1
        with Cons True show ?thesis by simp
      next
        case (2 s' args' t)
        then have "length s' \<le> length s" using conversion_length by blast
        with 1 Cons have "(\<forall>b. format_loop s' args' b = None) \<or> (\<exists>t. \<forall>b. format_loop s' args' b = Some (emit t b))" by simp
        with 2 Cons True show ?thesis by auto
      qed
    qed
  qed
qed

lemma finish_text:
  assumes "buf \<noteq> []"
  shows "(if length t < length buf then (take (length buf) t @ drop (length t) buf)[length t := CHR 0x00]
      else (take (length buf) t @ drop (length t) buf)[length buf - 1 := CHR 0x00])
    = take (length buf - 1) t @ CHR 0x00 # drop (length t + 1) buf"
proof (cases "length t < length buf")
  case True
  then have "drop (length t) buf = buf ! length t # drop (length t + 1) buf" by (simp add: Cons_nth_drop_Suc)
  with True show ?thesis by (simp add: list_update_append)
next
  case False
  then have l: "length buf \<le> length t" by simp
  have "take (length buf) t = take (length buf - 1) t @ [t ! (length buf - 1)]"
    using l assms by (metis Suc_diff_1 Suc_le_lessD length_greater_0_conv take_Suc_conv_app_nth)
  with l assms show ?thesis by (simp add: list_update_append)
qed

lemma vsnprintf_text:
  assumes "\<forall>b. format_loop fmt args b = Some (emit t b)"
  shows "rt_vsnprintf buf fmt args
    = Some (length t, if buf = [] then [] else take (length buf - 1) t @ CHR 0x00 # drop (length t + 1) buf)"
  using assms finish_text [of buf t] by (auto simp: rt_vsnprintf_def emit_buf)

section \<open>Digits\<close>

lemma small_digit: "k < 10 \<Longrightarrow> isdigit (small_digits ! k) \<and> of_char (small_digits ! k) = (48 + of_nat k :: u32)"
  by (auto simp: small_digits_def isdigit_def less_Suc_eq numeral_eq_Suc nth_Cons' eval_nat_numeral)

lemma atoi_append:
  "\<forall>c \<in> set xs. isdigit c \<Longrightarrow> skip_atoi i (xs @ ys) = skip_atoi (foldl (\<lambda>i c. i * 10 + of_char c - 48) i xs) ys"
  by (induction xs arbitrary: i) simp_all

lemma rev_digits:
  "v \<noteq> 0 \<Longrightarrow> rev (tmp_digits small_digits 10 v) = rev (tmp_digits small_digits 10 (v div 10)) @ [small_digits ! unat (v mod 10)]"
  by (subst tmp_digits.simps) (simp add: divide_def)

lemma mod10: "unat (v mod 10) < 10" for v :: u32
  by (simp add: unat_mod)

lemma decimal_digits:
  "(\<forall>c \<in> set (tmp_digits small_digits 10 v). isdigit c)
    \<and> foldl (\<lambda>i c. i * 10 + of_char c - 48) 0 (rev (tmp_digits small_digits 10 v)) = v"
proof (induction "unat v" arbitrary: v rule: less_induct)
  case less
  show ?case
  proof (cases "v = 0")
    case True
    then show ?thesis by (subst (1 2) tmp_digits.simps) simp
  next
    case False
    then have l: "unat (v div 10) < unat v" using divide_less [of v 10] by (simp add: divide_def)
    note d = small_digit [OF mod10 [of v]]
    have s: "set (tmp_digits small_digits 10 v) = insert (small_digits ! unat (v mod 10)) (set (tmp_digits small_digits 10 (v div 10)))"
      using False by (subst tmp_digits.simps) (simp add: divide_def)
    have e: "v div 10 * 10 + (48 + v mod 10) - 48 = v" using word_mod_div_equality [of v 10] by (simp add: ac_simps)
    have f: "foldl (\<lambda>i c. i * 10 + of_char c - 48) 0 (rev (tmp_digits small_digits 10 v)) = v div 10 * 10 + (48 + v mod 10) - 48"
      using less [OF l] d by (simp add: rev_digits [OF False])
    show ?thesis using less [OF l] d s by (simp only: f e) simp
  qed
qed

lemma tmp_length: "unat v < 10 ^ n \<Longrightarrow> length (tmp_digits ds 10 v) \<le> n"
proof (induction n arbitrary: v)
  case 0
  then have "v = 0" by (simp add: unat_eq_0)
  then show ?case by (subst tmp_digits.simps) simp
next
  case (Suc n)
  show ?case
  proof (cases "v = 0")
    case True
    then show ?thesis by (subst tmp_digits.simps) simp
  next
    case False
    have "unat (v div 10) < 10 ^ n" using Suc.prems by (simp add: unat_div div_less_iff_less_mult)
    with Suc.IH [of "v div 10"] False show ?thesis by (subst tmp_digits.simps) (simp add: divide_def)
  qed
qed

text \<open>The text of an unsigned number: at most ten digits that \<^verbatim>\<open>skip_atoi\<close> reads back.\<close>

definition decimal :: "u32 \<Rightarrow> string" where
  "decimal v = (if v = 0 then ''0'' else rev (tmp_digits small_digits 10 v))"

lemma decimal_reads: "skip_atoi 0 (decimal v) = (v, []) \<and> 1 \<le> length (decimal v) \<and> length (decimal v) \<le> 10"
proof (cases "v = 0")
  case True
  then show ?thesis by (simp add: decimal_def isdigit_def)
next
  case False
  have "tmp_digits small_digits 10 v \<noteq> []" using False by (subst tmp_digits.simps) simp
  moreover have "unat v < 10 ^ 10" using u32_bound [of v] by simp
  ultimately show ?thesis
    using False decimal_digits [of v] tmp_length [of v 10 small_digits] atoi_append [of "rev (tmp_digits small_digits 10 v)" 0 "[]"]
    by (simp add: decimal_def Suc_le_eq)
qed

lemma format_u: "format_loop ''%u'' [PInt v] b = Some (emit (decimal v) b)"
  by (simp add: conversion_def get_width_def get_precision_def get_qualifier_def convert_def print_int_def int_value_def isdigit_def
      print_number_emit number_text_def number_sign_def get_sign_def number_digits_def decimal_def)

lemma format_d:
  "format_loop ''%d'' [PInt v] b = Some (emit (if sint v < 0 then CHR ''-'' # decimal (- v) else decimal v) b)"
  by (simp add: conversion_def get_width_def get_precision_def get_qualifier_def convert_def print_int_def int_value_def isdigit_def
      print_number_emit number_text_def number_sign_def get_sign_def number_digits_def decimal_def)

lemma decimal_reads_on: "skip_atoi 0 (decimal x @ CHR 0x00 # r) = (x, CHR 0x00 # r)"
  using decimal_digits [of x] atoi_append [of "rev (tmp_digits small_digits 10 x)" 0 "CHR 0x00 # r"]
  by (cases "x = 0") (simp_all add: decimal_def isdigit_def)

lemma tmp_digits_base: "tmp_digits ds 8 v = tmp_digits ds 16 v"
proof (induction ds "8 :: nat" v rule: tmp_digits.induct)
  case (1 ds v)
  have "divide v 8 = divide v 16" by (simp add: divide_def)
  with 1 show ?case by (subst (1 2) tmp_digits.simps) simp
qed

lemma print_number_octal: "print_number num 8 w p fl b = print_number num 16 w p fl b"
  unfolding print_number_def tmp_digits_base ..

lemma format_wide: "format_loop ''%127u'' [PInt 7] b = Some (emit (replicate 126 CHR '' '' @ ''7'') b)"
proof -
  have "tmp_digits small_digits 10 7 = [small_digits ! 7]"
    by (subst tmp_digits.simps, simp add: divide_def, subst tmp_digits.simps, simp)
  then show ?thesis
    by (simp add: conversion_def get_width_def get_precision_def get_qualifier_def convert_def print_int_def int_value_def isdigit_def
        print_number_emit number_text_def number_sign_def get_sign_def number_digits_def)
       (simp add: small_digits_def)
qed

section \<open>Properties\<close>


text \<open>C35: A printed integer reads back. With a buffer of at least twelve characters, \<^verbatim>\<open>%u\<close> prints one to ten decimal digits and
  \<^verbatim>\<open>%d\<close> prints the digits of the absolute value, after a minus sign exactly if the argument is negative; skip_atoi on the
  digits returns the value printed and stops at the terminator. This holds for every 32-bit argument, the most negative one
  included.\<close>

theorem printed_numbers_read_back:
  assumes "12 \<le> length buf"
  shows "\<exists>u d rest rest'. length u \<in> {1..10} \<and> length d \<in> {1..10} \<and> skip_atoi 0 (u @ CHR 0x00 # rest) = (v, CHR 0x00 # rest)
     \<and> skip_atoi 0 (d @ CHR 0x00 # rest') = (word_of_int \<bar>sint v\<bar>, CHR 0x00 # rest')
     \<and> rt_snprintf buf ''%u'' [PInt v] = Some (length u, u @ CHR 0x00 # rest)
     \<and> rt_snprintf buf ''%d'' [PInt v]
         = (if sint v < 0 then Some (1 + length d, CHR ''-'' # d @ CHR 0x00 # rest') else Some (length d, d @ CHR 0x00 # rest'))"
proof -
  define w where "w = (if sint v < 0 then - v else v)"
  define g where "g = (if sint v < 0 then CHR ''-'' # decimal w else decimal w)"
  have w: "w = word_of_int \<bar>sint v\<bar>" by (simp add: w_def)
  have b: "buf \<noteq> []" using assms by auto
  have lv: "length (decimal v) \<le> length buf - 1" "length g \<le> length buf - 1"
    using decimal_reads [of v] decimal_reads [of w] assms by (auto simp: g_def)
  have u: "rt_snprintf buf ''%u'' [PInt v] = Some (length (decimal v), decimal v @ CHR 0x00 # drop (length (decimal v) + 1) buf)"
    using vsnprintf_text [of "''%u''" "[PInt v]" "decimal v" buf] format_u [of v] lv b
    by (simp add: rt_snprintf_def)
  have d: "rt_snprintf buf ''%d'' [PInt v] = Some (length g, g @ CHR 0x00 # drop (length g + 1) buf)"
    using vsnprintf_text [of "''%d''" "[PInt v]" g buf] format_d [of v] lv b
    by (simp add: rt_snprintf_def g_def w_def)
  have r: "skip_atoi 0 (decimal x @ CHR 0x00 # r) = (x, CHR 0x00 # r)" for x r by (rule decimal_reads_on)
  show ?thesis
    by (intro exI [of _ "decimal v"] exI [of _ "decimal w"] exI [of _ "drop (length (decimal v) + 1) buf"]
        exI [of _ "drop (length g + 1) buf"])
      (use u d r [of v] r [of w] decimal_reads [of v] decimal_reads [of w] w in \<open>auto simp: g_def\<close>)
qed

theorem printed_numbers_read_back_witness:
  "\<exists>u d rest rest'. length u \<in> {1..10} \<and> length d \<in> {1..10} \<and> skip_atoi 0 (u @ CHR 0x00 # rest) = (0x80000000, CHR 0x00 # rest)
     \<and> skip_atoi 0 (d @ CHR 0x00 # rest') = (word_of_int \<bar>sint (0x80000000 :: u32)\<bar>, CHR 0x00 # rest')
     \<and> rt_snprintf (replicate 12 CHR ''x'') ''%u'' [PInt 0x80000000] = Some (length u, u @ CHR 0x00 # rest)
     \<and> rt_snprintf (replicate 12 CHR ''x'') ''%d'' [PInt 0x80000000]
         = (if sint (0x80000000 :: u32) < 0 then Some (1 + length d, CHR ''-'' # d @ CHR 0x00 # rest')
            else Some (length d, d @ CHR 0x00 # rest'))"
  by (rule printed_numbers_read_back) simp

text \<open>Octal conversions print hexadecimal. For every buffer, argument, width and precision the text of \<^verbatim>\<open>%o\<close> is that of
  \<^verbatim>\<open>%x\<close>, because \<^verbatim>\<open>divide\<close> treats every base but ten as sixteen.\<close>

lemma octal_prints_hex:
  "convert q width precision flags (CHR ''o'' # s) args b = convert q width precision flags (CHR ''x'' # s) args b"
  by (simp add: convert_def print_int_def print_number_octal)

text \<open>A long line on the console ends in a NUL. Whenever the formatted text has 127 characters or more, rt_kprintf passes
  exactly 127 characters to the console device, the first 126 characters of the text and then the terminator, which the
  conversion put in place of the last character.\<close>

lemma kprintf_sends_terminator:
  assumes "length log_buf = 128" and "rt_vsnprintf buf fmt args = Some (n, out)" and "127 \<le> n"
  shows "\<exists>t log_buf'. length t = n \<and> rt_kprintf True log_buf fmt args = Some (log_buf', take 126 t @ [CHR 0x00])"
proof -
  obtain t where t: "\<forall>b. format_loop fmt args b = Some (emit t b)"
    using format_loop_text [of fmt args] assms(2) by (auto simp: rt_vsnprintf_def)
  have n: "n = length t" using vsnprintf_text [OF t, of buf] assms(2) by simp
  have l: "take 127 log_buf \<noteq> []" "length (take 127 log_buf) = 127" using assms(1) by auto
  have "rt_vsnprintf (take 127 log_buf) fmt args = Some (n, take 126 t @ [CHR 0x00])"
    using vsnprintf_text [OF t, of "take 127 log_buf"] l n assms(3) by auto
  then show ?thesis using n assms(3) by (auto simp: rt_kprintf_def Let_def)
qed

end
