(* ===== verification/Uart.thy ===== *)
theory Uart
  imports Gpio "HOL-Library.Sublist"
begin

text \<open>
  The serial driver ls1x-drv/uart/ns16550.c, with which the modem thread talks to its modem. The chip is not described: the
  argument \<open>chip r n\<close> is what the \<open>n\<close>-th read of register \<open>r\<close> returns, so that every behaviour of a chip is some
  \<open>chip\<close>, and the record keeps the list of all accesses. A device is one of the static records, so the checks for
  \<^verbatim>\<open>NULL\<close> are left out. The locale \<open>lossy_fifo\<close> is the contract of the two ring buffers, which drop the oldest data.
\<close>

section \<open>Ring buffers\<close>

abbreviation (input) UART_BUF_SIZE :: nat where "UART_BUF_SIZE \<equiv> 512"

record nbuf =
  Buf :: bytes
  Count :: nat
  pHead :: nat
  pTail :: nat

definition initialize_buffer :: "nbuf \<Rightarrow> nbuf" where
  "initialize_buffer d = d\<lparr>Count := 0, pHead := 0, pTail := 0\<rparr>"

definition enqueue_byte :: "u8 \<Rightarrow> nbuf \<Rightarrow> nbuf" where
  "enqueue_byte c d =
     (let d = d\<lparr>Buf := (Buf d)[pTail d := c], Count := Count d + 1, pTail := pTail d + 1\<rparr>
      in if pTail d \<ge> UART_BUF_SIZE then d\<lparr>pTail := 0\<rparr> else d)"

definition enqueue_to_buffer :: "bytes \<Rightarrow> nbuf \<Rightarrow> nat \<times> nbuf" where
  "enqueue_to_buffer buf d =
     (let d = fold enqueue_byte buf d;
          d = (if Count d > UART_BUF_SIZE then d\<lparr>Count := UART_BUF_SIZE, pHead := pTail d\<rparr> else d)
      in (length buf, d))"

definition dequeue_byte :: "nbuf \<Rightarrow> u8 \<times> nbuf" where
  "dequeue_byte d =
     (let c = Buf d ! pHead d; d = d\<lparr>Count := Count d - 1, pHead := pHead d + 1\<rparr>
      in (c, if pHead d \<ge> UART_BUF_SIZE then d\<lparr>pHead := 0\<rparr> else d))"

fun dequeue_loop :: "nat \<Rightarrow> nbuf \<Rightarrow> bytes \<times> nbuf" where
  "dequeue_loop 0 d = ([], d)"
| "dequeue_loop (Suc n) d = (let (c, d) = dequeue_byte d; (cs, d) = dequeue_loop n d in (c # cs, d))"

definition dequeue_from_buffer :: "nat \<Rightarrow> nbuf \<Rightarrow> bytes \<times> nbuf" where
  "dequeue_from_buffer len d = dequeue_loop (if len < Count d then len else Count d) d"

section \<open>Registers and state\<close>

abbreviation (input) NS16550_RECEIVE_BUFFER :: u8 where "NS16550_RECEIVE_BUFFER \<equiv> 0"
abbreviation (input) NS16550_TRANSMIT_BUFFER :: u8 where "NS16550_TRANSMIT_BUFFER \<equiv> 0"
abbreviation (input) NS16550_INTERRUPT_ENABLE :: u8 where "NS16550_INTERRUPT_ENABLE \<equiv> 1"
abbreviation (input) NS16550_INTERRUPT_ID :: u8 where "NS16550_INTERRUPT_ID \<equiv> 2"
abbreviation (input) NS16550_FIFO_CONTROL :: u8 where "NS16550_FIFO_CONTROL \<equiv> 2"
abbreviation (input) NS16550_LINE_CONTROL :: u8 where "NS16550_LINE_CONTROL \<equiv> 3"
abbreviation (input) NS16550_MODEM_CONTROL :: u8 where "NS16550_MODEM_CONTROL \<equiv> 4"
abbreviation (input) NS16550_LINE_STATUS :: u8 where "NS16550_LINE_STATUS \<equiv> 5"
abbreviation (input) NS16550_MODEM_STATUS :: u8 where "NS16550_MODEM_STATUS \<equiv> 6"
abbreviation (input) NS16550_DIVISIORLATCH_LSB :: u8 where "NS16550_DIVISIORLATCH_LSB \<equiv> 0"
abbreviation (input) NS16550_DIVISIORLATCH_MSB :: u8 where "NS16550_DIVISIORLATCH_MSB \<equiv> 1"
abbreviation (input) NS16550_ENABLE_ALL_INTR :: u8 where "NS16550_ENABLE_ALL_INTR \<equiv> 3"
abbreviation (input) NS16550_DISABLE_ALL_INTR :: u8 where "NS16550_DISABLE_ALL_INTR \<equiv> 0"
abbreviation (input) NS16550_ENABLE_ALL_INTR_EXCEPT_TX :: u8 where "NS16550_ENABLE_ALL_INTR_EXCEPT_TX \<equiv> 1"
abbreviation (input) SP_INTID_NOPEND :: u8 where "SP_INTID_NOPEND \<equiv> 1"
abbreviation (input) SP_INTID_RXRDY :: u8 where "SP_INTID_RXRDY \<equiv> 4"
abbreviation (input) SP_LSR_RDY :: u8 where "SP_LSR_RDY \<equiv> 1"
abbreviation (input) SP_LSR_THOLD :: u8 where "SP_LSR_THOLD \<equiv> 0x20"
abbreviation (input) SP_LINE_DLAB :: u8 where "SP_LINE_DLAB \<equiv> 0x80"
abbreviation (input) SP_MODEM_DTR :: u8 where "SP_MODEM_DTR \<equiv> 1"
abbreviation (input) SP_MODEM_RTS :: u8 where "SP_MODEM_RTS \<equiv> 2"
abbreviation (input) SP_MODEM_IRQ :: u8 where "SP_MODEM_IRQ \<equiv> 8"
abbreviation (input) SP_FIFO_SIZE :: nat where "SP_FIFO_SIZE \<equiv> 16"

type_synonym chip = "u8 \<Rightarrow> nat \<Rightarrow> u8"

datatype access = Rd u8 u8 | Wr u8 u8

record uart =
  BusClock :: u32
  BaudRate :: u32
  bFlowCtrl :: bool
  ModemCtrl :: u8
  bIntrrupt :: bool
  IntrNum :: int
  IntrCtrl :: u32
  IntrMask :: u32
  RxData :: nbuf
  TxData :: nbuf
  initialized :: bool
  opened :: bool
  ConsolePort :: bool
  nreads :: "u8 \<Rightarrow> nat"
  accesses :: "access list"
  u_soc :: soc

definition NS16550_get_r :: "chip \<Rightarrow> u8 \<Rightarrow> uart \<Rightarrow> u8 \<times> uart" where
  "NS16550_get_r chip RegNum u =
     (let ch = chip RegNum (nreads u RegNum)
      in (ch, u\<lparr>nreads := (nreads u)(RegNum := nreads u RegNum + 1), accesses := accesses u @ [Rd RegNum ch]\<rparr>))"

definition NS16550_set_r :: "u8 \<Rightarrow> u8 \<Rightarrow> uart \<Rightarrow> uart" where
  "NS16550_set_r RegNum ch u = u\<lparr>accesses := accesses u @ [Wr RegNum ch]\<rparr>"

definition NS16550_set_interrupt :: "u8 \<Rightarrow> uart \<Rightarrow> uart" where
  "NS16550_set_interrupt irqs u = NS16550_set_r NS16550_INTERRUPT_ENABLE irqs u"

section \<open>Interrupt\<close>

fun fetch_loop :: "chip \<Rightarrow> nat \<Rightarrow> uart \<Rightarrow> bytes \<times> uart" where
  "fetch_loop chip 0 u = ([], u)"
| "fetch_loop chip (Suc n) u =
     (let (lsr, u) = NS16550_get_r chip NS16550_LINE_STATUS u
      in if lsr AND SP_LSR_RDY \<noteq> 0 then
           let (ch, u) = NS16550_get_r chip NS16550_RECEIVE_BUFFER u; (cs, u) = fetch_loop chip n u in (ch # cs, u)
         else ([], u))"

definition send_chars :: "bytes \<Rightarrow> uart \<Rightarrow> uart" where
  "send_chars buf u = fold (NS16550_set_r NS16550_TRANSMIT_BUFFER) buf u"

text \<open>One round of \<^verbatim>\<open>NS16550_interrupt_process\<close>: fetch, transmit, set the enabled interrupts. The second argument is the number of
  characters of the last transmission, which the loop does not reset.\<close>

definition process_fetch :: "chip \<Rightarrow> u8 \<Rightarrow> uart \<Rightarrow> uart" where
  "process_fetch chip status u =
     (if status AND SP_INTID_RXRDY \<noteq> 0 then
        let (buf, u) = fetch_loop chip SP_FIFO_SIZE u in u\<lparr>RxData := snd (enqueue_to_buffer buf (RxData u))\<rparr>
      else u)"

definition process_transmit :: "chip \<Rightarrow> nat \<Rightarrow> uart \<Rightarrow> nat \<times> uart" where
  "process_transmit chip cnt u =
     (if Count (TxData u) > 0 then
        let (lsr, u) = NS16550_get_r chip NS16550_LINE_STATUS u
        in if lsr AND SP_LSR_THOLD \<noteq> 0 then
             let (buf, d) = dequeue_from_buffer SP_FIFO_SIZE (TxData u)
             in (length buf, send_chars buf (u\<lparr>TxData := d\<rparr>))
           else (cnt, u)
      else (cnt, u))"

definition process_round :: "chip \<Rightarrow> nat \<Rightarrow> uart \<Rightarrow> u8 \<times> nat \<times> uart" where
  "process_round chip cnt u =
     (let (status, u) = NS16550_get_r chip NS16550_INTERRUPT_ID u;
          u = process_fetch chip status u;
          (cnt, u) = process_transmit chip cnt u;
          u = NS16550_set_interrupt (if cnt > 0 then NS16550_ENABLE_ALL_INTR else NS16550_ENABLE_ALL_INTR_EXCEPT_TX) u
      in (status, cnt, u))"

partial_function (option) process_loop :: "chip \<Rightarrow> nat \<Rightarrow> uart \<Rightarrow> uart option" where
  "process_loop chip cnt u =
     (let (status, cnt, u) = process_round chip cnt u
      in if status AND SP_INTID_NOPEND = 0 then process_loop chip cnt u else Some u)"

definition NS16550_interrupt_process :: "chip \<Rightarrow> uart \<Rightarrow> uart option" where
  "NS16550_interrupt_process chip u = process_loop chip 0 u"

definition on_intc :: "(intc_regs \<Rightarrow> intc_regs) \<Rightarrow> uart \<Rightarrow> uart" where
  "on_intc f u = u\<lparr>u_soc := (u_soc u)\<lparr>INTC := (INTC (u_soc u))(IntrCtrl u := f (INTC (u_soc u) (IntrCtrl u)))\<rparr>\<rparr>"

definition NS16550_interrupt_handler :: "chip \<Rightarrow> uart \<Rightarrow> uart option" where
  "NS16550_interrupt_handler chip u = do {
     let u = on_intc (\<lambda>r. r\<lparr>INTC_IEN := INTC_IEN r AND NOT (IntrMask u)\<rparr>) u;
     u \<leftarrow> NS16550_interrupt_process chip u;
     Some (on_intc (\<lambda>r. r\<lparr>INTC_CLR := IntrMask u, INTC_IEN := INTC_IEN r OR IntrMask u\<rparr>) u) }"

text \<open>The address of the handler and of the record are arguments.\<close>

definition NS16550_install_irq :: "nat \<Rightarrow> nat \<Rightarrow> uart \<Rightarrow> uart" where
  "NS16550_install_irq isr self u =
     (if bIntrrupt u then
        let u = u\<lparr>u_soc := ls1x_install_irq_handler (IntrNum u) isr self (u_soc u)\<rparr>;
            u = on_intc (\<lambda>r. r\<lparr>INTC_EDGE := INTC_EDGE r AND NOT (IntrMask u), INTC_POL := INTC_POL r OR IntrMask u,
                  INTC_CLR := IntrMask u, INTC_IEN := INTC_IEN r OR IntrMask u\<rparr>) u
        in NS16550_set_interrupt NS16550_DISABLE_ALL_INTR u
      else u)"

definition NS16550_remove_irq :: "nat \<Rightarrow> uart \<Rightarrow> uart" where
  "NS16550_remove_irq default_isr u =
     (if bIntrrupt u then
        let u = NS16550_set_interrupt NS16550_DISABLE_ALL_INTR u;
            u = on_intc (\<lambda>r. r\<lparr>INTC_IEN := INTC_IEN r AND NOT (IntrMask u), INTC_CLR := IntrMask u\<rparr>) u
        in u\<lparr>u_soc := ls1x_remove_irq_handler default_isr (IntrNum u) (u_soc u)\<rparr>
      else u)"

section \<open>Modem lines and line parameters\<close>

definition NS16550_assert_RTS :: "uart \<Rightarrow> uart" where
  "NS16550_assert_RTS u = (let u = u\<lparr>ModemCtrl := ModemCtrl u OR SP_MODEM_RTS\<rparr> in NS16550_set_r NS16550_MODEM_CONTROL (ModemCtrl u) u)"

definition NS16550_negate_RTS :: "uart \<Rightarrow> uart" where
  "NS16550_negate_RTS u =
     (let u = u\<lparr>ModemCtrl := ModemCtrl u AND NOT SP_MODEM_RTS\<rparr> in NS16550_set_r NS16550_MODEM_CONTROL (ModemCtrl u) u)"

definition NS16550_assert_DTR :: "uart \<Rightarrow> uart" where
  "NS16550_assert_DTR u = (let u = u\<lparr>ModemCtrl := ModemCtrl u OR SP_MODEM_DTR\<rparr> in NS16550_set_r NS16550_MODEM_CONTROL (ModemCtrl u) u)"

definition NS16550_negate_DTR :: "uart \<Rightarrow> uart" where
  "NS16550_negate_DTR u =
     (let u = u\<lparr>ModemCtrl := ModemCtrl u AND NOT SP_MODEM_DTR\<rparr> in NS16550_set_r NS16550_MODEM_CONTROL (ModemCtrl u) u)"

definition NS16550_BAUD_DIV :: "u32 \<Rightarrow> u32 \<Rightarrow> u32" where
  "NS16550_BAUD_DIV clock baud_rate = clock div (if baud_rate = 0 then 115200 else baud_rate) div 16"

text \<open>The flags of \<^verbatim>\<open>termios.h\<close> are octal numbers there.\<close>

definition CFLAG_TO_BAUDRATE :: "u32 \<Rightarrow> u32" where
  "CFLAG_TO_BAUDRATE flag =
     (if flag = 9 then 1200 else if flag = 11 then 2400 else if flag = 12 then 4800 else if flag = 13 then 9600
      else if flag = 14 then 19200 else if flag = 15 then 38400 else if flag = 0x1001 then 57600
      else if flag = 0x1002 then 115200 else 9600)"

definition line_ctrl :: "u32 \<Rightarrow> u8" where
  "line_ctrl c_cflag =
     (let lineCtrl = 0;
          lineCtrl = (if c_cflag AND 0x100 \<noteq> 0 then
                        let l = lineCtrl OR 0x08 in if c_cflag AND 0x200 = 0 then l OR 0x00 else l
                      else lineCtrl);
          lineCtrl = (if c_cflag AND 0x30 \<noteq> 0 then
                        let cs = c_cflag AND 0x30
                        in if cs = 0 then lineCtrl OR 0 else if cs = 0x10 then lineCtrl OR 1 else if cs = 0x20 then lineCtrl OR 2
                           else if cs = 0x30 then lineCtrl OR 3 else lineCtrl
                      else lineCtrl OR 3)
      in if c_cflag AND 0x40 \<noteq> 0 then lineCtrl OR 0x04 else lineCtrl)"

definition set_divisor :: "u32 \<Rightarrow> u8 \<Rightarrow> uart \<Rightarrow> uart" where
  "set_divisor divisor lineCtrl u =
     (let u = NS16550_set_r NS16550_LINE_CONTROL SP_LINE_DLAB u;
          u = NS16550_set_r NS16550_DIVISIORLATCH_LSB (ucast (divisor AND 0xff)) u;
          u = NS16550_set_r NS16550_DIVISIORLATCH_MSB (ucast (drop_bit 8 divisor AND 0xff)) u
      in NS16550_set_r NS16550_LINE_CONTROL lineCtrl u)"

definition clear_status :: "chip \<Rightarrow> uart \<Rightarrow> uart" where
  "clear_status chip u =
     (let u = snd (NS16550_get_r chip NS16550_LINE_STATUS u);
          u = snd (NS16550_get_r chip NS16550_RECEIVE_BUFFER u)
      in snd (NS16550_get_r chip NS16550_MODEM_STATUS u))"

definition NS16550_set_attributes :: "chip \<Rightarrow> u32 \<Rightarrow> uart \<Rightarrow> uart" where
  "NS16550_set_attributes chip c_cflag u =
     (let baud_requested = c_cflag AND 0x100f;
          baud_requested = (if baud_requested = 0 then 13 else baud_requested);
          baud_requested = CFLAG_TO_BAUDRATE baud_requested;
          divisor = NS16550_BAUD_DIV (BusClock u) baud_requested;
          lineCtrl = line_ctrl c_cflag;
          (irq_mask, u) = NS16550_get_r chip NS16550_INTERRUPT_ENABLE u;
          u = set_divisor divisor lineCtrl u;
          u = NS16550_set_r NS16550_INTERRUPT_ENABLE irq_mask u
      in clear_status chip u)"

section \<open>Driver entry points\<close>

definition NS16550_init :: "chip \<Rightarrow> u32 \<Rightarrow> u32 \<Rightarrow> uart \<Rightarrow> int \<times> uart" where
  "NS16550_init chip bus_frequency arg u =
     (if initialized u then (0, u)
      else
        let u = u\<lparr>BusClock := bus_frequency\<rparr>;
            u = (if arg \<noteq> 0 then u\<lparr>BaudRate := arg\<rparr> else u);
            divisor = NS16550_BAUD_DIV (BusClock u) (BaudRate u);
            u = NS16550_set_r NS16550_LINE_CONTROL 0 u;
            u = NS16550_set_interrupt NS16550_DISABLE_ALL_INTR u;
            u = set_divisor divisor 3 u;
            u = NS16550_set_r NS16550_FIFO_CONTROL 1 u;
            u = NS16550_set_r NS16550_FIFO_CONTROL 7 u;
            u = NS16550_set_interrupt NS16550_DISABLE_ALL_INTR u;
            u = u\<lparr>ModemCtrl := SP_MODEM_IRQ\<rparr>;
            u = NS16550_set_r NS16550_MODEM_CONTROL SP_MODEM_IRQ u;
            u = clear_status chip u;
            u = (if ConsolePort u then u\<lparr>bIntrrupt := False\<rparr> else u)
        in (0, u\<lparr>initialized := True\<rparr>))"

definition NS16550_open :: "chip \<Rightarrow> nat \<Rightarrow> nat \<Rightarrow> u32 option \<Rightarrow> uart \<Rightarrow> int \<times> uart" where
  "NS16550_open chip isr self t u =
     (if opened u then (0, u)
      else
        let u = (if bFlowCtrl u then NS16550_assert_DTR u else u);
            u = (case t of None \<Rightarrow> u | Some c_cflag \<Rightarrow> NS16550_set_attributes chip c_cflag u);
            u = u\<lparr>RxData := initialize_buffer (RxData u), TxData := initialize_buffer (TxData u)\<rparr>;
            u = (if bIntrrupt u then
                   NS16550_set_interrupt NS16550_ENABLE_ALL_INTR_EXCEPT_TX (NS16550_install_irq isr self u)
                 else u)
        in (0, u\<lparr>opened := True\<rparr>))"

definition NS16550_close :: "nat \<Rightarrow> uart \<Rightarrow> int \<times> uart" where
  "NS16550_close default_isr u =
     (let u = (if bFlowCtrl u then NS16550_negate_DTR u else u);
          u = NS16550_set_interrupt NS16550_DISABLE_ALL_INTR u;
          u = (if bIntrrupt u then NS16550_remove_irq default_isr u else u)
      in (0, u\<lparr>opened := False\<rparr>))"

text \<open>Polled output: the inner loop waits for the transmitter, then the outer one tries again.\<close>

partial_function (option) wait_thold :: "chip \<Rightarrow> uart \<Rightarrow> uart option" where
  "wait_thold chip u =
     (let (status, u) = NS16550_get_r chip NS16550_LINE_STATUS u
      in if status AND SP_LSR_THOLD = 0 then wait_thold chip u else Some u)"

partial_function (option) output_loop :: "chip \<Rightarrow> u8 \<Rightarrow> uart \<Rightarrow> uart option" where
  "output_loop chip ch u =
     (let (status, u) = NS16550_get_r chip NS16550_LINE_STATUS u
      in if status AND SP_LSR_THOLD \<noteq> 0 then Some (NS16550_set_r NS16550_TRANSMIT_BUFFER ch u)
         else do { u \<leftarrow> wait_thold chip u; output_loop chip ch u })"

definition NS16550_output_char_polled :: "chip \<Rightarrow> u8 \<Rightarrow> uart \<Rightarrow> uart option" where
  "NS16550_output_char_polled chip ch u = do {
     let (irq_mask, u) = NS16550_get_r chip NS16550_INTERRUPT_ENABLE u;
     let u = NS16550_set_interrupt NS16550_DISABLE_ALL_INTR u;
     u \<leftarrow> output_loop chip ch u;
     Some (NS16550_set_r NS16550_INTERRUPT_ENABLE irq_mask u) }"

text \<open>Interrupt-driven output in its two parts: what is sent at once, and what goes to the buffer with the interrupts off. Between
  them the interrupt handler can run.\<close>

definition write_now :: "chip \<Rightarrow> bytes \<Rightarrow> uart \<Rightarrow> nat \<times> uart" where
  "write_now chip buf u =
     (let (lsr, u) = NS16550_get_r chip NS16550_LINE_STATUS u
      in if lsr AND SP_LSR_THOLD \<noteq> 0 then
           let sent = (if length buf \<le> SP_FIFO_SIZE then length buf else SP_FIFO_SIZE);
               u = send_chars (take sent buf) u
           in (sent, NS16550_set_interrupt (if sent > 0 then NS16550_ENABLE_ALL_INTR else NS16550_ENABLE_ALL_INTR_EXCEPT_TX) u)
         else (0, u))"

definition write_rest :: "bytes \<Rightarrow> nat \<Rightarrow> uart \<Rightarrow> nat \<times> uart" where
  "write_rest buf sent u =
     (if sent < length buf then
        let (n, d) = enqueue_to_buffer (drop sent buf) (TxData u) in (sent + n, u\<lparr>TxData := d\<rparr>)
      else (sent, u))"

text \<open>\<open>irq\<close> is what the interrupts between the two parts do.\<close>

definition NS16550_write_string_int :: "chip \<Rightarrow> (uart \<Rightarrow> uart option) \<Rightarrow> bytes \<Rightarrow> uart \<Rightarrow> (nat \<times> uart) option" where
  "NS16550_write_string_int chip irq buf u = do {
     let (sent, u) = write_now chip buf u;
     u \<leftarrow> irq u;
     Some (write_rest buf sent u) }"

fun NS16550_write_string_polled :: "chip \<Rightarrow> bytes \<Rightarrow> uart \<Rightarrow> (nat \<times> uart) option" where
  "NS16550_write_string_polled chip [] u = Some (0, u)"
| "NS16550_write_string_polled chip (c # buf) u = do {
     u \<leftarrow> NS16550_output_char_polled chip c u;
     (n, u) \<leftarrow> NS16550_write_string_polled chip buf u;
     Some (n + 1, u) }"

definition NS16550_inbyte_nonblocking_polled :: "chip \<Rightarrow> uart \<Rightarrow> u8 option \<times> uart" where
  "NS16550_inbyte_nonblocking_polled chip u =
     (let (status, u) = NS16550_get_r chip NS16550_LINE_STATUS u
      in if status AND SP_LSR_RDY \<noteq> 0 then
           let (ch, u) = NS16550_get_r chip NS16550_RECEIVE_BUFFER u in (Some ch, u)
         else (None, u))"

partial_function (option) NS16550_inbyte_blocking_polled :: "chip \<Rightarrow> uart \<Rightarrow> (u8 \<times> uart) option" where
  "NS16550_inbyte_blocking_polled chip u =
     (let (status, u) = NS16550_get_r chip NS16550_LINE_STATUS u
      in if status AND SP_LSR_RDY \<noteq> 0 then Some (NS16550_get_r chip NS16550_RECEIVE_BUFFER u)
         else NS16550_inbyte_blocking_polled chip u)"

text \<open>The part of \<^verbatim>\<open>NS16550_read\<close> with interrupts: the bytes it reads. \<open>irqs\<close> are the effects of the interrupts during the delays of a millisecond, one for each round.\<close>

fun read_loop :: "(uart \<Rightarrow> uart option) list \<Rightarrow> nat \<Rightarrow> bytes \<Rightarrow> uart \<Rightarrow> (bytes \<times> uart) option" where
  "read_loop [] sz got u = Some (got, u)"
| "read_loop (irq # irqs) sz got u =
     (if length got < sz then do {
        u \<leftarrow> irq u;
        let (cs, d) = dequeue_from_buffer (sz - length got) (RxData u);
        read_loop irqs sz (got @ cs) (u\<lparr>RxData := d\<rparr>) }
      else Some (got, u))"

definition read_int :: "(uart \<Rightarrow> uart option) list \<Rightarrow> int \<Rightarrow> nat \<Rightarrow> uart \<Rightarrow> (bytes \<times> uart) option" where
  "read_int irqs timeout sz u =
     (let (got, d) = dequeue_from_buffer sz (RxData u); u = u\<lparr>RxData := d\<rparr>
      in read_loop (take (nat timeout) irqs) sz got u)"

text \<open>The polled parts.\<close>

fun read_nonblocking :: "chip \<Rightarrow> nat \<Rightarrow> uart \<Rightarrow> bytes \<times> uart" where
  "read_nonblocking chip 0 u = ([], u)"
| "read_nonblocking chip (Suc n) u =
     (case NS16550_inbyte_nonblocking_polled chip u of
        (None, u) \<Rightarrow> ([], u)
      | (Some c, u) \<Rightarrow> let (cs, u) = read_nonblocking chip n u in (c # cs, u))"

fun read_blocking :: "chip \<Rightarrow> nat \<Rightarrow> uart \<Rightarrow> (bytes \<times> uart) option" where
  "read_blocking chip 0 u = Some ([], u)"
| "read_blocking chip (Suc n) u = do {
     (c, u) \<leftarrow> NS16550_inbyte_blocking_polled chip u;
     (cs, u) \<leftarrow> read_blocking chip n u;
     Some (c # cs, u) }"

text \<open>The first byte of the caller's buffer is set to 0xff in case nothing is read; a polled read sets the byte after the last one.\<close>

definition NS16550_read :: "chip \<Rightarrow> (uart \<Rightarrow> uart option) list \<Rightarrow> int \<Rightarrow> bytes \<Rightarrow> nat \<Rightarrow> uart \<Rightarrow> (nat \<times> bytes \<times> uart) option" where
  "NS16550_read chip irqs timeout buf sz u =
     (if bIntrrupt u then do {
        (got, u) \<leftarrow> read_int irqs timeout sz u;
        Some (length got, memcpy_at 0 got (buf[0 := 0xff]), u) }
      else if timeout = 0 then
        let (got, u) = read_nonblocking chip sz u;
            buf = memcpy_at 0 got buf
        in Some (length got, if length got < sz then buf[length got := 0xff] else buf, u)
      else do {
        (got, u) \<leftarrow> read_blocking chip sz u;
        Some (sz, memcpy_at 0 got buf, u) })"

definition NS16550_write :: "chip \<Rightarrow> (uart \<Rightarrow> uart option) \<Rightarrow> bytes \<Rightarrow> uart \<Rightarrow> (nat \<times> uart) option" where
  "NS16550_write chip irq buf u =
     (if bIntrrupt u then NS16550_write_string_int chip irq buf u
      else NS16550_write_string_polled chip buf u)"

datatype uart_cmd = IOCTL_NS16550_SET_MODE "u32 option" | IOCTL_NS16550_USE_IRQ | IOCTL_OTHER

definition NS16550_ioctl :: "chip \<Rightarrow> uart_cmd \<Rightarrow> uart \<Rightarrow> int \<times> bool option \<times> uart" where
  "NS16550_ioctl chip cmd u =
     (case cmd of
        IOCTL_NS16550_SET_MODE (Some c_cflag) \<Rightarrow> (0, None, NS16550_set_attributes chip c_cflag u)
      | IOCTL_NS16550_SET_MODE None \<Rightarrow> (0, None, u)
      | IOCTL_NS16550_USE_IRQ \<Rightarrow> (0, Some (bIntrrupt u), u)
      | IOCTL_OTHER \<Rightarrow> (0, None, u))"

text \<open>The port of the modem, as it is before \<^verbatim>\<open>NS16550_init\<close>.\<close>

definition ls1b_UART3 :: "soc \<Rightarrow> uart" where
  "ls1b_UART3 s =
     (let b = \<lparr>Buf = replicate UART_BUF_SIZE 0, Count = 0, pHead = 0, pTail = 0\<rparr>
      in \<lparr>BusClock = 0, BaudRate = 115200, bFlowCtrl = False, ModemCtrl = 0, bIntrrupt = True, IntrNum = 45, IntrCtrl = LS1B_INTC0_BASE,
          IntrMask = push_bit 5 1, RxData = b, TxData = b, initialized = False, opened = False, ConsolePort = False,
          nreads = \<lambda>_. 0, accesses = [], u_soc = s\<rparr>)"

section \<open>Buffers that drop the oldest data\<close>

definition newest :: "nat \<Rightarrow> 'a list \<Rightarrow> 'a list" where
  "newest n xs = drop (length xs - n) xs"

lemma newest_short [simp]: "length xs \<le> n \<Longrightarrow> newest n xs = xs"
  by (simp add: newest_def)

lemma length_newest [simp]: "length (newest n xs) = min n (length xs)"
  by (simp add: newest_def)

lemma newest_newest [simp]: "newest n (newest n xs @ ys) = newest n (xs @ ys)"
  by (cases "length xs \<le> n") (simp_all add: newest_def add.commute)

lemma suffix_newest: "suffix (newest n xs) xs"
  by (simp add: newest_def suffix_drop)

locale lossy_fifo =
  fixes ok :: "'q \<Rightarrow> bool" and contents :: "'q \<Rightarrow> 'a list" and put :: "'a list \<Rightarrow> 'q \<Rightarrow> 'q" and get :: "nat \<Rightarrow> 'q \<Rightarrow> 'a list \<times> 'q"
    and cap :: nat
  assumes put_ok: "ok q \<Longrightarrow> ok (put xs q)"
    and put_contents: "ok q \<Longrightarrow> contents (put xs q) = newest cap (contents q @ xs)"
    and get_ok: "ok q \<Longrightarrow> ok (snd (get n q))"
    and get_contents: "ok q \<Longrightarrow> contents q = fst (get n q) @ contents (snd (get n q))"
    and get_length: "ok q \<Longrightarrow> length (fst (get n q)) = min n (length (contents q))"
begin

text \<open>What was put and what was taken out: the data taken out and those still there are in the order in which they were put, the
  data still there are the last ones that were put, and nothing is lost as long as no more was put than there is room for.\<close>

definition stream :: "'a list \<Rightarrow> 'a list \<Rightarrow> 'q \<Rightarrow> bool" where
  "stream ins outs q \<longleftrightarrow> ok q \<and> subseq (outs @ contents q) ins \<and> suffix (contents q) ins \<and> (length ins \<le> cap \<longrightarrow> outs @ contents q = ins)"

lemma stream_put:
  assumes "stream ins outs q"
  shows "stream (ins @ xs) outs (put xs q)"
proof -
  have o: "ok q" and s: "subseq (outs @ contents q) ins" and f: "suffix (contents q) ins"
    and l: "length ins \<le> cap \<Longrightarrow> outs @ contents q = ins" using assms by (auto simp: stream_def)
  have c: "contents (put xs q) = newest cap (contents q @ xs)" by (rule put_contents [OF o])
  have n: "subseq (newest cap (contents q @ xs)) (contents q @ xs)" by (rule suffix_imp_subseq) (rule suffix_newest)
  have "subseq (outs @ contents (put xs q)) (outs @ contents q @ xs)" unfolding c using n by (simp add: subseq_append')
  also have "subseq (outs @ contents q @ xs) (ins @ xs)" using s by (metis append_assoc list_emb_append_mono subseq_order.refl)
  finally have 1: "subseq (outs @ contents (put xs q)) (ins @ xs)" .
  have 2: "suffix (contents (put xs q)) (ins @ xs)"
    unfolding c using suffix_newest [of cap "contents q @ xs"] f by (meson suffix_order.trans same_suffix_suffix)
  have 3: "outs @ contents (put xs q) = ins @ xs" if "length (ins @ xs) \<le> cap"
  proof -
    have "outs @ contents q = ins" using l that by simp
    moreover from this have "length (contents q @ xs) \<le> cap" using that by auto
    ultimately show ?thesis unfolding c by (simp del: length_append)
  qed
  show ?thesis using put_ok [OF o] 1 2 3 unfolding stream_def by blast
qed

lemma stream_get:
  assumes "stream ins outs q" and "get n q = (xs, q')"
  shows "stream ins (outs @ xs) q'"
  using assms get_ok [of q n] get_contents [of q n]
  by (auto simp: stream_def dest: suffix_appendD)

end

section \<open>The rings are such buffers\<close>

definition ring_ok :: "nbuf \<Rightarrow> bool" where
  "ring_ok d \<longleftrightarrow> length (Buf d) = UART_BUF_SIZE \<and> pHead d < UART_BUF_SIZE \<and> Count d \<le> UART_BUF_SIZE \<and> pTail d = (pHead d + Count d) mod UART_BUF_SIZE"

definition ring_contents :: "nbuf \<Rightarrow> bytes" where
  "ring_contents d = map (\<lambda>i. Buf d ! ((pHead d + i) mod UART_BUF_SIZE)) [0..<Count d]"

text \<open>While characters are put in, the count may exceed the size: \<open>ys\<close> is all that was put since the head, of which the last
  \<^verbatim>\<open>UART_BUF_SIZE\<close> are in the array.\<close>

definition filling :: "bytes \<Rightarrow> nbuf \<Rightarrow> bool" where
  "filling ys d \<longleftrightarrow> length (Buf d) = UART_BUF_SIZE \<and> pHead d < UART_BUF_SIZE \<and> Count d = length ys
     \<and> pTail d = (pHead d + length ys) mod UART_BUF_SIZE
     \<and> (\<forall>i < length ys. length ys \<le> i + UART_BUF_SIZE \<longrightarrow> Buf d ! ((pHead d + i) mod UART_BUF_SIZE) = ys ! i)"

lemma mod_diff_neq: "i < j \<Longrightarrow> j < i + n \<Longrightarrow> (h + i) mod n \<noteq> (h + j) mod n" for h i j n :: nat
proof
  assume "i < j" "j < i + n" "(h + i) mod n = (h + j) mod n"
  then have "n dvd j - i" by (metis add_diff_cancel_left diff_add_inverse2 less_imp_le mod_eq_dvd_iff_nat nat_add_left_cancel_le)
  with \<open>i < j\<close> \<open>j < i + n\<close> show False using nat_dvd_not_less by force
qed

lemma filling_byte:
  assumes "filling ys d"
  shows "filling (ys @ [c]) (enqueue_byte c d)"
proof -
  have l: "length (Buf d) = 512" and t: "pTail d = (pHead d + length ys) mod 512" and h: "pHead d < 512" and n: "Count d = length ys"
    and a: "\<And>i. i < length ys \<Longrightarrow> length ys \<le> i + 512 \<Longrightarrow> Buf d ! ((pHead d + i) mod 512) = ys ! i"
    using assms by (auto simp: filling_def)
  have b: "(Buf d)[pTail d := c] ! ((pHead d + i) mod 512) = (ys @ [c]) ! i" if "i < Suc (length ys)" "Suc (length ys) \<le> i + 512" for i
  proof (cases "i = length ys")
    case True
    then show ?thesis using l t by simp
  next
    case False
    then have "(pHead d + i) mod 512 \<noteq> pTail d" using that mod_diff_neq [of i "length ys" 512 "pHead d"] t by simp
    then show ?thesis using a [of i] that False by (simp add: nth_append)
  qed
  have "pTail (enqueue_byte c d) = Suc (pTail d) mod 512"
    using t by (auto simp: enqueue_byte_def Let_def le_Suc_eq mod_Suc)
  then have t': "pTail (enqueue_byte c d) = (pHead d + Suc (length ys)) mod 512" unfolding t by (simp add: mod_Suc_eq)
  have e: "Buf (enqueue_byte c d) = (Buf d)[pTail d := c]" "Count (enqueue_byte c d) = Suc (Count d)" "pHead (enqueue_byte c d) = pHead d"
    by (simp_all add: enqueue_byte_def Let_def)
  show ?thesis unfolding filling_def e using l h n t' b by simp
qed

lemma filling_bytes: "filling ys d \<Longrightarrow> filling (ys @ xs) (fold enqueue_byte xs d)"
proof (induction xs arbitrary: ys d)
  case (Cons c xs)
  from Cons.IH [OF filling_byte [OF Cons.prems, of c]] show ?case by simp
qed simp

lemma ring_filling: "ring_ok d \<Longrightarrow> filling (ring_contents d) d"
  by (simp add: ring_ok_def filling_def ring_contents_def)

lemma filling_ring: "filling ys d \<Longrightarrow> length ys \<le> 512 \<Longrightarrow> ring_ok d \<and> ring_contents d = ys"
  by (auto simp: ring_ok_def filling_def ring_contents_def intro!: nth_equalityI)

lemma filling_cut:
  assumes "filling ys d" and "512 < length ys"
  shows "ring_ok (d\<lparr>Count := 512, pHead := pTail d\<rparr>) \<and> ring_contents (d\<lparr>Count := 512, pHead := pTail d\<rparr>) = newest 512 ys"
proof -
  have t: "pTail d = (pHead d + length ys) mod 512" and a: "\<And>i. i < length ys \<Longrightarrow> length ys \<le> i + 512 \<Longrightarrow> Buf d ! ((pHead d + i) mod 512) = ys ! i"
    using assms by (auto simp: filling_def)
  have "Buf d ! ((pTail d + i) mod 512) = newest 512 ys ! i" if "i < 512" for i
  proof -
    have "(pTail d + i) mod 512 = (pHead d + length ys + i) mod 512" unfolding t by (simp add: mod_add_left_eq)
    also have "pHead d + length ys + i = pHead d + (length ys - 512 + i) + 512" using assms(2) by simp
    finally have "(pTail d + i) mod 512 = (pHead d + (length ys - 512 + i)) mod 512" by simp
    then show ?thesis using a [of "length ys - 512 + i"] that assms(2) by (simp add: newest_def)
  qed
  then have "ring_contents (d\<lparr>Count := 512, pHead := pTail d\<rparr>) = newest 512 ys"
    using assms(2) by (auto simp: ring_contents_def intro!: nth_equalityI)
  moreover have "ring_ok (d\<lparr>Count := 512, pHead := pTail d\<rparr>)" using assms(1) t by (simp add: ring_ok_def filling_def)
  ultimately show ?thesis by blast
qed

lemma enqueue_ring:
  assumes "ring_ok d"
  shows "ring_ok (snd (enqueue_to_buffer xs d)) \<and> ring_contents (snd (enqueue_to_buffer xs d)) = newest 512 (ring_contents d @ xs)"
proof -
  let ?ys = "ring_contents d @ xs" and ?d = "fold enqueue_byte xs d"
  have f: "filling ?ys ?d" by (rule filling_bytes [OF ring_filling [OF assms]])
  then have c: "Count ?d = length ?ys" by (simp add: filling_def)
  show ?thesis
  proof (cases "512 < length ?ys")
    case True
    with filling_cut [OF f] c show ?thesis by (simp add: enqueue_to_buffer_def Let_def)
  next
    case False
    with filling_ring [OF f] c show ?thesis by (simp add: enqueue_to_buffer_def Let_def)
  qed
qed

lemma dequeue_ring_byte:
  assumes "ring_ok d" and "0 < Count d"
  shows "ring_ok (snd (dequeue_byte d)) \<and> ring_contents d = fst (dequeue_byte d) # ring_contents (snd (dequeue_byte d))
    \<and> Count (snd (dequeue_byte d)) = Count d - 1"
proof -
  obtain n where n: "Count d = Suc n" using assms(2) gr0_implies_Suc by blast
  have h: "pHead (snd (dequeue_byte d)) = Suc (pHead d) mod 512"
    using assms(1) by (cases "pHead d = 511") (auto simp: dequeue_byte_def Let_def ring_ok_def)
  have e: "Buf (snd (dequeue_byte d)) = Buf d" "Count (snd (dequeue_byte d)) = n" "pTail (snd (dequeue_byte d)) = pTail d"
    "fst (dequeue_byte d) = Buf d ! pHead d"
    by (simp_all add: dequeue_byte_def Let_def n)
  have "ring_contents d = Buf d ! pHead d # map (\<lambda>i. Buf d ! ((pHead d + Suc i) mod 512)) [0..<n]"
    using assms(1) by (simp add: ring_contents_def n ring_ok_def upt_conv_Cons map_Suc_upt [symmetric] del: upt_Suc)
  also have "map (\<lambda>i. Buf d ! ((pHead d + Suc i) mod 512)) [0..<n] = ring_contents (snd (dequeue_byte d))"
    by (simp add: ring_contents_def e h mod_add_left_eq)
  finally show ?thesis using assms(1) by (simp add: ring_ok_def e h n mod_add_left_eq)
qed

lemma dequeue_ring_loop:
  "ring_ok d \<Longrightarrow> n \<le> Count d \<Longrightarrow>
    ring_ok (snd (dequeue_loop n d)) \<and> ring_contents d = fst (dequeue_loop n d) @ ring_contents (snd (dequeue_loop n d))
    \<and> length (fst (dequeue_loop n d)) = n"
proof (induction n arbitrary: d)
  case (Suc n)
  from Suc.prems have b: "ring_ok (snd (dequeue_byte d))" "ring_contents d = fst (dequeue_byte d) # ring_contents (snd (dequeue_byte d))"
    "Count (snd (dequeue_byte d)) = Count d - 1" using dequeue_ring_byte [of d] by auto
  with Suc.IH [of "snd (dequeue_byte d)"] Suc.prems show ?case by (simp add: case_prod_beta Let_def)
qed simp

lemma ring_length [simp]: "length (ring_contents d) = Count d"
  by (simp add: ring_contents_def)

lemma dequeue_ring:
  "ring_ok d \<Longrightarrow> ring_ok (snd (dequeue_from_buffer n d)) \<and> ring_contents d = fst (dequeue_from_buffer n d) @ ring_contents (snd (dequeue_from_buffer n d))
    \<and> length (fst (dequeue_from_buffer n d)) = min n (Count d)"
  using dequeue_ring_loop [of d n] dequeue_ring_loop [of d "Count d"] by (simp add: dequeue_from_buffer_def)

interpretation ring: lossy_fifo ring_ok ring_contents "\<lambda>xs d. snd (enqueue_to_buffer xs d)" dequeue_from_buffer UART_BUF_SIZE
  using enqueue_ring dequeue_ring by unfold_locales auto

section \<open>What the interrupt moves\<close>

fun received :: "access list \<Rightarrow> bytes" where
  "received [] = []"
| "received (Rd r v # as) = (if r = NS16550_RECEIVE_BUFFER then v # received as else received as)"
| "received (Wr r v # as) = received as"

fun transmitted :: "access list \<Rightarrow> bytes" where
  "transmitted [] = []"
| "transmitted (Wr r v # as) = (if r = NS16550_TRANSMIT_BUFFER then v # transmitted as else transmitted as)"
| "transmitted (Rd r v # as) = transmitted as"

lemma received_append [simp]: "received (as @ bs) = received as @ received bs"
  by (induction as rule: received.induct) simp_all

lemma transmitted_append [simp]: "transmitted (as @ bs) = transmitted as @ transmitted bs"
  by (induction as rule: transmitted.induct) simp_all

text \<open>The interrupts that are enabled: the last value written to the enable register.\<close>

definition enabled_irqs :: "uart \<Rightarrow> u8 option" where
  "enabled_irqs u = fold (\<lambda>a e. case a of Wr r v \<Rightarrow> if r = NS16550_INTERRUPT_ENABLE then Some v else e | Rd r v \<Rightarrow> e) (accesses u) None"

text \<open>A step of the driver that moves characters from the chip to the receive buffer and from the transmit buffer to the chip.\<close>

definition moves :: "uart \<Rightarrow> uart \<Rightarrow> bool" where
  "moves u u' \<longleftrightarrow> (\<exists>as. accesses u' = accesses u @ as \<and> ring_ok (RxData u') \<and> ring_ok (TxData u')
     \<and> ring_contents (RxData u') = newest UART_BUF_SIZE (ring_contents (RxData u) @ received as)
     \<and> ring_contents (TxData u) = transmitted as @ ring_contents (TxData u'))
     \<and> bIntrrupt u' = bIntrrupt u \<and> opened u' = opened u \<and> ConsolePort u' = ConsolePort u \<and> IntrMask u' = IntrMask u \<and> IntrCtrl u' = IntrCtrl u"

definition rings_ok :: "uart \<Rightarrow> bool" where
  "rings_ok u \<longleftrightarrow> ring_ok (RxData u) \<and> ring_ok (TxData u)"

lemma moves_trans: "moves u v \<Longrightarrow> moves v w \<Longrightarrow> moves u w"
  unfolding moves_def by (elim exE conjE, intro conjI exI) auto

lemma moves_rings: "moves u v \<Longrightarrow> rings_ok v"
  by (auto simp: moves_def rings_ok_def)

lemma ring_full: "ring_ok d \<Longrightarrow> Count d \<le> 512"
  by (simp add: ring_ok_def)

lemma get_r_moves: "rings_ok u \<Longrightarrow> r \<noteq> NS16550_RECEIVE_BUFFER \<Longrightarrow> moves u (snd (NS16550_get_r chip r u))"
  by (simp add: moves_def NS16550_get_r_def Let_def rings_ok_def ring_full)

lemma set_r_moves: "rings_ok u \<Longrightarrow> r \<noteq> NS16550_TRANSMIT_BUFFER \<Longrightarrow> moves u (NS16550_set_r r v u)"
  by (simp add: moves_def NS16550_set_r_def rings_ok_def ring_full)

text \<open>The loops change the accesses only.\<close>

lemma fetch_loop_accesses:
  "fetch_loop chip n u = (bs, u') \<Longrightarrow>
    \<exists>f as. u' = u\<lparr>nreads := f, accesses := accesses u @ as\<rparr> \<and> received as = bs \<and> transmitted as = []"
proof (induction n arbitrary: u bs u')
  case 0
  then show ?case by (intro exI [of _ "nreads u"] exI [of _ "[]"]) simp
next
  case (Suc n)
  let ?u1 = "snd (NS16550_get_r chip 5 u)" and ?st = "fst (NS16550_get_r chip 5 u)"
  have a1: "?u1 = u\<lparr>nreads := nreads ?u1, accesses := accesses u @ [Rd 5 ?st]\<rparr>" by (simp add: NS16550_get_r_def Let_def)
  show ?case
  proof (cases "?st AND 1 = 0")
    case True
    with Suc.prems have "bs = []" "u' = ?u1" by (auto simp: case_prod_beta Let_def)
    then show ?thesis using a1 by (intro exI [of _ "nreads ?u1"] exI [of _ "[Rd 5 ?st]"]) simp
  next
    case False
    let ?u2 = "snd (NS16550_get_r chip 0 ?u1)" and ?ch = "fst (NS16550_get_r chip 0 ?u1)"
    have a2: "?u2 = ?u1\<lparr>nreads := nreads ?u2, accesses := accesses ?u1 @ [Rd 0 ?ch]\<rparr>" by (simp add: NS16550_get_r_def Let_def)
    define cs where "cs = fst (fetch_loop chip n ?u2)"
    have cs: "fetch_loop chip n ?u2 = (cs, u')" "bs = ?ch # cs"
      using Suc.prems False by (auto simp: cs_def case_prod_beta Let_def prod_eq_iff)
    from Suc.IH [OF cs(1)] obtain f as where
      i: "u' = ?u2\<lparr>nreads := f, accesses := accesses ?u2 @ as\<rparr>" "received as = cs" "transmitted as = []" by blast
    show ?thesis
      by (intro exI [of _ f] exI [of _ "Rd 5 ?st # Rd 0 ?ch # as"]) (use i cs(2) in \<open>simp add: NS16550_get_r_def Let_def\<close>)
  qed
qed

lemma send_chars_accesses: "send_chars buf u = u\<lparr>accesses := accesses u @ map (Wr NS16550_TRANSMIT_BUFFER) buf\<rparr>"
  unfolding send_chars_def by (induction buf arbitrary: u) (simp_all add: NS16550_set_r_def)

lemma wr_bytes [simp]: "transmitted (map (Wr NS16550_TRANSMIT_BUFFER) buf) = buf" "received (map (Wr r) buf) = []"
  by (induction buf) simp_all

lemma process_fetch_moves:
  assumes "rings_ok u"
  shows "moves u (process_fetch chip status u)"
proof (cases "status AND SP_INTID_RXRDY = 0")
  case True
  with assms show ?thesis by (simp add: process_fetch_def moves_def rings_ok_def ring_full)
next
  case False
  obtain buf v where v: "fetch_loop chip 16 u = (buf, v)" by (cases "fetch_loop chip 16 u") auto
  from fetch_loop_accesses [OF this] obtain f as
    where "v = u\<lparr>nreads := f, accesses := accesses u @ as\<rparr>" "received as = buf" "transmitted as = []" by blast
  moreover have "process_fetch chip status u = v\<lparr>RxData := snd (enqueue_to_buffer buf (RxData v))\<rparr>" using False v by (simp add: process_fetch_def)
  ultimately show ?thesis using assms enqueue_ring [of "RxData u" buf] by (simp add: moves_def rings_ok_def)
qed

lemma process_transmit_moves:
  assumes "rings_ok u"
  shows "moves u (snd (process_transmit chip cnt u))"
proof -
  have r: "moves u u" using assms by (simp add: moves_def rings_ok_def ring_full)
  let ?v = "snd (NS16550_get_r chip 5 u)"
  have v: "moves u ?v" using get_r_moves [OF assms, of 5 chip] by simp
  have t: "ring_ok (TxData ?v)" "ring_ok (RxData ?v)" using moves_rings [OF v] by (simp_all add: rings_ok_def)
  obtain buf d where b: "dequeue_from_buffer 16 (TxData ?v) = (buf, d)" by (cases "dequeue_from_buffer 16 (TxData ?v)") auto
  have "moves ?v (send_chars buf (?v\<lparr>TxData := d\<rparr>))"
    using dequeue_ring [OF t(1), of 16] t(2) b by (simp add: moves_def send_chars_accesses ring_full)
  then have "moves u (send_chars buf (?v\<lparr>TxData := d\<rparr>))" by (rule moves_trans [OF v])
  then show ?thesis using r v b by (simp add: process_transmit_def case_prod_beta Let_def)
qed

lemma process_round_moves:
  assumes "rings_ok u" and "process_round chip cnt u = (status, cnt', u')"
  shows "moves u u'"
proof -
  let ?u1 = "snd (NS16550_get_r chip 2 u)"
  let ?u2 = "process_fetch chip (fst (NS16550_get_r chip 2 u)) ?u1"
  let ?u3 = "snd (process_transmit chip cnt ?u2)"
  have 1: "moves u ?u1" using get_r_moves [OF assms(1), of 2 chip] by simp
  have 2: "moves ?u1 ?u2" by (rule process_fetch_moves [OF moves_rings [OF 1]])
  have 3: "moves ?u2 ?u3" by (rule process_transmit_moves [OF moves_rings [OF 2]])
  have u': "u' = NS16550_set_r 1 (if cnt' > 0 then 3 else 1) ?u3" and "cnt' = fst (process_transmit chip cnt ?u2)"
    using assms(2) by (auto simp: process_round_def case_prod_beta Let_def NS16550_set_interrupt_def)
  have "moves ?u3 u'" unfolding u' by (rule set_r_moves [OF moves_rings [OF 3]]) simp
  with moves_trans [OF moves_trans [OF 1 2] 3] show ?thesis by (rule moves_trans)
qed

lemma process_loop_moves:
  assumes "process_loop chip cnt u = Some u'" and "rings_ok u"
  shows "moves u u'"
proof -
  have "rings_ok u \<longrightarrow> moves u u'"
  proof (rule process_loop.raw_induct [OF _ assms(1), where P = "\<lambda>chip cnt u u'. rings_ok u \<longrightarrow> moves u u'"])
    fix loop :: "chip \<Rightarrow> nat \<Rightarrow> uart \<Rightarrow> uart option" and chip cnt u r
    assume ih: "\<And>chip cnt u r. loop chip cnt u = Some r \<Longrightarrow> rings_ok u \<longrightarrow> moves u r"
      and r: "(let (status, cnt, u) = process_round chip cnt u in if status AND SP_INTID_NOPEND = 0 then loop chip cnt u else Some u) = Some r"
    show "rings_ok u \<longrightarrow> moves u r"
    proof
      assume ok: "rings_ok u"
      obtain st c v where p: "process_round chip cnt u = (st, c, v)" by (cases "process_round chip cnt u") auto
      have m: "moves u v" by (rule process_round_moves [OF ok p])
      show "moves u r"
      proof (cases "st AND SP_INTID_NOPEND = 0")
        case True
        with r p have "loop chip c v = Some r" by simp
        with ih moves_rings [OF m] have "moves v r" by blast
        with m show ?thesis by (rule moves_trans)
      next
        case False
        with r p m show ?thesis by simp
      qed
    qed
  qed
  with assms(2) show ?thesis by blast
qed

lemma on_intc_moves: "rings_ok u \<Longrightarrow> moves u (on_intc f u)"
  by (simp add: moves_def on_intc_def rings_ok_def ring_full)

lemma handler_moves:
  assumes "NS16550_interrupt_handler chip u = Some u'" and "rings_ok u"
  shows "moves u u'"
proof -
  let ?u1 = "on_intc (\<lambda>r. r\<lparr>INTC_IEN := INTC_IEN r AND NOT (IntrMask u)\<rparr>) u"
  from assms(1) obtain v where p: "process_loop chip 0 ?u1 = Some v"
    and u': "u' = on_intc (\<lambda>r. r\<lparr>INTC_CLR := IntrMask v, INTC_IEN := INTC_IEN r OR IntrMask v\<rparr>) v"
    by (auto simp: NS16550_interrupt_handler_def NS16550_interrupt_process_def Let_def bind_eq_Some_conv)
  have 1: "moves u ?u1" by (rule on_intc_moves [OF assms(2)])
  have 2: "moves ?u1 v" by (rule process_loop_moves [OF p moves_rings [OF 1]])
  have "moves v u'" unfolding u' by (rule on_intc_moves [OF moves_rings [OF 2]])
  with moves_trans [OF 1 2] show ?thesis by (rule moves_trans)
qed

section \<open>The interrupt handler returns\<close>

lemma fetch_loop_nreads: "nreads (snd (fetch_loop chip n u)) 2 = nreads u 2"
proof (induction n arbitrary: u)
  case (Suc n)
  then show ?case by (simp add: case_prod_beta Let_def, simp add: NS16550_get_r_def Let_def)
qed simp

lemma get_r_nreads: "nreads (snd (NS16550_get_r chip r u)) q = (if q = r then Suc (nreads u q) else nreads u q)"
  by (simp add: NS16550_get_r_def Let_def)

lemma process_fetch_nreads: "nreads (process_fetch chip status u) 2 = nreads u 2"
  by (simp add: process_fetch_def case_prod_beta Let_def fetch_loop_nreads)

lemma process_transmit_nreads: "nreads (snd (process_transmit chip cnt u)) 2 = nreads u 2"
  by (simp add: process_transmit_def case_prod_beta Let_def send_chars_accesses get_r_nreads)

lemma process_round_id:
  assumes "process_round chip cnt u = (status, cnt', u')"
  shows "status = chip 2 (nreads u 2) \<and> nreads u' 2 = Suc (nreads u 2)"
  using assms
  by (auto simp: process_round_def case_prod_beta Let_def NS16550_set_interrupt_def NS16550_set_r_def process_fetch_nreads
      process_transmit_nreads get_r_nreads) (simp add: NS16550_get_r_def Let_def)

lemma process_loop_returns: "chip 2 (nreads u 2 + k) AND 1 \<noteq> 0 \<Longrightarrow> \<exists>u'. process_loop chip cnt u = Some u'"
proof (induction k arbitrary: cnt u)
  case 0
  obtain st c v where p: "process_round chip cnt u = (st, c, v)" by (cases "process_round chip cnt u") auto
  with 0 process_round_id [OF p] show ?case by (subst process_loop.simps) simp
next
  case (Suc k)
  obtain st c v where p: "process_round chip cnt u = (st, c, v)" by (cases "process_round chip cnt u") auto
  have "nreads v 2 = Suc (nreads u 2)" using process_round_id [OF p] by simp
  with Suc.IH [of v c] Suc.prems p show ?case by (subst process_loop.simps) auto
qed

section \<open>Histories\<close>

text \<open>Any interleaving of interrupts, the critical sections of reads, and writes in their two parts. The arguments are the start, the
  state, the write that is between its parts, the bytes the readers got, the bytes given to writes, and whether no write found the
  transmitter free while older bytes were waiting.\<close>

inductive uart_run :: "chip \<Rightarrow> uart \<Rightarrow> uart \<Rightarrow> (bytes \<times> nat) option \<Rightarrow> bytes \<Rightarrow> bytes \<Rightarrow> bool \<Rightarrow> bool" for chip u0 where
  start: "uart_run chip u0 u0 None [] [] True"
| irq: "uart_run chip u0 u w got written ord \<Longrightarrow> NS16550_interrupt_handler chip u = Some u' \<Longrightarrow> uart_run chip u0 u' w got written ord"
| read: "uart_run chip u0 u w got written ord \<Longrightarrow> dequeue_from_buffer n (RxData u) = (cs, d) \<Longrightarrow>
    uart_run chip u0 (u\<lparr>RxData := d\<rparr>) w (got @ cs) written ord"
| write_now: "uart_run chip u0 u None got written ord \<Longrightarrow> write_now chip buf u = (sent, u') \<Longrightarrow>
    uart_run chip u0 u' (Some (buf, sent)) got (written @ buf) (ord \<and> (sent = 0 \<or> Count (TxData u) = 0))"
| write_rest: "uart_run chip u0 u (Some (buf, sent)) got written ord \<Longrightarrow> write_rest buf sent u = (n, u') \<Longrightarrow>
    uart_run chip u0 u' None got written ord"

definition waiting :: "(bytes \<times> nat) option \<Rightarrow> bytes" where
  "waiting w = (case w of None \<Rightarrow> [] | Some (buf, sent) \<Rightarrow> drop sent buf)"

lemma write_now_cases:
  assumes "write_now chip buf u = (sent, u')"
  obtains (busy) f a where "sent = 0" "u' = u\<lparr>nreads := f, accesses := accesses u @ [Rd 5 a]\<rparr>"
  | (free) f a v where "sent = min 16 (length buf)"
      "u' = u\<lparr>nreads := f, accesses := accesses u @ Rd 5 a # map (Wr 0) (take sent buf) @ [Wr 1 v]\<rparr>" "0 < length buf \<longrightarrow> v = 3"
proof (cases "fst (NS16550_get_r chip 5 u) AND SP_LSR_THOLD = 0")
  case True
  show ?thesis
    by (rule busy [where f = "nreads u'" and a = "fst (NS16550_get_r chip 5 u)"])
      (use assms True in \<open>auto simp: write_now_def case_prod_beta Let_def NS16550_get_r_def\<close>)
next
  case False
  show ?thesis
    by (rule free [where f = "nreads u'" and a = "fst (NS16550_get_r chip 5 u)" and v = "if 0 < sent then 3 else 1"])
      (use assms False in \<open>auto simp: write_now_def case_prod_beta Let_def NS16550_set_interrupt_def NS16550_set_r_def send_chars_accesses NS16550_get_r_def
        split: if_splits\<close>)
qed

text \<open>Of a history: the rings are well-formed, and the accesses since the start with what was received and transmitted.\<close>

definition rx_stream :: "uart \<Rightarrow> uart \<Rightarrow> bytes \<Rightarrow> bool" where
  "rx_stream u0 u got \<longleftrightarrow> ring.stream (received (drop (length (accesses u0)) (accesses u))) got (RxData u)"

definition tx_stream :: "uart \<Rightarrow> uart \<Rightarrow> bytes \<Rightarrow> bytes \<Rightarrow> bool" where
  "tx_stream u0 u rest written \<longleftrightarrow>
     subseq (transmitted (drop (length (accesses u0)) (accesses u)) @ ring_contents (TxData u) @ rest) written
     \<and> (length written \<le> UART_BUF_SIZE \<longrightarrow>
          transmitted (drop (length (accesses u0)) (accesses u)) @ ring_contents (TxData u) @ rest = written)"

lemma rx_moves:
  assumes "rx_stream u0 u got" and "moves u u'" and "prefix (accesses u0) (accesses u)"
  shows "rx_stream u0 u' got"
proof -
  obtain as where a: "accesses u' = accesses u @ as" "ring_ok (RxData u')"
    "ring_contents (RxData u') = newest 512 (ring_contents (RxData u) @ received as)" using assms(2) by (auto simp: moves_def)
  have "length (accesses u0) \<le> length (accesses u)" using assms(3) by (rule prefix_length_le)
  then have d: "drop (length (accesses u0)) (accesses u') = drop (length (accesses u0)) (accesses u) @ as" by (simp add: a(1))
  have s: "ring.stream (received (drop (length (accesses u0)) (accesses u)) @ received as) got (snd (enqueue_to_buffer (received as) (RxData u)))"
    using assms(1) unfolding rx_stream_def by (rule ring.stream_put)
  have "ring_ok (RxData u)" using assms(1) by (simp add: rx_stream_def ring.stream_def)
  then have "ring_contents (snd (enqueue_to_buffer (received as) (RxData u))) = ring_contents (RxData u')"
    using enqueue_ring [of "RxData u" "received as"] a(3) by simp
  with s a(2) show ?thesis by (simp add: rx_stream_def ring.stream_def d)
qed

lemma tx_moves:
  assumes "tx_stream u0 u rest written" and "moves u u'" and "prefix (accesses u0) (accesses u)"
  shows "tx_stream u0 u' rest written"
proof -
  obtain as where a: "accesses u' = accesses u @ as" "ring_contents (TxData u) = transmitted as @ ring_contents (TxData u')"
    using assms(2) by (auto simp: moves_def)
  have "length (accesses u0) \<le> length (accesses u)" using assms(3) by (rule prefix_length_le)
  then have d: "drop (length (accesses u0)) (accesses u') = drop (length (accesses u0)) (accesses u) @ as" by (simp add: a(1))
  show ?thesis using assms(1) by (simp add: tx_stream_def d a(2))
qed

lemma tx_write_now:
  assumes "tx_stream u0 u [] written" and "write_now chip buf u = (sent, u')" and "sent = 0 \<or> Count (TxData u) = 0"
    and "prefix (accesses u0) (accesses u)"
  shows "tx_stream u0 u' (drop sent buf) (written @ buf)"
proof -
  let ?t = "transmitted (drop (length (accesses u0)) (accesses u))" and ?c = "ring_contents (TxData u)"
  have l: "length (accesses u0) \<le> length (accesses u)" using assms(4) by (rule prefix_length_le)
  have c: "sent \<noteq> 0 \<Longrightarrow> ?c = []" using assms(3) by (simp add: ring_contents_def)
  have t: "transmitted (drop (length (accesses u0)) (accesses u')) @ ring_contents (TxData u') @ drop sent buf = ?t @ ?c @ buf"
    using assms(2)
  proof (cases rule: write_now_cases)
    case busy
    with l show ?thesis by simp
  next
    case free
    have "take sent buf @ ?c @ drop sent buf = ?c @ buf" using c by (cases "sent = 0") simp_all
    with free(2) l show ?thesis by simp
  qed
  have "subseq (?t @ ?c @ buf) (written @ buf)"
    using assms(1) list_emb_append_mono [of "(=)" "?t @ ?c" written buf buf] by (simp add: tx_stream_def)
  moreover have "?t @ ?c @ buf = written @ buf" if "length (written @ buf) \<le> 512" using assms(1) that by (simp add: tx_stream_def)
  ultimately show ?thesis unfolding tx_stream_def t by blast
qed

lemma tx_write_rest:
  assumes "tx_stream u0 u (drop sent buf) written" and "write_rest buf sent u = (n, u')" and "ring_ok (TxData u)"
  shows "tx_stream u0 u' [] written \<and> ring_ok (TxData u') \<and> RxData u' = RxData u \<and> accesses u' = accesses u"
proof (cases "sent < length buf")
  case False
  with assms show ?thesis by (simp add: write_rest_def)
next
  case True
  let ?t = "transmitted (drop (length (accesses u0)) (accesses u))" and ?c = "ring_contents (TxData u)"
  obtain d where d: "d = snd (enqueue_to_buffer (drop sent buf) (TxData u))" "u' = u\<lparr>TxData := d\<rparr>"
    using assms(2) True by (auto simp: write_rest_def case_prod_beta)
  have r: "ring_ok d" "ring_contents d = newest 512 (?c @ drop sent buf)" using enqueue_ring [OF assms(3)] d(1) by simp_all
  have "subseq (newest 512 (?c @ drop sent buf)) (?c @ drop sent buf)" by (rule suffix_imp_subseq) (rule suffix_newest)
  then have "subseq (?t @ ring_contents d) (?t @ ?c @ drop sent buf)" by (simp add: r(2) subseq_append')
  also have "subseq (?t @ ?c @ drop sent buf) written" using assms(1) by (simp add: tx_stream_def)
  finally have s: "subseq (?t @ ring_contents d) written" .
  have e: "?t @ ring_contents d = written" if "length written \<le> 512"
  proof -
    have w: "?t @ ?c @ drop sent buf = written" using assms(1) that by (simp add: tx_stream_def)
    then have "length (?c @ drop sent buf) \<le> 512" using that by auto
    with w show ?thesis by (simp add: r(2) del: length_append)
  qed
  from s e r(1) show ?thesis by (simp add: tx_stream_def d(2))
qed

lemma uart_run_streams:
  assumes "uart_run chip u0 u w got written ord" and "rings_ok u0" and "Count (RxData u0) = 0" and "Count (TxData u0) = 0"
  shows "prefix (accesses u0) (accesses u) \<and> rings_ok u \<and> rx_stream u0 u got \<and> (ord \<longrightarrow> tx_stream u0 u (waiting w) written)"
  using assms(1)
proof (induction rule: uart_run.induct)
  case start
  show ?case using assms(2-4) by (simp add: rx_stream_def tx_stream_def ring.stream_def rings_ok_def waiting_def ring_contents_def)
next
  case (irq u w got written ord u')
  have m: "moves u u'" using handler_moves [OF irq.hyps(2)] irq.IH by simp
  then have "prefix (accesses u0) (accesses u')" using irq.IH by (auto simp: moves_def)
  with m irq.IH moves_rings [OF m] rx_moves [OF _ m] tx_moves [OF _ m] show ?case by blast
next
  case (read u w got written ord n cs d)
  have "rx_stream u0 (u\<lparr>RxData := d\<rparr>) (got @ cs)"
    using ring.stream_get [OF _ read.hyps(2)] read.IH by (simp add: rx_stream_def)
  moreover from this have "ring_ok d" by (simp add: rx_stream_def ring.stream_def)
  ultimately show ?case using read.IH by (simp add: rings_ok_def tx_stream_def)
next
  case (write_now u got written ord buf sent u')
  have k: "RxData u' = RxData u \<and> TxData u' = TxData u \<and> (\<exists>as. accesses u' = accesses u @ as \<and> received as = [])"
    using write_now.hyps(2) by (cases rule: write_now_cases) auto
  then obtain as where as: "accesses u' = accesses u @ as" "received as = []" by blast
  have l: "length (accesses u0) \<le> length (accesses u)" using write_now.IH prefix_length_le by blast
  have "prefix (accesses u0) (accesses u')" using write_now.IH as by auto
  moreover have "rx_stream u0 u' got" using write_now.IH k as l by (simp add: rx_stream_def)
  moreover have "rings_ok u'" using write_now.IH k by (simp add: rings_ok_def)
  ultimately show ?case using write_now.IH tx_write_now [OF _ write_now.hyps(2)] by (simp add: waiting_def)
next
  case (write_rest u buf sent got written ord n u')
  have t: "ring_ok (TxData u)" using write_rest.IH by (simp add: rings_ok_def)
  have k: "ring_ok (TxData u') \<and> RxData u' = RxData u \<and> accesses u' = accesses u"
  proof (cases "sent < length buf")
    case True
    with write_rest.hyps(2) enqueue_ring [OF t] show ?thesis by (auto simp: write_rest_def case_prod_beta)
  next
    case False
    with write_rest.hyps(2) t show ?thesis by (simp add: write_rest_def)
  qed
  with write_rest.IH tx_write_rest [OF _ write_rest.hyps(2) t, of u0 written] show ?case
    by (auto simp: rx_stream_def rings_ok_def waiting_def)
qed

section \<open>Properties\<close>

lemma enabled_get_r [simp]: "enabled_irqs (snd (NS16550_get_r chip r u)) = enabled_irqs u"
  by (simp add: enabled_irqs_def NS16550_get_r_def Let_def)

lemma enabled_set_r [simp]: "enabled_irqs (NS16550_set_r r v u) = (if r = NS16550_INTERRUPT_ENABLE then Some v else enabled_irqs u)"
  by (simp add: enabled_irqs_def NS16550_set_r_def)

lemma enabled_on_intc [simp]: "enabled_irqs (on_intc f u) = enabled_irqs u" "TxData (on_intc f u) = TxData u" "accesses (on_intc f u) = accesses u"
  by (simp_all add: enabled_irqs_def on_intc_def)

lemma process_round_idle:
  assumes "process_round chip 0 u = (status, cnt, u')" and "Count (TxData u) = 0"
  shows "cnt = 0 \<and> TxData u' = TxData u \<and> enabled_irqs u' = Some NS16550_ENABLE_ALL_INTR_EXCEPT_TX"
proof -
  let ?v = "process_fetch chip (fst (NS16550_get_r chip 2 u)) (snd (NS16550_get_r chip 2 u))"
  have f: "TxData (snd (fetch_loop chip n x)) = TxData x" for n and x :: uart
    using fetch_loop_accesses [of chip n x "fst (fetch_loop chip n x)" "snd (fetch_loop chip n x)"] by auto
  have "TxData (snd (NS16550_get_r chip 2 u)) = TxData u" by (simp add: NS16550_get_r_def Let_def)
  then have t: "TxData ?v = TxData u" by (simp add: process_fetch_def case_prod_beta Let_def f)
  then have "process_transmit chip 0 ?v = (0, ?v)" using assms(2) by (simp add: process_transmit_def)
  then have "cnt = 0" "u' = NS16550_set_r 1 1 ?v"
    using assms(1) by (auto simp: process_round_def case_prod_beta Let_def NS16550_set_interrupt_def)
  with t show ?thesis by (simp add: NS16550_set_r_def [of _ _ ?v] enabled_irqs_def)
qed

lemma process_loop_idle:
  assumes "process_loop chip 0 u = Some u'" and "Count (TxData u) = 0"
  shows "TxData u' = TxData u \<and> enabled_irqs u' = Some NS16550_ENABLE_ALL_INTR_EXCEPT_TX"
proof -
  have "(0 :: nat) = 0 \<and> Count (TxData u) = 0 \<longrightarrow> TxData u' = TxData u \<and> enabled_irqs u' = Some 1"
  proof (rule process_loop.raw_induct [OF _ assms(1),
        where P = "\<lambda>chip cnt u u'. cnt = 0 \<and> Count (TxData u) = 0 \<longrightarrow> TxData u' = TxData u \<and> enabled_irqs u' = Some 1"])
    fix loop :: "chip \<Rightarrow> nat \<Rightarrow> uart \<Rightarrow> uart option" and chip cnt u r
    assume ih: "\<And>chip cnt u r. loop chip cnt u = Some r \<Longrightarrow>
        cnt = 0 \<and> Count (TxData u) = 0 \<longrightarrow> TxData r = TxData u \<and> enabled_irqs r = Some 1"
      and r: "(let (status, cnt, u) = process_round chip cnt u in if status AND SP_INTID_NOPEND = 0 then loop chip cnt u else Some u) = Some r"
    show "cnt = 0 \<and> Count (TxData u) = 0 \<longrightarrow> TxData r = TxData u \<and> enabled_irqs r = Some 1"
    proof
      assume a: "cnt = 0 \<and> Count (TxData u) = 0"
      obtain st c v where p: "process_round chip 0 u = (st, c, v)" by (cases "process_round chip 0 u") auto
      from process_round_idle [OF this] a have v: "c = 0" "TxData v = TxData u" "enabled_irqs v = Some 1" by simp_all
      show "TxData r = TxData u \<and> enabled_irqs r = Some 1"
      proof (cases "st AND SP_INTID_NOPEND = 0")
        case True
        with r p a v have "loop chip 0 v = Some r" by simp
        with ih a v show ?thesis by metis
      next
        case False
        with r p a v show ?thesis by simp
      qed
    qed
  qed
  with assms(2) show ?thesis by simp
qed

lemma handler_idle:
  assumes "NS16550_interrupt_handler chip u = Some u'" and "Count (TxData u) = 0"
  shows "TxData u' = TxData u \<and> enabled_irqs u' = Some NS16550_ENABLE_ALL_INTR_EXCEPT_TX"
  using assms process_loop_idle [of chip "on_intc (\<lambda>r. r\<lparr>INTC_IEN := INTC_IEN r AND NOT (IntrMask u)\<rparr>) u"]
  by (auto simp: NS16550_interrupt_handler_def NS16550_interrupt_process_def Let_def bind_eq_Some_conv)


text \<open>The port of the modem after opening.\<close>

lemma uart3_opened:
  fixes s chip isr self
  defines "u \<equiv> snd (NS16550_open chip isr self None (ls1b_UART3 s))"
  shows "rings_ok u" "Count (RxData u) = 0" "Count (TxData u) = 0" "enabled_irqs u = Some NS16550_ENABLE_ALL_INTR_EXCEPT_TX" "nreads u = (\<lambda>_. 0)"
    "transmitted (accesses u) = []"
  by (simp_all add: u_def NS16550_open_def ls1b_UART3_def Let_def initialize_buffer_def NS16550_install_irq_def NS16550_set_interrupt_def
      NS16550_set_r_def rings_ok_def ring_ok_def on_intc_def enabled_irqs_def)


lemma uart_interrupt_returns:
  assumes "rings_ok u" and "chip NS16550_INTERRUPT_ID (nreads u NS16550_INTERRUPT_ID + k) AND SP_INTID_NOPEND \<noteq> 0"
  shows "\<exists>u'. NS16550_interrupt_handler chip u = Some u' \<and> moves u u'"
proof -
  let ?u = "on_intc (\<lambda>r. r\<lparr>INTC_IEN := INTC_IEN r AND NOT (IntrMask u)\<rparr>) u"
  have "nreads ?u = nreads u" by (simp add: on_intc_def)
  then obtain v where "process_loop chip 0 ?u = Some v" using process_loop_returns [of chip ?u k 0] assms(2) by auto
  then obtain u' where h: "NS16550_interrupt_handler chip u = Some u'"
    by (auto simp: NS16550_interrupt_handler_def NS16550_interrupt_process_def Let_def)
  from handler_moves [OF this assms(1)] h show ?thesis by blast
qed

text \<open>The serial interrupt handler. Provided the chip reports at some later read of its interrupt register that nothing is pending,
  the handler returns; the receive buffer then holds the latest 512 of its old bytes and the bytes read from the chip, in
  order, and the bytes given to the chip are exactly those that left the front of the transmit buffer.\<close>

lemma uart_interrupt_exact:
  assumes "rings_ok u" and "chip NS16550_INTERRUPT_ID (nreads u NS16550_INTERRUPT_ID + k) AND SP_INTID_NOPEND \<noteq> 0"
  shows "\<exists>u' as. NS16550_interrupt_handler chip u = Some u' \<and> accesses u' = accesses u @ as
     \<and> ring_contents (RxData u') = newest UART_BUF_SIZE (ring_contents (RxData u) @ received as)
     \<and> ring_contents (TxData u) = transmitted as @ ring_contents (TxData u')"
  using uart_interrupt_returns [of u chip k] assms unfolding moves_def by blast

text \<open>C36: A long write can stall and be overtaken. If the transmitter is free and its buffer empty, and the interrupt handler runs
  between the two parts of a write of 17 to 528 bytes, the write reports that all bytes were taken, but the bytes after the
  sixteenth stay in the buffer with the transmit interrupt disabled; a write that finds the transmitter free again sends its
  own bytes first.\<close>

theorem uart_write_stalls:
  assumes "rings_ok u" and "Count (TxData u) = 0" and "16 < length buf" and "length buf \<le> 528"
    and "chip NS16550_LINE_STATUS (nreads u NS16550_LINE_STATUS) AND SP_LSR_THOLD \<noteq> 0"
    and "chip NS16550_INTERRUPT_ID (nreads u NS16550_INTERRUPT_ID + k) AND SP_INTID_NOPEND \<noteq> 0"
  shows "\<exists>w. NS16550_write_string_int chip (NS16550_interrupt_handler chip) buf u = Some (length buf, w) \<and> ring_contents (TxData w) = drop 16 buf
     \<and> enabled_irqs w = Some NS16550_ENABLE_ALL_INTR_EXCEPT_TX
     \<and> (\<forall>chip' later. chip' NS16550_LINE_STATUS (nreads w NS16550_LINE_STATUS) AND SP_LSR_THOLD \<noteq> 0 \<longrightarrow>
          transmitted (accesses (snd (write_now chip' later w))) = transmitted (accesses u) @ take 16 buf @ take 16 later)"
proof -
  obtain u1 where u1: "write_now chip buf u = (16, u1)" "TxData u1 = TxData u" "RxData u1 = RxData u"
    "transmitted (accesses u1) = transmitted (accesses u) @ take 16 buf" "nreads u1 2 = nreads u 2"
    using assms(3,5)
    by (auto simp: write_now_def case_prod_beta Let_def NS16550_get_r_def NS16550_set_interrupt_def NS16550_set_r_def send_chars_accesses)
  have r1: "rings_ok u1" using assms(1) u1 by (simp add: rings_ok_def)
  obtain v where h: "NS16550_interrupt_handler chip u1 = Some v" using uart_interrupt_returns [of u1 chip k] r1 assms(6) u1(5) by auto
  have v: "TxData v = TxData u" "enabled_irqs v = Some 1" using handler_idle [OF h] assms(2) u1(2) by simp_all
  from handler_moves [OF h r1] assms(2) u1(2,4) v(1)
  have t: "transmitted (accesses v) = transmitted (accesses u) @ take 16 buf" by (auto simp: moves_def ring_contents_def)
  define d where "d = snd (enqueue_to_buffer (drop 16 buf) (TxData u))"
  have r: "ring_ok (TxData u)" "ring_contents (TxData u) = []" using assms(1,2) by (simp_all add: rings_ok_def ring_contents_def)
  have "ring_contents d = drop 16 buf" using enqueue_ring [OF r(1), of "drop 16 buf"] assms(4) r(2) by (simp add: d_def)
  moreover have "NS16550_write_string_int chip (NS16550_interrupt_handler chip) buf u = Some (length buf, v\<lparr>TxData := d\<rparr>)"
    using assms(3) by (simp add: NS16550_write_string_int_def u1(1) h write_rest_def v(1) d_def case_prod_beta Let_def) (simp add: enqueue_to_buffer_def Let_def)
  moreover have "enabled_irqs (v\<lparr>TxData := d\<rparr>) = Some 1" using v(2) by (simp add: enabled_irqs_def)
  moreover have "transmitted (accesses (snd (write_now chip' later (v\<lparr>TxData := d\<rparr>)))) = transmitted (accesses u) @ take 16 buf @ take 16 later"
    if "chip' 5 (nreads v 5) AND 32 \<noteq> 0" for chip' later
    using that t
    by (auto simp: write_now_def case_prod_beta Let_def NS16550_get_r_def NS16550_set_interrupt_def NS16550_set_r_def send_chars_accesses)
  ultimately show ?thesis by (intro exI [of _ "v\<lparr>TxData := d\<rparr>"]) simp
qed

theorem uart_write_stalls_witness:
  "\<exists>w. NS16550_write_string_int (\<lambda>_ _. 0x61) (NS16550_interrupt_handler (\<lambda>_ _. 0x61)) (replicate 20 65)
         (snd (NS16550_open (\<lambda>_ _. 0x61) 1 2 None (ls1b_UART3 soc_zero))) = Some (20, w)
     \<and> ring_contents (TxData w) = replicate 4 65 \<and> enabled_irqs w = Some NS16550_ENABLE_ALL_INTR_EXCEPT_TX"
  using uart_write_stalls [of "snd (NS16550_open (\<lambda>_ _. 0x61) 1 2 None (ls1b_UART3 soc_zero))" "replicate 20 65" "\<lambda>_ _. 0x61" 0]
    uart3_opened(1,3) [of "\<lambda>_ _. 0x61" 1 2 soc_zero] by auto

end
