(* ===== verification/Object.thy ===== *)
theory Object
  imports Kservice_Mem
begin

text \<open>
  The object system of RTT4/src/object.c: every kernel object starts with a header of its name (ten bytes), its type and a flag, and is
  in the list of its class. Objects are addresses in the memory of Kservice_Mem; names are copied and compared with the
  string functions modelled there. The lists are HOL lists, which theory Rt_List justifies; the scheduler lock around the searches, the
  hooks and the modules (not configured) are left out. The locale \<open>directory\<close> is what a user of the object system relies on.
\<close>

abbreviation (input) RT_NAME_MAX :: nat where "RT_NAME_MAX \<equiv> 10"
abbreviation (input) RT_Object_Class_Device :: u8 where "RT_Object_Class_Device \<equiv> 9"
abbreviation (input) RT_Object_Class_Unknown :: u8 where "RT_Object_Class_Unknown \<equiv> 12"
abbreviation (input) RT_Object_Class_Static :: u8 where "RT_Object_Class_Static \<equiv> 0x80"

record objects =
  omem :: memory
  object_list :: "u8 \<Rightarrow> nat list"

text \<open>The fields of a header.\<close>

definition obj_type :: "memory \<Rightarrow> nat \<Rightarrow> u8" where
  "obj_type m obj = m (obj + 10)"

text \<open>The classes that have a container: all from \<^verbatim>\<open>RT_Object_Class_Thread\<close> to \<^verbatim>\<open>RT_Object_Class_Timer\<close> are configured.\<close>

definition rt_object_container :: "u8 list" where
  "rt_object_container = [1, 2, 3, 4, 5, 6, 7, 8, 9, 10]"

definition rt_object_get_information :: "u8 \<Rightarrow> u8 option" where
  "rt_object_get_information type = List.find (\<lambda>t. t = type) rt_object_container"

definition obj_insert :: "u8 \<Rightarrow> nat \<Rightarrow> objects \<Rightarrow> objects" where
  "obj_insert c obj s = s\<lparr>object_list := (object_list s)(c := obj # object_list s c)\<rparr>"

definition obj_remove :: "nat \<Rightarrow> objects \<Rightarrow> objects" where
  "obj_remove obj s = s\<lparr>object_list := (\<lambda>c. removeAll obj (object_list s c))\<rparr>"

definition rt_object_init :: "nat \<Rightarrow> u8 \<Rightarrow> nat \<Rightarrow> objects \<Rightarrow> objects option" where
  "rt_object_init obj type name s = do {
     c \<leftarrow> rt_object_get_information type;
     RT_ASSERT (obj \<notin> set (object_list s c));
     let s = s\<lparr>omem := (omem s)(obj + 10 := type OR RT_Object_Class_Static)\<rparr>;
     let s = s\<lparr>omem := rt_strncpy obj name RT_NAME_MAX (omem s)\<rparr>;
     Some (obj_insert c obj s) }"

definition rt_object_detach :: "nat \<Rightarrow> objects \<Rightarrow> objects" where
  "rt_object_detach obj s = obj_remove obj (s\<lparr>omem := (omem s)(obj + 10 := 0)\<rparr>)"

text \<open>\<open>object_size\<close> gives the sizes of the structures, \<open>alloc\<close> is the answer of the allocator, \<open>in_irq\<close> says that the caller is an
  interrupt handler.\<close>

definition rt_object_allocate ::
  "(u8 \<Rightarrow> nat) \<Rightarrow> bool \<Rightarrow> nat option \<Rightarrow> u8 \<Rightarrow> nat \<Rightarrow> objects \<Rightarrow> (nat option \<times> objects) option" where
  "rt_object_allocate object_size in_irq alloc type name s = do {
     RT_ASSERT (\<not> in_irq);
     c \<leftarrow> rt_object_get_information type;
     case alloc of
       None \<Rightarrow> Some (None, s)
     | Some obj \<Rightarrow> do {
         let s = s\<lparr>omem := rt_memset obj 0 (object_size c) (omem s)\<rparr>;
         let s = s\<lparr>omem := (omem s)(obj + 10 := type, obj + 11 := 0)\<rparr>;
         let s = s\<lparr>omem := rt_strncpy obj name RT_NAME_MAX (omem s)\<rparr>;
         Some (Some obj, obj_insert c obj s) } }"

text \<open>The memory of the object is released then.\<close>

definition rt_object_delete :: "nat \<Rightarrow> objects \<Rightarrow> objects option" where
  "rt_object_delete obj s = do {
     RT_ASSERT (obj_type (omem s) obj AND RT_Object_Class_Static = 0);
     Some (obj_remove obj (s\<lparr>omem := (omem s)(obj + 10 := 0)\<rparr>)) }"

definition rt_object_is_systemobject :: "nat \<Rightarrow> objects \<Rightarrow> bool" where
  "rt_object_is_systemobject obj s \<longleftrightarrow> obj_type (omem s) obj AND RT_Object_Class_Static \<noteq> 0"

definition rt_object_get_type :: "nat \<Rightarrow> objects \<Rightarrow> u8" where
  "rt_object_get_type obj s = obj_type (omem s) obj AND NOT RT_Object_Class_Static"

fun find_loop :: "nat \<Rightarrow> nat list \<Rightarrow> memory \<Rightarrow> nat option" where
  "find_loop name [] m = None"
| "find_loop name (obj # objs) m = (if rt_strncmp obj name RT_NAME_MAX m = 0 then Some obj else find_loop name objs m)"

definition rt_object_find :: "bool \<Rightarrow> nat option \<Rightarrow> u8 \<Rightarrow> objects \<Rightarrow> nat option option" where
  "rt_object_find in_irq name type s =
     (case name of
        None \<Rightarrow> Some None
      | Some nm \<Rightarrow>
          if type > RT_Object_Class_Unknown then Some None
          else do {
            RT_ASSERT (\<not> in_irq);
            c \<leftarrow> rt_object_get_information type;
            Some (find_loop nm (object_list s c) (omem s)) })"

section \<open>Names\<close>

definition name_at :: "memory \<Rightarrow> nat \<Rightarrow> bytes" where
  "name_at m obj = takeWhile (\<lambda>c. c \<noteq> 0) (map m [obj..<obj + RT_NAME_MAX])"

lemma strncmp_field:
  "cstr m b ys \<Longrightarrow> strncmp_loop a b n m 0 = 0 \<longleftrightarrow> takeWhile (\<lambda>c. c \<noteq> 0) (map m [a..<a + n]) = take n ys"
proof (induction n arbitrary: a b ys)
  case (Suc n)
  have u: "[a..<a + Suc n] = a # [a + 1..<(a + 1) + n]" by (simp add: upt_conv_Cons del: upt_Suc)
  show ?case
  proof (cases ys)
    case Nil
    with Suc.prems show ?thesis unfolding u by (auto simp: Let_def)
  next
    case (Cons c cs)
    then have b: "m b = c" "c \<noteq> 0" "cstr m (b + 1) cs" using Suc.prems by auto
    show ?thesis
    proof (cases "m a = c")
      case True
      with b Suc.IH [of "b + 1" cs "a + 1"] Cons show ?thesis unfolding u by (simp add: Let_def)
    next
      case False
      with b Cons show ?thesis unfolding u by (auto simp: Let_def)
    qed
  qed
qed simp

lemma strncmp_name: "cstr m b ys \<Longrightarrow> rt_strncmp a b RT_NAME_MAX m = 0 \<longleftrightarrow> name_at m a = take RT_NAME_MAX ys"
  using strncmp_field [of m b ys a 10] by (simp add: rt_strncmp_def sint_0_iff name_at_def)

lemma cstr_nonzero: "cstr m a xs \<Longrightarrow> 0 \<notin> set xs"
  by (induction xs arbitrary: a) auto

lemma name_strncpy:
  assumes "cstr m s xs" and "d + RT_NAME_MAX \<le> s \<or> s + length xs < d"
  shows "name_at (rt_strncpy d s RT_NAME_MAX m) d = take RT_NAME_MAX xs"
proof -
  have m: "map (rt_strncpy d s 10 m) [d..<d + 10] = take 10 (xs @ replicate 10 0)"
    using strncpy_loop_eq [OF assms] by (auto simp: rt_strncpy_def nth_append min_def intro!: nth_equalityI)
  have z: "\<forall>c \<in> set xs. c \<noteq> 0" using cstr_nonzero [OF assms(1)] by auto
  have "takeWhile (\<lambda>c. c \<noteq> 0) (take n (xs @ replicate n 0)) = take n xs" for n
  proof (cases "n \<le> length xs")
    case True
    with z show ?thesis by (auto simp: takeWhile_eq_all_conv dest: in_set_takeD)
  next
    case False
    then obtain k where "n - length xs = Suc k" by (metis Suc_diff_Suc not_le)
    with False z show ?thesis by (simp add: takeWhile_append2)
  qed
  with m show ?thesis by (simp add: name_at_def)
qed

section \<open>Invariant and directory of a class\<close>

definition obj_ok :: "objects \<Rightarrow> bool" where
  "obj_ok s \<longleftrightarrow> (\<forall>c. distinct (object_list s c))
     \<and> (\<forall>c. \<forall>obj \<in> set (object_list s c). c \<in> set rt_object_container \<and> rt_object_get_type obj s = c)
     \<and> (\<forall>c c'. \<forall>obj \<in> set (object_list s c). \<forall>obj' \<in> set (object_list s c'). obj = obj' \<or> obj + 12 \<le> obj' \<or> obj' + 12 \<le> obj)"

text \<open>An object of a given size does not overlap the headers of the registered ones.\<close>

definition apart :: "nat \<Rightarrow> nat \<Rightarrow> objects \<Rightarrow> bool" where
  "apart obj sz s \<longleftrightarrow> (\<forall>c. \<forall>obj' \<in> set (object_list s c). obj' + 12 \<le> obj \<or> obj + sz \<le> obj')"

definition dir :: "objects \<Rightarrow> u8 \<Rightarrow> (bytes \<times> nat) list" where
  "dir s c = map (\<lambda>obj. (name_at (omem s) obj, obj)) (object_list s c)"

text \<open>A name that may be passed for an object of a given size.\<close>

definition named :: "memory \<Rightarrow> nat \<Rightarrow> bytes \<Rightarrow> nat \<Rightarrow> nat \<Rightarrow> bool" where
  "named m name xs obj sz \<longleftrightarrow> cstr m name xs \<and> (obj + sz \<le> name \<or> name + length xs < obj)"

lemma information_iff: "rt_object_get_information type = (if type \<in> set rt_object_container then Some type else None)"
proof -
  have "List.find (\<lambda>t. t = type) ts = (if type \<in> set ts then Some type else None)" for ts by (induction ts) auto
  then show ?thesis by (simp add: rt_object_get_information_def)
qed

lemma find_dir: "cstr m name ys \<Longrightarrow> find_loop name objs m = map_of (map (\<lambda>obj. (name_at m obj, obj)) objs) (take RT_NAME_MAX ys)"
  by (induction objs) (auto simp: strncmp_name)

lemma object_find_dir:
  assumes "cstr (omem s) name ys" and "type \<in> set rt_object_container"
  shows "rt_object_find False (Some name) type s = Some (map_of (dir s type) (take RT_NAME_MAX ys))"
proof -
  have "\<not> type > RT_Object_Class_Unknown" using assms(2) by (auto simp: rt_object_container_def)
  then show ?thesis using assms by (simp add: rt_object_find_def information_iff find_dir dir_def)
qed

lemma cstr_cong: "(\<And>x. s \<le> x \<Longrightarrow> x \<le> s + length xs \<Longrightarrow> m' x = m x) \<Longrightarrow> cstr m' s xs = cstr m s xs"
proof (induction xs arbitrary: s)
  case (Cons c cs)
  have "cstr m' (s + 1) cs = cstr m (s + 1) cs" by (rule Cons.IH) (simp add: Cons.prems)
  with Cons.prems [of s] show ?case by simp
qed simp

lemma name_at_cong: "(\<And>x. obj \<le> x \<Longrightarrow> x < obj + 10 \<Longrightarrow> m' x = m x) \<Longrightarrow> name_at m' obj = name_at m obj"
  unfolding name_at_def by (rule arg_cong [where f = "takeWhile _"]) (rule map_cong, simp_all)

text \<open>A new header at the front of a list.\<close>

lemma insert_ok:
  assumes "obj_ok s" and "apart obj sz s" and "12 \<le> sz" and "type \<in> set rt_object_container"
    and "\<And>x. x < obj \<or> obj + sz \<le> x \<Longrightarrow> m' x = omem s x" and "m' (obj + 10) AND NOT RT_Object_Class_Static = type"
    and "name_at m' obj = nm"
  defines "s' \<equiv> obj_insert type obj (s\<lparr>omem := m'\<rparr>)"
  shows "obj_ok s' \<and> dir s' = (dir s)(type := (nm, obj) # dir s type) \<and> omem s' = m'"
proof -
  have a: "o' + 12 \<le> obj \<or> obj + sz \<le> o'" if "o' \<in> set (object_list s c)" for o' c using assms(2) that by (simp add: apart_def)
  have k: "m' x = omem s x" if "o' \<in> set (object_list s c)" "o' \<le> x" "x < o' + 12" for o' c x
    using a [OF that(1)] assms(5) [of x] that by auto
  have n: "name_at m' o' = name_at (omem s) o'" if "o' \<in> set (object_list s c)" for o' c by (rule name_at_cong) (simp add: k [OF that])
  have t: "m' (o' + 10) = omem s (o' + 10)" if "o' \<in> set (object_list s c)" for o' c using k [OF that, of "o' + 10"] by simp
  have new: "obj \<notin> set (object_list s c)" for c using a [of obj c] assms(3) by auto
  have l: "object_list s' = (object_list s)(type := obj # object_list s type)" "omem s' = m'" by (simp_all add: s'_def obj_insert_def)
  have "obj_ok s'"
    unfolding obj_ok_def
  proof (intro conjI allI ballI)
    fix c show "distinct (object_list s' c)" using assms(1) new by (simp add: obj_ok_def l)
  next
    fix c o' assume o: "o' \<in> set (object_list s' c)"
    show "c \<in> set rt_object_container" using o assms(1,4) by (auto simp: obj_ok_def l split: if_splits)
    show "rt_object_get_type o' s' = c"
      using o assms(1,6) t [of o' c] by (auto simp: obj_ok_def l rt_object_get_type_def obj_type_def split: if_splits)
  next
    fix c c' o1 o2 assume "o1 \<in> set (object_list s' c)" "o2 \<in> set (object_list s' c')"
    then have "o1 = obj \<or> o1 \<in> set (object_list s c)" "o2 = obj \<or> o2 \<in> set (object_list s c')" by (auto simp: l split: if_splits)
    moreover have "o1 = o2 \<or> o1 + 12 \<le> o2 \<or> o2 + 12 \<le> o1" if "o1 \<in> set (object_list s c)" "o2 \<in> set (object_list s c')"
      using assms(1) that unfolding obj_ok_def by blast
    ultimately show "o1 = o2 \<or> o1 + 12 \<le> o2 \<or> o2 + 12 \<le> o1" using assms(3) a [of o1 c] a [of o2 c'] by auto
  qed
  moreover have "dir s' = (dir s)(type := (nm, obj) # dir s type)" using n assms(7) by (auto simp: dir_def l fun_eq_iff)
  ultimately show ?thesis by (simp add: l)
qed

lemma type_static: "type \<in> set rt_object_container \<Longrightarrow> (type OR RT_Object_Class_Static) AND NOT RT_Object_Class_Static = type"
  by (auto simp: rt_object_container_def)

lemma type_plain: "type \<in> set rt_object_container \<Longrightarrow> type AND NOT RT_Object_Class_Static = type"
  by (auto simp: rt_object_container_def)

lemma strncpy_outside: "cstr m s xs \<Longrightarrow> d + n \<le> s \<or> s + length xs < d \<Longrightarrow> x < d \<or> d + n \<le> x \<Longrightarrow> rt_strncpy d s n m x = m x"
  using strncpy_loop_eq [of m s xs d n] by (auto simp: rt_strncpy_def)

lemma object_init_ok:
  assumes "obj_ok s" and "apart obj 12 s" and "type \<in> set rt_object_container" and "named (omem s) name xs obj 12"
  shows "\<exists>s'. rt_object_init obj type name s = Some s' \<and> obj_ok s' \<and> dir s' = (dir s)(type := (take RT_NAME_MAX xs, obj) # dir s type)
    \<and> (\<forall>x. x < obj \<or> obj + 12 \<le> x \<longrightarrow> omem s' x = omem s x) \<and> rt_object_is_systemobject obj s'"
proof -
  let ?m = "(omem s)(obj + 10 := type OR RT_Object_Class_Static)"
  let ?m' = "rt_strncpy obj name 10 ?m"
  have c: "cstr ?m name xs" using assms(4) cstr_cong [of name xs ?m "omem s"] by (auto simp: named_def)
  have d: "obj + 10 \<le> name \<or> name + length xs < obj" using assms(4) by (auto simp: named_def)
  have new: "obj \<notin> set (object_list s type)" using assms(2) by (fastforce simp: apart_def)
  have o: "?m' x = omem s x" if "x < obj \<or> obj + 12 \<le> x" for x using strncpy_outside [OF c d, of x] that by auto
  have t: "?m' (obj + 10) = type OR RT_Object_Class_Static" using strncpy_outside [OF c d, of "obj + 10"] by simp
  let ?s' = "obj_insert type obj (s\<lparr>omem := ?m'\<rparr>)"
  have i: "rt_object_init obj type name s = Some ?s'" using assms(3) new by (simp add: rt_object_init_def information_iff Let_def)
  have k: "obj_ok ?s' \<and> dir ?s' = (dir s)(type := (take 10 xs, obj) # dir s type) \<and> omem ?s' = ?m'"
    by (rule insert_ok [OF assms(1,2) order.refl assms(3)]) (use o t type_static [OF assms(3)] name_strncpy [OF c d] in auto)
  have "(type OR RT_Object_Class_Static) AND RT_Object_Class_Static \<noteq> 0" using assms(3) by (auto simp: rt_object_container_def)
  with i k o t show ?thesis by (auto simp: rt_object_is_systemobject_def obj_type_def)
qed

lemma object_allocate_ok:
  assumes "obj_ok s" and "apart obj (sz type) s" and "12 \<le> sz type" and "type \<in> set rt_object_container"
    and "named (omem s) name xs obj (sz type)"
  shows "\<exists>s'. rt_object_allocate sz False (Some obj) type name s = Some (Some obj, s') \<and> obj_ok s'
    \<and> dir s' = (dir s)(type := (take RT_NAME_MAX xs, obj) # dir s type) \<and> \<not> rt_object_is_systemobject obj s'"
proof -
  let ?m = "(rt_memset obj 0 (sz type) (omem s))(obj + 10 := type, obj + 11 := 0)"
  let ?m' = "rt_strncpy obj name 10 ?m"
  have f: "rt_memset obj 0 (sz type) (omem s) x = (if obj \<le> x \<and> x < obj + sz type then 0 else omem s x)" for x
    by (simp add: memset_eq filled_def)
  have c: "cstr ?m name xs" using assms(3,5) cstr_cong [of name xs ?m "omem s"] by (auto simp: named_def f)
  have d: "obj + 10 \<le> name \<or> name + length xs < obj" using assms(3,5) by (auto simp: named_def)
  have o: "?m' x = omem s x" if "x < obj \<or> obj + sz type \<le> x" for x
    using strncpy_outside [OF c d, of x] that assms(3) by (auto simp: f)
  have t: "?m' (obj + 10) = type" using strncpy_outside [OF c d, of "obj + 10"] by simp
  let ?s' = "obj_insert type obj (s\<lparr>omem := ?m'\<rparr>)"
  have i: "rt_object_allocate sz False (Some obj) type name s = Some (Some obj, ?s')"
    using assms(4) by (simp add: rt_object_allocate_def information_iff Let_def)
  have k: "obj_ok ?s' \<and> dir ?s' = (dir s)(type := (take 10 xs, obj) # dir s type) \<and> omem ?s' = ?m'"
    by (rule insert_ok [OF assms(1,2,3,4)]) (use o t type_plain [OF assms(4)] name_strncpy [OF c d] in auto)
  have "type AND RT_Object_Class_Static = 0" using assms(4) by (auto simp: rt_object_container_def)
  with i k t show ?thesis by (auto simp: rt_object_is_systemobject_def obj_type_def)
qed

lemma object_detach_ok:
  assumes "obj_ok s" and "obj \<in> set (object_list s c) \<or> apart obj 12 s"
  shows "obj_ok (rt_object_detach obj s) \<and> dir (rt_object_detach obj s) = (\<lambda>c. filter (\<lambda>e. snd e \<noteq> obj) (dir s c))"
proof -
  let ?s' = "rt_object_detach obj s"
  have l: "object_list ?s' c = removeAll obj (object_list s c)" "omem ?s' = (omem s)(obj + 10 := 0)" for c
    by (simp_all add: rt_object_detach_def obj_remove_def)
  have a: "o' + 12 \<le> obj \<or> obj + 12 \<le> o'" if "o' \<in> set (object_list s c')" "o' \<noteq> obj" for o' c'
    using assms that unfolding obj_ok_def apart_def by blast
  have n: "name_at (omem ?s') o' = name_at (omem s) o'" if "o' \<in> set (object_list s c')" "o' \<noteq> obj" for o' c'
    by (rule name_at_cong) (use a [OF that] l in auto)
  have t: "rt_object_get_type o' ?s' = rt_object_get_type o' s" if "o' \<in> set (object_list s c')" "o' \<noteq> obj" for o' c'
    using a [OF that] by (auto simp: rt_object_get_type_def obj_type_def l)
  have "obj_ok ?s'"
    unfolding obj_ok_def
  proof (intro conjI allI ballI)
    fix c show "distinct (object_list ?s' c)" using assms(1) by (simp add: obj_ok_def l distinct_removeAll)
  next
    fix c o' assume o: "o' \<in> set (object_list ?s' c)"
    then have o': "o' \<in> set (object_list s c)" "o' \<noteq> obj" by (simp_all add: l)
    then show "c \<in> set rt_object_container" "rt_object_get_type o' ?s' = c" using assms(1) t [OF o'] by (auto simp: obj_ok_def)
  next
    fix c c' o1 o2 assume "o1 \<in> set (object_list ?s' c)" "o2 \<in> set (object_list ?s' c')"
    then have "o1 \<in> set (object_list s c)" "o2 \<in> set (object_list s c')" by (simp_all add: l)
    then show "o1 = o2 \<or> o1 + 12 \<le> o2 \<or> o2 + 12 \<le> o1" using assms(1) unfolding obj_ok_def by blast
  qed
  moreover have "dir ?s' c = filter (\<lambda>e. snd e \<noteq> obj) (dir s c)" for c
    using n by (auto simp: dir_def l filter_map removeAll_filter_not_eq comp_def eq_commute)
  ultimately show ?thesis by auto
qed

lemma object_delete_eq: "\<not> rt_object_is_systemobject obj s \<Longrightarrow> rt_object_delete obj s = Some (rt_object_detach obj s)"
  by (simp add: rt_object_delete_def rt_object_detach_def rt_object_is_systemobject_def)

section \<open>Interface\<close>

locale directory =
  fixes ok :: "'s \<Rightarrow> bool" and entries :: "'s \<Rightarrow> ('n \<times> 'o) list" and lookup :: "'a \<Rightarrow> 's \<Rightarrow> 'o option" and add :: "'o \<Rightarrow> 'a \<Rightarrow> 's \<Rightarrow> 's option"
    and names :: "'s \<Rightarrow> 'a \<Rightarrow> 'n \<Rightarrow> 'o \<Rightarrow> bool" and fresh :: "'o \<Rightarrow> 's \<Rightarrow> bool"
  assumes lookup_entries: "ok s \<Longrightarrow> names s a n ob \<Longrightarrow> lookup a s = map_of (entries s) n"
    and add_entries: "ok s \<Longrightarrow> names s a n ob \<Longrightarrow> fresh ob s \<Longrightarrow> \<exists>s'. add ob a s = Some s' \<and> ok s' \<and> entries s' = (n, ob) # entries s"
begin

text \<open>Adding only what is not found keeps the names unique, and what is added is found by its name from then on.\<close>

lemma guarded_add:
  assumes "ok s" "names s a n ob" "fresh ob s" "distinct (map fst (entries s))" "lookup a s = None"
  shows "\<exists>s'. add ob a s = Some s' \<and> ok s' \<and> distinct (map fst (entries s'))
    \<and> map_of (entries s') = (map_of (entries s))(n \<mapsto> ob)"
proof -
  have "map_of (entries s) n = None" using lookup_entries assms(1,2,5) by metis
  then have "n \<notin> fst ` set (entries s)" by (simp add: map_of_eq_None_iff)
  with add_entries [OF assms(1-3)] assms(4) show ?thesis by auto
qed

end

interpretation devices: directory obj_ok "\<lambda>s. dir s RT_Object_Class_Device" "\<lambda>a s. find_loop a (object_list s RT_Object_Class_Device) (omem s)"
  "\<lambda>obj a s. rt_object_init obj RT_Object_Class_Device a s" "\<lambda>s a n obj. \<exists>xs. n = take RT_NAME_MAX xs \<and> named (omem s) a xs obj 12"
  "\<lambda>obj s. apart obj 12 s"
proof
  fix s :: objects and a n obj
  assume "\<exists>xs. n = take RT_NAME_MAX xs \<and> named (omem s) a xs obj 12"
  then show "find_loop a (object_list s 9) (omem s) = map_of (dir s 9) n" using find_dir [of "omem s" a] by (auto simp: named_def dir_def)
next
  fix s :: objects and a n obj
  assume "obj_ok s" "apart obj 12 s" "\<exists>xs. n = take RT_NAME_MAX xs \<and> named (omem s) a xs obj 12"
  then show "\<exists>s'. rt_object_init obj 9 a s = Some s' \<and> obj_ok s' \<and> dir s' 9 = (n, obj) # dir s 9"
    using object_init_ok [of s obj 9 a] by (fastforce simp: rt_object_container_def)
qed

section \<open>Histories\<close>

text \<open>All histories of the object system beside a directory: a list of names and objects for every class. Objects that are registered do not
  overlap registered ones; the last rule is any other change of the memory.\<close>

inductive obj_run :: "(u8 \<Rightarrow> nat) \<Rightarrow> objects \<Rightarrow> (u8 \<Rightarrow> (bytes \<times> nat) list) \<Rightarrow> bool" for sz where
  start: "(\<And>c. object_list s c = []) \<Longrightarrow> obj_run sz s (\<lambda>_. [])"
| init: "obj_run sz s d \<Longrightarrow> apart obj 12 s \<Longrightarrow> named (omem s) name xs obj 12 \<Longrightarrow> rt_object_init obj type name s = Some s' \<Longrightarrow>
    obj_run sz s' (d(type := (take RT_NAME_MAX xs, obj) # d type))"
| alloc: "obj_run sz s d \<Longrightarrow> apart obj (sz type) s \<Longrightarrow> 12 \<le> sz type \<Longrightarrow> named (omem s) name xs obj (sz type) \<Longrightarrow>
    rt_object_allocate sz in_irq (Some obj) type name s = Some (Some obj, s') \<Longrightarrow>
    obj_run sz s' (d(type := (take RT_NAME_MAX xs, obj) # d type))"
| detach: "obj_run sz s d \<Longrightarrow> obj \<in> set (object_list s c) \<Longrightarrow>
    obj_run sz (rt_object_detach obj s) (\<lambda>c. filter (\<lambda>e. snd e \<noteq> obj) (d c))"
| delete: "obj_run sz s d \<Longrightarrow> obj \<in> set (object_list s c) \<Longrightarrow> rt_object_delete obj s = Some s' \<Longrightarrow>
    obj_run sz s' (\<lambda>c. filter (\<lambda>e. snd e \<noteq> obj) (d c))"
| other: "obj_run sz s d \<Longrightarrow> (\<And>c obj x. obj \<in> set (object_list s c) \<Longrightarrow> obj \<le> x \<Longrightarrow> x < obj + 12 \<Longrightarrow> m x = omem s x) \<Longrightarrow>
    obj_run sz (s\<lparr>omem := m\<rparr>) d"

lemma init_type: "rt_object_init obj type name s = Some s' \<Longrightarrow> type \<in> set rt_object_container"
  by (auto simp: rt_object_init_def information_iff bind_eq_Some_conv split: if_splits)

lemma allocate_type: "rt_object_allocate sz irq a type name s = Some r \<Longrightarrow> type \<in> set rt_object_container \<and> \<not> irq"
  by (auto simp: rt_object_allocate_def information_iff bind_eq_Some_conv RT_ASSERT_def split: if_splits)

lemma obj_run_dir: "obj_run sz s d \<Longrightarrow> obj_ok s \<and> dir s = d"
proof (induction rule: obj_run.induct)
  case (start s)
  then show ?case by (simp add: obj_ok_def dir_def fun_eq_iff)
next
  case (init s d obj name xs type s')
  with object_init_ok [of s obj type name xs] init_type [OF init.hyps(4)] show ?case by auto
next
  case (alloc s d obj type name xs in_irq s')
  with object_allocate_ok [of s obj sz type name xs] allocate_type [OF alloc.hyps(5)] show ?case by auto
next
  case (detach s d obj c)
  with object_detach_ok [of s obj c] show ?case by simp
next
  case (delete s d obj c s')
  then have "\<not> rt_object_is_systemobject obj s" by (simp add: rt_object_delete_def rt_object_is_systemobject_def RT_ASSERT_def split: if_splits)
  with delete object_detach_ok [of s obj c] object_delete_eq show ?case by simp
next
  case (other s d m)
  have n: "name_at m obj = name_at (omem s) obj" if "obj \<in> set (object_list s c)" for obj c
    by (rule name_at_cong) (use other.hyps(2) [OF that] in simp)
  have t: "m (obj + 10) = omem s (obj + 10)" if "obj \<in> set (object_list s c)" for obj c using other.hyps(2) [OF that, of "obj + 10"] by simp
  have "dir (s\<lparr>omem := m\<rparr>) = dir s" using n by (auto simp: dir_def fun_eq_iff)
  moreover have "obj_ok (s\<lparr>omem := m\<rparr>)" using other.IH t by (auto simp: obj_ok_def rt_object_get_type_def obj_type_def)
  ultimately show ?case using other.IH by simp
qed

text \<open>C32: The object system refines a directory. After every history of registrations, allocations, detachments and deletions, with any
  other use of the memory in between, searching a name in a class finds exactly what a list of names and objects gives: the
  object registered last among those of the class that are still registered and whose name has the same first ten characters,
  or nothing.\<close>

theorem object_refines_directory:
  assumes "obj_run sz s d" and "cstr (omem s) name ys" and "type \<in> set rt_object_container"
  shows "rt_object_find False (Some name) type s = Some (map_of (d type) (take RT_NAME_MAX ys))"
  using object_find_dir [OF assms(2,3)] obj_run_dir [OF assms(1)] by simp

theorem object_refines_directory_witness:
  "\<exists>s'. rt_object_init 100 RT_Object_Class_Device 200 \<lparr>omem = (\<lambda>_. 0)(200 := 117, 201 := 51), object_list = \<lambda>_. []\<rparr> = Some s'
     \<and> rt_object_find False (Some 200) RT_Object_Class_Device s' = Some (Some 100)"
proof -
  let ?s = "\<lparr>omem = (\<lambda>_. 0)(200 := 117, 201 := 51 :: u8), object_list = \<lambda>_ :: u8. [] :: nat list\<rparr>"
  have n: "named (omem ?s) 200 [117, 51] 100 12" by (simp add: named_def)
  have a: "apart 100 12 ?s" by (simp add: apart_def)
  have c: "(9 :: u8) \<in> set rt_object_container" by (simp add: rt_object_container_def)
  obtain s' where s': "rt_object_init 100 9 200 ?s = Some s'" "\<forall>x. x < 100 \<or> 100 + 12 \<le> x \<longrightarrow> omem s' x = omem ?s x"
    using object_init_ok [OF _ a c n] by (auto simp: obj_ok_def)
  have r: "obj_run (\<lambda>_. 12) s' ((\<lambda>_. [])(9 := [(take 10 [117, 51], 100)]))"
    using obj_run.init [OF obj_run.start a n s'(1)] by simp
  have "cstr (omem s') 200 [117, 51]" using s'(2) by simp
  from object_refines_directory [OF r this c] s'(1) show ?thesis by auto
qed

end
