(* ===== verification/Device.thy ===== *)
theory Device
  imports Object Uart
begin

text \<open>
  The device layer of RTT4/src/device.c over the object system, and the serial devices of RTT4/bsp-ls1x/drv_uart.c, which connect it to
  theory Uart. The functions of a device driver are a record of optional functions on the driver's data; \<open>None\<close> as result of one
  means that it does not return. A device is the address of its object and not \<^verbatim>\<open>NULL\<close>. The locale \<open>device_driver\<close> is what the device layer relies on.
\<close>

abbreviation (input) RT_EBUSY :: rt_err_t where "RT_EBUSY \<equiv> 7"
abbreviation (input) RT_ENOSYS :: rt_err_t where "RT_ENOSYS \<equiv> 6"
abbreviation (input) RT_DEVICE_FLAG_RDWR :: u16 where "RT_DEVICE_FLAG_RDWR \<equiv> 0x003"
abbreviation (input) RT_DEVICE_FLAG_STANDALONE :: u16 where "RT_DEVICE_FLAG_STANDALONE \<equiv> 0x008"
abbreviation (input) RT_DEVICE_FLAG_ACTIVATED :: u16 where "RT_DEVICE_FLAG_ACTIVATED \<equiv> 0x010"
abbreviation (input) RT_DEVICE_FLAG_STREAM :: u16 where "RT_DEVICE_FLAG_STREAM \<equiv> 0x040"
abbreviation (input) RT_DEVICE_FLAG_INT_RX :: u16 where "RT_DEVICE_FLAG_INT_RX \<equiv> 0x100"
abbreviation (input) RT_DEVICE_OFLAG_CLOSE :: u16 where "RT_DEVICE_OFLAG_CLOSE \<equiv> 0x000"
abbreviation (input) RT_DEVICE_OFLAG_OPEN :: u16 where "RT_DEVICE_OFLAG_OPEN \<equiv> 0x008"
abbreviation (input) RT_DEVICE_OFLAG_MASK :: u16 where "RT_DEVICE_OFLAG_MASK \<equiv> 0xf0f"

record device =
  dev_flag :: u16
  open_flag :: u16
  ref_count :: u8
  rx_indicate :: nat
  tx_complete :: nat

record ('d, 'c) driver =
  d_init :: "(device \<Rightarrow> 'd \<Rightarrow> (rt_err_t \<times> device \<times> 'd) option) option"
  d_open :: "(device \<Rightarrow> u16 \<Rightarrow> 'd \<Rightarrow> (rt_err_t \<times> device \<times> 'd) option) option"
  d_close :: "(device \<Rightarrow> 'd \<Rightarrow> (rt_err_t \<times> device \<times> 'd) option) option"
  d_read :: "(int \<Rightarrow> bytes \<Rightarrow> nat \<Rightarrow> 'd \<Rightarrow> (nat \<times> bytes \<times> 'd) option) option"
  d_write :: "(int \<Rightarrow> bytes \<Rightarrow> 'd \<Rightarrow> (nat \<times> 'd) option) option"
  d_control :: "('c \<Rightarrow> 'd \<Rightarrow> (rt_err_t \<times> 'd) option) option"

record 'd devices =
  objs :: objects
  devs :: "nat \<Rightarrow> device"
  drvs :: "nat \<Rightarrow> 'd"

definition set_dev :: "nat \<Rightarrow> device \<Rightarrow> 'd \<Rightarrow> 'd devices \<Rightarrow> 'd devices" where
  "set_dev dev d x s = s\<lparr>devs := (devs s)(dev := d), drvs := (drvs s)(dev := x)\<rparr>"

section \<open>Registration\<close>

definition rt_device_find :: "nat \<Rightarrow> 'd devices \<Rightarrow> nat option" where
  "rt_device_find name s = find_loop name (object_list (objs s) RT_Object_Class_Device) (omem (objs s))"

definition rt_device_register :: "nat option \<Rightarrow> nat \<Rightarrow> u16 \<Rightarrow> 'd devices \<Rightarrow> (rt_err_t \<times> 'd devices) option" where
  "rt_device_register dev name flags s =
     (case dev of
        None \<Rightarrow> Some (- RT_ERROR, s)
      | Some dev \<Rightarrow>
          if rt_device_find name s \<noteq> None then Some (- RT_ERROR, s)
          else do {
            o' \<leftarrow> rt_object_init dev RT_Object_Class_Device name (objs s);
            let d = (devs s dev)\<lparr>dev_flag := flags, ref_count := 0, open_flag := 0\<rparr>;
            Some (RT_EOK, s\<lparr>objs := o', devs := (devs s)(dev := d)\<rparr>) })"

definition rt_device_unregister :: "nat \<Rightarrow> 'd devices \<Rightarrow> (rt_err_t \<times> 'd devices) option" where
  "rt_device_unregister dev s = do {
     RT_ASSERT (rt_object_get_type dev (objs s) = RT_Object_Class_Device);
     RT_ASSERT (rt_object_is_systemobject dev (objs s));
     Some (RT_EOK, s\<lparr>objs := rt_object_detach dev (objs s)\<rparr>) }"

text \<open>A created device: its memory is cleared. \<open>dev_size\<close> is the size of the structure, \<open>alloc\<close> the answer of the allocator.\<close>

definition rt_device_create :: "nat \<Rightarrow> nat option \<Rightarrow> 'd devices \<Rightarrow> nat option \<times> 'd devices" where
  "rt_device_create dev_size alloc s =
     (case alloc of
        None \<Rightarrow> (None, s)
      | Some dev \<Rightarrow>
          (Some dev, s\<lparr>objs := (objs s)\<lparr>omem := rt_memset dev 0 dev_size (omem (objs s))\<rparr>,
             devs := (devs s)(dev := \<lparr>dev_flag = 0, open_flag = 0, ref_count = 0, rx_indicate = 0, tx_complete = 0\<rparr>)\<rparr>))"

text \<open>The memory is released then.\<close>

definition rt_device_destroy :: "nat \<Rightarrow> 'd devices \<Rightarrow> 'd devices option" where
  "rt_device_destroy dev s = do {
     RT_ASSERT (rt_object_get_type dev (objs s) = RT_Object_Class_Device);
     RT_ASSERT (\<not> rt_object_is_systemobject dev (objs s));
     Some (s\<lparr>objs := rt_object_detach dev (objs s)\<rparr>) }"

section \<open>Use\<close>

definition rt_device_init :: "('d, 'c) driver \<Rightarrow> nat \<Rightarrow> 'd devices \<Rightarrow> (rt_err_t \<times> 'd devices) option" where
  "rt_device_init drv dev s =
     (case d_init drv of
        None \<Rightarrow> Some (RT_EOK, s)
      | Some f \<Rightarrow>
          if dev_flag (devs s dev) AND RT_DEVICE_FLAG_ACTIVATED = 0 then do {
            (r, d, x) \<leftarrow> f (devs s dev) (drvs s dev);
            Some (r, set_dev dev (if r \<noteq> RT_EOK then d else d\<lparr>dev_flag := dev_flag d OR RT_DEVICE_FLAG_ACTIVATED\<rparr>) x s) }
          else Some (RT_EOK, s))"

text \<open>The beginning of \<^verbatim>\<open>rt_device_open\<close>: a device that is not activated is initialised.\<close>

definition open_init :: "('d, 'c) driver \<Rightarrow> device \<Rightarrow> 'd \<Rightarrow> (rt_err_t \<times> device \<times> 'd) option" where
  "open_init drv d x =
     (if dev_flag d AND RT_DEVICE_FLAG_ACTIVATED = 0 then do {
        (r, d, x) \<leftarrow> (case d_init drv of None \<Rightarrow> Some (RT_EOK, d, x) | Some f \<Rightarrow> f d x);
        Some (r, if r \<noteq> RT_EOK then d else d\<lparr>dev_flag := dev_flag d OR RT_DEVICE_FLAG_ACTIVATED\<rparr>, x) }
      else Some (RT_EOK, d, x))"

definition rt_device_open :: "('d, 'c) driver \<Rightarrow> nat \<Rightarrow> u16 \<Rightarrow> 'd devices \<Rightarrow> (rt_err_t \<times> 'd devices) option" where
  "rt_device_open drv dev oflag s = do {
     RT_ASSERT (rt_object_get_type dev (objs s) = RT_Object_Class_Device);
     (r, d, x) \<leftarrow> open_init drv (devs s dev) (drvs s dev);
     if r \<noteq> RT_EOK then Some (r, set_dev dev d x s)
     else if dev_flag d AND RT_DEVICE_FLAG_STANDALONE \<noteq> 0 \<and> open_flag d AND RT_DEVICE_OFLAG_OPEN \<noteq> 0
     then Some (- RT_EBUSY, set_dev dev d x s)
     else do {
       (r, d, x) \<leftarrow> (case d_open drv of
                       Some f \<Rightarrow> f d oflag x
                     | None \<Rightarrow> Some (RT_EOK, d\<lparr>open_flag := oflag AND RT_DEVICE_OFLAG_MASK\<rparr>, x));
       if r = RT_EOK \<or> r = - RT_ENOSYS then do {
         let d = d\<lparr>open_flag := open_flag d OR RT_DEVICE_OFLAG_OPEN, ref_count := ref_count d + 1\<rparr>;
         RT_ASSERT (ref_count d \<noteq> 0);
         Some (r, set_dev dev d x s) }
       else Some (r, set_dev dev d x s) } }"

definition rt_device_close :: "('d, 'c) driver \<Rightarrow> nat \<Rightarrow> 'd devices \<Rightarrow> (rt_err_t \<times> 'd devices) option" where
  "rt_device_close drv dev s = do {
     RT_ASSERT (rt_object_get_type dev (objs s) = RT_Object_Class_Device);
     let d = devs s dev;
     if ref_count d = 0 then Some (- RT_ERROR, s)
     else do {
       let d = d\<lparr>ref_count := ref_count d - 1\<rparr>;
       if ref_count d \<noteq> 0 then Some (RT_EOK, set_dev dev d (drvs s dev) s)
       else do {
         (r, d, x) \<leftarrow> (case d_close drv of Some f \<Rightarrow> f d (drvs s dev) | None \<Rightarrow> Some (RT_EOK, d, drvs s dev));
         Some (r, set_dev dev (if r = RT_EOK \<or> r = - RT_ENOSYS then d\<lparr>open_flag := RT_DEVICE_OFLAG_CLOSE\<rparr> else d) x s) } } }"

text \<open>The results of \<^verbatim>\<open>rt_device_read\<close> and \<^verbatim>\<open>rt_device_write\<close> include the value given to \<^verbatim>\<open>rt_set_errno\<close>, if any.\<close>

definition rt_device_read ::
  "('d, 'c) driver \<Rightarrow> nat \<Rightarrow> int \<Rightarrow> bytes \<Rightarrow> nat \<Rightarrow> 'd devices \<Rightarrow> (nat \<times> rt_err_t option \<times> bytes \<times> 'd devices) option" where
  "rt_device_read drv dev pos buf sz s = do {
     RT_ASSERT (rt_object_get_type dev (objs s) = RT_Object_Class_Device);
     if ref_count (devs s dev) = 0 then Some (0, Some (- RT_ERROR), buf, s)
     else case d_read drv of
       Some f \<Rightarrow> do { (n, buf, x) \<leftarrow> f pos buf sz (drvs s dev); Some (n, None, buf, set_dev dev (devs s dev) x s) }
     | None \<Rightarrow> Some (0, Some (- RT_ENOSYS), buf, s) }"

definition rt_device_write ::
  "('d, 'c) driver \<Rightarrow> nat \<Rightarrow> int \<Rightarrow> bytes \<Rightarrow> 'd devices \<Rightarrow> (nat \<times> rt_err_t option \<times> 'd devices) option" where
  "rt_device_write drv dev pos buf s = do {
     RT_ASSERT (rt_object_get_type dev (objs s) = RT_Object_Class_Device);
     if ref_count (devs s dev) = 0 then Some (0, Some (- RT_ERROR), s)
     else case d_write drv of
       Some f \<Rightarrow> do { (n, x) \<leftarrow> f pos buf (drvs s dev); Some (n, None, set_dev dev (devs s dev) x s) }
     | None \<Rightarrow> Some (0, Some (- RT_ENOSYS), s) }"

definition rt_device_control :: "('d, 'c) driver \<Rightarrow> nat \<Rightarrow> 'c \<Rightarrow> 'd devices \<Rightarrow> (rt_err_t \<times> 'd devices) option" where
  "rt_device_control drv dev cmd s = do {
     RT_ASSERT (rt_object_get_type dev (objs s) = RT_Object_Class_Device);
     case d_control drv of
       Some f \<Rightarrow> do { (r, x) \<leftarrow> f cmd (drvs s dev); Some (r, set_dev dev (devs s dev) x s) }
     | None \<Rightarrow> Some (- RT_ENOSYS, s) }"

definition rt_device_set_rx_indicate :: "nat \<Rightarrow> nat \<Rightarrow> 'd devices \<Rightarrow> (rt_err_t \<times> 'd devices) option" where
  "rt_device_set_rx_indicate dev rx_ind s = do {
     RT_ASSERT (rt_object_get_type dev (objs s) = RT_Object_Class_Device);
     Some (RT_EOK, set_dev dev ((devs s dev)\<lparr>rx_indicate := rx_ind\<rparr>) (drvs s dev) s) }"

definition rt_device_set_tx_complete :: "nat \<Rightarrow> nat \<Rightarrow> 'd devices \<Rightarrow> (rt_err_t \<times> 'd devices) option" where
  "rt_device_set_tx_complete dev tx_done s = do {
     RT_ASSERT (rt_object_get_type dev (objs s) = RT_Object_Class_Device);
     Some (RT_EOK, set_dev dev ((devs s dev)\<lparr>tx_complete := tx_done\<rparr>) (drvs s dev) s) }"

section \<open>Serial devices\<close>

text \<open>Arguments: the chip, the bus frequency, the addresses of the interrupt handler, of the port and of the default handler, and whether an
  interrupt arrives during a write.\<close>

definition rt_uart_init :: "chip \<Rightarrow> u32 \<Rightarrow> device \<Rightarrow> uart \<Rightarrow> (rt_err_t \<times> device \<times> uart) option" where
  "rt_uart_init chip bus d u = (let (r, u) = NS16550_init chip bus 0 u in Some (if r \<noteq> 0 then RT_ERROR else RT_EOK, d, u))"

definition rt_uart_open :: "chip \<Rightarrow> nat \<Rightarrow> nat \<Rightarrow> device \<Rightarrow> u16 \<Rightarrow> uart \<Rightarrow> (rt_err_t \<times> device \<times> uart) option" where
  "rt_uart_open chip isr self d oflag u =
     (let (r, u) = NS16550_open chip isr self None u
      in Some (if r \<noteq> 0 then (RT_ERROR, d, u)
               else (RT_EOK, d\<lparr>open_flag := (oflag OR RT_DEVICE_FLAG_STREAM) AND 0xff\<rparr>, u)))"

definition rt_uart_close :: "nat \<Rightarrow> device \<Rightarrow> uart \<Rightarrow> (rt_err_t \<times> device \<times> uart) option" where
  "rt_uart_close default_isr d u = Some (RT_EOK, d, snd (NS16550_close default_isr u))"

definition rt_uart_read :: "chip \<Rightarrow> int \<Rightarrow> bytes \<Rightarrow> nat \<Rightarrow> uart \<Rightarrow> (nat \<times> bytes \<times> uart) option" where
  "rt_uart_read chip pos buf sz u = (if sz = 0 then Some (0, buf, u) else NS16550_read chip [] 0 buf sz u)"

definition rt_uart_write :: "chip \<Rightarrow> (uart \<Rightarrow> uart option) \<Rightarrow> int \<Rightarrow> bytes \<Rightarrow> uart \<Rightarrow> (nat \<times> uart) option" where
  "rt_uart_write chip irq pos buf u = (if buf = [] then Some (0, u) else NS16550_write chip irq buf u)"

definition rt_uart_control :: "chip \<Rightarrow> uart_cmd \<Rightarrow> uart \<Rightarrow> (rt_err_t \<times> uart) option" where
  "rt_uart_control chip cmd u = (let (_, _, u) = NS16550_ioctl chip cmd u in Some (RT_EOK, u))"

definition during_write :: "chip \<Rightarrow> bool \<Rightarrow> uart \<Rightarrow> uart option" where
  "during_write chip irq u = (if irq then NS16550_interrupt_handler chip u else Some u)"

definition uart_driver :: "chip \<Rightarrow> u32 \<Rightarrow> nat \<Rightarrow> nat \<Rightarrow> nat \<Rightarrow> bool \<Rightarrow> (uart, uart_cmd) driver" where
  "uart_driver chip bus isr self default_isr irq =
     \<lparr>d_init = Some (rt_uart_init chip bus), d_open = Some (rt_uart_open chip isr self), d_close = Some (rt_uart_close default_isr),
      d_read = Some (rt_uart_read chip), d_write = Some (rt_uart_write chip (during_write chip irq)), d_control = Some (rt_uart_control chip)\<rparr>"

text \<open>The console port is not registered.\<close>

definition rt_ls1x_uart_register :: "nat \<Rightarrow> uart \<Rightarrow> nat \<Rightarrow> u16 \<Rightarrow> uart devices \<Rightarrow> (rt_err_t \<times> uart devices) option" where
  "rt_ls1x_uart_register dev port name flag s =
     (if ConsolePort port then Some (0, s)
      else rt_device_register (Some dev) name flag
             (s\<lparr>devs := (devs s)(dev := (devs s dev)\<lparr>rx_indicate := 0, tx_complete := 0\<rparr>), drvs := (drvs s)(dev := port)\<rparr>))"

section \<open>The protocol of opening and closing\<close>

text \<open>All histories of a device: the number is that of successful opens less that of successful closes. \<open>env\<close> are the
  changes of the driver's data by interrupts, which happen while the device is open.\<close>

inductive dev_run :: "('d, 'c) driver \<Rightarrow> ('d \<Rightarrow> 'd \<Rightarrow> bool) \<Rightarrow> nat \<Rightarrow> 'd devices \<Rightarrow> 'd devices \<Rightarrow> nat \<Rightarrow> bool" for drv env dev s0 where
  start: "dev_run drv env dev s0 s0 0"
| open_dev: "dev_run drv env dev s0 s n \<Longrightarrow> rt_device_open drv dev oflag s = Some (r, s') \<Longrightarrow> dev_run drv env dev s0 s' (if r = RT_EOK then n + 1 else n)"
| close_dev: "dev_run drv env dev s0 s n \<Longrightarrow> rt_device_close drv dev s = Some (r, s') \<Longrightarrow> dev_run drv env dev s0 s' (if r = RT_EOK then n - 1 else n)"
| read_dev: "dev_run drv env dev s0 s n \<Longrightarrow> rt_device_read drv dev pos buf sz s = Some (k, e, buf', s') \<Longrightarrow> dev_run drv env dev s0 s' n"
| write_dev: "dev_run drv env dev s0 s n \<Longrightarrow> rt_device_write drv dev pos buf s = Some (k, e, s') \<Longrightarrow> dev_run drv env dev s0 s' n"
| control_dev: "dev_run drv env dev s0 s n \<Longrightarrow> rt_device_control drv dev cmd s = Some (r, s') \<Longrightarrow> dev_run drv env dev s0 s' n"
| irq_dev: "dev_run drv env dev s0 s n \<Longrightarrow> 0 < n \<Longrightarrow> env (drvs s dev) x \<Longrightarrow> dev_run drv env dev s0 (set_dev dev (devs s dev) x s) n"

text \<open>The state of a device after \<open>n\<close> opens that were not closed.\<close>

definition dev_ok :: "('d \<Rightarrow> bool) \<Rightarrow> ('d \<Rightarrow> bool) \<Rightarrow> nat \<Rightarrow> 'd devices \<Rightarrow> nat \<Rightarrow> bool" where
  "dev_ok good up dev s n \<longleftrightarrow> n < 256 \<and> unat (ref_count (devs s dev)) = n \<and> (open_flag (devs s dev) AND RT_DEVICE_OFLAG_OPEN \<noteq> 0 \<longleftrightarrow> 0 < n)
     \<and> dev_flag (devs s dev) AND RT_DEVICE_FLAG_STANDALONE = 0 \<and> rt_object_get_type dev (objs s) = RT_Object_Class_Device
     \<and> good (drvs s dev) \<and> (up (drvs s dev) \<longleftrightarrow> 0 < n)"

lemma open_bit [simp]: "(x OR 8) AND 8 = 8" "(x OR 16) AND 8 = x AND 8" for x :: u16
  by (simp_all add: bit.conj_disj_distrib2)

lemma set_dev_simps [simp]:
  "objs (set_dev dev d x s) = objs s" "devs (set_dev dev d x s) dev = d" "drvs (set_dev dev d x s) dev = x"
  by (simp_all add: set_dev_def)

locale device_driver =
  fixes drv :: "('d, 'c) driver" and good :: "'d \<Rightarrow> bool" and up :: "'d \<Rightarrow> bool" and env :: "'d \<Rightarrow> 'd \<Rightarrow> bool"
  assumes init_ok: "\<exists>f. d_init drv = Some f \<and> (\<forall>d x. good x \<longrightarrow> (\<exists>x'. f d x = Some (RT_EOK, d, x') \<and> good x' \<and> up x' = up x))"
    and open_ok: "\<exists>f. d_open drv = Some f \<and> (\<forall>d fl x. good x \<longrightarrow> (\<exists>fl' x'. f d fl x = Some (RT_EOK, d\<lparr>open_flag := fl'\<rparr>, x') \<and> good x' \<and> up x'))"
    and close_ok: "\<exists>f. d_close drv = Some f \<and> (\<forall>d x. good x \<longrightarrow> (\<exists>x'. f d x = Some (RT_EOK, d, x') \<and> good x' \<and> \<not> up x'))"
    and read_ok: "\<exists>f. d_read drv = Some f \<and> (\<forall>pos buf n x k b x'. good x \<longrightarrow> up x \<longrightarrow> f pos buf n x = Some (k, b, x') \<longrightarrow> good x' \<and> up x')"
    and write_ok: "\<exists>f. d_write drv = Some f \<and> (\<forall>pos buf x k x'. good x \<longrightarrow> up x \<longrightarrow> f pos buf x = Some (k, x') \<longrightarrow> good x' \<and> up x')"
    and control_ok: "\<exists>f. d_control drv = Some f \<and> (\<forall>cmd x r x'. good x \<longrightarrow> f cmd x = Some (r, x') \<longrightarrow> good x' \<and> up x' = up x)"
    and env_ok: "good x \<Longrightarrow> up x \<Longrightarrow> env x x' \<Longrightarrow> good x' \<and> up x'"
begin

lemma open_init_ok:
  assumes "good x"
  shows "\<exists>d' x'. open_init drv d x = Some (RT_EOK, d', x') \<and> good x' \<and> up x' = up x \<and> ref_count d' = ref_count d
    \<and> open_flag d' = open_flag d \<and> dev_flag d' AND 8 = dev_flag d AND 8"
proof -
  obtain f where f: "d_init drv = Some f" "\<forall>d x. good x \<longrightarrow> (\<exists>x'. f d x = Some (RT_EOK, d, x') \<and> good x' \<and> up x' = up x)"
    using init_ok by blast
  then obtain x' where "f d x = Some (RT_EOK, d, x')" "good x'" "up x' = up x" using assms by blast
  with assms f(1) show ?thesis by (auto simp: open_init_def)
qed

lemma dev_open_step:
  assumes "dev_ok good up dev s n"
  shows "if n < 255 then \<exists>s'. rt_device_open drv dev oflag s = Some (RT_EOK, s') \<and> dev_ok good up dev s' (n + 1)
    else rt_device_open drv dev oflag s = None"
proof -
  have a: "n < 256" "unat (ref_count (devs s dev)) = n" "dev_flag (devs s dev) AND 8 = 0" "rt_object_get_type dev (objs s) = 9" "good (drvs s dev)"
    using assms by (auto simp: dev_ok_def)
  from open_init_ok [OF a(5), of "devs s dev"] obtain d x where i: "open_init drv (devs s dev) (drvs s dev) = Some (RT_EOK, d, x)" "good x"
    "ref_count d = ref_count (devs s dev)" "dev_flag d AND 8 = 0" using a(3) by auto
  obtain f where "d_open drv = Some f" "\<forall>d fl x. good x \<longrightarrow> (\<exists>fl' x'. f d fl x = Some (RT_EOK, d\<lparr>open_flag := fl'\<rparr>, x') \<and> good x' \<and> up x')"
    using open_ok by blast
  then obtain fl x' where f: "d_open drv = Some f" "f d oflag x = Some (RT_EOK, d\<lparr>open_flag := fl\<rparr>, x')" "good x'" "up x'" using i(2) by metis
  let ?d = "d\<lparr>open_flag := fl OR 8, ref_count := ref_count d + 1\<rparr>"
  have o: "rt_device_open drv dev oflag s = (if ref_count d + 1 \<noteq> 0 then Some (RT_EOK, set_dev dev ?d x' s) else None)"
    using a(4) i(1,4) f(1,2) by (simp add: rt_device_open_def Let_def RT_ASSERT_def)
  show ?thesis
  proof (cases "n < 255")
    case True
    have u: "unat (ref_count d + 1) = n + 1" using unat_plus_one [of "ref_count d"] True a(2) i(3) by simp
    then have "ref_count d + 1 \<noteq> 0" by (metis Suc_eq_plus1 nat.distinct(1) unat_0)
    with o u True a(4) i(4) f(3,4) show ?thesis by (simp add: dev_ok_def)
  next
    case False
    then have "unat (ref_count d) = 255" using a i(3) by simp
    then have "ref_count d = 255" by (simp add: word_unat_eq_iff)
    with o False show ?thesis by simp
  qed
qed

lemma dev_close_step:
  assumes "dev_ok good up dev s n"
  shows "\<exists>r s'. rt_device_close drv dev s = Some (r, s') \<and> (if n = 0 then r = - RT_ERROR \<and> s' = s else r = RT_EOK) \<and> dev_ok good up dev s' (n - 1)"
proof -
  let ?d = "devs s dev" and ?x = "drvs s dev"
  have a: "n < 256" "unat (ref_count ?d) = n" "dev_flag ?d AND 8 = 0" "rt_object_get_type dev (objs s) = 9" "good ?x"
    using assms by (auto simp: dev_ok_def)
  obtain f where "d_close drv = Some f" "\<forall>d x. good x \<longrightarrow> (\<exists>x'. f d x = Some (RT_EOK, d, x') \<and> good x' \<and> \<not> up x')" using close_ok by blast
  then obtain x' where f: "d_close drv = Some f" "f (?d\<lparr>ref_count := ref_count ?d - 1\<rparr>) ?x = Some (RT_EOK, ?d\<lparr>ref_count := ref_count ?d - 1\<rparr>, x')"
    "good x'" "\<not> up x'" using a(5) by metis
  consider "n = 0" | "n = 1" | "1 < n" by linarith
  then show ?thesis
  proof cases
    case 1
    then have "ref_count ?d = 0" using a(2) by (simp add: unat_eq_0)
    with a(4) 1 assms show ?thesis by (simp add: rt_device_close_def Let_def)
  next
    case 2
    then have "ref_count ?d = 1" using a(2) by (simp add: word_unat_eq_iff)
    with a f 2 show ?thesis by (simp add: rt_device_close_def Let_def dev_ok_def)
  next
    case 3
    then have r: "ref_count ?d \<noteq> 0" using a(2) by auto
    then have u: "unat (ref_count ?d - 1) = n - 1" using unat_minus_one_pos a(2) by metis
    then have "ref_count ?d - 1 \<noteq> 0" using 3 by (metis unat_0 zero_less_diff less_irrefl)
    with r a u 3 assms show ?thesis by (simp add: rt_device_close_def Let_def dev_ok_def)
  qed
qed

lemma dev_keep_step: "dev_ok good up dev s n \<Longrightarrow> good x \<Longrightarrow> up x = up (drvs s dev) \<Longrightarrow> dev_ok good up dev (set_dev dev (devs s dev) x s) n"
  by (simp add: dev_ok_def)

lemma open_up: "dev_ok good up dev s n \<Longrightarrow> ref_count (devs s dev) \<noteq> 0 \<Longrightarrow> good (drvs s dev) \<and> up (drvs s dev)"
  using unat_eq_zero [of "ref_count (devs s dev)"] by (auto simp: dev_ok_def)

lemma dev_read_step:
  assumes "dev_ok good up dev s n" and "rt_device_read drv dev pos buf sz s = Some (k, e, buf', s')"
  shows "dev_ok good up dev s' n \<and> (n = 0 \<longrightarrow> k = 0 \<and> e = Some (- RT_ERROR) \<and> buf' = buf \<and> s' = s)"
proof (cases "ref_count (devs s dev) = 0")
  case True
  with assms show ?thesis by (auto simp: rt_device_read_def bind_eq_Some_conv)
next
  case False
  then have n: "n \<noteq> 0" using assms(1) unat_eq_zero [of "ref_count (devs s dev)"] by (auto simp: dev_ok_def)
  have u: "good (drvs s dev)" "up (drvs s dev)" using open_up [OF assms(1) False] by simp_all
  obtain f where f: "d_read drv = Some f" "\<forall>pos buf n x k b x'. good x \<longrightarrow> up x \<longrightarrow> f pos buf n x = Some (k, b, x') \<longrightarrow> good x' \<and> up x'" using read_ok by blast
  from assms(2) False f(1) obtain x' where "f pos buf sz (drvs s dev) = Some (k, buf', x')" "s' = set_dev dev (devs s dev) x' s"
    by (auto simp: rt_device_read_def bind_eq_Some_conv)
  moreover from this f(2) u have "good x'" "up x'" by blast+
  ultimately show ?thesis using dev_keep_step [OF assms(1), of x'] u n by simp
qed

lemma dev_write_step:
  assumes "dev_ok good up dev s n" and "rt_device_write drv dev pos buf s = Some (k, e, s')"
  shows "dev_ok good up dev s' n \<and> (n = 0 \<longrightarrow> k = 0 \<and> e = Some (- RT_ERROR) \<and> s' = s)"
proof (cases "ref_count (devs s dev) = 0")
  case True
  with assms show ?thesis by (auto simp: rt_device_write_def bind_eq_Some_conv)
next
  case False
  then have n: "n \<noteq> 0" using assms(1) unat_eq_zero [of "ref_count (devs s dev)"] by (auto simp: dev_ok_def)
  have u: "good (drvs s dev)" "up (drvs s dev)" using open_up [OF assms(1) False] by simp_all
  obtain f where f: "d_write drv = Some f" "\<forall>pos buf x k x'. good x \<longrightarrow> up x \<longrightarrow> f pos buf x = Some (k, x') \<longrightarrow> good x' \<and> up x'" using write_ok by blast
  from assms(2) False f(1) obtain x' where "f pos buf (drvs s dev) = Some (k, x')" "s' = set_dev dev (devs s dev) x' s"
    by (auto simp: rt_device_write_def bind_eq_Some_conv)
  moreover from this f(2) u have "good x'" "up x'" by blast+
  ultimately show ?thesis using dev_keep_step [OF assms(1), of x'] u n by simp
qed

lemma dev_control_step:
  assumes "dev_ok good up dev s n" and "rt_device_control drv dev cmd s = Some (r, s')"
  shows "dev_ok good up dev s' n"
proof -
  obtain f where f: "d_control drv = Some f" "\<forall>cmd x r x'. good x \<longrightarrow> f cmd x = Some (r, x') \<longrightarrow> good x' \<and> up x' = up x" using control_ok by blast
  from assms(2) f(1) obtain x' where "f cmd (drvs s dev) = Some (r, x')" "s' = set_dev dev (devs s dev) x' s"
    by (auto simp: rt_device_control_def bind_eq_Some_conv)
  moreover have "good (drvs s dev)" using assms(1) by (simp add: dev_ok_def)
  moreover from calculation f(2) have "good x'" "up x' = up (drvs s dev)" by blast+
  ultimately show ?thesis using dev_keep_step [OF assms(1), of x'] by simp
qed

lemma dev_run_ok: "dev_run drv env dev s0 s n \<Longrightarrow> dev_ok good up dev s0 0 \<Longrightarrow> dev_ok good up dev s n"
proof (induction rule: dev_run.induct)
  case (open_dev s n oflag r s')
  with dev_open_step [of dev s n oflag] show ?case by (auto split: if_splits)
next
  case (close_dev s n r s')
  with dev_close_step [of dev s n] show ?case by (auto split: if_splits)
next
  case (read_dev s n buf sz k e buf' s')
  with dev_read_step [of dev s n buf sz k e buf' s'] show ?case by simp
next
  case (write_dev s n buf k e s')
  with dev_write_step [of dev s n buf k e s'] show ?case by simp
next
  case (control_dev s n cmd r s')
  with dev_control_step [of dev s n cmd r s'] show ?case by simp
next
  case (irq_dev s n x)
  then have "good (drvs s dev)" "up (drvs s dev)" by (simp_all add: dev_ok_def)
  with env_ok [of "drvs s dev" x] irq_dev dev_keep_step [of dev s n x] show ?case by simp
qed

end

section \<open>The serial driver keeps the contract\<close>

definition good_uart :: "uart \<Rightarrow> bool" where
  "good_uart u \<longleftrightarrow> \<not> ConsolePort u \<and> bIntrrupt u \<and> length (Buf (RxData u)) = UART_BUF_SIZE \<and> length (Buf (TxData u)) = UART_BUF_SIZE
     \<and> (opened u \<longrightarrow> rings_ok u)"

definition same_port :: "uart \<Rightarrow> uart \<Rightarrow> bool" where
  "same_port u u' \<longleftrightarrow> RxData u' = RxData u \<and> TxData u' = TxData u \<and> opened u' = opened u \<and> bIntrrupt u' = bIntrrupt u \<and> ConsolePort u' = ConsolePort u"

lemma same_port_refl [simp]: "same_port u u"
  by (simp add: same_port_def)

lemma same_port_io [simp]:
  "same_port u (snd (NS16550_get_r chip r v)) = same_port u v" "same_port u (NS16550_set_r r w v) = same_port u v"
  "same_port u (NS16550_set_interrupt w v) = same_port u v" "same_port u (set_divisor dv l v) = same_port u v"
  "same_port u (clear_status chip v) = same_port u v" "same_port u (on_intc f v) = same_port u v"
  by (simp_all add: same_port_def NS16550_get_r_def NS16550_set_r_def NS16550_set_interrupt_def set_divisor_def clear_status_def on_intc_def Let_def)

lemma same_port_fields [simp]:
  "same_port u (v\<lparr>BusClock := a\<rparr>) = same_port u v" "same_port u (v\<lparr>BaudRate := b\<rparr>) = same_port u v"
  "same_port u (v\<lparr>ModemCtrl := c\<rparr>) = same_port u v" "same_port u (v\<lparr>initialized := d\<rparr>) = same_port u v" "same_port u (v\<lparr>u_soc := e\<rparr>) = same_port u v"
  by (simp_all add: same_port_def)

lemma same_port_good: "same_port u u' \<Longrightarrow> good_uart u' = good_uart u \<and> opened u' = opened u"
  by (auto simp: same_port_def good_uart_def rings_ok_def)

lemma init_same: "\<not> ConsolePort u \<Longrightarrow> \<exists>u'. NS16550_init chip bus a u = (0, u') \<and> same_port u u'"
  by (auto simp: NS16550_init_def Let_def) (auto simp: same_port_def NS16550_set_r_def NS16550_set_interrupt_def set_divisor_def clear_status_def NS16550_get_r_def Let_def)

lemma attributes_same: "same_port u (NS16550_set_attributes chip f u)"
  by (simp add: NS16550_set_attributes_def Let_def case_prod_beta)

lemma open_good:
  assumes "good_uart u"
  shows "\<exists>u'. NS16550_open chip isr self None u = (0, u') \<and> good_uart u' \<and> opened u'"
proof (cases "opened u")
  case True
  with assms show ?thesis by (simp add: NS16550_open_def)
next
  case False
  with assms show ?thesis
    by (auto simp: NS16550_open_def good_uart_def Let_def NS16550_install_irq_def on_intc_def NS16550_set_interrupt_def NS16550_set_r_def
        initialize_buffer_def rings_ok_def ring_ok_def NS16550_assert_DTR_def)
qed

lemma close_good: "good_uart u \<Longrightarrow> good_uart (snd (NS16550_close i u)) \<and> \<not> opened (snd (NS16550_close i u))"
  by (simp add: NS16550_close_def good_uart_def Let_def NS16550_remove_irq_def on_intc_def NS16550_set_interrupt_def NS16550_set_r_def
      NS16550_negate_DTR_def)

lemma moves_good: "moves u u' \<Longrightarrow> good_uart u \<Longrightarrow> opened u \<Longrightarrow> good_uart u' \<and> opened u'"
  by (auto simp: moves_def good_uart_def rings_ok_def ring_ok_def)

lemma read_good:
  assumes "rt_uart_read chip pos buf n u = Some (k, b, u')" and "good_uart u" and "opened u"
  shows "good_uart u' \<and> opened u'"
proof (cases "n = 0")
  case True
  with assms show ?thesis by (simp add: rt_uart_read_def)
next
  case False
  have r: "ring_ok (RxData u)" using assms(2,3) by (simp add: good_uart_def rings_ok_def)
  have "u' = u\<lparr>RxData := snd (dequeue_from_buffer n (RxData u))\<rparr>"
    using assms(1,2) False by (simp add: rt_uart_read_def NS16550_read_def good_uart_def read_int_def case_prod_beta Let_def)
  with dequeue_ring [OF r, of n] assms(2,3) show ?thesis by (auto simp: good_uart_def rings_ok_def ring_ok_def)
qed

lemma write_good:
  assumes "rt_uart_write chip (during_write chip irq) pos buf u = Some (k, u')" and "good_uart u" and "opened u"
  shows "good_uart u' \<and> opened u'"
proof (cases "buf = []")
  case True
  with assms show ?thesis by (simp add: rt_uart_write_def)
next
  case False
  obtain sent v where v: "write_now chip buf u = (sent, v)" by (cases "write_now chip buf u") auto
  from v have "same_port u v" by (cases rule: write_now_cases) (simp_all add: same_port_def)
  then have g: "good_uart v" "opened v" using same_port_good assms(2,3) by blast+
  from assms(1,2) False v obtain w where w: "during_write chip irq v = Some w" "u' = snd (write_rest buf sent w)"
    by (auto simp: rt_uart_write_def NS16550_write_def NS16550_write_string_int_def good_uart_def bind_eq_Some_conv)
  have gw: "good_uart w \<and> opened w"
  proof (cases irq)
    case True
    then have "moves v w" using w(1) g handler_moves [of chip v w] by (simp add: during_write_def good_uart_def)
    with moves_good g show ?thesis by blast
  qed (use w(1) g in \<open>simp add: during_write_def\<close>)
  then have "ring_ok (TxData w)" by (simp add: good_uart_def rings_ok_def)
  note e = enqueue_ring [OF this, of "drop sent buf"]
  show ?thesis
  proof (cases "sent < length buf")
    case True
    let ?d = "snd (enqueue_to_buffer (drop sent buf) (TxData w))"
    have u: "u' = w\<lparr>TxData := ?d\<rparr>" using w(2) True by (simp add: write_rest_def case_prod_beta)
    have "ring_ok ?d" using e by simp
    with gw show ?thesis unfolding u good_uart_def rings_ok_def by (simp add: ring_ok_def)
  next
    case False
    with gw w(2) show ?thesis by (simp add: write_rest_def)
  qed
qed

interpretation serial: device_driver "uart_driver chip bus isr self default_isr irq" good_uart opened "\<lambda>u u'. NS16550_interrupt_handler chip u = Some u'"
  for chip bus isr self default_isr irq
proof (unfold_locales, goal_cases)
  case 1
  have "\<exists>x'. rt_uart_init chip bus d x = Some (RT_EOK, d, x') \<and> good_uart x' \<and> opened x' = opened x" if "good_uart x" for d x
  proof -
    have "\<not> ConsolePort x" using that by (simp add: good_uart_def)
    then obtain x' where x': "NS16550_init chip bus 0 x = (0, x')" "same_port x x'" using init_same by blast
    with same_port_good [OF x'(2)] that show ?thesis by (simp add: rt_uart_init_def)
  qed
  then show ?case by (simp add: uart_driver_def)
next
  case 2
  have "\<exists>fl' x'. rt_uart_open chip isr self d fl x = Some (RT_EOK, d\<lparr>open_flag := fl'\<rparr>, x') \<and> good_uart x' \<and> opened x'" if "good_uart x" for d fl x
    using open_good [OF that, of chip isr self] by (auto simp: rt_uart_open_def)
  then show ?case by (simp add: uart_driver_def)
next
  case 3
  then show ?case by (simp add: uart_driver_def rt_uart_close_def close_good)
next
  case 4
  then show ?case using read_good [of chip] by (simp add: uart_driver_def)
next
  case 5
  then show ?case using write_good [of chip irq] by (simp add: uart_driver_def)
next
  case 6
  have "good_uart x' \<and> opened x' = opened x" if "good_uart x" "rt_uart_control chip cmd x = Some (r, x')" for cmd x r x'
    using that same_port_good [OF attributes_same]
    by (auto simp: rt_uart_control_def NS16550_ioctl_def split: uart_cmd.splits option.splits)
  then show ?case by (simp add: uart_driver_def)
next
  case (7 x x')
  then show ?case using handler_moves [of chip x x'] moves_good [of x x'] by (simp add: good_uart_def)
qed

section \<open>Properties\<close>

text \<open>C31: The protocol of the serial devices. In every history of opening, closing, reading, writing, controlling and interrupts of a serial
  device, the reference count is the number of opens that were not closed, and the port is open and marked open exactly if it
  is positive; its buffers are well-formed then. While it is zero, reads and writes are refused without any effect. Opening
  succeeds up to a count of 255; the next one fails an assertion.\<close>

theorem device_protocol:
  assumes "dev_run (uart_driver chip bus isr self default_isr irq) (\<lambda>u u'. NS16550_interrupt_handler chip u = Some u') dev s0 s n"
    and "dev_ok good_uart opened dev s0 0"
  shows "unat (ref_count (devs s dev)) = n \<and> (opened (drvs s dev) \<longleftrightarrow> 0 < n) \<and> (open_flag (devs s dev) AND RT_DEVICE_OFLAG_OPEN \<noteq> 0 \<longleftrightarrow> 0 < n)
    \<and> (0 < n \<longrightarrow> rings_ok (drvs s dev))
    \<and> (n = 0 \<longrightarrow> rt_device_read (uart_driver chip bus isr self default_isr irq) dev pos buf sz s = Some (0, Some (- RT_ERROR), buf, s)
        \<and> rt_device_write (uart_driver chip bus isr self default_isr irq) dev pos buf s = Some (0, Some (- RT_ERROR), s))
    \<and> (if n < 255 then \<exists>s'. rt_device_open (uart_driver chip bus isr self default_isr irq) dev oflag s = Some (RT_EOK, s')
       else rt_device_open (uart_driver chip bus isr self default_isr irq) dev oflag s = None)"
proof -
  have k: "dev_ok good_uart opened dev s n" by (rule serial.dev_run_ok [OF assms])
  then have t: "rt_object_get_type dev (objs s) = 9" "unat (ref_count (devs s dev)) = n" by (simp_all add: dev_ok_def)
  have z: "n = 0 \<Longrightarrow> ref_count (devs s dev) = 0" using t(2) unat_eq_zero [of "ref_count (devs s dev)"] by simp
  have o: "if n < 255 then \<exists>s'. rt_device_open (uart_driver chip bus isr self default_isr irq) dev oflag s = Some (RT_EOK, s')
      else rt_device_open (uart_driver chip bus isr self default_isr irq) dev oflag s = None"
    using serial.dev_open_step [OF k, of chip bus isr self default_isr irq oflag] by (auto split: if_splits)
  show ?thesis using k o z t(1) by (auto simp: dev_ok_def good_uart_def rt_device_read_def rt_device_write_def)
qed

definition example_devices :: "uart devices" where
  "example_devices =
     \<lparr>objs = \<lparr>omem = (\<lambda>_. 0)(200 := 117, 201 := 51), object_list = \<lambda>_. []\<rparr>,
      devs = \<lambda>_. \<lparr>dev_flag = 0, open_flag = 0, ref_count = 0, rx_indicate = 0, tx_complete = 0\<rparr>, drvs = \<lambda>_. ls1b_UART3 soc_zero\<rparr>"

theorem device_protocol_witness:
  "\<exists>s'. rt_device_open (uart_driver (\<lambda>_ _. 0x61) 100000000 1 2 3 False) 100 RT_DEVICE_FLAG_INT_RX
     (example_devices\<lparr>objs := (objs example_devices)\<lparr>omem := (\<lambda>_. 0)(110 := 0x89)\<rparr>\<rparr>) = Some (RT_EOK, s')"
proof -
  let ?s = "example_devices\<lparr>objs := (objs example_devices)\<lparr>omem := (\<lambda>_. 0)(110 := 0x89)\<rparr>\<rparr>"
  let ?drv = "uart_driver (\<lambda>_ _. 0x61) 100000000 1 2 3 False"
  have "dev_ok good_uart opened 100 ?s 0"
    by (simp add: dev_ok_def good_uart_def example_devices_def ls1b_UART3_def Let_def rt_object_get_type_def obj_type_def)
  from device_protocol [OF dev_run.start this] show ?thesis by simp
qed

text \<open>Registering a device under a name that is not in use.\<close>

lemma register_ok:
  assumes "obj_ok (objs s)" and "apart dev 12 (objs s)" and "named (omem (objs s)) name xs dev 12" and "rt_device_find name s = None"
  shows "\<exists>ob. rt_device_register (Some dev) name flags s =
        Some (RT_EOK, s\<lparr>objs := ob, devs := (devs s)(dev := (devs s dev)\<lparr>dev_flag := flags, ref_count := 0, open_flag := 0\<rparr>)\<rparr>)
     \<and> rt_object_get_type dev ob = RT_Object_Class_Device \<and> (\<forall>t :: 'd devices. objs t = ob \<longrightarrow> rt_device_find name t = Some dev)"
proof -
  have c9: "(9 :: u8) \<in> set rt_object_container" by (simp add: rt_object_container_def)
  obtain ob where ob: "rt_object_init dev 9 name (objs s) = Some ob" "obj_ok ob" "dir ob = (dir (objs s))(9 := (take 10 xs, dev) # dir (objs s) 9)"
    "\<forall>x. x < dev \<or> dev + 12 \<le> x \<longrightarrow> omem ob x = omem (objs s) x" using object_init_ok [OF assms(1,2) c9 assms(3)] by blast
  have "cstr (omem ob) name xs" using assms(3) ob(4) cstr_cong [of name xs "omem ob" "omem (objs s)"] by (auto simp: named_def)
  then have f: "rt_device_find name t = Some dev" if "objs t = ob" for t :: "'d devices"
    using find_dir [of "omem ob" name xs "object_list ob 9"] ob(3) that by (simp add: rt_device_find_def dir_def fun_eq_iff)
  have "(take 10 xs, dev) \<in> set (dir ob 9)" by (simp add: ob(3))
  then have "dev \<in> set (object_list ob 9)" by (auto simp: dir_def)
  then have "rt_object_get_type dev ob = 9" using ob(2) by (simp add: obj_ok_def)
  with f ob(1) assms(4) show ?thesis by (auto simp: rt_device_register_def Let_def)
qed

text \<open>The parts of a port that installing its interrupt uses.\<close>

lemma init_soc:
  "u_soc (snd (NS16550_init chip bus a u)) = u_soc u \<and> IntrNum (snd (NS16550_init chip bus a u)) = IntrNum u
    \<and> IntrCtrl (snd (NS16550_init chip bus a u)) = IntrCtrl u \<and> IntrMask (snd (NS16550_init chip bus a u)) = IntrMask u
    \<and> bFlowCtrl (snd (NS16550_init chip bus a u)) = bFlowCtrl u"
  by (simp add: NS16550_init_def Let_def NS16550_set_r_def NS16550_set_interrupt_def set_divisor_def clear_status_def NS16550_get_r_def)

lemma open_installs:
  fixes chip isr self
  assumes "\<not> opened u" and "bIntrrupt u" and "\<not> bFlowCtrl u" and "IntrNum u = 45" and "IntrCtrl u = LS1B_INTC0_BASE" and "IntrMask u = push_bit 5 1"
    and "length (isr_table (u_soc u)) = BSP_INTERRUPT_VECTOR_MAX" and "length (Buf (RxData u)) = 512" and "length (Buf (TxData u)) = 512"
  defines "u' \<equiv> snd (NS16550_open chip isr self None u)"
  shows "fst (NS16550_open chip isr self None u) = 0" and "rings_ok u'" "Count (RxData u') = 0" "Count (TxData u') = 0" "enabled_irqs u' = Some 1"
    "bit (INTC_IEN (INTC (u_soc u') LS1B_INTC0_BASE)) 5" "isr_table (u_soc u') ! 45 = \<lparr>handler = isr, param = self\<rparr>"
  using assms
  by (simp_all add: NS16550_open_def Let_def NS16550_install_irq_def on_intc_def NS16550_set_interrupt_def NS16550_set_r_def
      initialize_buffer_def rings_ok_def ring_ok_def enabled_irqs_def ls1x_install_irq_handler_def rt_hw_interrupt_install_def bit_or_iff)

text \<open>The port of the modem is ready after registering and opening. If the name is not yet in use, rt_ls1x_uart_register registers the
  third serial port, rt_device_find then finds it by its name, and rt_device_open succeeds as the modem thread calls it:
  the buffers are empty, the chip raises receive interrupts only, and the interrupt of the port is unmasked and led to the
  serial handler with the port as its argument.\<close>

lemma modem_port_ready:
  assumes "obj_ok (objs s)" and "apart dev 12 (objs s)" and "named (omem (objs s)) name xs dev 12" and "rt_device_find name s = None"
    and "length (isr_table soc) = BSP_INTERRUPT_VECTOR_MAX"
  shows "\<exists>s1 s2. rt_ls1x_uart_register dev (ls1b_UART3 soc) name RT_DEVICE_FLAG_RDWR s = Some (RT_EOK, s1) \<and> rt_device_find name s1 = Some dev
     \<and> rt_device_open (uart_driver chip bus isr self default_isr irq) dev RT_DEVICE_FLAG_INT_RX s1 = Some (RT_EOK, s2)
     \<and> rings_ok (drvs s2 dev) \<and> Count (RxData (drvs s2 dev)) = 0 \<and> Count (TxData (drvs s2 dev)) = 0
     \<and> enabled_irqs (drvs s2 dev) = Some NS16550_ENABLE_ALL_INTR_EXCEPT_TX
     \<and> bit (INTC_IEN (INTC (u_soc (drvs s2 dev)) LS1B_INTC0_BASE)) 5
     \<and> isr_table (u_soc (drvs s2 dev)) ! 45 = \<lparr>handler = isr, param = self\<rparr>"
proof -
  let ?u = "ls1b_UART3 soc"
  have nc: "\<not> ConsolePort ?u" by (simp add: ls1b_UART3_def Let_def)
  let ?s = "s\<lparr>devs := (devs s)(dev := (devs s dev)\<lparr>rx_indicate := 0, tx_complete := 0\<rparr>), drvs := (drvs s)(dev := ?u)\<rparr>"
  have "rt_device_find name ?s = None" using assms(4) by (simp add: rt_device_find_def)
  then obtain ob where ob: "rt_device_register (Some dev) name 3 ?s =
      Some (RT_EOK, ?s\<lparr>objs := ob, devs := (devs ?s)(dev := (devs ?s dev)\<lparr>dev_flag := 3, ref_count := 0, open_flag := 0\<rparr>)\<rparr>)"
    "rt_object_get_type dev ob = 9" "\<And>t :: uart devices. objs t = ob \<Longrightarrow> rt_device_find name t = Some dev"
    using register_ok [of ?s dev name xs 3] assms(1-3) by auto
  let ?s1 = "?s\<lparr>objs := ob, devs := (devs ?s)(dev := (devs ?s dev)\<lparr>dev_flag := 3, ref_count := 0, open_flag := 0\<rparr>)\<rparr>"
  have r: "rt_ls1x_uart_register dev ?u name 3 s = Some (RT_EOK, ?s1)" using ob(1) nc by (simp add: rt_ls1x_uart_register_def)
  have f: "rt_device_find name ?s1 = Some dev" by (rule ob(3)) simp
  note t = ob(2)
  then obtain v where i: "NS16550_init chip bus 0 ?u = (0, v)" "same_port ?u v" using init_same [OF nc, of chip bus 0] by auto
  have v: "\<not> opened v" "bIntrrupt v" "\<not> bFlowCtrl v" "IntrNum v = 45" "IntrCtrl v = LS1B_INTC0_BASE" "IntrMask v = push_bit 5 1"
    "length (isr_table (u_soc v)) = 166" "length (Buf (RxData v)) = 512" "length (Buf (TxData v)) = 512"
    using i init_soc [of chip bus 0 ?u] assms(5) by (simp_all add: same_port_def) (simp_all add: ls1b_UART3_def Let_def)
  obtain w where w: "NS16550_open chip isr self None v = (0, w)" using open_installs(1) [OF v, of chip isr self]
    by (cases "NS16550_open chip isr self None v") auto
  note o = open_installs [OF v, of chip isr self, unfolded w snd_conv]
  have "\<exists>d'. rt_device_open (uart_driver chip bus isr self default_isr irq) dev 0x100 ?s1 = Some (RT_EOK, set_dev dev d' w ?s1)"
    using t i(1) w
    by (simp add: rt_device_open_def open_init_def uart_driver_def rt_uart_init_def rt_uart_open_def Let_def) blast
  then obtain d' where "rt_device_open (uart_driver chip bus isr self default_isr irq) dev 0x100 ?s1 = Some (RT_EOK, set_dev dev d' w ?s1)" ..
  with r f o show ?thesis by (intro exI [of _ ?s1] exI [of _ "set_dev dev d' w ?s1"]) simp
qed

text \<open>A created device cannot be destroyed. The memory of a new device is cleared, so that rt_device_destroy fails its assertion on the
  type; once the device is registered it counts as a static object, so that it fails its assertion that it is none.\<close>

lemma device_destroy_asserts:
  assumes "rt_device_create dev_size (Some dev) s = (Some dev, s1)" and "12 \<le> dev_size"
    and "obj_ok (objs s1)" and "apart dev 12 (objs s1)" and "named (omem (objs s1)) name xs dev 12"
    and "rt_device_register (Some dev) name flags s1 = Some (RT_EOK, s2)"
  shows "rt_device_destroy dev s1 = None \<and> rt_device_destroy dev s2 = None"
proof -
  have "objs s1 = (objs s)\<lparr>omem := rt_memset dev 0 dev_size (omem (objs s))\<rparr>" using assms(1) by (auto simp: rt_device_create_def)
  then have "rt_object_get_type dev (objs s1) = 0" using assms(2) by (simp add: rt_object_get_type_def obj_type_def memset_eq filled_def)
  then have 1: "rt_device_destroy dev s1 = None" by (simp add: rt_device_destroy_def RT_ASSERT_def)
  have c9: "(9 :: u8) \<in> set rt_object_container" by (simp add: rt_object_container_def)
  have "\<exists>ob. rt_object_init dev 9 name (objs s1) = Some ob \<and> objs s2 = ob"
    using assms(6) by (auto simp: rt_device_register_def bind_eq_Some_conv Let_def split: if_splits)
  then have "rt_object_is_systemobject dev (objs s2)" using object_init_ok [OF assms(3,4) c9 assms(5)] by auto
  with 1 show ?thesis by (simp add: rt_device_destroy_def RT_ASSERT_def)
qed

end
