(* ===== verification/Adc.thy ===== *)
theory Adc
  imports Device Main_Ctrl
begin

text \<open>
  The A/D converter: the bus driver ls1x-drv/i2c/ls1x_i2c_bus.c, the converter ls1x-drv/i2c/ads1015/ads1015.c on it, and its device
  RTT4/bsp-ls1x/i2c/drv_ads1015.c, which main.c reads. As in theory Uart the controller is an argument: \<open>chip r n\<close> is what the
  \<open>n\<close>-th read of register \<open>r\<close> returns. The record keeps the list of the accesses and of the uses of the bus mutex. Delays and console
  output are left out.
\<close>

section \<open>Bus\<close>

abbreviation (input) I2C_PRERLO :: u8 where "I2C_PRERLO \<equiv> 0"
abbreviation (input) I2C_PRERHI :: u8 where "I2C_PRERHI \<equiv> 1"
abbreviation (input) I2C_CTRL :: u8 where "I2C_CTRL \<equiv> 2"
abbreviation (input) I2C_DATA :: u8 where "I2C_DATA \<equiv> 3"
abbreviation (input) I2C_CMD_SR :: u8 where "I2C_CMD_SR \<equiv> 4"
abbreviation (input) i2c_ctrl_en :: u8 where "i2c_ctrl_en \<equiv> 0x80"
abbreviation (input) i2c_ctrl_ien :: u8 where "i2c_ctrl_ien \<equiv> 0x40"
abbreviation (input) i2c_cmd_start :: u8 where "i2c_cmd_start \<equiv> 0x80"
abbreviation (input) i2c_cmd_stop :: u8 where "i2c_cmd_stop \<equiv> 0x40"
abbreviation (input) i2c_cmd_read :: u8 where "i2c_cmd_read \<equiv> 0x20"
abbreviation (input) i2c_cmd_write :: u8 where "i2c_cmd_write \<equiv> 0x10"
abbreviation (input) i2c_cmd_nack :: u8 where "i2c_cmd_nack \<equiv> 0x08"
abbreviation (input) i2c_cmd_ack :: u8 where "i2c_cmd_ack \<equiv> 0"
abbreviation (input) i2c_sr_rxnack :: u8 where "i2c_sr_rxnack \<equiv> 0x80"
abbreviation (input) i2c_sr_busy :: u8 where "i2c_sr_busy \<equiv> 0x40"
abbreviation (input) i2c_sr_xferflag :: u8 where "i2c_sr_xferflag \<equiv> 0x02"
abbreviation (input) DEFAULT_TIMEOUT :: nat where "DEFAULT_TIMEOUT \<equiv> 10000"
abbreviation (input) ETIMEDOUT :: int where "ETIMEDOUT \<equiv> 116"

datatype i2c_event = IRd u8 u8 | IWr u8 u8 | Lock | Unlock

record i2c =
  base_frq :: u32
  baudrate :: u32
  i2c_initialized :: bool
  i2c_reads :: "u8 \<Rightarrow> nat"
  events :: "i2c_event list"

definition i2c_rd :: "chip \<Rightarrow> u8 \<Rightarrow> i2c \<Rightarrow> u8 \<times> i2c" where
  "i2c_rd chip r b =
     (let v = chip r (i2c_reads b r) in (v, b\<lparr>i2c_reads := (i2c_reads b)(r := i2c_reads b r + 1), events := events b @ [IRd r v]\<rparr>))"

definition i2c_wr :: "u8 \<Rightarrow> u8 \<Rightarrow> i2c \<Rightarrow> i2c" where
  "i2c_wr r v b = b\<lparr>events := events b @ [IWr r v]\<rparr>"

definition bus_lock :: "i2c \<Rightarrow> i2c" where "bus_lock b = b\<lparr>events := events b @ [Lock]\<rparr>"
definition bus_unlock :: "i2c \<Rightarrow> i2c" where "bus_unlock b = b\<lparr>events := events b @ [Unlock]\<rparr>"

text \<open>Poll the status register until the flag is clear, at most \<^verbatim>\<open>DEFAULT_TIMEOUT\<close> + 2 times.\<close>

function poll :: "chip \<Rightarrow> u8 \<Rightarrow> nat \<Rightarrow> i2c \<Rightarrow> int \<times> i2c" where
  "poll chip flag tmo b =
     (let (sr, b) = i2c_rd chip I2C_CMD_SR b
      in if sr AND flag \<noteq> 0 then if tmo > DEFAULT_TIMEOUT then (- ETIMEDOUT, b) else poll chip flag (tmo + 1) b
         else (0, b))"
  by pat_completeness auto
termination by (relation "measure (\<lambda>(c, f, tmo, b). DEFAULT_TIMEOUT + 1 - tmo)") auto

declare poll.simps [simp del]

definition LS1x_I2C_wait_done :: "chip \<Rightarrow> i2c \<Rightarrow> int \<times> i2c" where
  "LS1x_I2C_wait_done chip b = poll chip i2c_sr_xferflag 0 b"

definition LS1x_I2C_set_baudrate :: "chip \<Rightarrow> u32 \<Rightarrow> i2c \<Rightarrow> int \<times> i2c" where
  "LS1x_I2C_set_baudrate chip baud b =
     (let fdr_val = (if baud < baudrate b then baud else baudrate b);
          fdr_val = (if fdr_val > 0 then fdr_val else 100000);
          fdr_val = base_frq b div (5 * fdr_val) - 1;
          (ctrl, b) = i2c_rd chip I2C_CTRL b;
          ctrl = ctrl AND NOT (i2c_ctrl_en OR i2c_ctrl_ien);
          b = i2c_wr I2C_CTRL ctrl b;
          b = i2c_wr I2C_PRERLO (ucast (fdr_val AND 0xff)) b;
          b = i2c_wr I2C_PRERHI (ucast (drop_bit 8 fdr_val AND 0xff)) b;
          b = i2c_wr I2C_CMD_SR 0 b
      in (0, i2c_wr I2C_CTRL (ctrl OR i2c_ctrl_en) b))"

text \<open>The first argument says whether the mutex could be created.\<close>

definition LS1x_I2C_initialize :: "bool \<Rightarrow> chip \<Rightarrow> u32 \<Rightarrow> i2c \<Rightarrow> int \<times> i2c" where
  "LS1x_I2C_initialize mutex chip bus_frequency b =
     (if i2c_initialized b then (0, b)
      else if \<not> mutex then (- 1, b)
      else let b = b\<lparr>base_frq := bus_frequency\<rparr>; b = snd (LS1x_I2C_set_baudrate chip (baudrate b) b) in (0, b\<lparr>i2c_initialized := True\<rparr>))"

definition LS1x_I2C_send_start :: "chip \<Rightarrow> i2c \<Rightarrow> int \<times> i2c" where
  "LS1x_I2C_send_start chip b =
     (let b = bus_lock b;
          (rt, b) = poll chip i2c_sr_busy 0 b
      in if rt \<noteq> 0 then (rt, b) else (0, i2c_wr I2C_CMD_SR i2c_cmd_start b))"

definition LS1x_I2C_send_stop :: "i2c \<Rightarrow> int \<times> i2c" where
  "LS1x_I2C_send_stop b = (0, bus_unlock (i2c_wr I2C_CMD_SR i2c_cmd_stop b))"

definition LS1x_I2C_send_addr :: "chip \<Rightarrow> u8 \<Rightarrow> bool \<Rightarrow> i2c \<Rightarrow> int \<times> i2c" where
  "LS1x_I2C_send_addr chip Addr rw b =
     (let b = i2c_wr I2C_DATA (push_bit 1 Addr OR (if rw then 1 else 0)) b;
          b = i2c_wr I2C_CMD_SR (i2c_cmd_write OR i2c_cmd_start) b;
          (rt, b) = LS1x_I2C_wait_done chip b
      in if rt = 0 then
           let (sr, b) = i2c_rd chip I2C_CMD_SR b
           in if sr AND i2c_sr_rxnack \<noteq> 0 then (- 2, snd (LS1x_I2C_send_stop b)) else (0, b)
         else (rt, snd (LS1x_I2C_send_stop b)))"

text \<open>The result is a count or, after a time-out, \<^verbatim>\<open>- rt\<close>, a positive number. Beside it the bytes read.\<close>

fun read_bytes_loop :: "chip \<Rightarrow> nat \<Rightarrow> bytes \<Rightarrow> i2c \<Rightarrow> int \<times> bytes \<times> i2c" where
  "read_bytes_loop chip 0 got b = (int (length got), got, b)"
| "read_bytes_loop chip (Suc len) got b =
     (let b = i2c_wr I2C_CMD_SR (if len = 0 then i2c_cmd_read OR i2c_cmd_nack else i2c_cmd_read OR i2c_cmd_ack) b;
          (rt, b) = LS1x_I2C_wait_done chip b
      in if rt \<noteq> 0 then (- rt, got, snd (LS1x_I2C_send_stop b))
         else let (v, b) = i2c_rd chip I2C_DATA b in read_bytes_loop chip len (got @ [v]) b)"

definition LS1x_I2C_read_bytes :: "chip \<Rightarrow> nat \<Rightarrow> i2c \<Rightarrow> int \<times> bytes \<times> i2c" where
  "LS1x_I2C_read_bytes chip len b = read_bytes_loop chip len [] b"

fun write_bytes_loop :: "chip \<Rightarrow> nat \<Rightarrow> bytes \<Rightarrow> i2c \<Rightarrow> int \<times> i2c" where
  "write_bytes_loop chip n [] b = (int n, b)"
| "write_bytes_loop chip n (c # cs) b =
     (let b = i2c_wr I2C_DATA c b;
          b = i2c_wr I2C_CMD_SR i2c_cmd_write b;
          (rt, b) = LS1x_I2C_wait_done chip b
      in if rt \<noteq> 0 then (- rt, snd (LS1x_I2C_send_stop b))
         else let (sr, b) = i2c_rd chip I2C_CMD_SR b
              in if sr AND i2c_sr_rxnack \<noteq> 0 then (int (n + 1), snd (LS1x_I2C_send_stop b))
                 else write_bytes_loop chip (n + 1) cs b)"

definition LS1x_I2C_write_bytes :: "chip \<Rightarrow> bytes \<Rightarrow> i2c \<Rightarrow> int \<times> i2c" where
  "LS1x_I2C_write_bytes chip buf b = write_bytes_loop chip 0 buf b"

text \<open>\<open>None\<close> stands for the commands other than \<^verbatim>\<open>IOCTL_SPI_I2C_SET_TFRMODE\<close>.\<close>

definition LS1x_I2C_ioctl :: "chip \<Rightarrow> u32 option \<Rightarrow> i2c \<Rightarrow> int \<times> i2c" where
  "LS1x_I2C_ioctl chip cmd b =
     (case cmd of Some baud \<Rightarrow> (let (rt, b) = LS1x_I2C_set_baudrate chip baud b in (- rt, b)) | None \<Rightarrow> (- 1, b))"

section \<open>Converter\<close>

abbreviation (input) ADS1015_ADDRESS :: u8 where "ADS1015_ADDRESS \<equiv> 0x48"
abbreviation (input) ADS1015_BAUDRATE :: u32 where "ADS1015_BAUDRATE \<equiv> 1000000"
abbreviation (input) ADS1015_REG_POINTER_CONVERT :: u8 where "ADS1015_REG_POINTER_CONVERT \<equiv> 0"
abbreviation (input) ADS1015_REG_POINTER_CONFIG :: u8 where "ADS1015_REG_POINTER_CONFIG \<equiv> 1"
abbreviation (input) ADS1015_REG_POINTER_LOWTHRESH :: u8 where "ADS1015_REG_POINTER_LOWTHRESH \<equiv> 2"
abbreviation (input) ADS1015_REG_POINTER_HITHRESH :: u8 where "ADS1015_REG_POINTER_HITHRESH \<equiv> 3"
abbreviation (input) ADS1015_REGISTER_COUNT :: u8 where "ADS1015_REGISTER_COUNT \<equiv> 4"
abbreviation (input) ADS1015_REG_CONFIG_MUX_MASK :: u16 where "ADS1015_REG_CONFIG_MUX_MASK \<equiv> 0x7000"
abbreviation (input) RT_DEVICE_FLAG_RDONLY :: u16 where "RT_DEVICE_FLAG_RDONLY \<equiv> 0x001"
abbreviation (input) ADS1015_CHANNEL_S3 :: int where "ADS1015_CHANNEL_S3 \<equiv> 0x13"

definition ADS1015_CFG_DEFAULT :: u16 where
  "ADS1015_CFG_DEFAULT = 0x0003 OR 0x0000 OR 0x0000 OR 0x0000 OR 0x0080 OR 0x0000 OR 0x0200"

text \<open>The transfer of \<^verbatim>\<open>ADS1015_reg_access\<close> up to the label \<^verbatim>\<open>lbl_done\<close>; the value is changed only by a read that gets there.\<close>

definition reg_transfer :: "chip \<Rightarrow> u8 \<Rightarrow> u16 \<Rightarrow> bool \<Rightarrow> i2c \<Rightarrow> int \<times> u16 \<times> i2c" where
  "reg_transfer chip regNum regVal rw b =
     (let (rt, b) = LS1x_I2C_send_start chip b
      in if rt \<noteq> 0 then (rt, regVal, b)
         else let (rt, b) = LS1x_I2C_ioctl chip (Some ADS1015_BAUDRATE) b
         in if rt \<noteq> 0 then (rt, regVal, b)
         else let (rt, b) = LS1x_I2C_send_addr chip ADS1015_ADDRESS False b
         in if rt \<noteq> 0 then (rt, regVal, b)
         else let (rw_cnt, b) = LS1x_I2C_write_bytes chip [regNum] b
         in if rw_cnt < 0 then (rw_cnt, regVal, b)
         else if rw then
           let (rt, b) = LS1x_I2C_send_addr chip ADS1015_ADDRESS True b
           in if rt \<noteq> 0 then (rt, regVal, b)
              else let (rw_cnt, got, b) = LS1x_I2C_read_bytes chip 2 b;
                       buf = memcpy_at 0 got [0, 0]
                   in if rw_cnt < 0 then (rw_cnt, regVal, b)
                      else (0, push_bit 8 (ucast (buf ! 0)) + ucast (buf ! 1), b)
         else let (rt, b) = LS1x_I2C_write_bytes chip [ucast (drop_bit 8 regVal), ucast regVal] b in (rt, regVal, b))"

definition ADS1015_reg_access :: "chip \<Rightarrow> u8 \<Rightarrow> u16 \<Rightarrow> bool \<Rightarrow> i2c \<Rightarrow> int \<times> u16 \<times> i2c" where
  "ADS1015_reg_access chip regNum regVal rw b =
     (if regNum \<ge> ADS1015_REGISTER_COUNT then (- 1, regVal, b)
      else let (rt, regVal, b) = reg_transfer chip regNum regVal rw b in (rt, regVal, snd (LS1x_I2C_send_stop b)))"

record ads =
  ads_bus :: i2c
  saved_config_reg :: u16

definition channel_config :: "int \<Rightarrow> u16 \<Rightarrow> u16" where
  "channel_config channel saved =
     (let cfgVal = saved AND NOT ADS1015_REG_CONFIG_MUX_MASK
      in if channel = 0xD0 then cfgVal OR 0x0000 else if channel = 0xD1 then cfgVal OR 0x1000
         else if channel = 0xD2 then cfgVal OR 0x2000 else if channel = 0xD3 then cfgVal OR 0x3000
         else if channel = 0x10 then cfgVal OR 0x4000 else if channel = 0x11 then cfgVal OR 0x5000
         else if channel = 0x12 then cfgVal OR 0x6000 else if channel = 0x13 then cfgVal OR 0x7000
         else 0)"

text \<open>Read the conversion register; \<open>val\<close> is the content of the caller's variable.\<close>

definition read_convert :: "chip \<Rightarrow> u16 \<Rightarrow> ads \<Rightarrow> int \<times> u16 \<times> ads" where
  "read_convert chip val a =
     (let (rt, val, b) = ADS1015_reg_access chip ADS1015_REG_POINTER_CONVERT val True (ads_bus a)
      in (rt, if rt = 0 then drop_bit 4 val else val, a\<lparr>ads_bus := b\<rparr>))"

definition ADS1015_read :: "chip \<Rightarrow> int \<Rightarrow> u16 \<Rightarrow> ads \<Rightarrow> int \<times> u16 \<times> ads" where
  "ADS1015_read chip channel val a =
     (let a = (if saved_config_reg a = 0 then a\<lparr>saved_config_reg := ADS1015_CFG_DEFAULT\<rparr> else a)
      in if channel > 0 then
           let cfgVal = channel_config channel (saved_config_reg a)
           in if cfgVal \<noteq> 0 then
                let (rt, _, b) = ADS1015_reg_access chip ADS1015_REG_POINTER_CONFIG cfgVal False (ads_bus a);
                    a = a\<lparr>ads_bus := b\<rparr>
                in if rt \<noteq> 2 then (rt, val, a) else read_convert chip val a
              else read_convert chip val a
         else read_convert chip val a)"

text \<open>The commands of \<^verbatim>\<open>ADS1015_ioctl\<close>; for those that read, the caller's variable afterwards is the second result.\<close>

datatype ads_cmd = SET_CONV_CTRL u16 | GET_CONV_CTRL | SET_LOW_THRESH u16 | GET_LOW_THRESH | SET_HIGH_THRESH u16 | GET_HIGH_THRESH | DISP_CONFIG_REG | OTHER_CMD

definition ADS1015_ioctl :: "chip \<Rightarrow> ads_cmd \<Rightarrow> ads \<Rightarrow> int \<times> u16 option \<times> ads" where
  "ADS1015_ioctl chip cmd a =
     (let access = \<lambda>r v rw. ADS1015_reg_access chip r v rw (ads_bus a)
      in case cmd of
           SET_CONV_CTRL v \<Rightarrow> let (rt, v, b) = access ADS1015_REG_POINTER_CONFIG v False in (rt, None, a\<lparr>ads_bus := b, saved_config_reg := v\<rparr>)
         | GET_CONV_CTRL \<Rightarrow> let (rt, v, b) = access ADS1015_REG_POINTER_CONFIG 0 True in (rt, Some v, a\<lparr>ads_bus := b, saved_config_reg := v\<rparr>)
         | SET_LOW_THRESH v \<Rightarrow> let (rt, v, b) = access ADS1015_REG_POINTER_LOWTHRESH v False in (rt, None, a\<lparr>ads_bus := b\<rparr>)
         | GET_LOW_THRESH \<Rightarrow> let (rt, v, b) = access ADS1015_REG_POINTER_LOWTHRESH 0 True in (rt, Some v, a\<lparr>ads_bus := b\<rparr>)
         | SET_HIGH_THRESH v \<Rightarrow> let (rt, v, b) = access ADS1015_REG_POINTER_HITHRESH v False in (rt, None, a\<lparr>ads_bus := b\<rparr>)
         | GET_HIGH_THRESH \<Rightarrow> let (rt, v, b) = access ADS1015_REG_POINTER_HITHRESH 0 True in (rt, Some v, a\<lparr>ads_bus := b\<rparr>)
         | DISP_CONFIG_REG \<Rightarrow> let (rt, v, b) = access ADS1015_REG_POINTER_CONFIG 0 True in (rt, None, a\<lparr>ads_bus := b\<rparr>)
         | OTHER_CMD \<Rightarrow> (0, None, a))"

definition get_ads1015_adc :: "chip \<Rightarrow> u16 \<Rightarrow> u16 \<Rightarrow> ads \<Rightarrow> u16 \<times> ads" where
  "get_ads1015_adc chip channel garbage a =
     (let (rt, _, a) = ADS1015_ioctl chip (SET_CONV_CTRL (channel OR ADS1015_CFG_DEFAULT)) a
      in if rt \<ge> 0 then let (rt, val, a) = ADS1015_read chip 0 garbage a in if rt \<ge> 0 then (val, a) else (0, a)
         else (0, a))"

section \<open>Device\<close>

text \<open>The caller's buffer is a halfword, whatever the size; the result of the driver is converted to \<^verbatim>\<open>rt_size_t\<close>.\<close>

definition le16 :: "u16 \<Rightarrow> bytes" where
  "le16 w = [ucast w, ucast (drop_bit 8 w)]"

definition of_le16 :: "u8 \<Rightarrow> u8 \<Rightarrow> u16" where
  "of_le16 b0 b1 = ucast b0 OR push_bit 8 (ucast b1)"

definition rt_ads1015_read :: "chip \<Rightarrow> int \<Rightarrow> bytes \<Rightarrow> nat \<Rightarrow> ads \<Rightarrow> (nat \<times> bytes \<times> ads) option" where
  "rt_ads1015_read chip pos buf sz a =
     (if sz = 0 then Some (0, buf, a)
      else case buf of
        b0 # b1 # bs \<Rightarrow> (let (rt, val, a) = ADS1015_read chip pos (of_le16 b0 b1) a in Some (nat (rt mod 2 ^ 32), le16 val @ bs, a))
      | _ \<Rightarrow> None)"

definition rt_ads1015_control :: "chip \<Rightarrow> ads_cmd \<Rightarrow> ads \<Rightarrow> (rt_err_t \<times> ads) option" where
  "rt_ads1015_control chip cmd a = (let (_, _, a) = ADS1015_ioctl chip cmd a in Some (RT_EOK, a))"

definition ads1015_driver :: "chip \<Rightarrow> (ads, ads_cmd) driver" where
  "ads1015_driver chip =
     \<lparr>d_init = None, d_open = None, d_close = None, d_read = Some (rt_ads1015_read chip), d_write = None,
      d_control = Some (rt_ads1015_control chip)\<rparr>"

definition rt_ls1x_ads1015_register :: "nat \<Rightarrow> ads \<Rightarrow> nat \<Rightarrow> u16 \<Rightarrow> ads devices \<Rightarrow> (rt_err_t \<times> ads devices) option" where
  "rt_ls1x_ads1015_register dev pIIC name flag s =
     rt_device_register (Some dev) name flag
       (s\<lparr>devs := (devs s)(dev := (devs s dev)\<lparr>rx_indicate := 0, tx_complete := 0\<rparr>), drvs := (drvs s)(dev := pIIC)\<rparr>)"

definition rt_ls1x_ads1015_install :: "nat \<Rightarrow> ads \<Rightarrow> nat \<Rightarrow> ads devices \<Rightarrow> ads devices option" where
  "rt_ls1x_ads1015_install dev busI2C0 name s = map_option snd (rt_ls1x_ads1015_register dev busI2C0 name RT_DEVICE_FLAG_RDWR s)"

section \<open>Polling\<close>

text \<open>The effect of \<open>m\<close> reads of a register.\<close>

definition advance :: "chip \<Rightarrow> u8 \<Rightarrow> nat \<Rightarrow> i2c \<Rightarrow> i2c" where
  "advance chip r m b =
     b\<lparr>i2c_reads := (i2c_reads b)(r := i2c_reads b r + m), events := events b @ map (\<lambda>j. IRd r (chip r (i2c_reads b r + j))) [0..<m]\<rparr>"

lemma rd_advance: "i2c_rd chip r b = (chip r (i2c_reads b r), advance chip r (Suc 0) b)"
  by (simp add: i2c_rd_def advance_def Let_def)

lemma advance_advance: "advance chip r m (advance chip r (Suc 0) b) = advance chip r (Suc m) b"
proof -
  have "[0..<Suc m] = 0 # map Suc [0..<m]" by (simp only: upt_conv_Cons map_Suc_upt zero_less_Suc)
  then show ?thesis by (simp add: advance_def comp_def upt_conv_Cons del: upt_Suc)
qed

lemma advance_reads: "i2c_reads (advance chip r (Suc 0) b) r = i2c_reads b r + 1"
  by (simp add: advance_def)

lemma busy_later:
  assumes "\<forall>j < Suc k. chip 4 (i2c_reads b 4 + j) AND flag \<noteq> 0"
  shows "\<forall>j < k. chip 4 (i2c_reads (advance chip 4 (Suc 0) b) 4 + j) AND flag \<noteq> 0"
proof (intro allI impI)
  fix j
  assume "j < k"
  then have "chip 4 (i2c_reads b 4 + Suc j) AND flag \<noteq> 0" using assms by blast
  then show "chip 4 (i2c_reads (advance chip 4 (Suc 0) b) 4 + j) AND flag \<noteq> 0" unfolding advance_reads by simp
qed

lemma poll_clear:
  assumes "\<forall>j < k. chip 4 (i2c_reads b 4 + j) AND flag \<noteq> 0" and "chip 4 (i2c_reads b 4 + k) AND flag = 0" and "tmo + k \<le> DEFAULT_TIMEOUT + 1"
  shows "poll chip flag tmo b = (0, advance chip 4 (Suc k) b)"
  using assms
proof (induction k arbitrary: tmo b)
  case 0
  then show ?case by (subst poll.simps) (simp add: rd_advance)
next
  case (Suc k)
  have 0: "chip 4 (i2c_reads b 4) AND flag \<noteq> 0" using Suc.prems(1) by (metis add_0_right zero_less_Suc)
  have 1: "\<forall>j < k. chip 4 (i2c_reads (advance chip 4 (Suc 0) b) 4 + j) AND flag \<noteq> 0"
    using Suc.prems(1) by (rule busy_later)
  have "poll chip flag (tmo + 1) (advance chip 4 (Suc 0) b) = (0, advance chip 4 (Suc k) (advance chip 4 (Suc 0) b))"
    using Suc.prems(2,3) by (intro Suc.IH 1) (simp_all add: advance_reads)
  with 0 Suc.prems(3) show ?case by (subst poll.simps) (simp add: rd_advance advance_advance)
qed

lemma poll_timeout:
  assumes "\<forall>j < k. chip 4 (i2c_reads b 4 + j) AND flag \<noteq> 0" and "tmo + k = DEFAULT_TIMEOUT + 2" and "0 < k"
  shows "poll chip flag tmo b = (- ETIMEDOUT, advance chip 4 k b)"
  using assms
proof (induction k arbitrary: tmo b)
  case (Suc k)
  have 0: "chip 4 (i2c_reads b 4) AND flag \<noteq> 0" using Suc.prems(1) by (metis add_0_right zero_less_Suc)
  show ?case
  proof (cases k)
    case 0
    with \<open>chip 4 (i2c_reads b 4) AND flag \<noteq> 0\<close> Suc.prems(2) show ?thesis by (subst poll.simps) (simp add: rd_advance)
  next
    case (Suc m)
    have 1: "\<forall>j < k. chip 4 (i2c_reads (advance chip 4 (Suc 0) b) 4 + j) AND flag \<noteq> 0"
      using Suc.prems(1) by (rule busy_later)
    have "poll chip flag (tmo + 1) (advance chip 4 (Suc 0) b) = (- ETIMEDOUT, advance chip 4 k (advance chip 4 (Suc 0) b))"
      using Suc.prems(2) Suc by (intro Suc.IH 1) simp_all
    with 0 Suc.prems(2) Suc show ?thesis by (subst poll.simps) (simp add: rd_advance advance_advance)
  qed
qed simp

section \<open>What the bus sees\<close>

text \<open>The bytes and commands written, and the uses of the mutex.\<close>

fun on_wire :: "i2c_event \<Rightarrow> bool" where
  "on_wire (IRd r v) \<longleftrightarrow> False"
| "on_wire (IWr r v) \<longleftrightarrow> r = I2C_DATA \<or> r = I2C_CMD_SR"
| "on_wire Lock \<longleftrightarrow> True"
| "on_wire Unlock \<longleftrightarrow> True"

definition wire :: "i2c \<Rightarrow> i2c_event list" where
  "wire b = filter on_wire (events b)"

text \<open>Up to its \<open>k\<close>-th read the status register reports an idle bus, finished transfers and acknowledgements.\<close>

definition idle_until :: "chip \<Rightarrow> nat \<Rightarrow> bool" where
  "idle_until chip k \<longleftrightarrow> (\<forall>n < k. chip I2C_CMD_SR n AND (i2c_sr_busy OR i2c_sr_xferflag OR i2c_sr_rxnack) = 0)"

lemma wire_simps [simp]:
  "wire (advance chip r m b) = wire b"
  "wire (i2c_wr r v b) = wire b @ (if r = 3 \<or> r = 4 then [IWr r v] else [])"
  "wire (bus_lock b) = wire b @ [Lock]"
  "wire (bus_unlock b) = wire b @ [Unlock]"
  by (simp_all add: wire_def advance_def i2c_wr_def bus_lock_def bus_unlock_def)

lemma reads_simps [simp]:
  "i2c_reads (advance chip r m b) = (i2c_reads b)(r := i2c_reads b r + m)"
  "i2c_reads (i2c_wr r v b) = i2c_reads b"
  "i2c_reads (bus_lock b) = i2c_reads b"
  "i2c_reads (bus_unlock b) = i2c_reads b"
  by (simp_all add: advance_def i2c_wr_def bus_lock_def bus_unlock_def)

lemma mask_clear: "w AND m = 0" if "w AND (m OR n) = 0" for w m n :: "'a::len word"
proof -
  have "(w AND m) OR (w AND n) = 0" using that by (simp add: bit.conj_disj_distrib)
  then show ?thesis by (simp add: or_eq_0_iff)
qed

lemma idle_flags:
  assumes "idle_until chip k" and "n < k"
  shows "chip 4 n AND 0x40 = 0" "chip 4 n AND 2 = 0" "chip 4 n AND 0x80 = 0"
proof -
  have *: "chip 4 n AND 0xC2 = 0" using assms by (simp add: idle_until_def)
  show "chip 4 n AND 0x40 = 0" by (rule mask_clear [of _ _ "0xC2"]) (use * in simp)
  show "chip 4 n AND 2 = 0" by (rule mask_clear [of _ _ "0xC2"]) (use * in simp)
  show "chip 4 n AND 0x80 = 0" by (rule mask_clear [of _ _ "0xC2"]) (use * in simp)
qed

lemma idle_poll:
  assumes "idle_until chip k" and "i2c_reads b 4 < k"
  shows "poll chip 0x40 0 b = (0, advance chip 4 (Suc 0) b)" "poll chip 2 0 b = (0, advance chip 4 (Suc 0) b)"
  by (rule poll_clear; simp add: idle_flags [OF assms])+

lemmas bus_defs = LS1x_I2C_wait_done_def LS1x_I2C_set_baudrate_def LS1x_I2C_send_start_def LS1x_I2C_send_stop_def LS1x_I2C_send_addr_def
  LS1x_I2C_write_bytes_def LS1x_I2C_ioctl_def rd_advance Let_def

text \<open>The beginning of every transfer, and the transfers themselves, on a bus where nothing fails.\<close>

definition sent :: "u8 \<Rightarrow> i2c_event list" where
  "sent v = [IWr I2C_DATA v, IWr I2C_CMD_SR i2c_cmd_write]"

definition addressed :: "u8 \<Rightarrow> i2c_event list" where
  "addressed v = [IWr I2C_DATA v, IWr I2C_CMD_SR (i2c_cmd_write OR i2c_cmd_start)]"

abbreviation (input) bus_taken :: "i2c_event list" where "bus_taken \<equiv> [Lock, IWr I2C_CMD_SR i2c_cmd_start, IWr I2C_CMD_SR 0]"
abbreviation (input) bus_released :: "i2c_event list" where "bus_released \<equiv> [IWr I2C_CMD_SR i2c_cmd_stop, Unlock]"

text \<open>A register is read: the number of the register and the address are sent, then two bytes are read.\<close>

definition reading_sent :: "u8 \<Rightarrow> i2c_event list" where
  "reading_sent r = bus_taken @ addressed 0x90 @ sent r @ addressed 0x91"

lemma start_idle:
  assumes "idle_until chip k" and "i2c_reads b 4 < k"
  shows "\<exists>b'. LS1x_I2C_send_start chip b = (0, b') \<and> i2c_reads b' 3 = i2c_reads b 3 \<and> i2c_reads b' 4 = i2c_reads b 4 + 1
     \<and> wire b' = wire b @ [Lock, IWr 4 0x80]"
  using assms(2) by (simp add: bus_defs idle_poll [OF assms(1)])

lemma addr_idle:
  assumes "idle_until chip k" and "i2c_reads b 4 + 2 \<le> k"
  shows "\<exists>b'. LS1x_I2C_send_addr chip 0x48 rw b = (0, b') \<and> i2c_reads b' 3 = i2c_reads b 3 \<and> i2c_reads b' 4 = i2c_reads b 4 + 2
     \<and> wire b' = wire b @ addressed (if rw then 0x91 else 0x90)"
  using assms(2) by (simp add: bus_defs idle_poll [OF assms(1)] idle_flags [OF assms(1)] addressed_def)

lemma write_idle:
  assumes "idle_until chip k" and "i2c_reads b 4 + 2 * length cs \<le> k"
  shows "\<exists>b'. write_bytes_loop chip n cs b = (int (n + length cs), b') \<and> i2c_reads b' 3 = i2c_reads b 3
     \<and> i2c_reads b' 4 = i2c_reads b 4 + 2 * length cs \<and> wire b' = wire b @ concat (map sent cs)"
  using assms(2)
proof (induction cs arbitrary: n b)
  case (Cons c cs)
  let ?b = "advance chip 4 (Suc 0) (advance chip 4 (Suc 0) (i2c_wr 4 0x10 (i2c_wr 3 c b)))"
  have "write_bytes_loop chip n (c # cs) b = write_bytes_loop chip (n + 1) cs ?b"
    using Cons.prems by (simp add: bus_defs idle_poll [OF assms(1)] idle_flags [OF assms(1)])
  moreover have "i2c_reads ?b 4 + 2 * length cs \<le> k" using Cons.prems by simp
  ultimately show ?case using Cons.IH [of ?b "n + 1"] by (auto simp: sent_def)
qed simp

lemma baud_effect: "\<exists>b'. LS1x_I2C_ioctl chip (Some baud) b = (0, b') \<and> i2c_reads b' 3 = i2c_reads b 3 \<and> i2c_reads b' 4 = i2c_reads b 4
    \<and> wire b' = wire b @ [IWr 4 0]"
  by (simp add: bus_defs)

text \<open>The first part of every access: the register's number has been sent.\<close>

lemma reg_number_sent:
  assumes "idle_until chip k" and "i2c_reads b 4 + 5 \<le> k"
  shows "\<exists>b1 b2 b3 b4. LS1x_I2C_send_start chip b = (0, b1) \<and> LS1x_I2C_ioctl chip (Some 1000000) b1 = (0, b2)
     \<and> LS1x_I2C_send_addr chip 0x48 False b2 = (0, b3) \<and> LS1x_I2C_write_bytes chip [r] b3 = (1, b4)
     \<and> i2c_reads b4 3 = i2c_reads b 3 \<and> i2c_reads b4 4 = i2c_reads b 4 + 5 \<and> wire b4 = wire b @ bus_taken @ addressed 0x90 @ sent r"
proof -
  obtain b1 where 1: "LS1x_I2C_send_start chip b = (0, b1)" "i2c_reads b1 3 = i2c_reads b 3" "i2c_reads b1 4 = i2c_reads b 4 + 1"
    "wire b1 = wire b @ [Lock, IWr 4 0x80]" using start_idle [OF assms(1), of b] assms(2) by auto
  obtain b2 where 2: "LS1x_I2C_ioctl chip (Some 1000000) b1 = (0, b2)" "i2c_reads b2 3 = i2c_reads b1 3" "i2c_reads b2 4 = i2c_reads b1 4"
    "wire b2 = wire b1 @ [IWr 4 0]" using baud_effect by blast
  obtain b3 where 3: "LS1x_I2C_send_addr chip 0x48 False b2 = (0, b3)" "i2c_reads b3 3 = i2c_reads b2 3" "i2c_reads b3 4 = i2c_reads b2 4 + 2"
    "wire b3 = wire b2 @ addressed 0x90" using addr_idle [OF assms(1), of b2 False] assms(2) 1 2 by auto
  obtain b4 where 4: "LS1x_I2C_write_bytes chip [r] b3 = (1, b4)" "i2c_reads b4 3 = i2c_reads b3 3" "i2c_reads b4 4 = i2c_reads b3 4 + 2"
    "wire b4 = wire b3 @ sent r" using write_idle [OF assms(1), of b3 "[r]" 0] assms(2) 1 2 3 by (auto simp: LS1x_I2C_write_bytes_def)
  from 1 2 3 4 show ?thesis by simp
qed

lemma reg_write_idle:
  assumes "idle_until chip k" and "i2c_reads b 4 + 9 \<le> k" and "r < 4"
  shows "\<exists>b'. ADS1015_reg_access chip r v False b = (2, v, b') \<and> i2c_reads b' 3 = i2c_reads b 3 \<and> i2c_reads b' 4 = i2c_reads b 4 + 9
     \<and> wire b' = wire b @ bus_taken @ addressed 0x90 @ sent r @ sent (ucast (drop_bit 8 v)) @ sent (ucast v) @ bus_released"
proof -
  obtain b1 b2 b3 b4 where *: "LS1x_I2C_send_start chip b = (0, b1)" "LS1x_I2C_ioctl chip (Some 1000000) b1 = (0, b2)"
    "LS1x_I2C_send_addr chip 0x48 False b2 = (0, b3)" "LS1x_I2C_write_bytes chip [r] b3 = (1, b4)" "i2c_reads b4 3 = i2c_reads b 3"
    "i2c_reads b4 4 = i2c_reads b 4 + 5" "wire b4 = wire b @ bus_taken @ addressed 0x90 @ sent r"
    using reg_number_sent [OF assms(1), of b r] assms(2) by auto
  obtain b5 where "LS1x_I2C_write_bytes chip [ucast (drop_bit 8 v), ucast v] b4 = (2, b5)" "i2c_reads b5 3 = i2c_reads b4 3"
    "i2c_reads b5 4 = i2c_reads b4 4 + 4" "wire b5 = wire b4 @ sent (ucast (drop_bit 8 v)) @ sent (ucast v)"
    using write_idle [OF assms(1), of b4 "[ucast (drop_bit 8 v), ucast v]" 0] assms(2) * by (auto simp: LS1x_I2C_write_bytes_def)
  with * assms(3) show ?thesis by (simp add: ADS1015_reg_access_def reg_transfer_def LS1x_I2C_send_stop_def)
qed

lemma reg_read_start:
  assumes "idle_until chip k" and "i2c_reads b 4 + 7 \<le> k" and "r < 4"
  shows "\<exists>b'. (\<forall>n got c. LS1x_I2C_read_bytes chip 2 b' = (n, got, c) \<longrightarrow> 0 \<le> n \<longrightarrow> ADS1015_reg_access chip r v True b =
       (0, push_bit 8 (ucast (memcpy_at 0 got [0, 0] ! 0)) + ucast (memcpy_at 0 got [0, 0] ! 1), snd (LS1x_I2C_send_stop c)))
     \<and> i2c_reads b' 3 = i2c_reads b 3 \<and> i2c_reads b' 4 = i2c_reads b 4 + 7 \<and> wire b' = wire b @ reading_sent r"
proof -
  obtain b1 b2 b3 b4 where *: "LS1x_I2C_send_start chip b = (0, b1)" "LS1x_I2C_ioctl chip (Some 1000000) b1 = (0, b2)"
    "LS1x_I2C_send_addr chip 0x48 False b2 = (0, b3)" "LS1x_I2C_write_bytes chip [r] b3 = (1, b4)" "i2c_reads b4 3 = i2c_reads b 3"
    "i2c_reads b4 4 = i2c_reads b 4 + 5" "wire b4 = wire b @ bus_taken @ addressed 0x90 @ sent r"
    using reg_number_sent [OF assms(1), of b r] assms(2) by auto
  obtain b5 where 5: "LS1x_I2C_send_addr chip 0x48 True b4 = (0, b5)" "i2c_reads b5 3 = i2c_reads b4 3" "i2c_reads b5 4 = i2c_reads b4 4 + 2"
    "wire b5 = wire b4 @ addressed 0x91" using addr_idle [OF assms(1), of b4 True] assms(2) * by auto
  have "\<forall>n got c. LS1x_I2C_read_bytes chip 2 b5 = (n, got, c) \<longrightarrow> 0 \<le> n \<longrightarrow> ADS1015_reg_access chip r v True b =
      (0, push_bit 8 (ucast (memcpy_at 0 got [0, 0] ! 0)) + ucast (memcpy_at 0 got [0, 0] ! 1), snd (LS1x_I2C_send_stop c))"
    using * 5(1) by (simp add: ADS1015_reg_access_def reg_transfer_def Let_def linorder_not_less [symmetric] assms(3))
  moreover have "i2c_reads b5 3 = i2c_reads b 3 \<and> i2c_reads b5 4 = i2c_reads b 4 + 7 \<and> wire b5 = wire b @ reading_sent r"
    using * 5 by (simp add: reading_sent_def)
  ultimately show ?thesis by blast
qed

lemma read_two: "LS1x_I2C_read_bytes chip 2 b = read_bytes_loop chip (Suc (Suc 0)) [] b"
  by (simp only: LS1x_I2C_read_bytes_def numeral_2_eq_2)

lemma reg_read_idle:
  assumes "idle_until chip k" and "i2c_reads b 4 + 9 \<le> k" and "r < 4"
  shows "\<exists>b'. ADS1015_reg_access chip r v True b = (0, push_bit 8 (ucast (chip 3 (i2c_reads b 3))) + ucast (chip 3 (Suc (i2c_reads b 3))), b')
     \<and> i2c_reads b' 3 = i2c_reads b 3 + 2
     \<and> wire b' = wire b @ reading_sent r @ [IWr I2C_CMD_SR i2c_cmd_read, IWr I2C_CMD_SR (i2c_cmd_read OR i2c_cmd_nack)] @ bus_released"
proof -
  have "i2c_reads b 4 + 7 \<le> k" using assms(2) by simp
  then obtain c where c: "\<forall>n got d. LS1x_I2C_read_bytes chip 2 c = (n, got, d) \<longrightarrow> 0 \<le> n \<longrightarrow> ADS1015_reg_access chip r v True b =
       (0, push_bit 8 (ucast (memcpy_at 0 got [0, 0] ! 0)) + ucast (memcpy_at 0 got [0, 0] ! 1), snd (LS1x_I2C_send_stop d))"
      "i2c_reads c 3 = i2c_reads b 3" "i2c_reads c 4 = i2c_reads b 4 + 7" "wire c = wire b @ reading_sent r"
    using reg_read_start [OF assms(1) _ assms(3), of b v] by blast
  let ?d = "advance chip 3 (Suc 0) (advance chip 4 (Suc 0) (i2c_wr 4 0x28 (advance chip 3 (Suc 0) (advance chip 4 (Suc 0) (i2c_wr 4 0x20 c)))))"
  have "LS1x_I2C_read_bytes chip 2 c = (2, [chip 3 (i2c_reads b 3), chip 3 (Suc (i2c_reads b 3))], ?d)"
    using assms(2) c(2,3) by (simp add: read_two bus_defs idle_poll [OF assms(1)])
  from c(1) [rule_format, OF this] c(2-4) show ?thesis by (simp add: memcpy_at_def LS1x_I2C_send_stop_def)
qed

text \<open>If the converter stops answering while the two bytes are read, the result is that of a successful read of zeros.\<close>

lemma reg_read_dead:
  assumes "idle_until chip (i2c_reads b 4 + 7)" and "\<forall>j < DEFAULT_TIMEOUT + 2. chip 4 (i2c_reads b 4 + 7 + j) AND i2c_sr_xferflag \<noteq> 0" and "r < 4"
  shows "\<exists>b'. ADS1015_reg_access chip r v True b = (0, 0, b')
     \<and> wire b' = wire b @ reading_sent r @ [IWr I2C_CMD_SR i2c_cmd_read] @ bus_released @ bus_released"
proof -
  obtain c where c: "\<forall>n got d. LS1x_I2C_read_bytes chip 2 c = (n, got, d) \<longrightarrow> 0 \<le> n \<longrightarrow> ADS1015_reg_access chip r v True b =
       (0, push_bit 8 (ucast (memcpy_at 0 got [0, 0] ! 0)) + ucast (memcpy_at 0 got [0, 0] ! 1), snd (LS1x_I2C_send_stop d))"
      "i2c_reads c 3 = i2c_reads b 3" "i2c_reads c 4 = i2c_reads b 4 + 7" "wire c = wire b @ reading_sent r"
    using reg_read_start [OF assms(1) le_refl assms(3), of v] by blast
  have p: "poll chip 2 0 (i2c_wr 4 0x20 c) = (- 116, advance chip 4 10002 (i2c_wr 4 0x20 c))"
  proof (rule poll_timeout)
    show "\<forall>j < 10002. chip 4 (i2c_reads (i2c_wr 4 0x20 c) 4 + j) AND 2 \<noteq> 0" unfolding reads_simps c(3)
      by (rule assms(2) [simplified numeral_plus_numeral add_num_simps])
  qed simp_all
  have "LS1x_I2C_read_bytes chip 2 c = (116, [], bus_unlock (i2c_wr 4 0x40 (advance chip 4 10002 (i2c_wr 4 0x20 c))))"
    by (simp add: read_two bus_defs p)
  from c(1) [rule_format, OF this] c(4) show ?thesis by (simp add: memcpy_at_def LS1x_I2C_send_stop_def)
qed

section \<open>Results for any behaviour of the bus\<close>

lemma poll_result: "fst (poll chip flag tmo b) = 0 \<or> fst (poll chip flag tmo b) = - ETIMEDOUT"
proof (induction chip flag tmo b rule: poll.induct)
  case (1 chip flag tmo b)
  then show ?case by (subst (1 2) poll.simps) (simp add: rd_advance Let_def)
qed

lemma write_result: "0 < n + length cs \<Longrightarrow> n + length cs \<le> 116 \<Longrightarrow> fst (write_bytes_loop chip n cs b) \<in> {0<..116}"
proof (induction cs arbitrary: n b)
  case (Cons c cs)
  obtain rt d where p: "poll chip 2 0 (i2c_wr 4 0x10 (i2c_wr 3 c b)) = (rt, d)" by fastforce
  have "rt = 0 \<or> rt = - 116" using poll_result [of chip 2 0 "i2c_wr 4 0x10 (i2c_wr 3 c b)"] p by simp
  then show ?case using Cons.IH [of "n + 1" "advance chip 4 (Suc 0) d"] Cons.prems by (auto simp: LS1x_I2C_wait_done_def p rd_advance)
qed simp

lemma write_bytes_result: "LS1x_I2C_write_bytes chip (c # cs) b = (n, b') \<Longrightarrow> length cs < 116 \<Longrightarrow> 0 < n \<and> n \<le> 116"
  using write_result [of 0 "c # cs" chip b] by (simp add: LS1x_I2C_write_bytes_def)

lemma start_result: "LS1x_I2C_send_start chip b = (rt, b') \<Longrightarrow> rt = 0 \<or> rt = - 116"
  using poll_result [of chip "0x40" 0 "bus_lock b"] by (auto simp: LS1x_I2C_send_start_def split: prod.splits if_splits)

lemma addr_result: "LS1x_I2C_send_addr chip ad rw b = (rt, b') \<Longrightarrow> rt = 0 \<or> rt = - 2 \<or> rt = - 116"
  using poll_result [of chip 2 0] by (auto simp: LS1x_I2C_send_addr_def LS1x_I2C_wait_done_def Let_def split: prod.splits if_splits) (metis fst_conv)+

lemma baud_result: "LS1x_I2C_ioctl chip (Some baud) b = (rt, b') \<Longrightarrow> rt = 0"
  using baud_effect [of chip baud b] by auto

lemma read_result: "0 \<le> fst (read_bytes_loop chip n got b)"
proof (induction n arbitrary: got b)
  case (Suc n)
  let ?b = "i2c_wr 4 (if n = 0 then 0x28 else 0x20) b"
  obtain rt d where p: "poll chip 2 0 ?b = (rt, d)" by fastforce
  have "rt = 0 \<or> rt = - 116" using poll_result [of chip 2 0 ?b] p by simp
  then show ?case using Suc.IH p by (auto simp: LS1x_I2C_wait_done_def rd_advance Let_def)
qed simp

lemma read_bytes_result: "LS1x_I2C_read_bytes chip n b = (k, got, b') \<Longrightarrow> 0 \<le> k"
  using read_result [of chip n "[]" b] by (simp add: LS1x_I2C_read_bytes_def)

lemmas bus_results = write_bytes_result start_result addr_result baud_result read_bytes_result

lemma reg_read_result:
  assumes "ADS1015_reg_access chip r v True b = (rt, v', b')"
  shows "-116 \<le> rt \<and> rt \<le> 0 \<and> (rt \<noteq> 0 \<longrightarrow> v' = v)"
  using assms by (auto simp: ADS1015_reg_access_def reg_transfer_def Let_def split: if_splits prod.splits dest!: bus_results)

lemma reg_write_result:
  assumes "ADS1015_reg_access chip r v False b = (rt, v', b')"
  shows "-116 \<le> rt \<and> rt \<le> 116 \<and> rt \<noteq> 0"
  using assms by (auto simp: ADS1015_reg_access_def reg_transfer_def Let_def split: if_splits prod.splits dest!: bus_results)

lemma shifted_bound: "drop_bit 4 v < 4096" for v :: u16
proof -
  have "unat (drop_bit 4 v) < 4096" using u16_bound [of v] by (simp add: drop_bit_eq_div unat_div)
  then show ?thesis by (simp add: word_less_nat_alt)
qed

lemma convert_result:
  assumes "read_convert chip v a = (rt, v', a')"
  shows "-116 \<le> rt \<and> rt \<le> 116 \<and> (\<exists>reading. v' = adc_read reading v \<and> (reading = None \<longleftrightarrow> rt \<noteq> 0) \<and> (\<forall>x. reading = Some x \<longrightarrow> x < 4096))"
proof -
  obtain w b where w: "ADS1015_reg_access chip 0 v True (ads_bus a) = (rt, w, b)" "v' = (if rt = 0 then drop_bit 4 w else w)"
    using assms by (auto simp: read_convert_def split: prod.splits)
  note r = reg_read_result [OF w(1)]
  have "\<exists>reading. v' = adc_read reading v \<and> (reading = None \<longleftrightarrow> rt \<noteq> 0) \<and> (\<forall>x. reading = Some x \<longrightarrow> x < 4096)"
    using w(2) r shifted_bound [of w]
    by (intro exI [of _ "if rt = 0 then Some v' else None"]) (auto simp: adc_read_def)
  with r show ?thesis by simp
qed

lemma ads_read_result:
  assumes "ADS1015_read chip ch v a = (rt, v', a')"
  shows "-116 \<le> rt \<and> rt \<le> 116 \<and> (\<exists>reading. v' = adc_read reading v \<and> (reading = None \<longleftrightarrow> rt \<noteq> 0) \<and> (\<forall>x. reading = Some x \<longrightarrow> x < 4096))"
proof -
  consider a1 where "read_convert chip v a1 = (rt, v', a')" | "v' = v" "-116 \<le> rt \<and> rt \<le> 116 \<and> rt \<noteq> 0"
    using assms reg_write_result unfolding ADS1015_read_def Let_def by (auto split: if_splits prod.splits)
  then show ?thesis
  proof cases
    case 2
    then show ?thesis by (auto intro!: exI [of _ None] simp: adc_read_def)
  qed (rule convert_result)
qed

lemma le16_inverse [simp]: "of_le16 (ucast w) (ucast (drop_bit 8 w)) = w" for w :: u16
  by (rule bit_word_eqI) (auto simp: of_le16_def bit_or_iff bit_ucast_iff bit_push_bit_iff bit_drop_bit_word)

lemma size_zero:
  assumes "-116 \<le> r" and "r \<le> 116"
  shows "nat (r mod 2 ^ 32) = 0 \<longleftrightarrow> r = 0"
proof (cases "r < 0")
  case True
  have "r mod 2 ^ 32 = (r + 2 ^ 32) mod 2 ^ 32" by simp
  also have "\<dots> = r + 2 ^ 32" using True assms(1) by (intro mod_pos_pos_trivial) simp_all
  finally show ?thesis using True assms(1) by simp
next
  case False
  then show ?thesis using assms(2) by simp
qed

lemma ads_read_configured:
  assumes "0 < ch" and "cfg \<noteq> 0" and "cfg = channel_config ch sv" and "sv = (if saved_config_reg a = 0 then ADS1015_CFG_DEFAULT else saved_config_reg a)"
    and "ADS1015_reg_access chip 1 cfg False (ads_bus a) = (2, w, b)"
  shows "ADS1015_read chip ch old a = read_convert chip old (a\<lparr>saved_config_reg := sv, ads_bus := b\<rparr>)"
  using assms(1,2,5) unfolding assms(3,4) by (cases "saved_config_reg a = 0") (simp_all add: ADS1015_read_def Let_def)

section \<open>Properties\<close>

text \<open>C38: A reading. If the status register reports no failure during the 18 polls of it, ADS1015_read of one of the eight channels returns 0 and the
  upper twelve bits of the next two bytes of the data register. On the bus it takes the mutex, writes the configuration with the
  multiplexer set to the channel, releases the bus, takes it again, selects the conversion register, reads two bytes, the second
  one without acknowledgement, and releases it.\<close>

theorem adc_reads_channel:
  assumes "idle_until chip (i2c_reads (ads_bus a) I2C_CMD_SR + 18)" and "0 < ch" and "cfg \<noteq> 0"
    and "cfg = channel_config ch (if saved_config_reg a = 0 then ADS1015_CFG_DEFAULT else saved_config_reg a)"
  shows "\<exists>a'. ADS1015_read chip ch old a =
       (0, drop_bit 4 (push_bit 8 (ucast (chip I2C_DATA (i2c_reads (ads_bus a) I2C_DATA))) + ucast (chip I2C_DATA (Suc (i2c_reads (ads_bus a) I2C_DATA)))), a')
     \<and> wire (ads_bus a') = wire (ads_bus a)
         @ [Lock, IWr I2C_CMD_SR i2c_cmd_start, IWr I2C_CMD_SR 0] @ addressed 0x90 @ sent ADS1015_REG_POINTER_CONFIG
             @ sent (ucast (drop_bit 8 cfg)) @ sent (ucast cfg) @ [IWr I2C_CMD_SR i2c_cmd_stop, Unlock]
         @ [Lock, IWr I2C_CMD_SR i2c_cmd_start, IWr I2C_CMD_SR 0] @ addressed 0x90 @ sent ADS1015_REG_POINTER_CONVERT @ addressed 0x91
             @ [IWr I2C_CMD_SR i2c_cmd_read, IWr I2C_CMD_SR (i2c_cmd_read OR i2c_cmd_nack)] @ [IWr I2C_CMD_SR i2c_cmd_stop, Unlock]"
proof -
  let ?b = "ads_bus a"
  obtain b1 where b1: "ADS1015_reg_access chip 1 cfg False ?b = (2, cfg, b1)" "i2c_reads b1 3 = i2c_reads ?b 3" "i2c_reads b1 4 = i2c_reads ?b 4 + 9"
    "wire b1 = wire ?b @ bus_taken @ addressed 0x90 @ sent 1 @ sent (ucast (drop_bit 8 cfg)) @ sent (ucast cfg) @ bus_released"
    using reg_write_idle [OF assms(1), of ?b 1 cfg] by auto
  obtain b2 where "ADS1015_reg_access chip 0 old True b1 = (0, push_bit 8 (ucast (chip 3 (i2c_reads b1 3))) + ucast (chip 3 (Suc (i2c_reads b1 3))), b2)"
    "wire b2 = wire b1 @ reading_sent 0 @ [IWr 4 0x20, IWr 4 0x28] @ bus_released"
    using reg_read_idle [OF assms(1), of b1 0 old] b1(3) by auto
  with b1 show ?thesis unfolding ads_read_configured [OF assms(2,3,4) refl b1(1)] by (simp add: read_convert_def reading_sent_def)
qed

definition example_bus :: i2c where
  "example_bus = \<lparr>base_frq = 0, baudrate = 100000, i2c_initialized = True, i2c_reads = \<lambda>_. 0, events = []\<rparr>"

theorem adc_reads_channel_witness:
  "\<exists>a'. ADS1015_read (\<lambda>r n. if r = 3 then 0x12 else 0) ADS1015_CHANNEL_S3 7 \<lparr>ads_bus = example_bus, saved_config_reg = 0\<rparr> = (0, 0x121, a')"
proof -
  let ?chip = "\<lambda>r n. if r = 3 then 0x12 else 0 :: u8" and ?a = "\<lparr>ads_bus = example_bus, saved_config_reg = 0\<rparr>"
  have 1: "idle_until ?chip (i2c_reads (ads_bus ?a) 4 + 18)" by (simp add: idle_until_def)
  have 2: "(0x7283 :: u16) = channel_config 0x13 (if saved_config_reg ?a = 0 then ADS1015_CFG_DEFAULT else saved_config_reg ?a)"
    by (simp add: channel_config_def ADS1015_CFG_DEFAULT_def)
  from adc_reads_channel [OF 1 _ _ 2, of 7] show ?thesis by auto
qed



text \<open>C16: The converter as main.c uses it. If the name is not in use, rt_ls1x_ads1015_install registers the converter, rt_device_find then finds it by
  that name and rt_device_open succeeds. After that every rt_device_read returns, whatever the bus does: either it reports 0 and stores a
  value of twelve bits, or it reports another number and the caller's variable keeps its value. This is the reading that the weighing
  program takes as its input.\<close>

theorem adc_device_reading:
  assumes "obj_ok (objs s)" and "apart dev 12 (objs s)" and "named (omem (objs s)) name xs dev 12" and "rt_device_find name s = None"
  shows "\<exists>s1 s2. rt_ls1x_ads1015_install dev a name s = Some s1 \<and> rt_device_find name s1 = Some dev
     \<and> rt_device_open (ads1015_driver chip) dev RT_DEVICE_FLAG_RDONLY s1 = Some (RT_EOK, s2)
     \<and> (\<exists>rt reading s3. rt_device_read (ads1015_driver chip) dev ch (le16 old) 2 s2 = Some (rt, None, le16 (adc_read reading old), s3)
          \<and> (reading = None \<longleftrightarrow> rt \<noteq> 0) \<and> (\<forall>v. reading = Some v \<longrightarrow> v < 4096))"
proof -
  let ?s = "s\<lparr>devs := (devs s)(dev := (devs s dev)\<lparr>rx_indicate := 0, tx_complete := 0\<rparr>), drvs := (drvs s)(dev := a)\<rparr>"
  have f: "rt_device_find name ?s = None" using assms(4) by (simp add: rt_device_find_def)
  obtain ob where ob: "rt_device_register (Some dev) name 3 ?s =
      Some (RT_EOK, ?s\<lparr>objs := ob, devs := (devs ?s)(dev := (devs ?s dev)\<lparr>dev_flag := 3, ref_count := 0, open_flag := 0\<rparr>)\<rparr>)"
    "rt_object_get_type dev ob = 9" "\<And>t :: ads devices. objs t = ob \<Longrightarrow> rt_device_find name t = Some dev"
    using register_ok [of ?s dev name xs 3, OF _ _ _ f] assms(1-3) by auto
  let ?s1 = "?s\<lparr>objs := ob, devs := (devs ?s)(dev := (devs ?s dev)\<lparr>dev_flag := 3, ref_count := 0, open_flag := 0\<rparr>)\<rparr>"
  have i: "rt_ls1x_ads1015_install dev a name s = Some ?s1" using ob(1) by (simp add: rt_ls1x_ads1015_install_def rt_ls1x_ads1015_register_def)
  let ?d = "(devs ?s1 dev)\<lparr>dev_flag := 19, open_flag := 9, ref_count := 1\<rparr>"
  have o: "rt_device_open (ads1015_driver chip) dev 1 ?s1 = Some (RT_EOK, set_dev dev ?d a ?s1)"
    using ob(2) by (simp add: rt_device_open_def open_init_def ads1015_driver_def Let_def)
  obtain r v' a' where r: "ADS1015_read chip ch old a = (r, v', a')" by (cases "ADS1015_read chip ch old a") auto
  from ads_read_result [OF r] obtain reading where *: "-116 \<le> r" "r \<le> 116" "v' = adc_read reading old" "reading = None \<longleftrightarrow> r \<noteq> 0"
    "\<forall>x. reading = Some x \<longrightarrow> x < 4096" by auto
  have "rt_device_read (ads1015_driver chip) dev ch (le16 old) 2 (set_dev dev ?d a ?s1) =
      Some (nat (r mod 2 ^ 32), None, le16 (adc_read reading old), set_dev dev ?d a' (set_dev dev ?d a ?s1))"
    using ob(2) r *(3) by (simp add: rt_device_read_def ads1015_driver_def rt_ads1015_read_def le16_def)
  moreover have "reading = None \<longleftrightarrow> nat (r mod 2 ^ 32) \<noteq> 0" using *(4) size_zero [OF *(1,2)] by simp
  ultimately show ?thesis using i o ob(3) [of ?s1] *(5) by fastforce
qed

definition example_adc :: "ads devices" where
  "example_adc =
     \<lparr>objs = \<lparr>omem = (\<lambda>_. 0)(200 := 97), object_list = \<lambda>_. []\<rparr>,
      devs = \<lambda>_. \<lparr>dev_flag = 0, open_flag = 0, ref_count = 0, rx_indicate = 0, tx_complete = 0\<rparr>,
      drvs = \<lambda>_. \<lparr>ads_bus = example_bus, saved_config_reg = 0\<rparr>\<rparr>"

theorem adc_device_reading_witness:
  "\<exists>s1 s2. rt_ls1x_ads1015_install 100 \<lparr>ads_bus = example_bus, saved_config_reg = 0\<rparr> 200 example_adc = Some s1
     \<and> rt_device_open (ads1015_driver (\<lambda>_ _. 0)) 100 RT_DEVICE_FLAG_RDONLY s1 = Some (RT_EOK, s2)"
  using adc_device_reading [of example_adc 100 200 "[97]" "\<lparr>ads_bus = example_bus, saved_config_reg = 0\<rparr>" "\<lambda>_ _. 0"]
  by (fastforce simp: example_adc_def obj_ok_def apart_def named_def rt_device_find_def)

end
