(* ===== verification/Simple_Gui.thy ===== *)
theory Simple_Gui
  imports Prelude
begin

text \<open>
  The widgets of gui/simple-gui/simple_gui.c: buttons and grids of text cells. The tail queues are lists. A grid is an address; its columns and cells,
  which are only reached through it, are part of its record. The functions of the frame buffer driver are the constructors of
  \<open>draw\<close>, and what is painted is a list of them. Coordinates are \<^verbatim>\<open>int\<close>s that stay far from their limits. The shades of a button are computed in
  floating point; they are an argument. The answers of the allocator are arguments as well.
\<close>

section \<open>Data\<close>

abbreviation (input) BUTTON_TEXT_MAX :: nat where "BUTTON_TEXT_MAX \<equiv> 16"
abbreviation (input) GRID_TITLE_MAX :: nat where "GRID_TITLE_MAX \<equiv> 32"
abbreviation (input) GRID_FORMAT_MAX :: nat where "GRID_FORMAT_MAX \<equiv> 16"
abbreviation (input) CELL_TEXT_MAX :: nat where "CELL_TEXT_MAX \<equiv> 100"
abbreviation (input) BTN_BORDER_THICKNESS :: int where "BTN_BORDER_THICKNESS \<equiv> 2"
abbreviation (input) border_left :: u32 where "border_left \<equiv> 1"
abbreviation (input) border_top :: u32 where "border_top \<equiv> 2"
abbreviation (input) border_right :: u32 where "border_right \<equiv> 4"
abbreviation (input) border_bottom :: u32 where "border_bottom \<equiv> 8"

abbreviation (input) clBLACK :: u32 where "clBLACK \<equiv> 0x00"
abbreviation (input) clBLUE :: u32 where "clBLUE \<equiv> 0xA0"
abbreviation (input) clGREY :: u32 where "clGREY \<equiv> 0x505050"
abbreviation (input) clBRTCYAN :: u32 where "clBRTCYAN \<equiv> 0x50F0F0"
abbreviation (input) clHINT :: u32 where "clHINT \<equiv> 0x00E4F0F0"

record TPoint =
  px :: int
  py :: int

record TRect =
  left :: int
  top :: int
  right :: int
  bottom :: int

record TButton =
  b_rect :: TRect
  caption :: string
  b_guid :: int
  b_group :: int
  focused :: bool
  color :: u32
  b_fontcolor :: u32
  b_changed :: bool
  b_tag :: int
  ownerdraw :: bool
  onclick :: "nat option"

record TCell =
  c_rect :: TRect
  c_index :: int
  border :: u32
  c_visible :: bool
  cell_text :: string

datatype align_style = align_left | align_center | align_right

record TColumn =
  col_rect :: TRect
  col_index :: int
  col_visible :: bool
  title :: string
  col_format :: string
  align :: align_style
  cellcount :: int
  fillcolor :: u32
  col_fontcolor :: u32
  cells :: "TCell list"

record TGrid =
  g_rect :: TRect
  rows :: int
  cols :: int
  borderwidth :: int
  bordercolor :: u32
  bgcolor :: u32
  linecolor :: u32
  titleheight :: int
  titlecolor :: u32
  g_group :: int
  g_guid :: int
  g_changed :: bool
  columns :: "TColumn list"

text \<open>The colours are those of the index that all functions use.\<close>

datatype draw =
    SetColor u32 | SetFGColor u32 | OwnerDraw int
  | DrawRect int int int int | DrawLine int int int int | FillRect int int int int
  | PutString int int string | PutStringCenter int int string | ClearBuffer

record gui =
  gui_active_group :: int
  gui_buttons :: "TButton list"
  gui_grids :: "nat list"
  grid_at :: "nat \<Rightarrow> TGrid"
  asc_font_width :: int
  asc_font_height :: int
  painted :: "draw list"

text \<open>Division of \<^verbatim>\<open>int\<close>s by a positive number, and the conversion of \<^verbatim>\<open>x + 0.5\<close> to \<^verbatim>\<open>int\<close>.\<close>

definition cdiv :: "int \<Rightarrow> int \<Rightarrow> int" where
  "cdiv a n = (if 0 \<le> a then a div n else - ((- a) div n))"

definition plus_half :: "int \<Rightarrow> int" where
  "plus_half x = (if x < 0 then x + 1 else x)"

definition normalize_rect :: "TRect \<Rightarrow> TRect" where
  "normalize_rect r =
     (let r = (if right r < left r then r\<lparr>right := left r, left := right r\<rparr> else r)
      in if bottom r < top r then r\<lparr>bottom := top r, top := bottom r\<rparr> else r)"

section \<open>Buttons\<close>

definition border_color :: "u32 \<Rightarrow> int \<Rightarrow> u32" where
  "border_color c j =
     push_bit 16 (ucast (ucast (drop_bit (nat (18 - j)) c) :: u8)) OR push_bit 8 (ucast (ucast (drop_bit (nat (10 - j)) c) :: u8))
       OR ucast (ucast (drop_bit (nat (2 - j)) c) :: u8)"

text \<open>\<open>shade c j\<close> is the faded colour of the line \<open>j\<close>.\<close>

definition draw_button :: "(u32 \<Rightarrow> int \<Rightarrow> u32) \<Rightarrow> int \<Rightarrow> int \<Rightarrow> TButton \<Rightarrow> draw list \<times> TButton" where
  "draw_button shade fw fh p =
     (if \<not> b_changed p then ([], p)
      else let rt = normalize_rect (b_rect p); p = p\<lparr>b_rect := rt\<rparr>
      in if ownerdraw p then ([OwnerDraw (b_guid p)], p)
      else let w = right rt - left rt; h = bottom rt - top rt;
        outer = concat (map (\<lambda>j. [SetColor (if \<not> focused p then border_color (color p) j else if color p \<noteq> clBLUE then clBLUE else clBLACK),
                                  DrawRect (left rt + j) (top rt + j) (right rt - j) (bottom rt - j)]) [0, 1]);
        line = \<lambda>j. [SetColor (shade (color p) j), DrawLine (left rt + BTN_BORDER_THICKNESS) j (right rt - BTN_BORDER_THICKNESS) j];
        cy1 = plus_half (top rt + cdiv h 2);
        cy2 = plus_half (cdiv ((bottom rt - BTN_BORDER_THICKNESS - cy1) * 2) 3 + cy1);
        body = line cy1 @ concat (map line [top rt + BTN_BORDER_THICKNESS .. cy1 - 1]) @ concat (map line (rev [cy1 + 1 .. cy2]))
                 @ concat (map line [cy2 + 1 .. bottom rt - BTN_BORDER_THICKNESS]);
        h = h - 2 * BTN_BORDER_THICKNESS; w = w - 2 * BTN_BORDER_THICKNESS;
        n = min (cdiv w fw) (int BUTTON_TEXT_MAX);
        txt = (if h > fh \<and> w > fw
               then [SetFGColor (b_fontcolor p),
                     PutStringCenter (plus_half (left rt + cdiv (right rt - left rt) 2)) (plus_half (top rt + cdiv (bottom rt - top rt) 2)) (take (nat n) (caption p))]
               else [])
      in (outer @ body @ txt, p\<lparr>b_changed := False\<rparr>))"

text \<open>All buttons of the active group, in the order of the queue.\<close>

fun paint_buttons :: "(TButton \<Rightarrow> draw list \<times> TButton) \<Rightarrow> int \<Rightarrow> TButton list \<Rightarrow> draw list \<times> TButton list" where
  "paint_buttons f grp [] = ([], [])"
| "paint_buttons f grp (b # bs) =
     (let (d, b) = (if b_group b = grp then f b else ([], b)); (ds, bs) = paint_buttons f grp bs in (d @ ds, b # bs))"

definition paint_active_buttons :: "(u32 \<Rightarrow> int \<Rightarrow> u32) \<Rightarrow> gui \<Rightarrow> gui" where
  "paint_active_buttons shade s =
     (let (ds, bs) = paint_buttons (draw_button shade (asc_font_width s) (asc_font_height s)) (gui_active_group s) (gui_buttons s)
      in s\<lparr>painted := painted s @ ds, gui_buttons := bs\<rparr>)"

definition find_button :: "int \<Rightarrow> gui \<Rightarrow> TButton option" where
  "find_button guid s = find (\<lambda>b. b_guid b = guid) (gui_buttons s)"

text \<open>The button that was made, if any.\<close>

definition new_button ::
  "bool \<Rightarrow> TRect \<Rightarrow> int \<Rightarrow> int \<Rightarrow> string option \<Rightarrow> nat option \<Rightarrow> gui \<Rightarrow> TButton option \<times> gui" where
  "new_button alloc rt guid grp capt click s =
     (if find_button guid s \<noteq> None then (None, s)
      else if \<not> alloc then (None, s)
      else let b = \<lparr>b_rect = rt, caption = (case capt of None \<Rightarrow> [] | Some c \<Rightarrow> take BUTTON_TEXT_MAX c), b_guid = guid, b_group = grp,
                    focused = False, color = clHINT, b_fontcolor = clBLACK, b_changed = True, b_tag = 0, ownerdraw = False, onclick = click\<rparr>
           in (Some b, s\<lparr>gui_buttons := gui_buttons s @ [b]\<rparr>))"

fun remove_first :: "('a \<Rightarrow> bool) \<Rightarrow> 'a list \<Rightarrow> 'a list" where
  "remove_first P [] = []"
| "remove_first P (x # xs) = (if P x then xs else x # remove_first P xs)"

definition delete_button_by_guid :: "int \<Rightarrow> gui \<Rightarrow> int \<times> gui" where
  "delete_button_by_guid guid s =
     (case find_button guid s of
        Some b \<Rightarrow> (0, s\<lparr>gui_buttons := remove_first (\<lambda>b. b_guid b = guid) (gui_buttons s)\<rparr>)
      | None \<Rightarrow> (- 1, s))"

definition delete_button :: "TButton option \<Rightarrow> gui \<Rightarrow> int \<times> gui" where
  "delete_button p s = (case p of None \<Rightarrow> (0, s) | Some b \<Rightarrow> delete_button_by_guid (b_guid b) s)"

text \<open>The loop follows the link of the button it has just released: \<open>None\<close> is the use of released memory.\<close>

definition delete_button_by_group :: "int \<Rightarrow> gui \<Rightarrow> (int \<times> gui) option" where
  "delete_button_by_group grp s = (if \<exists>b \<in> set (gui_buttons s). b_group b = grp then None else Some (0, s))"

definition delete_button_all :: "gui \<Rightarrow> gui" where
  "delete_button_all s = s\<lparr>gui_buttons := []\<rparr>"

definition in_button :: "TPoint \<Rightarrow> TButton \<Rightarrow> bool" where
  "in_button pt b \<longleftrightarrow> left (b_rect b) \<le> px pt \<and> px pt \<le> right (b_rect b) \<and> top (b_rect b) \<le> py pt \<and> py pt \<le> bottom (b_rect b)"

fun focus_loop :: "int \<Rightarrow> TPoint \<Rightarrow> TButton option \<Rightarrow> TButton list \<Rightarrow> TButton option \<times> TButton list" where
  "focus_loop grp pt focused_btn [] = (focused_btn, [])"
| "focus_loop grp pt focused_btn (b # bs) =
     (if b_group b = grp \<and> in_button pt b then
        let b = b\<lparr>b_changed := \<not> focused b, focused := True\<rparr>; (r, bs) = focus_loop grp pt (Some b) bs in (r, b # bs)
      else
        let b = b\<lparr>b_changed := focused b, focused := False\<rparr>; (r, bs) = focus_loop grp pt focused_btn bs in (r, b # bs))"

definition focused_button :: "TPoint \<Rightarrow> gui \<Rightarrow> TButton option \<times> gui" where
  "focused_button pt s = (let (r, bs) = focus_loop (gui_active_group s) pt None (gui_buttons s) in (r, s\<lparr>gui_buttons := bs\<rparr>))"

definition get_buttons_count :: "int \<Rightarrow> gui \<Rightarrow> nat" where
  "get_buttons_count grp s = length (filter (\<lambda>b. b_group b = grp \<or> grp \<le> 0) (gui_buttons s))"

section \<open>Cells\<close>

definition blank_rect :: "int \<Rightarrow> TRect" where
  "blank_rect width = \<lparr>left = 0, top = 0, right = width, bottom = 0\<rparr>"

definition grid_new_cell_internal :: "bool \<Rightarrow> int \<Rightarrow> TCell list \<Rightarrow> TCell list" where
  "grid_new_cell_internal alloc width cs =
     (if alloc then cs @ [\<lparr>c_rect = blank_rect width, c_index = 0, border = 0, c_visible = False, cell_text = []\<rparr>] else cs)"

definition grid_get_cell :: "TColumn \<Rightarrow> int \<Rightarrow> nat option" where
  "grid_get_cell column index =
     (if index < 1 \<or> cellcount column \<le> index then None
      else find (\<lambda>k. c_index (cells column ! k) = index) [0..<length (cells column)])"

text \<open>A cell shows its text only if it is visible, in the active group and large enough for one character.\<close>

definition shown :: "gui \<Rightarrow> TGrid \<Rightarrow> TCell \<Rightarrow> bool" where
  "shown s g c \<longleftrightarrow> \<not> (g_group g \<noteq> gui_active_group s \<or> \<not> c_visible c \<or> right (c_rect c) - left (c_rect c) < asc_font_width s
     \<or> bottom (c_rect c) - top (c_rect c) < asc_font_height s)"

definition grid_clear_cell_rect_internal :: "gui \<Rightarrow> TGrid \<Rightarrow> TColumn \<Rightarrow> TCell \<Rightarrow> draw list" where
  "grid_clear_cell_rect_internal s grid column cell =
     (let r = c_rect cell; fw = asc_font_width s; fh = asc_font_height s
      in if \<not> shown s grid cell then []
      else if cell_text cell \<noteq> [] then
        let nlen = int (length (cell_text cell));
            x1 = (if align column = align_center then plus_half (left r + cdiv (right r - left r) 2) - cdiv (nlen * fw) 2 else left r + 1);
            y1 = (if align column = align_center then plus_half (top r + cdiv (bottom r - top r) 2) - cdiv fh 2
                  else plus_half (top r + cdiv (bottom r - top r - fh) 2));
            x2 = min (x1 + nlen * fw - 1) (right r - 1);
            y2 = y1 + fh - 1
        in [SetColor (fillcolor column), FillRect x1 y1 x2 y2]
      else [])"

definition grid_draw_cell_text_internal :: "gui \<Rightarrow> TGrid \<Rightarrow> TColumn \<Rightarrow> TCell \<Rightarrow> draw list" where
  "grid_draw_cell_text_internal s grid column cell =
     (let r = c_rect cell; fw = asc_font_width s; fh = asc_font_height s
      in if \<not> shown s grid cell then []
      else if cell_text cell \<noteq> [] then
        let nlen = cdiv (right r - left r - 2) fw;
            len = int (length (cell_text cell));
            nlen = min (if nlen < 0 then len else min nlen len) (int CELL_TEXT_MAX);
            temp = take (nat nlen) (cell_text cell)
        in [SetFGColor (col_fontcolor column),
            if align column = align_center
            then PutStringCenter (plus_half (left r + cdiv (right r - left r) 2)) (plus_half (top r + cdiv (bottom r - top r) 2)) temp
            else PutString (left r + 1) (plus_half (top r + cdiv (bottom r - top r - fh) 2)) temp]
      else [])"

section \<open>Layout\<close>

text \<open>The inner loop of \<^verbatim>\<open>grid_calcurate_cell_rect_internal\<close>, with its variables \<^verbatim>\<open>j\<close> and \<^verbatim>\<open>_top\<close>, and the outer one with \<^verbatim>\<open>i\<close> and \<^verbatim>\<open>_left\<close>.\<close>

definition place_cell :: "int \<Rightarrow> int \<Rightarrow> bool \<Rightarrow> int \<Rightarrow> int \<Rightarrow> int \<Rightarrow> int \<Rightarrow> int \<Rightarrow> TCell \<Rightarrow> TCell" where
  "place_cell r_max b_max vis lft dx tp dy j c =
     c\<lparr>border := (if lft + dx < r_max then border_right else 0) OR (if tp + dy < b_max then border_bottom else 0),
       c_visible := vis,
       c_rect := \<lparr>left = lft, top = tp, right = (if lft + dx < r_max then lft + dx else r_max),
                  bottom = (if tp + dy < b_max then tp + dy else b_max)\<rparr>,
       c_index := j\<rparr>"

fun place_cells :: "int \<Rightarrow> int \<Rightarrow> int \<Rightarrow> int \<Rightarrow> bool \<Rightarrow> int \<Rightarrow> int \<Rightarrow> int \<Rightarrow> int \<Rightarrow> TCell list \<Rightarrow> TCell list" where
  "place_cells r_max b_max th ch vis lft dx tp j [] = []"
| "place_cells r_max b_max th ch vis lft dx tp j (c # cs) =
     (let dy = (if j = 0 then th else ch)
      in place_cell r_max b_max vis lft dx tp dy j c # place_cells r_max b_max th ch vis lft dx (tp + dy) (j + 1) cs)"

fun place_columns :: "int \<Rightarrow> int \<Rightarrow> int \<Rightarrow> int \<Rightarrow> int \<Rightarrow> int \<Rightarrow> int \<Rightarrow> TColumn list \<Rightarrow> TColumn list" where
  "place_columns r_max b_max th ch tp lft i [] = []"
| "place_columns r_max b_max th ch tp lft i (c # cs) =
     (let dx = right (col_rect c) - left (col_rect c);
          vis = (lft < r_max);
          ks = place_cells r_max b_max th ch vis lft dx tp 0 (cells c);
          bot = (if ks = [] then b_max else bottom (c_rect (last ks)))
      in c\<lparr>col_rect := \<lparr>left = lft, top = tp, right = lft + dx, bottom = bot\<rparr>, col_visible := vis, cells := ks, col_index := i\<rparr>
         # place_columns r_max b_max th ch tp (lft + dx) (i + 1) cs)"

definition grid_calcurate_cell_rect_internal :: "TGrid \<Rightarrow> TGrid" where
  "grid_calcurate_cell_rect_internal g =
     (if \<not> g_changed g \<or> rows g \<le> 0 \<or> cols g \<le> 0 then g
      else let r = g_rect g; bw = borderwidth g;
               b_max = bottom r - bw; r_max = right r - bw; lft = left r + bw; tp = top r + bw;
               ch = (if titleheight g \<le> 0 then cdiv (bottom r - top r - bw * 2) (rows g + 1)
                     else cdiv (bottom r - top r - bw * 2 - titleheight g) (rows g));
               th = (if titleheight g \<le> 0 then ch else titleheight g)
           in g\<lparr>columns := place_columns r_max b_max th ch tp lft 0 (columns g), g_changed := False\<rparr>)"

section \<open>Columns\<close>

definition grid_new_column_internal :: "bool \<Rightarrow> (nat \<Rightarrow> bool) \<Rightarrow> int \<Rightarrow> TGrid \<Rightarrow> nat option \<times> TGrid" where
  "grid_new_column_internal alloc cell_alloc width g =
     (if \<not> alloc then (None, g)
      else let ks = concat (map (\<lambda>i. map (\<lambda>c. c\<lparr>c_index := int i\<rparr>) (grid_new_cell_internal (cell_alloc i) width [])) [0..<nat (rows g + 1)]);
               col = \<lparr>col_rect = blank_rect width, col_index = 0, col_visible = True, title = [], col_format = [], align = align_left,
                      cellcount = rows g + 1, fillcolor = clHINT, col_fontcolor = clBLACK, cells = ks\<rparr>
           in (Some (length (columns g)), g\<lparr>columns := columns g @ [col], g_changed := True\<rparr>))"

text \<open>Columns are named by their place in the queue.\<close>

definition grid_get_column :: "TGrid \<Rightarrow> int \<Rightarrow> nat option" where
  "grid_get_column g index = find (\<lambda>k. col_index (columns g ! k) = index) [0..<length (columns g)]"

definition on_column :: "nat \<Rightarrow> (TColumn \<Rightarrow> TColumn) \<Rightarrow> TGrid \<Rightarrow> TGrid" where
  "on_column k f g = g\<lparr>columns := (columns g)[k := f (columns g ! k)]\<rparr>"

definition remove_nth :: "nat \<Rightarrow> 'a list \<Rightarrow> 'a list" where
  "remove_nth k xs = take k xs @ drop (k + 1) xs"

text \<open>\<open>None\<close>: the column is inserted in front of itself, after it was removed.\<close>

definition grid_set_column_index :: "nat \<Rightarrow> int \<Rightarrow> TGrid \<Rightarrow> TGrid option" where
  "grid_set_column_index column index g =
     (case grid_get_column g index of
        None \<Rightarrow> Some g
      | Some k \<Rightarrow>
          if k = column then None
          else let x = columns g ! column; rest = remove_nth column (columns g); k' = (if column < k then k - 1 else k)
               in Some (grid_calcurate_cell_rect_internal (g\<lparr>g_changed := True, columns := take k' rest @ x # drop k' rest\<rparr>)))"

definition grid_set_column_title :: "string option \<Rightarrow> TColumn \<Rightarrow> TColumn" where
  "grid_set_column_title t c = c\<lparr>title := (case t of None \<Rightarrow> [] | Some t \<Rightarrow> take GRID_TITLE_MAX t)\<rparr>"

definition grid_set_column_format :: "string option \<Rightarrow> TColumn \<Rightarrow> TColumn" where
  "grid_set_column_format t c = c\<lparr>col_format := (case t of None \<Rightarrow> [] | Some t \<Rightarrow> take GRID_FORMAT_MAX t)\<rparr>"

definition grid_set_column_width :: "int \<Rightarrow> int \<Rightarrow> TGrid \<Rightarrow> TGrid" where
  "grid_set_column_width index width g =
     (case grid_get_column g index of
        None \<Rightarrow> g
      | Some k \<Rightarrow>
          let r = col_rect (columns g ! k)
          in if right r - left r = width then g
             else grid_calcurate_cell_rect_internal
                    (on_column k (\<lambda>c. c\<lparr>col_rect := r\<lparr>right := left r + width\<rparr>\<rparr>) (g\<lparr>g_changed := True\<rparr>)))"

text \<open>The first result says whether a column was made.\<close>

definition grid_new_column :: "bool \<Rightarrow> (nat \<Rightarrow> bool) \<Rightarrow> int \<Rightarrow> int \<Rightarrow> TGrid \<Rightarrow> (bool \<times> TGrid) option" where
  "grid_new_column alloc cell_alloc index width g =
     (if columns g = [] then Some (False, g)
      else case grid_new_column_internal alloc cell_alloc width g of
        (None, g) \<Rightarrow> Some (False, g)
      | (Some k, g) \<Rightarrow> map_option (Pair True) (grid_set_column_index k index g))"

definition grid_delete_column :: "int \<Rightarrow> TGrid \<Rightarrow> int \<times> TGrid" where
  "grid_delete_column index g =
     (case grid_get_column g index of
        None \<Rightarrow> (- 1, g)
      | Some k \<Rightarrow> (0, grid_calcurate_cell_rect_internal (g\<lparr>g_changed := True, columns := remove_nth k (columns g)\<rparr>)))"

section \<open>Grids\<close>

text \<open>The loop of \<^verbatim>\<open>create_grid\<close> over the columns.\<close>

fun make_columns :: "(nat \<Rightarrow> bool) \<Rightarrow> (nat \<Rightarrow> nat \<Rightarrow> bool) \<Rightarrow> int \<Rightarrow> nat \<Rightarrow> nat \<Rightarrow> TGrid \<Rightarrow> TGrid" where
  "make_columns col_alloc cell_alloc cw i 0 g = g"
| "make_columns col_alloc cell_alloc cw i (Suc n) g =
     make_columns col_alloc cell_alloc cw (i + 1) n
       (case grid_new_column_internal (col_alloc i) (cell_alloc i) cw g of
          (None, g) \<Rightarrow> g | (Some k, g) \<Rightarrow> on_column k (\<lambda>c. c\<lparr>col_index := int i\<rparr>) g)"

text \<open>\<open>pixx\<close> and \<open>pixy\<close> are the size of the screen, \<open>alloc\<close>, \<open>col_alloc\<close> and \<open>cell_alloc\<close> the answers of the allocator.\<close>

definition create_grid ::
  "int \<Rightarrow> int \<Rightarrow> nat option \<Rightarrow> (nat \<Rightarrow> bool) \<Rightarrow> (nat \<Rightarrow> nat \<Rightarrow> bool) \<Rightarrow> TRect \<Rightarrow> int \<Rightarrow> int \<Rightarrow> int \<Rightarrow> int \<Rightarrow> gui \<Rightarrow> nat option \<times> gui" where
  "create_grid pixx pixy alloc col_alloc cell_alloc rect rws cls guid grp s =
     (let r = normalize_rect rect
      in if left r < 0 \<or> top r < 0 \<or> pixx < right r \<or> pixy < bottom r \<or> rws \<le> 0 \<or> cls \<le> 0 then (None, s)
      else case alloc of
        None \<Rightarrow> (None, s)
      | Some p \<Rightarrow>
          let cw = cdiv (right r - left r) cls;
              g = \<lparr>g_rect = r, rows = rws, cols = cls, borderwidth = 2, bordercolor = clBLACK, bgcolor = clHINT, linecolor = clGREY,
                   titleheight = 0, titlecolor = clBRTCYAN, g_group = grp, g_guid = guid, g_changed = True, columns = []\<rparr>;
              g = grid_calcurate_cell_rect_internal (make_columns col_alloc cell_alloc cw 0 (nat cls) g)
          in (Some p, s\<lparr>grid_at := (grid_at s)(p := g), gui_grids := gui_grids s @ [p]\<rparr>))"

definition find_grid :: "int \<Rightarrow> gui \<Rightarrow> nat option" where
  "find_grid guid s = find (\<lambda>p. g_guid (grid_at s p) = guid) (gui_grids s)"

text \<open>The identifier of the grid is compared with the number of the group, as written.\<close>

definition get_grids_count :: "int \<Rightarrow> gui \<Rightarrow> nat" where
  "get_grids_count grp s = length (filter (\<lambda>p. g_guid (grid_at s p) = grp \<or> grp \<le> 0) (gui_grids s))"

definition destroy_grid :: "nat \<Rightarrow> gui \<Rightarrow> gui" where
  "destroy_grid p s = s\<lparr>gui_grids := remove1 p (gui_grids s), grid_at := (grid_at s)(p := (grid_at s p)\<lparr>columns := []\<rparr>)\<rparr>"

definition paint_border :: "TGrid \<Rightarrow> TCell \<Rightarrow> draw list" where
  "paint_border g c =
     (let r = c_rect c; has = \<lambda>b. border c AND b \<noteq> 0
      in if border c = 0 then []
         else [SetColor (linecolor g)]
           @ (if has border_left then [DrawLine (left r) (top r) (left r) (bottom r)] else [])
           @ (if has border_top then [DrawLine (left r) (top r) (right r) (top r)] else [])
           @ (if has border_right then [DrawLine (right r) (top r) (right r) (bottom r)] else [])
           @ (if has border_bottom then [DrawLine (left r) (bottom r) (right r) (bottom r)] else []))"

text \<open>A visible cell that was placed has a width that is not negative, so the number of characters is not negative either.\<close>

definition paint_title :: "gui \<Rightarrow> TGrid \<Rightarrow> TColumn \<Rightarrow> TCell \<Rightarrow> draw list" where
  "paint_title s g col c =
     (let r = c_rect c
      in [SetColor (fillcolor col)]
         @ (if col_index col = 0 then [DrawLine (left r) (top r) (left r) (bottom r - 1)] else [])
         @ [DrawLine (left r) (top r) (right r - 1) (top r),
            SetColor (titlecolor g), FillRect (left r + 1) (top r + 1) (right r - 1) (bottom r - 1)]
         @ (if title col \<noteq> [] then
              let n = min (cdiv (right r - left r - 2) (asc_font_width s)) (int GRID_TITLE_MAX)
              in [SetFGColor (col_fontcolor col),
                  PutStringCenter (plus_half (left r + cdiv (right r - left r) 2)) (plus_half (top r + cdiv (bottom r - top r) 2)) (take (nat n) (title col))]
            else []))"

definition paint_cell :: "gui \<Rightarrow> TGrid \<Rightarrow> TColumn \<Rightarrow> TCell \<Rightarrow> draw list" where
  "paint_cell s g col c =
     (let r = c_rect c
      in if \<not> c_visible c then []
         else paint_border g c
           @ (if c_index c = 0 then paint_title s g col c
              else [SetColor (fillcolor col), FillRect (left r + 1) (top r + 1) (right r - 1) (bottom r - 1)] @ grid_draw_cell_text_internal s g col c))"

definition paint_remainder :: "TGrid \<Rightarrow> draw list" where
  "paint_remainder g =
     (if columns g = [] then []
      else let c = last (columns g); r = g_rect g; bw = borderwidth g
           in (if col_visible c \<and> right (col_rect c) < right r - bw
               then [SetColor (bgcolor g), FillRect (right (col_rect c) + 1) (top (col_rect c)) (right r - bw) (bottom r - bw)] else [])
            @ (if bottom (col_rect c) < bottom r - bw
               then [SetColor (bgcolor g), FillRect (left r + bw) (bottom (col_rect c) + 1) (right r - bw) (bottom r - bw)] else []))"

definition paint_grid :: "gui \<Rightarrow> TGrid \<Rightarrow> draw list \<times> TGrid" where
  "paint_grid s g =
     (if \<not> g_changed g then ([], g)
      else let r = g_rect g
           in ([SetColor (bordercolor g)]
                @ map (\<lambda>i. DrawRect (left r + i) (top r + i) (right r - i) (bottom r - i)) [0 .. borderwidth g - 1]
                @ concat (map (\<lambda>col. if col_visible col then concat (map (paint_cell s g col) (cells col)) else []) (columns g))
                @ paint_remainder g,
               g\<lparr>g_changed := False\<rparr>))"

definition paint_one_grid :: "nat \<Rightarrow> gui \<Rightarrow> gui" where
  "paint_one_grid p s =
     (if g_group (grid_at s p) = gui_active_group s
      then let (ds, g) = paint_grid s (grid_at s p) in s\<lparr>painted := painted s @ ds, grid_at := (grid_at s)(p := g)\<rparr>
      else s)"

definition paint_active_grids :: "gui \<Rightarrow> gui" where
  "paint_active_grids s = fold paint_one_grid (gui_grids s) s"

definition grid_set_color :: "u32 \<Rightarrow> TGrid \<Rightarrow> TGrid" where
  "grid_set_color c g = g\<lparr>columns := map (\<lambda>col. col\<lparr>fillcolor := c\<rparr>) (columns g), bgcolor := c\<rparr>"

section \<open>Texts of a grid\<close>

text \<open>The functions return what they paint and the grid. First the step of \<^verbatim>\<open>grid_scroll_rows\<close> for the \<open>k\<close>-th cell of a column.\<close>

definition scroll_cell :: "gui \<Rightarrow> TGrid \<Rightarrow> int \<Rightarrow> nat \<Rightarrow> draw list \<times> TColumn \<Rightarrow> draw list \<times> TColumn" where
  "scroll_cell s g n k a =
     (let (ds, col) = a; p = cells col ! k; index = c_index p + n;
          ds = ds @ (if cell_text p \<noteq> [] then grid_clear_cell_rect_internal s g col p else []);
          col = col\<lparr>cells := (cells col)[k := p\<lparr>cell_text := []\<rparr>]\<rparr>
      in case grid_get_cell col index of
           None \<Rightarrow> (ds, col)
         | Some j \<Rightarrow>
             if cell_text (cells col ! j) = [] then (ds, col)
             else let q = p\<lparr>cell_text := cell_text (cells col ! j)\<rparr>;
                      col = col\<lparr>cells := (cells col)[k := q, j := (cells col ! j)\<lparr>cell_text := []\<rparr>]\<rparr>
                  in (ds @ grid_draw_cell_text_internal s g col q, col))"

definition scroll_column :: "gui \<Rightarrow> TGrid \<Rightarrow> int \<Rightarrow> TColumn \<Rightarrow> draw list \<times> TColumn" where
  "scroll_column s g n col = fold (scroll_cell s g n) [0..<length (cells col)] ([], col)"

definition grid_scroll_rows :: "gui \<Rightarrow> int \<Rightarrow> TGrid \<Rightarrow> draw list \<times> TGrid" where
  "grid_scroll_rows s n g =
     (let rs = map (scroll_column s g n) (columns g) in (concat (map fst rs), g\<lparr>columns := map snd rs\<rparr>))"

definition blank_cell :: "gui \<Rightarrow> TGrid \<Rightarrow> int \<Rightarrow> TColumn \<Rightarrow> TCell \<Rightarrow> draw list \<times> TCell" where
  "blank_cell s g row col c =
     (if c_index c = row \<and> cell_text c \<noteq> [] then (grid_clear_cell_rect_internal s g col c, c\<lparr>cell_text := []\<rparr>) else ([], c))"

definition grid_blank_row :: "gui \<Rightarrow> int \<Rightarrow> TGrid \<Rightarrow> draw list \<times> TGrid" where
  "grid_blank_row s row g =
     (concat (map (\<lambda>col. concat (map (fst \<circ> blank_cell s g row col) (cells col))) (columns g)),
      g\<lparr>columns := map (\<lambda>col. col\<lparr>cells := map (snd \<circ> blank_cell s g row col) (cells col)\<rparr>) (columns g)\<rparr>)"

definition set_text :: "gui \<Rightarrow> TGrid \<Rightarrow> TColumn \<Rightarrow> string option \<Rightarrow> TCell \<Rightarrow> draw list \<times> TCell" where
  "set_text s g col str c =
     (let ds = (if cell_text c \<noteq> [] then grid_clear_cell_rect_internal s g col c else []);
          c = c\<lparr>cell_text := []\<rparr>
      in case str of
           None \<Rightarrow> (ds, c)
         | Some t \<Rightarrow> let c = c\<lparr>cell_text := take CELL_TEXT_MAX t\<rparr> in (ds @ grid_draw_cell_text_internal s g col c, c))"

definition grid_set_cell_text :: "gui \<Rightarrow> int \<Rightarrow> int \<Rightarrow> string option \<Rightarrow> TGrid \<Rightarrow> draw list \<times> TGrid" where
  "grid_set_cell_text s row col str g =
     (if row < 0 \<or> rows g \<le> row \<or> col < 0 \<or> cols g \<le> col then ([], g)
      else case grid_get_column g col of
        None \<Rightarrow> ([], g)
      | Some k \<Rightarrow>
          let c = columns g ! k
          in case find (\<lambda>j. c_index (cells c ! j) = row + 1) [0..<length (cells c)] of
               None \<Rightarrow> ([], g)
             | Some j \<Rightarrow>
                 let (ds, x) = set_text s g c str (cells c ! j)
                 in (ds, on_column k (\<lambda>c. c\<lparr>cells := (cells c)[j := x]\<rparr>) g))"

section \<open>The task\<close>

definition set_gui_active_group :: "int \<Rightarrow> gui \<Rightarrow> int \<times> gui" where
  "set_gui_active_group grp s =
     (grp, s\<lparr>gui_buttons := map (\<lambda>b. b\<lparr>b_changed := True\<rparr>) (gui_buttons s),
             grid_at := fold (\<lambda>p m. m(p := (m p)\<lparr>g_changed := True\<rparr>)) (gui_grids s) (grid_at s), gui_active_group := grp\<rparr>)"

text \<open>\<open>font\<close> is the size of the character A, if there is a font.\<close>

definition init_simple_gui_env :: "(int \<times> int) option \<Rightarrow> gui \<Rightarrow> gui" where
  "init_simple_gui_env font s =
     (let s = (case font of None \<Rightarrow> s | Some (w, h) \<Rightarrow> s\<lparr>asc_font_width := w, asc_font_height := h\<rparr>)
      in s\<lparr>gui_buttons := [], gui_grids := []\<rparr>)"

definition paint_objects :: "(u32 \<Rightarrow> int \<Rightarrow> u32) \<Rightarrow> gui \<Rightarrow> gui" where
  "paint_objects shade s = paint_active_grids (paint_active_buttons shade s)"

text \<open>One turn of \<^verbatim>\<open>simple_gui_task\<close> with the touch that arrived, if any; the result is the handler it calls.\<close>

definition simple_gui_turn :: "TPoint option \<Rightarrow> gui \<Rightarrow> nat option \<times> gui" where
  "simple_gui_turn msg s =
     (if gui_active_group s < 0 then (None, s)
      else case msg of
        None \<Rightarrow> (None, s)
      | Some pt \<Rightarrow>
          let (btn, s) = focused_button pt s in (case btn of None \<Rightarrow> None | Some b \<Rightarrow> onclick b, s))"

section \<open>The layout\<close>

lemma cdiv_pos [simp]: "0 \<le> a \<Longrightarrow> cdiv a n = a div n"
  by (simp add: cdiv_def)

definition grid_frame :: "TGrid \<Rightarrow> bool" where
  "grid_frame g \<longleftrightarrow> 0 \<le> left (g_rect g) \<and> 0 \<le> top (g_rect g) \<and> 1 \<le> borderwidth g \<and> 0 < rows g \<and> 0 < cols g \<and> left (g_rect g) + 2 * borderwidth g \<le> right (g_rect g)
     \<and> top (g_rect g) + 2 * borderwidth g \<le> bottom (g_rect g) \<and> titleheight g \<le> bottom (g_rect g) - top (g_rect g) - 2 * borderwidth g"

text \<open>What the calculation of the layout needs of a column.\<close>

definition column_pre :: "TGrid \<Rightarrow> TColumn \<Rightarrow> bool" where
  "column_pre g c \<longleftrightarrow> left (col_rect c) \<le> right (col_rect c) \<and> cellcount c = rows g + 1 \<and> int (length (cells c)) \<le> rows g + 1"

text \<open>The rectangle of a cell lies inside the border of the grid.\<close>

definition cell_in :: "TGrid \<Rightarrow> TCell \<Rightarrow> bool" where
  "cell_in g c \<longleftrightarrow> left (g_rect g) + borderwidth g \<le> left (c_rect c) \<and> left (c_rect c) \<le> right (c_rect c) \<and> right (c_rect c) \<le> right (g_rect g) - borderwidth g
     \<and> top (g_rect g) + borderwidth g \<le> top (c_rect c) \<and> top (c_rect c) \<le> bottom (c_rect c) \<and> bottom (c_rect c) \<le> bottom (g_rect g) - borderwidth g"

definition column_ok :: "TGrid \<Rightarrow> TColumn \<Rightarrow> bool" where
  "column_ok g c \<longleftrightarrow> column_pre g c
     \<and> left (g_rect g) + borderwidth g \<le> left (col_rect c) \<and> top (col_rect c) = top (g_rect g) + borderwidth g
     \<and> top (col_rect c) \<le> bottom (col_rect c) \<and> bottom (col_rect c) \<le> bottom (g_rect g) - borderwidth g
     \<and> (\<forall>j < length (cells c). c_index (cells c ! j) = int j)
     \<and> (\<forall>k \<in> set (cells c). c_visible k = col_visible c \<and> (col_visible c \<longrightarrow> cell_in g k))
     \<and> (\<forall>i j. i < j \<longrightarrow> j < length (cells c) \<longrightarrow> bottom (c_rect (cells c ! i)) \<le> top (c_rect (cells c ! j)))"

text \<open>The invariant of a grid: its columns and cells are numbered in order, visible cells lie inside the border, and cells do not overlap.\<close>

definition grid_ok :: "TGrid \<Rightarrow> bool" where
  "grid_ok g \<longleftrightarrow> grid_frame g \<and> (\<forall>k < length (columns g). col_index (columns g ! k) = int k) \<and> (\<forall>c \<in> set (columns g). column_ok g c)
     \<and> (\<forall>i j. i < j \<longrightarrow> j < length (columns g) \<longrightarrow>
          (\<forall>a \<in> set (cells (columns g ! i)). \<forall>b \<in> set (cells (columns g ! j)). right (c_rect a) \<le> left (c_rect b)))"

lemma length_place [simp]:
  "length (place_cells r_max b_max th ch vis lft dx tp j cs) = length cs"
  "length (place_columns r_max b_max th ch tp lft i ks) = length ks"
  by (induction cs arbitrary: tp j) (simp_all add: Let_def, induction ks arbitrary: lft i, simp_all add: Let_def)

text \<open>The upper edge of the \<open>j\<close>-th cell of a column.\<close>

definition cell_top :: "int \<Rightarrow> int \<Rightarrow> int \<Rightarrow> nat \<Rightarrow> int" where
  "cell_top tp th ch j = (if j = 0 then tp else tp + th + (int j - 1) * ch)"

lemma place_cells_nth_pos:
  "i < length cs \<Longrightarrow> 0 < j \<Longrightarrow>
    place_cells r_max b_max th ch vis lft dx tp j cs ! i = place_cell r_max b_max vis lft dx (tp + int i * ch) ch (j + int i) (cs ! i)"
proof (induction cs arbitrary: i j tp)
  case (Cons c cs)
  show ?case
  proof (cases i)
    case (Suc m)
    with Cons show ?thesis by (simp add: Let_def algebra_simps)
  qed (use Cons.prems in \<open>simp add: Let_def\<close>)
qed simp

lemma place_cells_nth:
  assumes "i < length cs"
  shows "place_cells r_max b_max th ch vis lft dx tp 0 cs ! i
    = place_cell r_max b_max vis lft dx (cell_top tp th ch i) (if i = 0 then th else ch) (int i) (cs ! i)"
proof (cases cs)
  case (Cons c cs')
  show ?thesis
  proof (cases i)
    case (Suc m)
    with assms Cons show ?thesis by (simp add: Let_def place_cells_nth_pos cell_top_def)
  qed (simp add: Cons Let_def cell_top_def)
qed (use assms in simp)

definition col_left :: "int \<Rightarrow> TColumn list \<Rightarrow> nat \<Rightarrow> int" where
  "col_left lft cs k = lft + sum_list (map (\<lambda>c. right (col_rect c) - left (col_rect c)) (take k cs))"

definition placed :: "int \<Rightarrow> int \<Rightarrow> int \<Rightarrow> int \<Rightarrow> int \<Rightarrow> int \<Rightarrow> int \<Rightarrow> TColumn \<Rightarrow> TColumn" where
  "placed r_max b_max th ch tp lft i c = hd (place_columns r_max b_max th ch tp lft i [c])"

lemma place_columns_nth:
  "k < length cs \<Longrightarrow> place_columns r_max b_max th ch tp lft i cs ! k = placed r_max b_max th ch tp (col_left lft cs k) (i + int k) (cs ! k)"
proof (induction cs arbitrary: k lft i)
  case (Cons c cs)
  show ?case
  proof (cases k)
    case (Suc m)
    with Cons show ?thesis by (simp add: Let_def col_left_def algebra_simps)
  qed (simp add: placed_def col_left_def Let_def)
qed simp

lemma col_left_mono:
  assumes "\<forall>c \<in> set cs. left (col_rect c) \<le> right (col_rect c)" and "i \<le> j"
  shows "col_left lft cs i \<le> col_left lft cs j"
proof -
  have "take j cs = take i cs @ take (j - i) (drop i cs)" using assms(2) by (metis le_add_diff_inverse take_add)
  moreover have "0 \<le> sum_list (map (\<lambda>c. right (col_rect c) - left (col_rect c)) (take (j - i) (drop i cs)))"
    using assms(1) by (intro sum_list_nonneg) (auto dest!: in_set_takeD in_set_dropD)
  ultimately show ?thesis by (simp add: col_left_def)
qed

lemma cell_top_step:
  assumes "i < j" and "0 \<le> th" and "0 \<le> ch"
  shows "cell_top tp th ch i + (if i = 0 then th else ch) \<le> cell_top tp th ch j"
proof -
  have "int i * ch \<le> (int j - 1) * ch" using assms by (intro mult_right_mono) simp_all
  with assms show ?thesis by (auto simp: cell_top_def algebra_simps)
qed

lemma cell_top_bounds:
  assumes "int j \<le> rws" and "0 \<le> th" and "0 \<le> ch" and "tp + th + rws * ch \<le> b_max"
  shows "tp \<le> cell_top tp th ch j" "cell_top tp th ch j + (if j = 0 then th else ch) \<le> b_max"
proof -
  have "int j * ch \<le> rws * ch" using assms(1,3) by (rule mult_right_mono)
  moreover have "0 \<le> (int j - 1) * ch" if "j \<noteq> 0" using that assms(3) by (intro mult_nonneg_nonneg) simp_all
  moreover have "0 \<le> int j * ch" using assms(3) by simp
  ultimately show "tp \<le> cell_top tp th ch j" "cell_top tp th ch j + (if j = 0 then th else ch) \<le> b_max"
    using assms(2-4) by (auto simp: cell_top_def algebra_simps)
qed

text \<open>The heights that the calculation chooses fill at most the grid.\<close>

definition row_heights :: "TGrid \<Rightarrow> int \<times> int" where
  "row_heights g =
     (let h = bottom (g_rect g) - top (g_rect g) - borderwidth g * 2;
          ch = (if titleheight g \<le> 0 then cdiv h (rows g + 1) else cdiv (h - titleheight g) (rows g))
      in (if titleheight g \<le> 0 then ch else titleheight g, ch))"

lemma row_heights_ok:
  assumes "grid_frame g" and "row_heights g = (th, ch)"
  shows "0 \<le> th" "0 \<le> ch" "top (g_rect g) + borderwidth g + th + rows g * ch \<le> bottom (g_rect g) - borderwidth g"
proof -
  let ?h = "bottom (g_rect g) - top (g_rect g) - borderwidth g * 2"
  have f: "0 < rows g" "0 \<le> ?h" "titleheight g \<le> ?h" using assms(1) by (auto simp: grid_frame_def)
  have "0 \<le> th \<and> 0 \<le> ch \<and> th + rows g * ch \<le> ?h"
  proof (cases "titleheight g \<le> 0")
    case True
    then have "ch = ?h div (rows g + 1)" "th = ch" using assms(2) f(2) by (auto simp: row_heights_def Let_def)
    moreover have "?h div (rows g + 1) * (rows g + 1) \<le> ?h" using f(1) by (simp add: minus_mod_eq_div_mult [symmetric])
    moreover have "0 \<le> ?h div (rows g + 1)" using f by (simp add: pos_imp_zdiv_nonneg_iff)
    ultimately show ?thesis by (simp add: algebra_simps)
  next
    case False
    then have "ch = (?h - titleheight g) div rows g" "th = titleheight g" using assms(2) f(3) by (auto simp: row_heights_def Let_def)
    moreover have "(?h - titleheight g) div rows g * rows g \<le> ?h - titleheight g" using f(1) by (simp add: minus_mod_eq_div_mult [symmetric])
    moreover have "0 \<le> (?h - titleheight g) div rows g" using f by (simp add: pos_imp_zdiv_nonneg_iff)
    ultimately show ?thesis using False by (simp add: algebra_simps)
  qed
  then show "0 \<le> th" "0 \<le> ch" "top (g_rect g) + borderwidth g + th + rows g * ch \<le> bottom (g_rect g) - borderwidth g" by simp_all
qed

lemma placed_ok:
  fixes g th ch lft i c
  defines "d \<equiv> placed (right (g_rect g) - borderwidth g) (bottom (g_rect g) - borderwidth g) th ch (top (g_rect g) + borderwidth g) lft i c"
  assumes "grid_frame g" and "row_heights g = (th, ch)" and "column_pre g c" and "left (g_rect g) + borderwidth g \<le> lft"
  shows "column_ok g d" "col_index d = i"
    "\<And>k. k \<in> set (cells d) \<Longrightarrow> left (c_rect k) = lft \<and> right (c_rect k) \<le> lft + (right (col_rect c) - left (col_rect c))"
proof -
  let ?R = "right (g_rect g) - borderwidth g" and ?B = "bottom (g_rect g) - borderwidth g" and ?T = "top (g_rect g) + borderwidth g"
  let ?dx = "right (col_rect c) - left (col_rect c)"
  note h = row_heights_ok [OF assms(2,3)]
  have pre: "0 \<le> ?dx" "cellcount c = rows g + 1" "int (length (cells c)) \<le> rows g + 1" using assms(4) by (simp_all add: column_pre_def)
  let ?ks = "place_cells ?R ?B th ch (lft < ?R) lft ?dx ?T 0 (cells c)"
  have dk: "cells d = ?ks" "col_visible d = (lft < ?R)" "col_rect d = \<lparr>left = lft, top = ?T, right = lft + ?dx, bottom = if ?ks = [] then ?B else bottom (c_rect (last ?ks))\<rparr>"
    "cellcount d = cellcount c" by (simp_all add: d_def placed_def Let_def)
  show "col_index d = i" by (simp add: d_def placed_def Let_def)
  have n: "?ks ! j = place_cell ?R ?B (lft < ?R) lft ?dx (cell_top ?T th ch j) (if j = 0 then th else ch) (int j) (cells c ! j)" if "j < length (cells c)" for j
    using that by (rule place_cells_nth)
  have b: "?T \<le> cell_top ?T th ch j" "cell_top ?T th ch j + (if j = 0 then th else ch) \<le> ?B" if "j < length (cells c)" for j
    using cell_top_bounds [of j "rows g" th ch ?T ?B] that pre(3) h by auto
  have in_cell: "c_visible (?ks ! j) = (lft < ?R) \<and> (lft < ?R \<longrightarrow> cell_in g (?ks ! j)) \<and> left (c_rect (?ks ! j)) = lft \<and> right (c_rect (?ks ! j)) \<le> lft + ?dx
      \<and> ?T \<le> bottom (c_rect (?ks ! j)) \<and> bottom (c_rect (?ks ! j)) \<le> ?B" if "j < length (cells c)" for j
    using b [OF that] h pre(1) assms(5) n [OF that] by (auto simp: place_cell_def cell_in_def split: if_splits)
  have all: "\<forall>k \<in> set ?ks. P k" if "\<And>j. j < length (cells c) \<Longrightarrow> P (?ks ! j)" for P
    using that by (metis in_set_conv_nth length_place(1))
  show "left (c_rect k) = lft \<and> right (c_rect k) \<le> lft + ?dx" if "k \<in> set (cells d)" for k
    using that all [of "\<lambda>k. left (c_rect k) = lft \<and> right (c_rect k) \<le> lft + ?dx"] in_cell unfolding dk(1) by blast
  have vis: "\<forall>k \<in> set ?ks. c_visible k = (lft < ?R) \<and> (lft < ?R \<longrightarrow> cell_in g k)" by (rule all) (use in_cell in blast)
  have bot: "?T \<le> bottom (col_rect d) \<and> bottom (col_rect d) \<le> ?B"
  proof (cases "cells c = []")
    case True
    then show ?thesis using assms(2) by (simp add: dk(3) grid_frame_def)
  next
    case False
    then have "last ?ks = ?ks ! (length (cells c) - 1)" by (metis last_conv_nth length_0_conv length_place(1))
    moreover have "?ks \<noteq> []" using False by (metis length_0_conv length_place(1))
    ultimately show ?thesis using in_cell [of "length (cells c) - 1"] False by (simp add: dk(3))
  qed
  have st: "bottom (c_rect (?ks ! a)) \<le> top (c_rect (?ks ! b))" if "a < b" "b < length (cells c)" for a b
    using that cell_top_step [OF that(1) h(1,2), of ?T] n [of a] n [of b] b(2) [of a] by (auto simp: place_cell_def)
  show "column_ok g d"
    unfolding column_ok_def column_pre_def dk using pre vis bot st n assms(5)
    by (auto simp: dk(3) place_cell_def)
qed

lemma calc_columns:
  assumes "grid_frame g" and "g_changed g" and "row_heights g = (th, ch)"
  shows "grid_calcurate_cell_rect_internal g = g\<lparr>columns := place_columns (right (g_rect g) - borderwidth g) (bottom (g_rect g) - borderwidth g) th ch
     (top (g_rect g) + borderwidth g) (left (g_rect g) + borderwidth g) 0 (columns g), g_changed := False\<rparr>"
  using assms by (auto simp: grid_calcurate_cell_rect_internal_def grid_frame_def row_heights_def Let_def)

lemma column_ok_cong:
  assumes "g_rect g = g_rect h" and "borderwidth g = borderwidth h" and "rows g = rows h"
  shows "column_ok g c = column_ok h c" "column_pre g c = column_pre h c"
  using assms by (simp_all add: column_ok_def column_pre_def cell_in_def)

lemma grid_frame_cong:
  assumes "g_rect g = g_rect h" and "borderwidth g = borderwidth h" and "rows g = rows h" and "cols g = cols h" and "titleheight g = titleheight h"
  shows "grid_frame g = grid_frame h"
  using assms by (simp add: grid_frame_def)

lemma calc_ok:
  assumes "grid_frame g" and "g_changed g" and "\<forall>c \<in> set (columns g). column_pre g c"
  shows "grid_ok (grid_calcurate_cell_rect_internal g)"
proof -
  obtain th ch where h: "row_heights g = (th, ch)" by (cases "row_heights g") auto
  let ?g = "grid_calcurate_cell_rect_internal g" and ?L = "left (g_rect g) + borderwidth g"
  note e = calc_columns [OF assms(1,2) h]
  have w: "\<forall>c \<in> set (columns g). left (col_rect c) \<le> right (col_rect c)" using assms(3) by (auto simp: column_pre_def)
  have same: "g_rect ?g = g_rect g" "borderwidth ?g = borderwidth g" "rows ?g = rows g" "cols ?g = cols g" "titleheight ?g = titleheight g"
    "length (columns ?g) = length (columns g)" by (simp_all add: e)
  have n: "columns ?g ! k = placed (right (g_rect g) - borderwidth g) (bottom (g_rect g) - borderwidth g) th ch
      (top (g_rect g) + borderwidth g) (col_left ?L (columns g) k) (int k) (columns g ! k)" if "k < length (columns g)" for k
    using place_columns_nth [OF that] by (simp add: e)
  have l: "?L \<le> col_left ?L (columns g) k" for k using col_left_mono [OF w, of 0 k ?L] by (simp add: col_left_def)
  note p = placed_ok [OF assms(1) h _ l]
  have ok: "column_ok ?g (columns ?g ! k)" "col_index (columns ?g ! k) = int k" if "k < length (columns g)" for k
    using p(1,2) [of "columns g ! k" k "int k"] assms(3) that column_ok_cong(1) [OF same(1-3)] by (simp_all add: n)
  have apart: "right (c_rect a) \<le> left (c_rect b)"
    if "i < j" "j < length (columns g)" "a \<in> set (cells (columns ?g ! i))" "b \<in> set (cells (columns ?g ! j))" for i j a b
  proof -
    have i: "i < length (columns g)" using that by simp
    have "right (c_rect a) \<le> col_left ?L (columns g) i + (right (col_rect (columns g ! i)) - left (col_rect (columns g ! i)))"
      using p(3) [of "columns g ! i" a i "int i"] that(3) assms(3) i by (simp add: n)
    also have "\<dots> = col_left ?L (columns g) (Suc i)" using i by (simp add: col_left_def take_Suc_conv_app_nth)
    also have "\<dots> \<le> col_left ?L (columns g) j" using that(1) by (intro col_left_mono [OF w]) simp
    also have "\<dots> = left (c_rect b)" using p(3) [of "columns g ! j" b j "int j"] that assms(3) by (simp add: n)
    finally show ?thesis .
  qed
  have "grid_frame ?g" using assms(1) grid_frame_cong [OF same(1-5)] by simp
  moreover have "\<forall>c \<in> set (columns ?g). column_ok ?g c" using ok(1) same(6) by (metis in_set_conv_nth)
  ultimately show ?thesis using ok(2) apart same(6) unfolding grid_ok_def by simp
qed

section \<open>Changes that keep the layout\<close>

definition same_cell :: "TCell \<Rightarrow> TCell \<Rightarrow> bool" where
  "same_cell c d \<longleftrightarrow> c_rect d = c_rect c \<and> c_index d = c_index c \<and> c_visible d = c_visible c"

definition same_column :: "TColumn \<Rightarrow> TColumn \<Rightarrow> bool" where
  "same_column c d \<longleftrightarrow> col_rect d = col_rect c \<and> col_index d = col_index c \<and> col_visible d = col_visible c \<and> cellcount d = cellcount c
     \<and> list_all2 same_cell (cells c) (cells d)"

definition same_layout :: "TGrid \<Rightarrow> TGrid \<Rightarrow> bool" where
  "same_layout g h \<longleftrightarrow> g_rect h = g_rect g \<and> borderwidth h = borderwidth g \<and> rows h = rows g \<and> cols h = cols g \<and> titleheight h = titleheight g
     \<and> list_all2 same_column (columns g) (columns h)"

lemma same_refl [simp, intro]: "same_cell c c" "same_column d d" "same_layout g g" "list_all2 same_cell cs cs"
  by (simp_all add: same_cell_def same_column_def same_layout_def list_all2_conv_all_nth)

lemma same_column_trans: "same_column a b \<Longrightarrow> same_column b c \<Longrightarrow> same_column a c"
  by (auto simp: same_column_def same_cell_def list_all2_conv_all_nth)

lemma same_column_ok:
  assumes "same_column c d" and "column_ok g c"
  shows "column_ok g d"
proof -
  have l: "length (cells d) = length (cells c)" using assms(1) by (auto simp: same_column_def list_all2_conv_all_nth)
  have n: "c_rect (cells d ! j) = c_rect (cells c ! j)" "c_index (cells d ! j) = c_index (cells c ! j)" "c_visible (cells d ! j) = c_visible (cells c ! j)"
    if "j < length (cells c)" for j using assms(1) that by (auto simp: same_column_def same_cell_def list_all2_conv_all_nth)
  have ci: "cell_in g (cells d ! j) = cell_in g (cells c ! j)" if "j < length (cells c)" for j using n(1) [OF that] by (simp add: cell_in_def)
  have "c_visible (cells d ! j) = col_visible d \<and> (col_visible d \<longrightarrow> cell_in g (cells d ! j))" if "j < length (cells c)" for j
    using assms nth_mem [OF that] n(3) [OF that] ci [OF that] by (auto simp: column_ok_def same_column_def)
  then have "\<forall>k \<in> set (cells d). c_visible k = col_visible d \<and> (col_visible d \<longrightarrow> cell_in g k)" using l by (metis in_set_conv_nth)
  with n l assms show ?thesis by (simp add: column_ok_def column_pre_def same_column_def)
qed

lemma same_layout_ok:
  assumes "same_layout g h" and "grid_ok g"
  shows "grid_ok h"
proof -
  have s: "g_rect h = g_rect g" "borderwidth h = borderwidth g" "rows h = rows g" "cols h = cols g" "titleheight h = titleheight g"
    "list_all2 same_column (columns g) (columns h)" using assms(1) by (simp_all add: same_layout_def)
  have l: "length (columns h) = length (columns g)" using s(6) by (simp add: list_all2_lengthD)
  have c: "same_column (columns g ! k) (columns h ! k)" if "k < length (columns g)" for k using s(6) that by (rule list_all2_nthD)
  have ok: "column_ok h (columns h ! k)" if "k < length (columns g)" for k
    using same_column_ok [OF c [OF that]] assms(2) that column_ok_cong(1) [OF s(1-3)] by (simp add: grid_ok_def)
  have r: "\<exists>a' \<in> set (cells (columns g ! k)). c_rect a' = c_rect a" if ka: "k < length (columns g)" "a \<in> set (cells (columns h ! k))" for k a
  proof -
    obtain i where "i < length (cells (columns h ! k))" "a = cells (columns h ! k) ! i" using ka(2) by (auto simp: in_set_conv_nth)
    then show ?thesis using c [OF ka(1)]
      by (intro bexI [of _ "cells (columns g ! k) ! i"]) (auto simp: same_column_def same_cell_def list_all2_conv_all_nth)
  qed
  have a: "right (c_rect a) \<le> left (c_rect b)"
    if ij: "i < j" "j < length (columns g)" "a \<in> set (cells (columns h ! i))" "b \<in> set (cells (columns h ! j))" for i j a b
  proof -
    obtain a' where a': "a' \<in> set (cells (columns g ! i))" "c_rect a' = c_rect a" using r ij by (meson less_trans)
    obtain b' where b': "b' \<in> set (cells (columns g ! j))" "c_rect b' = c_rect b" using r ij by blast
    have "right (c_rect a') \<le> left (c_rect b')" using assms(2) ij(1,2) a'(1) b'(1) by (simp add: grid_ok_def)
    then show ?thesis by (simp add: a'(2) b'(2))
  qed
  have "grid_frame h" using assms(2) grid_frame_cong [OF s(1-5)] by (simp add: grid_ok_def)
  moreover have "col_index (columns h ! k) = int k" if "k < length (columns g)" for k
    using c [OF that] assms(2) that by (simp add: same_column_def grid_ok_def)
  moreover have "\<forall>c \<in> set (columns h). column_ok h c" using ok l by (metis in_set_conv_nth)
  ultimately show ?thesis using a l unfolding grid_ok_def by simp
qed

lemma set_text_same: "same_cell c (snd (set_text s g col t c))"
  by (simp add: set_text_def same_cell_def Let_def split: option.split)

lemma blank_cell_same: "same_cell c (snd (blank_cell s g row col c))"
  by (simp add: blank_cell_def same_cell_def)

lemma list_all2_update:
  assumes "\<And>x. P x x" and "k < length xs \<Longrightarrow> P (xs ! k) y"
  shows "list_all2 P xs (xs[k := y])"
proof (cases "k < length xs")
  case True
  with assms show ?thesis by (auto simp: list_all2_conv_all_nth nth_list_update)
qed (simp add: assms(1) list_all2_conv_all_nth)

lemma column_update_same:
  assumes "k < length (cells c) \<Longrightarrow> same_cell (cells c ! k) x"
  shows "same_column c (c\<lparr>cells := (cells c)[k := x]\<rparr>)"
  using list_all2_update [of same_cell k "cells c" x] assms by (simp add: same_column_def same_refl)

lemma grid_set_cell_text_same: "same_layout g (snd (grid_set_cell_text s row col t g))"
proof -
  have "same_layout g (on_column k (\<lambda>c. c\<lparr>cells := (cells c)[j := x]\<rparr>) g)" if "same_cell (cells (columns g ! k) ! j) x" for k j x
    using list_all2_update [of same_column k "columns g", OF same_refl(2) column_update_same] that by (simp add: same_layout_def on_column_def)
  then have *: "same_layout g (on_column k (\<lambda>c. c\<lparr>cells := (cells c)[j := snd (set_text s g c' t (cells (columns g ! k) ! j))]\<rparr>) g)" for k j c'
    using set_text_same by blast
  then show ?thesis by (simp add: grid_set_cell_text_def Let_def case_prod_beta split: option.splits)
qed

lemma grid_blank_row_same: "same_layout g (snd (grid_blank_row s row g))"
  using blank_cell_same by (auto simp: grid_blank_row_def same_layout_def list_all2_conv_all_nth same_column_def)

lemma scroll_cell_same: "same_column col (snd (scroll_cell s g n k (ds, col)))"
proof -
  let ?p = "cells col ! k" and ?c = "col\<lparr>cells := (cells col)[k := (cells col ! k)\<lparr>cell_text := []\<rparr>]\<rparr>"
  have 1: "same_column col ?c" by (rule column_update_same) (simp add: same_cell_def)
  have 2: "same_column ?c (?c\<lparr>cells := (cells ?c)[k := ?p\<lparr>cell_text := t\<rparr>]\<rparr>)" for t
    by (rule column_update_same) (simp add: same_cell_def)
  have 3: "same_column d (d\<lparr>cells := (cells d)[j := (cells e ! j)\<lparr>cell_text := []\<rparr>]\<rparr>)" if "same_column e d" for d e j
    using that by (intro column_update_same) (auto simp: same_cell_def same_column_def list_all2_conv_all_nth)
  have "same_column col (?c\<lparr>cells := (cells ?c)[k := ?p\<lparr>cell_text := t\<rparr>, j := (cells ?c ! j)\<lparr>cell_text := []\<rparr>]\<rparr>)" for t j
    using same_column_trans [OF 1 same_column_trans [OF 2 3 [OF 2]]] by simp
  with 1 show ?thesis by (simp add: scroll_cell_def Let_def split: option.split)
qed

lemma scroll_column_same: "same_column col (snd (scroll_column s g n col))"
proof -
  have "same_column col (snd (fold (scroll_cell s g n) ks a))" if "same_column col (snd a)" for ks a
    using that
  proof (induction ks arbitrary: a)
    case (Cons k ks)
    have "same_column col (snd (scroll_cell s g n k a))"
      using same_column_trans [OF Cons.prems scroll_cell_same [of "snd a" s g n k "fst a"]] by simp
    from Cons.IH [OF this] show ?case by simp
  qed simp
  then show ?thesis by (simp add: scroll_column_def)
qed

lemma grid_scroll_rows_same: "same_layout g (snd (grid_scroll_rows s n g))"
  using scroll_column_same by (auto simp: grid_scroll_rows_def same_layout_def list_all2_conv_all_nth)

lemma grid_set_color_same: "same_layout g (grid_set_color c g)"
  by (simp add: grid_set_color_def same_layout_def list_all2_conv_all_nth same_column_def)

lemma on_column_same: "same_column (columns g ! k) (f (columns g ! k)) \<Longrightarrow> same_layout g (on_column k f g)"
  using list_all2_update [of same_column k "columns g" "f (columns g ! k)"] by (simp add: same_layout_def on_column_def same_refl)

lemma paint_grid_same: "same_layout g (snd (paint_grid s g))"
  by (simp add: paint_grid_def same_layout_def Let_def list_all2_refl)

section \<open>Changes of the columns\<close>

lemma find_index:
  assumes "\<forall>k < n. f k = int k"
  shows "find (\<lambda>k. f k = c) [0..<n] = (if 0 \<le> c \<and> c < int n then Some (nat c) else None)"
proof (cases "0 \<le> c \<and> c < int n")
  case True
  then have n: "nat c < n" by linarith
  have "find (\<lambda>k. f k = c) [0..<n] = Some ([0..<n] ! nat c)"
    using assms n True by (auto simp: find_Some_iff intro!: exI [of _ "nat c"])
  with n True show ?thesis by simp
next
  case False
  then show ?thesis using assms by (auto simp: find_None_iff)
qed

lemma get_column_ok: "grid_ok g \<Longrightarrow> grid_get_column g c = (if 0 \<le> c \<and> c < int (length (columns g)) then Some (nat c) else None)"
  unfolding grid_get_column_def by (rule find_index) (simp add: grid_ok_def)

lemma grid_ok_pre: "grid_ok g \<Longrightarrow> grid_frame g \<and> (\<forall>c \<in> set (columns g). column_pre g c)"
  by (auto simp: grid_ok_def column_ok_def)

lemma recalculated_ok:
  assumes "grid_ok g" and "\<forall>c \<in> set cs. column_pre g c"
  shows "grid_ok (grid_calcurate_cell_rect_internal (g\<lparr>g_changed := True, columns := cs\<rparr>))"
proof (rule calc_ok)
  show "grid_frame (g\<lparr>g_changed := True, columns := cs\<rparr>)" using assms(1) by (simp add: grid_ok_def grid_frame_def)
  show "\<forall>c \<in> set (columns (g\<lparr>g_changed := True, columns := cs\<rparr>)). column_pre (g\<lparr>g_changed := True, columns := cs\<rparr>) c"
    using assms(2) by (simp add: column_pre_def)
qed simp

lemma set_column_width_ok:
  assumes "grid_ok g" and "0 \<le> width"
  shows "grid_ok (grid_set_column_width index width g)"
proof (cases "0 \<le> index \<and> index < int (length (columns g))")
  case True
  let ?k = "nat index"
  have k: "?k < length (columns g)" using True by linarith
  let ?r = "col_rect (columns g ! ?k)"
  let ?cs = "(columns g)[?k := (columns g ! ?k)\<lparr>col_rect := ?r\<lparr>right := left ?r + width\<rparr>\<rparr>]"
  have "\<forall>c \<in> set ?cs. column_pre g c"
    using grid_ok_pre [OF assms(1)] assms(2) k by (auto dest!: set_update_subset_insert [THEN subsetD] simp: column_pre_def)
  from recalculated_ok [OF assms(1) this] assms(1) True show ?thesis
    by (simp add: grid_set_column_width_def get_column_ok [OF assms(1)] on_column_def Let_def)
next
  case False
  then show ?thesis using assms(1) by (auto simp: grid_set_column_width_def get_column_ok [OF assms(1)])
qed

lemma delete_column_ok:
  assumes "grid_ok g"
  shows "grid_ok (snd (grid_delete_column index g))"
proof -
  have "\<forall>c \<in> set (remove_nth k (columns g)). column_pre g c" for k
    using grid_ok_pre [OF assms] by (auto simp: remove_nth_def dest!: in_set_takeD in_set_dropD)
  from recalculated_ok [OF assms this] assms show ?thesis by (simp add: grid_delete_column_def split: option.split)
qed

lemma new_cells:
  "length (concat (map (\<lambda>i. map (\<lambda>c. c\<lparr>c_index := int i\<rparr>) (grid_new_cell_internal (f i) w [])) [0..<n])) \<le> n"
  by (induction n) (auto simp: grid_new_cell_internal_def)

lemma new_column_pre:
  assumes "grid_new_column_internal True cell_alloc width g = (r, h)" and "0 \<le> width" and "0 < rows g"
  shows "\<exists>c. column_pre g c \<and> col_index c = 0 \<and> h = g\<lparr>columns := columns g @ [c], g_changed := True\<rparr> \<and> r = Some (length (columns g))"
proof -
  let ?ks = "concat (map (\<lambda>i. map (\<lambda>c. c\<lparr>c_index := int i\<rparr>) (grid_new_cell_internal (cell_alloc i) width [])) [0..<nat (rows g + 1)])"
  have "int (length ?ks) \<le> rows g + 1" using new_cells [of cell_alloc width "nat (rows g + 1)"] assms(3) by linarith
  with assms show ?thesis
    by (intro exI [of _ "last (columns h)"]) (auto simp: grid_new_column_internal_def Let_def column_pre_def blank_rect_def)
qed

lemma new_column_ok:
  assumes "grid_ok g" and "0 \<le> width" and "0 \<le> index" and "index < int (length (columns g))"
    and "grid_new_column alloc cell_alloc index width g = Some (b, h)"
  shows "grid_ok h"
proof (cases alloc)
  case True
  have r: "0 < rows g" using assms(1) by (simp add: grid_ok_def grid_frame_def)
  obtain res g1 where "grid_new_column_internal True cell_alloc width g = (res, g1)" by fastforce
  with new_column_pre [OF this assms(2) r] obtain c where c: "column_pre g c" "col_index c = 0"
    and i: "grid_new_column_internal True cell_alloc width g = (Some (length (columns g)), g\<lparr>columns := columns g @ [c], g_changed := True\<rparr>)" by auto
  let ?g = "g\<lparr>columns := columns g @ [c], g_changed := True\<rparr>" and ?k = "nat index"
  have k: "?k < length (columns g)" using assms(3,4) by linarith
  then have ne: "columns g \<noteq> []" by auto
  have ci: "\<forall>k < length (columns g). col_index (columns g ! k) = int k" using assms(1) by (simp add: grid_ok_def)
  have f: "grid_get_column ?g index = Some ?k"
    using k ci assms(3) by (auto simp: grid_get_column_def find_Some_iff nth_append intro!: exI [of _ ?k])
  have rest: "remove_nth (length (columns g)) (columns g @ [c]) = columns g" by (simp add: remove_nth_def)
  have "grid_set_column_index (length (columns g)) index ?g
      = Some (grid_calcurate_cell_rect_internal (g\<lparr>g_changed := True, columns := take ?k (columns g) @ c # drop ?k (columns g)\<rparr>))"
    using k by (simp add: grid_set_column_index_def f rest Let_def)
  then have "h = grid_calcurate_cell_rect_internal (g\<lparr>g_changed := True, columns := take ?k (columns g) @ c # drop ?k (columns g)\<rparr>)"
    using assms(5) True i ne by (simp add: grid_new_column_def)
  moreover have "\<forall>x \<in> set (take ?k (columns g) @ c # drop ?k (columns g)). column_pre g x"
    using grid_ok_pre [OF assms(1)] c(1) by (auto dest!: in_set_takeD in_set_dropD)
  ultimately show ?thesis using recalculated_ok [OF assms(1)] by blast
next
  case False
  then show ?thesis using assms(1,5) by (auto simp: grid_new_column_def grid_new_column_internal_def split: if_splits)
qed

lemma make_columns_pre:
  assumes "0 \<le> cw" and "0 < rows g" and "g_changed g" and "\<forall>c \<in> set (columns g). column_pre g c"
  shows "\<exists>cs. make_columns ca ka cw i n g = g\<lparr>columns := cs\<rparr> \<and> (\<forall>c \<in> set cs. column_pre g c)"
  using assms(2-4)
proof (induction n arbitrary: i g)
  case 0
  then show ?case by (intro exI [of _ "columns g"]) simp
next
  case (Suc n)
  show ?case
  proof (cases "ca i")
    case True
    obtain r h where e: "grid_new_column_internal True (ka i) cw g = (r, h)" by fastforce
    from new_column_pre [OF this assms(1) Suc.prems(1)] obtain c where c: "column_pre g c" "h = g\<lparr>columns := columns g @ [c], g_changed := True\<rparr>"
      "r = Some (length (columns g))" by blast
    let ?g = "g\<lparr>g_changed := True, columns := columns g @ [c\<lparr>col_index := int i\<rparr>]\<rparr>"
    have m: "make_columns ca ka cw i (Suc n) g = make_columns ca ka cw (i + 1) n ?g"
      using True by (simp add: e c(2,3) on_column_def)
    have "\<forall>c \<in> set (columns ?g). column_pre ?g c" using Suc.prems(3) c(1) by (auto simp: column_pre_def)
    from Suc.IH [of ?g "i + 1"] Suc.prems(1) this obtain cs where "make_columns ca ka cw (i + 1) n ?g = ?g\<lparr>columns := cs\<rparr>" "\<forall>c \<in> set cs. column_pre ?g c"
      by auto
    then show ?thesis using m Suc.prems(2) by (intro exI [of _ cs]) (simp add: column_pre_def)
  next
    case False
    then have "make_columns ca ka cw i (Suc n) g = make_columns ca ka cw (i + 1) n g" by (simp add: grid_new_column_internal_def)
    with Suc.IH [OF Suc.prems, of "i + 1"] show ?thesis by simp
  qed
qed

section \<open>Painting stays inside\<close>

definition pt_in :: "TRect \<Rightarrow> int \<Rightarrow> int \<Rightarrow> bool" where
  "pt_in r x y \<longleftrightarrow> left r \<le> x \<and> x \<le> right r \<and> top r \<le> y \<and> y \<le> bottom r"

text \<open>What is painted lies in a rectangle; of texts the position and, for characters of the width \<open>fw\<close>, the horizontal extent.\<close>

fun draw_in :: "int \<Rightarrow> TRect \<Rightarrow> draw \<Rightarrow> bool" where
  "draw_in fw r (SetColor c) \<longleftrightarrow> True"
| "draw_in fw r (SetFGColor c) \<longleftrightarrow> True"
| "draw_in fw r (OwnerDraw i) \<longleftrightarrow> True"
| "draw_in fw r (DrawRect a b c d) \<longleftrightarrow> pt_in r a b \<and> pt_in r c d"
| "draw_in fw r (DrawLine a b c d) \<longleftrightarrow> pt_in r a b \<and> pt_in r c d"
| "draw_in fw r (FillRect a b c d) \<longleftrightarrow> pt_in r a b \<and> pt_in r c d"
| "draw_in fw r (PutString x y t) \<longleftrightarrow> pt_in r x y \<and> x + int (length t) * fw \<le> right r"
| "draw_in fw r (PutStringCenter x y t) \<longleftrightarrow> pt_in r x y \<and> left r \<le> x - (int (length t) * fw) div 2 \<and> x + (int (length t) * fw + 1) div 2 \<le> right r"
| "draw_in fw r ClearBuffer \<longleftrightarrow> False"

lemma cell_frame:
  assumes "grid_frame g" and "cell_in g c"
  shows "0 \<le> left (c_rect c)" "0 \<le> top (c_rect c)" "left (g_rect g) + 1 \<le> left (c_rect c)" "left (c_rect c) \<le> right (c_rect c)" "right (c_rect c) + 1 \<le> right (g_rect g)"
    "top (g_rect g) + 1 \<le> top (c_rect c)" "top (c_rect c) \<le> bottom (c_rect c)" "bottom (c_rect c) + 1 \<le> bottom (g_rect g)"
  using assms by (auto simp: grid_frame_def cell_in_def)

lemma fitting_text:
  assumes "0 \<le> w" and "2 \<le> fw" and "int n \<le> max 0 (cdiv (w - 2) fw)"
  shows "int n * fw \<le> w"
proof (cases "2 \<le> w")
  case True
  have "0 \<le> (w - 2) div fw" using True assms(2) by (simp add: pos_imp_zdiv_nonneg_iff)
  with True assms(3) have "int n \<le> (w - 2) div fw" by simp
  then have "int n * fw \<le> (w - 2) div fw * fw" using assms(2) by (intro mult_right_mono) simp_all
  also have "\<dots> \<le> w - 2" using assms(2) by (simp add: minus_mod_eq_div_mult [symmetric])
  finally show ?thesis by simp
next
  case False
  then have "w = 0 \<or> w = 1" using assms(1) by linarith
  then have "cdiv (w - 2) fw \<le> 0" using assms(2) by (auto simp: cdiv_def pos_imp_zdiv_nonneg_iff)
  with assms(1,3) show ?thesis by simp
qed

lemma centred_text:
  assumes "grid_frame g" and "cell_in g c" and "int (length t) * fw \<le> right (c_rect c) - left (c_rect c)"
  shows "draw_in fw (g_rect g) (PutStringCenter (plus_half (left (c_rect c) + cdiv (right (c_rect c) - left (c_rect c)) 2))
     (plus_half (top (c_rect c) + cdiv (bottom (c_rect c) - top (c_rect c)) 2)) t)"
proof -
  note f = cell_frame [OF assms(1,2)]
  let ?w = "right (c_rect c) - left (c_rect c)" and ?h = "bottom (c_rect c) - top (c_rect c)"
  define a b where "a = ?w div 2" and "b = ?h div 2"
  have "0 \<le> a" "0 \<le> b" "a \<le> ?w" "b \<le> ?h" using f by (auto simp: a_def b_def pos_imp_zdiv_nonneg_iff)
  moreover have "(int (length t) * fw) div 2 \<le> a" unfolding a_def using assms(3) by (intro zdiv_mono1) simp_all
  moreover have "a + (int (length t) * fw + 1) div 2 \<le> ?w" unfolding a_def using assms(3) by linarith
  moreover have "cdiv ?w 2 = a" "cdiv ?h 2 = b" using f by (simp_all add: a_def b_def)
  ultimately show ?thesis using f by (simp add: plus_half_def pt_in_def)
qed

lemma draw_text_in:
  assumes "grid_frame g" and "cell_in g c" and "2 \<le> asc_font_width s" and "0 \<le> asc_font_height s"
  shows "\<forall>d \<in> set (grid_draw_cell_text_internal s g col c). draw_in (asc_font_width s) (g_rect g) d"
proof (cases "shown s g c \<and> cell_text c \<noteq> []")
  case True
  note f = cell_frame [OF assms(1,2)]
  let ?r = "c_rect c" and ?fw = "asc_font_width s" and ?fh = "asc_font_height s"
  have sh: "?fw \<le> right ?r - left ?r" "?fh \<le> bottom ?r - top ?r" using True by (auto simp: shown_def)
  define n where "n = nat (min (if cdiv (right ?r - left ?r - 2) ?fw < 0 then int (length (cell_text c))
      else min (cdiv (right ?r - left ?r - 2) ?fw) (int (length (cell_text c)))) 100)"
  define t where "t = take n (cell_text c)"
  have nn: "0 \<le> cdiv (right ?r - left ?r - 2) ?fw" using sh assms(3) by (simp add: pos_imp_zdiv_nonneg_iff)
  have len: "int (length t) * ?fw \<le> right ?r - left ?r"
    using nn assms(3) sh by (intro fitting_text) (simp_all add: t_def n_def)
  have len2: "int (length t) * ?fw \<le> right ?r - left ?r - 2"
  proof -
    have "0 \<le> right ?r - left ?r - 2" using sh assms(3) by simp
    then have "int (length t) \<le> (right ?r - left ?r - 2) div ?fw" using nn by (simp add: t_def n_def)
    then have "int (length t) * ?fw \<le> (right ?r - left ?r - 2) div ?fw * ?fw" using assms(3) by (intro mult_right_mono) simp_all
    also have "\<dots> \<le> right ?r - left ?r - 2" using assms(3) by (simp add: minus_mod_eq_div_mult [symmetric])
    finally show ?thesis .
  qed
  define b where "b = cdiv (bottom ?r - top ?r - ?fh) 2"
  have y: "0 \<le> b" "b \<le> bottom ?r - top ?r" using sh assms(4) by (auto simp: b_def pos_imp_zdiv_nonneg_iff)
  have e: "grid_draw_cell_text_internal s g col c = [SetFGColor (col_fontcolor col),
      if align col = align_center
      then PutStringCenter (plus_half (left ?r + cdiv (right ?r - left ?r) 2)) (plus_half (top ?r + cdiv (bottom ?r - top ?r) 2)) t
      else PutString (left ?r + 1) (plus_half (top ?r + cdiv (bottom ?r - top ?r - ?fh) 2)) t]"
    using True by (simp add: grid_draw_cell_text_internal_def Let_def t_def n_def)
  have "draw_in ?fw (g_rect g) (PutString (left ?r + 1) (plus_half (top ?r + cdiv (bottom ?r - top ?r - ?fh) 2)) t)"
    unfolding b_def [symmetric] using f y len2 sh assms(3) by (simp add: pt_in_def plus_half_def)
  with centred_text [OF assms(1,2) len] show ?thesis unfolding e by simp
qed (auto simp: grid_draw_cell_text_internal_def Let_def)

lemma paint_cell_in:
  assumes "grid_frame g" and "cell_in g c" and "2 \<le> asc_font_width s" and "0 \<le> asc_font_height s"
  shows "\<forall>d \<in> set (paint_cell s g col c). draw_in (asc_font_width s) (g_rect g) d"
proof -
  note f = cell_frame [OF assms(1,2)]
  let ?r = "c_rect c" and ?fw = "asc_font_width s"
  have b: "\<forall>d \<in> set (paint_border g c). draw_in ?fw (g_rect g) d"
    using f by (auto simp: paint_border_def Let_def pt_in_def)
  have i: "draw_in ?fw (g_rect g) (FillRect (left ?r + 1) (top ?r + 1) (right ?r - 1) (bottom ?r - 1))"
    using f by (simp add: pt_in_def)
  let ?t = "take (nat (min (cdiv (right ?r - left ?r - 2) ?fw) 32)) (title col)"
  have "int (length ?t) * ?fw \<le> right ?r - left ?r" using f(4) assms(3) by (intro fitting_text) auto
  note t = centred_text [OF assms(1,2) this]
  have "\<forall>d \<in> set (paint_title s g col c). draw_in ?fw (g_rect g) d"
    using f i t by (auto simp: paint_title_def Let_def pt_in_def simp del: draw_in.simps(8))
  then show ?thesis using b i draw_text_in [OF assms] by (auto simp: paint_cell_def Let_def simp del: draw_in.simps(6-8))
qed

lemma paint_remainder_in:
  assumes "grid_ok g"
  shows "\<forall>d \<in> set (paint_remainder g). draw_in fw (g_rect g) d"
proof (cases "columns g = []")
  case False
  then have "column_ok g (last (columns g))" "grid_frame g" using assms by (simp_all add: grid_ok_def)
  with False show ?thesis by (auto simp: paint_remainder_def Let_def column_ok_def column_pre_def grid_frame_def pt_in_def)
qed (simp add: paint_remainder_def)

lemma paint_grid_in:
  assumes "grid_ok g" and "2 \<le> asc_font_width s" and "0 \<le> asc_font_height s"
  shows "\<forall>d \<in> set (fst (paint_grid s g)). draw_in (asc_font_width s) (g_rect g) d"
proof -
  have f: "grid_frame g" using assms(1) by (simp add: grid_ok_def)
  let ?in = "draw_in (asc_font_width s) (g_rect g)"
  have 1: "?in (DrawRect (left (g_rect g) + i) (top (g_rect g) + i) (right (g_rect g) - i) (bottom (g_rect g) - i))"
    if "0 \<le> i" "i < borderwidth g" for i using f that by (simp add: grid_frame_def pt_in_def)
  have "cell_in g c" if "col \<in> set (columns g)" "col_visible col" "c \<in> set (cells col)" for col c
    using assms(1) that by (auto simp: grid_ok_def column_ok_def)
  then have 2: "?in d" if "col \<in> set (columns g)" "col_visible col" "c \<in> set (cells col)" "d \<in> set (paint_cell s g col c)" for col c d
    using paint_cell_in [OF f _ assms(2,3)] that by blast
  show ?thesis
  proof (cases "g_changed g")
    case True
    then show ?thesis using 1 2 paint_remainder_in [OF assms(1)]
      by (auto simp: paint_grid_def Let_def simp del: draw_in.simps(4-8))
  qed (simp add: paint_grid_def)
qed

section \<open>A table of texts\<close>

text \<open>What a user of a grid relies on: a text that was written is read back at its place, and the other places keep theirs.\<close>

locale text_table =
  fixes ok :: "'g \<Rightarrow> bool" and has :: "'g \<Rightarrow> int \<Rightarrow> int \<Rightarrow> bool" and text_at :: "'g \<Rightarrow> int \<Rightarrow> int \<Rightarrow> string" and put :: "int \<Rightarrow> int \<Rightarrow> string \<Rightarrow> 'g \<Rightarrow> 'g"
    and width :: nat
  assumes put_ok: "ok g \<Longrightarrow> ok (put r c t g)"
    and has_put: "ok g \<Longrightarrow> has (put r c t g) r' c' = has g r' c'"
    and text_put: "ok g \<Longrightarrow> has g r c \<Longrightarrow> has g r' c' \<Longrightarrow> text_at (put r c t g) r' c' = (if r' = r \<and> c' = c then take width t else text_at g r' c')"
begin

text \<open>A series of texts: every place shows the last text written to it.\<close>

definition puts :: "(int \<times> int \<times> string) list \<Rightarrow> 'g \<Rightarrow> 'g" where
  "puts ws g = fold (\<lambda>(r, c, t). put r c t) ws g"

lemma puts_ok:
  assumes "ok g"
  shows "ok (puts ws g) \<and> has (puts ws g) r c = has g r c"
  using assms by (induction ws arbitrary: g) (auto simp: puts_def put_ok has_put)

lemma puts_text:
  assumes "ok g" and "\<forall>(r, c, t) \<in> set ws. has g r c" and "has g r c"
  shows "text_at (puts ws g) r c = (case map_of (rev (map (\<lambda>(r, c, t). ((r, c), t)) ws)) (r, c) of None \<Rightarrow> text_at g r c | Some t \<Rightarrow> take width t)"
  using assms
proof (induction ws rule: rev_induct)
  case Nil
  then show ?case by (simp add: puts_def)
next
  case (snoc w ws)
  obtain r' c' t where w: "w = (r', c', t)" by (cases w) auto
  have "puts (ws @ [w]) g = put r' c' t (puts ws g)" by (simp add: puts_def w)
  moreover have "ok (puts ws g)" "has (puts ws g) r' c'" "has (puts ws g) r c"
    using puts_ok [OF snoc.prems(1), of ws] snoc.prems(2,3) by (simp_all add: w)
  ultimately show ?case using snoc by (simp add: w text_put)
qed

end

definition grid_text :: "TGrid \<Rightarrow> int \<Rightarrow> int \<Rightarrow> string" where
  "grid_text g row col = cell_text (cells (columns g ! nat col) ! nat (row + 1))"

definition has_cell :: "TGrid \<Rightarrow> int \<Rightarrow> int \<Rightarrow> bool" where
  "has_cell g row col \<longleftrightarrow> 0 \<le> row \<and> row < rows g \<and> 0 \<le> col \<and> col < cols g \<and> nat col < length (columns g) \<and> nat (row + 1) < length (cells (columns g ! nat col))"

definition put_text :: "gui \<Rightarrow> int \<Rightarrow> int \<Rightarrow> string \<Rightarrow> TGrid \<Rightarrow> TGrid" where
  "put_text s row col t g = snd (grid_set_cell_text s row col (Some t) g)"

lemma put_text_effect:
  assumes "grid_ok g" and "has_cell g row col"
  shows "put_text s row col t g = on_column (nat col) (\<lambda>c. c\<lparr>cells := (cells c)[nat (row + 1) := (cells c ! nat (row + 1))\<lparr>cell_text := take 100 t\<rparr>]\<rparr>) g"
proof -
  have h: "0 \<le> row" "row < rows g" "0 \<le> col" "col < cols g" "nat col < length (columns g)" "nat (row + 1) < length (cells (columns g ! nat col))"
    using assms(2) by (simp_all add: has_cell_def)
  have g: "grid_get_column g col = Some (nat col)" using get_column_ok [OF assms(1), of col] h by simp
  have "\<forall>j < length (cells (columns g ! nat col)). c_index (cells (columns g ! nat col) ! j) = int j"
    using assms(1) h(5) by (simp add: grid_ok_def column_ok_def)
  from find_index [OF this, of "row + 1"] h
  have f: "find (\<lambda>j. c_index (cells (columns g ! nat col) ! j) = row + 1) [0..<length (cells (columns g ! nat col))] = Some (nat (row + 1))" by simp
  show ?thesis using h by (simp add: put_text_def grid_set_cell_text_def g f set_text_def Let_def on_column_def)
qed

lemma same_layout_has:
  assumes "same_layout g h"
  shows "has_cell h r c = has_cell g r c"
proof (cases "nat c < length (columns g)")
  case True
  then have "same_column (columns g ! nat c) (columns h ! nat c)" using assms by (simp add: same_layout_def list_all2_nthD)
  with True assms show ?thesis by (auto simp: has_cell_def same_layout_def same_column_def dest!: list_all2_lengthD)
qed (use assms in \<open>auto simp: has_cell_def same_layout_def dest!: list_all2_lengthD\<close>)

interpretation grid: text_table grid_ok has_cell grid_text "put_text s" 100 for s :: "gui"
proof (unfold_locales, goal_cases)
  case (1 g r c t)
  then show ?case using same_layout_ok [OF grid_set_cell_text_same] by (simp add: put_text_def)
next
  case (2 g r c t r' c')
  show ?case using same_layout_has [OF grid_set_cell_text_same] by (simp add: put_text_def)
next
  case (3 g r c r' c' t)
  have "nat c' = nat c \<longleftrightarrow> c' = c" "nat (r' + 1) = nat (r + 1) \<longleftrightarrow> r' = r" using 3(2,3) by (auto simp: has_cell_def)
  with 3 show ?case unfolding put_text_effect [OF 3(1,2)]
    by (auto simp: grid_text_def on_column_def has_cell_def nth_list_update)
qed

section \<open>Histories of a grid\<close>

text \<open>All uses of a grid that was created: texts, titles, colours, painting, and changes of the columns, with widths that are not negative and new columns
  in front of existing ones.\<close>

inductive grid_run :: "TGrid \<Rightarrow> TGrid \<Rightarrow> bool" for g0 where
  start: "grid_run g0 g0"
| set_cell: "grid_run g0 g \<Longrightarrow> grid_set_cell_text s row col t g = (ds, g') \<Longrightarrow> grid_run g0 g'"
| scroll: "grid_run g0 g \<Longrightarrow> grid_scroll_rows s n g = (ds, g') \<Longrightarrow> grid_run g0 g'"
| blank: "grid_run g0 g \<Longrightarrow> grid_blank_row s row g = (ds, g') \<Longrightarrow> grid_run g0 g'"
| recolor: "grid_run g0 g \<Longrightarrow> grid_run g0 (grid_set_color c g)"
| set_title: "grid_run g0 g \<Longrightarrow> grid_run g0 (on_column k (grid_set_column_title t) g)"
| set_format: "grid_run g0 g \<Longrightarrow> grid_run g0 (on_column k (grid_set_column_format t) g)"
| set_align: "grid_run g0 g \<Longrightarrow> grid_run g0 (on_column k (\<lambda>c. c\<lparr>align := a\<rparr>) g)"
| activate: "grid_run g0 g \<Longrightarrow> grid_run g0 (g\<lparr>g_changed := True\<rparr>)"
| paint: "grid_run g0 g \<Longrightarrow> paint_grid s g = (ds, g') \<Longrightarrow> grid_run g0 g'"
| set_width: "grid_run g0 g \<Longrightarrow> 0 \<le> w \<Longrightarrow> grid_run g0 (grid_set_column_width i w g)"
| delete: "grid_run g0 g \<Longrightarrow> grid_delete_column i g = (r, g') \<Longrightarrow> grid_run g0 g'"
| insert: "grid_run g0 g \<Longrightarrow> 0 \<le> w \<Longrightarrow> 0 \<le> i \<Longrightarrow> i < int (length (columns g)) \<Longrightarrow> grid_new_column al ca i w g = Some (b, g') \<Longrightarrow> grid_run g0 g'"

lemma calc_rect [simp]: "g_rect (grid_calcurate_cell_rect_internal g) = g_rect g"
  by (simp add: grid_calcurate_cell_rect_internal_def Let_def)

lemma column_changes_rect:
  "g_rect (grid_set_column_width i w g) = g_rect g" "g_rect (snd (grid_delete_column i g)) = g_rect g"
  "grid_new_column al ca i w g = Some (b, g') \<Longrightarrow> g_rect g' = g_rect g"
  by (auto simp: grid_set_column_width_def grid_delete_column_def grid_new_column_def grid_new_column_internal_def grid_set_column_index_def
      on_column_def Let_def split: option.splits if_splits)

lemma same_layout_keeps: "same_layout g h \<Longrightarrow> grid_ok g \<and> g_rect g = r \<Longrightarrow> grid_ok h \<and> g_rect h = r"
  using same_layout_ok [of g h] same_layout_def [of g h] by metis

lemma grid_run_ok:
  assumes "grid_run g0 g" and "grid_ok g0"
  shows "grid_ok g \<and> g_rect g = g_rect g0"
  using assms(1)
proof (induction rule: grid_run.induct)
  case start
  then show ?case using assms(2) by simp
next
  case (set_cell g s row col t ds g')
  then have "same_layout g g'" using grid_set_cell_text_same [of g s row col t] by simp
  then show ?case using set_cell.IH by (rule same_layout_keeps)
next
  case (scroll g s n ds g')
  then have "same_layout g g'" using grid_scroll_rows_same [of g s n] by simp
  then show ?case using scroll.IH by (rule same_layout_keeps)
next
  case (blank g s row ds g')
  then have "same_layout g g'" using grid_blank_row_same [of g s row] by simp
  then show ?case using blank.IH by (rule same_layout_keeps)
next
  case (recolor g c)
  have "same_layout g (grid_set_color c g)" by (rule grid_set_color_same)
  then show ?case using recolor.IH by (rule same_layout_keeps)
next
  case (set_title g k t)
  have "same_layout g (on_column k (grid_set_column_title t) g)" by (rule on_column_same) (simp add: grid_set_column_title_def same_column_def)
  then show ?case using set_title.IH by (rule same_layout_keeps)
next
  case (set_format g k t)
  have "same_layout g (on_column k (grid_set_column_format t) g)" by (rule on_column_same) (simp add: grid_set_column_format_def same_column_def)
  then show ?case using set_format.IH by (rule same_layout_keeps)
next
  case (set_align g k a)
  have "same_layout g (on_column k (\<lambda>c. c\<lparr>align := a\<rparr>) g)" by (rule on_column_same) (simp add: same_column_def)
  then show ?case using set_align.IH by (rule same_layout_keeps)
next
  case (activate g)
  have "same_layout g (g\<lparr>g_changed := True\<rparr>)" by (simp add: same_layout_def list_all2_refl)
  then show ?case using activate.IH by (rule same_layout_keeps)
next
  case (paint g s ds g')
  then have "same_layout g g'" using paint_grid_same [of g s] by simp
  then show ?case using paint.IH by (rule same_layout_keeps)
next
  case (set_width g w i)
  then show ?case using set_column_width_ok column_changes_rect(1) by simp
next
  case (delete g i r g')
  then show ?case using delete_column_ok [of g i] column_changes_rect(2) [of i g] by simp
next
  case (insert g w i al ca b g')
  then show ?case using new_column_ok [of g w i al ca b g'] column_changes_rect(3) [of al ca i w g b g'] by simp
qed

lemma create_grid_ok:
  fixes rect
  defines "r \<equiv> normalize_rect rect"
  assumes "create_grid pixx pixy alloc ca ka rect rws cls guid grp s = (Some p, s')" and "left r + 4 \<le> right r" and "top r + 4 \<le> bottom r"
  shows "grid_ok (grid_at s' p) \<and> g_rect (grid_at s' p) = r \<and> 0 \<le> left r \<and> right r \<le> pixx \<and> 0 \<le> top r \<and> bottom r \<le> pixy"
proof -
  have c: "0 \<le> left r" "0 \<le> top r" "right r \<le> pixx" "bottom r \<le> pixy" "0 < rws" "0 < cls" and a: "alloc = Some p"
    using assms(2) by (auto simp: create_grid_def r_def Let_def split: if_splits option.splits)
  define g where "g = \<lparr>g_rect = r, rows = rws, cols = cls, borderwidth = 2, bordercolor = clBLACK, bgcolor = clHINT, linecolor = clGREY,
                   titleheight = 0, titlecolor = clBRTCYAN, g_group = grp, g_guid = guid, g_changed = True, columns = []\<rparr>"
  let ?cw = "cdiv (right r - left r) cls"
  have cw: "0 \<le> ?cw" using assms(3) c(6) by (simp add: pos_imp_zdiv_nonneg_iff)
  obtain cs where cs: "make_columns ca ka ?cw 0 (nat cls) g = g\<lparr>columns := cs\<rparr>" "\<forall>c \<in> set cs. column_pre g c"
    using make_columns_pre [OF cw, of g ca ka 0 "nat cls"] c(5) by (auto simp: g_def)
  have e: "grid_at s' p = grid_calcurate_cell_rect_internal (g\<lparr>columns := cs\<rparr>)"
    using assms(2) c cs(1) by (auto simp: create_grid_def Let_def a r_def g_def)
  have "grid_frame (g\<lparr>columns := cs\<rparr>)" using assms(3,4) c by (simp add: grid_frame_def g_def)
  then have "grid_ok (grid_at s' p)" unfolding e using cs(2) by (intro calc_ok) (simp_all add: g_def column_pre_def)
  with c show ?thesis by (simp add: e) (simp add: g_def)
qed

text \<open>A grid for which all memory could be allocated, with no text yet.\<close>

definition blank_column :: "TGrid \<Rightarrow> TColumn \<Rightarrow> bool" where
  "blank_column g c \<longleftrightarrow> length (cells c) = nat (rows g + 1) \<and> (\<forall>k \<in> set (cells c). cell_text k = [])"

definition blank_grid :: "TGrid \<Rightarrow> bool" where
  "blank_grid g \<longleftrightarrow> length (columns g) = nat (cols g) \<and> (\<forall>c \<in> set (columns g). blank_column g c)"

lemma place_cells_texts: "map cell_text (place_cells r_max b_max th ch vis lft dx tp j cs) = map cell_text cs"
  by (induction cs arbitrary: tp j) (simp_all add: Let_def place_cell_def)

lemma place_columns_texts: "map (map cell_text \<circ> cells) (place_columns r_max b_max th ch tp lft i cs) = map (map cell_text \<circ> cells) cs"
  by (induction cs arbitrary: lft i) (simp_all add: Let_def place_cells_texts)

lemma map_replicate_iff: "map f xs = replicate n y \<longleftrightarrow> length xs = n \<and> (\<forall>x \<in> set xs. f x = y)"
proof (induction xs arbitrary: n)
  case (Cons x xs)
  then show ?case by (cases n) auto
qed auto

lemma blank_iff: "blank_grid g \<longleftrightarrow> map (map cell_text \<circ> cells) (columns g) = replicate (nat (cols g)) (replicate (nat (rows g + 1)) [])"
  unfolding map_replicate_iff comp_def blank_grid_def blank_column_def by simp

lemma calc_blank: "blank_grid (grid_calcurate_cell_rect_internal g) = blank_grid g"
  by (simp add: blank_iff grid_calcurate_cell_rect_internal_def Let_def place_columns_texts del: map_map)

lemma on_column_blank:
  assumes "cells (f (columns g ! k)) = cells (columns g ! k)"
  shows "blank_grid (on_column k f g) = blank_grid g"
proof -
  have "map (map cell_text \<circ> cells) ((columns g)[k := f (columns g ! k)]) = map (map cell_text \<circ> cells) (columns g)"
    using assms by (cases "k < length (columns g)") (simp_all add: map_update list_update_same_conv list_update_beyond)
  then show ?thesis by (simp add: blank_iff on_column_def)
qed

lemma set_column_width_blank: "blank_grid (grid_set_column_width i w g) = blank_grid g"
  by (simp add: grid_set_column_width_def calc_blank on_column_blank Let_def split: option.split) (simp add: blank_iff)

lemma blank_cells:
  assumes "blank_grid g" and "0 \<le> r" and "r < rows g" and "0 \<le> c" and "c < cols g"
  shows "has_cell g r c" "grid_text g r c = []"
proof -
  have l: "nat c < length (columns g)" using assms by (simp add: blank_grid_def nat_less_iff)
  then have "blank_column g (columns g ! nat c)" using assms(1) by (simp add: blank_grid_def)
  moreover have "nat (r + 1) < nat (rows g + 1)" using assms(2,3) by simp
  ultimately show "has_cell g r c" "grid_text g r c = []" using l assms by (simp_all add: has_cell_def grid_text_def blank_column_def)
qed

lemma new_cells_all:
  "length (concat (map (\<lambda>i. map (\<lambda>c. c\<lparr>c_index := int i\<rparr>) (grid_new_cell_internal True w [])) [0..<n])) = n"
  by (induction n) (simp_all add: grid_new_cell_internal_def)

lemma make_columns_blank:
  "\<forall>c \<in> set (columns g). blank_column g c \<Longrightarrow>
    length (columns (make_columns (\<lambda>_. True) (\<lambda>_ _. True) cw i n g)) = length (columns g) + n
    \<and> (\<forall>c \<in> set (columns (make_columns (\<lambda>_. True) (\<lambda>_ _. True) cw i n g)). blank_column g c)
    \<and> rows (make_columns (\<lambda>_. True) (\<lambda>_ _. True) cw i n g) = rows g \<and> cols (make_columns (\<lambda>_. True) (\<lambda>_ _. True) cw i n g) = cols g"
proof (induction n arbitrary: i g)
  case (Suc n)
  let ?ks = "concat (map (\<lambda>i. map (\<lambda>c. c\<lparr>c_index := int i\<rparr>) (grid_new_cell_internal True cw [])) [0..<nat (rows g + 1)])"
  obtain c g' where g': "grid_new_column_internal True (\<lambda>_. True) cw g = (Some (length (columns g)), g')"
    "g' = g\<lparr>columns := columns g @ [c], g_changed := True\<rparr>" "cells c = ?ks"
    by (simp add: grid_new_column_internal_def Let_def)
  have "\<forall>k \<in> set ?ks. cell_text k = []" by (auto simp: grid_new_cell_internal_def)
  then have "blank_column g (c\<lparr>col_index := int i\<rparr>)" by (simp add: blank_column_def g'(3) new_cells_all)
  let ?h = "g\<lparr>columns := columns g @ [c\<lparr>col_index := int i\<rparr>], g_changed := True\<rparr>"
  have h: "on_column (length (columns g)) (\<lambda>c. c\<lparr>col_index := int i\<rparr>) g' = ?h" by (simp add: on_column_def g'(2))
  have b: "blank_column ?h = blank_column g" by (simp add: blank_column_def fun_eq_iff)
  have "\<forall>c \<in> set (columns ?h). blank_column ?h c" unfolding b using Suc.prems \<open>blank_column g (c\<lparr>col_index := int i\<rparr>)\<close> by simp
  from Suc.IH [OF this, of "i + 1"] show ?case unfolding b by (simp add: g'(1) h)
qed simp

section \<open>Touches\<close>

lemma focus_loop_last:
  "fst (focus_loop grp pt r bs) = (case filter (\<lambda>b. b_group b = grp \<and> in_button pt b) bs of [] \<Rightarrow> r
     | xs \<Rightarrow> Some ((last xs)\<lparr>b_changed := \<not> focused (last xs), focused := True\<rparr>))"
  by (induction bs arbitrary: r) (auto simp: Let_def case_prod_beta split: list.split)

text \<open>A touch calls the handler of the last button of the active group that it hits.\<close>

lemma turn_calls_last:
  assumes "0 \<le> gui_active_group s" and "filter (\<lambda>b. b_group b = gui_active_group s \<and> in_button pt b) (gui_buttons s) = xs @ [b]"
  shows "fst (simple_gui_turn (Some pt) s) = onclick b"
proof -
  have "fst (focus_loop (gui_active_group s) pt None (gui_buttons s)) = Some (b\<lparr>b_changed := \<not> focused b, focused := True\<rparr>)"
    unfolding focus_loop_last assms(2) by (cases xs) simp_all
  with assms(1) show ?thesis by (simp add: simple_gui_turn_def focused_button_def Let_def case_prod_beta)
qed

text \<open>The erased area of a centred text that is longer than its cell begins left of the cell.\<close>

lemma clear_outside:
  assumes "shown s g c" and "align col = align_center" and "0 \<le> left (c_rect c)" and "left (c_rect c) \<le> right (c_rect c)" and "0 < asc_font_width s"
    and "right (c_rect c) - left (c_rect c) + 1 < int (length (cell_text c)) * asc_font_width s"
  shows "\<exists>x1 y1 x2 y2. FillRect x1 y1 x2 y2 \<in> set (grid_clear_cell_rect_internal s g col c) \<and> x1 < left (c_rect c)"
proof -
  let ?w = "right (c_rect c) - left (c_rect c)" and ?n = "int (length (cell_text c)) * asc_font_width s"
  have t: "cell_text c \<noteq> []" using assms(4,6) by auto
  have "0 \<le> left (c_rect c) + ?w div 2" using assms(3,4) by (intro add_nonneg_nonneg) (simp_all add: pos_imp_zdiv_nonneg_iff)
  moreover have "?w div 2 < ?n div 2" using assms(6) by linarith
  ultimately have "plus_half (left (c_rect c) + cdiv ?w 2) - cdiv ?n 2 < left (c_rect c)" using assms(4,5) by (simp add: plus_half_def)
  with t assms(1,2) show ?thesis by (auto simp: grid_clear_cell_rect_internal_def Let_def)
qed

section \<open>Properties\<close>


definition example_gui :: "gui" where
  "example_gui = \<lparr>gui_active_group = 1, gui_buttons = [], gui_grids = [], grid_at = \<lambda>_. undefined, asc_font_width = 8, asc_font_height = 16, painted = []\<rparr>"


end
