(* ===== verification/Gui.thy ===== *)
theory Gui
  imports Simple_Gui Main_Ctrl Kservice_Print
begin

text \<open>
  The screen of the weighing station, gui/new_gui.c: the objects it creates with theory Simple_Gui, the thread that shows the messages of the main thread in
  the grid, and the buttons that send messages to the main thread of theory Main_Ctrl. The captions are arguments, because they are not
  ASCII. A local character buffer that \<^verbatim>\<open>rt_sprintf\<close> would overrun makes a function \<open>None\<close>; so does the use of a column that could not
  be allocated.
\<close>

section \<open>Objects\<close>

abbreviation (input) MAIN_GROUP :: int where "MAIN_GROUP \<equiv> 0x00010000"
abbreviation (input) BUTTON_WIDTH :: int where "BUTTON_WIDTH \<equiv> 120"
abbreviation (input) BUTTON_HEIGHT :: int where "BUTTON_HEIGHT \<equiv> 42"

text \<open>\<open>fb\<close> is the size of the frame buffer, \<open>dc_started\<close> the answer of \<^verbatim>\<open>ls1x_dc_started\<close>.\<close>

record screen =
  widgets :: gui
  grid_main :: "nat option"
  fb :: "int \<times> int"
  dc_started :: bool
  last_x :: int
  last_y :: int

definition emit_draws :: "draw list \<Rightarrow> screen \<Rightarrow> screen" where
  "emit_draws ds s = s\<lparr>widgets := (widgets s)\<lparr>painted := painted (widgets s) @ ds\<rparr>\<rparr>"

definition gui_info :: "string option \<Rightarrow> int \<Rightarrow> int \<Rightarrow> screen \<Rightarrow> screen" where
  "gui_info str x y s =
     (case str of
        None \<Rightarrow> s
      | Some t \<Rightarrow>
          if x < 0 \<or> y < 0 then s
          else let s = (if 0 < last_x s \<and> 0 < last_y s then emit_draws [FillRect (last_x s) (last_y s) (fst (fb s) - 1) (last_y s + 16)] s else s)
               in (emit_draws [PutString x y t] s)\<lparr>last_x := x, last_y := y\<rparr>)"

definition clear_screen :: "screen \<Rightarrow> int \<times> screen" where
  "clear_screen s = (0, emit_draws [ClearBuffer] s)"

text \<open>The answers of the allocator: the grid, its columns, its cells and the buttons.\<close>

record allocs =
  a_grid :: "nat option"
  a_col :: "nat \<Rightarrow> bool"
  a_cell :: "nat \<Rightarrow> nat \<Rightarrow> bool"
  a_button :: "nat \<Rightarrow> bool"

definition setup_column :: "string \<Rightarrow> nat \<Rightarrow> TGrid \<Rightarrow> TGrid option" where
  "setup_column t i g = do {
     k \<leftarrow> grid_get_column g (int i);
     Some (grid_set_column_width (int i) 100 (on_column k (grid_set_column_title (Some t)) (on_column k (\<lambda>c. c\<lparr>align := align_center\<rparr>) g))) }"

fun setup_columns :: "nat \<Rightarrow> string list \<Rightarrow> TGrid \<Rightarrow> TGrid option" where
  "setup_columns i [] g = Some g"
| "setup_columns i (t # ts) g = do { g \<leftarrow> setup_column t i g; setup_columns (i + 1) ts g }"

definition create_grid_main :: "allocs \<Rightarrow> string list \<Rightarrow> screen \<Rightarrow> (int \<times> screen) option" where
  "create_grid_main al titles s =
     (let (r, w) = create_grid (fst (fb s)) (snd (fb s)) (a_grid al) (a_col al) (a_cell al) \<lparr>left = 100, top = 160, right = 700, bottom = 300\<rparr>
                     3 6 (MAIN_GROUP OR 0x0001) MAIN_GROUP (widgets s);
          s = s\<lparr>widgets := w, grid_main := r\<rparr>
      in case r of
           None \<Rightarrow> Some (- 1, s)
         | Some p \<Rightarrow> do {
             g \<leftarrow> setup_columns 0 titles (grid_at w p);
             Some (0, s\<lparr>widgets := w\<lparr>grid_at := (grid_at w)(p := g)\<rparr>\<rparr>) })"

text \<open>The handlers \<^verbatim>\<open>main_onclick_0001\<close> to \<^verbatim>\<open>main_onclick_0004\<close> are the addresses 1 to 4.\<close>

definition button_rect :: "int \<Rightarrow> TRect" where
  "button_rect x = \<lparr>left = x, top = 360, right = x + BUTTON_WIDTH, bottom = 360 + BUTTON_HEIGHT\<rparr>"

definition create_buttons_main :: "allocs \<Rightarrow> (nat \<Rightarrow> string) \<Rightarrow> gui \<Rightarrow> int \<times> gui" where
  "create_buttons_main al capt w =
     (let w = snd (new_button (a_button al 1) (button_rect 100) (MAIN_GROUP OR 0x0001) MAIN_GROUP (Some (capt 1)) (Some 1) w);
          w = snd (new_button (a_button al 2) (button_rect 260) (MAIN_GROUP OR 0x0002) MAIN_GROUP (Some (capt 2)) (Some 2) w);
          w = snd (new_button (a_button al 3) (button_rect 420) (MAIN_GROUP OR 0x0003) MAIN_GROUP (Some (capt 3)) (Some 3) w);
          w = snd (new_button (a_button al 4) (button_rect 580) (MAIN_GROUP OR 0x0004) MAIN_GROUP (Some (capt 4)) (Some 4) w)
      in (0, w))"

definition set_objects_active_group :: "int \<Rightarrow> screen \<Rightarrow> screen" where
  "set_objects_active_group grp s = s\<lparr>widgets := snd (set_gui_active_group grp (widgets s))\<rparr>"

definition create_main_objects :: "allocs \<Rightarrow> (nat \<Rightarrow> string) \<Rightarrow> string list \<Rightarrow> screen \<Rightarrow> (int \<times> screen) option" where
  "create_main_objects al capt titles s =
     (let (r, s) = clear_screen s
      in if r \<noteq> 0 then Some (- 1, s)
      else let s = (if get_buttons_count MAIN_GROUP (widgets s) = 0 then s\<lparr>widgets := snd (create_buttons_main al capt (widgets s))\<rparr> else s)
      in do {
        s \<leftarrow> (if grid_main s = None then map_option snd (create_grid_main al titles s) else Some s);
        Some (0, set_objects_active_group MAIN_GROUP s) })"

section \<open>Texts in the grid\<close>

definition gui_drawtext_in_grid :: "int \<Rightarrow> int \<Rightarrow> string \<Rightarrow> screen \<Rightarrow> screen" where
  "gui_drawtext_in_grid row col str s =
     (if \<not> dc_started s then s
      else case grid_main s of
        None \<Rightarrow> s
      | Some p \<Rightarrow>
          let w = widgets s; (ds, g) = grid_set_cell_text w row col (Some str) (grid_at w p)
          in s\<lparr>widgets := w\<lparr>painted := painted w @ ds, grid_at := (grid_at w)(p := g)\<rparr>\<rparr>)"

definition grid_content_init :: "(int \<Rightarrow> int \<Rightarrow> string) \<Rightarrow> screen \<Rightarrow> screen" where
  "grid_content_init label s =
     fold (\<lambda>(r, c). gui_drawtext_in_grid r c (label r c)) [(0, 0), (1, 0), (2, 0), (0, 2), (1, 2), (2, 2), (0, 4), (1, 4), (2, 4)] s"

text \<open>\<^verbatim>\<open>start_gui_task\<close> but for the start of the two threads; the first argument is the result of \<^verbatim>\<open>fb_open\<close>.\<close>

definition start_gui_task ::
  "int \<Rightarrow> (int \<times> int) option \<Rightarrow> allocs \<Rightarrow> (nat \<Rightarrow> string) \<Rightarrow> string list \<Rightarrow> (int \<Rightarrow> int \<Rightarrow> string) \<Rightarrow> screen \<Rightarrow> screen option" where
  "start_gui_task fb_open font al capt titles label s =
     (if fb_open \<noteq> 0 \<or> \<not> dc_started s then Some s
      else do {
        let s = s\<lparr>widgets := init_simple_gui_env font (widgets s)\<rparr>;
        (_, s) \<leftarrow> create_main_objects al capt titles s;
        Some (grid_content_init label s) })"

text \<open>\<^verbatim>\<open>rt_sprintf\<close> is \<^verbatim>\<open>rt_vsnprintf\<close> without a bound: \<open>mem\<close> is the buffer with all that lies behind it. Used on a local buffer of \<open>n\<close> characters it
  must leave that alone. The texts of this program have less than 64 characters.\<close>

definition rt_sprintf :: "string \<Rightarrow> string \<Rightarrow> parg list \<Rightarrow> (nat \<times> string) option" where
  "rt_sprintf mem fmt args = rt_vsnprintf mem fmt args"

definition local_sprintf :: "nat \<Rightarrow> string \<Rightarrow> parg list \<Rightarrow> string option" where
  "local_sprintf n fmt args = do {
     (k, buf) \<leftarrow> rt_sprintf (replicate 64 CHR 0xff) fmt args;
     if k < n then Some (take k buf) else None }"

definition draw_text_in_grid :: "int \<Rightarrow> int \<Rightarrow> u32 \<Rightarrow> screen \<Rightarrow> screen option" where
  "draw_text_in_grid row col val s = do {
     t \<leftarrow> local_sprintf 8 '' %i'' [PInt val];
     Some (gui_drawtext_in_grid row col t s) }"

text \<open>The buffer of \<^verbatim>\<open>draw_text_in_grid_nb\<close> is that of its caller, which also has 8 characters.\<close>

definition draw_text_in_grid_nb :: "int \<Rightarrow> int \<Rightarrow> u32 \<Rightarrow> screen \<Rightarrow> screen option" where
  "draw_text_in_grid_nb row col val s = do {
     t \<leftarrow> local_sprintf 8 '' %i'' [PInt val];
     Some (gui_drawtext_in_grid row col t s) }"

definition draw_texts_in_grids :: "bytes \<Rightarrow> screen \<Rightarrow> screen option" where
  "draw_texts_in_grids buf s = do {
     s \<leftarrow> draw_text_in_grid_nb 0 1 (val_arr buf 1) s;
     s \<leftarrow> draw_text_in_grid_nb 2 1 (val_arr buf 2) s;
     s \<leftarrow> draw_text_in_grid_nb 0 3 (val_arr buf 3) s;
     draw_text_in_grid_nb 1 3 (val_arr buf 4) s }"

definition draw_rtc_time_in_grid :: "int \<Rightarrow> int \<Rightarrow> bytes \<Rightarrow> screen \<Rightarrow> screen option" where
  "draw_rtc_time_in_grid row col buf s = do {
     t \<leftarrow> local_sprintf 12 ''%i.%i.%i'' [PInt (val_arr buf 1), PInt (val_arr buf 2), PInt (val_arr buf 3)];
     Some (gui_drawtext_in_grid row col t s) }"

definition draw_product_info :: "bytes \<Rightarrow> screen \<Rightarrow> screen option" where
  "draw_product_info buf s = do {
     s \<leftarrow> draw_text_in_grid_nb 0 3 (val_arr buf 1) s;
     draw_text_in_grid_nb 1 3 (val_arr buf 2) s }"

definition flush_switch :: "bytes \<Rightarrow> screen \<Rightarrow> screen option" where
  "flush_switch rbuf s =
     (let op = val_arr rbuf 0
      in if op = 1 then draw_texts_in_grids rbuf s
         else if op = 2 then draw_text_in_grid 1 1 (val_arr rbuf 1) s
         else if op = 3 then draw_rtc_time_in_grid 2 3 rbuf s
         else if op = 4 then draw_product_info rbuf s
         else if op = 5 then draw_text_in_grid 0 5 (val_arr rbuf 1) s
         else if op = 6 then map_option (gui_drawtext_in_grid 2 5 ''OK'') (draw_text_in_grid 1 5 (val_arr rbuf 1) s)
         else Some s)"

section \<open>Threads\<close>

text \<open>One turn of \<^verbatim>\<open>rt_flush_task\<close>: \<open>Some None\<close> means that the thread stays suspended on the empty queue.\<close>

definition flush_turn :: "app \<Rightarrow> screen \<Rightarrow> (app \<times> screen) option option" where
  "flush_turn w s =
     (case mqs w output_datas_mq of None \<Rightarrow> None
      | Some m \<Rightarrow>
          (case mq_recv 20 m of None \<Rightarrow> Some None
           | Some (b, m') \<Rightarrow>
               (case flush_switch b s of None \<Rightarrow> None
                | Some s' \<Rightarrow> Some (Some (w\<lparr>mqs := (mqs w)(output_datas_mq := Some m')\<rparr>, s')))))"

definition send_btn_msg :: "u32 \<Rightarrow> app \<Rightarrow> app option" where
  "send_btn_msg code = mqsend main_mq (le32 code)"

definition main_onclick :: "nat \<Rightarrow> app \<Rightarrow> app option" where
  "main_onclick h w = (if h = 1 then send_btn_msg 6 w else if h = 2 then send_btn_msg 7 w else Some w)"

text \<open>One turn of the thread of the touch screen with the handler that it calls.\<close>

definition touch_turn :: "TPoint option \<Rightarrow> screen \<Rightarrow> app \<Rightarrow> (app \<times> screen) option" where
  "touch_turn msg s w =
     (let (h, g) = simple_gui_turn msg (widgets s); s = s\<lparr>widgets := g\<rparr>
      in case h of None \<Rightarrow> Some (w, s) | Some h \<Rightarrow> map_option (\<lambda>w. (w, s)) (main_onclick h w))"

section \<open>The texts\<close>

definition signed_text :: "u32 \<Rightarrow> string" where
  "signed_text v = (if sint v < 0 then CHR ''-'' # decimal (- v) else decimal v)"

lemma signed_text_length: "1 \<le> length (signed_text v) \<and> length (signed_text v) \<le> 11"
  using decimal_reads [of v] decimal_reads [of "- v"] by (auto simp: signed_text_def)

lemma format_i: "conversion (CHR ''i'' # fmt) (PInt v # args) b = Some (fmt, args, emit (signed_text v) b)"
  by (simp add: conversion_def get_width_def get_precision_def get_qualifier_def convert_def print_int_def int_value_def isdigit_def
      print_number_emit number_text_def number_sign_def get_sign_def number_digits_def decimal_def signed_text_def)

lemma sprintf_fits:
  assumes "\<And>b. format_loop fmt args b = Some (emit t b)" and "length t < 64"
  shows "local_sprintf n fmt args = (if length t < n then Some t else None)"
  using vsnprintf_text [of fmt args t "replicate 64 CHR 0xff"] assms by (simp add: local_sprintf_def rt_sprintf_def min_def)

lemma number_sprintf: "local_sprintf 8 '' %i'' [PInt v] = (if length (signed_text v) \<le> 6 then Some (CHR '' '' # signed_text v) else None)"
proof -
  have "local_sprintf 8 '' %i'' [PInt v] = (if length (CHR '' '' # signed_text v) < 8 then Some (CHR '' '' # signed_text v) else None)"
    by (rule sprintf_fits) (use signed_text_length [of v] in \<open>simp_all add: format_i\<close>)
  then show ?thesis by (simp add: less_Suc_eq_le)
qed

definition date_text :: "u32 \<Rightarrow> u32 \<Rightarrow> u32 \<Rightarrow> string" where
  "date_text y m d = signed_text y @ ''.'' @ signed_text m @ ''.'' @ signed_text d"

lemma date_sprintf: "local_sprintf 12 ''%i.%i.%i'' [PInt y, PInt m, PInt d] = (if length (date_text y m d) \<le> 11 then Some (date_text y m d) else None)"
proof -
  have "local_sprintf 12 ''%i.%i.%i'' [PInt y, PInt m, PInt d] = (if length (date_text y m d) < 12 then Some (date_text y m d) else None)"
    by (rule sprintf_fits) (use signed_text_length [of y] signed_text_length [of m] signed_text_length [of d] in
        \<open>simp_all add: format_i emit_putc date_text_def\<close>)
  then show ?thesis by (simp add: less_Suc_eq_le)
qed

lemma tmp_length_low: "10 ^ n \<le> unat v \<Longrightarrow> n < length (tmp_digits ds 10 v)"
proof (induction n arbitrary: v)
  case 0
  then have "v \<noteq> 0" by auto
  then show ?case by (subst tmp_digits.simps) simp
next
  case (Suc n)
  then have "10 ^ n \<le> unat v div 10" by simp
  then have "10 ^ n \<le> unat (v div 10)" by (simp add: unat_div)
  moreover have "v \<noteq> 0" using Suc.prems by auto
  ultimately show ?case using Suc.IH [of "v div 10"] by (subst tmp_digits.simps) (simp add: divide_def)
qed

lemma decimal_length: "0 < n \<Longrightarrow> length (decimal v) \<le> n \<longleftrightarrow> unat v < 10 ^ n"
  using tmp_length [of v n small_digits] tmp_length_low [of n v small_digits] by (auto simp: decimal_def not_less [symmetric])

text \<open>Exactly the numbers from -99999 to 999999 fit.\<close>

lemma sint_nat: "0 \<le> sint v \<Longrightarrow> int (unat v) = sint v" "sint v < 0 \<Longrightarrow> int (unat (- v)) = - sint v" for v :: u32
proof -
  have b: "- 2147483648 \<le> sint v" "sint v < 2147483648" using sint_ge [of v] sint_lt [of v] by simp_all
  have u: "uint v = sint v mod 4294967296" by (simp add: uint_sint take_bit_eq_mod)
  show "int (unat v) = sint v" if "0 \<le> sint v" using u b that by simp
  have "uint (- v) = (- sint v) mod 4294967296" using u by (simp add: uint_word_ariths(4) mod_minus_eq)
  then show "int (unat (- v)) = - sint v" if "sint v < 0" using b that by simp
qed

lemma signed_text_fits: "length (signed_text v) \<le> 6 \<longleftrightarrow> - 99999 \<le> sint v \<and> sint v \<le> 999999"
proof (cases "sint v < 0")
  case True
  have "length (signed_text v) \<le> 6 \<longleftrightarrow> unat (- v) < 100000" using True decimal_length [of 5 "- v"] by (simp add: signed_text_def)
  then show ?thesis using True sint_nat(2) [OF True] by linarith
next
  case False
  then have "length (signed_text v) \<le> 6 \<longleftrightarrow> unat v < 1000000" using decimal_length [of 6 v] by (simp add: signed_text_def)
  then show ?thesis using False sint_nat(1) [of v] by linarith
qed

section \<open>What the screen shows\<close>

definition main_grid :: "screen \<Rightarrow> TGrid" where
  "main_grid s = grid_at (widgets s) (the (grid_main s))"

definition screen_ok :: "screen \<Rightarrow> bool" where
  "screen_ok s \<longleftrightarrow> dc_started s \<and> grid_main s \<noteq> None \<and> grid_ok (main_grid s) \<and> (\<forall>r \<in> {0..2}. \<forall>c \<in> {0..5}. has_cell (main_grid s) r c)"

definition screen_text :: "screen \<Rightarrow> int \<Rightarrow> int \<Rightarrow> string" where
  "screen_text s r c = grid_text (main_grid s) r c"

text \<open>The cells that a message is about and the texts they should get.\<close>

definition field :: "bytes \<Rightarrow> nat \<Rightarrow> string" where
  "field b i = CHR '' '' # signed_text (val_arr b i)"

definition fields :: "bytes \<Rightarrow> (int \<times> int \<times> string) list" where
  "fields b =
     (let op = val_arr b 0
      in if op = 1 then [(0, 1, field b 1), (2, 1, field b 2), (0, 3, field b 3), (1, 3, field b 4)]
         else if op = 2 then [(1, 1, field b 1)]
         else if op = 3 then [(2, 3, date_text (val_arr b 1) (val_arr b 2) (val_arr b 3))]
         else if op = 4 then [(0, 3, field b 1), (1, 3, field b 2)]
         else if op = 5 then [(0, 5, field b 1)]
         else if op = 6 then [(1, 5, field b 1), (2, 5, ''OK'')]
         else [])"

definition fits_number :: "u32 \<Rightarrow> bool" where
  "fits_number v \<longleftrightarrow> - 99999 \<le> sint v \<and> sint v \<le> 999999"

definition fits :: "bytes \<Rightarrow> bool" where
  "fits b \<longleftrightarrow>
     (let op = val_arr b 0
      in if op = 1 then fits_number (val_arr b 1) \<and> fits_number (val_arr b 2) \<and> fits_number (val_arr b 3) \<and> fits_number (val_arr b 4)
         else if op = 3 then length (date_text (val_arr b 1) (val_arr b 2) (val_arr b 3)) \<le> 11
         else if op = 4 then fits_number (val_arr b 1) \<and> fits_number (val_arr b 2)
         else if op = 2 \<or> op = 5 \<or> op = 6 then fits_number (val_arr b 1)
         else True)"

lemma put_text_any: "put_text s r c t g = put_text s' r c t g"
  by (simp add: put_text_def grid_set_cell_text_def set_text_def Let_def case_prod_beta split: option.split)

lemma drawtext_ok:
  assumes "screen_ok s"
  shows "screen_ok (gui_drawtext_in_grid r c t s)" "main_grid (gui_drawtext_in_grid r c t s) = put_text w r c t (main_grid s)"
    "gui_buttons (widgets (gui_drawtext_in_grid r c t s)) = gui_buttons (widgets s)"
    "gui_active_group (widgets (gui_drawtext_in_grid r c t s)) = gui_active_group (widgets s)"
proof -
  obtain p where p: "grid_main s = Some p" "dc_started s" using assms by (auto simp: screen_ok_def)
  have m: "main_grid (gui_drawtext_in_grid r c t s) = put_text (widgets s) r c t (main_grid s)"
    by (simp add: gui_drawtext_in_grid_def p main_grid_def Let_def case_prod_beta put_text_def)
  then show "main_grid (gui_drawtext_in_grid r c t s) = put_text w r c t (main_grid s)" using put_text_any by metis
  have k: "dc_started (gui_drawtext_in_grid r c t s)" "grid_main (gui_drawtext_in_grid r c t s) = Some p"
    "gui_buttons (widgets (gui_drawtext_in_grid r c t s)) = gui_buttons (widgets s)"
    "gui_active_group (widgets (gui_drawtext_in_grid r c t s)) = gui_active_group (widgets s)"
    by (simp_all add: gui_drawtext_in_grid_def p Let_def case_prod_beta)
  then show "gui_buttons (widgets (gui_drawtext_in_grid r c t s)) = gui_buttons (widgets s)"
    "gui_active_group (widgets (gui_drawtext_in_grid r c t s)) = gui_active_group (widgets s)" by simp_all
  have g: "grid_ok (main_grid s)" using assms by (simp add: screen_ok_def)
  show "screen_ok (gui_drawtext_in_grid r c t s)"
    using assms k(1,2) unfolding screen_ok_def m by (auto simp: grid.put_ok grid.has_put)
qed

text \<open>One message, and a series of messages.\<close>

definition displays :: "screen \<Rightarrow> (int \<times> int \<times> string) list \<Rightarrow> screen \<Rightarrow> bool" where
  "displays s ws s' \<longleftrightarrow> screen_ok s' \<and> main_grid s' = grid.puts example_gui ws (main_grid s)
     \<and> gui_buttons (widgets s') = gui_buttons (widgets s) \<and> gui_active_group (widgets s') = gui_active_group (widgets s)"

lemma displays_Nil: "screen_ok s \<Longrightarrow> displays s [] s"
  by (simp add: displays_def grid.puts_def)

lemma displays_append: "displays s ws s' \<Longrightarrow> displays s' vs s'' \<Longrightarrow> displays s (ws @ vs) s''"
  by (simp add: displays_def grid.puts_def)

lemma displays_draw: "screen_ok s \<Longrightarrow> displays s [(r, c, t)] (gui_drawtext_in_grid r c t s)"
  using drawtext_ok(1,3,4) [of s r c t] drawtext_ok(2) [of s r c t example_gui] by (simp add: displays_def grid.puts_def)

lemma displays_number:
  assumes "screen_ok s" and "fits_number v"
  shows "\<exists>s'. draw_text_in_grid r c v s = Some s' \<and> draw_text_in_grid_nb r c v s = Some s' \<and> displays s [(r, c, CHR '' '' # signed_text v)] s'"
  using assms displays_draw by (simp add: draw_text_in_grid_def draw_text_in_grid_nb_def number_sprintf fits_number_def signed_text_fits)

lemma displays_then:
  assumes "displays s ws s1" and "\<And>s. screen_ok s \<Longrightarrow> \<exists>s'. f s = Some s' \<and> displays s vs s'"
  shows "\<exists>s'. f s1 = Some s' \<and> displays s (ws @ vs) s'"
proof -
  have "screen_ok s1" using assms(1) by (simp add: displays_def)
  with assms(2) obtain s' where "f s1 = Some s'" "displays s1 vs s'" by blast
  with displays_append [OF assms(1)] show ?thesis by blast
qed

lemma displays_nb: "fits_number v \<Longrightarrow> screen_ok s \<Longrightarrow> \<exists>s'. draw_text_in_grid_nb r c v s = Some s' \<and> displays s [(r, c, CHR '' '' # signed_text v)] s'"
  using displays_number by blast

lemma flush_shows:
  assumes "screen_ok s" and "fits b"
  shows "\<exists>s'. flush_switch b s = Some s' \<and> displays s (fields b) s'"
proof -
  consider "val_arr b 0 = 1" | "val_arr b 0 = 2" | "val_arr b 0 = 3" | "val_arr b 0 = 4" | "val_arr b 0 = 5" | "val_arr b 0 = 6"
    | "val_arr b 0 \<notin> {1, 2, 3, 4, 5, 6}" by blast
  then show ?thesis
  proof cases
    case 1
    then have f: "fits_number (val_arr b 1)" "fits_number (val_arr b 2)" "fits_number (val_arr b 3)" "fits_number (val_arr b 4)"
      using assms(2) by (simp_all add: fits_def)
    obtain s1 where s1: "draw_text_in_grid_nb 0 1 (val_arr b 1) s = Some s1" "displays s [(0, 1, field b 1)] s1"
      using displays_nb [OF f(1) assms(1)] by (auto simp: field_def)
    obtain s2 where s2: "draw_text_in_grid_nb 2 1 (val_arr b 2) s1 = Some s2" "displays s ([(0, 1, field b 1)] @ [(2, 1, field b 2)]) s2"
      using displays_then [OF s1(2) displays_nb [OF f(2)]] by (auto simp: field_def)
    obtain s3 where s3: "draw_text_in_grid_nb 0 3 (val_arr b 3) s2 = Some s3" "displays s (([(0, 1, field b 1)] @ [(2, 1, field b 2)]) @ [(0, 3, field b 3)]) s3"
      using displays_then [OF s2(2) displays_nb [OF f(3)]] by (auto simp: field_def)
    obtain s4 where s4: "draw_text_in_grid_nb 1 3 (val_arr b 4) s3 = Some s4"
      "displays s ((([(0, 1, field b 1)] @ [(2, 1, field b 2)]) @ [(0, 3, field b 3)]) @ [(1, 3, field b 4)]) s4"
      using displays_then [OF s3(2) displays_nb [OF f(4)]] by (auto simp: field_def)
    from 1 s1 s2 s3 s4 show ?thesis by (simp add: flush_switch_def draw_texts_in_grids_def fields_def)
  next
    case 2
    then have "fits_number (val_arr b 1)" using assms(2) by (simp add: fits_def)
    from displays_number [OF assms(1) this, of 1 1] 2 show ?thesis by (auto simp: flush_switch_def fields_def field_def)
  next
    case 3
    then have "length (date_text (val_arr b 1) (val_arr b 2) (val_arr b 3)) \<le> 11" using assms(2) by (simp add: fits_def)
    with 3 displays_draw [OF assms(1)] show ?thesis by (simp add: flush_switch_def fields_def draw_rtc_time_in_grid_def date_sprintf)
  next
    case 4
    then have f: "fits_number (val_arr b 1)" "fits_number (val_arr b 2)" using assms(2) by (simp_all add: fits_def)
    obtain s1 where s1: "draw_text_in_grid_nb 0 3 (val_arr b 1) s = Some s1" "displays s [(0, 3, field b 1)] s1"
      using displays_nb [OF f(1) assms(1)] by (auto simp: field_def)
    obtain s2 where s2: "draw_text_in_grid_nb 1 3 (val_arr b 2) s1 = Some s2" "displays s ([(0, 3, field b 1)] @ [(1, 3, field b 2)]) s2"
      using displays_then [OF s1(2) displays_nb [OF f(2)]] by (auto simp: field_def)
    from 4 s1 s2 show ?thesis by (simp add: flush_switch_def draw_product_info_def fields_def)
  next
    case 5
    then have "fits_number (val_arr b 1)" using assms(2) by (simp add: fits_def)
    from displays_number [OF assms(1) this, of 0 5] 5 show ?thesis by (auto simp: flush_switch_def fields_def field_def)
  next
    case 6
    then have "fits_number (val_arr b 1)" using assms(2) by (simp add: fits_def)
    from displays_number [OF assms(1) this, of 1 5] obtain s1 where s1: "draw_text_in_grid 1 5 (val_arr b 1) s = Some s1" "displays s [(1, 5, field b 1)] s1"
      by (auto simp: field_def)
    have "displays s1 [(2, 5, ''OK'')] (gui_drawtext_in_grid 2 5 ''OK'' s1)" using s1(2) by (intro displays_draw) (simp add: displays_def)
    from displays_append [OF s1(2) this] s1(1) 6 show ?thesis by (simp add: flush_switch_def fields_def)
  next
    case 7
    then show ?thesis using displays_Nil [OF assms(1)] by (simp add: flush_switch_def fields_def)
  qed
qed

fun flush_all :: "bytes list \<Rightarrow> screen \<Rightarrow> screen option" where
  "flush_all [] s = Some s"
| "flush_all (b # bs) s = do { s \<leftarrow> flush_switch b s; flush_all bs s }"

lemma flush_all_shows:
  assumes "screen_ok s" and "\<forall>b \<in> set bs. fits b"
  shows "\<exists>s'. flush_all bs s = Some s' \<and> displays s (concat (map fields bs)) s'"
  using assms
proof (induction bs arbitrary: s)
  case Nil
  then show ?case by (simp add: displays_Nil)
next
  case (Cons b bs)
  from flush_shows [OF Cons.prems(1), of b] Cons.prems(2) obtain s1 where s1: "flush_switch b s = Some s1" "displays s (fields b) s1" by auto
  then have "screen_ok s1" by (simp add: displays_def)
  with Cons.IH Cons.prems(2) obtain s' where "flush_all bs s1 = Some s'" "displays s1 (concat (map fields bs)) s'" by auto
  with s1 displays_append show ?case by auto
qed

section \<open>Start\<close>

definition all_alloc :: "nat \<Rightarrow> allocs" where
  "all_alloc p = \<lparr>a_grid = Some p, a_col = \<lambda>_. True, a_cell = \<lambda>_ _. True, a_button = \<lambda>_. True\<rparr>"

lemma create_grid_blank:
  assumes "create_grid X Y (Some p) (\<lambda>_. True) (\<lambda>_ _. True) rect rws cls guid grp s = (Some p, s')"
  shows "blank_grid (grid_at s' p) \<and> rows (grid_at s' p) = rws \<and> cols (grid_at s' p) = cls"
proof -
  define g where "g = \<lparr>g_rect = normalize_rect rect, rows = rws, cols = cls, borderwidth = 2, bordercolor = clBLACK, bgcolor = clHINT, linecolor = clGREY,
                   titleheight = 0, titlecolor = clBRTCYAN, g_group = grp, g_guid = guid, g_changed = True, columns = []\<rparr>"
  let ?m = "make_columns (\<lambda>_. True) (\<lambda>_ _. True) (cdiv (right (normalize_rect rect) - left (normalize_rect rect)) cls) 0 (nat cls) g"
  have e: "grid_at s' p = grid_calcurate_cell_rect_internal ?m" using assms by (auto simp: create_grid_def Let_def g_def split: if_splits)
  have m: "length (columns ?m) = nat cls \<and> (\<forall>c \<in> set (columns ?m). blank_column g c) \<and> rows ?m = rws \<and> cols ?m = cls"
    using make_columns_blank [of g] by (simp add: g_def)
  then have "blank_grid ?m" by (simp add: blank_grid_def blank_column_def g_def)
  with m show ?thesis by (simp add: e calc_blank) (simp add: grid_calcurate_cell_rect_internal_def Let_def)
qed

lemma set_column_width_dims: "rows (grid_set_column_width i w g) = rows g" "cols (grid_set_column_width i w g) = cols g"
  by (simp_all add: grid_set_column_width_def grid_calcurate_cell_rect_internal_def on_column_def Let_def split: option.split)

lemma setup_column_ok:
  assumes "grid_ok g" and "blank_grid g" and "int i < cols g"
  shows "\<exists>h. setup_column t i g = Some h \<and> grid_ok h \<and> blank_grid h \<and> rows h = rows g \<and> cols h = cols g"
proof -
  have "i < length (columns g)" using assms(2,3) by (simp add: blank_grid_def nat_less_iff)
  then have c: "grid_get_column g (int i) = Some i" using get_column_ok [OF assms(1)] by simp
  let ?g1 = "on_column i (\<lambda>c. c\<lparr>align := align_center\<rparr>) g"
  let ?g2 = "on_column i (grid_set_column_title (Some t)) ?g1"
  have "same_layout g ?g1" "same_layout ?g1 ?g2"
    by (rule on_column_same, simp add: same_column_def grid_set_column_title_def)+
  then have ok: "grid_ok ?g2" using assms(1) same_layout_ok by blast
  have b: "blank_grid ?g2" using assms(2) by (simp add: on_column_blank grid_set_column_title_def)
  have "rows ?g2 = rows g" "cols ?g2 = cols g" by (simp_all add: on_column_def)
  with c ok b show ?thesis by (simp add: setup_column_def set_column_width_ok set_column_width_blank set_column_width_dims)
qed

lemma setup_columns_ok:
  assumes "grid_ok g" and "blank_grid g" and "int (i + length ts) \<le> cols g"
  shows "\<exists>h. setup_columns i ts g = Some h \<and> grid_ok h \<and> blank_grid h \<and> rows h = rows g \<and> cols h = cols g"
  using assms
proof (induction ts arbitrary: i g)
  case (Cons t ts)
  have "int i < cols g" using Cons.prems(3) by simp
  from setup_column_ok [OF Cons.prems(1,2) this] obtain h where h: "setup_column t i g = Some h" "grid_ok h" "blank_grid h" "rows h = rows g" "cols h = cols g" by blast
  have "int (i + 1 + length ts) \<le> cols h" using Cons.prems(3) h(5) by simp
  from Cons.IH [OF h(2,3) this] h show ?case by auto
qed simp

text \<open>The four buttons of the screen.\<close>

definition main_button :: "(nat \<Rightarrow> string) \<Rightarrow> nat \<Rightarrow> int \<Rightarrow> TButton" where
  "main_button capt n x = \<lparr>b_rect = button_rect x, caption = take BUTTON_TEXT_MAX (capt n), b_guid = MAIN_GROUP + int n, b_group = MAIN_GROUP,
     focused = False, color = clHINT, b_fontcolor = clBLACK, b_changed = True, b_tag = 0, ownerdraw = False, onclick = Some n\<rparr>"

definition main_buttons :: "(nat \<Rightarrow> string) \<Rightarrow> TButton list" where
  "main_buttons capt = [main_button capt 1 100, main_button capt 2 260, main_button capt 3 420, main_button capt 4 580]"

lemma buttons_created:
  assumes "gui_buttons w = []"
  shows "create_buttons_main (all_alloc p) capt w = (0, w\<lparr>gui_buttons := main_buttons capt\<rparr>)"
  using assms by (simp add: create_buttons_main_def new_button_def find_button_def all_alloc_def main_buttons_def main_button_def Let_def)

definition labels :: "(int \<Rightarrow> int \<Rightarrow> string) \<Rightarrow> (int \<times> int \<times> string) list" where
  "labels label = map (\<lambda>(r, c). (r, c, label r c)) [(0, 0), (1, 0), (2, 0), (0, 2), (1, 2), (2, 2), (0, 4), (1, 4), (2, 4)]"

lemma content_displays:
  assumes "screen_ok s"
  shows "displays s (labels label) (grid_content_init label s)"
proof -
  have "displays s (map (\<lambda>(r, c). (r, c, label r c)) rcs) (fold (\<lambda>(r, c). gui_drawtext_in_grid r c (label r c)) rcs s)" for rcs
    using assms
  proof (induction rcs arbitrary: s)
    case Nil
    then show ?case by (simp add: displays_Nil)
  next
    case (Cons a rcs)
    obtain r c where a: "a = (r, c)" by fastforce
    have d: "displays s [(r, c, label r c)] (gui_drawtext_in_grid r c (label r c) s)" using Cons.prems by (rule displays_draw)
    then have "screen_ok (gui_drawtext_in_grid r c (label r c) s)" by (simp add: displays_def)
    from displays_append [OF d Cons.IH [OF this]] show ?case by (simp add: a)
  qed
  then show ?thesis unfolding grid_content_init_def labels_def .
qed

lemma start_ok:
  assumes "dc_started s" and "grid_main s = None" and "700 \<le> fst (fb s)" and "300 \<le> snd (fb s)" and "length titles = 6"
  shows "\<exists>s0 s'. start_gui_task 0 font (all_alloc p) capt titles label s = Some s' \<and> displays s0 (labels label) s' \<and> screen_ok s0
     \<and> (\<forall>r \<in> {0..2}. \<forall>c \<in> {0..5}. screen_text s0 r c = []) \<and> gui_buttons (widgets s') = main_buttons capt \<and> gui_active_group (widgets s') = MAIN_GROUP"
proof -
  let ?w = "(init_simple_gui_env font (widgets s))\<lparr>painted := painted (init_simple_gui_env font (widgets s)) @ [ClearBuffer], gui_buttons := main_buttons capt\<rparr>"
  let ?rect = "\<lparr>left = 100, top = 160, right = 700, bottom = 300\<rparr>"
  obtain r w where c: "create_grid (fst (fb s)) (snd (fb s)) (Some p) (\<lambda>_. True) (\<lambda>_ _. True) ?rect 3 6 65537 65536 ?w = (r, w)" by fastforce
  have r: "r = Some p" "gui_buttons w = main_buttons capt"
    using c assms(3,4) by (auto simp: create_grid_def normalize_rect_def Let_def split: if_splits)
  note c' = c [unfolded r(1)]
  have g: "grid_ok (grid_at w p)" using create_grid_ok [OF c'] by (simp add: normalize_rect_def)
  note b = create_grid_blank [OF c']
  have "int (0 + length titles) \<le> cols (grid_at w p)" using assms(5) b by simp
  from setup_columns_ok [OF g _ this] b obtain h where h: "setup_columns 0 titles (grid_at w p) = Some h" "grid_ok h" "blank_grid h" "rows h = 3" "cols h = 6" by auto
  let ?s1 = "s\<lparr>widgets := w\<lparr>grid_at := (grid_at w)(p := h)\<rparr>, grid_main := Some p\<rparr>"
  let ?s0 = "set_objects_active_group 65536 ?s1"
  have i: "gui_buttons (init_simple_gui_env font (widgets s)) = []" by (simp add: init_simple_gui_env_def Let_def)
  have n: "get_buttons_count 65536 (widgets (emit_draws ds (s\<lparr>widgets := init_simple_gui_env font (widgets s)\<rparr>))) = 0" for ds
    by (simp add: get_buttons_count_def emit_draws_def i)
  have gm: "create_grid_main (all_alloc p) titles (s\<lparr>widgets := ?w\<rparr>) = Some (0, ?s1)"
    using c' h(1) by (simp add: create_grid_main_def all_alloc_def)
  have "create_main_objects (all_alloc p) capt titles (s\<lparr>widgets := init_simple_gui_env font (widgets s)\<rparr>) = Some (0, ?s0)"
    using gm assms(2) by (simp add: create_main_objects_def clear_screen_def n) (simp add: emit_draws_def buttons_created i)
  then have st: "start_gui_task 0 font (all_alloc p) capt titles label s = Some (grid_content_init label ?s0)" using assms(1) by (simp add: start_gui_task_def)
  have "fold (\<lambda>p m. m(p := (m p)\<lparr>g_changed := True\<rparr>)) ps f q = (if q \<in> set ps then (f q)\<lparr>g_changed := True\<rparr> else f q)" for ps q and f :: "nat \<Rightarrow> TGrid"
    by (induction ps arbitrary: f) auto
  then have m: "main_grid ?s0 = h\<lparr>g_changed := True\<rparr> \<or> main_grid ?s0 = h"
    by (simp add: main_grid_def set_objects_active_group_def set_gui_active_group_def)
  have sl: "same_layout h (main_grid ?s0)" using m by (auto simp: same_layout_def list_all2_refl)
  have bl: "blank_grid (main_grid ?s0)" "rows (main_grid ?s0) = 3" "cols (main_grid ?s0) = 6" using m h(3-5) by (auto simp: blank_iff)
  have k: "dc_started ?s0" "grid_main ?s0 = Some p" using assms(1) by (simp_all add: set_objects_active_group_def)
  have ok: "screen_ok ?s0" using k same_layout_ok [OF sl h(2)] blank_cells(1) [OF bl(1)] bl(2,3) by (simp add: screen_ok_def)
  moreover have "\<forall>r \<in> {0..2}. \<forall>c \<in> {0..5}. screen_text ?s0 r c = []" using blank_cells(2) [OF bl(1)] bl(2,3) by (simp add: screen_text_def)
  moreover have "gui_buttons (widgets ?s0) = main_buttons capt" "gui_active_group (widgets ?s0) = 65536"
    using r(2) by (simp_all add: set_objects_active_group_def set_gui_active_group_def main_buttons_def main_button_def)
  ultimately show ?thesis using st content_displays [OF ok, of label] by (auto simp: displays_def)
qed

section \<open>Properties\<close>


definition example_screen :: screen where
  "example_screen = \<lparr>widgets = example_gui, grid_main = None, fb = (800, 480), dc_started = True, last_x = - 1, last_y = - 1\<rparr>"


text \<open>C40: The limit of the fields. rt_flush_task overruns one of its local buffers exactly for the messages whose numbers do not fit, those outside of -99999 to
  999999, or whose date has more than eleven characters. The total of the parts gets there with the millionth part.\<close>

theorem screen_overflow_exact:
  assumes "screen_ok s"
  shows "(flush_switch b s = None \<longleftrightarrow> \<not> fits b)
    \<and> (total (add_porduct i r) = 1000000 \<longrightarrow>
        flush_switch (val_bytes [1, v_measure r, r_qualified r, total (add_porduct i r), qualified_amount (add_porduct i r)]) s = None)"
proof -
  have d: "draw_text_in_grid_nb x y v t = (if fits_number v then Some (gui_drawtext_in_grid x y (CHR '' '' # signed_text v) t) else None)"
    "draw_text_in_grid x y v t = (if fits_number v then Some (gui_drawtext_in_grid x y (CHR '' '' # signed_text v) t) else None)" for x y v t
    by (simp_all add: draw_text_in_grid_nb_def draw_text_in_grid_def number_sprintf fits_number_def signed_text_fits)
  have *: "flush_switch c s = None \<longleftrightarrow> \<not> fits c" for c
    by (auto simp: flush_switch_def fits_def Let_def draw_texts_in_grids_def draw_product_info_def draw_rtc_time_in_grid_def date_sprintf d
        split: if_splits)
  let ?b = "val_bytes [1, v_measure r, r_qualified r, total (add_porduct i r), qualified_amount (add_porduct i r)]"
  have v: "val_arr ?b 0 = 1" "val_arr ?b 3 = total (add_porduct i r)" using val_arr_val_bytes [of _ "[1, v_measure r, r_qualified r, total (add_porduct i r), qualified_amount (add_porduct i r)]" "[]"] by simp_all
  have "\<not> fits ?b" if t: "total (add_porduct i r) = 1000000"
  proof -
    have "\<not> fits_number 1000000" by (simp add: fits_number_def)
    then have "\<not> fits_number (val_arr ?b 3)" using v(2) t by argo
    then show ?thesis unfolding fits_def Let_def v(1) by simp
  qed
  with * show ?thesis by blast
qed

definition queue_empty :: "rt_mq \<Rightarrow> bool" where
  "queue_empty m \<longleftrightarrow> mq_inv [] m \<and> mq_contents m = [] \<and> 20 \<le> unat (mq_msg_size m) \<and> 0 < mq_cap m"

lemma queue_roundtrip:
  assumes "queue_empty m" and "length buf \<le> 20"
  shows "\<exists>x m'. mq_recv 20 (snd (mq_send buf m)) = Some (take 20 x, m') \<and> take (length buf) x = buf"
proof -
  have i: "mq_inv [] m" "mq_contents m = []" "length buf \<le> unat (mq_msg_size m)" "length (mq_contents m) < mq_cap m"
    using assms by (auto simp: queue_empty_def)
  from mq_inv_room [OF i(1,4)] obtain us k fs where w: "mq_wf us (k # fs) [] m" by blast
  from mq_send_room [OF w i(3)] obtain q' where q': "mq_send buf m = (RT_EOK, q')" "mq_wf (us @ [k]) fs [] q'"
    "mq_contents q' = mq_contents m @ [memcpy_at 0 buf (body (mq_pool m ! k))]" by blast
  have "mq_inv [] q'" "mq_contents q' = memcpy_at 0 buf (body (mq_pool m ! k)) # []" using q'(2,3) i(2) by (auto simp: mq_inv_def)
  from mq_inv_head [OF this] obtain j vs gs where h: "mq_wf (j # vs) gs [] q'" "memcpy_at 0 buf (body (mq_pool m ! k)) = body (mq_pool q' ! j)" by metis
  have "take (length buf) (memcpy_at 0 buf (body (mq_pool m ! k))) = buf" by (rule take_memcpy_at_0)
  then have "take (length buf) (body (mq_pool q' ! j)) = buf" unfolding h(2) .
  with mq_recv_some [OF h(1), of 20] q'(1) show ?thesis by auto
qed

theorem screen_overflow_exact_witness:
  "\<exists>s1. start_gui_task 0 None (all_alloc 1) (\<lambda>_. []) (replicate 6 ''t'') (\<lambda>_ _. ''l'') example_screen = Some s1
     \<and> flush_switch (val_bytes [2, 1000000, 0, 0, 0]) s1 = None"
proof -
  obtain s1 where s1: "start_gui_task 0 None (all_alloc 1) (\<lambda>_. []) (replicate 6 ''t'') (\<lambda>_ _. ''l'') example_screen = Some s1" "screen_ok s1"
    using start_ok [of example_screen "replicate 6 ''t''" None 1 "\<lambda>_. []" "\<lambda>_ _. ''l''"] by (auto simp: example_screen_def displays_def)
  have "val_arr (val_bytes [2, 1000000, 0, 0, 0]) 0 = 2" "val_arr (val_bytes [2, 1000000, 0, 0, 0]) 1 = 1000000"
    using val_arr_val_bytes [of _ "[2, 1000000, 0, 0, 0]" "[]"] by simp_all
  then have "\<not> fits (val_bytes [2, 1000000, 0, 0, 0])" by (simp add: fits_def fits_number_def)
  with screen_overflow_exact [OF s1(2)] s1(1) show ?thesis by blast
qed

text \<open>The main thread receives the button's message and sends the new threshold to the screen.\<close>

lemma main_turn_threshold:
  assumes "mqs w main_mq = Some m" and "mq_recv 20 m = Some (b, m')" and "mqs w output_datas_mq = Some q" and "queue_empty q"
    and "val_arr b 0 = op" and "op = 6 \<and> v = v_threshold (res_t w) + 10 \<or> op = 7 \<and> v = v_threshold (res_t w) - 10"
  shows "\<exists>w'. main_turn reading oob w = Some (Some w') \<and> v_threshold (res_t w') = v \<and> mqs w' output_datas_mq = Some (snd (mq_send (val_bytes [2, v]) q))"
  using assms by (auto simp: main_turn_def main_switch_def send_v_threshold_msg_def mqsend_def Let_def)


definition example_queue :: rt_mq where
  "example_queue = mq_setup [\<lparr>nxt = None, body = replicate 24 0\<rparr>] 24 1"


text \<open>Below zero. If the threshold is lowered while it is less than ten, it wraps around: the screen shows it as a negative number, but from then on no
  reading of the converter is judged as qualified.\<close>

lemma threshold_wraps:
  assumes "v_threshold (res_t w) < 10" and "val_arr b 0 = 7" and "main_switch reading oob b w = Some w'"
  shows "sint (v_threshold (res_t w')) < 0 \<and> hd (signed_text (v_threshold (res_t w'))) = CHR ''-'' \<and> fits_number (v_threshold (res_t w'))
    \<and> (\<forall>t. r_qualified (set_qualified (set_v_measure t (res_t w'))) = 0)"
proof -
  let ?v = "v_threshold (res_t w)" and ?v' = "v_threshold (res_t w')"
  have v': "?v' = ?v - 10"
    using assms(2,3) by (auto simp: main_switch_def send_v_threshold_msg_def mqsend_def bind_eq_Some_conv Let_def)
  have l: "unat ?v < 10" using assms(1) by (simp add: word_less_nat_alt)
  have m1: "unat (- 1 :: u32) = 4294967295" by (simp add: unsigned_minus_1_eq_mask mask_eq_exp_minus_1)
  have "unat ?v \<in> {0, 1, 2, 3, 4, 5, 6, 7, 8, 9}" using l by auto
  then have "?v \<in> {0, 1, 2, 3, 4, 5, 6, 7, 8, 9}" by (auto simp: word_unat_eq_iff)
  then have n: "sint ?v' < 0 \<and> - 10 \<le> sint ?v' \<and> 4294967286 \<le> unat ?v'" unfolding v' using m1 by auto
  have "\<not> ?v' < ucast t * 2" for t :: u16
  proof -
    have "unat (ucast t :: u32) = unat t" using u16_bound [of t] by (simp add: unsigned_ucast_eq take_bit_nat_eq_self_iff)
    then have "unat (ucast t * 2 :: u32) \<le> 131070" using u16_bound [of t] by (simp add: unat_word_ariths)
    with n show ?thesis by (simp add: word_less_nat_alt)
  qed
  then have "r_qualified (set_qualified (set_v_measure t (res_t w'))) = 0" for t by (simp add: set_qualified_def set_v_measure_def)
  moreover have "sint ?v' < 0" "fits_number ?v'" using n by (simp_all add: fits_number_def)
  ultimately show ?thesis by (simp add: signed_text_def)
qed

end
