(* ===== verification/Idle.thy ===== *)
theory Idle
  imports System_Run Rt_Heap_Run Object
begin

text \<open>
  The start of the kernel (\<^verbatim>\<open>rtthread_startup\<close> of RTT4/src/components.c) and the idle thread (RTT4/src/idle.c), which gives the memory of dead threads back.
  Here the kernel, the object system and the heap come together: a thread is the address of its object, a block of the heap, and its
  stack is a second block. \<^verbatim>\<open>rt_thread_idle_excute\<close> is cut into the part with interrupts disabled and the part after it, because other threads may
  run in between. The initialisation of the board, the version message and the soft timers (not configured) are left out.
\<close>

section \<open>Start of the kernel\<close>

abbreviation (input) RT_MAIN_THREAD_PRIORITY :: u8 where "RT_MAIN_THREAD_PRIORITY \<equiv> 10"
abbreviation (input) RT_ENOSYS :: rt_err_t where "RT_ENOSYS \<equiv> 6"

definition rt_system_timer_init :: "kernel \<Rightarrow> kernel" where
  "rt_system_timer_init k = k\<lparr>timer_list := []\<rparr>"

text \<open>The arguments are the answers of the allocator for the object and the stack of the main thread.\<close>

definition rt_application_init :: "nat option \<Rightarrow> bool \<Rightarrow> kernel \<Rightarrow> kernel option" where
  "rt_application_init obj stack k = do {
     (tid, k) \<leftarrow> rt_thread_create obj stack RT_MAIN_THREAD_PRIORITY 20 k;
     RT_ASSERT (tid \<noteq> None);
     rt_thread_startup (the tid) k }"

definition rt_thread_idle_init :: "nat \<Rightarrow> kernel \<Rightarrow> kernel option" where
  "rt_thread_idle_init idle k = do {
     k \<leftarrow> rt_thread_init idle True 31 32 k;
     rt_thread_startup idle k }"

definition rtthread_startup :: "nat option \<Rightarrow> bool \<Rightarrow> nat \<Rightarrow> kernel \<Rightarrow> kernel option" where
  "rtthread_startup obj stack idle k = do {
     let k = rt_system_timer_init k;
     let k = rt_system_scheduler_init k;
     k \<leftarrow> rt_application_init obj stack k;
     k \<leftarrow> rt_thread_idle_init idle k;
     rt_system_scheduler_start k }"

section \<open>The idle thread\<close>

text \<open>\<open>idle_hook_list\<close> has four entries; \<open>None\<close> is the null pointer.\<close>

definition rt_thread_idle_sethook :: "nat option \<Rightarrow> nat option list \<Rightarrow> rt_err_t \<times> nat option list" where
  "rt_thread_idle_sethook hook hs =
     (case find (\<lambda>i. hs ! i = None) [0..<length hs] of None \<Rightarrow> (- RT_EFULL, hs) | Some i \<Rightarrow> (RT_EOK, hs[i := hook]))"

definition rt_thread_idle_delhook :: "nat option \<Rightarrow> nat option list \<Rightarrow> rt_err_t \<times> nat option list" where
  "rt_thread_idle_delhook hook hs =
     (case find (\<lambda>i. hs ! i = hook) [0..<length hs] of None \<Rightarrow> (- RT_ENOSYS, hs) | Some i \<Rightarrow> (RT_EOK, hs[i := None]))"

record threaded =
  kern :: kernel
  tobjs :: objects
  theap :: heap
  stack_addr :: "nat \<Rightarrow> nat"

definition has_defunct_thread :: "kernel \<Rightarrow> bool" where
  "has_defunct_thread k \<longleftrightarrow> lists k LDefunct \<noteq> []"

text \<open>The part with interrupts disabled. \<open>cleanup\<close> is what the function \<^verbatim>\<open>thread->cleanup\<close> does; the result is the thread whose memory is
  released next, or \<open>None\<close> when the function returns.\<close>

definition idle_take :: "(nat \<Rightarrow> kernel \<Rightarrow> kernel option) \<Rightarrow> threaded \<Rightarrow> (nat option \<times> threaded) option" where
  "idle_take cleanup s = do {
     RT_DEBUG_NOT_IN_INTERRUPT (kern s);
     if has_defunct_thread (kern s) then do {
       let thread = hd (lists (kern s) LDefunct);
       let k = tlist_remove thread (kern s);
       let k = rt_enter_critical k;
       k \<leftarrow> (if has_cleanup (threads k thread) then cleanup thread k else Some k);
       if rt_object_is_systemobject thread (tobjs s) then do {
         let s = s\<lparr>tobjs := rt_object_detach thread (tobjs s)\<rparr>;
         k \<leftarrow> rt_exit_critical k;
         Some (None, s\<lparr>kern := k\<rparr>) }
       else do {
         k \<leftarrow> rt_exit_critical k;
         Some (Some thread, s\<lparr>kern := k\<rparr>) } }
     else Some (None, s) }"

definition idle_release :: "nat \<Rightarrow> threaded \<Rightarrow> threaded option" where
  "idle_release thread s = do {
     h \<leftarrow> rt_free (stack_addr s thread) (kern s) (theap s);
     ob \<leftarrow> rt_object_delete thread (tobjs s);
     h \<leftarrow> rt_free thread (kern s) h;
     Some (s\<lparr>theap := h, tobjs := ob\<rparr>) }"

partial_function (option) rt_thread_idle_excute :: "(nat \<Rightarrow> kernel \<Rightarrow> kernel option) \<Rightarrow> threaded \<Rightarrow> threaded option" where
  "rt_thread_idle_excute cleanup s =
     (if has_defunct_thread (kern s) then do {
        (r, s) \<leftarrow> idle_take cleanup s;
        case r of
          None \<Rightarrow> Some s
        | Some thread \<Rightarrow> do { s \<leftarrow> idle_release thread s; rt_thread_idle_excute cleanup s } }
      else Some s)"

text \<open>One turn of the loop of \<^verbatim>\<open>rt_thread_idle_entry\<close>; \<open>call\<close> is what a hook does.\<close>

fun idle_hooks :: "(nat \<Rightarrow> threaded \<Rightarrow> threaded option) \<Rightarrow> nat option list \<Rightarrow> threaded \<Rightarrow> threaded option" where
  "idle_hooks call [] s = Some s"
| "idle_hooks call (None # hs) s = idle_hooks call hs s"
| "idle_hooks call (Some f # hs) s = do { s \<leftarrow> call f s; idle_hooks call hs s }"

definition rt_thread_idle_entry ::
  "(nat \<Rightarrow> threaded \<Rightarrow> threaded option) \<Rightarrow> nat option list \<Rightarrow> (nat \<Rightarrow> kernel \<Rightarrow> kernel option) \<Rightarrow> threaded \<Rightarrow> threaded option" where
  "rt_thread_idle_entry call hs cleanup s = do { s \<leftarrow> idle_hooks call hs s; rt_thread_idle_excute cleanup s }"

text \<open>\<^verbatim>\<open>rt_thread_create\<close> with its two allocations; \<open>osz\<close> is the size of a thread object.\<close>

definition thread_create :: "u32 \<Rightarrow> nat \<Rightarrow> u32 \<Rightarrow> u8 \<Rightarrow> u32 \<Rightarrow> threaded \<Rightarrow> (nat option \<times> threaded) option" where
  "thread_create osz name stack_size priority tick s = do {
     (p, h) \<leftarrow> rt_malloc osz (kern s) (theap s);
     (obj, ob) \<leftarrow> rt_object_allocate (\<lambda>_. unat osz) (irq_nest (kern s) \<noteq> 0) (if p = RT_NULL then None else Some p) 1 name (tobjs s);
     case obj of
       None \<Rightarrow> Some (None, s\<lparr>theap := h\<rparr>)
     | Some thread \<Rightarrow> do {
         (stack_start, h) \<leftarrow> rt_malloc stack_size (kern s) h;
         if stack_start = RT_NULL then do {
           ob \<leftarrow> rt_object_delete thread ob;
           h \<leftarrow> rt_free thread (kern s) h;
           Some (None, s\<lparr>theap := h, tobjs := ob\<rparr>) }
         else do {
           (r, k) \<leftarrow> rt_thread_create (Some thread) True priority tick (kern s);
           Some (r, s\<lparr>kern := k, theap := h, tobjs := ob, stack_addr := (stack_addr s)(thread := stack_start)\<rparr>) } } }"

section \<open>Taking a dead thread\<close>

text \<open>What a cleanup function may do: it runs with the scheduler locked and leaves the lists of the kernel alone.\<close>

definition cleanup_ok :: "(nat \<Rightarrow> kernel \<Rightarrow> kernel option) \<Rightarrow> bool" where
  "cleanup_ok cleanup \<longleftrightarrow> (\<forall>t k. kernel_ok k \<longrightarrow>
     (\<exists>k'. cleanup t k = Some k' \<and> kernel_ok k' \<and> lists k' = lists k \<and> ready_group k' = ready_group k \<and> current k' = current k
        \<and> lock_nest k' = lock_nest k \<and> irq_nest k' = irq_nest k \<and> (\<forall>u. stat (threads k' u) = stat (threads k u))))"

lemma kernel_ok_lock: "kernel_ok (k\<lparr>lock_nest := n\<rparr>) = kernel_ok k"
  using sched_ok_cong [of "k\<lparr>lock_nest := n\<rparr>" k] timers_ok_cong [of "k\<lparr>lock_nest := n\<rparr>" k]
  by (simp add: kernel_ok_def tt_ok_def period_ok_def)

lemma defunct_removed:
  assumes ok: "kernel_ok k" and d: "lists k LDefunct = t # ts"
  shows "kernel_ok (tlist_remove t k)" "lists (tlist_remove t k) = (lists k)(LDefunct := ts)"
    "stat_of (threads k t) = RT_THREAD_CLOSE" "t \<notin> set ts"
proof -
  note b = kernel_okD(4) [OF ok]
  show c: "stat_of (threads k t) = RT_THREAD_CLOSE" using base_okD(4) [OF b] d by (simp add: wait_ok_def)
  have l: "lists_ok k" using base_okD(1) [OF b] .
  then have x: "t \<notin> set (lists k l)" if "l \<noteq> LDefunct" for l using that d unfolding lists_ok_def by (metis list.set_intros(1))
  have "distinct (t # ts)" using l d unfolding lists_ok_def by metis
  then show n: "t \<notin> set ts" by simp
  show "lists (tlist_remove t k) = (lists k)(LDefunct := ts)" using x n d by (auto simp: fun_eq_iff removeAll_id)
  have "base_ok (tlist_remove t k)" using b c by (intro tlist_remove_base) auto
  moreover have "own_ok t (tlist_remove t k)" using c by (simp add: own_ok_def)
  ultimately have "sched_ok (tlist_remove t k)"
    unfolding sched_ok_split [of _ t] using sched_okD(2) [OF kernel_okD(1) [OF ok], of t] by blast
  moreover have "timers_ok (tlist_remove t k)" using kernel_okD(2) [OF ok] by (subst timers_ok_cong [of _ k]) simp_all
  ultimately show "kernel_ok (tlist_remove t k)" using kernel_okD(3,5) [OF ok] by (simp add: kernel_ok_def tt_ok_def period_ok_def)
qed

text \<open>Taking the first dead thread, while the scheduler is not locked.\<close>

lemma take_defunct:
  assumes ok: "kernel_ok (kern s)" and cl: "cleanup_ok cleanup" and irq: "irq_nest (kern s) = 0" and lk: "lock_nest (kern s) = 0"
    and d: "lists (kern s) LDefunct = t # ts" and c: "current (kern s) \<noteq> None"
  obtains k where "idle_take cleanup s = Some (if rt_object_is_systemobject t (tobjs s)
        then (None, s\<lparr>kern := k, tobjs := rt_object_detach t (tobjs s)\<rparr>) else (Some t, s\<lparr>kern := k\<rparr>))"
    "kernel_ok k" "lists k LDefunct = ts" "irq_nest k = 0" "lock_nest k = 0" "current k \<noteq> None"
    "\<And>u. started (threads k u) \<Longrightarrow> started (threads (kern s) u)"
    "ready_group (kern s) = 0 \<Longrightarrow> ready_group k = 0"
proof -
  note rm = defunct_removed [OF ok d]
  let ?k1 = "rt_enter_critical (tlist_remove t (kern s))"
  have ok1: "kernel_ok ?k1" using rm(1) by (simp add: rt_enter_critical_def kernel_ok_lock)
  obtain k2 where k2: "(if has_cleanup (threads ?k1 t) then cleanup t ?k1 else Some ?k1) = Some k2" "kernel_ok k2" "lists k2 = lists ?k1"
    "ready_group k2 = ready_group ?k1" "current k2 = current ?k1" "lock_nest k2 = lock_nest ?k1" "irq_nest k2 = irq_nest ?k1"
    "\<forall>u. stat (threads k2 u) = stat (threads ?k1 u)"
  proof (cases "has_cleanup (threads ?k1 t)")
    case True
    with cl ok1 that show ?thesis unfolding cleanup_ok_def by fastforce
  qed (use ok1 that in auto)
  have e: "lists ?k1 = (lists (kern s))(LDefunct := ts)" "ready_group ?k1 = ready_group (kern s)" "current ?k1 = current (kern s)"
    "lock_nest ?k1 = 1" "irq_nest ?k1 = 0" "threads ?k1 = threads (kern s)"
    using rm(2) irq lk by (simp_all add: rt_enter_critical_def)
  have ok3: "kernel_ok (k2\<lparr>lock_nest := 0\<rparr>)" using k2(2) by (simp add: kernel_ok_lock)
  have c3: "current (k2\<lparr>lock_nest := 0\<rparr>) \<noteq> None" using k2(5) e(3) c by simp
  obtain k where k: "rt_schedule (k2\<lparr>lock_nest := 0\<rparr>) = Some k" "kernel_ok k" "current k \<noteq> None"
    by (rule schedule_kernel [OF ok3 c3])
  note fr = schedule_frame [OF kernel_okD(1) [OF ok3] k(1)]
  have x: "rt_exit_critical k2 = Some k" using k(1) c3 k2(6) e(4) by (simp add: rt_exit_critical_def Let_def)
  have t: "idle_take cleanup s = Some (if rt_object_is_systemobject t (tobjs s)
        then (None, s\<lparr>kern := k, tobjs := rt_object_detach t (tobjs s)\<rparr>) else (Some t, s\<lparr>kern := k\<rparr>))"
    using irq d k2(1) x by (simp add: idle_take_def RT_DEBUG_NOT_IN_INTERRUPT_def rt_interrupt_get_nest_def has_defunct_thread_def Let_def)
  have st: "started (threads (kern s) u)" if "started (threads k u)" for u
  proof (rule ccontr)
    assume n: "\<not> started (threads (kern s) u)"
    then have "\<not> started (threads (k2\<lparr>lock_nest := 0\<rparr>) u)" using k2(8) e(6) by (simp add: started_def stat_of_def)
    then have "threads k u = threads (k2\<lparr>lock_nest := 0\<rparr>) u" using fr(7) [of u] by (auto simp: started_def)
    with that \<open>\<not> started (threads (k2\<lparr>lock_nest := 0\<rparr>) u)\<close> show False by simp
  qed
  have g: "ready_group k = 0" if "ready_group (kern s) = 0"
    using k(1) that k2(4) e(2) by (auto simp: rt_schedule_def)
  show ?thesis
    by (rule that [OF t k(2) _ _ _ k(3) st g]) (use fr(4,5) fr(8) [of LDefunct] k2(3,6,7) e in simp_all)
qed

section \<open>Releasing its memory\<close>

lemma release_thread:
  assumes inv: "heap_inv L (theap s)" and irq: "irq_nest (kern s) = 0" and dyn: "\<not> rt_object_is_systemobject t (tobjs s)"
    and l: "L t \<noteq> None" "L (stack_addr s t) \<noteq> None" "stack_addr s t \<noteq> t"
  obtains h where "idle_release t s = Some (s\<lparr>theap := h, tobjs := obj_remove t ((tobjs s)\<lparr>omem := (omem (tobjs s))(t + 10 := 0)\<rparr>)\<rparr>)"
    "heap_inv (L(stack_addr s t := None, t := None)) h" "heap_ptr h = heap_ptr (theap s)" "heap_end h = heap_end (theap s)"
proof -
  from l(2) obtain n where n: "L (stack_addr s t) = Some n" by blast
  obtain h1 where h1: "rt_free (stack_addr s t) (kern s) (theap s) = Some h1" "heap_inv (L(stack_addr s t := None)) h1"
    "heap_ptr h1 = heap_ptr (theap s)" "heap_end h1 = heap_end (theap s)" by (rule free_inv [OF inv irq n])
  from l(1,3) obtain m where m: "(L(stack_addr s t := None)) t = Some m" by auto
  obtain h where "rt_free t (kern s) h1 = Some h" "heap_inv (L(stack_addr s t := None, t := None)) h"
    "heap_ptr h = heap_ptr h1" "heap_end h = heap_end h1" by (rule free_inv [OF h1(2) irq m])
  moreover have "rt_object_delete t (tobjs s) = Some (obj_remove t ((tobjs s)\<lparr>omem := (omem (tobjs s))(t + 10 := 0)\<rparr>))"
    using dyn by (simp add: rt_object_delete_def rt_object_is_systemobject_def)
  ultimately show ?thesis using that h1 by (simp add: idle_release_def)
qed

section \<open>One call of the idle thread\<close>

definition blocks :: "threaded \<Rightarrow> nat list \<Rightarrow> nat list" where
  "blocks s ts = concat (map (\<lambda>t. [stack_addr s t, t]) ts)"

lemma restrict_UNIV [simp]: "L |` UNIV = L"
  by (simp add: restrict_map_def)

lemma restrict_map_cong_dom: "dom L \<inter> X = dom L \<inter> Y \<Longrightarrow> L |` X = L |` Y"
proof
  fix x assume "dom L \<inter> X = dom L \<inter> Y"
  then show "(L |` X) x = (L |` Y) x" by (cases "x \<in> dom L") (auto simp: restrict_map_def)
qed

definition dynamic :: "threaded \<Rightarrow> nat \<Rightarrow> bool" where
  "dynamic s t \<longleftrightarrow> \<not> rt_object_is_systemobject t (tobjs s)"

text \<open>One turn of the loop for a thread that is not static, while no other thread is ready.\<close>

lemma excute_step:
  assumes cl: "cleanup_ok cleanup" and pre: "kernel_ok (kern s)" "heap_inv L (theap s)" "irq_nest (kern s) = 0" "lock_nest (kern s) = 0"
      "current (kern s) \<noteq> None" "ready_group (kern s) = 0"
    and d: "lists (kern s) LDefunct = t # ds" "dynamic s t" and l: "L t \<noteq> None" "L (stack_addr s t) \<noteq> None" "stack_addr s t \<noteq> t"
  obtains s' where "rt_thread_idle_excute cleanup s = rt_thread_idle_excute cleanup s'" "kernel_ok (kern s')"
    "heap_inv (L(stack_addr s t := None, t := None)) (theap s')" "irq_nest (kern s') = 0" "lock_nest (kern s') = 0" "current (kern s') \<noteq> None"
    "ready_group (kern s') = 0" "lists (kern s') LDefunct = ds" "stack_addr s' = stack_addr s" "\<And>u. u \<noteq> t \<Longrightarrow> dynamic s' u = dynamic s u"
    "\<And>c. object_list (tobjs s') c = filter (\<lambda>u. u \<noteq> t) (object_list (tobjs s) c)"
proof -
  have ns: "\<not> rt_object_is_systemobject t (tobjs s)" using d(2) by (simp add: dynamic_def)
  obtain k where k: "idle_take cleanup s = Some (Some t, s\<lparr>kern := k\<rparr>)"
    "kernel_ok k" "lists k LDefunct = ds" "irq_nest k = 0" "lock_nest k = 0" "current k \<noteq> None" "ready_group k = 0"
    by (rule take_defunct [OF pre(1) cl pre(3,4) d(1) pre(5)]) (use ns pre(6) in auto)
  let ?s1 = "s\<lparr>kern := k\<rparr>"
  obtain h where h: "idle_release t ?s1 = Some (?s1\<lparr>theap := h, tobjs := obj_remove t ((tobjs s)\<lparr>omem := (omem (tobjs s))(t + 10 := 0)\<rparr>)\<rparr>)"
    "heap_inv (L(stack_addr s t := None, t := None)) h"
    by (rule release_thread [of L ?s1 t]) (use pre(2) ns k(4) l in auto)
  let ?s2 = "?s1\<lparr>theap := h, tobjs := obj_remove t ((tobjs s)\<lparr>omem := (omem (tobjs s))(t + 10 := 0)\<rparr>)\<rparr>"
  have "rt_thread_idle_excute cleanup s = rt_thread_idle_excute cleanup ?s2"
    using k(1) h(1) d(1) by (subst rt_thread_idle_excute.simps) (simp add: has_defunct_thread_def)
  moreover have "dynamic ?s2 u = dynamic s u" if "u \<noteq> t" for u
    using that by (auto simp: dynamic_def rt_object_is_systemobject_def obj_type_def obj_remove_def)
  moreover have "object_list (tobjs ?s2) c = filter (\<lambda>u. u \<noteq> t) (object_list (tobjs s) c)" for c
    by (simp add: obj_remove_def removeAll_filter_not_eq) (rule filter_cong, auto)
  ultimately show ?thesis using that [of ?s2] k h(2) by simp
qed

text \<open>While no other thread is ready, a call releases the memory of the dead threads up to the first one that is static, and that one is
  detached. So one call is enough unless there is a static one, and then the threads behind it wait for the next call.\<close>

lemma idle_reclaims:
  assumes "cleanup_ok cleanup" and "kernel_ok (kern s)" and "heap_inv L (theap s)" and "irq_nest (kern s) = 0" and "lock_nest (kern s) = 0"
    and "current (kern s) \<noteq> None" and "ready_group (kern s) = 0" and "ts = takeWhile (dynamic s) (lists (kern s) LDefunct)"
    and "distinct (blocks s ts)" and "\<forall>p \<in> set (blocks s ts). L p \<noteq> None"
  shows "\<exists>s'. rt_thread_idle_excute cleanup s = Some s' \<and> kernel_ok (kern s') \<and> heap_inv (L |` (- set (blocks s ts))) (theap s')
    \<and> lists (kern s') LDefunct = tl (dropWhile (dynamic s) (lists (kern s) LDefunct))
    \<and> (\<forall>c. object_list (tobjs s') c = filter (\<lambda>t. t \<notin> set ts \<union> set (take 1 (dropWhile (dynamic s) (lists (kern s) LDefunct)))) (object_list (tobjs s) c))"
  using assms(2-)
proof (induction "lists (kern s) LDefunct" arbitrary: s L ts)
  case Nil
  then show ?case
    by (subst rt_thread_idle_excute.simps) (simp add: has_defunct_thread_def blocks_def flip: Nil.hyps)
next
  case (Cons t ds)
  note d = Cons.hyps(2) [symmetric]
  note pre = Cons.prems
  show ?case
  proof (cases "dynamic s t")
    case False
    then have ts: "ts = []" "dropWhile (dynamic s) (lists (kern s) LDefunct) = t # ds" using pre(7) d by simp_all
    obtain k where k: "idle_take cleanup s = Some (None, s\<lparr>kern := k, tobjs := rt_object_detach t (tobjs s)\<rparr>)" "kernel_ok k" "lists k LDefunct = ds"
      by (rule take_defunct [OF pre(1) assms(1) pre(3,4) d pre(5)]) (use False in \<open>auto simp: dynamic_def\<close>)
    have "rt_thread_idle_excute cleanup s = Some (s\<lparr>kern := k, tobjs := rt_object_detach t (tobjs s)\<rparr>)"
      using k(1) d by (subst rt_thread_idle_excute.simps) (simp add: has_defunct_thread_def)
    then show ?thesis using k(2,3) pre(2) ts
      by (auto simp: blocks_def rt_object_detach_def obj_remove_def removeAll_filter_not_eq intro!: filter_cong)
  next
    case True
    let ?us = "takeWhile (dynamic s) ds" and ?L = "L(stack_addr s t := None, t := None)"
    have ts: "ts = t # ?us" using pre(7) d True by simp
    then have b: "blocks s ts = stack_addr s t # t # blocks s ?us" by (simp add: blocks_def)
    obtain s2 where s2: "rt_thread_idle_excute cleanup s = rt_thread_idle_excute cleanup s2" "kernel_ok (kern s2)" "heap_inv ?L (theap s2)"
      "irq_nest (kern s2) = 0" "lock_nest (kern s2) = 0" "current (kern s2) \<noteq> None" "ready_group (kern s2) = 0" "lists (kern s2) LDefunct = ds"
      "stack_addr s2 = stack_addr s" "\<And>u. u \<noteq> t \<Longrightarrow> dynamic s2 u = dynamic s u"
      "\<And>c. object_list (tobjs s2) c = filter (\<lambda>u. u \<noteq> t) (object_list (tobjs s) c)"
      by (rule excute_step [OF assms(1) pre(1-6) d True]) (use pre(8,9) b in auto)
    have n: "t \<notin> set ds" by (rule defunct_removed(4) [OF pre(1) d])
    then have w: "takeWhile (dynamic s2) ds = ?us" "dropWhile (dynamic s2) ds = dropWhile (dynamic s) ds"
      using s2(10) by (metis takeWhile_cong dropWhile_cong)+
    have bl: "blocks s2 us = blocks s us" for us by (simp add: blocks_def s2(9))
    have "\<exists>s'. rt_thread_idle_excute cleanup s2 = Some s' \<and> kernel_ok (kern s') \<and> heap_inv (?L |` (- set (blocks s2 ?us))) (theap s')
      \<and> lists (kern s') LDefunct = tl (dropWhile (dynamic s2) (lists (kern s2) LDefunct))
      \<and> (\<forall>c. object_list (tobjs s') c = filter (\<lambda>u. u \<notin> set ?us \<union> set (take 1 (dropWhile (dynamic s2) (lists (kern s2) LDefunct)))) (object_list (tobjs s2) c))"
      by (rule Cons.hyps(1)) (use s2(2-8) pre(8,9) b bl w in auto)
    then obtain s' where s': "rt_thread_idle_excute cleanup s2 = Some s'" "kernel_ok (kern s')" "heap_inv (?L |` (- set (blocks s2 ?us))) (theap s')"
      "lists (kern s') LDefunct = tl (dropWhile (dynamic s2) (lists (kern s2) LDefunct))"
      "\<forall>c. object_list (tobjs s') c = filter (\<lambda>u. u \<notin> set ?us \<union> set (take 1 (dropWhile (dynamic s2) (lists (kern s2) LDefunct)))) (object_list (tobjs s2) c)"
      by blast
    have "?L |` (- set (blocks s2 ?us)) = L |` (- set (blocks s ts))"
      unfolding b bl by (auto simp: fun_eq_iff restrict_map_def)
    moreover have "dropWhile (dynamic s) (lists (kern s) LDefunct) = dropWhile (dynamic s) ds" using d True by simp
    ultimately show ?thesis using s2(1,8,11) s' ts w(2) by (auto intro!: filter_cong)
  qed
qed

section \<open>From reset to the main thread\<close>

text \<open>The memory of the kernel after reset: all zero, no thread in any list.\<close>

definition cleared :: "kernel \<Rightarrow> bool" where
  "cleared k \<longleftrightarrow> current k = None \<and> (\<forall>l. lists k l = []) \<and> (\<forall>t. stat (threads k t) = RT_THREAD_INIT)
     \<and> (\<forall>t. \<not> tm_periodic (timers k (TThread t))) \<and> irq_nest k = 0"

lemma cleared_kernel:
  assumes "cleared k"
  shows "kernel_ok (rt_system_scheduler_init (rt_system_timer_init k))" (is "kernel_ok ?k")
proof -
  have l: "lists ?k l = []" "stat_of (threads ?k t) = RT_THREAD_INIT" "ready_group ?k = 0" "current ?k = None" "timer_list ?k = []" for l t
    using assms by (simp_all add: cleared_def rt_system_scheduler_init_def rt_system_timer_init_def stat_of_def split: lhead.split)
  have "period_ok ?k" using assms l(5) by (simp add: period_ok_def cleared_def rt_system_scheduler_init_def rt_system_timer_init_def)
  moreover have "sched_ok ?k" using l by (simp add: sched_ok_def stat_ok_def base_defs started_def)
  ultimately show ?thesis using l(5) by (simp add: kernel_ok_def timers_ok_def sorted_from_def tt_ok_def)
qed

text \<open>Starting a new thread before the scheduler runs puts it into its ready list.\<close>

lemma startup_new:
  assumes ok: "kernel_ok k" and c: "current k = None" and n: "\<not> started (threads k t)" "t \<notin> set (lists k LDefunct)" and p: "unat p < 32"
  obtains k1 k' where "rt_thread_init t st p tick k = Some k1" "rt_thread_startup t k1 = Some k'" "kernel_ok k'" "current k' = None"
    "lists k' = (lists k)(LReady (unat p) := lists k (LReady (unat p)) @ [t])" "\<And>u. u \<noteq> t \<Longrightarrow> threads k' u = threads k u"
    "timer_list k' = timer_list k" "prio t k' = unat p" "irq_nest k' = irq_nest k" "lock_nest k' = lock_nest k"
proof -
  note b = kernel_okD(4) [OF ok]
  have nl: "nolist t k"
    using base_okD(3,4) [OF b] n unfolding nolist_def ready_ok_def wait_ok_def started_def by (metis insertCI lhead.exhaust)
  have tm: "TThread t \<notin> set (timer_list k)" using n(1) by (intro no_timer [OF ok]) (auto simp: started_def)
  obtain k1 where k1: "rt_thread_init t st p tick k = Some k1" "kernel_ok k1" "stat_of (threads k1 t) = RT_THREAD_INIT"
    "init_priority (threads k1 t) = p" "current k1 = current k" "nolist t k1" by (rule thread_init_kernel [OF ok nl tm p])
  have i: "lists k1 = lists k" "\<And>u. u \<noteq> t \<Longrightarrow> threads k1 u = threads k u" "timer_list k1 = timer_list k" "\<not> tm_active (timers k1 (TThread t))"
    "irq_nest k1 = irq_nest k" "lock_nest k1 = lock_nest k"
    using k1(1) p by (auto simp: rt_thread_init_def Let_def rt_timer_init_obj_def)
  obtain k' where k': "rt_thread_startup t k1 = Some k'" "kernel_ok k'"
    by (rule startup_kernel [OF k1(2,3)]) (use k1(4) p in auto)
  have r: "removeAll t (lists k l) = lists k l" for l using nl by (simp add: nolist_def removeAll_id)
  have e: "k' = snd (rt_thread_resume t (upd_thread t (\<lambda>th. th\<lparr>current_priority := p, number_mask := 2 ^ unat p, stat := 2\<rparr>) k1))"
    and cn: "current k' = None"
    using k'(1) k1(3,4,5) p c i(1,4) r
    by (auto simp: rt_thread_startup_def Let_def shl1_def rt_thread_self_def upd_thread_def rt_thread_resume_def stat_of_def
        rt_timer_stop_def rt_schedule_insert_thread_def set_stat_def split: if_splits)
  have "lists k' = (lists k)(LReady (unat p) := lists k (LReady (unat p)) @ [t])" "timer_list k' = timer_list k" "prio t k' = unat p"
    "irq_nest k' = irq_nest k" "lock_nest k' = lock_nest k" "u \<noteq> t \<Longrightarrow> threads k' u = threads k u" for u
    unfolding e using i c k1(5) r
    by (auto simp: rt_thread_resume_def stat_of_def rt_timer_stop_def rt_schedule_insert_thread_def Let_def set_stat_def prio_def)
  then show ?thesis using that [OF k1(1) k' cn] by blast
qed

lemma startup_runs_main:
  assumes z: "cleared k" and d: "main \<noteq> idle"
  shows "\<exists>k'. rtthread_startup (Some main) True idle k = Some k' \<and> kernel_ok k' \<and> runs main k' \<and> lists k' (LReady 31) = [idle]
    \<and> (\<forall>l. l \<noteq> LReady 31 \<longrightarrow> lists k' l = []) \<and> timer_list k' = [] \<and> lock_nest k' = 0"
proof -
  let ?k0 = "rt_system_scheduler_init (rt_system_timer_init k)"
  have i: "lists ?k0 l = []" "\<not> started (threads ?k0 t)" "current ?k0 = None" "timer_list ?k0 = []" "irq_nest ?k0 = 0" "lock_nest ?k0 = 0" for l t
    using z by (simp_all add: cleared_def rt_system_scheduler_init_def rt_system_timer_init_def started_def stat_of_def split: lhead.split)
  obtain a k1 where k1: "rt_thread_init main False 10 20 ?k0 = Some a" "rt_thread_startup main a = Some k1" "kernel_ok k1" "current k1 = None"
    "lists k1 = (lists ?k0)(LReady 10 := lists ?k0 (LReady 10) @ [main])" "\<And>u. u \<noteq> main \<Longrightarrow> threads k1 u = threads ?k0 u"
    "timer_list k1 = timer_list ?k0" "prio main k1 = 10" "irq_nest k1 = irq_nest ?k0" "lock_nest k1 = lock_nest ?k0"
    by (rule startup_new [OF cleared_kernel [OF z] i(3), of main 10 False 20]) (use i in auto)
  obtain b k2 where k2: "rt_thread_init idle True 31 32 k1 = Some b" "rt_thread_startup idle b = Some k2" "kernel_ok k2" "current k2 = None"
    "lists k2 = (lists k1)(LReady 31 := lists k1 (LReady 31) @ [idle])" "\<And>u. u \<noteq> idle \<Longrightarrow> threads k2 u = threads k1 u"
    "timer_list k2 = timer_list k1" "prio idle k2 = 31" "irq_nest k2 = irq_nest k1" "lock_nest k2 = lock_nest k1"
    by (rule startup_new [OF k1(3,4), of idle 31 True 32]) (use i k1(5,6) d in auto)
  have l: "lists k2 l = (if l = LReady 10 then [main] else if l = LReady 31 then [idle] else [])" for l using k1(5) k2(5) i(1) by simp
  have g: "ready_group k2 \<noteq> 0"
  proof -
    have "bit (ready_group k2) 10" using base_okD(2) [OF kernel_okD(4) [OF k2(3)]] l [of "LReady 10"] unfolding group_ok_def by auto
    then show ?thesis by auto
  qed
  obtain t ts hp where h: "get_highest_priority_thread k2 = Some (t, hp)" "lists k2 (LReady hp) = t # ts" "\<forall>p < hp. lists k2 (LReady p) = []"
    using highest_ok [OF kernel_okD(4) [OF k2(3)] g] by metis
  have "hp = 10" "t = main" using h(2) h(3) [rule_format, of 10] by (auto simp: l split: if_splits)
  with h(1) have h: "get_highest_priority_thread k2 = Some (main, 10)" by simp
  obtain k' where k': "rt_system_scheduler_start k2 = Some k'" "sched_ok k'" using scheduler_start_ok [OF kernel_okD(1) [OF k2(3)] k2(4) g] by blast
  have e: "k' = upd_thread main (\<lambda>th. th\<lparr>stat := RT_THREAD_RUNNING\<rparr>) (rt_schedule_remove_thread main (k2\<lparr>current := Some main\<rparr>))"
    using k'(1) h by (simp add: rt_system_scheduler_start_def Let_def)
  have f: "timer_list k' = []" "lists k' l = (if l = LReady 31 then [idle] else [])" "runs main k'" "lock_nest k' = 0" for l
    using d k1(7,9,10) k2(7,9,10) i(4-6) by (simp_all add: e l runs_def stat_of_def)
  have "period_ok k'" using kernel_okD(5) [OF k2(3)] by (rule period_ok_cong [rotated 2]) (simp_all add: e)
  then have "kernel_ok k'" using k'(2) f(1) by (simp add: kernel_ok_def timers_ok_def sorted_from_def tt_ok_def)
  moreover have "rtthread_startup (Some main) True idle k = Some k'"
    using k1(1,2) k2(1,2) k'(1) by (simp add: rtthread_startup_def rt_application_init_def rt_thread_create_def rt_thread_idle_init_def Let_def)
  ultimately show ?thesis using f by auto
qed

section \<open>The memory of the threads\<close>

text \<open>\<open>T\<close> are the threads that have memory: an object of the size \<open>osz\<close> and a stack each. All other live blocks, \<open>U\<close>, belong to others.\<close>

definition mem_inv :: "u32 \<Rightarrow> (nat \<Rightarrow> nat) \<Rightarrow> live \<Rightarrow> live \<Rightarrow> nat set \<Rightarrow> bool" where
  "mem_inv osz st L U T \<longleftrightarrow> (\<forall>t \<in> T. L t = Some (unat osz)) \<and> inj_on st T \<and> st ` T \<inter> T = {} \<and> dom U \<inter> (T \<union> st ` T) = {}
     \<and> dom L = dom U \<union> T \<union> st ` T \<and> (\<forall>p \<in> dom U. L p = U p)"

lemma mem_user:
  assumes m: "mem_inv osz st L U T" and n: "L p = None"
  shows "mem_inv osz st (L(p \<mapsto> n)) (U(p \<mapsto> n)) T"
proof -
  have "p \<notin> dom L" using n by auto
  then have "p \<notin> T" "p \<notin> st ` T" using m unfolding mem_inv_def by blast+
  with m show ?thesis unfolding mem_inv_def by auto
qed

lemma mem_user_free: "mem_inv osz st L U T \<Longrightarrow> U p = Some n \<Longrightarrow> mem_inv osz st (L(p := None)) (U(p := None)) T"
  unfolding mem_inv_def by (auto simp: domIff)

lemma mem_add:
  assumes m: "mem_inv osz st L U T" and n: "L t = None" "L a = None" "a \<noteq> t"
  shows "mem_inv osz (st(t := a)) (L(t \<mapsto> unat osz, a \<mapsto> sz)) U (insert t T)"
proof -
  have x: "t \<notin> T" "a \<notin> T" "t \<notin> st ` T" "a \<notin> st ` T" "t \<notin> dom U" "a \<notin> dom U" using m n unfolding mem_inv_def by (metis Un_iff domIff)+
  then have s: "(st(t := a)) ` T = st ` T" by auto
  have "inj_on (st(t := a)) (insert t T)" using m x s by (auto simp: mem_inv_def inj_on_def)
  then show ?thesis using m x s n(3) unfolding mem_inv_def by (auto simp: domIff)
qed

lemma mem_drop:
  assumes m: "mem_inv osz st L U T" and t: "t \<in> T"
  shows "mem_inv osz st (L(st t := None, t := None)) U (T - {t})" "L (st t) \<noteq> None" "L t \<noteq> None" "st t \<noteq> t"
proof -
  have i: "inj_on st T" using m by (simp add: mem_inv_def)
  have s: "st ` (T - {t}) = st ` T - {st t}" using inj_on_image_set_diff [OF i, of T "{t}"] t by simp
  have d: "st t \<in> dom L" "t \<in> dom L" using m t unfolding mem_inv_def by blast+
  then show "L (st t) \<noteq> None" "L t \<noteq> None" by auto
  have x: "st t \<notin> T" "t \<notin> st ` T" using m t unfolding mem_inv_def by blast+
  then show "st t \<noteq> t" using t by auto
  have u: "st t \<notin> dom U" "t \<notin> dom U" using m t unfolding mem_inv_def by blast+
  have "inj_on st (T - {t})" using i by (rule inj_on_subset) auto
  moreover have "\<forall>u \<in> T - {t}. (L(st t := None, t := None)) u = Some (unat osz)" using m x by (auto simp: mem_inv_def)
  moreover have "dom (L(st t := None, t := None)) = dom U \<union> (T - {t}) \<union> st ` (T - {t})"
    unfolding s using m x u by (auto simp: mem_inv_def)
  moreover have "\<forall>p \<in> dom U. (L(st t := None, t := None)) p = U p" using m u by (auto simp: mem_inv_def)
  ultimately show "mem_inv osz st (L(st t := None, t := None)) U (T - {t})" using m s unfolding mem_inv_def by blast
qed

section \<open>Creating a thread\<close>

lemma strncpy_frame: "x < d \<or> d + n \<le> x \<Longrightarrow> rt_strncpy d a n m x = m x"
proof -
  have "x < d \<or> d + n \<le> x \<Longrightarrow> strncpy_loop d a n m x = m x"
    by (induction d a n m rule: strncpy_loop.induct) (auto simp: Let_def memset_bytes_eq filled_def)
  then show "x < d \<or> d + n \<le> x \<Longrightarrow> rt_strncpy d a n m x = m x" by (simp add: rt_strncpy_def)
qed

text \<open>A new object is dynamic, and the objects of other threads keep their type.\<close>

lemma allocate_headers:
  assumes "12 \<le> sz" and a: "rt_object_allocate (\<lambda>_. sz) False (Some t) 1 name ob = Some (r, ob')"
  shows "r = Some t" "\<not> rt_object_is_systemobject t ob'"
    "u + 12 \<le> t \<or> t + sz \<le> u \<Longrightarrow> rt_object_is_systemobject u ob' = rt_object_is_systemobject u ob"
proof -
  let ?m = "(rt_memset t 0 sz (omem ob))(t + 10 := 1, t + 11 := 0)"
  have e: "r = Some t" "ob' = obj_insert 1 t (ob\<lparr>omem := rt_strncpy t name 10 ?m\<rparr>)"
    using a by (auto simp: rt_object_allocate_def information_iff rt_object_container_def Let_def)
  then show "r = Some t" "\<not> rt_object_is_systemobject t ob'"
    by (simp_all add: rt_object_is_systemobject_def obj_type_def obj_insert_def strncpy_frame)
  show "rt_object_is_systemobject u ob' = rt_object_is_systemobject u ob" if "u + 12 \<le> t \<or> t + sz \<le> u"
    using that assms(1) by (auto simp: e(2) rt_object_is_systemobject_def obj_type_def obj_insert_def strncpy_frame memset_eq filled_def)
qed

lemma thread_create_ok:
  assumes inv: "heap_inv L (theap s)" and irq: "irq_nest (kern s) = 0" and sz: "12 \<le> unat osz" "unat osz \<le> 4294967288" "unat ssz \<le> 4294967288"
    and p: "unat pr < 32" and T: "\<forall>u \<in> T. L u = Some (unat osz) \<and> dynamic s u" and c: "thread_create osz name ssz pr tick s = Some (r, s')"
  shows "heap_ptr (theap s') = heap_ptr (theap s) \<and> heap_end (theap s') = heap_end (theap s) \<and> (\<forall>u \<in> T. dynamic s' u)
    \<and> (case r of
         None \<Rightarrow> heap_inv L (theap s') \<and> kern s' = kern s \<and> stack_addr s' = stack_addr s
       | Some t \<Rightarrow> \<exists>a. L t = None \<and> L a = None \<and> a \<noteq> t \<and> heap_inv (L(t \<mapsto> unat osz, a \<mapsto> unat ssz)) (theap s') \<and> dynamic s' t
           \<and> rt_thread_init t False pr tick (kern s) = Some (kern s') \<and> stack_addr s' = (stack_addr s)(t := a))"
  using inv irq block_size_ge [OF sz(2)]
proof (cases rule: malloc_inv)
  case none
  then show ?thesis using c irq T inv
    by (auto simp: thread_create_def rt_object_allocate_def information_iff rt_object_container_def dynamic_def)
next
  case (some t h)
  obtain ob where ob: "rt_object_allocate (\<lambda>_. unat osz) False (Some t) 1 name (tobjs s) = Some (Some t, ob)"
    by (auto simp: rt_object_allocate_def information_iff rt_object_container_def Let_def)
  note hd = allocate_headers(2,3) [OF sz(1) ob]
  have nT: "t \<notin> T" using T some(4) by auto
  have apart: "u + 12 \<le> t \<or> t + unat osz \<le> u" if "u \<in> T" for u
    using heap_inv_disjoint [OF some(5), of t "unat osz" u "unat osz"] T that nT sz(1) by (cases "t = u") (auto split: if_splits)
  then have ob2: "\<not> rt_object_is_systemobject u ob" if "u \<in> T" for u using hd(2) [of u] T that by (auto simp: dynamic_def)
  have e: "thread_create osz name ssz pr tick s = do {
         (stack_start, h) \<leftarrow> rt_malloc ssz (kern s) h;
         if stack_start = RT_NULL then do {
           ob \<leftarrow> rt_object_delete t ob;
           h \<leftarrow> rt_free t (kern s) h;
           Some (None, s\<lparr>theap := h, tobjs := ob\<rparr>) }
         else do {
           (r, k) \<leftarrow> rt_thread_create (Some t) True pr tick (kern s);
           Some (r, s\<lparr>kern := k, theap := h, tobjs := ob, stack_addr := (stack_addr s)(t := stack_start)\<rparr>) } }"
    using some(1,2) ob irq by (simp add: thread_create_def)
  show ?thesis
    using some(5) irq block_size_ge [OF sz(3)]
  proof (cases rule: malloc_inv)
    case none
    obtain h2 where h2: "rt_free t (kern s) h = Some h2" "heap_inv ((L(t \<mapsto> unat osz))(t := None)) h2" "heap_ptr h2 = heap_ptr h" "heap_end h2 = heap_end h"
      by (rule free_inv [OF some(5) irq, of t]) simp
    have "(L(t \<mapsto> unat osz))(t := None) = L" using some(4) by auto
    then show ?thesis using c none h2 some hd(1) ob2 nT unfolding e
      by (auto simp: rt_object_delete_def rt_object_is_systemobject_def dynamic_def obj_remove_def obj_type_def)
  next
    case (some a h')
    have "rt_thread_create (Some t) True pr tick (kern s) = Some (Some t, the (rt_thread_init t False pr tick (kern s)))"
      "rt_thread_init t False pr tick (kern s) = Some (the (rt_thread_init t False pr tick (kern s)))"
      using p by (simp_all add: rt_thread_create_def rt_thread_init_def)
    then show ?thesis using c some \<open>heap_ptr h = heap_ptr (theap s)\<close> \<open>heap_end h = heap_end (theap s)\<close> \<open>L t = None\<close> hd(1) ob2 unfolding e
      by (auto simp: dynamic_def split: if_splits)
  qed
qed

section \<open>Histories of threads\<close>

text \<open>The life of threads in the kernel with its memory. \<open>A\<close> are the threads made by \<^verbatim>\<open>rt_thread_create\<close>, \<open>S\<close> those in static memory, \<open>P\<close> those that the idle
  thread has taken and not yet released; between the two others may run. \<open>L\<close> are the live blocks of the heap, \<open>U\<close> those of users other than
  the threads. The rule \<open>other\<close> stands for everything else that the kernel does; static threads have no cleanup function.\<close>

inductive life :: "(nat \<Rightarrow> kernel \<Rightarrow> kernel option) \<Rightarrow> u32 \<Rightarrow> threaded \<Rightarrow> live \<Rightarrow> live \<Rightarrow> nat set \<Rightarrow> nat set \<Rightarrow> nat set \<Rightarrow> bool" for cleanup osz where
  start: "cleared k \<Longrightarrow> heap_run (theap s) L \<Longrightarrow> kern s = rt_system_scheduler_init (rt_system_timer_init k) \<Longrightarrow> life cleanup osz s L L {} {} {}"
| user_malloc: "life cleanup osz s L U S A P \<Longrightarrow> irq_nest (kern s) = 0 \<Longrightarrow> unat w \<le> 4294967288 \<Longrightarrow> rt_malloc w (kern s) (theap s) = Some (p, h) \<Longrightarrow>
    p \<noteq> RT_NULL \<Longrightarrow> life cleanup osz (s\<lparr>theap := h\<rparr>) (L(p \<mapsto> unat w)) (U(p \<mapsto> unat w)) S A P"
| user_free: "life cleanup osz s L U S A P \<Longrightarrow> irq_nest (kern s) = 0 \<Longrightarrow> U p = Some n \<Longrightarrow> rt_free p (kern s) (theap s) = Some h \<Longrightarrow>
    life cleanup osz (s\<lparr>theap := h\<rparr>) (L(p := None)) (U(p := None)) S A P"
| create: "life cleanup osz s L U S A P \<Longrightarrow> irq_nest (kern s) = 0 \<Longrightarrow> unat ssz \<le> 4294967288 \<Longrightarrow> unat pr < 32 \<Longrightarrow>
    thread_create osz name ssz pr tick s = Some (Some t, s') \<Longrightarrow>
    life cleanup osz s' (L(t \<mapsto> unat osz, stack_addr s' t \<mapsto> unat ssz)) U S (insert t A) P"
| create_fails: "life cleanup osz s L U S A P \<Longrightarrow> irq_nest (kern s) = 0 \<Longrightarrow> unat ssz \<le> 4294967288 \<Longrightarrow> unat pr < 32 \<Longrightarrow>
    thread_create osz name ssz pr tick s = Some (None, s') \<Longrightarrow> life cleanup osz s' L U S A P"
| static: "life cleanup osz s L U S A P \<Longrightarrow> t < heap_ptr (theap s) \<or> heap_end (theap s) \<le> t \<Longrightarrow> t \<notin> S \<Longrightarrow>
    rt_thread_init t True pr tick (kern s) = Some k \<Longrightarrow> life cleanup osz (s\<lparr>kern := k\<rparr>) L U (insert t S) A P"
| startup: "life cleanup osz s L U S A P \<Longrightarrow> t \<in> A \<union> S \<Longrightarrow> unat (init_priority (threads (kern s) t)) < 32 \<Longrightarrow>
    rt_thread_startup t (kern s) = Some k \<Longrightarrow> life cleanup osz (s\<lparr>kern := k\<rparr>) L U S A P"
| run: "life cleanup osz s L U S A P \<Longrightarrow> current (kern s) = None \<Longrightarrow> ready_group (kern s) \<noteq> 0 \<Longrightarrow>
    rt_system_scheduler_start (kern s) = Some k \<Longrightarrow> life cleanup osz (s\<lparr>kern := k\<rparr>) L U S A P"
| delete: "life cleanup osz s L U S A P \<Longrightarrow> t \<in> A \<Longrightarrow> stat_of (threads (kern s) t) = RT_THREAD_INIT \<or> started (threads (kern s) t) \<Longrightarrow>
    rt_thread_delete t (kern s) = Some k \<Longrightarrow> life cleanup osz (s\<lparr>kern := k\<rparr>) L U S A P"
| exit: "life cleanup osz s L U S A P \<Longrightarrow> t \<in> A \<Longrightarrow> runs t (kern s) \<Longrightarrow> rt_thread_exit (kern s) = Some k \<Longrightarrow>
    life cleanup osz (s\<lparr>kern := k\<rparr>) L U S A P"
| other: "life cleanup osz s L U S A P \<Longrightarrow> kernel_ok k \<Longrightarrow> lists k LDefunct = lists (kern s) LDefunct \<Longrightarrow>
    \<forall>u. started (threads k u) \<longrightarrow> u \<in> A \<union> S \<Longrightarrow> life cleanup osz (s\<lparr>kern := k\<rparr>) L U S A P"
| take: "life cleanup osz s L U S A P \<Longrightarrow> irq_nest (kern s) = 0 \<Longrightarrow> lock_nest (kern s) = 0 \<Longrightarrow> current (kern s) \<noteq> None \<Longrightarrow>
    idle_take cleanup s = Some (Some t, s') \<Longrightarrow> life cleanup osz s' L U S (A - {t}) (insert t P)"
| release: "life cleanup osz s L U S A P \<Longrightarrow> irq_nest (kern s) = 0 \<Longrightarrow> t \<in> P \<Longrightarrow> idle_release t s = Some s' \<Longrightarrow>
    life cleanup osz s' (L(stack_addr s t := None, t := None)) U S A (P - {t})"

definition life_inv :: "u32 \<Rightarrow> threaded \<Rightarrow> live \<Rightarrow> live \<Rightarrow> nat set \<Rightarrow> nat set \<Rightarrow> nat set \<Rightarrow> bool" where
  "life_inv osz s L U S A P \<longleftrightarrow> kernel_ok (kern s) \<and> heap_inv L (theap s) \<and> mem_inv osz (stack_addr s) L U (A \<union> P) \<and> A \<inter> P = {}
     \<and> (\<forall>t \<in> A \<union> P. dynamic s t) \<and> (\<forall>t \<in> S. t < heap_ptr (theap s) \<or> heap_end (theap s) \<le> t)
     \<and> (\<forall>u. started (threads (kern s) u) \<longrightarrow> u \<in> A \<union> S) \<and> set (lists (kern s) LDefunct) \<subseteq> A"

text \<open>Steps that only change the kernel.\<close>

lemma life_kern:
  assumes "life_inv osz s L U S A P" and "kernel_ok k" and "\<And>u. started (threads k u) \<Longrightarrow> u \<in> A \<union> S" and "set (lists k LDefunct) \<subseteq> A"
  shows "life_inv osz (s\<lparr>kern := k\<rparr>) L U S A P"
  using assms by (simp add: life_inv_def dynamic_def)

lemma schedule_started:
  assumes "sched_ok k" "rt_schedule k = Some k'" "started (threads k' u)"
  shows "started (threads k u)"
  using schedule_frame(7) [OF assms(1,2), of u] assms(3) by (fastforce simp: started_def)

text \<open>A block of the heap is no static thread, so a new thread is not yet known to the kernel.\<close>

lemma new_thread:
  assumes i: "life_inv osz s L U S A P" and t: "t \<notin> A" "t \<notin> S"
  shows "nolist t (kern s)" "TThread t \<notin> set (timer_list (kern s))" "\<not> started (threads (kern s) t)"
proof -
  have ok: "kernel_ok (kern s)" and n: "\<not> started (threads (kern s) t)" "t \<notin> set (lists (kern s) LDefunct)" using i t by (auto simp: life_inv_def)
  show "\<not> started (threads (kern s) t)" by (rule n)
  show "nolist t (kern s)"
    using base_okD(3,4) [OF kernel_okD(4) [OF ok]] n unfolding nolist_def ready_ok_def wait_ok_def started_def by (metis insertCI lhead.exhaust)
  show "TThread t \<notin> set (timer_list (kern s))" using n(1) by (intro no_timer [OF ok]) (auto simp: started_def)
qed

lemma init_frame:
  assumes "rt_thread_init t st pr tick k = Some k'"
  shows "unat pr < 32" "lists k' = lists k" "\<And>u. u \<noteq> t \<Longrightarrow> threads k' u = threads k u"
  using assms by (auto simp: rt_thread_init_def Let_def rt_timer_init_obj_def)

lemma init_life:
  assumes i: "life_inv osz s L U S A P" and t: "t \<notin> A" "t \<notin> S" and r: "rt_thread_init t st pr tick (kern s) = Some k"
  shows "kernel_ok k" "\<And>u. started (threads k u) \<Longrightarrow> u \<in> A \<union> S" "set (lists k LDefunct) \<subseteq> A"
proof -
  note n = new_thread [OF i t] and f = init_frame [OF r]
  have ok: "kernel_ok (kern s)" using i by (simp add: life_inv_def)
  obtain k' where k': "rt_thread_init t st pr tick (kern s) = Some k'" "kernel_ok k'" "stat_of (threads k' t) = RT_THREAD_INIT"
    by (rule thread_init_kernel [OF ok n(1,2) f(1)])
  then show "kernel_ok k" using r by simp
  show "set (lists k LDefunct) \<subseteq> A" using i f(2) by (simp add: life_inv_def)
  show "u \<in> A \<union> S" if "started (threads k u)" for u
    using that i f(3) [of u] k'(1,3) r by (cases "u = t") (auto simp: life_inv_def started_def)
qed

text \<open>What starting and ending a thread do to the other threads and to the list of dead ones.\<close>

lemma startup_frame:
  assumes ok: "kernel_ok k" and p: "unat (init_priority (threads k t)) < 32" and r: "rt_thread_startup t k = Some k'"
  shows "kernel_ok k'" "lists k' LDefunct = lists k LDefunct" "\<And>u. u \<noteq> t \<Longrightarrow> started (threads k' u) \<Longrightarrow> started (threads k u)"
proof -
  have s: "stat_of (threads k t) = RT_THREAD_INIT" using r by (auto simp: rt_thread_startup_def split: if_splits)
  show "kernel_ok k'" using startup_kernel [OF ok s p] r by (metis option.inject)
  let ?k1 = "upd_thread t (\<lambda>th. th\<lparr>current_priority := init_priority th, number_mask := 2 ^ unat (init_priority th), stat := 2\<rparr>) k"
  let ?k2 = "snd (rt_thread_resume t ?k1)"
  have n: "nolist t k" using s by (intro not_listed [OF kernel_okD(4) [OF ok]]) auto
  have ok1: "kernel_ok ?k1" by (rule upd_idle_kernel [OF ok n no_timer [OF ok]]) (use s p in \<open>simp_all add: stat_of_def\<close>)
  have s1: "stat_of (threads ?k1 t) = RT_THREAD_SUSPEND" by (simp add: stat_of_def)
  note res = resume_kernel [OF ok1 s1]
  have fold: "upd_thread t (\<lambda>th. th\<lparr>stat := 2\<rparr>) (upd_thread t (\<lambda>th. th\<lparr>number_mask := 2 ^ unat (init_priority (threads k t))\<rparr>)
      (upd_thread t (\<lambda>th. th\<lparr>current_priority := init_priority th\<rparr>) k)) = ?k1" by (simp add: upd_thread_def)
  have "shl1 (current_priority (threads (upd_thread t (\<lambda>th. th\<lparr>current_priority := init_priority th\<rparr>) k) t))
      = Some (2 ^ unat (init_priority (threads k t)))" using p by (simp add: shl1_def)
  then have e: "rt_thread_startup t k = (if current k \<noteq> None then rt_schedule ?k2 else Some ?k2)"
    by (simp only: rt_thread_startup_def Let_def s RT_ASSERT_simps Option.bind.simps fold rt_thread_self_def res(3) upd_thread_simps simp_thms)
  have d2: "lists ?k2 LDefunct = lists k LDefunct" using res(9) [of LDefunct] n by (simp add: nolist_def removeAll_id)
  have st: "started (threads k u)" if "u \<noteq> t" "started (threads ?k2 u)" for u using that res(8) [of u] by simp
  show "lists k' LDefunct = lists k LDefunct"
    using r e d2 schedule_frame(8) [OF kernel_okD(1) [OF res(2)], of k' LDefunct] by (auto split: if_splits)
  show "started (threads k u)" if "u \<noteq> t" "started (threads k' u)" for u
    using r e st [OF that(1)] schedule_started [OF kernel_okD(1) [OF res(2)], of k' u] that(2) by (auto split: if_splits)
qed

lemma start_frame:
  assumes ok: "kernel_ok k" and c: "current k = None" "ready_group k \<noteq> 0" and r: "rt_system_scheduler_start k = Some k'"
  shows "kernel_ok k'" "lists k' LDefunct = lists k LDefunct" "\<And>u. started (threads k' u) \<Longrightarrow> started (threads k u)"
proof -
  note b = kernel_okD(4) [OF ok]
  obtain t ts hp where h: "get_highest_priority_thread k = Some (t, hp)" "lists k (LReady hp) = t # ts" using highest_ok [OF b c(2)] by metis
  have e: "k' = upd_thread t (\<lambda>th. th\<lparr>stat := RT_THREAD_RUNNING\<rparr>) (rt_schedule_remove_thread t (k\<lparr>current := Some t\<rparr>))"
    using r h(1) by (simp add: rt_system_scheduler_start_def Let_def)
  have s: "stat_of (threads k t) = RT_THREAD_READY" using base_okD(3) [OF b] h(2) unfolding ready_ok_def by (metis list.set_intros(1))
  have m: "t \<in> set (lists k (LReady hp))" using h(2) by simp
  then have "t \<notin> set (lists k LDefunct)" using base_okD(1) [OF b] unfolding lists_ok_def by blast
  then show "lists k' LDefunct = lists k LDefunct" by (simp add: e removeAll_id)
  show "started (threads k u)" if "started (threads k' u)" for u using that s by (cases "u = t") (auto simp: e started_def)
  have "sched_ok k'" using scheduler_start_ok [OF kernel_okD(1) [OF ok] c] r by auto
  moreover have "timers_ok k'" using kernel_okD(2) [OF ok] by (subst timers_ok_cong [of _ k]) (simp_all add: e)
  moreover have "period_ok k'" using kernel_okD(5) [OF ok] by (rule period_ok_cong [rotated 2]) (simp_all add: e)
  moreover have "tt_ok k'" using kernel_okD(3) [OF ok] s by (auto simp: tt_ok_def e)
  ultimately show "kernel_ok k'" by (simp add: kernel_ok_def)
qed

lemma delete_frame:
  assumes ok: "kernel_ok k" and s: "stat_of (threads k t) = RT_THREAD_INIT \<or> started (threads k t)" and r: "rt_thread_delete t k = Some k'"
  shows "kernel_ok k'" "set (lists k' LDefunct) \<subseteq> insert t (set (lists k LDefunct))" "\<And>u. started (threads k' u) \<Longrightarrow> started (threads k u)"
proof -
  have "\<not> is_static (threads k t)" using r by (auto simp: rt_thread_delete_def split: if_splits)
  then show "kernel_ok k'" using delete_kernel [OF ok s] r by (metis option.inject)
  show "set (lists k' LDefunct) \<subseteq> insert t (set (lists k LDefunct))"
    using r by (auto simp: rt_thread_delete_def rt_timer_detach_def Let_def split: if_splits)
  show "started (threads k u)" if "started (threads k' u)" for u
    using r that by (cases "u = t") (auto simp: rt_thread_delete_def rt_timer_detach_def Let_def started_def stat_of_def split: if_splits)
qed

lemma exit_frame:
  assumes ok: "kernel_ok k" and c: "runs t k" and r: "rt_thread_exit k = Some k'"
  shows "kernel_ok k'" "set (lists k' LDefunct) \<subseteq> insert t (set (lists k LDefunct))" "\<And>u. started (threads k' u) \<Longrightarrow> started (threads k u)"
proof -
  have c: "current k = Some t" "stat_of (threads k t) = RT_THREAD_RUNNING" using c by (simp_all add: runs_def)
  show "kernel_ok k'" using exit_kernel [OF ok c] r by (metis option.inject)
  let ?k2 = "upd_thread t (\<lambda>th. th\<lparr>stat := RT_THREAD_CLOSE\<rparr>) (rt_timer_detach (TThread t) (rt_schedule_remove_thread t k))"
  let ?k3 = "if is_static (threads k t) \<and> \<not> has_cleanup (threads k t) then ?k2 else tlist_insert_after LDefunct t ?k2"
  have st: "stat_of (threads k t) = RT_THREAD_INIT \<or> started (threads k t)" using c by (simp add: started_def)
  have ok3: "kernel_ok ?k3" using close_kernel [OF ok st refl refl] c(2) by simp
  have e: "rt_timer_detach (TThread t) (upd_thread t (\<lambda>th. th\<lparr>stat := RT_THREAD_CLOSE\<rparr>) (rt_schedule_remove_thread t k)) = ?k2"
    by (simp add: rt_timer_detach_def rt_timer_remove_def upd_thread_def)
  have "rt_thread_exit k = rt_schedule ?k3"
    using c by (simp add: rt_thread_exit_def rt_thread_self_def Let_def e) (auto simp: rt_timer_detach_def)
  then have x: "rt_schedule ?k3 = Some k'" using r by simp
  have "lists k' LDefunct = lists ?k3 LDefunct" using schedule_frame(8) [OF kernel_okD(1) [OF ok3] x, of LDefunct] by simp
  then show "set (lists k' LDefunct) \<subseteq> insert t (set (lists k LDefunct))" by (auto simp: rt_timer_detach_def split: if_splits)
  show "started (threads k u)" if "started (threads k' u)" for u
    using schedule_started [OF kernel_okD(1) [OF ok3] x that] by (cases "u = t") (auto simp: rt_timer_detach_def started_def stat_of_def split: if_splits)
qed

text \<open>The steps on the memory, one by one.\<close>

lemma life_malloc:
  assumes i: "life_inv osz s L U S A P" and irq: "irq_nest (kern s) = 0" and w: "unat w \<le> 4294967288" and r: "rt_malloc w (kern s) (theap s) = Some (p, h)" "p \<noteq> RT_NULL"
  shows "life_inv osz (s\<lparr>theap := h\<rparr>) (L(p \<mapsto> unat w)) (U(p \<mapsto> unat w)) S A P"
proof -
  have inv: "heap_inv L (theap s)" "mem_inv osz (stack_addr s) L U (A \<union> P)" using i by (simp_all add: life_inv_def)
  from inv(1) irq block_size_ge [OF w] show ?thesis
  proof (cases rule: malloc_inv)
    case none
    with r show ?thesis by simp
  next
    case (some p' h')
    then have e: "p' = p" "h' = h" using r(1) by simp_all
    from mem_user [OF inv(2) some(4)] show ?thesis using i some(5,7,8) unfolding life_inv_def e by (simp add: dynamic_def)
  qed
qed

lemma life_free:
  assumes i: "life_inv osz s L U S A P" and irq: "irq_nest (kern s) = 0" and u: "U p = Some n" and r: "rt_free p (kern s) (theap s) = Some h"
  shows "life_inv osz (s\<lparr>theap := h\<rparr>) (L(p := None)) (U(p := None)) S A P"
proof -
  have inv: "heap_inv L (theap s)" "mem_inv osz (stack_addr s) L U (A \<union> P)" using i by (simp_all add: life_inv_def)
  have "L p = Some n" using inv(2) u unfolding mem_inv_def by (metis domI)
  then obtain h' where "rt_free p (kern s) (theap s) = Some h'" "heap_inv (L(p := None)) h'" "heap_ptr h' = heap_ptr (theap s)" "heap_end h' = heap_end (theap s)"
    by (rule free_inv [OF inv(1) irq])
  then have h: "heap_inv (L(p := None)) h" "heap_ptr h = heap_ptr (theap s)" "heap_end h = heap_end (theap s)" using r by simp_all
  from mem_user_free [OF inv(2) u] show ?thesis using i h unfolding life_inv_def by (simp add: dynamic_def)
qed

lemma life_create:
  assumes i: "life_inv osz s L U S A P" and irq: "irq_nest (kern s) = 0" and sz: "12 \<le> unat osz" "unat osz \<le> 4294967288" "unat ssz \<le> 4294967288"
    and p: "unat pr < 32" and c: "thread_create osz name ssz pr tick s = Some (Some t, s')"
  shows "life_inv osz s' (L(t \<mapsto> unat osz, stack_addr s' t \<mapsto> unat ssz)) U S (insert t A) P"
proof -
  note d = i [unfolded life_inv_def]
  have T: "\<forall>u \<in> A \<union> P. L u = Some (unat osz) \<and> dynamic s u" using d by (auto simp: mem_inv_def)
  from thread_create_ok [OF _ irq sz p T c] d obtain a where c: "L t = None" "L a = None" "a \<noteq> t"
    "heap_inv (L(t \<mapsto> unat osz, a \<mapsto> unat ssz)) (theap s')" "dynamic s' t" "rt_thread_init t False pr tick (kern s) = Some (kern s')"
    "stack_addr s' = (stack_addr s)(t := a)" "heap_ptr (theap s') = heap_ptr (theap s)" "heap_end (theap s') = heap_end (theap s)" "\<forall>u \<in> A \<union> P. dynamic s' u"
    by auto
  have n: "t \<notin> A" "t \<notin> P" using T c(1) by auto
  have "(L(t \<mapsto> unat osz, a \<mapsto> unat ssz)) t = Some (unat osz)" using c(3) by simp
  from heap_inv_block [OF c(4) this] have "t \<notin> S" using d c(8,9) sz(1) by auto
  note k = init_life [OF i n(1) this c(6)]
  have "mem_inv osz (stack_addr s') (L(t \<mapsto> unat osz, a \<mapsto> unat ssz)) U (insert t (A \<union> P))" unfolding c(7) using d c(1-3) by (intro mem_add) auto
  moreover have "insert t A \<union> P = insert t (A \<union> P)" "stack_addr s' t = a" using c(7) by simp_all
  ultimately show ?thesis using d k c n unfolding life_inv_def by auto
qed

lemma life_static:
  assumes i: "life_inv osz s L U S A P" and t: "t < heap_ptr (theap s) \<or> heap_end (theap s) \<le> t" "t \<notin> S" and sz: "12 \<le> unat osz"
    and r: "rt_thread_init t True pr tick (kern s) = Some k"
  shows "life_inv osz (s\<lparr>kern := k\<rparr>) L U (insert t S) A P"
proof -
  have "t \<notin> A"
  proof
    assume "t \<in> A"
    then have l: "L t = Some (unat osz)" "heap_inv L (theap s)" using i by (auto simp: life_inv_def mem_inv_def)
    from heap_inv_block [OF l(2,1)] t(1) sz show False by auto
  qed
  from init_life [OF i this t(2) r] show ?thesis using i t(1) by (auto simp: life_inv_def dynamic_def)
qed

lemma life_take:
  assumes i: "life_inv osz s L U S A P" and cl: "cleanup_ok cleanup" and r: "irq_nest (kern s) = 0" "lock_nest (kern s) = 0" "current (kern s) \<noteq> None"
    and t: "idle_take cleanup s = Some (Some t, s')"
  shows "life_inv osz s' L U S (A - {t}) (insert t P)"
proof -
  note d = i [unfolded life_inv_def]
  obtain t' ts where l: "lists (kern s) LDefunct = t' # ts"
    using t by (cases "lists (kern s) LDefunct") (auto simp: idle_take_def has_defunct_thread_def bind_eq_Some_conv)
  obtain k where k: "idle_take cleanup s = Some (if rt_object_is_systemobject t' (tobjs s)
        then (None, s\<lparr>kern := k, tobjs := rt_object_detach t' (tobjs s)\<rparr>) else (Some t', s\<lparr>kern := k\<rparr>))"
    "kernel_ok k" "lists k LDefunct = ts" "\<And>u. started (threads k u) \<Longrightarrow> started (threads (kern s) u)"
    using take_defunct [OF _ cl r(1,2) l r(3)] d by metis
  have e: "t' = t" "s' = s\<lparr>kern := k\<rparr>" using k(1) t by (auto split: if_splits)
  have A: "t \<in> A" "t \<notin> P" using d l e(1) by auto
  have c: "stat_of (threads (kern s) t) = RT_THREAD_CLOSE" "t \<notin> set ts" using defunct_removed(3,4) [OF _ l] d e(1) by auto
  have "u \<in> A - {t} \<union> S" if "started (threads k u)" for u using k(4) [OF that] d c(1) by (cases "u = t") (auto simp: started_def)
  moreover have "A - {t} \<union> insert t P = A \<union> P" using A by auto
  ultimately show ?thesis using d k(2,3) A c(2) l unfolding e(2) life_inv_def by (auto simp: dynamic_def e(1))
qed

lemma life_release:
  assumes i: "life_inv osz s L U S A P" and irq: "irq_nest (kern s) = 0" and t: "t \<in> P" and r: "idle_release t s = Some s'"
  shows "life_inv osz s' (L(stack_addr s t := None, t := None)) U S A (P - {t})"
proof -
  note d = i [unfolded life_inv_def]
  have T: "t \<in> A \<union> P" using t by simp
  have m: "mem_inv osz (stack_addr s) L U (A \<union> P)" using d by simp
  note dr = mem_drop [OF m T]
  obtain h where h: "idle_release t s = Some (s\<lparr>theap := h, tobjs := obj_remove t ((tobjs s)\<lparr>omem := (omem (tobjs s))(t + 10 := 0)\<rparr>)\<rparr>)"
    "heap_inv (L(stack_addr s t := None, t := None)) h" "heap_ptr h = heap_ptr (theap s)" "heap_end h = heap_end (theap s)"
    by (rule release_thread [of L s t]) (use d T dr irq in \<open>auto simp: dynamic_def\<close>)
  have dy: "dynamic s' u" if "u \<in> A \<union> P - {t}" for u
    using that d h(1) r by (auto simp: dynamic_def rt_object_is_systemobject_def obj_type_def obj_remove_def)
  have "A \<union> P - {t} = A \<union> (P - {t})" using d t by auto
  then show ?thesis using d h r dr(1) dy unfolding life_inv_def by auto
qed

text \<open>The steps of the kernel.\<close>

lemma life_startup:
  assumes i: "life_inv osz s L U S A P" and t: "t \<in> A \<union> S" "unat (init_priority (threads (kern s) t)) < 32" and r: "rt_thread_startup t (kern s) = Some k"
  shows "life_inv osz (s\<lparr>kern := k\<rparr>) L U S A P"
proof -
  have ok: "kernel_ok (kern s)" using i by (simp add: life_inv_def)
  note f = startup_frame [OF ok t(2) r]
  have "u \<in> A \<union> S" if "started (threads k u)" for u using f(3) [of u] that t(1) i by (cases "u = t") (auto simp: life_inv_def)
  then show ?thesis by (rule life_kern [OF i f(1)]) (use f(2) i in \<open>auto simp: life_inv_def\<close>)
qed

lemma life_kern_frame:
  assumes i: "life_inv osz s L U S A P" and t: "t \<in> A" and k: "kernel_ok k" "set (lists k LDefunct) \<subseteq> insert t (set (lists (kern s) LDefunct))"
    "\<And>u. started (threads k u) \<Longrightarrow> started (threads (kern s) u)"
  shows "life_inv osz (s\<lparr>kern := k\<rparr>) L U S A P"
  by (rule life_kern [OF i k(1)]) (use i t k(2,3) in \<open>auto simp: life_inv_def\<close>)

lemma life_ok:
  assumes "life cleanup osz s L U S A P" and cl: "cleanup_ok cleanup" and sz: "12 \<le> unat osz" "unat osz \<le> 4294967288"
  shows "life_inv osz s L U S A P"
  using assms(1)
proof induction
  case (start k s L)
  have "lists (kern s) LDefunct = []" "\<not> started (threads (kern s) u)" for u
    using start by (simp_all add: cleared_def rt_system_scheduler_init_def rt_system_timer_init_def started_def stat_of_def)
  then show ?case using start cleared_kernel [OF start(1)] heap_run_inv [OF start(2)] by (auto simp: life_inv_def mem_inv_def)
next
  case (user_malloc s L U S A P w p h)
  then show ?case by (intro life_malloc)
next
  case (user_free s L U S A P p n h)
  then show ?case by (intro life_free)
next
  case (create s L U S A P ssz pr name tick t s')
  then show ?case using sz by (intro life_create)
next
  case (create_fails s L U S A P ssz pr name tick s')
  note i = create_fails.IH [unfolded life_inv_def]
  have T: "\<forall>u \<in> A \<union> P. L u = Some (unat osz) \<and> dynamic s u" using i by (auto simp: mem_inv_def)
  from thread_create_ok [OF _ create_fails(2) sz create_fails(3,4) T create_fails(5)] i show ?case by (auto simp: life_inv_def)
next
  case (static s L U S A P t pr tick k)
  then show ?case using sz(1) by (intro life_static)
next
  case (startup s L U S A P t k)
  then show ?case by (intro life_startup)
next
  case (run s L U S A P k)
  then have "kernel_ok (kern s)" by (simp add: life_inv_def)
  note f = start_frame [OF this run(2,3,4)]
  show ?case by (rule life_kern [OF run.IH f(1)]) (use f run in \<open>auto simp: life_inv_def\<close>)
next
  case (delete s L U S A P t k)
  then have "kernel_ok (kern s)" by (simp add: life_inv_def)
  from delete_frame [OF this delete(3,4)] show ?case by (rule life_kern_frame [OF delete.IH delete(2)])
next
  case (exit s L U S A P t k)
  then have "kernel_ok (kern s)" by (simp add: life_inv_def)
  from exit_frame [OF this exit(3,4)] show ?case by (rule life_kern_frame [OF exit.IH exit(2)])
next
  case (other s L U S A P k)
  then show ?case by (intro life_kern) (auto simp: life_inv_def)
next
  case (take s L U S A P t s')
  then show ?case using cl by (intro life_take)
next
  case (release s L U S A P t s')
  then show ?case by (intro life_release)
qed

section \<open>Properties\<close>

text \<open>C12: From reset to the main thread. On cleared memory, and if the object and the stack of the main thread can be allocated, rtthread_startup ends in
  rt_system_scheduler_start with the main thread running, the idle thread alone in the last ready list, no timer running, and a state from which every history of
  the kernel may begin. Without the memory the assertion of rt_application_init fails.\<close>

theorem boot_runs_main:
  assumes "cleared k" and "main \<noteq> idle"
  shows "(\<exists>k'. rtthread_startup (Some main) True idle k = Some k' \<and> runs main k' \<and> lists k' (LReady 31) = [idle]
      \<and> (\<forall>l. l \<noteq> LReady 31 \<longrightarrow> lists k' l = []) \<and> timer_list k' = [] \<and> lock_nest k' = 0 \<and> kernel_ok k' \<and> sys_run (\<lambda>_. None) k')
    \<and> rtthread_startup None stack idle k = None \<and> rtthread_startup obj False idle k = None"
proof -
  from startup_runs_main [OF assms] obtain k' where k': "rtthread_startup (Some main) True idle k = Some k'" "kernel_ok k'" "runs main k'"
    "lists k' (LReady 31) = [idle]" "\<forall>l. l \<noteq> LReady 31 \<longrightarrow> lists k' l = []" "timer_list k' = []" "lock_nest k' = 0" by blast
  have "sys_run (\<lambda>_. None) k'" using k'(2,3,5) by (intro sys_run.boot) (auto simp: runs_def is_wait_def)
  moreover have "rtthread_startup None stack idle k = None \<and> rtthread_startup obj False idle k = None"
    by (cases obj) (simp_all add: rtthread_startup_def rt_application_init_def rt_thread_create_def Let_def)
  ultimately show ?thesis using k' by blast
qed

definition reset_kernel :: kernel where
  "reset_kernel = \<lparr>threads = \<lambda>_. \<lparr>stat = 0, current_priority = 0, init_priority = 0, number_mask = 0, init_tick = 0, remaining_tick = 0, t_error = 0,
       is_static = False, has_cleanup = False, event_set = 0, event_info = 0\<rparr>,
     lists = \<lambda>_. [], ready_group = 0, current = None, rt_current_priority = 0, lock_nest = 0, irq_nest = 0,
     timers = \<lambda>_. \<lparr>tm_active = False, tm_periodic = False, timeout_tick = 0, tm_init_tick = 0\<rparr>, timer_list = [], rt_tick = 0\<rparr>"

lemma reset_cleared: "cleared reset_kernel"
  by (simp add: cleared_def reset_kernel_def)

theorem boot_runs_main_witness: "\<exists>k'. rtthread_startup (Some 5000) True 100 reset_kernel = Some k' \<and> runs 5000 k'"
  using boot_runs_main [OF reset_cleared, of 5000 100 True None] by auto

lemma distinct_blocks:
  "distinct ts \<Longrightarrow> inj_on (stack_addr s) (set ts) \<Longrightarrow> stack_addr s ` set ts \<inter> set ts = {} \<Longrightarrow> distinct (blocks s ts)"
  by (induction ts) (auto simp: blocks_def)

lemma set_blocks: "set (blocks s ts) = set ts \<union> stack_addr s ` set ts"
  by (auto simp: blocks_def)

text \<open>C11: The memory of threads is never lost and never released twice. In every history of threads that are created, started, deleted or end themselves, with users of the
  heap and all other activity of the kernel in between, the live blocks are those of the users and two for each thread that was created and not yet released, all
  different. Every thread that the idle thread has taken is released without a failed assertion. Whenever nothing else is ready, one call of
  rt_thread_idle_excute returns, and then all dead threads and their two blocks are gone and everything else is still there.\<close>

theorem threads_never_leak:
  assumes "life cleanup osz s L U S A P" and "cleanup_ok cleanup" and "12 \<le> unat osz" and "unat osz \<le> 4294967288" and "T = A \<union> P"
  shows "dom L = dom U \<union> T \<union> stack_addr s ` T \<and> inj_on (stack_addr s) T \<and> stack_addr s ` T \<inter> T = {} \<and> dom U \<inter> (T \<union> stack_addr s ` T) = {}
    \<and> (irq_nest (kern s) = 0 \<longrightarrow> (\<forall>t \<in> P. idle_release t s \<noteq> None))
    \<and> (irq_nest (kern s) = 0 \<and> lock_nest (kern s) = 0 \<and> current (kern s) \<noteq> None \<and> ready_group (kern s) = 0 \<longrightarrow>
        (\<exists>s' D. rt_thread_idle_excute cleanup s = Some s' \<and> kernel_ok (kern s') \<and> D = set (lists (kern s) LDefunct) \<and> lists (kern s') LDefunct = []
           \<and> heap_inv (L |` (dom U \<union> (T - D) \<union> stack_addr s ` (T - D))) (theap s')))"
proof -
  from life_ok [OF assms(1-4)] have i: "kernel_ok (kern s)" "heap_inv L (theap s)" "mem_inv osz (stack_addr s) L U T" "\<forall>t \<in> T. dynamic s t"
    "set (lists (kern s) LDefunct) \<subseteq> A" by (auto simp: life_inv_def assms(5))
  have m: "dom L = dom U \<union> T \<union> stack_addr s ` T" "inj_on (stack_addr s) T" "stack_addr s ` T \<inter> T = {}" "dom U \<inter> (T \<union> stack_addr s ` T) = {}"
    using i(3) by (simp_all add: mem_inv_def)
  have r: "idle_release t s \<noteq> None" if "irq_nest (kern s) = 0" "t \<in> P" for t
  proof -
    have t: "t \<in> T" using that(2) assms(5) by simp
    have "\<not> rt_object_is_systemobject t (tobjs s)" using i(4) t by (auto simp: dynamic_def)
    from release_thread [OF i(2) that(1) this mem_drop(3,2,4) [OF i(3) t]] show ?thesis by blast
  qed
  let ?ds = "lists (kern s) LDefunct"
  have D: "set ?ds \<subseteq> T" "distinct ?ds" using i(5) assms(5) base_okD(1) [OF kernel_okD(4) [OF i(1)]] by (auto simp: lists_ok_def)
  have w: "takeWhile (dynamic s) ?ds = ?ds" "dropWhile (dynamic s) ?ds = []" using D(1) i(4) by auto
  have b: "distinct (blocks s ?ds)" by (rule distinct_blocks [OF D(2)]) (use m(2,3) D(1) in \<open>auto intro: inj_on_subset\<close>)
  have "set (blocks s ?ds) \<subseteq> dom L" using D(1) unfolding set_blocks m(1) by blast
  then have l: "\<forall>p \<in> set (blocks s ?ds). L p \<noteq> None" by auto
  have e: "L |` (- set (blocks s ?ds)) = L |` (dom U \<union> (T - set ?ds) \<union> stack_addr s ` (T - set ?ds))"
  proof (rule restrict_map_cong_dom)
    show "dom L \<inter> - set (blocks s ?ds) = dom L \<inter> (dom U \<union> (T - set ?ds) \<union> stack_addr s ` (T - set ?ds))"
      unfolding set_blocks m(1) inj_on_image_set_diff [OF m(2) Diff_subset D(1)] using m(3,4) D(1) by blast
  qed
  have "\<exists>s'. rt_thread_idle_excute cleanup s = Some s' \<and> kernel_ok (kern s') \<and> lists (kern s') LDefunct = []
      \<and> heap_inv (L |` (dom U \<union> (T - set ?ds) \<union> stack_addr s ` (T - set ?ds))) (theap s')"
    if "irq_nest (kern s) = 0" "lock_nest (kern s) = 0" "current (kern s) \<noteq> None" "ready_group (kern s) = 0"
    using idle_reclaims [OF assms(2) i(1,2) that w(1) [symmetric] b l] e w(2) by auto
  with m r show ?thesis by auto
qed

section \<open>A thread that is created, deleted and released\<close>

text \<open>The first allocation leaves \<^verbatim>\<open>lfree\<close> at the rest of the heap, so that a second one succeeds.\<close>

lemma first_malloc:
  assumes ok: "heap_wf [(n, False)] h" and l: "lfree h = heap_ptr h" and irq: "irq_nest k = 0" and z: "w \<noteq> 0" "unat (RT_ALIGN w 8) \<le> mem_size_aligned h"
    and n: "block_size w + 48 \<le> n" "block_size w < mem_size_aligned h"
  obtains h' where "rt_malloc w k h = Some (heap_ptr h + 16, h')" "lfree h' = heap_ptr h + (block_size w + 16)"
    "heap_wf [(block_size w + 16, True), (n - block_size w - 16, False)] h'" "heap_ptr h' = heap_ptr h" "mem_size_aligned h' = mem_size_aligned h"
proof -
  let ?b = "block_size w" and ?h1 = "malloc_take (block_size w) 0 h"
  obtain q where g: "geometry h" and r: "rep h 0 0 [(n, False)] q (mem_size_aligned h + 16)" using ok by (auto elim: heap_wfD)
  have ns: "new_segs ?b n = [(?b + 16, True), (n - ?b - 16, False)]" using n(1) by (simp add: new_segs_def)
  have r0: "rep h 0 0 ([] @ (n, False) # []) q (mem_size_aligned h + 16)" "?b + 16 \<le> n" using r n(1) by simp_all
  have sl: "seg_len [] = 0" by simp
  note mt = malloc_take_rep [OF g r0 block_size_props [of w], unfolded sl append_Nil append_Nil2]
  have f: "heap_ptr ?h1 = heap_ptr h" "heap_end ?h1 = heap_end h" "lfree ?h1 = heap_ptr h" "mem_size_aligned ?h1 = mem_size_aligned h" using mt n(1) l by simp_all
  obtain q' where r1: "rep ?h1 0 0 [(?b + 16, True), (n - ?b - 16, False)] q' (mem_size_aligned h + 16)" using mt(1) n(1) unfolding ns by auto
  have e: "heap_end h = heap_ptr h + n" "heap_ptr h + n < 4294967296" "0 < n" using g rep_end [OF r] n by (auto simp: geometry_def)
  have lf: "lfree_loop ?h1 (heap_ptr h) = Some (heap_ptr h + (?b + 16))"
    using r1 f(1,2) e n(1) by (subst lfree_loop.simps, simp, subst lfree_loop.simps) simp
  from ok irq z obtain h' where h': "rt_malloc w k h = Some (heap_ptr h + 16, h')" "heap_wf (new_segs ?b n) h'" "heap_ptr h' = heap_ptr h" "mem_size_aligned h' = mem_size_aligned h"
  proof (cases rule: malloc_ok)
    case (none as bs)
    then have "as = []" "bs = [(n, False)]" using l e(3) by (auto simp: Cons_eq_append_conv)
    then show ?thesis using none(4) n by simp
  next
    case (some as m bs h')
    then show ?thesis using that by (cases as) auto
  qed
  have s: "malloc_search h ?b 0 = Some (Some 0)" using search_fit [OF g _ r, of ?b] n by simp
  have "lfree h' = heap_ptr h + (?b + 16)"
    using h'(1) z s lf f l e n(1) not_irq [OF irq] by (simp add: rt_malloc_def Let_def flip: block_size_def [unfolded Let_def]) (auto simp: rt_malloc_def Let_def split: if_splits)
  then show ?thesis using that h' ns by simp
qed

lemma second_malloc:
  assumes ok: "heap_wf [(32, True), (48, False)] h" and l: "lfree h = heap_ptr h + 32" and m: "mem_size_aligned h = 64" and irq: "irq_nest k = 0"
  shows "\<exists>p h'. rt_malloc 8 k h = Some (p, h') \<and> p \<noteq> RT_NULL"
proof -
  have "unat (RT_ALIGN (8 :: u32) 8) = 8" by (subst align8) simp_all
  then have b: "block_size 8 = 16" "unat (RT_ALIGN (8 :: u32) 8) \<le> mem_size_aligned h" using m by (simp_all add: block_size_def)
  have nz: "(8 :: u32) \<noteq> 0" by simp
  from ok irq nz b(2) show ?thesis
  proof (cases rule: malloc_ok)
    case (none as bs)
    then have "as = [(32, True)]" "bs = [(48, False)]" using l by (auto simp: Cons_eq_append_conv)
    then show ?thesis using none(4) m b(1) by simp
  qed auto
qed

lemma sample_create:
  obtains s t s' where "life cleanup 12 s Map.empty Map.empty {} {} {}" "kern s = rt_system_scheduler_init (rt_system_timer_init reset_kernel)" "irq_nest (kern s) = 0"
    "thread_create 12 0 8 10 20 s = Some (Some t, s')" "heap_ptr (theap s) = 4096"
proof -
  let ?k = "rt_system_scheduler_init (rt_system_timer_init reset_kernel)"
  have irq: "irq_nest ?k = 0" by (simp add: rt_system_scheduler_init_def rt_system_timer_init_def reset_kernel_def)
  obtain h where h: "heap_run h Map.empty" "heap_wf [(80, False)] h" "heap_ptr h = 4096" "mem_size_aligned h = 64" by (rule sample_init [OF irq])
  have "unat (RT_ALIGN (12 :: u32) 8) = 16" by (subst align8) simp_all
  then have b: "block_size 12 = 16" "unat (RT_ALIGN (12 :: u32) 8) \<le> mem_size_aligned h" using h(4) by (simp_all add: block_size_def)
  obtain h1 where h1: "rt_malloc 12 ?k h = Some (heap_ptr h + 16, h1)" "lfree h1 = heap_ptr h + (block_size 12 + 16)"
    "heap_wf [(block_size 12 + 16, True), (80 - block_size 12 - 16, False)] h1" "heap_ptr h1 = heap_ptr h" "mem_size_aligned h1 = mem_size_aligned h"
    by (rule first_malloc [OF h(2) empty_heap(2) [OF heap_run_state [OF h(1)]] irq _ b(2)]) (use b h in auto)
  obtain p h2 where h2: "rt_malloc 8 ?k h1 = Some (p, h2)" "p \<noteq> RT_NULL" using second_malloc [of h1 ?k] h1 b(1) h(4) irq by auto
  let ?s = "\<lparr>kern = ?k, tobjs = \<lparr>omem = \<lambda>_. 0, object_list = \<lambda>_. []\<rparr>, theap = h, stack_addr = \<lambda>_. 0\<rparr>"
  have "life cleanup 12 ?s Map.empty Map.empty {} {} {}" using h(1) reset_cleared by (intro life.start) auto
  moreover have "\<exists>s'. thread_create 12 0 8 10 20 ?s = Some (Some 4112, s')"
    using h1(1) h2 h(3) irq
    by (simp add: thread_create_def rt_object_allocate_def information_iff rt_object_container_def Let_def rt_thread_create_def rt_thread_init_def)
  ultimately show ?thesis using that [of ?s 4112] irq h(3) by auto
qed

lemma empty_group:
  assumes "kernel_ok k" and "\<And>p. lists k (LReady p) = []"
  shows "ready_group k = 0"
proof -
  have "\<not> bit (ready_group k) p" if "p < 32" for p using base_okD(2) [OF kernel_okD(4) [OF assms(1)]] assms(2) that by (simp add: group_ok_def)
  then show ?thesis by (intro bit_word_eqI) simp
qed

text \<open>The history goes on in three steps: the thread has been created, the idle thread is started and runs, the thread is deleted before it was
  started.\<close>

lemma sample_created:
  assumes cl: "cleanup_ok cleanup"
  obtains s L t where "life cleanup 12 s L Map.empty {} {t} {}" "kernel_ok (kern s)" "heap_ptr (theap s) = 4096" "100 \<noteq> t" "lists (kern s) = (\<lambda>_. [])"
    "current (kern s) = None" "irq_nest (kern s) = 0" "lock_nest (kern s) = 0" "\<not> started (threads (kern s) 100)"
    "stat_of (threads (kern s) t) = RT_THREAD_INIT" "\<not> is_static (threads (kern s) t)"
proof -
  obtain s0 t s where s: "life cleanup 12 s0 Map.empty Map.empty {} {} {}" "kern s0 = rt_system_scheduler_init (rt_system_timer_init reset_kernel)" "irq_nest (kern s0) = 0"
    "thread_create 12 0 8 10 20 s0 = Some (Some t, s)" "heap_ptr (theap s0) = 4096" by (rule sample_create)
  have i0: "life_inv 12 s0 Map.empty Map.empty {} {} {}" by (rule life_ok [OF s(1) cl]) simp_all
  let ?L = "[t \<mapsto> unat (12 :: u32), stack_addr s t \<mapsto> unat (8 :: u32)]"
  have l1: "life cleanup 12 s ?L Map.empty {} {t} {}" using life.create [OF s(1,3) _ _ s(4)] by simp
  have i1: "life_inv 12 s ?L Map.empty {} {t} {}" by (rule life_ok [OF l1 cl]) simp_all
  have hv: "heap_inv Map.empty (theap s0)" using i0 by (simp add: life_inv_def)
  have c: "rt_thread_init t False 10 20 (kern s0) = Some (kern s)" "heap_ptr (theap s) = 4096" "100 \<noteq> t"
  proof -
    have "heap_ptr (theap s) = heap_ptr (theap s0)" "rt_thread_init t False 10 20 (kern s0) = Some (kern s)" "heap_inv ?L (theap s)"
      using thread_create_ok [OF hv s(3), of 12 8 10 "{}", OF _ _ _ _ _ s(4)] i1 by (auto simp: life_inv_def)
    then show "rt_thread_init t False 10 20 (kern s0) = Some (kern s)" "heap_ptr (theap s) = 4096" using s(5) by auto
    obtain y where "?L t = Some y" by (cases "stack_addr s t = t") auto
    from heap_inv_block(2) [OF \<open>heap_inv ?L (theap s)\<close> this] \<open>heap_ptr (theap s) = 4096\<close> show "100 \<noteq> t" by auto
  qed
  have k: "lists (kern s) l = []" "current (kern s) = None" "irq_nest (kern s) = 0" "lock_nest (kern s) = 0" "\<not> started (threads (kern s) 100)"
    "stat_of (threads (kern s) t) = RT_THREAD_INIT" "\<not> is_static (threads (kern s) t)" for l
  proof -
    have z: "lists (kern s0) l = []" "current (kern s0) = None" "lock_nest (kern s0) = 0" "stat (threads (kern s0) u) = 0" for l u
      by (simp_all add: s(2) rt_system_scheduler_init_def rt_system_timer_init_def reset_kernel_def split: lhead.split)
    have e: "kern s = rt_timer_init_obj (TThread t) 0 False (upd_thread t (\<lambda>th. th\<lparr>init_priority := 10, current_priority := 10, number_mask := 0,
       init_tick := 20, remaining_tick := 20, t_error := RT_EOK, stat := RT_THREAD_INIT, is_static := False, has_cleanup := False\<rparr>) (kern s0))"
      using c(1) by (simp add: rt_thread_init_def)
    show "lists (kern s) l = []" "current (kern s) = None" "irq_nest (kern s) = 0" "lock_nest (kern s) = 0" "\<not> started (threads (kern s) 100)"
      "stat_of (threads (kern s) t) = RT_THREAD_INIT" "\<not> is_static (threads (kern s) t)" for l
      using z s(3) c(3) by (simp_all add: e rt_timer_init_obj_def started_def stat_of_def)
  qed
  have "kernel_ok (kern s)" using i1 by (simp add: life_inv_def)
  then show ?thesis using that [OF l1 _ c(2,3)] k by (simp add: fun_eq_iff)
qed

lemma sample_idle_runs:
  assumes cl: "cleanup_ok cleanup"
  obtains s L t where "life cleanup 12 s L Map.empty {100} {t} {}" "kernel_ok (kern s)" "lists (kern s) = (\<lambda>_. [])"
    "current (kern s) = Some 100" "irq_nest (kern s) = 0" "lock_nest (kern s) = 0"
    "stat_of (threads (kern s) t) = RT_THREAD_INIT" "\<not> is_static (threads (kern s) t)"
proof -
  obtain s L t where l1: "life cleanup 12 s L Map.empty {} {t} {}" and ok: "kernel_ok (kern s)" and c: "heap_ptr (theap s) = 4096" "100 \<noteq> t"
    and k: "lists (kern s) = (\<lambda>_. [])" "current (kern s) = None" "irq_nest (kern s) = 0" "lock_nest (kern s) = 0" "\<not> started (threads (kern s) 100)"
    "stat_of (threads (kern s) t) = RT_THREAD_INIT" "\<not> is_static (threads (kern s) t)" by (rule sample_created [OF cl])
  obtain k1 k2 where k2: "rt_thread_init 100 True 31 32 (kern s) = Some k1" "rt_thread_startup 100 k1 = Some k2" "kernel_ok k2" "current k2 = None"
    "lists k2 = (lists (kern s))(LReady 31 := lists (kern s) (LReady 31) @ [100])" "\<And>u. u \<noteq> 100 \<Longrightarrow> threads k2 u = threads (kern s) u"
    "irq_nest k2 = irq_nest (kern s)" "lock_nest k2 = lock_nest (kern s)"
    by (rule startup_new [OF ok k(2), of 100 31 True 32]) (use k in auto)
  have l2: "life cleanup 12 (s\<lparr>kern := k1\<rparr>) L Map.empty {100} {t} {}" using life.static [OF l1 _ _ k2(1)] c(1) by simp
  have "unat (init_priority (threads k1 100)) < 32" using k2(1) by (auto simp: rt_thread_init_def Let_def rt_timer_init_obj_def)
  then have l3: "life cleanup 12 (s\<lparr>kern := k2\<rparr>) L Map.empty {100} {t} {}" using life.startup [OF l2, of 100 k2] k2(2) by simp
  have l: "lists k2 l = (if l = LReady 31 then [100] else [])" for l using k2(5) k(1) by simp
  have "bit (ready_group k2) 31" using base_okD(2) [OF kernel_okD(4) [OF k2(3)]] l unfolding group_ok_def by auto
  then have g: "ready_group k2 \<noteq> 0" by auto
  obtain u us hp where h: "get_highest_priority_thread k2 = Some (u, hp)" "lists k2 (LReady hp) = u # us" using highest_ok [OF kernel_okD(4) [OF k2(3)] g] by metis
  have u: "u = 100" using h(2) l by (auto split: if_splits)
  let ?k3 = "upd_thread 100 (\<lambda>th. th\<lparr>stat := RT_THREAD_RUNNING\<rparr>) (rt_schedule_remove_thread 100 (k2\<lparr>current := Some 100\<rparr>))"
  have st: "rt_system_scheduler_start k2 = Some ?k3" using h(1) u by (simp add: rt_system_scheduler_start_def Let_def)
  have l4: "life cleanup 12 (s\<lparr>kern := ?k3\<rparr>) L Map.empty {100} {t} {}" using life.run [OF l3, of ?k3] k2(4) g st by simp
  have f: "lists ?k3 l = []" "threads ?k3 t = threads (kern s) t" "current ?k3 = Some 100" "irq_nest ?k3 = 0" "lock_nest ?k3 = 0" for l
    using l k2(6) [of t] k2(7,8) c(2) k(3,4) by simp_all
  have "kernel_ok ?k3" by (rule start_frame(1) [OF k2(3,4) g st])
  then show ?thesis using that [OF l4] f k(6,7) by (simp add: fun_eq_iff)
qed

lemma sample_dead:
  assumes cl: "cleanup_ok cleanup"
  obtains s L t where "life cleanup 12 s L Map.empty {100} {t} {}" "lists (kern s) LDefunct = [t]" "irq_nest (kern s) = 0" "lock_nest (kern s) = 0"
    "current (kern s) = Some 100" "ready_group (kern s) = 0"
proof -
  obtain s L t where l4: "life cleanup 12 s L Map.empty {100} {t} {}" and ok: "kernel_ok (kern s)"
    and f: "lists (kern s) = (\<lambda>_. [])" "current (kern s) = Some 100" "irq_nest (kern s) = 0" "lock_nest (kern s) = 0"
    "stat_of (threads (kern s) t) = RT_THREAD_INIT" "\<not> is_static (threads (kern s) t)" by (rule sample_idle_runs [OF cl])
  have "\<exists>k4. rt_thread_delete t (kern s) = Some k4" using f(6) by (simp add: rt_thread_delete_def)
  then obtain k4 where d: "rt_thread_delete t (kern s) = Some k4" by blast
  have l5: "life cleanup 12 (s\<lparr>kern := k4\<rparr>) L Map.empty {100} {t} {}" using life.delete [OF l4, of t k4] d f(5) by simp
  have e: "lists k4 = (lists (kern s))(LDefunct := [t])" "current k4 = Some 100" "irq_nest k4 = 0" "lock_nest k4 = 0"
    using d f by (auto simp: rt_thread_delete_def rt_timer_detach_def Let_def tlist_insert_after_def split: if_splits)
  have ok4: "kernel_ok k4" using delete_frame(1) [OF ok _ d] f(5) by simp
  have "ready_group k4 = 0" by (rule empty_group [OF ok4]) (use e(1) f(1) in simp)
  then show ?thesis using that [OF l5] e f(1) by simp
qed

theorem threads_never_leak_witness:
  "\<exists>s t s'. lists (kern s) LDefunct = [t] \<and> rt_thread_idle_excute (\<lambda>_. Some) s = Some s' \<and> lists (kern s') LDefunct = [] \<and> heap_inv Map.empty (theap s')"
proof -
  have cl: "cleanup_ok (\<lambda>_. Some)" by (simp add: cleanup_ok_def)
  obtain s L t where s: "life (\<lambda>_. Some) 12 s L Map.empty {100} {t} {}" "lists (kern s) LDefunct = [t]" "irq_nest (kern s) = 0" "lock_nest (kern s) = 0"
    "current (kern s) = Some 100" "ready_group (kern s) = 0" by (rule sample_dead [OF cl])
  from threads_never_leak [OF s(1) cl, of "{t}"] s(2-6) show ?thesis by (auto simp: restrict_map_def)
qed

end
