(* ===== verification/Spec2Isabelle.thy ===== *)
theory Spec2Isabelle
  imports
    Prelude Bounded_Fifo Mq_Pool Gpio Main_Ctrl Nb_Conn File_Wr
    Rt_List Kernel_State Scheduler Timer Thread Clock
    Ipc Ipc_Sem Ipc_Mutex Ipc_Event Mailbox Ipc_Mq
    Undisturbed System System_Run Rt_Heap Rt_Heap_Run Mempool
    Kservice_Mem Kservice_Print Uart Object Device Adc
    Simple_Gui Gui Idle
begin

text \<open>
  Verification of the TeamReach weighing station: an application for the Loongson 1B board that weighs parts with
  an A/D converter, counts and judges them, shows the result on a screen, logs it in a yaffs file and publishes it
  through an NB-IoT modem. It runs on RT-Thread 4.

  \<^bold>\<open>The program and its parts.\<close> Two pin interrupts (main.c, ls1x-drv/gpio/ls1x_gpio.c, RTT4/port/irq.c) send
  messages to the queue \<^verbatim>\<open>main_mq\<close>. The main thread (main.c) takes them, weighs, updates its records, drives the
  output pin and sends messages to the screen, the log thread (file_wr.c) and the modem thread (nb_conn.c), which
  answer through \<^verbatim>\<open>main_mq\<close>. Threads and interrupts meet in the kernel: the scheduler (RTT4/src/scheduler.c) runs
  the most urgent ready thread, the tick interrupt (RTT4/src/clock.c) ends time slices and runs expired timers
  (RTT4/src/timer.c), and the IPC objects (RTT4/src/ipc.c) suspend and resume threads (RTT4/src/thread.c) on
  intrusive lists (RTT4/include/rtservice.h).

  \<^bold>\<open>Theories.\<close>
  \<^item> Prelude: word and list facts, \<^verbatim>\<open>memcpy\<close>, little-endian words, error codes, \<^verbatim>\<open>RT_ASSERT\<close> (a failed assertion is
    \<open>None\<close>) and \<^verbatim>\<open>RT_ALIGN\<close>.
  \<^item> Bounded_Fifo: the locale \<open>bounded_fifo\<close>, the contract of a bounded first-in first-out store; its lemmas on runs of
    puts and gets are proved once. Mq_Pool and Mailbox interpret it.
  \<^item> Mq_Pool: the message pool of a queue, slots linked by index; one definition per atomic section of
    \<^verbatim>\<open>rt_mq_send_wait\<close>, \<^verbatim>\<open>rt_mq_urgent\<close>, \<^verbatim>\<open>rt_mq_recv\<close>; a step relation for all interleavings of the sections.
  \<^item> Gpio: pins, interrupt controller registers and the interrupt dispatcher.
  \<^item> Main_Ctrl: main.c with its start-up, main loop (a turn per message, cut at its delay) and both interrupt
    handlers; a reachability relation for all interleavings with buttons and peers.
  \<^item> Nb_Conn, File_Wr: the two peers. The serial line is a pair of byte-string lists; the yaffs functions are a record
    argument with the laws \<open>yaffs_laws\<close>, satisfied by a concrete file in the witnesses.
  \<^item> Rt_List: the doubly linked lists as a heap of \<^verbatim>\<open>next\<close> and \<^verbatim>\<open>prev\<close> fields, with the locale \<open>intrusive_lists\<close>. It shows
    that the pointer operations implement list operations, so that the kernel theories use HOL lists.
  \<^item> Kernel_State: the find-first-set table, and the records of threads, timers and the kernel state: the thread control
    blocks, the lists (\<open>LReady p\<close>, \<open>LDefunct\<close>, \<open>LIpc i\<close>, \<open>LSender i\<close>), the timer list, tick, locks and nesting counters.
  \<^item> Scheduler, Timer, Thread, Clock: one definition per function. Functions that switch to another thread in the middle
    are cut at \<^verbatim>\<open>rt_schedule\<close> into a beginning and an end (\<open>rt_thread_sleep_begin\<close>, \<open>rt_thread_sleep_end\<close>).
  \<^item> Ipc, Ipc_Sem, Ipc_Mutex, Ipc_Event, Mailbox, Ipc_Mq: the waiting lists and the IPC objects; a blocking function
    returns \<open>Done r\<close>, or \<open>Waiting t\<close> when its thread was suspended, and is then continued by its \<open>_end\<close> or \<open>_resume\<close> function.
  \<^item> Undisturbed, System, System_Run: the composition. The locale \<open>ipc_object\<close> says what an object promises to live beside others in
    one kernel (its steps keep its invariant and leave the lists of others undisturbed; its invariant survives such steps of
    others). System interprets it for the five kinds of objects; System_Run has the step relation of the whole kernel: objects created
    and removed, calls of threads and interrupts, the life of the threads, the tick.
  \<^item> Rt_Heap, Rt_Heap_Run: the heap of RTT4/src/mem.c, a memory with headers and bytes. Rt_Heap shows that the headers describe
    a list of segments and what each operation does to it; Rt_Heap_Run has the histories of calls with the live blocks, and the
    locale \<open>region_heap\<close>, what a user of the heap relies on.
  \<^item> Mempool: the pools of RTT4/src/mempool.c, with waiting threads; pools that are created take their memory from the heap
    through \<open>region_heap\<close>.
  \<^item> Kservice_Mem, Kservice_Print: the memory, string and print functions of RTT4/src/kservice.c, on a memory of bytes and on
    character buffers.
  \<^item> Uart: the serial driver ls1x-drv/uart/ns16550.c. The chip is a function argument that gives the value of every register read; the locale
    \<open>lossy_fifo\<close> is the contract of the ring buffers.
  \<^item> Object: the object system of RTT4/src/object.c on the memory of Kservice_Mem, with the locale \<open>directory\<close>.
  \<^item> Device: the device layer of RTT4/src/device.c for any driver that keeps the contract of the locale \<open>device_driver\<close>, and the serial devices
    of RTT4/bsp-ls1x/drv_uart.c, which keep it.
  \<^item> Adc: the I2C bus ls1x-drv/i2c/ls1x_i2c_bus.c, the converter ls1x-drv/i2c/ads1015/ads1015.c and its device RTT4/bsp-ls1x/i2c/drv_ads1015.c. The
    state has the record of all register accesses and of the mutex; as for the serial port, the chip is a function argument.
  \<^item> Idle: the start of the kernel (RTT4/src/components.c) and the idle thread (RTT4/src/idle.c), where kernel, object system and heap meet: the
    histories of threads with the memory of their objects and stacks.
  \<^item> Simple_Gui: the buttons and grids of gui/simple-gui/simple_gui.c; what is painted is a list of calls of the frame buffer driver. The locale
    \<open>text_table\<close> is the contract of a table of texts, which the grid keeps.
  \<^item> Gui: gui/new_gui.c, the screen of the program: its start, the thread that shows the messages of the controller, and the buttons.

  \<^bold>\<open>What the lemmas show.\<close> \<open>kernel_ok\<close> (theory Thread) is the invariant of the kernel: a thread is in the list its
  state says and in no other, the ready bitmap is exact, the timer list is sorted by expiry relative to the current
  tick, only suspended threads have running timers. Every operation keeps it; the tick interrupt keeps it and
  terminates. On top: the scheduler runs a most urgent thread, sleeping is exact, semaphores count, mutexes exclude
  and inherit priorities, events wake exactly the satisfied threads, mailboxes and message queues deliver in order;
  the message queue refines an abstract bounded list. All these invariants hold at once in every reachable state of a kernel
  with any number of objects, and every call returns there. Heap blocks are aligned, disjoint and keep their contents, and
  released memory is merged again; pool blocks are disjoint from each other and from the rest of the heap. Start-up ends in the
  main thread, and the idle thread gives back the memory of dead threads, each once. The word-wise memory functions are the byte-wise ones; formatted output writes one text, cut to
  its buffer, and printed numbers read back. The serial driver delivers bytes in order; devices are found by name, and reference count and
  state of the port agree. For the application: the weighing signals are controlled, the
  counters are right, no assertion fails, and the reports reach the modem and the log. The converter gives a reading of twelve bits or leaves the
  variable as it was, which is all that the model of main.c assumes of it. The cells of a grid never overlap and nothing is painted outside of it; the
  screen shows the last message for each cell, and its buttons reach the controller and come back as a new threshold.

  \<^bold>\<open>Bounds and fuel.\<close> Machine integers are words of their width. Addresses and sizes of the heap and
  of pools are natural numbers with explicit wrap-around at \<open>2\<^sup>3\<^sup>2\<close>. The only fuel is that of the reset loop of the message
  pool, the number of slots, proved enough. The loops over lists whose end depends on the state (\<^verbatim>\<open>rt_timer_check\<close>,
  \<^verbatim>\<open>rt_ipc_list_resume_all\<close>, \<^verbatim>\<open>rt_list_len\<close>, the searches of \<^verbatim>\<open>rt_malloc\<close>, \<^verbatim>\<open>rt_thread_idle_excute\<close>) are partial functions that are proved to return. Waiting times are less
  than 0x7fffffff ticks, the limit \<^verbatim>\<open>rt_timer_start\<close> asserts.

  \<^bold>\<open>Configuration.\<close> That of the board: one processor, 32 priorities, a timer list of one level, context checks on; no
  signals and no soft timers. Trace hooks, debug output, object type assertions and stack checks are left out.

  \<^bold>\<open>Not modelled.\<close> The allocation inside the creation functions of the IPC objects and widgets (they take the allocator's answer as an
  argument; theory Idle has that of threads), the initialisation of the board, the conversion \<^verbatim>\<open>%f\<close> of kservice.c and its console device, the shades of the buttons
  (floating point, an argument), the creation of the threads of the application, delays, the allocators that are not used (slab.c, memheap.c), and
  the libraries the program only calls or does not use at all: yaffs2, lwIP, dfs, finsh, lvgl, and the other drivers.
\<close>

end
